(* ===== verification/Prelude.thy ===== *)
theory Prelude
  imports Main "HOL-Library.Word"
begin

text \<open>
  Shared vocabulary of the kernel model: the C integer types as words, the ways a kernel
  function can fail to return, the sequencing of such functions, and the generic facts on
  words, lists and aligned addresses the component theories use.

  \<^item> \<open>u8\<close>, \<open>u16\<close>, \<open>u32\<close>, \<open>u64\<close> are the C types \<open>uint8_t\<close> to \<open>uint64_t\<close> (\<open>uintptr_t\<close> and
    \<open>size_t\<close> are 64 bits wide on the RV64 target); \<open>+\<close>, \<open>-\<close>, \<open>*\<close> wrap as in C.
  \<^item> \<open>fault\<close> is a way of not returning to the caller: \<open>panic\<close> with its message, a failed
    \<open>assert\<close> (which panics with no message), an access or an operation the C standard leaves
    undefined, a deliberate halt, and, in the components that are modelled one call at a time,
    waiting for a lock that is held.
  \<^item> \<open>'a res\<close> is the result of a function that may fault: \<open>Inl\<close> the fault, \<open>Inr\<close> the value.
\<close>

unbundle bit_operations_syntax

section \<open>Types\<close>

type_synonym u8 = "8 word"
type_synonym u16 = "16 word"
type_synonym u32 = "32 word"
type_synonym u64 = "64 word"

datatype fault =
    Panic string
  | AssertFailed
  | UndefinedAccess
  | HaltSuccess
  | Blocked

type_synonym 'a res = "fault + 'a"

named_theorems kdefs \<open>definitions of the kernel model that proofs unfold together\<close>

section \<open>Sequencing of functions that may fault\<close>

definition bind_res :: "'a res \<Rightarrow> ('a \<Rightarrow> 'b res) \<Rightarrow> 'b res" where
  "bind_res r f = (case r of Inl e \<Rightarrow> Inl e | Inr a \<Rightarrow> f a)"

lemma bind_res_simps [simp]:
  "bind_res (Inl e) f = Inl e"
  "bind_res (Inr a) f = f a"
  by (simp_all add: bind_res_def)

lemma bind_res_Inr_conv:
  "bind_res r f = Inr b \<longleftrightarrow> (\<exists>a. r = Inr a \<and> f a = Inr b)"
  by (cases r) auto

lemma bind_res_Inl_conv:
  "bind_res r f = Inl e \<longleftrightarrow> r = Inl e \<or> (\<exists>a. r = Inr a \<and> f a = Inl e)"
  by (cases r) auto

definition check :: "bool \<Rightarrow> fault \<Rightarrow> unit res" where
  "check b e = (if b then Inr () else Inl e)"

lemma check_simps [simp]:
  "check True e = Inr ()"
  "check False e = Inl e"
  "check b e = Inr u \<longleftrightarrow> b"
  "check b e = Inl e' \<longleftrightarrow> \<not> b \<and> e' = e"
  by (auto simp: check_def)

text \<open>The same for functions that may also run for ever, the value \<open>None\<close>.\<close>

definition bind_opt :: "'a res option \<Rightarrow> ('a \<Rightarrow> 'b res option) \<Rightarrow> 'b res option" where
  "bind_opt r f = (case r of None \<Rightarrow> None | Some (Inl e) \<Rightarrow> Some (Inl e) | Some (Inr a) \<Rightarrow> f a)"

lemma bind_opt_simps [simp]:
  "bind_opt None f = None"
  "bind_opt (Some (Inl e)) f = Some (Inl e)"
  "bind_opt (Some (Inr a)) f = f a"
  by (simp_all add: bind_opt_def)

text \<open>A loop over a list of indices whose body may fault.\<close>

fun foldM :: "('a \<Rightarrow> 's \<Rightarrow> 's res) \<Rightarrow> 'a list \<Rightarrow> 's \<Rightarrow> 's res" where
  "foldM f [] s = Inr s"
| "foldM f (x # xs) s = bind_res (f x s) (foldM f xs)"

lemma foldM_append: "foldM f (xs @ ys) s = bind_res (foldM f xs s) (foldM f ys)"
  by (induction xs arbitrary: s) (auto simp: bind_res_def split: sum.splits)

text \<open>
  An invariant kept by the body holds after the loop. The loop index is visible to the
  invariant through the part of the list already processed.
\<close>

lemma foldM_invariant:
  assumes "foldM f xs s = Inr s'" and "P [] s"
    and "\<And>ys x zs t t'. xs = ys @ x # zs \<Longrightarrow> P ys t \<Longrightarrow> f x t = Inr t' \<Longrightarrow> P (ys @ [x]) t'"
  shows "P xs s'"
proof -
  have "foldM f zs t = Inr s' \<Longrightarrow> xs = ys @ zs \<Longrightarrow> P ys t \<Longrightarrow> P xs s'" for ys zs t
  proof (induction zs arbitrary: ys t)
    case Nil
    then show ?case by simp
  next
    case (Cons z zs)
    then obtain t' where "f z t = Inr t'" and r: "foldM f zs t' = Inr s'"
      by (auto simp: bind_res_Inr_conv)
    then have "P (ys @ [z]) t'" using Cons.prems(2,3) assms(3) by blast
    with r Cons.IH [of t' "ys @ [z]"] Cons.prems(2) show ?case by simp
  qed
  from this [of xs s "[]"] assms(1,2) show ?thesis by simp
qed

section \<open>Words and aligned addresses\<close>

lemma unat_word64_less [simp]: "unat (w :: u64) < 18446744073709551616"
  using unsigned_less [of w, where ?'a = nat] by simp

lemma unat_minus_if:
  fixes x y :: "'a::len word"
  shows "unat (x - y) = (if y \<le> x then unat x - unat y else 2 ^ LENGTH('a) + unat x - unat y)"
  by (auto simp: unat_sub_if_size word_size word_le_nat_alt)

text \<open>
  \<open>aligned k p\<close>: the address \<open>p\<close> is a multiple of \<open>2 ^ k\<close>. Two addresses with the same
  alignment are equal or at least \<open>2 ^ k\<close> apart, also when the distance is computed with
  wrap-around.
\<close>

definition aligned :: "nat \<Rightarrow> u64 \<Rightarrow> bool" where
  "aligned k p \<longleftrightarrow> 2 ^ k dvd unat p"

lemma aligned_0 [simp]: "aligned k 0"
  by (simp add: aligned_def)

lemma aligned_diff:
  assumes "aligned k p" and "aligned k q" and "k \<le> 64"
  shows "aligned k (p - q)"
proof -
  have "(2::nat) ^ k dvd 2 ^ 64" using assms(3) by (rule le_imp_power_dvd)
  then show ?thesis
    using assms(1,2) by (auto simp: aligned_def unat_minus_if)
qed

lemma aligned_add:
  assumes "aligned k p" and "aligned k q" and "k \<le> 64"
  shows "aligned k (p + q)"
proof -
  have "(2::nat) ^ k dvd 2 ^ 64" using assms(3) by (rule le_imp_power_dvd)
  then show ?thesis
    using assms(1,2) by (simp add: aligned_def unat_word_ariths dvd_mod)
qed

lemma aligned_small_zero:
  assumes "aligned k d" and "unat d < 2 ^ k"
  shows "d = 0"
proof -
  have "unat d = 0" using assms by (auto simp: aligned_def dest: dvd_imp_le)
  then show ?thesis by (simp add: unat_eq_zero)
qed

lemma aligned_near_eq:
  assumes "aligned k p" and "aligned k q" and "k \<le> 64" and "unat (p - q) < 2 ^ k"
  shows "p = q"
proof -
  have "p - q = 0"
    using aligned_diff [OF assms(1-3)] assms(4) by (rule aligned_small_zero)
  then show ?thesis by simp
qed

lemma all_nat_split_Suc: "(\<forall>i. P i) \<longleftrightarrow> P 0 \<and> (\<forall>i. P (Suc i))"
  by (metis not0_implies_Suc)

lemma unat_pages:
  assumes "4096 * n < 18446744073709551616"
  shows "unat (of_nat n * 4096 :: u64) = 4096 * n"
proof -
  have "n < 18446744073709551616" using assms by simp
  then show ?thesis using assms by (simp add: unat_word_ariths unat_of_nat mult.commute)
qed

lemma sint_small:
  fixes w :: u64
  assumes "unat w < 9223372036854775808"
  shows "sint w = int (unat w)"
proof -
  have "uint w = int (unat w)" by simp
  then have "uint w < 9223372036854775808" using assms by linarith
  then have "signed_take_bit 63 (uint w) = uint w" by (intro signed_take_bit_int_eq_self) (simp_all add: order_trans [of _ 0 "uint w"])
  then show ?thesis by (simp add: sint_uint)
qed

end
