(* ===== verification/Queue.thy ===== *)
theory Queue
  imports Prelude
begin

text \<open>
  The contract of a first-in first-out queue, which the thread lists and the ring buffers of
  the UART driver implement: \<open>rep s xs\<close> says that the state \<open>s\<close> holds the elements \<open>xs\<close>, oldest
  first; \<open>room e s\<close> says when an element may be put in. What clients rely on, that elements
  come out in the order they went in and none is lost or repeated, is proved once here.
\<close>

fun enq_all :: "('e \<Rightarrow> 's \<Rightarrow> 's res) \<Rightarrow> 'e list \<Rightarrow> 's \<Rightarrow> 's res" where
  "enq_all enq [] s = Inr s"
| "enq_all enq (e # es) s = bind_res (enq e s) (enq_all enq es)"

fun deq_many :: "('s \<Rightarrow> ('e \<times> 's) res) \<Rightarrow> nat \<Rightarrow> 's \<Rightarrow> ('e list \<times> 's) res" where
  "deq_many deq 0 s = Inr ([], s)"
| "deq_many deq (Suc n) s =
     bind_res (deq s) (\<lambda>(e, s). bind_res (deq_many deq n s) (\<lambda>(es, s). Inr (e # es, s)))"

locale fifo =
  fixes rep :: "'s \<Rightarrow> 'e list \<Rightarrow> bool"
    and room :: "'e list \<Rightarrow> 'e \<Rightarrow> 's \<Rightarrow> bool"
    and enq :: "'e \<Rightarrow> 's \<Rightarrow> 's res"
    and deq :: "'s \<Rightarrow> ('e \<times> 's) res"
  assumes enq_rep: "rep s xs \<Longrightarrow> room xs e s \<Longrightarrow> \<exists>s'. enq e s = Inr s' \<and> rep s' (xs @ [e])"
    and deq_rep: "rep s (x # xs) \<Longrightarrow> \<exists>s'. deq s = Inr (x, s') \<and> rep s' xs"
begin

lemma deq_many_rep:
  "rep s xs \<Longrightarrow> n \<le> length xs \<Longrightarrow>
     \<exists>s'. deq_many deq n s = Inr (take n xs, s') \<and> rep s' (drop n xs)"
proof (induction n arbitrary: s xs)
  case 0
  then show ?case by simp
next
  case (Suc n)
  then obtain x ys where xs: "xs = x # ys" by (cases xs) auto
  with Suc.prems obtain s1 where s1: "deq s = Inr (x, s1)" "rep s1 ys" using deq_rep by blast
  from Suc.IH [OF s1(2)] Suc.prems(2) xs
  obtain s2 where "deq_many deq n s1 = Inr (take n ys, s2)" "rep s2 (drop n ys)" by auto
  with s1(1) xs show ?case by simp
qed

lemma enq_all_rep:
  assumes "\<And>ys e zs s. es = ys @ e # zs \<Longrightarrow> rep s (xs @ ys) \<Longrightarrow> room (xs @ ys) e s"
  shows "rep s xs \<Longrightarrow> \<exists>s'. enq_all enq es s = Inr s' \<and> rep s' (xs @ es)"
  using assms
proof (induction es arbitrary: s xs)
  case Nil
  then show ?case by simp
next
  case (Cons e es)
  obtain s1 where s1: "enq e s = Inr s1" "rep s1 (xs @ [e])"
    using enq_rep [OF Cons.prems(1)] Cons.prems(2) [of "[]" e es] Cons.prems(1) by auto
  have "room ((xs @ [e]) @ ys) d s" if "es = ys @ d # zs" "rep s ((xs @ [e]) @ ys)" for ys d zs s
    using that Cons.prems(2) [of "e # ys" d zs s] by simp
  from Cons.IH [OF s1(2) this] s1(1) show ?case by auto
qed

text \<open>What is put into a queue comes out after what was there, in the order it went in.\<close>

lemma in_out_order:
  assumes "rep s xs"
    and "\<And>ys e zs s. es = ys @ e # zs \<Longrightarrow> rep s (xs @ ys) \<Longrightarrow> room (xs @ ys) e s"
  shows "\<exists>s' s''. enq_all enq es s = Inr s' \<and>
    deq_many deq (length xs + length es) s' = Inr (xs @ es, s'') \<and> rep s'' []"
proof -
  obtain s' where s': "enq_all enq es s = Inr s'" "rep s' (xs @ es)"
    using enq_all_rep [of es xs s] assms by blast
  with deq_many_rep [OF s'(2), of "length xs + length es"] show ?thesis by auto
qed

end

end
