(* ===== verification/PageAlloc.thy ===== *)
theory PageAlloc
  imports Prelude
begin

text \<open>
  The physical page allocator of \<open>kern/memory.c\<close>: the memory the kernel sees through its
  identity mapping, the free list threaded through the free pages themselves,
  \<open>memory_alloc_page\<close> and \<open>memory_free_page\<close>.

  Physical memory is a function from addresses to 64-bit words. The kernel reads and writes
  page tables, list links and whole pages in aligned 64-bit units, so a word is stored at
  each address that is a multiple of 8. \<open>memset(p, 0, PAGE_SIZE)\<close> clears the words of the
  4096 bytes from \<open>p\<close> on.

  The contract of the allocator is the locale \<open>page_source\<close>, extended by \<open>page_allocator\<close> when
  the whole pool is known: a pool of pages that are
  aligned, distinct and not null, of which an allocation takes one, cleared, and to which a
  release gives one back. The clients' facts (no page is handed out twice, allocations made
  one after the other are distinct) are proved in it and reach the model through its
  interpretations.
\<close>

section \<open>State and constants\<close>

definition PAGE_ORDER :: nat where
  "PAGE_ORDER = 12"

definition PAGE_SIZE :: u64 where
  "PAGE_SIZE = 4096"

lemmas page_const [simp] = PAGE_ORDER_def PAGE_SIZE_def

record mm =
  pmem :: "u64 \<Rightarrow> u64"
  free_list :: u64

definition zero_page :: "(u64 \<Rightarrow> u64) \<Rightarrow> u64 \<Rightarrow> (u64 \<Rightarrow> u64)" where
  "zero_page m p = (\<lambda>a. if a - p < PAGE_SIZE then 0 else m a)"

section \<open>The allocator's operations\<close>

definition memory_alloc_page :: "'a mm_scheme \<Rightarrow> (u64 \<times> 'a mm_scheme) res" where
  "memory_alloc_page st =
     (if free_list st = 0
      then Inl (Panic ''no free pages in free_list: memory_alloc_page'')
      else
        let page = free_list st;
            st = st\<lparr>free_list := pmem st page\<rparr>;
            st = st\<lparr>pmem := zero_page (pmem st) page\<rparr>
        in Inr (page, st))"

definition memory_free_page :: "u64 \<Rightarrow> 'a mm_scheme \<Rightarrow> 'a mm_scheme res" where
  "memory_free_page pp st =
     (if pp mod PAGE_SIZE \<noteq> 0 \<or> pp = 0
      then Inl (Panic ''Invalid page address provided in memory_free_page'')
      else
        let m = zero_page (pmem st) pp;
            m = m(pp := free_list st)
        in Inr (st\<lparr>pmem := m, free_list := pp\<rparr>))"

section \<open>The free list as a list of pages\<close>

abbreviation page_aligned :: "u64 \<Rightarrow> bool" where
  "page_aligned \<equiv> aligned 12"

text \<open>
  \<open>free_seg m p ps e\<close>: following the links from \<open>p\<close> visits the pages \<open>ps\<close> and arrives at \<open>e\<close>.
  \<open>free_pages st ps\<close>: the free list is exactly \<open>ps\<close> and ends in the null pointer.
  \<open>free_prefix st ps\<close>: the free list starts with the distinct pages \<open>ps\<close>, whatever comes
  after them. Booting establishes only the latter (see \<open>memory_init\<close>), so the clients of the
  allocator are verified for it.
\<close>

fun free_seg :: "(u64 \<Rightarrow> u64) \<Rightarrow> u64 \<Rightarrow> u64 list \<Rightarrow> u64 \<Rightarrow> bool" where
  "free_seg m p [] e \<longleftrightarrow> p = e"
| "free_seg m p (x # xs) e \<longleftrightarrow> p = x \<and> x \<noteq> 0 \<and> page_aligned x \<and> free_seg m (m x) xs e"

definition free_pages :: "'a mm_scheme \<Rightarrow> u64 list \<Rightarrow> bool" where
  "free_pages st ps \<longleftrightarrow> free_seg (pmem st) (free_list st) ps 0"

definition free_prefix :: "'a mm_scheme \<Rightarrow> u64 list \<Rightarrow> bool" where
  "free_prefix st ps \<longleftrightarrow> distinct ps \<and> (\<exists>e. free_seg (pmem st) (free_list st) ps e)"

lemma free_seg_null [simp]: "free_seg m 0 ps 0 \<longleftrightarrow> ps = []"
  by (cases ps) auto

lemma free_seg_functional: "free_seg m p xs 0 \<Longrightarrow> free_seg m p ys 0 \<Longrightarrow> xs = ys"
proof (induction xs arbitrary: p ys)
  case Nil
  then show ?case by simp
next
  case (Cons x xs)
  then show ?case by (cases ys) auto
qed

lemma free_seg_append:
  "free_seg m p (xs @ ys) e \<longleftrightarrow> (\<exists>q. free_seg m p xs q \<and> free_seg m q ys e)"
  by (induction xs arbitrary: p) auto

lemma free_seg_distinct: "free_seg m p ps 0 \<Longrightarrow> distinct ps"
proof (induction ps arbitrary: p)
  case Nil
  then show ?case by simp
next
  case (Cons x xs)
  have "x \<notin> set xs"
  proof
    assume "x \<in> set xs"
    then obtain ys zs where xs: "xs = ys @ x # zs" by (auto simp: in_set_conv_decomp)
    with Cons.prems have "free_seg m x (x # zs) 0"
      by (auto simp: free_seg_append)
    moreover have "free_seg m x (x # xs) 0" using Cons.prems by simp
    ultimately have "x # zs = x # xs" by (rule free_seg_functional)
    with xs show False by simp
  qed
  with Cons show ?case by auto
qed

lemma free_pages_prefix: "free_pages st ps \<Longrightarrow> free_prefix st ps"
  by (auto simp: free_pages_def free_prefix_def dest: free_seg_distinct)

lemma free_seg_aligned: "free_seg m p ps e \<Longrightarrow> x \<in> set ps \<Longrightarrow> x \<noteq> 0 \<and> page_aligned x"
  by (induction ps arbitrary: p) auto

lemma free_seg_cong:
  "(\<And>x. x \<in> set ps \<Longrightarrow> m' x = m x) \<Longrightarrow> free_seg m' p ps e = free_seg m p ps e"
  by (induction ps arbitrary: p) auto

lemma free_seg_upd [simp]:
  "a \<notin> set ps \<Longrightarrow> free_seg (m(a := w)) p ps e = free_seg m p ps e"
  by (rule free_seg_cong) auto

section \<open>Clearing a page\<close>

lemma aligned_12_iff_mod: "page_aligned p \<longleftrightarrow> p mod PAGE_SIZE = 0"
proof -
  have "unat (p mod 4096) = unat p mod 4096" by (simp add: unat_mod_distrib)
  then show ?thesis
    by (auto simp: aligned_def dvd_eq_mod_eq_0 simp flip: unat_eq_zero)
qed

lemma same_page_iff:
  assumes "page_aligned p" and "page_aligned q"
  shows "p - q < PAGE_SIZE \<longleftrightarrow> p = q"
proof
  assume "p - q < PAGE_SIZE"
  then have "unat (p - q) < 2 ^ 12" by (simp add: word_less_nat_alt)
  with assms show "p = q" by (intro aligned_near_eq [of 12]) auto
qed (simp add: word_less_nat_alt)

lemma page_disjoint:
  assumes "page_aligned p" and "page_aligned q" and "a - p < PAGE_SIZE" and "a - q < PAGE_SIZE"
  shows "p = q"
proof -
  define d where "d = p - q"
  define x where "x = a - p"
  have "aligned 12 d" using assms(1,2) unfolding d_def by (intro aligned_diff) auto
  then obtain k where k: "unat d = 4096 * k" by (auto simp: aligned_def)
  have x: "unat x < 4096" using assms(3) by (simp add: x_def word_less_nat_alt)
  have "a - q = d + x" by (simp add: d_def x_def)
  then have "unat (d + x) < 4096" using assms(4) by (simp add: word_less_nat_alt)
  moreover have "4096 * k + 4096 \<le> 18446744073709551616"
    using k unat_word64_less [of d] by simp
  ultimately have "k = 0" using k x by (simp add: unat_word_ariths)
  with k have "d = 0" by (simp add: unat_eq_zero)
  then show ?thesis by (simp add: d_def)
qed

lemma zero_page_inside [simp]: "a - p < PAGE_SIZE \<Longrightarrow> zero_page m p a = 0"
  by (simp add: zero_page_def)

lemma zero_page_self [simp]: "zero_page m p p = 0"
  by (simp add: zero_page_def word_less_nat_alt)

lemma zero_page_outside: "\<not> a - p < PAGE_SIZE \<Longrightarrow> zero_page m p a = m a"
  by (simp add: zero_page_def)

lemma zero_page_other [simp]:
  "page_aligned p \<Longrightarrow> page_aligned q \<Longrightarrow> q \<noteq> p \<Longrightarrow> zero_page m p q = m q"
  by (simp add: zero_page_def same_page_iff del: page_const)

section \<open>What the operations do\<close>

lemma alloc_seg:
  assumes "free_seg (pmem st) (free_list st) (x # xs) e" and "x \<notin> set xs"
  shows "\<exists>st'. memory_alloc_page st = Inr (x, st') \<and> free_seg (pmem st') (free_list st') xs e
           \<and> pmem st' = zero_page (pmem st) x \<and> mm.more st' = mm.more st"
proof -
  have fl: "free_list st = x" "x \<noteq> 0" "page_aligned x"
    and xs: "free_seg (pmem st) (pmem st x) xs e"
    using assms by auto
  have "free_seg (zero_page (pmem st) x) (pmem st x) xs e"
    using xs fl(3) assms(2)
    by (subst free_seg_cong) (auto intro!: zero_page_other dest: free_seg_aligned)
  then show ?thesis
    using fl by (simp add: memory_alloc_page_def Let_def)
qed

lemma memory_alloc_page_Cons:
  "free_prefix st (x # xs) \<Longrightarrow>
     \<exists>st'. memory_alloc_page st = Inr (x, st') \<and> free_prefix st' xs
       \<and> pmem st' = zero_page (pmem st) x \<and> mm.more st' = mm.more st"
  using alloc_seg unfolding free_prefix_def by (metis distinct.simps(2))

lemma memory_alloc_page_Nil:
  "free_pages st [] \<Longrightarrow>
     memory_alloc_page st = Inl (Panic ''no free pages in free_list: memory_alloc_page'')"
  by (simp add: memory_alloc_page_def free_pages_def)

lemma free_page_seg:
  assumes "free_seg (pmem st) (free_list st) ps e" and "page_aligned pp" and "pp \<noteq> 0" and "pp \<notin> set ps"
  shows "\<exists>st'. memory_free_page pp st = Inr st' \<and> free_seg (pmem st') (free_list st') (pp # ps) e
           \<and> pmem st' = (zero_page (pmem st) pp)(pp := free_list st) \<and> mm.more st' = mm.more st"
proof -
  let ?m = "(zero_page (pmem st) pp)(pp := free_list st)"
  have "free_seg ?m (free_list st) ps e"
    using assms by (subst free_seg_cong) (auto dest: free_seg_aligned)
  then show ?thesis
    using assms by (simp add: memory_free_page_def Let_def
        flip: aligned_12_iff_mod del: page_const)
qed

lemma memory_free_page_ok:
  "free_prefix st ps \<Longrightarrow> page_aligned pp \<Longrightarrow> pp \<noteq> 0 \<Longrightarrow> pp \<notin> set ps \<Longrightarrow>
     \<exists>st'. memory_free_page pp st = Inr st' \<and> free_prefix st' (pp # ps)
       \<and> pmem st' = (zero_page (pmem st) pp)(pp := free_list st) \<and> mm.more st' = mm.more st"
  using free_page_seg unfolding free_prefix_def by (metis distinct.simps(2))

lemma memory_free_page_bad:
  "\<not> page_aligned pp \<or> pp = 0 \<Longrightarrow>
     memory_free_page pp st = Inl (Panic ''Invalid page address provided in memory_free_page'')"
  by (auto simp: memory_free_page_def aligned_12_iff_mod)

section \<open>The allocator's contract\<close>

text \<open>Repeated allocation, for any allocator of pages: the pages in the order they come.\<close>

fun alloc_many :: "('s \<Rightarrow> (u64 \<times> 's) res) \<Rightarrow> nat \<Rightarrow> 's \<Rightarrow> (u64 list \<times> 's) res" where
  "alloc_many alloc 0 s = Inr ([], s)"
| "alloc_many alloc (Suc n) s =
     bind_res (alloc s) (\<lambda>(p, s). bind_res (alloc_many alloc n s) (\<lambda>(ps, s). Inr (p # ps, s)))"

locale page_source =
  fixes alloc :: "'s \<Rightarrow> (u64 \<times> 's) res"
    and release :: "u64 \<Rightarrow> 's \<Rightarrow> 's res"
    and pool :: "'s \<Rightarrow> u64 list \<Rightarrow> bool"
    and word_at :: "'s \<Rightarrow> u64 \<Rightarrow> u64"
  assumes pool_distinct: "pool s ps \<Longrightarrow> distinct ps"
    and pool_page: "pool s ps \<Longrightarrow> p \<in> set ps \<Longrightarrow> p \<noteq> 0 \<and> page_aligned p"
    and alloc_Cons: "pool s (p # ps) \<Longrightarrow>
      \<exists>s'. alloc s = Inr (p, s') \<and> pool s' ps \<and>
        (\<forall>a. word_at s' a = (if a - p < PAGE_SIZE then 0 else word_at s a))"
    and release_pool: "pool s ps \<Longrightarrow> page_aligned p \<Longrightarrow> p \<noteq> 0 \<Longrightarrow> p \<notin> set ps \<Longrightarrow>
      \<exists>s'. release p s = Inr s' \<and> pool s' (p # ps) \<and>
        (\<forall>a. \<not> a - p < PAGE_SIZE \<longrightarrow> word_at s' a = word_at s a)"
    and release_bad: "\<not> page_aligned p \<or> p = 0 \<Longrightarrow> \<exists>msg. release p s = Inl (Panic msg)"
begin

lemma alloc_many_ok:
  "pool s ps \<Longrightarrow> n \<le> length ps \<Longrightarrow>
     \<exists>s'. alloc_many alloc n s = Inr (take n ps, s') \<and> pool s' (drop n ps) \<and>
       (\<forall>a. word_at s' a =
          (if \<exists>p \<in> set (take n ps). a - p < PAGE_SIZE then 0 else word_at s a))"
proof (induction n arbitrary: s ps)
  case 0
  then show ?case by simp
next
  case (Suc n)
  then obtain p qs where ps: "ps = p # qs" and n: "n \<le> length qs" by (cases ps) auto
  with Suc.prems(1) obtain s1 where s1: "alloc s = Inr (p, s1)" "pool s1 qs"
    and w1: "\<And>a. word_at s1 a = (if a - p < PAGE_SIZE then 0 else word_at s a)"
    using alloc_Cons by blast
  from Suc.IH [OF s1(2) n] obtain s2 where
    s2: "alloc_many alloc n s1 = Inr (take n qs, s2)" "pool s2 (drop n qs)"
    and w2: "\<And>a. word_at s2 a =
      (if \<exists>p \<in> set (take n qs). a - p < PAGE_SIZE then 0 else word_at s1 a)"
    by blast
  show ?case
    using s1(1) s2 by (intro exI [of _ s2]) (auto simp: ps w1 w2)
qed

lemma release_then_alloc:
  assumes "pool s ps" and "page_aligned p" and "p \<noteq> 0" and "p \<notin> set ps"
  shows "\<exists>s1 s2. release p s = Inr s1 \<and> alloc s1 = Inr (p, s2) \<and> pool s2 ps \<and>
    (\<forall>a. word_at s2 a = (if a - p < PAGE_SIZE then 0 else word_at s a))"
proof -
  obtain s1 where s1: "release p s = Inr s1" "pool s1 (p # ps)"
    and w: "\<And>a. \<not> a - p < PAGE_SIZE \<Longrightarrow> word_at s1 a = word_at s a"
    using release_pool [OF assms] by blast
  with alloc_Cons [OF s1(2)] show ?thesis by (metis (no_types, lifting))
qed

end

text \<open>A pool that is known completely: it is unique, and allocation fails when it is empty.\<close>

locale page_allocator = page_source +
  assumes pool_unique: "pool s ps \<Longrightarrow> pool s qs \<Longrightarrow> ps = qs"
    and alloc_Nil: "pool s [] \<Longrightarrow> \<exists>msg. alloc s = Inl (Panic msg)"
begin

lemma alloc_many_exhausted:
  "pool s ps \<Longrightarrow> length ps < n \<Longrightarrow> \<exists>msg. alloc_many alloc n s = Inl (Panic msg)"
proof (induction n arbitrary: s ps)
  case 0
  then show ?case by simp
next
  case (Suc n)
  show ?case
  proof (cases ps)
    case Nil
    with Suc.prems show ?thesis using alloc_Nil by fastforce
  next
    case (Cons p qs)
    with Suc.prems obtain s1 where "alloc s = Inr (p, s1)" "pool s1 qs"
      using alloc_Cons by blast
    with Suc Cons show ?thesis by fastforce
  qed
qed

end

interpretation mm_prefix: page_source memory_alloc_page memory_free_page free_prefix pmem
proof
  show "free_prefix s ps \<Longrightarrow> distinct ps" for s :: "'a mm_scheme" and ps
    by (auto simp: free_prefix_def)
  show "free_prefix s ps \<Longrightarrow> p \<in> set ps \<Longrightarrow> p \<noteq> 0 \<and> page_aligned p" for s :: "'a mm_scheme" and ps p
    by (auto simp: free_prefix_def dest: free_seg_aligned)
next
  fix s :: "'a mm_scheme" and p ps
  assume "free_prefix s (p # ps)"
  from memory_alloc_page_Cons [OF this]
  show "\<exists>s'. memory_alloc_page s = Inr (p, s') \<and> free_prefix s' ps \<and>
      (\<forall>a. pmem s' a = (if a - p < PAGE_SIZE then 0 else pmem s a))"
    by (auto simp: zero_page_def)
next
  fix s :: "'a mm_scheme" and p ps
  assume "free_prefix s ps" "page_aligned p" "p \<noteq> 0" "p \<notin> set ps"
  from memory_free_page_ok [OF this]
  show "\<exists>s'. memory_free_page p s = Inr s' \<and> free_prefix s' (p # ps) \<and>
      (\<forall>a. \<not> a - p < PAGE_SIZE \<longrightarrow> pmem s' a = pmem s a)"
    by (auto simp: zero_page_def)
next
  show "\<not> page_aligned p \<or> p = 0 \<Longrightarrow> \<exists>msg. memory_free_page p s = Inl (Panic msg)"
    for s :: "'a mm_scheme" and p
    by (auto simp: memory_free_page_bad)
qed

interpretation mm_pages: page_allocator memory_alloc_page memory_free_page free_pages pmem
proof
  show "free_pages s ps \<Longrightarrow> free_pages s qs \<Longrightarrow> ps = qs" for s :: "'a mm_scheme" and ps qs
    by (auto simp: free_pages_def intro: free_seg_functional)
  show "free_pages s ps \<Longrightarrow> distinct ps" for s :: "'a mm_scheme" and ps
    by (auto simp: free_pages_def intro: free_seg_distinct)
  show "free_pages s ps \<Longrightarrow> p \<in> set ps \<Longrightarrow> p \<noteq> 0 \<and> page_aligned p" for s :: "'a mm_scheme" and ps p
    by (auto simp: free_pages_def dest: free_seg_aligned)
next
  fix s :: "'a mm_scheme" and p ps
  assume f: "free_pages s (p # ps)"
  then have "p \<notin> set ps"
    using free_seg_distinct [of "pmem s" "free_list s" "p # ps"] by (simp add: free_pages_def)
  with alloc_seg [of s p ps 0] f
  show "\<exists>s'. memory_alloc_page s = Inr (p, s') \<and> free_pages s' ps \<and>
      (\<forall>a. pmem s' a = (if a - p < PAGE_SIZE then 0 else pmem s a))"
    by (auto simp: zero_page_def free_pages_def)
next
  show "free_pages s [] \<Longrightarrow> \<exists>msg. memory_alloc_page s = Inl (Panic msg)" for s :: "'a mm_scheme"
    by (auto simp: memory_alloc_page_Nil)
next
  fix s :: "'a mm_scheme" and p ps
  assume "free_pages s ps" "page_aligned p" "p \<noteq> 0" "p \<notin> set ps"
  with free_page_seg [of s ps 0 p]
  show "\<exists>s'. memory_free_page p s = Inr s' \<and> free_pages s' (p # ps) \<and>
      (\<forall>a. \<not> a - p < PAGE_SIZE \<longrightarrow> pmem s' a = pmem s a)"
    by (auto simp: zero_page_def free_pages_def)
next
  show "\<not> page_aligned p \<or> p = 0 \<Longrightarrow> \<exists>msg. memory_free_page p s = Inl (Panic msg)"
    for s :: "'a mm_scheme" and p
    by (auto simp: memory_free_page_bad)
qed

end
