(* ===== verification/Heap.thy ===== *)
theory Heap
  imports PageAlloc
begin

text \<open>
  The kernel heap of \<open>kern/ezheap.c\<close>: a leaking bump allocator that hands out memory from
  the top of the current heap block downwards and asks the page allocator for a fresh page
  when a request does not fit. Its state extends the page allocator's state with the two
  bounds of the current block.

  The main result is that no two allocations overlap, ever: the blocks handed out so far,
  the current heap block and the free pages stay pairwise disjoint, and a block is at least
  as long as the request and aligned to 16 bytes. The rounding of the request to 16 bytes
  wraps for the fifteen largest sizes; those requests succeed and reserve nothing.
\<close>

section \<open>State and operations\<close>

record heapst = mm +
  heap_start :: u64
  heap_end :: u64

definition heap_init :: "u64 \<Rightarrow> u64 \<Rightarrow> 'a heapst_scheme \<Rightarrow> 'a heapst_scheme res" where
  "heap_init start stop st =
     bind_res (check (start < stop) AssertFailed)
       (\<lambda>_. Inr (st\<lparr>heap_start := start, heap_end := stop\<rparr>))"

text \<open>\<open>(size + 16-1) / 16 * 16\<close>, in \<open>size_t\<close>.\<close>

definition round16 :: "u64 \<Rightarrow> u64" where
  "round16 sz = (sz + 16 - 1) div 16 * 16"

definition kmalloc :: "u64 \<Rightarrow> 'a heapst_scheme \<Rightarrow> (u64 \<times> 'a heapst_scheme) res" where
  "kmalloc sz st =
     (let sz = round16 sz in
      if PAGE_SIZE < sz then Inl (Panic ''heap alloc request too large'')
      else if sz \<le> heap_end st - heap_start st
      then let e = heap_end st - sz in Inr (e, st\<lparr>heap_end := e\<rparr>)
      else bind_res (memory_alloc_page st) (\<lambda>(new_block, st).
        if heap_end st - heap_start st < PAGE_SIZE - sz
        then let e = new_block + PAGE_SIZE - sz
             in Inr (e, st\<lparr>heap_start := new_block, heap_end := e\<rparr>)
        else Inr (new_block, st)))"

text \<open>
  \<open>memset(ptr, 0, n)\<close> on a word-granular memory: the bytes of the word at \<open>a\<close> whose
  address lies in the \<open>n\<close> bytes from \<open>p\<close> on become 0.
\<close>

definition keep_byte :: "u64 \<Rightarrow> u64 \<Rightarrow> u64 \<Rightarrow> nat \<Rightarrow> u64" where
  "keep_byte p n a i = (if a + of_nat i - p < n then 0 else push_bit (8 * i) 255)"

definition clear_bytes :: "u64 \<Rightarrow> u64 \<Rightarrow> (u64 \<Rightarrow> u64) \<Rightarrow> (u64 \<Rightarrow> u64)" where
  "clear_bytes p n m = (\<lambda>a. m a AND fold (\<lambda>i w. w OR keep_byte p n a i) [0..<8] 0)"

definition kcalloc :: "u64 \<Rightarrow> u64 \<Rightarrow> 'a heapst_scheme \<Rightarrow> (u64 \<times> 'a heapst_scheme) res" where
  "kcalloc n sz st =
     (if sz = 0 then Inl UndefinedAccess \<comment> \<open>division by zero\<close>
      else if (- 1) div sz < n then Inl (Panic ''heap alloc request too large'')
      else bind_res (kmalloc (n * sz) st) (\<lambda>(ptr, st).
        Inr (ptr, st\<lparr>pmem := clear_bytes ptr (n * sz) (pmem st)\<rparr>)))"

definition krealloc :: "u64 \<Rightarrow> u64 \<Rightarrow> 'a heapst_scheme \<Rightarrow> (u64 \<times> 'a heapst_scheme) res" where
  "krealloc ptr sz st = Inl (Panic ''krealloc not implemented'')"

definition kfree :: "u64 \<Rightarrow> 'a heapst_scheme \<Rightarrow> 'a heapst_scheme" where
  "kfree ptr st = st"

section \<open>Regions of memory\<close>

text \<open>Byte ranges as sets of numbers; \<open>window st\<close> is what the current block still offers.\<close>

definition region :: "u64 \<Rightarrow> nat \<Rightarrow> nat set" where
  "region p n = {unat p ..< unat p + n}"

definition window :: "'a heapst_scheme \<Rightarrow> nat set" where
  "window st = {unat (heap_start st) ..< unat (heap_end st)}"

definition page_region :: "u64 \<Rightarrow> nat set" where
  "page_region p = region p 4096"

text \<open>
  The heap's invariant, over the blocks \<open>bs\<close> handed out so far (address and length) and
  the free pages \<open>ps\<close>.
\<close>

definition heap_inv :: "'a heapst_scheme \<Rightarrow> (u64 \<times> nat) list \<Rightarrow> u64 list \<Rightarrow> bool" where
  "heap_inv st bs ps \<longleftrightarrow>
     heap_start st \<le> heap_end st \<and> aligned 4 (heap_end st) \<and> free_prefix st ps \<and>
     sorted_wrt disjnt (window st # map (\<lambda>(p, n). region p n) bs @ map page_region ps)"

lemma region_empty [simp]: "region p 0 = {}"
  by (simp add: region_def)

lemma aligned_mono: "aligned k p \<Longrightarrow> j \<le> k \<Longrightarrow> aligned j p"
  by (auto simp: aligned_def elim: dvd_trans [OF le_imp_power_dvd])

lemma unat_page_top:
  assumes "page_aligned p"
  shows "unat p + 4096 \<le> 18446744073709551616"
proof -
  obtain k where k: "unat p = 4096 * k" using assms by (auto simp: aligned_def)
  moreover have "unat p < 18446744073709551616" by simp
  ultimately show ?thesis by simp
qed

text \<open>Rounding: exact, unless the sum wraps.\<close>

lemma unat_round16:
  assumes "unat sz \<le> 18446744073709551600"
  shows "unat (round16 sz) = (unat sz + 15) div 16 * 16"
proof -
  have "unat (sz + 15) = unat sz + 15"
    using assms by (simp add: unat_word_ariths)
  then show ?thesis
    using assms by (simp add: round16_def unat_word_ariths unat_div_distrib)
qed

lemma aligned_round16: "aligned 4 (round16 sz)"
proof -
  have "(16::nat) dvd 2 ^ 64" by simp
  then show ?thesis
    by (simp add: round16_def aligned_def unat_word_ariths dvd_mod)
qed

section \<open>Allocations never overlap\<close>

lemma disjnt_move:
  "sorted_wrt disjnt (xs @ x # ys) \<longleftrightarrow> sorted_wrt disjnt (x # xs @ ys)"
  by (induction xs) (auto simp: disjnt_sym)

lemma disjnt_split_head:
  assumes "sorted_wrt disjnt (W # L)" and "W' \<subseteq> W" and "b \<subseteq> W" and "disjnt W' b"
  shows "sorted_wrt disjnt (W' # b # L)"
  using assms by (auto intro: disjnt_subset1)

lemma heap_inv_fits:
  assumes "heap_inv st bs ps" and "sz \<le> heap_end st - heap_start st" and "aligned 4 sz"
  shows "heap_inv (st\<lparr>heap_end := heap_end st - sz\<rparr>) ((heap_end st - sz, unat sz) # bs) ps"
    and "aligned 4 (heap_end st - sz)"
proof -
  let ?e = "heap_end st - sz"
  have ord: "heap_start st \<le> heap_end st" and al: "aligned 4 (heap_end st)"
    and dis: "sorted_wrt disjnt (window st # map (\<lambda>(p, n). region p n) bs @ map page_region ps)"
    and fp: "free_prefix st ps"
    using assms(1) by (auto simp: heap_inv_def)
  have u: "unat sz \<le> unat (heap_end st) - unat (heap_start st)"
    using assms(2) ord by (simp add: word_le_nat_alt unat_minus_if)
  then have e: "unat ?e = unat (heap_end st) - unat sz" "unat (heap_start st) \<le> unat ?e"
    using ord by (auto simp: unat_minus_if word_le_nat_alt)
  have w': "window (st\<lparr>heap_end := ?e\<rparr>) \<subseteq> window st" and b: "region ?e (unat sz) \<subseteq> window st"
    and d: "disjnt (window (st\<lparr>heap_end := ?e\<rparr>)) (region ?e (unat sz))"
    using e u ord by (auto simp: window_def region_def disjnt_iff word_le_nat_alt)
  from al assms(3) show al': "aligned 4 ?e" by (intro aligned_diff) auto
  show "heap_inv (st\<lparr>heap_end := ?e\<rparr>) ((?e, unat sz) # bs) ps"
    using disjnt_split_head [OF dis w' b d] al' fp e(2)
    by (simp add: heap_inv_def free_prefix_def word_le_nat_alt)
qed

text \<open>A fresh page, of which the request takes the top and the rest becomes the new block.\<close>

lemma heap_inv_switch:
  assumes "heap_inv st bs (p # ps)" and "free_prefix st' ps"
    and "sz \<le> PAGE_SIZE" and "sz \<noteq> 0" and "aligned 4 sz"
  defines "e \<equiv> p + PAGE_SIZE - sz"
  shows "heap_inv (st'\<lparr>heap_start := p, heap_end := e\<rparr>) ((e, unat sz) # bs) ps" and "aligned 4 e"
proof -
  let ?bs = "map (\<lambda>(p, n). region p n) bs" and ?st = "st'\<lparr>heap_start := p, heap_end := e\<rparr>"
  have p: "page_aligned p"
    using mm_prefix.pool_page [of st "p # ps" p] assms(1) by (simp add: heap_inv_def)
  have s: "unat sz \<le> 4096" "unat sz \<noteq> 0"
    using assms(3,4) by (auto simp: word_le_nat_alt unat_eq_zero)
  have "e = p + (PAGE_SIZE - sz)" by (simp add: e_def)
  moreover have "unat (PAGE_SIZE - sz) = 4096 - unat sz"
    using assms(3) by (simp add: unat_minus_if)
  ultimately have ue: "unat e = unat p + 4096 - unat sz"
    using unat_page_top [OF p] s by (simp add: unat_word_ariths)
  show al: "aligned 4 e"
    using p assms(5) unfolding e_def
    by (intro aligned_diff aligned_add) (auto simp: aligned_def elim: dvd_trans [rotated])
  have w: "window ?st \<subseteq> page_region p" and b: "region e (unat sz) \<subseteq> page_region p"
    and d: "disjnt (window ?st) (region e (unat sz))"
    using ue s by (auto simp: window_def page_region_def region_def disjnt_iff)
  have "sorted_wrt disjnt (?bs @ page_region p # map page_region ps)"
    using assms(1) by (simp add: heap_inv_def)
  then have "sorted_wrt disjnt (page_region p # ?bs @ map page_region ps)"
    by (simp only: disjnt_move)
  from disjnt_split_head [OF this w b d]
  show "heap_inv ?st ((e, unat sz) # bs) ps"
    using al assms(2) ue s by (simp add: heap_inv_def free_prefix_def word_le_nat_alt)
qed

text \<open>A fresh page used for this request alone: its unused rest is given up.\<close>

lemma heap_inv_whole_page:
  assumes "heap_inv st bs (p # ps)" and "free_prefix st' ps"
    and "heap_start st' = heap_start st" and "heap_end st' = heap_end st" and "sz \<le> PAGE_SIZE"
  shows "heap_inv st' ((p, unat sz) # bs) ps"
proof -
  let ?bs = "map (\<lambda>(p, n). region p n) bs"
  have "region p (unat sz) \<subseteq> page_region p"
    using assms(5) by (auto simp: page_region_def region_def word_le_nat_alt)
  moreover have "sorted_wrt disjnt (window st # ?bs @ page_region p # map page_region ps)"
    using assms(1) by (simp add: heap_inv_def)
  then have "sorted_wrt disjnt (page_region p # window st # ?bs @ map page_region ps)"
    by (rule disjnt_move [THEN iffD1, of "window st # ?bs", unfolded append_Cons])
  ultimately have "sorted_wrt disjnt (window st # region p (unat sz) # ?bs @ map page_region ps)"
    by (auto intro: disjnt_subset1 disjnt_sym [OF disjnt_subset1])
  with assms show ?thesis by (simp add: heap_inv_def window_def)
qed

lemma kmalloc_ok:
  assumes inv: "heap_inv st bs ps" and le: "round16 sz \<le> PAGE_SIZE"
    and room: "round16 sz \<le> heap_end st - heap_start st \<or> ps \<noteq> []"
  shows "\<exists>p st' ps'. kmalloc sz st = Inr (p, st') \<and> ps' \<in> {ps, tl ps} \<and>
    heap_inv st' ((p, unat (round16 sz)) # bs) ps' \<and> aligned 4 p"
proof (cases "round16 sz \<le> heap_end st - heap_start st")
  case True
  with le have "kmalloc sz st =
    Inr (heap_end st - round16 sz, st\<lparr>heap_end := heap_end st - round16 sz\<rparr>)"
    by (simp add: kmalloc_def Let_def not_less)
  with heap_inv_fits [OF inv True aligned_round16] show ?thesis by blast
next
  case False
  from le have nl: "\<not> PAGE_SIZE < round16 sz" by simp
  from False have nz: "round16 sz \<noteq> 0" by auto
  from room False obtain nb qs where ps: "ps = nb # qs" by (cases ps) auto
  have fp: "free_prefix st (nb # qs)" using inv by (simp add: heap_inv_def ps)
  then obtain st1 where a: "memory_alloc_page st = Inr (nb, st1)" and fp1: "free_prefix st1 qs"
    and same: "mm.more st1 = mm.more st"
    using memory_alloc_page_Cons by blast
  have hs: "heap_start st1 = heap_start st" "heap_end st1 = heap_end st"
    using same by (cases st; cases st1; simp)+
  show ?thesis
  proof (cases "heap_end st1 - heap_start st1 < PAGE_SIZE - round16 sz")
    case True
    with False nl a have "kmalloc sz st = Inr (nb + PAGE_SIZE - round16 sz,
        st1\<lparr>heap_start := nb, heap_end := nb + PAGE_SIZE - round16 sz\<rparr>)"
      by (simp add: kmalloc_def Let_def)
    with heap_inv_switch [OF inv [unfolded ps] fp1 le nz aligned_round16] show ?thesis
      by (auto simp: ps)
  next
    case 2: False
    with False nl a have "kmalloc sz st = Inr (nb, st1)" by (simp add: kmalloc_def Let_def)
    moreover have "aligned 4 nb"
      using mm_prefix.pool_page [OF fp, of nb] by (auto intro: aligned_mono)
    ultimately show ?thesis
      using heap_inv_whole_page [OF inv [unfolded ps] fp1 hs le] by (auto simp: ps)
  qed
qed

lemma kmalloc_fails:
  "PAGE_SIZE < round16 sz \<Longrightarrow> kmalloc sz st = Inl (Panic ''heap alloc request too large'')"
  "round16 sz \<le> PAGE_SIZE \<Longrightarrow> \<not> round16 sz \<le> heap_end st - heap_start st \<Longrightarrow> free_pages st [] \<Longrightarrow>
     kmalloc sz st = Inl (Panic ''no free pages in free_list: memory_alloc_page'')"
  by (simp_all add: kmalloc_def Let_def memory_alloc_page_Nil)

end
