(* ===== verification/PageTable.thy ===== *)
theory PageTable
  imports Heap "HOL-Library.Sublist"
begin

text \<open>
  The Sv39 page tables of \<open>kern/memory.c\<close>: the bit layout of \<open>struct pte\<close>, the walk through
  the three levels with and without creation of missing tables, and the mapping of one page.

  A page table is a page of 512 entries in physical memory. \<open>table_at m root path\<close> is the
  table reached from \<open>root\<close> by following the entries on \<open>path\<close>, the abstract view the walk
  is specified against; \<open>mapped m root va\<close> is the valid entry that maps the page of \<open>va\<close>.
  An address space is well formed when the tables reached on different paths are different,
  aligned, and not on the free list.
\<close>

section \<open>Page table entries\<close>

definition PTE_V :: u8 where "PTE_V = 1"
definition PTE_R :: u8 where "PTE_R = 2"
definition PTE_W :: u8 where "PTE_W = 4"
definition PTE_X :: u8 where "PTE_X = 8"
definition PTE_U :: u8 where "PTE_U = 16"
definition PTE_G :: u8 where "PTE_G = 32"
definition PTE_A :: u8 where "PTE_A = 64"
definition PTE_D :: u8 where "PTE_D = 128"

definition PTE_FLAGS_MASK :: u8 where
  "PTE_FLAGS_MASK = PTE_R OR PTE_W OR PTE_X OR PTE_U OR PTE_G"

lemmas pte_flag_defs =
  PTE_V_def PTE_R_def PTE_W_def PTE_X_def PTE_U_def PTE_G_def PTE_A_def PTE_D_def

text \<open>\<open>struct pte\<close>, a 64-bit word of bit fields, lowest first.\<close>

record pte =
  pte_flags :: "8 word"
  pte_rsw :: "2 word"
  pte_ppn :: "44 word"
  pte_reserved :: "7 word"
  pte_pbmt :: "2 word"
  pte_n :: "1 word"

definition pte_of :: "u64 \<Rightarrow> pte" where
  "pte_of w = \<lparr>pte_flags = ucast w, pte_rsw = ucast (drop_bit 8 w), pte_ppn = ucast (drop_bit 10 w),
     pte_reserved = ucast (drop_bit 54 w), pte_pbmt = ucast (drop_bit 61 w),
     pte_n = ucast (drop_bit 63 w)\<rparr>"

definition u64_of_pte :: "pte \<Rightarrow> u64" where
  "u64_of_pte p = ucast (pte_flags p) OR push_bit 8 (ucast (pte_rsw p)) OR
     push_bit 10 (ucast (pte_ppn p)) OR push_bit 54 (ucast (pte_reserved p)) OR
     push_bit 61 (ucast (pte_pbmt p)) OR push_bit 63 (ucast (pte_n p))"

lemma not_bit_length: "LENGTH('a) \<le> n \<Longrightarrow> \<not> bit (w :: 'a::len word) n"
  by (auto dest: bit_imp_le_length)

lemma bit_u64_of_pte:
  "bit (u64_of_pte p) n \<longleftrightarrow>
     (if n < 8 then bit (pte_flags p) n else if n < 10 then bit (pte_rsw p) (n - 8)
      else if n < 54 then bit (pte_ppn p) (n - 10) else if n < 61 then bit (pte_reserved p) (n - 54)
      else if n < 63 then bit (pte_pbmt p) (n - 61) else n = 63 \<and> bit (pte_n p) 0)"
  unfolding u64_of_pte_def bit_or_iff
  by (cases "n = 63") (simp_all add: bit_push_bit_iff bit_unsigned_iff not_bit_length, auto)

lemma pte_of_u64_of [simp]: "pte_of (u64_of_pte p) = p"
  by (rule pte.equality)
    (simp_all add: pte_of_def,
      (rule bit_word_eqI; simp add: bit_unsigned_iff bit_drop_bit_eq bit_u64_of_pte)+)

lemma u64_of_pte_of [simp]: "u64_of_pte (pte_of w) = w"
proof (rule bit_word_eqI)
  fix n assume "n < LENGTH(64)"
  then show "bit (u64_of_pte (pte_of w)) n = bit w n"
    by (cases "n = 63") (auto simp: bit_u64_of_pte pte_of_def bit_unsigned_iff bit_drop_bit_eq)
qed

lemma pte_flags_of_0 [simp]: "pte_flags (pte_of 0) = 0"
  by (simp add: pte_of_def)

section \<open>Address arithmetic of memory.c\<close>

text \<open>\<open>VPN0\<close>, \<open>VPN1\<close>, \<open>VPN2\<close>: the index into the table of level \<open>l\<close>.\<close>

definition VPN :: "nat \<Rightarrow> u64 \<Rightarrow> u64" where
  "VPN l vma = drop_bit (9 * l + 12) vma AND 0x1FF"

definition pagenum_to_pageptr :: "u64 \<Rightarrow> u64" where
  "pagenum_to_pageptr n = push_bit PAGE_ORDER n"

definition pageptr_to_pagenum :: "u64 \<Rightarrow> u64" where
  "pageptr_to_pagenum p = drop_bit PAGE_ORDER p"

definition wellformed_vma :: "u64 \<Rightarrow> bool" where
  "wellformed_vma vma = (let bits = signed_drop_bit 38 vma in bits = 0 \<or> bits + 1 = 0)"

definition aligned_addr :: "u64 \<Rightarrow> u64 \<Rightarrow> bool" where
  "aligned_addr vma blksz = (vma mod blksz = 0)"

definition round_up_addr :: "u64 \<Rightarrow> u64 \<Rightarrow> u64" where
  "round_up_addr addr blksz = (addr + blksz - 1) div blksz * blksz"

definition round_down_addr :: "u64 \<Rightarrow> u64 \<Rightarrow> u64" where
  "round_down_addr addr blksz = addr div blksz * blksz"

definition leaf_pte :: "u64 \<Rightarrow> u8 \<Rightarrow> pte" where
  "leaf_pte pptr rwxug_flags =
     \<lparr>pte_flags = rwxug_flags OR PTE_A OR PTE_D OR PTE_V, pte_rsw = 0,
      pte_ppn = ucast (pageptr_to_pagenum pptr), pte_reserved = 0, pte_pbmt = 0, pte_n = 0\<rparr>"

definition ptab_pte :: "u64 \<Rightarrow> u8 \<Rightarrow> pte" where
  "ptab_pte ptab g_flag =
     \<lparr>pte_flags = g_flag OR PTE_V, pte_rsw = 0,
      pte_ppn = ucast (pageptr_to_pagenum ptab), pte_reserved = 0, pte_pbmt = 0, pte_n = 0\<rparr>"

definition null_pte :: pte where
  "null_pte = \<lparr>pte_flags = 0, pte_rsw = 0, pte_ppn = 0, pte_reserved = 0, pte_pbmt = 0, pte_n = 0\<rparr>"

text \<open>The page an entry points to.\<close>

definition pte_page :: "pte \<Rightarrow> u64" where
  "pte_page p = push_bit PAGE_ORDER (ucast (pte_ppn p))"

section \<open>Walking the page table\<close>

definition get_pte :: "'a mm_scheme \<Rightarrow> u64 \<Rightarrow> pte" where
  "get_pte st a = pte_of (pmem st a)"

definition set_pte :: "u64 \<Rightarrow> pte \<Rightarrow> 'a mm_scheme \<Rightarrow> 'a mm_scheme" where
  "set_pte a p st = st\<lparr>pmem := (pmem st)(a := u64_of_pte p)\<rparr>"

text \<open>
  The loop of \<open>walk_pt\<close> from level \<open>level\<close> down to 1, with the current table \<open>pt\<close>; at level 0
  the address of the entry is returned. A returned 0 is the C null pointer. Linking a new
  table below a null table is a write through the null pointer.
\<close>

fun walk_loop :: "nat \<Rightarrow> u64 \<Rightarrow> u64 \<Rightarrow> bool \<Rightarrow> 'a mm_scheme \<Rightarrow> (u64 \<times> 'a mm_scheme) res" where
  "walk_loop 0 pt vma create st = Inr (pt + 8 * VPN 0 vma, st)"
| "walk_loop (Suc level) pt vma create st =
     (let e = pt + 8 * VPN (Suc level) vma in
      if pt \<noteq> 0 \<and> pte_flags (get_pte st e) AND PTE_V \<noteq> 0 then
        (if pte_flags (get_pte st e) AND (PTE_R OR PTE_W OR PTE_X) \<noteq> 0
         then Inr (0, st)
         else walk_loop level (pte_page (get_pte st e)) vma create st)
      else if create then
        bind_res (memory_alloc_page st) (\<lambda>(new_pt, st).
          if pt = 0 then Inl UndefinedAccess
          else walk_loop level new_pt vma create
            (set_pte e ((get_pte st e)\<lparr>pte_ppn := ucast (drop_bit PAGE_ORDER new_pt),
                                       pte_flags := PTE_V\<rparr>) st))
      else Inr (0, st))"

definition walk_pt :: "u64 \<Rightarrow> u64 \<Rightarrow> bool \<Rightarrow> 'a mm_scheme \<Rightarrow> (u64 \<times> 'a mm_scheme) res" where
  "walk_pt root vma create st = walk_loop 2 root vma create st"

section \<open>The tables of an address space\<close>

definition is_table :: "pte \<Rightarrow> bool" where
  "is_table p \<longleftrightarrow> pte_flags p AND PTE_V \<noteq> 0 \<and> pte_flags p AND (PTE_R OR PTE_W OR PTE_X) = 0"

definition is_leaf :: "pte \<Rightarrow> bool" where
  "is_leaf p \<longleftrightarrow> pte_flags p AND PTE_V \<noteq> 0 \<and> pte_flags p AND (PTE_R OR PTE_W OR PTE_X) \<noteq> 0"

definition entry :: "(u64 \<Rightarrow> u64) \<Rightarrow> u64 \<Rightarrow> u64 \<Rightarrow> pte" where
  "entry m t i = pte_of (m (t + 8 * i))"

definition child :: "(u64 \<Rightarrow> u64) \<Rightarrow> u64 \<Rightarrow> u64 \<Rightarrow> u64 option" where
  "child m t i = (if is_table (entry m t i) then Some (pte_page (entry m t i)) else None)"

fun table_at :: "(u64 \<Rightarrow> u64) \<Rightarrow> u64 \<Rightarrow> u64 list \<Rightarrow> u64 option" where
  "table_at m t [] = Some t"
| "table_at m t (i # is) = Option.bind (child m t i) (\<lambda>t'. table_at m t' is)"

lemma table_at_snoc: "table_at m t (is @ [i]) = Option.bind (table_at m t is) (\<lambda>t'. child m t' i)"
  by (induction "is" arbitrary: t) (auto split: Option.bind_splits)

definition vpath :: "u64 list \<Rightarrow> bool" where
  "vpath p \<longleftrightarrow> length p \<le> 2 \<and> (\<forall>i \<in> set p. i < 512)"

definition wf_space :: "(u64 \<Rightarrow> u64) \<Rightarrow> u64 \<Rightarrow> u64 set \<Rightarrow> bool" where
  "wf_space m root F \<longleftrightarrow>
     (\<forall>p t. vpath p \<longrightarrow> table_at m root p = Some t \<longrightarrow> page_aligned t \<and> t \<noteq> 0 \<and> t \<notin> F) \<and>
     (\<forall>p q t. vpath p \<longrightarrow> vpath q \<longrightarrow>
        table_at m root p = Some t \<longrightarrow> table_at m root q = Some t \<longrightarrow> p = q)"

definition slot :: "(u64 \<Rightarrow> u64) \<Rightarrow> u64 \<Rightarrow> u64 \<Rightarrow> u64 option" where
  "slot m root va = map_option (\<lambda>t. t + 8 * VPN 0 va) (table_at m root [VPN 2 va, VPN 1 va])"

definition mapped :: "(u64 \<Rightarrow> u64) \<Rightarrow> u64 \<Rightarrow> u64 \<Rightarrow> pte option" where
  "mapped m root va =
     (case slot m root va of
        None \<Rightarrow> None
      | Some a \<Rightarrow> if pte_flags (pte_of (m a)) AND PTE_V \<noteq> 0 then Some (pte_of (m a)) else None)"

subsection \<open>Entries of different tables do not overlap\<close>

lemma VPN_less [simp]: "VPN l vma < 512"
proof -
  have "VPN l vma \<le> 0x1FF" unfolding VPN_def by (rule word_and_le1)
  then show ?thesis by (simp add: word_le_nat_alt word_less_nat_alt)
qed

lemma unat_entry_offset:
  fixes i :: u64
  assumes "i < 512"
  shows "unat (8 * i) = 8 * unat i" and "unat (8 * i) < 4096"
proof -
  have "unat i < 512" using assms by (simp add: word_less_nat_alt)
  then show "unat (8 * i) = 8 * unat i" and "unat (8 * i) < 4096"
    by (simp_all add: unat_word_ariths)
qed

lemma entry_offset_less:
  fixes i :: u64
  shows "i < 512 \<Longrightarrow> t + 8 * i - t < PAGE_SIZE"
  using unat_entry_offset(2) [of i] by (simp add: word_less_nat_alt)

lemma entry_in_page_iff:
  assumes "page_aligned t" and "page_aligned n" and "i < 512"
  shows "t + 8 * i - n < PAGE_SIZE \<longleftrightarrow> t = n"
proof
  assume less: "t + 8 * i - n < PAGE_SIZE"
  let ?d = "t - n" and ?o = "8 * i"
  have d: "page_aligned ?d" using assms by (intro aligned_diff) auto
  have o: "unat ?o < 4096" using unat_entry_offset [OF assms(3)] by simp
  have sum: "unat (?d + ?o) = unat ?d + unat ?o"
    using unat_page_top [OF d] o by (simp add: unat_word_ariths)
  have "t + ?o - n = ?d + ?o" by simp
  with less have "?d + ?o < PAGE_SIZE" by (simp only:)
  then have "unat ?d < 2 ^ 12" using sum by (simp add: word_less_nat_alt)
  then show "t = n" using assms aligned_near_eq [of 12 t n] by simp
next
  assume "t = n"
  then show "t + 8 * i - n < PAGE_SIZE" using entry_offset_less [OF assms(3)] by simp
qed

lemma entry_eq_iff:
  assumes "page_aligned t" and "page_aligned t'" and "i < 512" and "j < 512"
  shows "t + 8 * i = t' + 8 * j \<longleftrightarrow> t = t' \<and> i = j"
proof
  assume eq: "t + 8 * i = t' + 8 * j"
  have "t' + 8 * j - t' < PAGE_SIZE" using assms(4) by (rule entry_offset_less)
  then have t: "t = t'" using eq entry_in_page_iff [OF assms(1,2,3)] by simp
  then have "unat (8 * i) = unat (8 * j)" using eq by simp
  then have "i = j" using unat_entry_offset assms(3,4) by (simp add: word_unat_eq_iff)
  with t show "t = t' \<and> i = j" ..
qed simp

lemma page_aligned_pte_page [simp]: "page_aligned (pte_page p)"
proof -
  have "unat (pte_page p) = take_bit 64 (2 ^ 12 * unat (ucast (pte_ppn p) :: u64))"
    by (simp add: pte_page_def push_bit_eq_mult unat_word_ariths take_bit_eq_mod mult.commute)
  then show ?thesis by (simp add: aligned_def take_bit_eq_mod dvd_mod)
qed

lemma pte_page_of_ptr:
  assumes "page_aligned q" and "q < 2 ^ 56"
  shows "push_bit 12 (ucast (ucast (drop_bit 12 q) :: 44 word)) = q"
proof (rule bit_word_eqI)
  fix n assume n: "n < LENGTH(64)"
  have low: "\<not> bit q k" if "k < 12" for k
  proof -
    have "take_bit 12 (unat q) = 0" using assms(1) by (simp add: aligned_def take_bit_eq_mod)
    then have "\<not> bit (unat q) k" using that by (metis bit_0_eq bit_take_bit_iff bot_apply bot_bool_def)
    then show ?thesis by (simp add: bit_unsigned_iff)
  qed
  have high: "\<not> bit q k" if "56 \<le> k" for k
  proof -
    have "unat q < 2 ^ 56" using assms(2) by (simp add: word_less_nat_alt)
    then have "take_bit 56 (unat q) = unat q" by (rule take_bit_nat_eq_self)
    then have "\<not> bit (unat q) k" using that by (metis bit_take_bit_iff not_less)
    then show ?thesis by (simp add: bit_unsigned_iff)
  qed
  show "bit (push_bit 12 (ucast (ucast (drop_bit 12 q) :: 44 word)) :: u64) n = bit q n"
    using low [of n] high [of n] n
    by (cases "n < 12"; cases "56 \<le> n")
      (auto simp: bit_push_bit_iff bit_unsigned_iff bit_drop_bit_eq)
qed

subsection \<open>Lookup: the walk without creation\<close>

lemma wf_space_table:
  "wf_space m root F \<Longrightarrow> vpath p \<Longrightarrow> table_at m root p = Some t \<Longrightarrow>
     page_aligned t \<and> t \<noteq> 0 \<and> t \<notin> F"
  by (auto simp: wf_space_def)

lemma wf_space_mono: "wf_space m root F \<Longrightarrow> G \<subseteq> F \<Longrightarrow> wf_space m root G"
  unfolding wf_space_def by blast

lemma wf_space_inj:
  "wf_space m root F \<Longrightarrow> vpath p \<Longrightarrow> vpath q \<Longrightarrow>
     table_at m root p = Some t \<Longrightarrow> table_at m root q = Some t \<Longrightarrow> p = q"
  unfolding wf_space_def by blast

lemma vpath_simps [simp]:
  "vpath []"
  "vpath [i] \<longleftrightarrow> i < 512"
  "vpath [i, j] \<longleftrightarrow> i < 512 \<and> j < 512"
  by (auto simp: vpath_def)

lemma vpath_snoc: "vpath (p @ [i]) \<Longrightarrow> vpath p \<and> i < 512 \<and> length p \<le> 1"
  by (auto simp: vpath_def)

lemma wf_space_root: "wf_space m root F \<Longrightarrow> page_aligned root \<and> root \<noteq> 0 \<and> root \<notin> F"
  using wf_space_table [of m root F "[]"] by simp

lemma wf_space_child:
  assumes "wf_space m root F" and "child m root (VPN l va) = Some t"
  shows "page_aligned t \<and> t \<noteq> 0 \<and> t \<notin> F"
  using wf_space_table [OF assms(1), of "[VPN l va]"] assms(2) by simp

lemma walk_pt_lookup:
  assumes "wf_space (pmem st) root F"
  shows "walk_pt root va False st =
    Inr (case slot (pmem st) root va of None \<Rightarrow> 0 | Some a \<Rightarrow> a, st)"
proof -
  have "root \<noteq> 0" using wf_space_root [OF assms] by simp
  moreover have "child (pmem st) root (VPN 2 va) = Some t \<Longrightarrow> t \<noteq> 0" for t
    using wf_space_child [OF assms] by blast
  ultimately show ?thesis
    by (auto simp: walk_pt_def numeral_2_eq_2 slot_def child_def entry_def is_table_def get_pte_def
        Let_def split: if_splits)
qed

subsection \<open>Changes of memory and the tables they leave alone\<close>

lemma table_at_cong:
  assumes "\<And>r j t. prefix (r @ [j]) q \<Longrightarrow> table_at m root r = Some t \<Longrightarrow> m' (t + 8 * j) = m (t + 8 * j)"
  shows "table_at m' root q = table_at m root q"
  using assms
proof (induction q rule: rev_induct)
  case Nil
  then show ?case by simp
next
  case (snoc j q)
  have "table_at m' root q = table_at m root q"
    using snoc.prems by (intro snoc.IH) (meson prefix_order.trans prefixI)
  then show ?case
    using snoc.prems [of q j]
    by (auto simp: table_at_snoc child_def entry_def split: Option.bind_splits)
qed

lemma prefix_vpath: "prefix (r @ [j]) q \<Longrightarrow> vpath q \<Longrightarrow> vpath r \<and> j < 512 \<and> length r \<le> 1"
  by (auto simp: vpath_def prefix_def)

text \<open>
  \<open>keeps_outside n m m'\<close>: only words of the page \<open>n\<close> differ. When \<open>n\<close> is not a table of the space,
  the space is the same in both memories.
\<close>

definition keeps_outside :: "u64 \<Rightarrow> (u64 \<Rightarrow> u64) \<Rightarrow> (u64 \<Rightarrow> u64) \<Rightarrow> bool" where
  "keeps_outside n m m' \<longleftrightarrow> (\<forall>a. \<not> a - n < PAGE_SIZE \<longrightarrow> m' a = m a)"

lemma keeps_outside_zero_page [simp]: "keeps_outside n m (zero_page m n)"
  by (simp add: keeps_outside_def zero_page_def)

lemma keeps_outside_upd: "keeps_outside n m m' \<Longrightarrow> a - n < PAGE_SIZE \<Longrightarrow> keeps_outside n m (m'(a := w))"
  by (auto simp: keeps_outside_def)

lemma keeps_outside_head [simp]: "keeps_outside n m ((zero_page m n)(n := w))"
  by (rule keeps_outside_upd) (auto simp: word_less_nat_alt)

lemma entry_keeps_outside:
  assumes "wf_space m root F" and "n \<in> F" and "page_aligned n" and "keeps_outside n m m'"
    and "vpath q" and "table_at m root q = Some t" and "i < 512"
  shows "m' (t + 8 * i) = m (t + 8 * i)"
proof -
  have "page_aligned t" "t \<noteq> n" using wf_space_table [OF assms(1,5,6)] assms(2) by auto
  then have "\<not> t + 8 * i - n < PAGE_SIZE"
    using assms(3,7) by (simp add: entry_in_page_iff del: page_const)
  then show ?thesis using assms(4) by (simp add: keeps_outside_def)
qed

lemma table_at_keeps_outside:
  assumes "wf_space m root F" and "n \<in> F" and "page_aligned n" and "keeps_outside n m m'"
    and "vpath q"
  shows "table_at m' root q = table_at m root q"
proof (rule table_at_cong)
  fix r j t
  assume "prefix (r @ [j]) q" and t: "table_at m root r = Some t"
  with assms(5) have "vpath r" "j < 512" by (auto dest: prefix_vpath)
  with entry_keeps_outside [OF assms(1-4) _ t] show "m' (t + 8 * j) = m (t + 8 * j)" by blast
qed

lemma wf_space_keeps_outside:
  assumes "wf_space m root F" and "n \<in> F" and "page_aligned n" and "keeps_outside n m m'"
  shows "wf_space m' root F"
  using assms(1) table_at_keeps_outside [OF assms] by (auto simp: wf_space_def)

lemma table_at_leaf_write:
  assumes "wf_space m root F" and "table_at m root p = Some t" and "vpath p" and "length p = 2"
    and "i < 512" and "vpath q"
  shows "table_at (m(t + 8 * i := w)) root q = table_at m root q"
proof (rule table_at_cong)
  fix r j t'
  assume "prefix (r @ [j]) q" and t': "table_at m root r = Some t'"
  with assms(6) have r: "vpath r" "j < 512" "length r \<le> 1" by (auto dest: prefix_vpath)
  then have "t' \<noteq> t" using wf_space_inj [OF assms(1) r(1) assms(3) t'] assms(2,4) by auto
  then have "t' + 8 * j \<noteq> t + 8 * i"
    using wf_space_table [OF assms(1) r(1) t'] wf_space_table [OF assms(1,3,2)] r(2) assms(5)
    by (simp add: entry_eq_iff)
  then show "(m(t + 8 * i := w)) (t' + 8 * j) = m (t' + 8 * j)" by simp
qed

subsection \<open>Linking a fresh table below an invalid entry\<close>

lemma table_at_link:
  assumes wf: "wf_space m root F" and n: "n \<in> F" "page_aligned n"
    and p: "table_at m root p = Some t" "vpath (p @ [i])" "child m t i = None"
    and w: "is_table (pte_of w)" "pte_page (pte_of w) = n"
    and q: "vpath q"
  shows "table_at ((zero_page m n)(t + 8 * i := w)) root q =
    (if q = p @ [i] then Some n else table_at m root q)"
  using q
proof (induction q rule: rev_induct)
  case Nil
  then show ?case by simp
next
  case (snoc j q)
  let ?m = "(zero_page m n)(t + 8 * i := w)"
  from snoc.prems have q: "vpath q" "j < 512" by (auto dest: vpath_snoc)
  from p(2) have i: "i < 512" and vp: "vpath p" by (auto dest: vpath_snoc)
  have t: "page_aligned t" "t \<noteq> n" using wf_space_table [OF wf vp p(1)] n(1) by auto
  have new: "child ?m n j = None"
  proof -
    have "n + 8 * j \<noteq> t + 8 * i" using t n(2) i q(2) by (simp add: entry_eq_iff)
    moreover have "n + 8 * j - n < PAGE_SIZE" using q(2) by (rule entry_offset_less)
    ultimately have "?m (n + 8 * j) = 0" by simp
    then show ?thesis by (simp add: child_def entry_def is_table_def)
  qed
  have old: "child ?m t' j = child m t' j"
    if t': "table_at m root q = Some t'" and ne: "q @ [j] \<noteq> p @ [i]" for t'
  proof -
    have a: "page_aligned t'" "t' \<noteq> n" using wf_space_table [OF wf q(1) t'] n(1) by auto
    have "t' + 8 * j \<noteq> t + 8 * i"
      using ne wf_space_inj [OF wf q(1) vp t'] p(1) a(1) t(1) i q(2) by (auto simp: entry_eq_iff)
    moreover have "\<not> t' + 8 * j - n < PAGE_SIZE"
      using a n(2) q(2) by (simp add: entry_in_page_iff del: page_const)
    ultimately have "?m (t' + 8 * j) = m (t' + 8 * j)" by (simp add: zero_page_outside)
    then show ?thesis by (simp add: child_def entry_def)
  qed
  have linked: "child ?m t i = Some n" using w by (simp add: child_def entry_def)
  show ?case
  proof (cases "q = p @ [i]")
    case True
    have "table_at ?m root (q @ [j]) = None"
      using snoc.IH [OF q(1)] new unfolding table_at_snoc True by (simp del: fun_upd_apply)
    moreover have "table_at m root (q @ [j]) = None"
      using p unfolding True table_at_snoc by simp
    ultimately show ?thesis using True by (simp del: fun_upd_apply)
  next
    case False
    with snoc.IH [OF q(1)] p linked old show ?thesis
      by (auto simp: table_at_snoc simp del: fun_upd_apply split: Option.bind_splits)
  qed
qed

text \<open>\<open>no_new_super\<close>: every leaf above the last level was there before.\<close>

definition no_new_super :: "u64 \<Rightarrow> (u64 \<Rightarrow> u64) \<Rightarrow> (u64 \<Rightarrow> u64) \<Rightarrow> bool" where
  "no_new_super root m m' \<longleftrightarrow>
     (\<forall>q t j. vpath q \<longrightarrow> length q \<le> 1 \<longrightarrow> j < 512 \<longrightarrow> table_at m' root q = Some t \<longrightarrow> is_leaf (entry m' t j) \<longrightarrow>
        table_at m root q = Some t \<and> is_leaf (entry m t j))"

lemma no_new_super_refl [simp]: "no_new_super root m m"
  by (simp add: no_new_super_def)

lemma no_new_super_trans: "no_new_super root m m1 \<Longrightarrow> no_new_super root m1 m2 \<Longrightarrow> no_new_super root m m2"
  unfolding no_new_super_def by blast

text \<open>
  \<open>grows\<close>: memory changed only inside the tables of the space, pages left the free set, no
  table was lost, every new table is one of those pages, every virtual address is mapped as
  before, and the last-level entries that are new are zero.
\<close>

definition grows :: "u64 \<Rightarrow> (u64 \<Rightarrow> u64) \<Rightarrow> u64 set \<Rightarrow> (u64 \<Rightarrow> u64) \<Rightarrow> u64 set \<Rightarrow> bool" where
  "grows root m F m' F' \<longleftrightarrow>
     F' \<subseteq> F \<and> wf_space m' root F' \<and>
     (\<forall>q t. vpath q \<longrightarrow> table_at m root q = Some t \<longrightarrow> table_at m' root q = Some t) \<and>
     (\<forall>va. mapped m' root va = mapped m root va) \<and>
     (\<forall>a. m' a \<noteq> m a \<longrightarrow> (\<exists>q t. vpath q \<and> table_at m' root q = Some t \<and> a - t < PAGE_SIZE)) \<and>
     no_new_super root m m' \<and>
     (\<forall>q t. vpath q \<longrightarrow> table_at m' root q = Some t \<longrightarrow> table_at m root q = Some t \<or> t \<in> F - F') \<and>
     (\<forall>va a. slot m' root va = Some a \<longrightarrow> slot m root va = Some a \<and> m' a = m a \<or> slot m root va = None \<and> m' a = 0)"

lemma growsD:
  assumes "grows root m F m' F'"
  shows grows_wf: "wf_space m' root F'" and grows_free: "F' \<subseteq> F"
    and grows_table: "vpath q \<Longrightarrow> table_at m root q = Some t \<Longrightarrow> table_at m' root q = Some t"
    and grows_mapped: "mapped m' root va = mapped m root va"
    and grows_changed: "m' a \<noteq> m a \<Longrightarrow> \<exists>q t. vpath q \<and> table_at m' root q = Some t \<and> a - t < PAGE_SIZE"
    and grows_super: "no_new_super root m m'"
    and grows_new_table: "vpath q \<Longrightarrow> table_at m' root q = Some t \<Longrightarrow> table_at m root q = Some t \<or> t \<in> F - F'"
    and grows_slot: "slot m' root va = Some a \<Longrightarrow>
      slot m root va = Some a \<and> m' a = m a \<or> slot m root va = None \<and> m' a = 0"
  using assms unfolding grows_def by simp_all

lemma grows_refl: "wf_space m root F \<Longrightarrow> grows root m F m F"
  by (simp add: grows_def)

lemma grows_trans:
  assumes "grows root m F m1 F1" and "grows root m1 F1 m2 F2"
  shows "grows root m F m2 F2"
proof -
  have keep: "vpath q \<Longrightarrow> table_at m1 root q = Some t \<Longrightarrow> table_at m2 root q = Some t" for q t
    using assms(2) by (simp add: grows_def)
  have "\<exists>q t. vpath q \<and> table_at m2 root q = Some t \<and> a - t < PAGE_SIZE" if "m2 a \<noteq> m a" for a
  proof (cases "m2 a = m1 a")
    case True
    with that obtain q t where "vpath q" "table_at m1 root q = Some t" "a - t < PAGE_SIZE"
      using assms(1) unfolding grows_def by metis
    with keep show ?thesis by blast
  next
    case False
    with assms(2) show ?thesis by (simp add: grows_def)
  qed
  moreover have "wf_space m2 root F2" "F2 \<subseteq> F" "\<And>va. mapped m2 root va = mapped m root va"
    using assms by (auto simp: grows_def)
  moreover have "table_at m2 root q = Some t" if "vpath q" "table_at m root q = Some t" for q t
    using keep assms(1) that by (simp add: grows_def)
  moreover have "no_new_super root m m2" using assms no_new_super_trans by (auto simp: grows_def)
  moreover have "table_at m root q = Some t \<or> t \<in> F - F2" if "vpath q" "table_at m2 root q = Some t" for q t
  proof (cases "table_at m1 root q = Some t")
    case True
    then have "table_at m root q = Some t \<or> t \<in> F - F1" using assms(1) that(1) unfolding grows_def by blast
    moreover have "F2 \<subseteq> F1" using assms(2) by (simp add: grows_def)
    ultimately show ?thesis by blast
  next
    case False
    then have "t \<in> F1 - F2" using assms(2) that unfolding grows_def by blast
    moreover have "F1 \<subseteq> F" using assms(1) by (simp add: grows_def)
    ultimately show ?thesis by blast
  qed
  moreover have "slot m root va = Some a \<and> m2 a = m a \<or> slot m root va = None \<and> m2 a = 0"
    if "slot m2 root va = Some a" for va a
  proof -
    have "slot m root va = None" if "slot m1 root va = None"
    proof (rule ccontr)
      assume "slot m root va \<noteq> None"
      then obtain t where "table_at m root [VPN 2 va, VPN 1 va] = Some t" by (auto simp: slot_def)
      moreover have "vpath [VPN 2 va, VPN 1 va]" by simp
      ultimately have "table_at m1 root [VPN 2 va, VPN 1 va] = Some t"
        using assms(1) unfolding grows_def by blast
      then show False using that by (simp add: slot_def)
    qed
    moreover have "slot m1 root va = Some a \<and> m2 a = m1 a \<or> slot m1 root va = None \<and> m2 a = 0"
      using assms(2) that unfolding grows_def by blast
    moreover have "slot m1 root va = Some a \<Longrightarrow>
        slot m root va = Some a \<and> m1 a = m a \<or> slot m root va = None \<and> m1 a = 0"
      using assms(1) unfolding grows_def by blast
    ultimately show ?thesis by auto
  qed
  ultimately show ?thesis unfolding grows_def by blast
qed

lemma mapped_cong:
  assumes "slot m' root va = slot m root va"
    and "\<And>a. slot m root va = Some a \<Longrightarrow> m' a = m a"
  shows "mapped m' root va = mapped m root va"
  using assms by (auto simp: mapped_def split: option.splits)

lemma slotE:
  assumes "slot m root va = Some a"
  obtains t where "table_at m root [VPN 2 va, VPN 1 va] = Some t" and "a = t + 8 * VPN 0 va"
  using assms by (auto simp: slot_def)

lemma grows_link:
  assumes wf: "wf_space m root F" and n: "n \<in> F" "page_aligned n" "n \<noteq> 0"
    and p: "table_at m root p = Some t" "vpath (p @ [i])" "child m t i = None"
    and w: "is_table (pte_of w)" "pte_page (pte_of w) = n"
  shows "grows root m F ((zero_page m n)(t + 8 * i := w)) (F - {n})"
proof -
  let ?m = "(zero_page m n)(t + 8 * i := w)"
  note tab = table_at_link [OF wf n(1,2) p w]
  have vp: "vpath p" "i < 512" "length p \<le> 1" using p(2) by (auto dest: vpath_snoc)
  have t: "page_aligned t" "t \<noteq> n" using wf_space_table [OF wf vp(1) p(1)] n(1) by auto
  have none: "table_at m root (p @ [i]) = None" using p by (simp add: table_at_snoc)
  have "wf_space ?m root (F - {n})"
    using n wf_space_table [OF wf] wf_space_inj [OF wf]
    unfolding wf_space_def by (auto simp: tab split: if_splits)
  moreover have slots: "slot ?m root va = Some (n + 8 * VPN 0 va) \<and> slot m root va = None \<and> ?m (n + 8 * VPN 0 va) = 0
      \<or> slot ?m root va = slot m root va \<and> (\<forall>a. slot m root va = Some a \<longrightarrow> ?m a = m a)" for va
  proof (cases "[VPN 2 va, VPN 1 va] = p @ [i]")
    case True
    have "n + 8 * VPN 0 va \<noteq> t + 8 * i" using t n(2) vp(2) by (simp add: entry_eq_iff)
    moreover have "n + 8 * VPN 0 va - n < PAGE_SIZE" using VPN_less by (rule entry_offset_less)
    ultimately have "?m (n + 8 * VPN 0 va) = 0" by simp
    moreover have "slot ?m root va = Some (n + 8 * VPN 0 va)" and "slot m root va = None"
      unfolding slot_def True using tab [OF p(2)] none by (simp_all del: fun_upd_apply)
    ultimately show ?thesis by blast
  next
    case False
    have "slot ?m root va = slot m root va"
      unfolding slot_def using False by (subst tab) auto
    moreover have "?m a = m a" if sl: "slot m root va = Some a" for a
    proof -
      obtain t' where t': "table_at m root [VPN 2 va, VPN 1 va] = Some t'"
        and a: "a = t' + 8 * VPN 0 va" using sl by (rule slotE)
      have al: "page_aligned t'" "t' \<noteq> n" using wf_space_table [OF wf _ t'] n(1) by auto
      have "t' \<noteq> t" using wf_space_inj [OF wf _ vp(1) t'] p(1) vp(3) by auto
      then have "a \<noteq> t + 8 * i" using al t vp(2) by (simp add: a entry_eq_iff)
      moreover have "\<not> a - n < PAGE_SIZE"
        using al n(2) by (simp add: a entry_in_page_iff del: page_const)
      ultimately show "?m a = m a" by (simp add: zero_page_outside)
    qed
    ultimately show ?thesis by blast
  qed
  moreover have "mapped ?m root va = mapped m root va" for va
    using slots [of va]
  proof
    assume "slot ?m root va = Some (n + 8 * VPN 0 va) \<and> slot m root va = None \<and> ?m (n + 8 * VPN 0 va) = 0"
    then show ?thesis by (simp add: mapped_def del: fun_upd_apply)
  next
    assume "slot ?m root va = slot m root va \<and> (\<forall>a. slot m root va = Some a \<longrightarrow> ?m a = m a)"
    then show ?thesis by (intro mapped_cong) auto
  qed
  moreover have "\<exists>q t. vpath q \<and> table_at ?m root q = Some t \<and> a - t < PAGE_SIZE"
    if "?m a \<noteq> m a" for a
  proof (cases "a - n < PAGE_SIZE")
    case True
    then show ?thesis using tab [of "p @ [i]"] p(2) by force
  next
    case False
    with that have "a = t + 8 * i" by (auto simp: zero_page_outside split: if_splits)
    moreover have "t + 8 * i - t < PAGE_SIZE" using vp(2) by (rule entry_offset_less)
    ultimately show ?thesis
      using tab [of p] p(1) vp(1) by (intro exI [of _ p] exI [of _ t]) auto
  qed
  moreover have "no_new_super root m ?m"
    unfolding no_new_super_def
  proof (intro allI impI)
    fix q t' j
    assume q: "vpath q" "length q \<le> 1" "j < 512" "table_at ?m root q = Some t'" "is_leaf (entry ?m t' j)"
    have "q \<noteq> p @ [i]"
    proof
      assume "q = p @ [i]"
      then have "t' = n" using q(4) tab [OF q(1)] by simp
      moreover have "n + 8 * j \<noteq> t + 8 * i" using t n(2) vp(2) q(3) by (simp add: entry_eq_iff)
      moreover have "n + 8 * j - n < PAGE_SIZE" using q(3) by (rule entry_offset_less)
      ultimately have "entry ?m t' j = pte_of 0" by (simp add: entry_def)
      then show False using q(5) by (simp add: is_leaf_def)
    qed
    then have t': "table_at m root q = Some t'" using q(4) tab [OF q(1)] by simp
    have al: "page_aligned t'" "t' \<noteq> n" using wf_space_table [OF wf q(1) t'] n(1) by auto
    have "t' + 8 * j \<noteq> t + 8 * i"
    proof
      assume "t' + 8 * j = t + 8 * i"
      then have "entry ?m t' j = pte_of w" by (simp add: entry_def)
      then show False using q(5) w(1) by (auto simp: is_leaf_def is_table_def)
    qed
    moreover have "\<not> t' + 8 * j - n < PAGE_SIZE"
      using al n(2) q(3) by (simp add: entry_in_page_iff del: page_const)
    ultimately have "entry ?m t' j = entry m t' j" by (simp add: entry_def zero_page_outside)
    then show "table_at m root q = Some t' \<and> is_leaf (entry m t' j)" using t' q(5) by simp
  qed
  moreover have "slot m root va = Some a \<and> ?m a = m a \<or> slot m root va = None \<and> ?m a = 0"
    if "slot ?m root va = Some a" for va a
    using slots [of va] that by (auto simp del: fun_upd_apply)
  moreover have "table_at m root q = Some t' \<or> t' \<in> F - (F - {n})"
    if "vpath q" "table_at ?m root q = Some t'" for q t'
    using tab [OF that(1)] that(2) n(1) by (auto simp del: fun_upd_apply split: if_splits)
  moreover have "table_at ?m root q = Some t'" if "vpath q" "table_at m root q = Some t'" for q t'
    using tab [OF that(1)] that(2) none by (auto simp del: fun_upd_apply)
  ultimately show ?thesis unfolding grows_def by blast
qed

section \<open>Walking with creation\<close>

lemma mm_more_pmem [simp]: "mm.more (st\<lparr>pmem := m\<rparr>) = mm.more st"
  by (cases st) simp

lemma set_pte_simps [simp]:
  "pmem (set_pte a p st) = (pmem st)(a := u64_of_pte p)"
  "free_list (set_pte a p st) = free_list st"
  "mm.more (set_pte a p st) = mm.more st"
  by (simp_all add: set_pte_def)

lemma free_prefix_set_pte:
  "free_prefix st ps \<Longrightarrow> a \<notin> set ps \<Longrightarrow> free_prefix (set_pte a p st) ps"
  unfolding free_prefix_def set_pte_simps by (blast intro: free_seg_upd [THEN iffD2])

lemma link_pte:
  assumes "page_aligned n" and "n < 2 ^ 56"
  shows "is_table (p\<lparr>pte_ppn := ucast (drop_bit PAGE_ORDER n), pte_flags := PTE_V\<rparr>)"
    and "pte_page (p\<lparr>pte_ppn := ucast (drop_bit PAGE_ORDER n), pte_flags := PTE_V\<rparr>) = n"
  using pte_page_of_ptr [OF assms] by (simp_all add: is_table_def pte_flag_defs pte_page_def)

lemma is_leaf_zero [simp]: "\<not> is_leaf (pte_of 0)"
  by (simp add: is_leaf_def)

lemma walk_leaf:
  assumes "t \<noteq> 0" and "is_leaf (entry (pmem st) t (VPN (Suc l) va))"
  shows "walk_loop (Suc l) t va create st = Inr (0, st)"
  using assms by (simp add: is_leaf_def entry_def get_pte_def Let_def)

lemma walk_child:
  assumes "t \<noteq> 0" and "child (pmem st) t (VPN (Suc l) va) = Some t'"
  shows "walk_loop (Suc l) t va create st = walk_loop l t' va create st"
proof -
  have "is_table (get_pte st (t + 8 * VPN (Suc l) va))"
    and "t' = pte_page (get_pte st (t + 8 * VPN (Suc l) va))"
    using assms(2) by (auto simp: child_def entry_def get_pte_def split: if_splits)
  with assms(1) show ?thesis unfolding walk_loop.simps is_table_def Let_def by simp
qed

text \<open>One level of the walk, when the entry is not a leaf.\<close>

lemma walk_step:
  assumes wf: "wf_space (pmem st) root F" and sub: "set ps \<subseteq> F" and fp: "free_prefix st ps"
    and lim: "\<forall>p \<in> set ps. p < 2 ^ 56" and ne: "ps \<noteq> []"
    and p: "table_at (pmem st) root p = Some t" "vpath (p @ [i])" "i = VPN (Suc l) va"
    and nleaf: "\<not> is_leaf (entry (pmem st) t i)"
  shows "\<exists>t' st' k. k \<le> 1 \<and> walk_loop (Suc l) t va True st = walk_loop l t' va True st' \<and>
    grows root (pmem st) F (pmem st') (F - set (take k ps)) \<and> free_prefix st' (drop k ps) \<and>
    table_at (pmem st') root (p @ [i]) = Some t' \<and> mm.more st' = mm.more st \<and>
    (k = 0 \<and> st' = st \<or> (\<forall>j < 512. pmem st' (t' + 8 * j) = 0)) \<and>
    (\<forall>a. pmem st' a \<noteq> pmem st a \<longrightarrow> a = t + 8 * i \<or> (\<exists>n \<in> set (take k ps). a - n < PAGE_SIZE))"
proof -
  have vp: "vpath p" "i < 512" using p(2) by (auto dest: vpath_snoc)
  have t: "page_aligned t" "t \<noteq> 0" "t \<notin> set ps" using wf_space_table [OF wf vp(1) p(1)] sub by auto
  show ?thesis
  proof (cases "child (pmem st) t i")
    case (Some t')
    then have "walk_loop (Suc l) t va True st = walk_loop l t' va True st"
      using t(2) p(3) by (intro walk_child) auto
    moreover have "table_at (pmem st) root (p @ [i]) = Some t'"
      using Some p(1) by (simp add: table_at_snoc)
    ultimately show ?thesis
      using grows_refl [OF wf] fp by (intro exI [of _ t'] exI [of _ st] exI [of _ 0]) simp
  next
    case None
    then have inv: "pte_flags (get_pte st (t + 8 * i)) AND PTE_V = 0"
      using nleaf by (auto simp: child_def entry_def is_table_def is_leaf_def get_pte_def split: if_splits)
    obtain n ns where ps: "ps = n # ns" using ne by (cases ps) auto
    have n: "n \<noteq> 0" "page_aligned n" "n < 2 ^ 56" "n \<notin> set ns"
      using mm_prefix.pool_page [OF fp, of n] mm_prefix.pool_distinct [OF fp] lim by (auto simp: ps)
    obtain st1 where st1: "memory_alloc_page st = Inr (n, st1)" "free_prefix st1 ns"
      "pmem st1 = zero_page (pmem st) n" "mm.more st1 = mm.more st"
      using memory_alloc_page_Cons [of st n ns] fp by (auto simp: ps)
    define e where "e = t + 8 * i"
    define w where "w = (get_pte st1 e)\<lparr>pte_ppn := ucast (drop_bit PAGE_ORDER n), pte_flags := PTE_V\<rparr>"
    have "walk_loop (Suc l) t va True st = walk_loop l n va True (set_pte e w st1)"
      using inv t(2) st1(1) p(3) by (simp add: Let_def e_def w_def)
    moreover have pm: "pmem (set_pte e w st1) = (zero_page (pmem st) n)(t + 8 * i := u64_of_pte w)"
      by (simp add: st1(3) e_def)
    moreover have w: "is_table (pte_of (u64_of_pte w))" "pte_page (pte_of (u64_of_pte w)) = n"
      using link_pte [OF n(2,3)] by (simp_all add: w_def)
    moreover have nF: "n \<in> F" using sub by (simp add: ps)
    moreover have "e \<notin> set ns"
    proof
      assume e: "e \<in> set ns"
      then have "page_aligned e" using mm_prefix.pool_page [OF st1(2)] by simp
      moreover have "t + 8 * i - t < PAGE_SIZE" using vp(2) by (rule entry_offset_less)
      ultimately have "e = t" using same_page_iff [of e t] t(1) by (simp add: e_def)
      with e t(3) show False by (simp add: ps)
    qed
    then have "free_prefix (set_pte e w st1) ns" by (rule free_prefix_set_pte [OF st1(2)])
    moreover have "n + 8 * j \<noteq> t + 8 * i" if "j < 512" for j
      using that t n(2) vp(2) by (auto simp: entry_eq_iff ps)
    moreover have "n + 8 * j - n < PAGE_SIZE" if "j < 512" for j
      using that by (rule entry_offset_less)
    ultimately have "walk_loop (Suc l) t va True st = walk_loop l n va True (set_pte e w st1)"
      "free_prefix (set_pte e w st1) ns" "\<forall>j < 512. pmem (set_pte e w st1) (n + 8 * j) = 0"
      by auto
    moreover have "grows root (pmem st) F (pmem (set_pte e w st1)) (F - {n})"
      using grows_link [OF wf nF n(2,1) p(1,2) None w] unfolding pm .
    moreover have "table_at (pmem (set_pte e w st1)) root (p @ [i]) = Some n"
      using table_at_link [OF wf nF n(2) p(1,2) None w p(2)] unfolding pm by (simp del: fun_upd_apply)
    moreover have "a = t + 8 * i \<or> a - n < PAGE_SIZE" if "pmem (set_pte e w st1) a \<noteq> pmem st a" for a
      using that unfolding pm by (cases "a - n < PAGE_SIZE") (simp_all add: zero_page_outside split: if_splits)
    ultimately show ?thesis
      using st1(4) by (intro exI [of _ n] exI [of _ "set_pte e w st1"] exI [of _ 1]) (simp add: ps)
  qed
qed

text \<open>A valid leaf above the last level, where the walk gives up.\<close>

definition superpage :: "(u64 \<Rightarrow> u64) \<Rightarrow> u64 \<Rightarrow> u64 \<Rightarrow> bool" where
  "superpage m root va \<longleftrightarrow>
     is_leaf (entry m root (VPN 2 va)) \<or>
     (case child m root (VPN 2 va) of None \<Rightarrow> False | Some t \<Rightarrow> is_leaf (entry m t (VPN 1 va)))"

lemma superpage_iff:
  "superpage m root va \<longleftrightarrow> is_leaf (entry m root (VPN 2 va)) \<or>
     (\<exists>t. table_at m root [VPN 2 va] = Some t \<and> is_leaf (entry m t (VPN 1 va)))"
  by (auto simp: superpage_def split: option.splits)

lemma no_new_super_superpage: "no_new_super root m m' \<Longrightarrow> superpage m' root va \<Longrightarrow> superpage m root va"
proof -
  assume n: "no_new_super root m m'" and s: "superpage m' root va"
  have "is_leaf (entry m' root (VPN 2 va)) \<Longrightarrow> is_leaf (entry m root (VPN 2 va))"
    using n VPN_less [of 2 va] unfolding no_new_super_def by (metis le0 list.size(3) table_at.simps(1) vpath_simps(1))
  moreover have "table_at m root [VPN 2 va] = Some t \<and> is_leaf (entry m t (VPN 1 va))"
    if "table_at m' root [VPN 2 va] = Some t" "is_leaf (entry m' t (VPN 1 va))" for t
  proof -
    have "vpath [VPN 2 va]" "length [VPN 2 va] \<le> 1" by (simp_all add: vpath_def)
    then show ?thesis using n that VPN_less [of 1 va] unfolding no_new_super_def by blast
  qed
  ultimately show ?thesis using s unfolding superpage_iff by blast
qed

lemma walk_pt_superpage:
  assumes wf: "wf_space (pmem st) root F" and sp: "superpage (pmem st) root va"
  shows "walk_pt root va create st = Inr (0, st)"
proof (cases "is_leaf (entry (pmem st) root (VPN 2 va))")
  case True
  then show ?thesis
    using walk_leaf [of root st 1] wf_space_root [OF wf] by (simp add: walk_pt_def numeral_2_eq_2)
next
  case False
  with sp obtain t where t: "child (pmem st) root (VPN 2 va) = Some t"
    and leaf: "is_leaf (entry (pmem st) t (VPN 1 va))"
    by (auto simp: superpage_def split: option.splits)
  have "walk_pt root va create st = walk_loop 1 t va create st"
    unfolding walk_pt_def using t wf_space_root [OF wf] walk_child [of root st 1 va t create]
    by (simp add: numeral_2_eq_2)
  also have "\<dots> = Inr (0, st)"
    using walk_leaf [of t st 0] leaf wf_space_child [OF wf t] by simp
  finally show ?thesis .
qed

lemma walk_pt_create_local:
  assumes wf: "wf_space (pmem st) root F" and sub: "set ps \<subseteq> F" and fp: "free_prefix st ps"
    and lim: "\<forall>p \<in> set ps. p < 2 ^ 56" and two: "2 \<le> length ps"
    and nsp: "\<not> superpage (pmem st) root va"
  shows "\<exists>a st' k. k \<le> 2 \<and> walk_pt root va True st = Inr (a, st') \<and>
    slot (pmem st') root va = Some a \<and>
    grows root (pmem st) F (pmem st') (F - set (take k ps)) \<and> free_prefix st' (drop k ps) \<and>
    mm.more st' = mm.more st \<and>
    (\<forall>a. pmem st' a \<noteq> pmem st a \<longrightarrow> a = root + 8 * VPN 2 va \<or>
      (\<exists>t. table_at (pmem st') root [VPN 2 va] = Some t \<and> a - t < PAGE_SIZE) \<or>
      (\<exists>n \<in> set (take k ps). a - n < PAGE_SIZE))"
proof -
  let ?i = "VPN 2 va" and ?j = "VPN 1 va"
  have "ps \<noteq> []" using two by auto
  from walk_step [OF wf sub fp lim this, of "[]" root ?i 1 va] nsp
  obtain t1 s1 k1 where 1: "k1 \<le> 1" "walk_pt root va True st = walk_loop 1 t1 va True s1"
    "grows root (pmem st) F (pmem s1) (F - set (take k1 ps))" "free_prefix s1 (drop k1 ps)"
    "table_at (pmem s1) root [?i] = Some t1" "mm.more s1 = mm.more st"
    "k1 = 0 \<and> s1 = st \<or> (\<forall>j < 512. pmem s1 (t1 + 8 * j) = 0)"
    "\<forall>a. pmem s1 a \<noteq> pmem st a \<longrightarrow> a = root + 8 * ?i \<or> (\<exists>n \<in> set (take k1 ps). a - n < PAGE_SIZE)"
    by (auto simp: walk_pt_def superpage_def numeral_2_eq_2)
  have wf1: "wf_space (pmem s1) root (F - set (take k1 ps))" using 1(3) by (simp add: grows_def)
  have "set (take k1 ps) \<inter> set (drop k1 ps) = {}"
    using mm_prefix.pool_distinct [OF fp] by (simp add: set_take_disj_set_drop_if_distinct)
  then have sub1: "set (drop k1 ps) \<subseteq> F - set (take k1 ps)" using sub set_drop_subset by fastforce
  have nl: "\<not> is_leaf (entry (pmem s1) t1 ?j)"
    using 1(7)
  proof
    assume "k1 = 0 \<and> s1 = st"
    with 1(5) nsp show ?thesis by (auto simp: superpage_def split: Option.bind_splits)
  next
    assume "\<forall>j < 512. pmem s1 (t1 + 8 * j) = 0"
    then show ?thesis by (simp add: entry_def)
  qed
  have lim1: "\<forall>p \<in> set (drop k1 ps). p < 2 ^ 56" using lim by (meson in_set_dropD)
  have ne1: "drop k1 ps \<noteq> []" using two 1(1) by simp
  from walk_step [OF wf1 sub1 1(4) lim1 ne1 1(5), of ?j 0 va] nl
  obtain t2 s2 k2 where 2: "k2 \<le> 1" "walk_loop 1 t1 va True s1 = Inr (t2 + 8 * VPN 0 va, s2)"
    "grows root (pmem s1) (F - set (take k1 ps)) (pmem s2)
       (F - set (take k1 ps) - set (take k2 (drop k1 ps)))"
    "free_prefix s2 (drop k2 (drop k1 ps))"
    "table_at (pmem s2) root [?i, ?j] = Some t2" "mm.more s2 = mm.more s1"
    "\<forall>a. pmem s2 a \<noteq> pmem s1 a \<longrightarrow> a = t1 + 8 * ?j \<or> (\<exists>n \<in> set (take k2 (drop k1 ps)). a - n < PAGE_SIZE)"
    by (auto simp del: page_const)
  have "F - set (take k1 ps) - set (take k2 (drop k1 ps)) = F - set (take (k2 + k1) ps)"
    by (auto simp: take_add add.commute)
  then have g: "grows root (pmem st) F (pmem s2) (F - set (take (k2 + k1) ps))"
    using grows_trans [OF 1(3) 2(3)] by simp
  have t1: "table_at (pmem s2) root [?i] = Some t1"
    using 2(3) 1(5) VPN_less [of 2 va] unfolding grows_def by (metis vpath_simps(2))
  have "a = root + 8 * ?i \<or> (\<exists>t. table_at (pmem s2) root [?i] = Some t \<and> a - t < PAGE_SIZE) \<or>
      (\<exists>n \<in> set (take (k2 + k1) ps). a - n < PAGE_SIZE)" if "pmem s2 a \<noteq> pmem st a" for a
  proof (cases "pmem s2 a = pmem s1 a")
    case True
    then have "a = root + 8 * ?i \<or> (\<exists>n \<in> set (take k1 ps). a - n < PAGE_SIZE)" using 1(8) that by auto
    then show ?thesis by (auto simp: take_add add.commute simp del: page_const)
  next
    case False
    then have "a = t1 + 8 * ?j \<or> (\<exists>n \<in> set (take k2 (drop k1 ps)). a - n < PAGE_SIZE)" using 2(7) by auto
    then show ?thesis using t1 entry_offset_less [OF VPN_less, of t1 1 va]
      by (auto simp: take_add add.commute simp del: page_const)
  qed
  then show ?thesis
    using 1 2 g
    by (intro exI [of _ "t2 + 8 * VPN 0 va"] exI [of _ s2] exI [of _ "k2 + k1"]) (simp add: slot_def)
qed

lemma walk_pt_create:
  assumes wf: "wf_space (pmem st) root F" and sub: "set ps \<subseteq> F" and fp: "free_prefix st ps"
    and lim: "\<forall>p \<in> set ps. p < 2 ^ 56" and two: "2 \<le> length ps"
    and nsp: "\<not> superpage (pmem st) root va"
  shows "\<exists>a st' k. k \<le> 2 \<and> walk_pt root va True st = Inr (a, st') \<and>
    slot (pmem st') root va = Some a \<and>
    grows root (pmem st) F (pmem st') (F - set (take k ps)) \<and> free_prefix st' (drop k ps) \<and>
    mm.more st' = mm.more st"
  using walk_pt_create_local [OF assms] by blast

section \<open>Writing a last-level entry\<close>

definition same_vpage :: "u64 \<Rightarrow> u64 \<Rightarrow> bool" where
  "same_vpage va va' \<longleftrightarrow> VPN 2 va = VPN 2 va' \<and> VPN 1 va = VPN 1 va' \<and> VPN 0 va = VPN 0 va'"

lemma same_vpage_refl [simp]: "same_vpage va va"
  by (simp add: same_vpage_def)

lemma slot_cong_vpage: "same_vpage va va' \<Longrightarrow> slot m root va = slot m root va'"
  by (simp add: same_vpage_def slot_def)

lemma mapped_cong_vpage: "same_vpage va va' \<Longrightarrow> mapped m root va = mapped m root va'"
  by (simp add: mapped_def slot_cong_vpage)

lemma slot_inj:
  assumes "wf_space m root F" and "slot m root va = Some a" and "slot m root va' = Some a"
  shows "same_vpage va va'"
proof -
  obtain t t' where t: "table_at m root [VPN 2 va, VPN 1 va] = Some t" "a = t + 8 * VPN 0 va"
    and t': "table_at m root [VPN 2 va', VPN 1 va'] = Some t'" "a = t' + 8 * VPN 0 va'"
    using assms(2,3) by (elim slotE) blast
  have "page_aligned t" "page_aligned t'"
    using wf_space_table [OF assms(1) _ t(1)] wf_space_table [OF assms(1) _ t'(1)] by auto
  then have "t = t'" "VPN 0 va = VPN 0 va'" using t(2) t'(2) by (auto simp: entry_eq_iff)
  moreover have "[VPN 2 va, VPN 1 va] = [VPN 2 va', VPN 1 va']"
    using wf_space_inj [OF assms(1) _ _ t(1)] t'(1) \<open>t = t'\<close> by (metis VPN_less vpath_simps(3))
  ultimately show ?thesis by (simp add: same_vpage_def)
qed

lemma slot_not_null:
  assumes "wf_space m root F" and "slot m root va = Some a"
  shows "a \<noteq> 0"
proof -
  obtain t where t: "table_at m root [VPN 2 va, VPN 1 va] = Some t" "a = t + 8 * VPN 0 va"
    using assms(2) by (rule slotE)
  have "page_aligned t" "t \<noteq> 0" using wf_space_table [OF assms(1) _ t(1)] by auto
  then show ?thesis using t(2) entry_eq_iff [of t 0 "VPN 0 va" 0] by simp
qed

lemma slot_outside:
  assumes "wf_space m root F" and "slot m root va = Some a"
    and "page_aligned n" and "\<And>q. vpath q \<Longrightarrow> table_at m root q \<noteq> Some n"
  shows "\<not> a - n < PAGE_SIZE"
proof -
  obtain t where t: "table_at m root [VPN 2 va, VPN 1 va] = Some t" "a = t + 8 * VPN 0 va"
    using assms(2) by (rule slotE)
  have "page_aligned t" using wf_space_table [OF assms(1) _ t(1)] by simp
  moreover have "t \<noteq> n" using assms(4) [of "[VPN 2 va, VPN 1 va]"] t(1) by auto
  ultimately show ?thesis using entry_in_page_iff [OF _ assms(3) VPN_less] t(2) by blast
qed

lemma slot_in_table:
  assumes "slot m root va = Some a"
  shows "\<exists>q t. vpath q \<and> table_at m root q = Some t \<and> a - t < PAGE_SIZE"
proof -
  obtain t where "table_at m root [VPN 2 va, VPN 1 va] = Some t" "a = t + 8 * VPN 0 va"
    using assms by (rule slotE)
  then show ?thesis using entry_offset_less [OF VPN_less, of t 0 va] by (metis VPN_less vpath_simps(3))
qed

lemma slot_not_free:
  assumes "wf_space m root F" and "slot m root va = Some a" and "p \<in> F" and "page_aligned p"
  shows "a \<noteq> p"
proof -
  have "\<not> a - p < PAGE_SIZE"
    using wf_space_table [OF assms(1)] assms(3) by (intro slot_outside [OF assms(1,2,4)]) blast
  then show ?thesis by (auto simp: word_less_nat_alt)
qed

lemma slot_write:
  assumes wf: "wf_space m root F" and a: "slot m root va = Some a"
  shows "vpath q \<Longrightarrow> table_at (m(a := w)) root q = table_at m root q"
    and "wf_space (m(a := w)) root F"
    and "slot (m(a := w)) root va' = slot m root va'"
    and "mapped (m(a := w)) root va' =
      (if same_vpage va va'
       then if pte_flags (pte_of w) AND PTE_V \<noteq> 0 then Some (pte_of w) else None
       else mapped m root va')"
    and "no_new_super root m (m(a := w))"
proof -
  obtain t where t: "table_at m root [VPN 2 va, VPN 1 va] = Some t" "a = t + 8 * VPN 0 va"
    using a by (rule slotE)
  show tab: "vpath q \<Longrightarrow> table_at (m(a := w)) root q = table_at m root q" for q
    unfolding t(2) using table_at_leaf_write [OF wf t(1)] by simp
  then show "wf_space (m(a := w)) root F" using wf by (simp add: wf_space_def)
  show sl: "slot (m(a := w)) root va' = slot m root va'" for va'
    unfolding slot_def using tab [of "[VPN 2 va', VPN 1 va']"] by simp
  show "mapped (m(a := w)) root va' =
      (if same_vpage va va'
       then if pte_flags (pte_of w) AND PTE_V \<noteq> 0 then Some (pte_of w) else None
       else mapped m root va')"
  proof (cases "same_vpage va va'")
    case True
    then have "slot m root va' = Some a" using a slot_cong_vpage by metis
    then show ?thesis using True sl [of va'] by (simp add: mapped_def)
  next
    case False
    then have "slot m root va' \<noteq> Some a" using slot_inj [OF wf a] by blast
    then show ?thesis using False sl [of va'] by (auto simp: mapped_def split: option.splits)
  qed
  have "t' + 8 * j \<noteq> a" if "vpath q" "length q \<le> 1" "j < 512" "table_at m root q = Some t'" for q t' j
  proof -
    have "page_aligned t" "page_aligned t'" using wf_space_table [OF wf _ t(1)] wf_space_table [OF wf that(1,4)] by auto
    moreover have "t \<noteq> t'" using wf_space_inj [OF wf that(1) _ that(4), of "[VPN 2 va, VPN 1 va]"] t(1) that(2) by auto
    ultimately show ?thesis using t(2) that(3) by (auto simp: entry_eq_iff)
  qed
  then show "no_new_super root m (m(a := w))" unfolding no_new_super_def using tab by (auto simp: entry_def)
qed

section \<open>Changing a page that is not a table\<close>

lemma mapped_keeps_outside:
  assumes "wf_space m root F" and "n \<in> F" and "page_aligned n" and "keeps_outside n m m'"
  shows "slot m' root va = slot m root va"
    and "mapped m' root va = mapped m root va"
proof -
  show s: "slot m' root va = slot m root va"
    unfolding slot_def using table_at_keeps_outside [OF assms, of "[VPN 2 va, VPN 1 va]"] by simp
  have "m' a = m a" if "slot m root va = Some a" for a
    using that entry_keeps_outside [OF assms, of "[VPN 2 va, VPN 1 va]"] by (auto elim: slotE)
  with s show "mapped m' root va = mapped m root va" by (rule mapped_cong)
qed

lemma superpage_keeps_outside:
  assumes "wf_space m root F" and "n \<in> F" and "page_aligned n" and "keeps_outside n m m'"
  shows "superpage m' root va = superpage m root va"
proof -
  have "entry m' root (VPN 2 va) = entry m root (VPN 2 va)"
    using entry_keeps_outside [OF assms, of "[]" root] by (simp add: entry_def)
  moreover have "entry m' t (VPN 1 va) = entry m t (VPN 1 va)"
    if "child m root (VPN 2 va) = Some t" for t
    using entry_keeps_outside [OF assms, of "[VPN 2 va]" t] that by (simp add: entry_def)
  ultimately show ?thesis by (auto simp: superpage_def child_def split: option.splits)
qed

lemma no_new_super_keeps_outside:
  assumes "wf_space m root F" and "n \<in> F" and "page_aligned n" and "keeps_outside n m m'"
  shows "no_new_super root m m'"
  unfolding no_new_super_def
proof (intro allI impI)
  fix q t j
  assume q: "vpath q" "length q \<le> 1" "j < 512" "table_at m' root q = Some t" "is_leaf (entry m' t j)"
  then have t: "table_at m root q = Some t" using table_at_keeps_outside [OF assms] by simp
  then have "entry m' t j = entry m t j" using entry_keeps_outside [OF assms q(1)] q(3) by (simp add: entry_def)
  then show "table_at m root q = Some t \<and> is_leaf (entry m t j)" using t q(5) by simp
qed

section \<open>An address space without mappings\<close>

lemma wf_space_empty:
  assumes "page_aligned root" and "root \<noteq> 0" and "root \<notin> F"
    and "\<And>i. i < 512 \<Longrightarrow> m (root + 8 * i) = 0"
  shows "wf_space m root F" and "\<not> superpage m root va" and "mapped m root va = None"
proof -
  have c: "child m root i = None" if "i < 512" for i
    using assms(4) [OF that] by (simp add: child_def entry_def is_table_def)
  have "table_at m root p = (if p = [] then Some root else None)" if "vpath p" for p
    using that c by (cases p) (auto simp: vpath_def)
  with assms(1-3) show "wf_space m root F" by (auto simp: wf_space_def split: if_splits)
  show "\<not> superpage m root va" using c assms(4) by (simp add: superpage_def entry_def)
  show "mapped m root va = None" using c by (simp add: mapped_def slot_def)
qed

end
