(* ===== verification/Memory.thy ===== *)
theory Memory
  imports PageTable
begin

text \<open>
  Virtual memory management of \<open>kern/memory.c\<close> above the page table walk: mapping of pages
  and ranges, permission changes, the page fault handler, validation of user pointers,
  reclaiming and cloning of address spaces, and \<open>memory_init\<close>.

  The state extends the heap's state with the \<open>satp\<close> register. The kernel works through the
  global identity mapping that every address space shares, so page tables are read and
  written at their physical addresses; the effect of \<open>sfence.vma\<close> on the translation cache is
  not modelled. Console output is left out.
\<close>

section \<open>State\<close>

record vm = heapst +
  satp :: u64
  main_mtag :: u64
  sstatus_sum :: bool
  memory_initialized :: bool

definition RAM_START_PMA :: u64 where "RAM_START_PMA = 0x80000000"
definition USER_START_VMA :: u64 where "USER_START_VMA = 0xC0000000"
definition USER_END_VMA :: u64 where "USER_END_VMA = 0xD0000000"
definition MEGA_SIZE :: u64 where "MEGA_SIZE = 512 * PAGE_SIZE"
definition GIGA_SIZE :: u64 where "GIGA_SIZE = 512 * MEGA_SIZE"
definition HEAP_INIT_MIN :: u64 where "HEAP_INIT_MIN = 256"
definition RISCV_SATP_MODE_Sv39 :: u64 where "RISCV_SATP_MODE_Sv39 = 8"

definition active_space_mtag :: "'a vm_scheme \<Rightarrow> u64" where
  "active_space_mtag st = satp st"

definition mtag_to_root :: "u64 \<Rightarrow> u64" where
  "mtag_to_root mtag = drop_bit 8 (push_bit 20 mtag)"

definition active_space_root :: "'a vm_scheme \<Rightarrow> u64" where
  "active_space_root st = mtag_to_root (active_space_mtag st)"

definition memory_space_switch :: "u64 \<Rightarrow> 'a vm_scheme \<Rightarrow> u64 \<times> 'a vm_scheme" where
  "memory_space_switch mtag st = (satp st, st\<lparr>satp := mtag\<rparr>)"

text \<open>The addresses a loop \<open>for (a = lo; a < hi; a += step)\<close> visits when \<open>a\<close> does not wrap.\<close>

definition addr_range :: "u64 \<Rightarrow> u64 \<Rightarrow> u64 \<Rightarrow> u64 list" where
  "addr_range lo hi step =
     map (\<lambda>i. lo + of_nat i * step) [0 ..< (unat hi - unat lo + unat step - 1) div unat step]"

section \<open>Mapping pages\<close>

definition memory_alloc_and_map_page ::
    "u64 \<Rightarrow> u8 \<Rightarrow> 'a vm_scheme \<Rightarrow> (u64 \<times> 'a vm_scheme) res" where
  "memory_alloc_and_map_page vma rwxug_flags st =
     (if \<not> wellformed_vma vma \<or> \<not> aligned_addr vma PAGE_SIZE then Inr (0, st)
      else bind_res (memory_alloc_page st) (\<lambda>(physical_page, st).
        if physical_page = 0 then Inl (Panic ''Out of physical memory!'')
        else bind_res (walk_pt (active_space_root st) vma True st) (\<lambda>(pte, st).
          if pte = 0 then bind_res (memory_free_page physical_page st) (\<lambda>st. Inr (0, st))
          else Inr (vma, set_pte pte (leaf_pte physical_page rwxug_flags) st))))"

definition memory_set_page_flags :: "u64 \<Rightarrow> u8 \<Rightarrow> 'a vm_scheme \<Rightarrow> 'a vm_scheme res" where
  "memory_set_page_flags vp rwxug_flags st =
     (if vp mod PAGE_SIZE \<noteq> 0 then Inr st
      else bind_res (walk_pt (active_space_root st) vp False st) (\<lambda>(pte, st).
        if pte = 0 \<or> pte_flags (get_pte st pte) AND PTE_V = 0 then Inr st
        else let p = get_pte st pte;
                 p = p\<lparr>pte_flags := pte_flags p AND NOT PTE_FLAGS_MASK\<rparr>;
                 p = p\<lparr>pte_flags := pte_flags p OR rwxug_flags\<rparr>
             in Inr (set_pte pte p st)))"

text \<open>
  The body of the loop of \<open>memory_alloc_and_map_range\<close>: \<open>None\<close> is the early return after the
  pages mapped so far have been handed to \<open>memory_free_page\<close>. The calls that round
  \<open>start_vma\<close> and \<open>end_vma\<close> drop their results in the C code and do nothing.
\<close>

fun map_range_loop ::
    "u64 \<Rightarrow> u8 \<Rightarrow> nat \<Rightarrow> nat \<Rightarrow> 'a vm_scheme \<Rightarrow> (u64 \<times> 'a vm_scheme) res" where
  "map_range_loop start_vma rwxug_flags pages_mapped 0 st = Inr (start_vma, st)"
| "map_range_loop start_vma rwxug_flags pages_mapped (Suc left) st =
     bind_res (memory_alloc_and_map_page (start_vma + of_nat pages_mapped * PAGE_SIZE) rwxug_flags st)
       (\<lambda>(result, st).
          if result = 0 then
            bind_res (foldM (\<lambda>i. memory_free_page (start_vma + of_nat i * PAGE_SIZE))
                [0 ..< pages_mapped] st) (\<lambda>st. Inr (0, st))
          else map_range_loop start_vma rwxug_flags (Suc pages_mapped) left st)"

definition memory_alloc_and_map_range ::
    "u64 \<Rightarrow> u64 \<Rightarrow> u8 \<Rightarrow> 'a vm_scheme \<Rightarrow> (u64 \<times> 'a vm_scheme) res" where
  "memory_alloc_and_map_range vma sz rwxug_flags st =
     (let start_vma = vma; end_vma = start_vma + sz;
          num_pages = (end_vma - start_vma) div PAGE_SIZE
      in map_range_loop start_vma rwxug_flags 0 (unat num_pages) st)"

definition memory_set_range_flags :: "u64 \<Rightarrow> u64 \<Rightarrow> u8 \<Rightarrow> 'a vm_scheme \<Rightarrow> 'a vm_scheme res" where
  "memory_set_range_flags vp sz rwxug_flags st =
     (let start_addr = vp; end_addr = start_addr + sz;
          num_pages = (end_addr - start_addr) div PAGE_SIZE
      in foldM (\<lambda>i. memory_set_page_flags (start_addr + of_nat i * PAGE_SIZE) rwxug_flags)
           [0 ..< unat num_pages] st)"

definition memory_handle_page_fault :: "u64 \<Rightarrow> 'a vm_scheme \<Rightarrow> 'a vm_scheme res" where
  "memory_handle_page_fault vptr st =
     (if vptr < USER_START_VMA \<or> USER_END_VMA \<le> vptr
      then Inl (Panic ''page fault in invalid address space'')
      else
        let va = round_down_addr vptr PAGE_SIZE in
        if \<not> aligned_addr va PAGE_SIZE then Inl (Panic ''page fault at non-aligned address'')
        else bind_res (walk_pt (active_space_root st) va True st) (\<lambda>(pa_pte, st).
          if pa_pte = 0 then Inl (Panic ''Page fault: PTE not found'')
          else bind_res (memory_alloc_and_map_page va (PTE_R OR PTE_W OR PTE_U) st) (\<lambda>(new_pp, st).
            if new_pp = 0 then Inl (Panic ''Page fault: Memory allocation failed'')
            else Inr st)))"

section \<open>Validation of user pointers\<close>

text \<open>
  The loops follow addresses that may wrap, so they are partial: \<open>None\<close> is a loop that never
  ends. \<open>ld\<close> is the byte the processor loads from a virtual address of the active space, or the
  fault of that load.
\<close>

definition page_ok :: "'a vm_scheme \<Rightarrow> u8 \<Rightarrow> u64 \<Rightarrow> bool res" where
  "page_ok st flags vma =
     bind_res (walk_pt (active_space_root st) vma False st) (\<lambda>(pte, st).
       Inr (pte \<noteq> 0 \<and> pte_flags (get_pte st pte) AND PTE_V \<noteq> 0 \<and>
            pte_flags (get_pte st pte) AND flags = flags))"

partial_function (option) vptr_loop :: "'a vm_scheme \<Rightarrow> u8 \<Rightarrow> u64 \<Rightarrow> u64 \<Rightarrow> int res option" where
  "vptr_loop st flags current_vma end_vma =
     (if current_vma < end_vma then
        (case page_ok st flags current_vma of
           Inl e \<Rightarrow> Some (Inl e)
         | Inr ok \<Rightarrow> if ok then vptr_loop st flags (current_vma + PAGE_SIZE) end_vma
                    else Some (Inr (- 1)))
      else Some (Inr 0))"

definition memory_validate_vptr_len :: "u64 \<Rightarrow> u64 \<Rightarrow> u8 \<Rightarrow> 'a vm_scheme \<Rightarrow> int res option" where
  "memory_validate_vptr_len vp len rwxug_flags st =
     (if \<not> wellformed_vma vp \<or> len = 0 then Some (Inr (- 1))
      else let start_vma = vp; end_vma = start_vma + len
           in vptr_loop st rwxug_flags start_vma end_vma)"

partial_function (option) vstr_loop ::
    "(u64 \<Rightarrow> u8 res) \<Rightarrow> 'a vm_scheme \<Rightarrow> u8 \<Rightarrow> u64 \<Rightarrow> int res option" where
  "vstr_loop ld st flags current_vma =
     (case page_ok st flags current_vma of
        Inl e \<Rightarrow> Some (Inl e)
      | Inr ok \<Rightarrow> if \<not> ok then Some (Inr (- 1))
                 else (case ld current_vma of
                     Inl e \<Rightarrow> Some (Inl e)
                   | Inr c \<Rightarrow> if c = 0 then Some (Inr 0) else vstr_loop ld st flags (current_vma + 1)))"

definition memory_validate_vstr :: "(u64 \<Rightarrow> u8 res) \<Rightarrow> u64 \<Rightarrow> u8 \<Rightarrow> 'a vm_scheme \<Rightarrow> int res option" where
  "memory_validate_vstr ld vs ug_flags st =
     (if \<not> wellformed_vma vs then Some (Inr (- 1)) else vstr_loop ld st ug_flags vs)"

section \<open>Reclaiming and cloning address spaces\<close>

text \<open>One iteration of the loop of \<open>memory_space_reclaim\<close>.\<close>

definition reclaim_page :: "u64 \<Rightarrow> u64 \<Rightarrow> 'a vm_scheme \<Rightarrow> 'a vm_scheme res" where
  "reclaim_page old_root vaddr st =
     bind_res (walk_pt old_root vaddr False st) (\<lambda>(pte, st).
       let fl = pte_flags (get_pte st pte) in
       if pte = 0 then Inr st
       else if fl AND PTE_V = 0 then Inr st
       else if fl AND PTE_G \<noteq> 0 then Inr st
       else if fl AND (PTE_R OR PTE_W OR PTE_X) \<noteq> 0 then
         bind_res (memory_free_page (pte_page (get_pte st pte)) st)
           (\<lambda>st. Inr (set_pte pte null_pte st))
       else Inr st)"

definition memory_space_reclaim :: "'a vm_scheme \<Rightarrow> 'a vm_scheme res" where
  "memory_space_reclaim st =
     (let old_root = mtag_to_root (active_space_mtag st);
          st = st\<lparr>satp := main_mtag st\<rparr>
      in foldM (reclaim_page old_root) (addr_range USER_START_VMA USER_END_VMA PAGE_SIZE) st)"

definition unmap_user_page :: "u64 \<Rightarrow> u64 \<Rightarrow> 'a vm_scheme \<Rightarrow> 'a vm_scheme res" where
  "unmap_user_page root_pt vma st =
     bind_res (walk_pt root_pt vma False st) (\<lambda>(pte, st).
       let fl = pte_flags (get_pte st pte) in
       if pte = 0 \<or> fl AND PTE_V = 0 then Inr st
       else if fl AND PTE_U = 0 then Inr st
       else if fl AND (PTE_R OR PTE_W OR PTE_X) \<noteq> 0 then
         let st = set_pte pte ((get_pte st pte)\<lparr>pte_flags := 0\<rparr>) st
         in memory_free_page (pte_page (get_pte st pte)) st
       else Inr st)"

definition memory_unmap_and_free_user :: "'a vm_scheme \<Rightarrow> 'a vm_scheme res" where
  "memory_unmap_and_free_user st =
     (let root_pt = mtag_to_root (active_space_mtag st)
      in foldM (unmap_user_page root_pt) (addr_range USER_START_VMA USER_END_VMA PAGE_SIZE) st)"

text \<open>\<open>memcpy(dst, src, PAGE_SIZE)\<close>, for pages that are equal or do not overlap.\<close>

definition copy_page :: "u64 \<Rightarrow> u64 \<Rightarrow> (u64 \<Rightarrow> u64) \<Rightarrow> (u64 \<Rightarrow> u64)" where
  "copy_page dst src m = (\<lambda>a. if a - dst < PAGE_SIZE then m (src + (a - dst)) else m a)"

definition copy_global_ptes :: "u64 \<Rightarrow> u64 \<Rightarrow> 'a vm_scheme \<Rightarrow> 'a vm_scheme" where
  "copy_global_ptes main_pt2 child_root st =
     fold (\<lambda>i st. if pte_flags (get_pte st (main_pt2 + 8 * of_nat i)) AND PTE_G \<noteq> 0
                  then set_pte (child_root + 8 * of_nat i) (get_pte st (main_pt2 + 8 * of_nat i)) st
                  else st) [0 ..< 512] st"

text \<open>
  One iteration of the loop of \<open>memory_space_clone\<close>. The result of the walk in the child is
  used without a null check; at address 0 nothing is mapped for writing through it.
\<close>

definition clone_page :: "u64 \<Rightarrow> u64 \<Rightarrow> u64 \<Rightarrow> 'a vm_scheme \<Rightarrow> 'a vm_scheme res" where
  "clone_page parent_root child_root vma st =
     bind_res (walk_pt parent_root vma False st) (\<lambda>(parent_pte, st).
       if parent_pte = 0 \<or> pte_flags (get_pte st parent_pte) AND PTE_V = 0 then Inr st
       else
         let parent_phys_page = pte_page (get_pte st parent_pte) in
         bind_res (walk_pt child_root vma True st) (\<lambda>(child_pte, st).
           bind_res (memory_alloc_page st) (\<lambda>(child_pt, st).
             if child_pte = 0 then Inl UndefinedAccess
             else
               let st = set_pte child_pte
                          ((get_pte st child_pte)\<lparr>pte_ppn := ucast (pageptr_to_pagenum child_pt)\<rparr>) st;
                   st = set_pte child_pte ((get_pte st child_pte)\<lparr>pte_flags :=
                          pte_flags (get_pte st child_pte) OR pte_flags (get_pte st parent_pte)\<rparr>) st;
                   child_phys_page = pte_page (get_pte st child_pte)
               in Inr (st\<lparr>pmem := copy_page child_phys_page parent_phys_page (pmem st)\<rparr>))))"

definition make_mtag :: "u64 \<Rightarrow> u64 \<Rightarrow> u64" where
  "make_mtag asid root =
     push_bit 60 RISCV_SATP_MODE_Sv39 OR push_bit 44 asid OR pageptr_to_pagenum root"

text \<open>
  \<open>parent_mtag\<close> is the \<open>mtag\<close> of the current process, \<open>main_pt2\<close> the address of the static root
  table of the kernel.
\<close>

definition memory_space_clone :: "u64 \<Rightarrow> u64 \<Rightarrow> u64 \<Rightarrow> 'a vm_scheme \<Rightarrow> (u64 \<times> 'a vm_scheme) res" where
  "memory_space_clone main_pt2 parent_mtag asid st =
     bind_res (memory_alloc_page st) (\<lambda>(new_root, st).
       if new_root = 0 then Inr (0, st)
       else
         let st = st\<lparr>pmem := zero_page (pmem st) new_root\<rparr>;
             st = copy_global_ptes main_pt2 new_root st
         in bind_res (foldM (clone_page (mtag_to_root parent_mtag) new_root)
                (addr_range USER_START_VMA USER_END_VMA PAGE_SIZE) st)
              (\<lambda>st. Inr (make_mtag asid new_root, st)))"

section \<open>Initialisation\<close>

text \<open>The symbols the linker provides, the static page tables and the size of RAM.\<close>

record kimage =
  kimg_start :: u64
  kimg_text_start :: u64
  kimg_text_end :: u64
  kimg_rodata_start :: u64
  kimg_rodata_end :: u64
  kimg_data_start :: u64
  kimg_end :: u64
  img_main_pt2 :: u64
  img_main_pt1 :: u64
  img_main_pt0 :: u64
  RAM_SIZE :: u64

definition RAM_END_PMA :: "kimage \<Rightarrow> u64" where
  "RAM_END_PMA img = RAM_START_PMA + RAM_SIZE img"

definition map_leaves :: "u64 \<Rightarrow> nat \<Rightarrow> u8 \<Rightarrow> u64 list \<Rightarrow> 'a vm_scheme \<Rightarrow> 'a vm_scheme" where
  "map_leaves table level flags pps st =
     fold (\<lambda>pp. set_pte (table + 8 * VPN level pp) (leaf_pte pp flags)) pps st"

definition init_main_tables :: "kimage \<Rightarrow> 'a vm_scheme \<Rightarrow> 'a vm_scheme" where
  "init_main_tables img st =
     (let pt2 = img_main_pt2 img; pt1 = img_main_pt1 img; pt0 = img_main_pt0 img;
          st = map_leaves pt2 2 (PTE_R OR PTE_W OR PTE_G) (addr_range 0 RAM_START_PMA GIGA_SIZE) st;
          st = set_pte (pt2 + 8 * VPN 2 RAM_START_PMA) (ptab_pte pt1 PTE_G) st;
          st = set_pte (pt1 + 8 * VPN 1 RAM_START_PMA) (ptab_pte pt0 PTE_G) st;
          st = map_leaves pt0 0 (PTE_R OR PTE_X OR PTE_G)
                 (addr_range (kimg_text_start img) (kimg_text_end img) PAGE_SIZE) st;
          st = map_leaves pt0 0 (PTE_R OR PTE_G)
                 (addr_range (kimg_rodata_start img) (kimg_rodata_end img) PAGE_SIZE) st;
          st = map_leaves pt0 0 (PTE_R OR PTE_W OR PTE_G)
                 (addr_range (kimg_data_start img) (RAM_START_PMA + MEGA_SIZE) PAGE_SIZE) st
      in map_leaves pt1 1 (PTE_R OR PTE_W OR PTE_G)
           (addr_range (RAM_START_PMA + MEGA_SIZE) (RAM_END_PMA img) MEGA_SIZE) st)"

definition init_heap_end :: "u64 \<Rightarrow> u64" where
  "init_heap_end start =
     (let e = round_up_addr start PAGE_SIZE in
      if sint (e - start) < 256 then e + round_up_addr (HEAP_INIT_MIN - (e - start)) PAGE_SIZE else e)"

text \<open>The loop that puts the pages of RAM on the free list.\<close>

definition push_page :: "u64 \<Rightarrow> 'a mm_scheme \<Rightarrow> 'a mm_scheme" where
  "push_page pp st = (let st = st\<lparr>pmem := (pmem st)(pp := free_list st)\<rparr> in st\<lparr>free_list := pp\<rparr>)"

definition memory_init :: "kimage \<Rightarrow> 'a vm_scheme \<Rightarrow> 'a vm_scheme res" where
  "memory_init img st =
     bind_res (check (RAM_START_PMA = kimg_start img) AssertFailed) (\<lambda>_.
       if MEGA_SIZE < kimg_end img - kimg_start img then Inl (Panic ''Kernel too large'')
       else
         let st = init_main_tables img st;
             st = st\<lparr>main_mtag := push_bit 60 RISCV_SATP_MODE_Sv39 OR
                                  pageptr_to_pagenum (img_main_pt2 img)\<rparr>;
             st = st\<lparr>satp := main_mtag st\<rparr>;
             start = kimg_end img;
             stop = init_heap_end start
         in if RAM_END_PMA img < stop then Inl (Panic ''Not enough memory'')
            else bind_res (heap_init start stop st) (\<lambda>st.
              let st = st\<lparr>free_list := stop\<rparr>;
                  st = fold push_page (addr_range stop (RAM_END_PMA img) PAGE_SIZE) st;
                  st = st\<lparr>sstatus_sum := True\<rparr>
              in Inr (st\<lparr>memory_initialized := True\<rparr>)))"

section \<open>Mapping a page\<close>

lemma satp_cong: "mm.more st' = mm.more st \<Longrightarrow> satp (st' :: 'a vm_scheme) = satp st"
  by (cases st; cases st') simp

lemma active_space_root_cong:
  "mm.more st' = mm.more st \<Longrightarrow> active_space_root (st' :: 'a vm_scheme) = active_space_root st"
  unfolding active_space_root_def active_space_mtag_def by (frule satp_cong) simp

lemma leaf_pte_valid [simp]: "pte_flags (leaf_pte p fl) AND PTE_V \<noteq> 0"
proof
  assume "pte_flags (leaf_pte p fl) AND PTE_V = 0"
  then have "bit (pte_flags (leaf_pte p fl) AND PTE_V) 0 = bit (0 :: u8) 0" by simp
  then show False by (simp add: leaf_pte_def pte_flag_defs bit_simps)
qed

text \<open>
  \<open>maps_fresh st root ps vma fl pg ps' st'\<close>: the step from \<open>st\<close> to \<open>st'\<close> mapped the page of \<open>vma\<close>
  to the cleared page \<open>pg\<close> taken from the free pages \<open>ps\<close>, and changed nothing else: every other
  page is mapped as before, every word outside \<open>pg\<close> and the page tables of the space is kept.
\<close>

definition maps_fresh ::
    "'a vm_scheme \<Rightarrow> u64 \<Rightarrow> u64 list \<Rightarrow> u64 \<Rightarrow> u8 \<Rightarrow> u64 \<Rightarrow> u64 list \<Rightarrow> 'a vm_scheme \<Rightarrow> bool" where
  "maps_fresh st root ps vma fl pg ps' st' \<longleftrightarrow>
     pg \<in> set ps \<and> pg \<notin> set ps' \<and> set ps' \<subseteq> set ps \<and>
     free_prefix st' ps' \<and> wf_space (pmem st') root (insert pg (set ps')) \<and>
     mm.more st' = mm.more st \<and>
     mapped (pmem st') root vma = Some (leaf_pte pg fl) \<and>
     (\<forall>va. \<not> same_vpage vma va \<longrightarrow> mapped (pmem st') root va = mapped (pmem st) root va) \<and>
     (\<forall>q t. vpath q \<longrightarrow> table_at (pmem st) root q = Some t \<longrightarrow> table_at (pmem st') root q = Some t) \<and>
     (\<forall>a. a - pg < PAGE_SIZE \<longrightarrow> pmem st' a = 0) \<and> no_new_super root (pmem st) (pmem st') \<and>
     (\<forall>a. pmem st' a \<noteq> pmem st a \<longrightarrow> a - pg < PAGE_SIZE \<or>
        (\<exists>q t. vpath q \<and> table_at (pmem st') root q = Some t \<and> a - t < PAGE_SIZE))"

text \<open>\<open>F\<close> are pages that are not page tables: the free ones and frames in use. They stay that way.\<close>

lemma map_page_in:
  assumes wf: "wf_space (pmem st) root F" and sub: "set ps \<subseteq> F" and root: "active_space_root st = root"
    and fp: "free_prefix st ps" and lim: "\<forall>p \<in> set ps. p < 2 ^ 56" and three: "3 \<le> length ps"
    and nsp: "\<not> superpage (pmem st) root vma"
    and ok: "wellformed_vma vma" "aligned_addr vma PAGE_SIZE"
  shows "\<exists>st' k. k \<le> 2 \<and> memory_alloc_and_map_page vma fl st = Inr (vma, st') \<and>
    maps_fresh st root ps vma fl (hd ps) (drop k (tl ps)) st' \<and> wf_space (pmem st') root (F - set (take k (tl ps)))"
proof -
  obtain pg qs where ps: "ps = pg # qs" using three by (cases ps) auto
  have pg: "pg \<in> set ps" "page_aligned pg" "pg \<noteq> 0" "pg \<notin> set qs"
    using mm_prefix.pool_page [OF fp, of pg] mm_prefix.pool_distinct [OF fp] by (auto simp: ps)
  obtain st1 where st1: "memory_alloc_page st = Inr (pg, st1)" "free_prefix st1 qs"
    "pmem st1 = zero_page (pmem st) pg" "mm.more st1 = mm.more st"
    using memory_alloc_page_Cons [of st pg qs] fp by (auto simp: ps)
  have pgF: "pg \<in> F" using pg(1) sub by blast
  have wf1: "wf_space (pmem st1) root F"
    using wf_space_keeps_outside [OF wf pgF pg(2)] by (simp add: st1(3))
  have nsp1: "\<not> superpage (pmem st1) root vma"
    using superpage_keeps_outside [OF wf pgF pg(2)] nsp by (simp add: st1(3))
  have "set qs \<subseteq> F" "\<forall>p \<in> set qs. p < 2 ^ 56" "2 \<le> length qs" using lim three sub by (auto simp: ps)
  from walk_pt_create [OF wf1 this(1) st1(2) this(2,3) nsp1]
  obtain a st2 k where k: "k \<le> 2" "walk_pt root vma True st1 = Inr (a, st2)"
    "slot (pmem st2) root vma = Some a" "free_prefix st2 (drop k qs)" "mm.more st2 = mm.more st1"
    and g: "grows root (pmem st1) F (pmem st2) (F - set (take k qs))"
    by blast
  let ?F = "F - set (take k qs)" and ?w = "u64_of_pte (leaf_pte pg fl)"
  let ?st = "set_pte a (leaf_pte pg fl) st2"
  have wf2: "wf_space (pmem st2) root ?F" using g by (rule grows_wf)
  have dq: "set (take k qs) \<inter> set (drop k qs) = {}"
    using mm_prefix.pool_distinct [OF fp]
    by (intro set_take_disj_set_drop_if_distinct) (auto simp: ps)
  have F: "insert pg (set (drop k qs)) \<subseteq> ?F" "pg \<in> ?F"
    using pg(4) pgF sub dq set_drop_subset [of k qs] set_take_subset [of k qs] by (auto simp: ps)
  note w = slot_write [OF wf2 k(3), where w = ?w]
  have "a \<notin> set (drop k qs)"
    using slot_not_free [OF wf2 k(3)] F mm_prefix.pool_page [OF k(4)] by blast
  then have "free_prefix ?st (drop k qs)" using free_prefix_set_pte [OF k(4)] by blast
  moreover have "memory_alloc_and_map_page vma fl st = Inr (vma, ?st)"
    using ok st1(1) pg(3) k(2) slot_not_null [OF wf2 k(3)] root active_space_root_cong [OF st1(4)]
    by (simp add: memory_alloc_and_map_page_def)
  moreover have "wf_space (pmem ?st) root (insert pg (set (drop k qs)))"
    using wf_space_mono [OF w(2) F(1)] by (simp del: fun_upd_apply)
  moreover have "mapped (pmem ?st) root vma = Some (leaf_pte pg fl)"
    using w(4) [of vma] by (simp del: fun_upd_apply)
  moreover have "mapped (pmem ?st) root va = mapped (pmem st) root va" if "\<not> same_vpage vma va" for va
    using w(4) [of va] that grows_mapped [OF g, of va] mapped_keeps_outside(2) [OF wf pgF pg(2)]
    by (simp add: st1(3) del: fun_upd_apply)
  moreover have "table_at (pmem ?st) root q = Some t"
    if "vpath q" "table_at (pmem st) root q = Some t" for q t
    using that w(1) grows_table [OF g] table_at_keeps_outside [OF wf pgF pg(2) keeps_outside_zero_page]
    by (simp add: st1(3) del: fun_upd_apply)
  moreover have "pmem ?st b = 0" if b: "b - pg < PAGE_SIZE" for b
  proof -
    have "pmem st2 b = pmem st1 b"
    proof (rule ccontr)
      assume "pmem st2 b \<noteq> pmem st1 b"
      then obtain q t where q: "vpath q" "table_at (pmem st2) root q = Some t" "b - t < PAGE_SIZE"
        using grows_changed [OF g] by blast
      have "page_aligned t" "t \<noteq> pg" using wf_space_table [OF wf2 q(1,2)] F(2) by auto
      with q(3) b pg(2) show False using page_disjoint by blast
    qed
    moreover have "b \<noteq> a" using slot_outside [OF wf2 k(3) pg(2)] wf_space_table [OF wf2] F(2) b by blast
    ultimately show ?thesis using b by (simp add: st1(3))
  qed
  moreover have "b - pg < PAGE_SIZE \<or>
      (\<exists>q t. vpath q \<and> table_at (pmem ?st) root q = Some t \<and> b - t < PAGE_SIZE)"
    if b: "pmem ?st b \<noteq> pmem st b" for b
  proof (cases "b = a")
    case True
    then show ?thesis using slot_in_table [OF k(3)] w(1) by (metis set_pte_simps(1))
  next
    case False
    with b have "pmem st2 b \<noteq> pmem st1 b \<or> b - pg < PAGE_SIZE"
      by (auto simp: st1(3) zero_page_def split: if_splits)
    then show ?thesis using grows_changed [OF g, of b] w(1) by (metis set_pte_simps(1))
  qed
  moreover have "no_new_super root (pmem st) (pmem ?st)"
  proof -
    have "no_new_super root (pmem st) (pmem st1)"
      unfolding st1(3) by (rule no_new_super_keeps_outside [OF wf pgF pg(2)]) simp
    moreover have "no_new_super root (pmem st1) (pmem st2)" using g by (rule grows_super)
    ultimately show ?thesis using w(5) no_new_super_trans by (metis set_pte_simps(1))
  qed
  moreover have "wf_space (pmem ?st) root ?F" using w(2) by (simp del: fun_upd_apply)
  ultimately show ?thesis
    using k(1,5) st1(4) pg(1,4) set_drop_subset [of k qs]
    by (intro exI [of _ ?st] exI [of _ k]) (auto simp: maps_fresh_def ps simp del: set_pte_simps(1))
qed

lemma map_page_ok:
  assumes wf: "wf_space (pmem st) root (set ps)" and root: "active_space_root st = root"
    and fp: "free_prefix st ps" and lim: "\<forall>p \<in> set ps. p < 2 ^ 56" and three: "3 \<le> length ps"
    and nsp: "\<not> superpage (pmem st) root vma"
    and ok: "wellformed_vma vma" "aligned_addr vma PAGE_SIZE"
  shows "\<exists>st' k. k \<le> 2 \<and> memory_alloc_and_map_page vma fl st = Inr (vma, st') \<and>
    maps_fresh st root ps vma fl (hd ps) (drop k (tl ps)) st'"
  using map_page_in [OF wf subset_refl root fp lim three nsp ok] by blast

section \<open>Pages and permissions\<close>

lemma VPN_page: "VPN l va = drop_bit (9 * l) (drop_bit 12 va) AND 0x1FF"
  by (simp add: VPN_def drop_bit_drop_bit add.commute)

lemma same_vpageI: "unat va div 4096 = unat va' div 4096 \<Longrightarrow> same_vpage va va'"
proof -
  assume "unat va div 4096 = unat va' div 4096"
  then have "drop_bit 12 va = drop_bit 12 va'"
    by (simp add: word_unat_eq_iff drop_bit_eq_div unat_div_distrib)
  then show ?thesis by (simp add: same_vpage_def VPN_page)
qed

definition accessible :: "'a vm_scheme \<Rightarrow> u8 \<Rightarrow> u64 \<Rightarrow> bool" where
  "accessible st fl va =
     (case mapped (pmem st) (active_space_root st) va of
        None \<Rightarrow> False | Some p \<Rightarrow> pte_flags p AND fl = fl)"

lemma accessible_vpage: "same_vpage va va' \<Longrightarrow> accessible st fl va = accessible st fl va'"
  by (simp add: accessible_def mapped_cong_vpage)

lemma walk_mapped:
  assumes "wf_space (pmem st) root F"
  obtains a where "walk_pt root va False st = Inr (a, st)"
    and "a = 0 \<longrightarrow> mapped (pmem st) root va = None"
    and "a \<noteq> 0 \<longrightarrow> slot (pmem st) root va = Some a \<and> mapped (pmem st) root va =
      (if pte_flags (get_pte st a) AND PTE_V \<noteq> 0 then Some (get_pte st a) else None)"
proof (cases "slot (pmem st) root va")
  case None
  then show thesis
    using that [of 0] walk_pt_lookup [OF assms] by (simp add: mapped_def)
next
  case (Some a)
  then show thesis
    using that [of a] walk_pt_lookup [OF assms] slot_not_null [OF assms Some]
    by (simp add: mapped_def get_pte_def)
qed

lemma page_ok_accessible:
  assumes "wf_space (pmem st) (active_space_root st) F"
  shows "page_ok st fl va = Inr (accessible st fl va)"
  using assms
  by (rule walk_mapped [of st _ _ va]) (auto simp: page_ok_def accessible_def split: if_splits)

section \<open>Validation of pointers\<close>

lemma vptr_loop_ok:
  assumes wf: "wf_space (pmem st) (active_space_root st) F"
    and top: "unat e + 4096 \<le> 18446744073709551616"
  shows "vptr_loop st fl cur e =
    Some (Inr (if \<forall>i. unat cur + 4096 * i < unat e \<longrightarrow> accessible st fl (cur + of_nat i * 4096)
               then 0 else - 1))"
proof (induction "unat e - unat cur" arbitrary: cur rule: less_induct)
  case less
  show ?case
  proof (cases "cur < e")
    case False
    then show ?thesis
      by (subst vptr_loop.simps) (auto simp: word_less_nat_alt)
  next
    case True
    then have lt: "unat cur < unat e" by (simp add: word_less_nat_alt)
    with top have next_cur: "unat (cur + 4096) = unat cur + 4096" by (simp add: unat_word_ariths)
    have "vptr_loop st fl (cur + 4096) e =
      Some (Inr (if \<forall>i. unat cur + 4096 * Suc i < unat e \<longrightarrow>
        accessible st fl (cur + of_nat (Suc i) * 4096) then 0 else - 1))"
      using less [of "cur + 4096"] lt next_cur by (simp add: algebra_simps)
    moreover have "(\<forall>i. unat cur + 4096 * i < unat e \<longrightarrow> accessible st fl (cur + of_nat i * 4096)) \<longleftrightarrow>
        accessible st fl cur \<and> (\<forall>i. unat cur + 4096 * Suc i < unat e \<longrightarrow>
          accessible st fl (cur + of_nat (Suc i) * 4096))"
      using lt by (subst all_nat_split_Suc) simp
    ultimately show ?thesis
      using True page_ok_accessible [OF wf, of fl cur] by (subst vptr_loop.simps) simp
  qed
qed

lemma range_pages:
  assumes al: "page_aligned vp" and fit: "unat vp + unat len \<le> 18446744073709551616"
  shows "(\<forall>i. unat vp + 4096 * i < unat vp + unat len \<longrightarrow> accessible st fl (vp + of_nat i * 4096))
    \<longleftrightarrow> (\<forall>a. a - vp < len \<longrightarrow> accessible st fl a)"
proof (intro iffI allI impI)
  fix a assume all: "\<forall>i. unat vp + 4096 * i < unat vp + unat len \<longrightarrow> accessible st fl (vp + of_nat i * 4096)"
    and a: "a - vp < len"
  define d where "d = a - vp"
  have d: "unat d < unat len" using a by (simp add: d_def word_less_nat_alt)
  obtain k where k: "unat vp = 4096 * k" using al by (auto simp: aligned_def)
  have "a = vp + d" by (simp add: d_def)
  then have ua: "unat a = unat vp + unat d" using d fit by (simp add: unat_word_ariths)
  let ?i = "unat d div 4096"
  have le: "4096 * ?i \<le> unat d" by simp
  then have ui: "unat (vp + of_nat ?i * 4096) = unat vp + 4096 * ?i"
    using d fit by (simp add: unat_word_ariths unat_of_nat mult.commute)
  have "accessible st fl (vp + of_nat ?i * 4096)" using all d le by auto
  moreover have "same_vpage (vp + of_nat ?i * 4096) a"
    using ua ui k by (intro same_vpageI) simp
  ultimately show "accessible st fl a" using accessible_vpage by blast
next
  fix i assume all: "\<forall>a. a - vp < len \<longrightarrow> accessible st fl a"
    and i: "unat vp + 4096 * i < unat vp + unat len"
  have "4096 * i < 18446744073709551616" using i unat_word64_less [of len] by linarith
  then have "unat (of_nat i * 4096 :: u64) = 4096 * i" by (rule unat_pages)
  then have "vp + of_nat i * 4096 - vp < len" using i by (simp add: word_less_nat_alt)
  with all show "accessible st fl (vp + of_nat i * 4096)" by blast
qed

lemma validate_aligned:
  assumes wf: "wf_space (pmem st) (active_space_root st) F"
    and vp: "page_aligned vp" "wellformed_vma vp" and len: "len \<noteq> 0"
    and fit: "unat vp + unat len + 4096 \<le> 2 ^ 64"
  shows "memory_validate_vptr_len vp len fl st =
    Some (Inr (if \<forall>a. a - vp < len \<longrightarrow> accessible st fl a then 0 else - 1))"
proof -
  have e: "unat (vp + len) = unat vp + unat len" using fit by (simp add: unat_word_ariths)
  then have "unat (vp + len) + 4096 \<le> 18446744073709551616" using fit by simp
  from vptr_loop_ok [OF wf this] range_pages [OF vp(1), of len st fl] e fit vp(2) len
  show ?thesis by (simp add: memory_validate_vptr_len_def)
qed

text \<open>In general the pages of the first byte and of every 4096th byte after it are looked at.\<close>

lemma validate_steps:
  assumes wf: "wf_space (pmem st) (active_space_root st) F"
    and vp: "wellformed_vma vp" and len: "len \<noteq> 0" and fit: "unat vp + unat len + 4096 \<le> 2 ^ 64"
  shows "memory_validate_vptr_len vp len fl st =
    Some (Inr (if \<forall>i. 4096 * i < unat len \<longrightarrow> accessible st fl (vp + of_nat i * 4096) then 0 else - 1))"
proof -
  have e: "unat (vp + len) = unat vp + unat len" using fit by (simp add: unat_word_ariths)
  then have "unat (vp + len) + 4096 \<le> 18446744073709551616" using fit by simp
  from vptr_loop_ok [OF wf this] e vp len show ?thesis by (simp add: memory_validate_vptr_len_def)
qed

lemma vstr_loop_ok:
  assumes wf: "wf_space (pmem st) (active_space_root st) F"
    and before: "\<forall>i < n. accessible st fl (cur + of_nat i) \<and> (\<exists>b. ld (cur + of_nat i) = Inr b \<and> b \<noteq> 0)"
    and stop: "\<not> accessible st fl (cur + of_nat n) \<or> ld (cur + of_nat n) = Inr 0"
  shows "vstr_loop ld st fl cur = Some (Inr (if accessible st fl (cur + of_nat n) then 0 else - 1))"
  using before stop
proof (induction n arbitrary: cur)
  case 0
  then show ?case
    by (subst vstr_loop.simps) (auto simp: page_ok_accessible [OF wf])
next
  case (Suc n)
  have shift: "cur + 1 + of_nat i = cur + of_nat (Suc i)" for i by simp
  have "\<forall>i < n. accessible st fl (cur + 1 + of_nat i) \<and> (\<exists>b. ld (cur + 1 + of_nat i) = Inr b \<and> b \<noteq> 0)"
    unfolding shift using Suc.prems(1) by blast
  moreover have "\<not> accessible st fl (cur + 1 + of_nat n) \<or> ld (cur + 1 + of_nat n) = Inr 0"
    using Suc.prems(2) by (simp add: algebra_simps)
  ultimately have "vstr_loop ld st fl (cur + 1) =
      Some (Inr (if accessible st fl (cur + 1 + of_nat n) then 0 else - 1))"
    by (rule Suc.IH)
  then show ?case
    using Suc.prems(1) [rule_format, of 0]
    by (subst vstr_loop.simps) (auto simp: page_ok_accessible [OF wf] algebra_simps)
qed

section \<open>Changing permissions\<close>

lemma set_page_flags_ok:
  assumes wf: "wf_space (pmem st) root F" and root: "active_space_root st = root"
    and p: "mapped (pmem st) root vp = Some p" and al: "page_aligned vp"
  shows "\<exists>st'. memory_set_page_flags vp fl st = Inr st' \<and> mm.more st' = mm.more st \<and>
    wf_space (pmem st') root F \<and>
    (\<forall>va. mapped (pmem st') root va =
       (if same_vpage vp va
        then Some (p\<lparr>pte_flags := pte_flags p AND NOT PTE_FLAGS_MASK OR fl\<rparr>)
        else mapped (pmem st) root va)) \<and>
    free_list st' = free_list st \<and> (\<exists>a w. slot (pmem st) root vp = Some a \<and> pmem st' = (pmem st)(a := w))"
proof -
  obtain a where a: "walk_pt root vp False st = Inr (a, st)" "slot (pmem st) root vp = Some a"
    "a \<noteq> 0" "get_pte st a = p" "pte_flags p AND PTE_V \<noteq> 0"
    using wf p by (rule_tac walk_mapped [of st root F vp]) (auto split: if_splits)
  let ?p = "p\<lparr>pte_flags := pte_flags p AND NOT PTE_FLAGS_MASK OR fl\<rparr>"
  have "pte_flags ?p AND PTE_V \<noteq> 0"
  proof
    assume "pte_flags ?p AND PTE_V = 0"
    then have "bit (pte_flags ?p AND PTE_V) 0 = bit (0 :: u8) 0" by simp
    moreover have "pte_flags p AND PTE_V = of_bool (bit (pte_flags p) 0)"
      by (simp add: PTE_V_def and_one_eq bit_0 odd_iff_mod_2_eq_one)
    then have "bit (pte_flags p) 0" using a(5) by (metis of_bool_eq(1))
    ultimately show False
      by (simp add: PTE_FLAGS_MASK_def pte_flag_defs bit_simps)
  qed
  moreover have "memory_set_page_flags vp fl st = Inr (set_pte a ?p st)"
    using a al root by (simp add: memory_set_page_flags_def Let_def flip: aligned_12_iff_mod del: page_const)
  ultimately show ?thesis
    using slot_write [OF wf a(2), where w = "u64_of_pte ?p"] a(2) by (auto simp del: fun_upd_apply)
qed

lemma set_page_flags_skips:
  assumes wf: "wf_space (pmem st) (active_space_root st) F"
    and "\<not> page_aligned vp \<or> mapped (pmem st) (active_space_root st) vp = None"
  shows "memory_set_page_flags vp fl st = Inr st"
  using wf assms(2)
  by (rule_tac walk_mapped [of st _ F vp])
    (auto simp: memory_set_page_flags_def aligned_12_iff_mod split: if_splits)

section \<open>Sweeping the pages of an address space\<close>

text \<open>
  \<open>memory_space_reclaim\<close> and \<open>memory_unmap_and_free_user\<close> visit every page of the user range
  and give the physical pages of the selected mappings back to the allocator. The locale
  states what one visit does; the loop's effect is proved from it.
\<close>

definition frames :: "(pte \<Rightarrow> bool) \<Rightarrow> (u64 \<Rightarrow> u64) \<Rightarrow> u64 \<Rightarrow> u64 list \<Rightarrow> u64 list" where
  "frames sel m root vas =
     concat (map (\<lambda>va. case mapped m root va of
       None \<Rightarrow> [] | Some p \<Rightarrow> if sel p then [pte_page p] else []) vas)"

lemma frames_simps [simp]:
  "frames sel m root [] = []"
  "frames sel m root (va # vas) =
     (case mapped m root va of None \<Rightarrow> [] | Some p \<Rightarrow> if sel p then [pte_page p] else [])
     @ frames sel m root vas"
  by (simp_all add: frames_def)

lemma frames_cong:
  "(\<And>va. va \<in> set vas \<Longrightarrow> mapped m' root va = mapped m root va) \<Longrightarrow>
     frames sel m' root vas = frames sel m root vas"
  by (simp add: frames_def cong: map_cong)

definition selected :: "(pte \<Rightarrow> bool) \<Rightarrow> pte option \<Rightarrow> bool" where
  "selected sel e = (case e of None \<Rightarrow> False | Some p \<Rightarrow> sel p)"

lemma selected_simps [simp]:
  "\<not> selected sel None"
  "selected sel (Some p) = sel p"
  by (simp_all add: selected_def)

locale page_sweep =
  fixes sel :: "pte \<Rightarrow> bool"
    and body :: "u64 \<Rightarrow> u64 \<Rightarrow> 'a vm_scheme \<Rightarrow> 'a vm_scheme res"
  assumes skip: "wf_space (pmem st) root F \<Longrightarrow> \<not> selected sel (mapped (pmem st) root va) \<Longrightarrow>
      body root va st = Inr st"
    and give_back: "wf_space (pmem st) root F \<Longrightarrow> free_prefix st ps \<Longrightarrow> set ps \<subseteq> F \<Longrightarrow>
      mapped (pmem st) root va = Some p \<Longrightarrow> sel p \<Longrightarrow>
      pte_page p \<in> F \<Longrightarrow> pte_page p \<noteq> 0 \<Longrightarrow> pte_page p \<notin> set ps \<Longrightarrow>
      \<exists>st'. body root va st = Inr st' \<and> free_prefix st' (pte_page p # ps) \<and>
        wf_space (pmem st') root F \<and> mm.more st' = mm.more st \<and> no_new_super root (pmem st) (pmem st') \<and>
        (\<forall>va'. mapped (pmem st') root va' =
           (if same_vpage va va' then None else mapped (pmem st) root va'))"
begin

lemma sweep_ok:
  assumes "wf_space (pmem st) root F" and "free_prefix st ps" and "set ps \<subseteq> F"
    and "set (frames sel (pmem st) root vas) \<subseteq> F - {0}"
    and "distinct (frames sel (pmem st) root vas @ ps)"
    and "sorted_wrt (\<lambda>va va'. \<not> same_vpage va va') vas"
  shows "\<exists>st'. foldM (body root) vas st = Inr st' \<and>
    free_prefix st' (rev (frames sel (pmem st) root vas) @ ps) \<and>
    wf_space (pmem st') root F \<and> mm.more st' = mm.more st \<and> no_new_super root (pmem st) (pmem st') \<and>
    (\<forall>va. mapped (pmem st') root va =
       (if (\<exists>va' \<in> set vas. same_vpage va' va) \<and> selected sel (mapped (pmem st) root va) then None
        else mapped (pmem st) root va))"
  using assms
proof (induction vas arbitrary: st ps)
  case Nil
  then show ?case by simp
next
  case (Cons va vas)
  show ?case
  proof (cases "selected sel (mapped (pmem st) root va)")
    case False
    then have fr: "frames sel (pmem st) root (va # vas) = frames sel (pmem st) root vas"
      by (auto split: option.splits)
    have "body root va st = Inr st" using skip [OF Cons.prems(1) False] .
    moreover have "\<not> selected sel (mapped (pmem st) root va')" if "same_vpage va va'" for va'
      using False mapped_cong_vpage [OF that] by metis
    ultimately show ?thesis
      using Cons.IH [OF Cons.prems(1-3)] Cons.prems(4-6) unfolding fr by force
  next
    case True
    then obtain p where p: "mapped (pmem st) root va = Some p" "sel p"
      by (cases "mapped (pmem st) root va") auto
    have fr: "frames sel (pmem st) root (va # vas) = pte_page p # frames sel (pmem st) root vas"
      using p by simp
    obtain st1 where st1: "body root va st = Inr st1" "free_prefix st1 (pte_page p # ps)"
      "wf_space (pmem st1) root F" "mm.more st1 = mm.more st" "no_new_super root (pmem st) (pmem st1)"
      "\<And>va'. mapped (pmem st1) root va' =
         (if same_vpage va va' then None else mapped (pmem st) root va')"
      using give_back [OF Cons.prems(1-3) p] Cons.prems(4,5) unfolding fr by auto
    have "frames sel (pmem st1) root vas = frames sel (pmem st) root vas"
      using Cons.prems(6) st1(6) by (intro frames_cong) simp
    with Cons.IH [OF st1(3,2)] Cons.prems(3-6) obtain st2 where
      "foldM (body root) vas st1 = Inr st2"
      "free_prefix st2 (rev (frames sel (pmem st) root vas) @ pte_page p # ps)"
      "wf_space (pmem st2) root F" "mm.more st2 = mm.more st1" "no_new_super root (pmem st1) (pmem st2)"
      "\<And>va'. mapped (pmem st2) root va' =
         (if (\<exists>v \<in> set vas. same_vpage v va') \<and> selected sel (mapped (pmem st1) root va') then None
          else mapped (pmem st1) root va')"
      unfolding fr by auto
    with st1 p no_new_super_trans [OF st1(5), of "pmem st2"] show ?thesis
      unfolding fr using mapped_cong_vpage [of va] by (intro exI [of _ st2]) auto
  qed
qed

end

lemma release_frame:
  assumes wf: "wf_space (pmem st) root F" and fp: "free_prefix st ps" and sub: "set ps \<subseteq> F"
    and a: "slot (pmem st) root va = Some a"
    and f: "f \<in> F" "f \<noteq> 0" "f \<notin> set ps" "page_aligned f"
    and inv: "pte_flags w AND PTE_V = 0"
  shows "\<exists>st'. memory_free_page f (set_pte a w st) = Inr st' \<and>
      bind_res (memory_free_page f st) (\<lambda>st. Inr (set_pte a w st)) = Inr st' \<and>
      free_prefix st' (f # ps) \<and> wf_space (pmem st') root F \<and> mm.more st' = mm.more st \<and>
      no_new_super root (pmem st) (pmem st') \<and>
      (\<forall>va'. mapped (pmem st') root va' =
         (if same_vpage va va' then None else mapped (pmem st) root va'))"
proof -
  let ?st = "set_pte a w st" and ?m = "(pmem st)(a := u64_of_pte w)"
  have out: "\<not> a - f < PAGE_SIZE"
    using slot_outside [OF wf a f(4)] wf_space_table [OF wf] f(1) by blast
  have "a \<notin> set ps"
    using slot_not_free [OF wf a] sub mm_prefix.pool_page [OF fp] by blast
  then have fp1: "free_prefix ?st ps" by (rule free_prefix_set_pte [OF fp])
  obtain st' where st': "memory_free_page f ?st = Inr st'" "free_prefix st' (f # ps)"
    "pmem st' = (zero_page ?m f)(f := free_list st)" "mm.more st' = mm.more st"
    using memory_free_page_ok [OF fp1 f(4,2,3)] by auto
  obtain st2 where st2: "memory_free_page f st = Inr st2"
    using memory_free_page_ok [OF fp f(4,2,3)] by auto
  have "set_pte a w st2 = st'"
  proof -
    have "(zero_page (pmem st) f)(f := x, a := y) = (zero_page ((pmem st)(a := y)) f)(f := x)" for x y
      using out by (auto simp: zero_page_def fun_eq_iff)
    then show ?thesis
      using st'(1) st2 by (auto simp: memory_free_page_def set_pte_def Let_def split: if_splits)
  qed
  then have swap: "bind_res (memory_free_page f st) (\<lambda>st. Inr (set_pte a w st)) = Inr st'"
    using st2 by simp
  note w = slot_write [OF wf a, where w = "u64_of_pte w"]
  have "keeps_outside f ?m (pmem st')" unfolding st'(3) by simp
  from wf_space_keeps_outside [OF w(2) f(1,4) this] mapped_keeps_outside(2) [OF w(2) f(1,4) this]
    no_new_super_trans [OF w(5) no_new_super_keeps_outside [OF w(2) f(1,4) this]]
  show ?thesis using st' swap w(4) inv by (auto simp del: fun_upd_apply)
qed

definition sel_user :: "pte \<Rightarrow> bool" where
  "sel_user p \<longleftrightarrow> pte_flags p AND PTE_U \<noteq> 0 \<and> pte_flags p AND (PTE_R OR PTE_W OR PTE_X) \<noteq> 0"

definition sel_nonglobal :: "pte \<Rightarrow> bool" where
  "sel_nonglobal p \<longleftrightarrow> pte_flags p AND PTE_G = 0 \<and> pte_flags p AND (PTE_R OR PTE_W OR PTE_X) \<noteq> 0"

interpretation unmap_sweep: page_sweep sel_user unmap_user_page
proof
  fix st :: "'a vm_scheme" and root F va
  assume wf: "wf_space (pmem st) root F"
  {
    assume "\<not> selected sel_user (mapped (pmem st) root va)"
    with wf show "unmap_user_page root va st = Inr st"
      by (rule_tac walk_mapped [of st root F va])
        (auto simp: unmap_user_page_def sel_user_def Let_def split: if_splits)
  next
    fix ps p
    assume fp: "free_prefix st ps" "set ps \<subseteq> F" and p: "mapped (pmem st) root va = Some p" "sel_user p"
      and f: "pte_page p \<in> F" "pte_page p \<noteq> 0" "pte_page p \<notin> set ps"
    obtain a where a: "walk_pt root va False st = Inr (a, st)" "slot (pmem st) root va = Some a"
      "a \<noteq> 0" "get_pte st a = p" "pte_flags p AND PTE_V \<noteq> 0"
      using wf p(1) by (rule_tac walk_mapped [of st root F va]) (auto split: if_splits)
    let ?w = "p\<lparr>pte_flags := 0\<rparr>"
    have "unmap_user_page root va st = memory_free_page (pte_page p) (set_pte a ?w st)"
      using a p(2) by (simp add: unmap_user_page_def sel_user_def Let_def get_pte_def pte_page_def)
    with release_frame [OF wf fp a(2) f page_aligned_pte_page, of ?w]
    show "\<exists>st'. unmap_user_page root va st = Inr st' \<and> free_prefix st' (pte_page p # ps) \<and>
        wf_space (pmem st') root F \<and> mm.more st' = mm.more st \<and> no_new_super root (pmem st) (pmem st') \<and>
        (\<forall>va'. mapped (pmem st') root va' =
           (if same_vpage va va' then None else mapped (pmem st) root va'))"
      by auto
  }
qed

interpretation reclaim_sweep: page_sweep sel_nonglobal reclaim_page
proof
  fix st :: "'a vm_scheme" and root F va
  assume wf: "wf_space (pmem st) root F"
  {
    assume "\<not> selected sel_nonglobal (mapped (pmem st) root va)"
    with wf show "reclaim_page root va st = Inr st"
      by (rule_tac walk_mapped [of st root F va])
        (auto simp: reclaim_page_def sel_nonglobal_def Let_def split: if_splits)
  next
    fix ps p
    assume fp: "free_prefix st ps" "set ps \<subseteq> F"
      and p: "mapped (pmem st) root va = Some p" "sel_nonglobal p"
      and f: "pte_page p \<in> F" "pte_page p \<noteq> 0" "pte_page p \<notin> set ps"
    obtain a where a: "walk_pt root va False st = Inr (a, st)" "slot (pmem st) root va = Some a"
      "a \<noteq> 0" "get_pte st a = p" "pte_flags p AND PTE_V \<noteq> 0"
      using wf p(1) by (rule_tac walk_mapped [of st root F va]) (auto split: if_splits)
    have "reclaim_page root va st =
        bind_res (memory_free_page (pte_page p) st) (\<lambda>st. Inr (set_pte a null_pte st))"
      using a p(2) by (simp add: reclaim_page_def sel_nonglobal_def Let_def)
    with release_frame [OF wf fp a(2) f page_aligned_pte_page, of null_pte]
    show "\<exists>st'. reclaim_page root va st = Inr st' \<and> free_prefix st' (pte_page p # ps) \<and>
        wf_space (pmem st') root F \<and> mm.more st' = mm.more st \<and> no_new_super root (pmem st) (pmem st') \<and>
        (\<forall>va'. mapped (pmem st') root va' =
           (if same_vpage va va' then None else mapped (pmem st) root va'))"
      by (auto simp: null_pte_def)
  }
qed

text \<open>The pages of the user range, in the order of the loops.\<close>

abbreviation user_pages :: "u64 list" where
  "user_pages \<equiv> addr_range USER_START_VMA USER_END_VMA PAGE_SIZE"

lemma user_pages_eq: "user_pages = map (\<lambda>i. 0xC0000000 + of_nat i * 4096) [0 ..< 65536]"
  by (simp add: addr_range_def USER_START_VMA_def USER_END_VMA_def)

lemma unat_user_page:
  assumes "i < 65536"
  shows "unat (0xC0000000 + of_nat i * 4096 :: u64) = 0xC0000000 + 4096 * i"
  using assms unat_pages [of i] by (simp add: unat_word_ariths(1))

lemma bit_VPN: "bit (VPN l va) n \<longleftrightarrow> n < 9 \<and> bit va (9 * l + 12 + n)"
proof -
  have "(0x1FF :: u64) = mask 9" by (simp add: mask_eq_exp_minus_1)
  then have "VPN l va = take_bit 9 (drop_bit (9 * l + 12) va)"
    by (simp only: VPN_def take_bit_eq_mask)
  then show ?thesis by (auto simp: bit_simps)
qed

lemma same_vpage_iff:
  assumes "va < 2 ^ 39" and "va' < 2 ^ 39"
  shows "same_vpage va va' \<longleftrightarrow> unat va div 4096 = unat va' div 4096"
proof
  assume same: "same_vpage va va'"
  have high: "\<not> bit w k" if "w < 2 ^ 39" "39 \<le> k" for w :: u64 and k
  proof -
    have "unat w < 2 ^ 39" using that(1) by (simp add: word_less_nat_alt)
    then have "take_bit 39 (unat w) = unat w" by (rule take_bit_nat_eq_self)
    then have "\<not> bit (unat w) k" using that(2) by (metis bit_take_bit_iff not_less)
    then show ?thesis by (simp add: bit_unsigned_iff)
  qed
  have low: "bit va (9 * l + 12 + n) = bit va' (9 * l + 12 + n)" if "l < 3" "n < 9" for l n
  proof -
    have "VPN l va = VPN l va'" using same that(1) by (auto simp: same_vpage_def less_Suc_eq numeral_3_eq_3 numeral_2_eq_2)
    then show ?thesis using that(2) bit_VPN by metis
  qed
  have "drop_bit 12 va = drop_bit 12 va'"
  proof (rule bit_word_eqI)
    fix n
    show "bit (drop_bit 12 va) n = bit (drop_bit 12 va') n"
    proof (cases "n < 27")
      case True
      have "9 * (n div 9) + 12 + n mod 9 = n + 12" by simp
      moreover have "n div 9 < 3" using True by simp
      ultimately show ?thesis using low [of "n div 9" "n mod 9"] by (simp add: bit_drop_bit_eq add.commute)
    next
      case False
      then show ?thesis using high assms by (simp add: bit_drop_bit_eq)
    qed
  qed
  then have "unat (drop_bit 12 va) = unat (drop_bit 12 va')" by simp
  then show "unat va div 4096 = unat va' div 4096" by (simp add: drop_bit_eq_div unat_div_distrib)
qed (rule same_vpageI)

lemma user_pages_distinct: "sorted_wrt (\<lambda>va va'. \<not> same_vpage va va') user_pages"
proof -
  have "\<not> same_vpage (0xC0000000 + of_nat i * 4096) (0xC0000000 + of_nat j * 4096 :: u64)"
    if "i < j" "j < 65536" for i j
  proof -
    have "unat (0xC0000000 + of_nat k * 4096 :: u64) = 0xC0000000 + 4096 * k" if "k \<le> j" for k
      using that \<open>j < 65536\<close> by (intro unat_user_page) simp
    then show ?thesis using that by (subst same_vpage_iff) (auto simp: word_less_nat_alt)
  qed
  then show ?thesis
    unfolding user_pages_eq sorted_wrt_map by (simp add: sorted_wrt_iff_nth_less)
qed

lemma user_pages_cover:
  "(\<exists>va \<in> set user_pages. same_vpage va a) \<longleftrightarrow> (\<exists>b. same_vpage b a \<and> USER_START_VMA \<le> b \<and> b < USER_END_VMA)"
proof
  assume "\<exists>va \<in> set user_pages. same_vpage va a"
  then obtain i where i: "i < 65536" "same_vpage (0xC0000000 + of_nat i * 4096) a"
    unfolding user_pages_eq by auto
  moreover have "USER_START_VMA \<le> 0xC0000000 + of_nat i * 4096" "0xC0000000 + of_nat i * 4096 < USER_END_VMA"
    using unat_user_page [OF i(1)] i(1)
    by (simp_all add: USER_START_VMA_def USER_END_VMA_def word_le_nat_alt word_less_nat_alt)
  ultimately show "\<exists>b. same_vpage b a \<and> USER_START_VMA \<le> b \<and> b < USER_END_VMA" by blast
next
  assume "\<exists>b. same_vpage b a \<and> USER_START_VMA \<le> b \<and> b < USER_END_VMA"
  then obtain b where b: "same_vpage b a" "0xC0000000 \<le> unat b" "unat b < 0xD0000000"
    by (auto simp: USER_START_VMA_def USER_END_VMA_def word_le_nat_alt word_less_nat_alt)
  define i where "i = (unat b - 0xC0000000) div 4096"
  have i: "i < 65536" using b by (simp add: i_def)
  have "same_vpage (0xC0000000 + of_nat i * 4096) b"
    using unat_user_page [OF i] b by (intro same_vpageI) (simp add: i_def)
  then have "same_vpage (0xC0000000 + of_nat i * 4096) a" using b(1) by (simp add: same_vpage_def)
  with i show "\<exists>va \<in> set user_pages. same_vpage va a" unfolding user_pages_eq by auto
qed

section \<open>Page faults\<close>

lemma wellformed_small: "vma < 2 ^ 38 \<Longrightarrow> wellformed_vma vma"
proof -
  assume "vma < 2 ^ 38"
  then have u: "unat vma < 2 ^ 38" by (simp add: word_less_nat_alt)
  have "\<not> bit vma k" if "38 \<le> k" for k
  proof -
    have "take_bit 38 (unat vma) = unat vma" using u by (rule take_bit_nat_eq_self)
    then have "\<not> bit (unat vma) k" using that by (metis bit_take_bit_iff not_less)
    then show ?thesis by (simp add: bit_unsigned_iff)
  qed
  then have "signed_drop_bit 38 vma = 0"
    by (intro bit_word_eqI) (simp add: bit_signed_drop_bit_iff)
  then show ?thesis by (simp add: wellformed_vma_def)
qed

lemma slot_no_superpage: "slot m root va = Some a \<Longrightarrow> \<not> superpage m root va"
  by (auto simp: slot_def superpage_def child_def is_table_def is_leaf_def split: if_splits)

lemma maps_fresh_after_growth:
  assumes g: "grows root (pmem st) F (pmem st1) F1" and more: "mm.more st1 = mm.more st"
    and m: "maps_fresh st1 root qs vma fl pg ps' st'" and sub: "set qs \<subseteq> set ps"
  shows "maps_fresh st root ps vma fl pg ps' st'"
proof -
  have "b - pg < PAGE_SIZE \<or> (\<exists>q t. vpath q \<and> table_at (pmem st') root q = Some t \<and> b - t < PAGE_SIZE)"
    if b: "pmem st' b \<noteq> pmem st b" for b
  proof (cases "pmem st' b = pmem st1 b")
    case True
    with b obtain q t where "vpath q" "table_at (pmem st1) root q = Some t" "b - t < PAGE_SIZE"
      using grows_changed [OF g, of b] by auto
    with m show ?thesis unfolding maps_fresh_def by blast
  next
    case False
    with m show ?thesis unfolding maps_fresh_def by blast
  qed
  moreover have "table_at (pmem st') root q = Some t"
    if "vpath q" "table_at (pmem st) root q = Some t" for q t
    using grows_table [OF g that] that(1) m unfolding maps_fresh_def by blast
  moreover have "mapped (pmem st') root va = mapped (pmem st) root va" if "\<not> same_vpage vma va" for va
    using that grows_mapped [OF g, of va] m unfolding maps_fresh_def by metis
  moreover have "pg \<in> set ps" "pg \<notin> set ps'" "set ps' \<subseteq> set ps" "free_prefix st' ps'"
    "wf_space (pmem st') root (insert pg (set ps'))" "mm.more st' = mm.more st"
    "mapped (pmem st') root vma = Some (leaf_pte pg fl)" "\<And>a. a - pg < PAGE_SIZE \<Longrightarrow> pmem st' a = 0"
    using m more sub unfolding maps_fresh_def by auto
  moreover have "no_new_super root (pmem st) (pmem st')"
    using m grows_super [OF g] no_new_super_trans unfolding maps_fresh_def by blast
  ultimately show ?thesis
    unfolding maps_fresh_def by (simp del: page_const)
qed

lemma page_fault_ok:
  assumes wf: "wf_space (pmem st) root (set ps)" and root: "active_space_root st = root"
    and fp: "free_prefix st ps" and lim: "\<forall>p \<in> set ps. p < 2 ^ 56" and five: "5 \<le> length ps"
    and range: "USER_START_VMA \<le> va" "va < USER_END_VMA"
    and nsp: "\<not> superpage (pmem st) root va"
  shows "\<exists>st' pg ps'. memory_handle_page_fault va st = Inr st' \<and>
    maps_fresh st root ps (round_down_addr va PAGE_SIZE) (PTE_R OR PTE_W OR PTE_U) pg ps' st' \<and>
    same_vpage (round_down_addr va PAGE_SIZE) va"
proof -
  define vma where "vma = round_down_addr va PAGE_SIZE"
  have "unat (va div 4096) = unat va div 4096" by (simp add: unat_div_distrib)
  moreover have "4096 * (unat va div 4096) < 18446744073709551616"
    using unat_word64_less [of va] by (simp add: order.strict_trans1 [OF times_div_less_eq_dividend])
  ultimately have u: "unat vma = 4096 * (unat va div 4096)"
    by (simp add: vma_def round_down_addr_def unat_word_ariths mult.commute)
  have sv: "same_vpage vma va" using u by (intro same_vpageI) simp
  have al: "aligned_addr vma PAGE_SIZE"
    using u aligned_12_iff_mod [of vma] by (simp add: aligned_addr_def aligned_def)
  have "unat va < 0xD0000000" using range(2) by (simp add: USER_END_VMA_def word_less_nat_alt)
  then have "unat vma < 0xD0000000" using u by (simp add: order.strict_trans1 [OF times_div_less_eq_dividend])
  then have ok: "wellformed_vma vma" by (intro wellformed_small) (simp add: word_less_nat_alt)
  have nz: "vma \<noteq> 0"
    using range(1) u by (auto simp: USER_START_VMA_def word_le_nat_alt)
  have "superpage (pmem st) root vma = superpage (pmem st) root va"
    using sv by (auto simp: superpage_def same_vpage_def split: option.splits)
  with nsp have nsp': "\<not> superpage (pmem st) root vma" by simp
  from walk_pt_create [OF wf subset_refl fp lim _ nsp'] five
  obtain a st1 k where k: "k \<le> 2" "walk_pt root vma True st = Inr (a, st1)"
    "slot (pmem st1) root vma = Some a" "free_prefix st1 (drop k ps)" "mm.more st1 = mm.more st"
    and g: "grows root (pmem st) (set ps) (pmem st1) (set ps - set (take k ps))"
    by auto
  have "set (take k ps) \<inter> set (drop k ps) = {}"
    using mm_prefix.pool_distinct [OF fp] by (intro set_take_disj_set_drop_if_distinct) auto
  then have sub: "set (drop k ps) \<subseteq> set ps - set (take k ps)" using set_drop_subset [of k ps] by blast
  have wf1: "wf_space (pmem st1) root (set (drop k ps))"
    using grows_wf [OF g] wf_space_mono [OF _ sub] by blast
  have root1: "active_space_root st1 = root" using root active_space_root_cong [OF k(5)] by simp
  have lim1: "\<forall>p \<in> set (drop k ps). p < 2 ^ 56" using lim by (meson in_set_dropD)
  have three: "3 \<le> length (drop k ps)" using five k(1) by simp
  from map_page_ok [OF wf1 root1 k(4) lim1 three slot_no_superpage [OF k(3)] ok al]
  obtain st' j where st': "memory_alloc_and_map_page vma (PTE_R OR PTE_W OR PTE_U) st1 = Inr (vma, st')"
    "maps_fresh st1 root (drop k ps) vma (PTE_R OR PTE_W OR PTE_U) (hd (drop k ps)) (drop j (tl (drop k ps))) st'"
    by blast
  have "memory_handle_page_fault va st = Inr st'"
    using range k(2) st'(1) root al nz slot_not_null [OF wf1 k(3)]
    by (simp add: memory_handle_page_fault_def Let_def vma_def [symmetric] not_less not_le
        del: page_const)
  moreover have "set (drop k ps) \<subseteq> set ps" by (rule set_drop_subset)
  ultimately show ?thesis
    using maps_fresh_after_growth [OF g k(5) st'(2)] sv unfolding vma_def by blast
qed

section \<open>The free list after boot\<close>

lemma fold_push_page:
  "free_seg (pmem st) (free_list st) qs e \<Longrightarrow> distinct (rev pps @ qs) \<Longrightarrow>
   \<forall>p \<in> set pps. p \<noteq> 0 \<and> page_aligned p \<Longrightarrow>
     free_seg (pmem (fold push_page pps st)) (free_list (fold push_page pps st)) (rev pps @ qs) e"
proof (induction pps arbitrary: st qs)
  case Nil
  then show ?case by simp
next
  case (Cons p pps)
  have "free_seg (pmem (push_page p st)) (free_list (push_page p st)) (p # qs) e"
    using Cons.prems by (simp add: push_page_def Let_def)
  from Cons.IH [OF this] Cons.prems(2,3) show ?case by auto
qed

text \<open>
  The loop starts with \<open>free_list = heap_end\<close>, so its first iteration links the page at
  \<open>heap_end\<close> to itself.
\<close>

lemma push_pages_lasso:
  fixes st :: "'a mm_scheme"
  assumes "distinct (p # pps)" and "\<forall>q \<in> set (p # pps). q \<noteq> 0 \<and> page_aligned q"
  defines "st' \<equiv> fold push_page (p # pps) (st\<lparr>free_list := p\<rparr>)"
  shows "free_seg (pmem st') (free_list st') (rev (p # pps)) p" and "free_prefix st' (rev (p # pps))"
proof -
  have "free_seg (pmem (push_page p (st\<lparr>free_list := p\<rparr>)))
      (free_list (push_page p (st\<lparr>free_list := p\<rparr>))) [p] p"
    using assms(2) by (simp add: push_page_def)
  from fold_push_page [OF this, of pps] assms
  show s: "free_seg (pmem st') (free_list st') (rev (p # pps)) p" by auto
  then show "free_prefix st' (rev (p # pps))" using assms(1) by (auto simp: free_prefix_def)
qed

lemma alloc_lasso:
  assumes "free_seg (pmem st) (free_list st) (qs @ [p]) p" and "distinct (qs @ [p])"
  shows "\<exists>st'. alloc_many memory_alloc_page (Suc (Suc (length qs))) st = Inr (qs @ [p, p], st') \<and>
    free_list st' = 0"
  using assms
proof (induction qs arbitrary: st)
  case Nil
  then show ?case
    by (auto simp: memory_alloc_page_def Let_def)
next
  case (Cons q qs)
  then obtain st1 where st1: "memory_alloc_page st = Inr (q, st1)"
    "free_seg (pmem st1) (free_list st1) (qs @ [p]) p"
    using alloc_seg [of st q "qs @ [p]" p] by auto
  with Cons.IH [OF st1(2)] Cons.prems(2) obtain st2 where
    "alloc_many memory_alloc_page (Suc (Suc (length qs))) st1 = Inr (qs @ [p, p], st2)" "free_list st2 = 0"
    by auto
  with st1(1) show ?case by simp
qed

text \<open>The pages the loop visits when the bounds are page-aligned addresses of RAM.\<close>

lemma addr_range_pages:
  assumes "page_aligned lo" and "lo \<noteq> 0" and "lo < hi"
  obtains pps where "addr_range lo hi PAGE_SIZE = lo # pps" and "distinct (lo # pps)"
    and "\<forall>p \<in> set (lo # pps). p \<noteq> 0 \<and> page_aligned p" and "\<forall>p \<in> set (lo # pps). unat lo \<le> unat p"
proof -
  define n where "n = (unat hi - unat lo + 4095) div 4096"
  have lt: "unat lo < unat hi" using assms(3) by (simp add: word_less_nat_alt)
  have npos: "0 < n" using lt by (simp add: n_def)
  have hi: "unat hi < 18446744073709551616" by simp
  have u: "unat (lo + of_nat i * 4096) = unat lo + 4096 * i" if "i < n" for i
  proof -
    have "4096 * i < unat hi - unat lo"
      using that by (simp add: n_def less_mult_imp_div_less dual_order.strict_trans2)
    then have "unat lo + 4096 * i < 18446744073709551616" using hi by linarith
    then show ?thesis using unat_pages [of i] by (simp add: unat_word_ariths(1))
  qed
  have ar: "addr_range lo hi PAGE_SIZE = map (\<lambda>i. lo + of_nat i * 4096) [0 ..< n]"
    by (simp add: addr_range_def n_def add.commute [of 4095])
  have "addr_range lo hi PAGE_SIZE = lo # map (\<lambda>i. lo + of_nat i * 4096) [1 ..< n]"
    unfolding ar using npos by (simp add: upt_conv_Cons)
  moreover have "distinct (addr_range lo hi PAGE_SIZE)"
    unfolding ar distinct_map using u by (fastforce intro!: inj_onI dest: arg_cong [of _ _ unat])
  moreover have "(p \<noteq> 0 \<and> page_aligned p) \<and> unat lo \<le> unat p"
    if "p \<in> set (addr_range lo hi PAGE_SIZE)" for p
  proof -
    from that obtain i where "i < n" "p = lo + of_nat i * 4096" unfolding ar by auto
    with u assms(1,2) have "unat p = unat lo + 4096 * i" "unat lo \<noteq> 0" by (auto simp: unat_eq_zero)
    then show ?thesis using assms(1) by (auto simp: aligned_def unat_eq_zero)
  qed
  ultimately show thesis using that by metis
qed

lemma round_up_page:
  assumes "unat x \<le> 18446744073709547520"
  shows "unat (round_up_addr x PAGE_SIZE) = (unat x + 4095) div 4096 * 4096"
    and "page_aligned (round_up_addr x PAGE_SIZE)"
proof -
  have "unat (4095 + x) = unat x + 4095" using assms by (simp add: unat_word_ariths)
  moreover have "(unat x + 4095) div 4096 * 4096 < 18446744073709551616"
    using assms by (simp add: order.strict_trans1 [OF div_times_less_eq_dividend])
  ultimately show u: "unat (round_up_addr x PAGE_SIZE) = (unat x + 4095) div 4096 * 4096"
    by (simp add: round_up_addr_def unat_word_ariths(2) unat_div_distrib)
  then show "page_aligned (round_up_addr x PAGE_SIZE)" by (simp add: aligned_def)
qed

lemma init_heap_end_bounds:
  assumes "unat x \<le> 0x80200000"
  shows "page_aligned (init_heap_end x) \<and> unat x + 256 \<le> unat (init_heap_end x) \<and>
    unat (init_heap_end x) < unat x + 8192"
proof -
  define e where "e = round_up_addr x PAGE_SIZE"
  define d where "d = unat (e - x)"
  have e: "unat e = (unat x + 4095) div 4096 * 4096" and al: "page_aligned e"
    unfolding e_def using assms round_up_page [of x] by simp_all
  have "(unat x + 4095) div 4096 * 4096 = unat x + 4095 - (unat x + 4095) mod 4096"
    and "(unat x + 4095) mod 4096 < 4096"
    by (simp_all add: minus_mod_eq_div_mult)
  then have le: "unat x \<le> unat e" "unat e \<le> unat x + 4095" unfolding e by linarith+
  then have d: "unat e = unat x + d" "d \<le> 4095"
    by (simp_all add: d_def unat_minus_if word_le_nat_alt)
  have s: "sint (e - x) = int d" using sint_small [of "e - x"] d(2) by (simp add: d_def)
  show ?thesis
  proof (cases "d < 256")
    case False
    then have "init_heap_end x = e"
      using s by (simp add: init_heap_end_def Let_def e_def [symmetric] del: page_const)
    then show ?thesis using al d False by simp
  next
    case True
    let ?r = "HEAP_INIT_MIN - (e - x)"
    have "unat ?r = 256 - d"
      using True by (simp add: HEAP_INIT_MIN_def unat_minus_if word_le_nat_alt d_def)
    then have ur: "unat (round_up_addr ?r PAGE_SIZE) = 4096" "page_aligned (round_up_addr ?r PAGE_SIZE)"
      using True round_up_page [of ?r] by (auto simp: div_nat_eqI)
    have i: "init_heap_end x = e + round_up_addr ?r PAGE_SIZE"
      using s True by (simp add: init_heap_end_def Let_def e_def [symmetric] del: page_const)
    have "unat (e + round_up_addr ?r PAGE_SIZE) = unat e + 4096"
      unfolding unat_word_ariths(1) ur(1) using d assms by simp
    then show ?thesis using al ur(2) d True i by (auto intro!: aligned_add simp del: page_const)
  qed
qed

lemma page_regions_disjoint:
  assumes "distinct ps" and "\<forall>p \<in> set ps. page_aligned p"
  shows "sorted_wrt disjnt (map page_region ps)"
proof -
  have "disjnt (page_region p) (page_region q)"
    if al: "page_aligned p" "page_aligned q" and ne: "p \<noteq> q" for p q
  proof -
    obtain i j where i: "unat p = 4096 * i" and j: "unat q = 4096 * j"
      using al unfolding aligned_def by (auto elim!: dvdE)
    moreover have "unat p \<noteq> unat q" using ne by (simp add: word_unat_eq_iff)
    ultimately have "i + 1 \<le> j \<or> j + 1 \<le> i" by auto
    then have "unat p + 4096 \<le> unat q \<or> unat q + 4096 \<le> unat p" using i j by auto
    then show ?thesis by (auto simp: page_region_def region_def disjnt_iff)
  qed
  with assms show ?thesis by (induction ps) auto
qed

lemma fold_push_page_fields [simp]:
  fixes t :: "'a vm_scheme"
  shows "heap_start (fold push_page qs t) = heap_start t" "heap_end (fold push_page qs t) = heap_end t"
    "main_mtag (fold push_page qs t) = main_mtag t" "satp (fold push_page qs t) = satp t"
  by (induction qs arbitrary: t) (simp_all add: push_page_def)

lemma memory_init_ok:
  assumes img: "kimg_start img = RAM_START_PMA" "kimg_end img - kimg_start img \<le> MEGA_SIZE"
    and ram: "init_heap_end (kimg_end img) < RAM_END_PMA img"
  defines "pages \<equiv> addr_range (init_heap_end (kimg_end img)) (RAM_END_PMA img) PAGE_SIZE"
  shows "\<exists>st'. memory_init img st = Inr st' \<and> heap_inv st' [] (rev pages) \<and>
    heap_start st' = kimg_end img \<and> heap_end st' = init_heap_end (kimg_end img) \<and>
    satp st' = push_bit 60 RISCV_SATP_MODE_Sv39 OR pageptr_to_pagenum (img_main_pt2 img) \<and>
    main_mtag st' = satp st' \<and> memory_initialized st' \<and>
    hd pages = init_heap_end (kimg_end img) \<and> pages \<noteq> [] \<and> distinct pages \<and>
    free_seg (pmem st') (free_list st') (rev pages) (hd pages)"
proof -
  define x where "x = kimg_end img"
  define e where "e = init_heap_end x"
  define d where "d = kimg_end img - kimg_start img"
  have d: "unat d \<le> 2097152" using img(2) by (simp add: d_def MEGA_SIZE_def word_le_nat_alt)
  have "x = 0x80000000 + d" using img(1) by (simp add: d_def x_def RAM_START_PMA_def)
  then have ux: "unat x = 0x80000000 + unat d" using d by (simp add: unat_word_ariths)
  then have "unat x \<le> 0x80200000" using d by simp
  from init_heap_end_bounds [OF this] have e: "page_aligned e" "unat x + 256 \<le> unat e"
    unfolding e_def by auto
  have enz: "e \<noteq> 0" using e(2) by (auto simp flip: unat_eq_zero)
  have xe: "x < e" using e(2) by (simp add: word_less_nat_alt)
  obtain pps where pps: "pages = e # pps" "distinct (e # pps)"
    "\<forall>p \<in> set (e # pps). p \<noteq> 0 \<and> page_aligned p" "\<forall>p \<in> set (e # pps). unat e \<le> unat p"
    unfolding pages_def using addr_range_pages [OF e(1) enz, of "RAM_END_PMA img"] ram
    by (auto simp: e_def x_def)
  define s where "s = (init_main_tables img st)\<lparr>main_mtag := push_bit 60 RISCV_SATP_MODE_Sv39 OR
    pageptr_to_pagenum (img_main_pt2 img), satp := push_bit 60 RISCV_SATP_MODE_Sv39 OR
    pageptr_to_pagenum (img_main_pt2 img), heap_start := x, heap_end := e\<rparr>"
  define st' where "st' = (fold push_page (e # pps) (s\<lparr>free_list := e\<rparr>))
    \<lparr>sstatus_sum := True, memory_initialized := True\<rparr>"
  have run: "memory_init img st = Inr st'"
    using img ram xe pps(1) unfolding st'_def s_def
    by (simp add: memory_init_def Let_def heap_init_def e_def [symmetric] x_def [symmetric]
        pages_def not_less del: page_const fold.simps)
  have seg: "free_seg (pmem st') (free_list st') (rev pages) e"
    using push_pages_lasso(1) [OF pps(2,3), of s] by (simp add: st'_def pps(1))
  have hs: "heap_start st' = x" "heap_end st' = e" "main_mtag st' = main_mtag s" "satp st' = satp s"
    unfolding st'_def s_def by (simp_all del: fold.simps)
  have "disjnt (window st') (page_region p)" if "p \<in> set pages" for p
    using that pps(1,4) by (auto simp: window_def hs page_region_def region_def disjnt_iff)
  then have "heap_inv st' [] (rev pages)"
    using xe e(1) hs seg pps page_regions_disjoint [of "rev pages"]
    by (auto simp: heap_inv_def free_prefix_def intro: aligned_mono)
  with run seg hs pps(1,2) show ?thesis
    by (auto simp: s_def st'_def e_def x_def)
qed

section \<open>Correctness properties\<close>

subsection \<open>A concrete memory\<close>

text \<open>Eight free pages above an empty root table at the start of RAM.\<close>

definition demo_pages :: "u64 list" where
  "demo_pages = [0x80001000, 0x80002000, 0x80003000, 0x80004000, 0x80005000, 0x80006000,
     0x80007000, 0x80008000]"

definition demo_vm :: vm where
  "demo_vm = \<lparr>pmem = (\<lambda>_. 0)(0x80001000 := 0x80002000, 0x80002000 := 0x80003000,
      0x80003000 := 0x80004000, 0x80004000 := 0x80005000, 0x80005000 := 0x80006000,
      0x80006000 := 0x80007000, 0x80007000 := 0x80008000),
    free_list = 0x80001000, heap_start = 0x80010000, heap_end = 0x80010000,
    satp = make_mtag 0 0x80000000, main_mtag = make_mtag 0 0x80000000,
    sstatus_sum = True, memory_initialized = True\<rparr>"

lemma demo_root [simp]: "active_space_root demo_vm = 0x80000000"
  by code_simp

lemma demo_free: "free_pages demo_vm demo_pages"
  by (simp add: free_pages_def demo_pages_def demo_vm_def aligned_def)

lemma demo_prefix: "free_prefix demo_vm demo_pages"
  by (rule free_pages_prefix [OF demo_free])

lemma demo_zero:
  assumes "page_aligned p" and "p \<notin> set demo_pages" and "a - p < PAGE_SIZE"
  shows "pmem demo_vm a = 0"
proof (rule ccontr)
  assume "pmem demo_vm a \<noteq> 0"
  then have a: "a \<in> set demo_pages" by (auto simp: demo_vm_def demo_pages_def split: if_splits)
  then have "page_aligned a" using mm_prefix.pool_page [OF demo_prefix] by blast
  then have "a = p" using same_page_iff assms(1,3) by blast
  with a assms(2) show False by simp
qed

lemma demo_space:
  "wf_space (pmem demo_vm) 0x80000000 (set demo_pages)"
  "\<not> superpage (pmem demo_vm) 0x80000000 va"
  "mapped (pmem demo_vm) 0x80000000 va = None"
proof -
  have al: "page_aligned (0x80000000 :: u64)" by (simp add: aligned_def)
  have "pmem demo_vm (0x80000000 + 8 * i) = 0" if "i < 512" for i
  proof (rule demo_zero [OF al])
    show "0x80000000 \<notin> set demo_pages" by (simp add: demo_pages_def)
    show "0x80000000 + 8 * i - 0x80000000 < PAGE_SIZE" using that by (rule entry_offset_less)
  qed
  note e = wf_space_empty [where m = "pmem demo_vm", OF al _ _ this, of "set demo_pages"]
  from e show "wf_space (pmem demo_vm) 0x80000000 (set demo_pages)"
    "\<not> superpage (pmem demo_vm) 0x80000000 va" "mapped (pmem demo_vm) 0x80000000 va = None"
    by (simp_all add: demo_pages_def)
qed

lemma demo_limit: "\<forall>p \<in> set demo_pages. p < 2 ^ 56"
  by (simp add: demo_pages_def)

text \<open>The same memory with one page mapped for the user.\<close>

definition demo_user :: "vm \<Rightarrow> u64 list \<Rightarrow> bool" where
  "demo_user st ps \<longleftrightarrow> wf_space (pmem st) 0x80000000 (insert 0x80001000 (set ps)) \<and>
     active_space_root st = 0x80000000 \<and> mtag_to_root (satp st) = 0x80000000 \<and> free_prefix st ps \<and> 0x80001000 \<notin> set ps \<and>
     mapped (pmem st) 0x80000000 0xC0000000 = Some (leaf_pte 0x80001000 (PTE_R OR PTE_W OR PTE_U)) \<and>
     (\<forall>va. \<not> same_vpage 0xC0000000 va \<longrightarrow> mapped (pmem st) 0x80000000 va = None) \<and>
     frames sel_user (pmem st) 0x80000000 user_pages = [0x80001000] \<and>
     frames sel_nonglobal (pmem st) 0x80000000 user_pages = [0x80001000]"

lemma demo_user_selected:
  "sel_user (leaf_pte 0x80001000 (PTE_R OR PTE_W OR PTE_U))" "sel_nonglobal (leaf_pte 0x80001000 (PTE_R OR PTE_W OR PTE_U))"
  by (simp_all add: sel_user_def sel_nonglobal_def leaf_pte_def pte_flag_defs)

lemma in_user_range: "\<exists>b. same_vpage b 0xC0000000 \<and> USER_START_VMA \<le> b \<and> b < USER_END_VMA"
  by (intro exI [of _ "0xC0000000"]) (simp add: same_vpage_iff USER_START_VMA_def USER_END_VMA_def)

lemma frames_one:
  assumes "mapped m root 0xC0000000 = Some p" and "sel p"
    and "\<And>va. \<not> same_vpage 0xC0000000 va \<Longrightarrow> mapped m root va = None"
  shows "frames sel m root user_pages = [pte_page p]"
proof -
  have u: "user_pages = 0xC0000000 # tl user_pages"
  proof -
    have "[0 ..< 65536 :: nat] = 0 # [Suc 0 ..< 65536]" by (rule upt_conv_Cons) simp
    then show ?thesis unfolding user_pages_eq by (simp only: list.map list.sel) simp
  qed
  have "\<forall>va \<in> set (tl user_pages). \<not> same_vpage 0xC0000000 va"
    using user_pages_distinct by (subst (asm) u) simp
  then have "frames sel m root (tl user_pages) = []" using assms(3) by (simp add: frames_def)
  then show ?thesis by (subst u) (simp add: assms(1,2))
qed

lemma demo_user_exists: "\<exists>st ps. demo_user st ps"
proof -
  let ?fl = "PTE_R OR PTE_W OR PTE_U"
  have ok: "wellformed_vma 0xC0000000" "aligned_addr 0xC0000000 PAGE_SIZE" by code_simp+
  obtain st ps where "maps_fresh demo_vm 0x80000000 demo_pages 0xC0000000 ?fl 0x80001000 ps st"
    using map_page_ok [OF demo_space(1) demo_root demo_prefix demo_limit _ demo_space(2) ok(1,2), of ?fl]
    by (auto simp: demo_pages_def)
  then have m: "wf_space (pmem st) 0x80000000 (insert 0x80001000 (set ps))" "mm.more st = mm.more demo_vm"
    "free_prefix st ps" "0x80001000 \<notin> set ps" "mapped (pmem st) 0x80000000 0xC0000000 = Some (leaf_pte 0x80001000 ?fl)"
    "\<And>va. \<not> same_vpage 0xC0000000 va \<Longrightarrow> mapped (pmem st) 0x80000000 va = None"
    by (auto simp: maps_fresh_def demo_space(3))
  have r: "active_space_root st = 0x80000000" using active_space_root_cong [OF m(2)] by simp
  have "pte_page (leaf_pte 0x80001000 ?fl) = 0x80001000" by code_simp
  then show ?thesis
    using m r frames_one [OF m(5) _ m(6)] demo_user_selected
    by (intro exI [of _ st] exI [of _ ps]) (simp add: demo_user_def active_space_root_def active_space_mtag_def)
qed

lemma demo_user_mapped:
  assumes "demo_user st ps" and "k < 4096"
  shows "mapped (pmem st) 0x80000000 (0xC0000000 + k) = Some (leaf_pte 0x80001000 (PTE_R OR PTE_W OR PTE_U))"
proof -
  have "unat k < 4096" using assms(2) by (simp add: word_less_nat_alt)
  then have "unat (0xC0000000 + k) div 4096 = unat (0xC0000000 :: u64) div 4096"
    by (simp add: unat_word_ariths)
  then have "same_vpage 0xC0000000 (0xC0000000 + k)" by (intro same_vpageI) simp
  from mapped_cong_vpage [OF this, of "pmem st" "0x80000000"] show ?thesis using assms(1) by (simp add: demo_user_def)
qed

subsection \<open>Mapping and page faults\<close>

text \<open>
  C1. \<open>memory_alloc_and_map_page\<close> at a well-formed, page-aligned address maps that page, and
  only that page, to a fresh zeroed physical page with the requested permissions; the page
  tables stay a tree of distinct tables outside the free list, every other virtual page keeps
  its mapping, and no memory other than the new page and the page tables is written.
\<close>

theorem memory_alloc_and_map_page_correct:
  assumes "wf_space (pmem st) root (set ps)" and "active_space_root st = root"
    and "free_prefix st ps" and "\<forall>p \<in> set ps. p < 2 ^ 56" and "3 \<le> length ps"
    and "\<not> superpage (pmem st) root vma"
    and "wellformed_vma vma" and "aligned_addr vma PAGE_SIZE"
  shows "\<exists>st' ps'. memory_alloc_and_map_page vma fl st = Inr (vma, st') \<and>
    maps_fresh st root ps vma fl (hd ps) ps' st'"
  using map_page_ok [OF assms] by blast

theorem memory_alloc_and_map_page_witness:
  "\<exists>st' ps'. memory_alloc_and_map_page 0xC0000000 (PTE_R OR PTE_W OR PTE_U) demo_vm
      = Inr (0xC0000000, st') \<and>
    maps_fresh demo_vm 0x80000000 demo_pages 0xC0000000 (PTE_R OR PTE_W OR PTE_U)
      0x80001000 ps' st'"
proof -
  have "wellformed_vma 0xC0000000" "aligned_addr 0xC0000000 PAGE_SIZE" by code_simp+
  from memory_alloc_and_map_page_correct [OF demo_space(1) demo_root demo_prefix demo_limit _
      demo_space(2) this]
  show ?thesis by (simp add: demo_pages_def)
qed

text \<open>
  C18. \<open>memory_handle_page_fault\<close> at any address of the user range returns, with the page of
  that address mapped readable, writable and user-accessible to a fresh zeroed page, and
  nothing else changed.
\<close>

theorem memory_handle_page_fault_maps:
  assumes "wf_space (pmem st) root (set ps)" and "active_space_root st = root"
    and "free_prefix st ps" and "\<forall>p \<in> set ps. p < 2 ^ 56" and "5 \<le> length ps"
    and "USER_START_VMA \<le> va" and "va < USER_END_VMA" and "\<not> superpage (pmem st) root va"
  shows "\<exists>st' pg ps'. memory_handle_page_fault va st = Inr st' \<and>
    maps_fresh st root ps (round_down_addr va PAGE_SIZE) (PTE_R OR PTE_W OR PTE_U) pg ps' st' \<and>
    same_vpage (round_down_addr va PAGE_SIZE) va"
  by (rule page_fault_ok [OF assms])

theorem memory_handle_page_fault_witness:
  "\<exists>st' pg ps'. memory_handle_page_fault 0xC0001234 demo_vm = Inr st' \<and>
    maps_fresh demo_vm 0x80000000 demo_pages 0xC0001000 (PTE_R OR PTE_W OR PTE_U) pg ps' st'"
proof -
  have "USER_START_VMA \<le> 0xC0001234" "0xC0001234 < USER_END_VMA" "5 \<le> length demo_pages"
    and r: "round_down_addr 0xC0001234 PAGE_SIZE = 0xC0001000" by code_simp+
  with memory_handle_page_fault_maps [OF demo_space(1) demo_root demo_prefix demo_limit, of "0xC0001234"]
    demo_space(2)
  show ?thesis by auto
qed

subsection \<open>Validation of user pointers\<close>

text \<open>
  For a range that starts on a page boundary, \<open>memory_validate_vptr_len\<close> returns, and
  returns 0 exactly when every byte of the range lies on a mapped page that has all required
  permissions, and -1 otherwise.
\<close>

theorem memory_validate_vptr_len_aligned:
  assumes wf: "wf_space (pmem st) (active_space_root st) F"
    and vp: "page_aligned vp" "wellformed_vma vp" and len: "len \<noteq> 0"
    and fit: "unat vp + unat len + 4096 \<le> 2 ^ 64"
  shows "memory_validate_vptr_len vp len fl st =
    Some (Inr (if \<forall>a. a - vp < len \<longrightarrow> accessible st fl a then 0 else - 1))"
  by (rule validate_aligned [OF assms])

theorem memory_validate_vptr_len_aligned_witness:
  "memory_validate_vptr_len 0xC0000000 100 PTE_R demo_vm = Some (Inr (- 1))"
proof -
  have "wellformed_vma 0xC0000000" by code_simp
  moreover have "\<not> accessible demo_vm PTE_R 0xC0000000" by (simp add: accessible_def demo_space(3))
  then have "\<not> (\<forall>a. a - 0xC0000000 < (100 :: u64) \<longrightarrow> accessible demo_vm PTE_R a)" by fastforce
  ultimately show ?thesis
    using memory_validate_vptr_len_aligned [of demo_vm "set demo_pages" "0xC0000000" 100 PTE_R] demo_space(1)
    by (simp add: aligned_def)
qed

text \<open>
  A range of at most one page is judged by the page of its first byte alone: the calls
  that should round the bounds to page boundaries drop their results, so when the range
  crosses a page boundary, the page of its last byte is not looked at.
\<close>

theorem memory_validate_vptr_len_first_page_only:
  assumes wf: "wf_space (pmem st) (active_space_root st) F"
    and vp: "wellformed_vma vp" and len: "len \<noteq> 0" "len \<le> PAGE_SIZE"
    and fit: "unat vp + unat len + 4096 \<le> 2 ^ 64"
  shows "memory_validate_vptr_len vp len fl st =
    Some (Inr (if accessible st fl vp then 0 else - 1))"
proof -
  have e: "unat (vp + len) = unat vp + unat len" using fit by (simp add: unat_word_ariths)
  then have "unat (vp + len) + 4096 \<le> 18446744073709551616" using fit by simp
  note loop = vptr_loop_ok [OF wf this, of fl vp]
  have "unat vp + 4096 * i < unat vp + unat len \<longleftrightarrow> i = 0" for i
    using len by (cases i) (auto simp: word_le_nat_alt unat_gt_0)
  with loop e vp len(1) show ?thesis by (simp add: memory_validate_vptr_len_def)
qed

theorem memory_validate_vptr_len_first_page_only_witness:
  "memory_validate_vptr_len 0xC0000FFF 2 PTE_R demo_vm =
     Some (Inr (if accessible demo_vm PTE_R 0xC0000FFF then 0 else - 1))"
proof -
  have "wellformed_vma 0xC0000FFF" by code_simp
  with memory_validate_vptr_len_first_page_only [of demo_vm "set demo_pages" "0xC0000FFF" 2 PTE_R]
    demo_space(1)
  show ?thesis by simp
qed

text \<open>
  A length that makes the end of the range wrap around is accepted without looking at any
  page: the loop runs zero times and \<open>memory_validate_vptr_len\<close> returns 0.
\<close>

theorem memory_validate_vptr_len_wraps:
  assumes "wellformed_vma vp" and "len \<noteq> 0" and "vp + len \<le> vp"
  shows "memory_validate_vptr_len vp len fl st = Some (Inr 0)"
  using assms leD [OF assms(3)]
  by (simp add: memory_validate_vptr_len_def vptr_loop.simps [of _ _ vp] del: not_less)

theorem memory_validate_vptr_len_wraps_witness:
  "memory_validate_vptr_len 0xC0000000 0xFFFFFFFF40000000 PTE_R demo_vm = Some (Inr 0) \<and>
   \<not> accessible demo_vm PTE_R 0xC0000000"
proof -
  have "wellformed_vma 0xC0000000" by code_simp
  with memory_validate_vptr_len_wraps [of "0xC0000000" "0xFFFFFFFF40000000" PTE_R demo_vm]
  show ?thesis by (simp add: accessible_def demo_space(3))
qed



subsection \<open>Permissions, reclaiming and boot\<close>

text \<open>
  \<open>memory_set_page_flags\<close> on a mapped page replaces its R, W, X, U and G permissions by the
  given ones, keeps its frame and its V, A and D bits, and leaves every other mapping alone.
\<close>

theorem memory_set_page_flags_correct:
  assumes "wf_space (pmem st) root F" and "active_space_root st = root"
    and "mapped (pmem st) root vp = Some p" and "page_aligned vp"
  shows "\<exists>st'. memory_set_page_flags vp fl st = Inr st' \<and> wf_space (pmem st') root F \<and>
    (\<forall>va. mapped (pmem st') root va =
       (if same_vpage vp va
        then Some (p\<lparr>pte_flags := pte_flags p AND NOT PTE_FLAGS_MASK OR fl\<rparr>)
        else mapped (pmem st) root va))"
  using set_page_flags_ok [OF assms] by blast

theorem memory_set_page_flags_witness:
  "\<exists>(st :: vm) st'. memory_set_page_flags 0xC0000000 PTE_R st = Inr st' \<and>
     mapped (pmem st') 0x80000000 0xC0000000 =
       Some ((leaf_pte 0x80001000 PTE_W)\<lparr>pte_flags :=
         pte_flags (leaf_pte 0x80001000 PTE_W) AND NOT PTE_FLAGS_MASK OR PTE_R\<rparr>)"
proof -
  have ok: "wellformed_vma 0xC0000000" "aligned_addr 0xC0000000 PAGE_SIZE" by code_simp+
  have al: "page_aligned 0xC0000000" by (simp add: aligned_def)
  obtain st ps' where "maps_fresh demo_vm 0x80000000 demo_pages 0xC0000000 PTE_W 0x80001000 ps' st"
    using map_page_ok [OF demo_space(1) demo_root demo_prefix demo_limit _ demo_space(2) ok(1,2), of PTE_W]
    by (auto simp: demo_pages_def)
  then have m: "wf_space (pmem st) 0x80000000 (insert 0x80001000 (set ps'))"
    "mapped (pmem st) 0x80000000 0xC0000000 = Some (leaf_pte 0x80001000 PTE_W)"
    "active_space_root st = 0x80000000"
    using active_space_root_cong [of st demo_vm] by (auto simp: maps_fresh_def)
  obtain st' where "memory_set_page_flags 0xC0000000 PTE_R st = Inr st'"
    "mapped (pmem st') 0x80000000 0xC0000000 = Some ((leaf_pte 0x80001000 PTE_W)\<lparr>pte_flags :=
       pte_flags (leaf_pte 0x80001000 PTE_W) AND NOT PTE_FLAGS_MASK OR PTE_R\<rparr>)"
    using memory_set_page_flags_correct [OF m(1,3,2) al, of PTE_R] by auto
  then show ?thesis by blast
qed

text \<open>
  C16. \<open>memory_unmap_and_free_user\<close> unmaps every user-accessible page of the user range, gives
  exactly their physical pages back to the allocator, and leaves every other mapping alone,
  provided the mapped frames are distinct pages that are neither free nor page tables.
\<close>

theorem memory_unmap_and_free_user_correct:
  assumes "wf_space (pmem st) root F" and "mtag_to_root (satp st) = root"
    and "free_prefix st ps" and "set ps \<subseteq> F"
    and "set (frames sel_user (pmem st) root user_pages) \<subseteq> F - {0}"
    and "distinct (frames sel_user (pmem st) root user_pages @ ps)"
  shows "\<exists>st'. memory_unmap_and_free_user st = Inr st' \<and>
    free_prefix st' (rev (frames sel_user (pmem st) root user_pages) @ ps) \<and>
    wf_space (pmem st') root F \<and>
    (\<forall>va. mapped (pmem st') root va =
       (if (\<exists>b. same_vpage b va \<and> USER_START_VMA \<le> b \<and> b < USER_END_VMA) \<and>
           selected sel_user (mapped (pmem st) root va) then None
        else mapped (pmem st) root va))"
  using unmap_sweep.sweep_ok [OF assms(1,3-6) user_pages_distinct] assms(2)
  unfolding user_pages_cover memory_unmap_and_free_user_def Let_def active_space_mtag_def by auto

theorem memory_unmap_and_free_user_witness:
  "\<exists>(st :: vm) st' ps. mapped (pmem st) 0x80000000 0xC0000000 = Some (leaf_pte 0x80001000 (PTE_R OR PTE_W OR PTE_U)) \<and>
     free_prefix st ps \<and> memory_unmap_and_free_user st = Inr st' \<and> free_prefix st' (0x80001000 # ps) \<and>
     mapped (pmem st') 0x80000000 0xC0000000 = None"
proof -
  obtain st ps where d: "demo_user st ps" using demo_user_exists by blast
  note u = d [unfolded demo_user_def]
  have fr: "set (frames sel_user (pmem st) 0x80000000 user_pages) \<subseteq> insert 0x80001000 (set ps) - {0}"
    "distinct (frames sel_user (pmem st) 0x80000000 user_pages @ ps)"
    using u mm_prefix.pool_distinct [of st ps] by simp_all
  obtain st' where st': "memory_unmap_and_free_user st = Inr st'"
      "free_prefix st' (rev (frames sel_user (pmem st) 0x80000000 user_pages) @ ps)"
      and m: "\<forall>va. mapped (pmem st') 0x80000000 va =
       (if (\<exists>b. same_vpage b va \<and> USER_START_VMA \<le> b \<and> b < USER_END_VMA) \<and>
           selected sel_user (mapped (pmem st) 0x80000000 va) then None else mapped (pmem st) 0x80000000 va)"
    using memory_unmap_and_free_user_correct [of st "0x80000000" "insert 0x80001000 (set ps)" ps, OF _ _ _ _ fr] u by blast
  have "mapped (pmem st') 0x80000000 0xC0000000 = None"
    using m u demo_user_selected in_user_range by auto
  then show ?thesis using st' u by auto
qed

text \<open>
  C17. \<open>memory_space_reclaim\<close> switches to the kernel's own address space and unmaps every
  non-global leaf of the user range of the old space, giving exactly their frames back.
\<close>

theorem memory_space_reclaim_correct:
  assumes "wf_space (pmem st) root F" and "mtag_to_root (satp st) = root"
    and "free_prefix st ps" and "set ps \<subseteq> F"
    and "set (frames sel_nonglobal (pmem st) root user_pages) \<subseteq> F - {0}"
    and "distinct (frames sel_nonglobal (pmem st) root user_pages @ ps)"
  shows "\<exists>st'. memory_space_reclaim st = Inr st' \<and> satp st' = main_mtag st \<and>
    free_prefix st' (rev (frames sel_nonglobal (pmem st) root user_pages) @ ps) \<and>
    (\<forall>va. mapped (pmem st') root va =
       (if (\<exists>b. same_vpage b va \<and> USER_START_VMA \<le> b \<and> b < USER_END_VMA) \<and>
           selected sel_nonglobal (mapped (pmem st) root va) then None
        else mapped (pmem st) root va))"
proof -
  let ?st = "st\<lparr>satp := main_mtag st\<rparr>"
  have "free_prefix ?st ps" using assms(3) by (simp add: free_prefix_def)
  with reclaim_sweep.sweep_ok [of ?st root F ps user_pages] assms(1,4-6) user_pages_distinct
  obtain st' where st': "foldM (reclaim_page root) user_pages ?st = Inr st'" "mm.more st' = mm.more ?st"
    "free_prefix st' (rev (frames sel_nonglobal (pmem st) root user_pages) @ ps)"
    "\<And>va. mapped (pmem st') root va =
       (if (\<exists>va' \<in> set user_pages. same_vpage va' va) \<and> selected sel_nonglobal (mapped (pmem st) root va)
        then None else mapped (pmem st) root va)"
    by (auto simp del: page_const)
  moreover have "satp st' = main_mtag st" using satp_cong [OF st'(2)] by simp
  ultimately show ?thesis
    using assms(2) unfolding user_pages_cover memory_space_reclaim_def Let_def active_space_mtag_def
    by auto
qed

theorem memory_space_reclaim_witness:
  "\<exists>(st :: vm) st' ps. mapped (pmem st) 0x80000000 0xC0000000 = Some (leaf_pte 0x80001000 (PTE_R OR PTE_W OR PTE_U)) \<and>
     free_prefix st ps \<and> memory_space_reclaim st = Inr st' \<and> free_prefix st' (0x80001000 # ps) \<and> satp st' = main_mtag st \<and>
     mapped (pmem st') 0x80000000 0xC0000000 = None"
proof -
  obtain st ps where d: "demo_user st ps" using demo_user_exists by blast
  note u = d [unfolded demo_user_def]
  have fr: "set (frames sel_nonglobal (pmem st) 0x80000000 user_pages) \<subseteq> insert 0x80001000 (set ps) - {0}"
    "distinct (frames sel_nonglobal (pmem st) 0x80000000 user_pages @ ps)"
    using u mm_prefix.pool_distinct [of st ps] by simp_all
  obtain st' where st': "memory_space_reclaim st = Inr st'" "satp st' = main_mtag st"
      "free_prefix st' (rev (frames sel_nonglobal (pmem st) 0x80000000 user_pages) @ ps)"
      and m: "\<forall>va. mapped (pmem st') 0x80000000 va =
       (if (\<exists>b. same_vpage b va \<and> USER_START_VMA \<le> b \<and> b < USER_END_VMA) \<and>
           selected sel_nonglobal (mapped (pmem st) 0x80000000 va) then None else mapped (pmem st) 0x80000000 va)"
    using memory_space_reclaim_correct [of st "0x80000000" "insert 0x80001000 (set ps)" ps, OF _ _ _ _ fr] u by blast
  have "mapped (pmem st') 0x80000000 0xC0000000 = None"
    using m u demo_user_selected in_user_range by auto
  then show ?thesis using st' u by auto
qed

text \<open>
  When the kernel image fits, \<open>memory_init\<close> returns with paging enabled and the heap's
  invariant established: the heap block between the image and \<open>heap_end\<close> and all the pages of
  RAM above it, on the free list from the top downwards, are pairwise disjoint.
\<close>

theorem memory_init_establishes_heap_inv:
  assumes "kimg_start img = RAM_START_PMA" and "kimg_end img - kimg_start img \<le> MEGA_SIZE"
    and "init_heap_end (kimg_end img) < RAM_END_PMA img"
  shows "\<exists>st'. memory_init img st = Inr st' \<and>
    heap_inv st' [] (rev (addr_range (init_heap_end (kimg_end img)) (RAM_END_PMA img) PAGE_SIZE)) \<and>
    heap_start st' = kimg_end img \<and> heap_end st' = init_heap_end (kimg_end img) \<and>
    satp st' = push_bit 60 RISCV_SATP_MODE_Sv39 OR pageptr_to_pagenum (img_main_pt2 img) \<and>
    main_mtag st' = satp st' \<and> memory_initialized st'"
  using memory_init_ok [OF assms] by blast

definition demo_image :: kimage where
  "demo_image = \<lparr>kimg_start = 0x80000000, kimg_text_start = 0x80000000, kimg_text_end = 0x80008000,
     kimg_rodata_start = 0x80008000, kimg_rodata_end = 0x8000A000, kimg_data_start = 0x8000A000,
     kimg_end = 0x8001F800, img_main_pt2 = 0x80010000, img_main_pt1 = 0x80011000,
     img_main_pt0 = 0x80012000, RAM_SIZE = 0x800000\<rparr>"

lemma demo_image_fits:
  "kimg_start demo_image = RAM_START_PMA" "kimg_end demo_image - kimg_start demo_image \<le> MEGA_SIZE"
  "init_heap_end (kimg_end demo_image) < RAM_END_PMA demo_image"
  by code_simp+

theorem memory_init_witness:
  "\<exists>st'. memory_init demo_image demo_vm = Inr st' \<and> heap_start st' = 0x8001F800 \<and> memory_initialized st'"
  using memory_init_establishes_heap_inv [OF demo_image_fits, of demo_vm] by (auto simp: demo_image_def)

text \<open>
  C36. The free list that \<open>memory_init\<close> builds does not end in the null pointer: its last page,
  the one at \<open>heap_end\<close>, is linked to itself. When every page has been allocated once, the
  next allocation succeeds and hands out the page at \<open>heap_end\<close> a second time.
\<close>

theorem memory_init_last_page_twice:
  assumes "kimg_start img = RAM_START_PMA" and "kimg_end img - kimg_start img \<le> MEGA_SIZE"
    and "init_heap_end (kimg_end img) < RAM_END_PMA img"
  shows "\<exists>st' st'' qs. memory_init img st = Inr st' \<and>
    qs @ [init_heap_end (kimg_end img)] =
      rev (addr_range (init_heap_end (kimg_end img)) (RAM_END_PMA img) PAGE_SIZE) \<and>
    alloc_many memory_alloc_page (Suc (Suc (length qs))) st' =
      Inr (qs @ [init_heap_end (kimg_end img), init_heap_end (kimg_end img)], st'')"
proof -
  let ?e = "init_heap_end (kimg_end img)"
  let ?pages = "addr_range ?e (RAM_END_PMA img) PAGE_SIZE"
  obtain st' where st': "memory_init img st = Inr st'" "hd ?pages = ?e" "?pages \<noteq> []" "distinct ?pages"
    "free_seg (pmem st') (free_list st') (rev ?pages) (hd ?pages)"
    using memory_init_ok [OF assms, of st] by blast
  then have r: "rev ?pages = rev (tl ?pages) @ [?e]" by (metis hd_Cons_tl rev.simps(2))
  have "free_seg (pmem st') (free_list st') (rev (tl ?pages) @ [?e]) ?e"
    and "distinct (rev (tl ?pages) @ [?e])"
    using st'(5) distinct_rev [of ?pages] st'(4) unfolding st'(2) r by blast+
  from alloc_lasso [OF this] st'(1) r show ?thesis by metis
qed

theorem memory_init_last_page_twice_witness:
  "\<exists>st' st'' qs. memory_init demo_image demo_vm = Inr st' \<and>
    alloc_many memory_alloc_page (Suc (Suc (length qs))) st' = Inr (qs @ [0x80020000, 0x80020000], st'')"
proof -
  have "init_heap_end (kimg_end demo_image) = 0x80020000" by code_simp
  with memory_init_last_page_twice [OF demo_image_fits, of demo_vm] show ?thesis by auto
qed

end
