(* ===== verification/CString.thy ===== *)
theory CString
  imports Prelude "HOL-Library.Char_ord"
begin

text \<open>
  The string library \<open>user/string.c\<close>, shared by the kernel and the user programs.

  A \<open>const char *\<close> is the list of characters from the pointer to the end of the object it
  points into; \<open>p += 1\<close> is the tail, and reading at the end of the object is a fault. A
  destination is the list of characters from the pointer on, returned updated. \<open>char\<close> is
  unsigned on the RISC-V target. A signed overflow is a fault.

  The formatted output functions write through a callback; \<open>vgprintf\<close> is modelled for any
  callback that transforms a state and may fault. The locale \<open>putc_sim\<close> relates a callback to
  the plain list of characters written, and gives the behaviour of \<open>vsnprintf\<close>.
\<close>

abbreviation NUL :: char where
  "NUL \<equiv> CHR 0x00"

abbreviation code :: "char \<Rightarrow> int" where
  "code c \<equiv> of_char c"

section \<open>Comparing and measuring\<close>

fun strcmp_loop :: "string \<Rightarrow> string \<Rightarrow> int res" where
  "strcmp_loop (a # s1) (b # s2) =
     (if a = b \<and> a \<noteq> NUL then strcmp_loop s1 s2
      else if a < b then Inr (- 1) else if b < a then Inr 1 else Inr 0)"
| "strcmp_loop _ _ = Inl UndefinedAccess"

definition strcmp :: "string option \<Rightarrow> string option \<Rightarrow> int res" where
  "strcmp s1 s2 =
     (case (s1, s2) of
        (None, None) \<Rightarrow> Inr 0
      | (None, Some _) \<Rightarrow> Inr (- 1)
      | (Some _, None) \<Rightarrow> Inr 1
      | (Some s1, Some s2) \<Rightarrow> strcmp_loop s1 s2)"

fun strlen_loop :: "string \<Rightarrow> u64 \<Rightarrow> u64 res" where
  "strlen_loop [] n = Inl UndefinedAccess"
| "strlen_loop (c # p) n = (if c \<noteq> NUL then strlen_loop p (n + 1) else Inr n)"

definition strlen :: "string \<Rightarrow> u64 res" where
  "strlen s = strlen_loop s 0"

fun strncmp :: "string \<Rightarrow> string \<Rightarrow> u64 \<Rightarrow> int res" where
  "strncmp (a # s1) (b # s2) n =
     (if n \<noteq> 0 \<and> a \<noteq> NUL \<and> a = b then strncmp s1 s2 (n - 1)
      else if n \<noteq> 0 then Inr (code a - code b) else Inr 0)"
| "strncmp s1 s2 n = (if n \<noteq> 0 then Inl UndefinedAccess else Inr 0)"

fun strchr_loop :: "string \<Rightarrow> char \<Rightarrow> nat \<Rightarrow> nat option res" where
  "strchr_loop [] c i = Inl UndefinedAccess"
| "strchr_loop (x # s) c i =
     (if x = NUL then Inr None else if x = c then Inr (Some i) else strchr_loop s c (Suc i))"

text \<open>\<open>strchr\<close>: the offset of the character found; \<open>None\<close> is the null pointer.\<close>

definition strchr :: "string \<Rightarrow> char \<Rightarrow> nat option res" where
  "strchr s c = strchr_loop s c 0"

section \<open>Copying\<close>

definition store :: "char \<Rightarrow> string \<Rightarrow> (string \<Rightarrow> string res) \<Rightarrow> string res" where
  "store c dst k = (case dst of [] \<Rightarrow> Inl UndefinedAccess
     | _ # d \<Rightarrow> bind_res (k d) (\<lambda>d. Inr (c # d)))"

lemma store_simps [simp]:
  "store c [] k = Inl UndefinedAccess"
  "store c (x # d) k = bind_res (k d) (\<lambda>d. Inr (c # d))"
  by (simp_all add: store_def)

fun strncpy :: "string \<Rightarrow> string \<Rightarrow> u64 \<Rightarrow> string res" where
  "strncpy dst [] n = (if n \<noteq> 0 then Inl UndefinedAccess else Inr dst)"
| "strncpy dst (c # src) n =
     (if n \<noteq> 0 \<and> c \<noteq> NUL then store c dst (\<lambda>d. strncpy d src (n - 1))
      else if n \<noteq> 0 then store NUL dst Inr else Inr dst)"

fun strncat_copy :: "string \<Rightarrow> string \<Rightarrow> u64 \<Rightarrow> string res" where
  "strncat_copy dst [] n = (if n \<noteq> 0 then Inl UndefinedAccess else store NUL dst Inr)"
| "strncat_copy dst (c # src) n =
     (if n \<noteq> 0 \<and> c \<noteq> NUL then store c dst (\<lambda>d. strncat_copy d src (n - 1))
      else store NUL dst Inr)"

fun strncat :: "string \<Rightarrow> string \<Rightarrow> u64 \<Rightarrow> string res" where
  "strncat [] src n = Inl UndefinedAccess"
| "strncat (x # dst) src n =
     (if x \<noteq> NUL then bind_res (strncat dst src n) (\<lambda>d. Inr (x # d))
      else strncat_copy (x # dst) src n)"

fun memset :: "'a list \<Rightarrow> 'a \<Rightarrow> nat \<Rightarrow> 'a list res" where
  "memset p c 0 = Inr p"
| "memset [] c (Suc n) = Inl UndefinedAccess"
| "memset (x # p) c (Suc n) = bind_res (memset p c n) (\<lambda>p. Inr (c # p))"

fun memcpy :: "'a list \<Rightarrow> 'a list \<Rightarrow> nat \<Rightarrow> 'a list res" where
  "memcpy dst src 0 = Inr dst"
| "memcpy (x # dst) (y # src) (Suc n) = bind_res (memcpy dst src n) (\<lambda>p. Inr (y # p))"
| "memcpy _ _ (Suc n) = Inl UndefinedAccess"

fun memcmp :: "u8 list \<Rightarrow> u8 list \<Rightarrow> nat \<Rightarrow> int res" where
  "memcmp u1 u2 0 = Inr 0"
| "memcmp (a # u1) (b # u2) (Suc n) = (if a \<noteq> b then Inr (uint a - uint b) else memcmp u1 u2 n)"
| "memcmp _ _ (Suc n) = Inl UndefinedAccess"

section \<open>Parsing\<close>

definition INT_MAX :: int where "INT_MAX = 2147483647"

fun parse_int_loop :: "string \<Rightarrow> int \<Rightarrow> int res" where
  "parse_int_loop [] result = Inl UndefinedAccess"
| "parse_int_loop (c # str) result =
     (if c = NUL then Inr result
      else if c < CHR ''0'' \<or> CHR ''9'' < c then Inr (- 1)
      else let r = result * 10 + (code c - code (CHR ''0'')) in
           if r > INT_MAX then Inl UndefinedAccess else parse_int_loop str r)"

definition parse_int :: "string \<Rightarrow> int res" where
  "parse_int str = parse_int_loop str 0"

section \<open>strtok\<close>

text \<open>
  The static variable \<open>last\<close> is an offset into the buffer being tokenised, \<open>None\<close> the null
  pointer. The buffer is modified in place: the delimiter after the token becomes NUL.
\<close>

definition is_delim :: "string \<Rightarrow> char \<Rightarrow> bool res" where
  "is_delim delim c = bind_res (strchr delim c) (\<lambda>r. Inr (r \<noteq> None))"

fun skip_delims :: "string \<Rightarrow> string \<Rightarrow> nat \<Rightarrow> nat res" where
  "skip_delims delim [] i = Inl UndefinedAccess"
| "skip_delims delim (c # s) i =
     (if c = NUL then Inr i
      else bind_res (is_delim delim c) (\<lambda>d. if d then skip_delims delim s (Suc i) else Inr i))"

fun skip_token :: "string \<Rightarrow> string \<Rightarrow> nat \<Rightarrow> nat res" where
  "skip_token delim [] i = Inl UndefinedAccess"
| "skip_token delim (c # s) i =
     (if c = NUL then Inr i
      else bind_res (is_delim delim c) (\<lambda>d. if \<not> d then skip_token delim s (Suc i) else Inr i))"

text \<open>
  \<open>strtok fresh delim (buf, last)\<close>: \<open>fresh\<close> says that \<open>str\<close> is not null, and then it is the
  start of \<open>buf\<close>. The result is the offset of the token, with the new buffer and \<open>last\<close>.
\<close>

definition strtok :: "bool \<Rightarrow> string \<Rightarrow> string \<times> nat option \<Rightarrow> (nat option \<times> string \<times> nat option) res" where
  "strtok fresh delim st =
     (let (buf, last) = st; last = (if fresh then Some 0 else last) in
      case last of
        None \<Rightarrow> Inr (None, buf, None)
      | Some l \<Rightarrow>
          bind_res (skip_delims delim (drop l buf) l) (\<lambda>start.
            if buf ! start = NUL then Inr (None, buf, None)
            else bind_res (skip_token delim (drop start buf) start) (\<lambda>stop.
              if buf ! stop \<noteq> NUL
              then Inr (Some start, buf[stop := NUL], Some (stop + 1))
              else Inr (Some start, buf, None))))"

section \<open>Formatted output\<close>

type_synonym 's putc = "char \<Rightarrow> 's \<Rightarrow> 's res"

text \<open>Writing the same character several times, and writing a list of characters.\<close>

definition put_all :: "'s putc \<Rightarrow> string \<Rightarrow> 's \<Rightarrow> 's res" where
  "put_all putcfn cs s = foldM putcfn cs s"

text \<open>
  The \<open>do\<close> loop of \<open>format_int\<close>: digits are stored from the end of a buffer of 40 bytes, of
  which \<open>room\<close> are left.
\<close>

definition digit_char :: "u64 \<Rightarrow> char" where
  "digit_char d = char_of (if d < 10 then unat d + 48 else unat d + 97 - 10)"

fun int_digits :: "nat \<Rightarrow> u64 \<Rightarrow> u64 \<Rightarrow> string \<Rightarrow> string res" where
  "int_digits 0 val base acc = Inl UndefinedAccess"
| "int_digits (Suc room) val base acc =
     (if base = 0 then Inl UndefinedAccess
      else let d = val mod base; val = val div base; acc = digit_char d # acc in
           if val \<noteq> 0 then int_digits room val base acc else Inr acc)"

definition format_int :: "'s putc \<Rightarrow> u64 \<Rightarrow> u64 \<Rightarrow> bool \<Rightarrow> u32 \<Rightarrow> 's \<Rightarrow> (u64 \<times> 's) res" where
  "format_int putcfn val base zpad len s =
     bind_res (int_digits 40 val base []) (\<lambda>ds.
       let pad = replicate (unat len - length ds) (if zpad then CHR ''0'' else CHR '' '') in
       bind_res (put_all putcfn pad s) (\<lambda>s.
         bind_res (put_all putcfn ds s) (\<lambda>s. Inr (of_nat (length pad + length ds), s))))"

fun put_str :: "'s putc \<Rightarrow> string \<Rightarrow> u64 \<Rightarrow> 's \<Rightarrow> (u64 \<times> 's) res" where
  "put_str putcfn [] nout s = Inl UndefinedAccess"
| "put_str putcfn (c # cs) nout s =
     (if c \<noteq> NUL then bind_res (putcfn c s) (put_str putcfn cs (nout + 1)) else Inr (nout, s))"

definition format_str :: "'s putc \<Rightarrow> string option \<Rightarrow> u32 \<Rightarrow> 's \<Rightarrow> (u64 \<times> 's) res" where
  "format_str putcfn str len s =
     (let cs = (case str of None \<Rightarrow> ''(null)'' @ [NUL] | Some cs \<Rightarrow> cs) in
      bind_res (put_str putcfn cs 0 s) (\<lambda>(nout, s).
        if nout < ucast len then
          let n = len - ucast nout in
          bind_res (put_all putcfn (replicate (unat n) (CHR '' '')) s) (\<lambda>s. Inr (nout + ucast n, s))
        else Inr (nout, s)))"

text \<open>Variable arguments: a register with a number or an address, or a pointer to characters.\<close>

datatype vaarg = VWord u64 | VStr "string option"

fun va_word :: "vaarg list \<Rightarrow> (u64 \<times> vaarg list) res" where
  "va_word (VWord w # ap) = Inr (w, ap)"
| "va_word _ = Inl UndefinedAccess"

fun va_str :: "vaarg list \<Rightarrow> (string option \<times> vaarg list) res" where
  "va_str (VStr s # ap) = Inr (s, ap)"
| "va_str _ = Inl UndefinedAccess"

fun parse_width :: "string \<Rightarrow> u32 \<Rightarrow> (u32 \<times> string) res" where
  "parse_width [] len = Inl UndefinedAccess"
| "parse_width (c # p) len =
     (if CHR ''0'' \<le> c \<and> c \<le> CHR ''9''
      then parse_width p (10 * len + (of_char c - 48)) else Inr (len, c # p))"

fun parse_longs :: "string \<Rightarrow> u32 \<Rightarrow> (u32 \<times> string) res" where
  "parse_longs [] lcnt = Inl UndefinedAccess"
| "parse_longs (c # p) lcnt =
     (if c = CHR ''l'' then parse_longs p (lcnt + 1) else Inr (lcnt, c # p))"

text \<open>\<open>size_t\<close>, \<open>intmax_t\<close>, \<open>long\<close> and \<open>long long\<close> all have 8 bytes, so \<open>z\<close> and \<open>j\<close> set \<open>lcnt\<close> to 2.\<close>

fun parse_prefix :: "string \<Rightarrow> u32 \<Rightarrow> (u32 \<times> string) res" where
  "parse_prefix [] lcnt = Inl UndefinedAccess"
| "parse_prefix (c # p) lcnt =
     (if c = CHR ''z'' then Inr (2, p) else if c = CHR ''j'' then Inr (2, p) else Inr (lcnt, c # p))"

definition parse_spec :: "string \<Rightarrow> (bool \<times> u32 \<times> u32 \<times> string) res" where
  "parse_spec p =
     (let zpad = (take 1 p = ''0'') in
      bind_res (parse_width p 0) (\<lambda>(len, p).
        bind_res (parse_longs p 0) (\<lambda>(lcnt, p).
          bind_res (parse_prefix p lcnt) (\<lambda>(lcnt, p). Inr (zpad, len, lcnt, p)))))"

text \<open>The cases of the \<open>switch\<close> on the conversion character.\<close>

type_synonym 's conv = "(u64 \<times> vaarg list \<times> 's) res"

definition conv_signed :: "'s putc \<Rightarrow> bool \<Rightarrow> u32 \<Rightarrow> u32 \<Rightarrow> vaarg list \<Rightarrow> 's \<Rightarrow> 's conv" where
  "conv_signed putcfn zpad len lcnt ap s =
     bind_res (va_word ap) (\<lambda>(w, ap).
       let ival = (if lcnt > 0 then w else scast (ucast w :: u32)) in
       if sint ival < 0 then
         bind_res (putcfn (CHR ''-'') s) (\<lambda>s.
           if ival = 0x8000000000000000 then Inl UndefinedAccess
           else bind_res (format_int putcfn (- ival) 10 zpad (if len > 0 then len - 1 else len) s)
             (\<lambda>(n, s). Inr (1 + n, ap, s)))
       else bind_res (format_int putcfn ival 10 zpad len s) (\<lambda>(n, s). Inr (n, ap, s)))"

definition conv_unsigned :: "'s putc \<Rightarrow> u64 \<Rightarrow> bool \<Rightarrow> u32 \<Rightarrow> u32 \<Rightarrow> vaarg list \<Rightarrow> 's \<Rightarrow> 's conv" where
  "conv_unsigned putcfn base zpad len lcnt ap s =
     bind_res (va_word ap) (\<lambda>(w, ap).
       let ival = (if lcnt > 0 then w else ucast (ucast w :: u32))
       in bind_res (format_int putcfn ival base zpad len s) (\<lambda>(n, s). Inr (n, ap, s)))"

definition conv_string :: "'s putc \<Rightarrow> u32 \<Rightarrow> vaarg list \<Rightarrow> 's \<Rightarrow> 's conv" where
  "conv_string putcfn len ap s =
     bind_res (va_str ap) (\<lambda>(str, ap).
       bind_res (format_str putcfn str len s) (\<lambda>(n, s). Inr (n, ap, s)))"

definition conv_pointer :: "'s putc \<Rightarrow> bool \<Rightarrow> u32 \<Rightarrow> vaarg list \<Rightarrow> 's \<Rightarrow> 's conv" where
  "conv_pointer putcfn zpad len ap s =
     bind_res (va_word ap) (\<lambda>(ival, ap).
       bind_res (format_str putcfn (Some (''0x'' @ [NUL])) 2 s) (\<lambda>(n1, s).
         bind_res (format_int putcfn ival 16 zpad len s) (\<lambda>(n2, s). Inr (n1 + n2, ap, s))))"

definition conv_other :: "'s putc \<Rightarrow> char \<Rightarrow> vaarg list \<Rightarrow> 's \<Rightarrow> 's conv" where
  "conv_other putcfn spec ap s =
     bind_res (putcfn (CHR ''%'') s) (\<lambda>s.
       bind_res (putcfn (if spec < CHR '' '' \<or> CHR 0x7F \<le> spec then CHR ''?'' else spec) s)
         (\<lambda>s. Inr (2, ap, s)))"

definition conversion ::
    "'s putc \<Rightarrow> char \<Rightarrow> bool \<Rightarrow> u32 \<Rightarrow> u32 \<Rightarrow> vaarg list \<Rightarrow> 's \<Rightarrow> 's conv" where
  "conversion putcfn spec zpad len lcnt ap s =
     (if spec = CHR ''d'' then conv_signed putcfn zpad len lcnt ap s
      else if spec = CHR ''u'' then conv_unsigned putcfn 10 zpad len lcnt ap s
      else if spec = CHR ''x'' then conv_unsigned putcfn 16 zpad len lcnt ap s
      else if spec = CHR ''s'' then conv_string putcfn len ap s
      else if spec = CHR ''p'' then conv_pointer putcfn zpad len ap s
      else conv_other putcfn spec ap s)"

lemma bind_res_cong [fundef_cong]:
  "r = r' \<Longrightarrow> (\<And>a. r' = Inr a \<Longrightarrow> f a = g a) \<Longrightarrow> bind_res r f = bind_res r' g"
  by (cases r') auto

lemma parse_width_length: "parse_width p len = Inr (n, q) \<Longrightarrow> length q \<le> length p"
  by (induction p len rule: parse_width.induct) (auto split: if_splits intro: le_SucI)

lemma parse_longs_length: "parse_longs p lcnt = Inr (n, q) \<Longrightarrow> length q \<le> length p"
  by (induction p lcnt rule: parse_longs.induct) (auto split: if_splits intro: le_SucI)

lemma parse_prefix_length: "parse_prefix p lcnt = Inr (n, q) \<Longrightarrow> length q \<le> length p"
  by (cases p) (auto split: if_splits)

lemma parse_spec_length: "parse_spec p = Inr (z, n, l, q) \<Longrightarrow> length q \<le> length p"
  by (auto simp: parse_spec_def bind_res_Inr_conv
      dest!: parse_width_length parse_longs_length parse_prefix_length)

function vgprintf_loop :: "'s putc \<Rightarrow> string \<Rightarrow> vaarg list \<Rightarrow> u64 \<Rightarrow> 's \<Rightarrow> (u64 \<times> 's) res" where
  "vgprintf_loop putcfn [] ap nout s = Inl UndefinedAccess"
| "vgprintf_loop putcfn (c # p) ap nout s =
     (if c = NUL then Inr (nout, s)
      else if c = CHR ''%'' then
        bind_res (parse_spec p) (\<lambda>(zpad, len, lcnt, p').
          case p' of [] \<Rightarrow> Inl UndefinedAccess
          | d # q \<Rightarrow> bind_res (conversion putcfn d zpad len lcnt ap s) (\<lambda>(n, ap, s).
              vgprintf_loop putcfn (if d = NUL then p' else q) ap (nout + n) s))
      else bind_res (putcfn c s) (\<lambda>s. vgprintf_loop putcfn p ap (nout + 1) s))"
  by pat_completeness auto
termination
  by (relation "measure (\<lambda>(_, fmt, _). length fmt)") (auto dest!: parse_spec_length)

definition vgprintf :: "'s putc \<Rightarrow> string \<Rightarrow> vaarg list \<Rightarrow> 's \<Rightarrow> (u64 \<times> 's) res" where
  "vgprintf putcfn fmt ap s = vgprintf_loop putcfn fmt ap 0 s"

record vsnprintf_state =
  vs_buf :: string
  vs_pos :: nat
  vs_rem :: u64

definition vsnprintf_putc :: "vsnprintf_state putc" where
  "vsnprintf_putc c state =
     (if vs_rem state \<le> 1 then Inr state
      else if length (vs_buf state) \<le> vs_pos state then Inl UndefinedAccess
      else Inr (state\<lparr>vs_buf := (vs_buf state)[vs_pos state := c],
                      vs_pos := vs_pos state + 1, vs_rem := vs_rem state - 1\<rparr>))"

definition vsnprintf :: "string \<Rightarrow> u64 \<Rightarrow> string \<Rightarrow> vaarg list \<Rightarrow> (u64 \<times> string) res" where
  "vsnprintf buf bufsz fmt ap =
     bind_res (vgprintf vsnprintf_putc fmt ap \<lparr>vs_buf = buf, vs_pos = 0, vs_rem = bufsz\<rparr>)
       (\<lambda>(n, state).
          if vs_rem state \<noteq> 0 then
            if length (vs_buf state) \<le> vs_pos state then Inl UndefinedAccess
            else Inr (n, (vs_buf state)[vs_pos state := NUL])
          else Inr (n, vs_buf state))"

section \<open>Null-terminated strings\<close>

text \<open>\<open>cstr s rest\<close>: the characters \<open>s\<close>, none of them NUL, then the terminator, then \<open>rest\<close>.\<close>

definition no_nul :: "string \<Rightarrow> bool" where
  "no_nul s \<longleftrightarrow> NUL \<notin> set s"

lemma no_nul_simps [simp]:
  "no_nul []"
  "no_nul (c # s) \<longleftrightarrow> c \<noteq> NUL \<and> no_nul s"
  "no_nul (s @ t) \<longleftrightarrow> no_nul s \<and> no_nul t"
  by (auto simp: no_nul_def)

lemma strlen_loop_cstr: "no_nul s \<Longrightarrow> strlen_loop (s @ NUL # r) n = Inr (n + of_nat (length s))"
  by (induction s arbitrary: n) (auto simp: algebra_simps)

text \<open>The order \<open>strcmp\<close> computes: lexicographic, a proper prefix first.\<close>

fun str_order :: "string \<Rightarrow> string \<Rightarrow> int" where
  "str_order [] [] = 0"
| "str_order [] (b # t) = - 1"
| "str_order (a # s) [] = 1"
| "str_order (a # s) (b # t) = (if a < b then - 1 else if b < a then 1 else str_order s t)"

lemma NUL_least: "c \<noteq> NUL \<Longrightarrow> NUL < c"
proof -
  assume "c \<noteq> NUL"
  then have "of_char c \<noteq> (of_char NUL :: nat)" by (simp only: of_char_eq_iff not_False_eq_True)
  then show ?thesis by (simp add: less_char_def)
qed

lemma strcmp_loop_order:
  "no_nul s \<Longrightarrow> no_nul t \<Longrightarrow> strcmp_loop (s @ NUL # r) (t @ NUL # r') = Inr (str_order s t)"
proof (induction s t rule: str_order.induct)
  case (4 a s b t)
  then show ?case by (cases "a = b") auto
qed (auto dest: NUL_least simp: less_le_not_le [of _ NUL])

lemma str_order_antisym: "str_order t s = - str_order s t"
  by (induction s t rule: str_order.induct) auto

lemma str_order_zero: "str_order s t = 0 \<longleftrightarrow> s = t"
  by (induction s t rule: str_order.induct) auto

lemma str_order_trans: "str_order s t = - 1 \<Longrightarrow> str_order t u = - 1 \<Longrightarrow> str_order s u = - 1"
proof (induction s t arbitrary: u rule: str_order.induct)
  case (2 b t)
  then show ?case by (cases u) auto
next
  case (4 a s b t)
  then show ?case by (cases u) (auto split: if_splits)
qed auto

section \<open>Numbers in text\<close>

text \<open>The numeral of a number in a base, the reference for \<open>format_int\<close>.\<close>

function num_str :: "nat \<Rightarrow> nat \<Rightarrow> string" where
  "num_str b n = (if b < 2 \<or> n < b then [digit_char (of_nat n)]
     else num_str b (n div b) @ [digit_char (of_nat (n mod b))])"
  by pat_completeness auto
termination
  by (relation "measure snd") auto

declare num_str.simps [simp del]

lemma int_digits_num_str:
  fixes val base :: u64
  assumes "2 \<le> unat base" and "unat val < unat base ^ Suc room"
  shows "int_digits (Suc room) val base acc = Inr (num_str (unat base) (unat val) @ acc)"
  using assms
proof (induction room arbitrary: val acc)
  case 0
  then have "val div base = 0" "val mod base = val" "base \<noteq> 0"
    by (auto simp: word_unat_eq_iff unat_div_distrib unat_mod_distrib)
  with 0 show ?case by (simp add: Let_def num_str.simps [of _ "unat val"])
next
  case (Suc room)
  have b: "base \<noteq> 0" using assms(1) by auto
  have dm: "unat (val div base) = unat val div unat base" "unat (val mod base) = unat val mod unat base"
    by (simp_all add: unat_div_distrib unat_mod_distrib)
  show ?case
  proof (cases "val div base = 0")
    case True
    then have lt: "unat val < unat base" using dm(1) assms(1) by (simp add: div_eq_0_iff)
    then have "val mod base = val" using dm(2) by (simp add: word_unat_eq_iff)
    with True b lt show ?thesis by (simp add: Let_def num_str.simps [of _ "unat val"])
  next
    case False
    then have ge: "\<not> unat val < unat base" using dm(1) by (auto simp: word_unat_eq_iff)
    have "unat (val div base) < unat base ^ Suc room"
      unfolding dm(1) using Suc.prems(2) b by (simp add: less_mult_imp_div_less mult.commute)
    from Suc.IH [OF assms(1) this] False b ge assms(1)
    show ?thesis
      by (simp add: Let_def num_str.simps [of _ "unat val"] dm(1) flip: dm(2)
          del: int_digits.simps(2) add: int_digits.simps(2) [of "Suc room"])
  qed
qed

lemma format_digits_fit:
  fixes val :: u64
  assumes "base = 10 \<or> base = (16 :: u64)"
  shows "int_digits 40 val base [] = Inr (num_str (unat base) (unat val))"
proof -
  have "unat val < 18446744073709551616" by simp
  also have "\<dots> \<le> unat base ^ Suc 39" using assms by auto
  finally have "unat val < unat base ^ Suc 39" .
  moreover have "2 \<le> unat base" using assms by auto
  ultimately show ?thesis using int_digits_num_str [of base val 39 "[]"] by (simp add: eval_nat_numeral)
qed

definition dec_step :: "int \<Rightarrow> char \<Rightarrow> int" where
  "dec_step r c = r * 10 + (code c - code (CHR ''0''))"

definition is_dec_digit :: "char \<Rightarrow> bool" where
  "is_dec_digit c \<longleftrightarrow> CHR ''0'' \<le> c \<and> c \<le> CHR ''9''"

lemma is_dec_digit_code: "is_dec_digit c \<Longrightarrow> 48 \<le> code c \<and> code c \<le> 57"
proof -
  assume "is_dec_digit c"
  then have "48 \<le> (of_char c :: nat)" "(of_char c :: nat) \<le> 57"
    by (simp_all add: is_dec_digit_def less_eq_char_def)
  then have "48 \<le> int (of_char c)" "int (of_char c) \<le> 57" by linarith+
  then show ?thesis by (simp only: of_nat_of_char)
qed

lemma dec_step_mono: "0 \<le> r \<Longrightarrow> \<forall>c \<in> set ds. is_dec_digit c \<Longrightarrow> r \<le> foldl dec_step r ds"
proof (induction ds arbitrary: r)
  case Nil
  then show ?case by simp
next
  case (Cons c ds)
  then have "r \<le> dec_step r c" using is_dec_digit_code [of c] by (simp add: dec_step_def)
  also have "\<dots> \<le> foldl dec_step (dec_step r c) ds"
    using Cons.prems \<open>r \<le> dec_step r c\<close> by (intro Cons.IH) auto
  finally show ?case by simp
qed

lemma parse_int_loop_digits:
  "0 \<le> r \<Longrightarrow> \<forall>c \<in> set ds. is_dec_digit c \<Longrightarrow> foldl dec_step r ds \<le> INT_MAX \<Longrightarrow>
     parse_int_loop (ds @ t) r = parse_int_loop t (foldl dec_step r ds)"
proof (induction ds arbitrary: r)
  case Nil
  then show ?case by simp
next
  case (Cons c ds)
  have d: "is_dec_digit c" using Cons.prems(2) by simp
  then have nn: "0 \<le> dec_step r c" using Cons.prems(1) is_dec_digit_code [of c] by (simp add: dec_step_def)
  with Cons.prems have "dec_step r c \<le> INT_MAX" using dec_step_mono [of "dec_step r c" ds] by simp
  moreover have "c \<noteq> NUL" "\<not> c < CHR ''0''" "\<not> CHR ''9'' < c"
    using d by (auto simp: is_dec_digit_def not_less)
  ultimately show ?case
    using Cons.IH [OF nn] Cons.prems(2,3) by (simp add: dec_step_def Let_def)
qed

lemma code_dec_digit: "n < 10 \<Longrightarrow> code (digit_char (of_nat n)) = int n + 48 \<and> is_dec_digit (digit_char (of_nat n))"
proof -
  assume n: "n < 10"
  then have u: "unat (of_nat n :: u64) = n" by (simp add: unat_of_nat)
  have "(of_nat n :: u64) < 10" using n u by (simp add: word_less_nat_alt)
  then have c: "digit_char (of_nat n) = char_of (n + 48)" using u by (simp add: digit_char_def)
  have "of_char (char_of (n + 48)) = n + 48" using n by (simp add: of_char_of take_bit_nat_eq_self)
  moreover have "code (char_of (n + 48)) = int (of_char (char_of (n + 48)))"
    by (simp only: of_nat_of_char)
  ultimately show ?thesis using n by (simp add: c is_dec_digit_def less_eq_char_def)
qed

lemma foldl_num_str:
  "foldl dec_step 0 (num_str 10 n) = int n \<and> (\<forall>c \<in> set (num_str 10 n). is_dec_digit c)"
proof (induction n rule: less_induct)
  case (less n)
  show ?case
  proof (cases "n < 10")
    case True
    then show ?thesis using code_dec_digit [OF True]
      by (simp add: num_str.simps [of 10 n] dec_step_def)
  next
    case False
    moreover have "int (n div 10) * 10 + int (n mod 10) = int n" by (simp add: zdiv_int zmod_int)
    ultimately show ?thesis using less [of "n div 10"] code_dec_digit [of "n mod 10"]
      by (auto simp: num_str.simps [of 10 n] dec_step_def)
  qed
qed

section \<open>Output through a callback\<close>

definition list_putc :: "string putc" where
  "list_putc c out = Inr (out @ [c])"

lemma rel_bind_res:
  "rel_sum (=) A r r' \<Longrightarrow> (\<And>a b. A a b \<Longrightarrow> rel_sum (=) B (f a) (g b)) \<Longrightarrow>
     rel_sum (=) B (bind_res r f) (bind_res r' g)"
  by (cases r; cases r') auto

lemma rel_bind_same:
  "(\<And>a. rel_sum (=) B (f a) (g a)) \<Longrightarrow> rel_sum (=) B (bind_res r f) (bind_res r g)"
  by (cases r) auto

locale putc_sim =
  fixes putcfn :: "'s putc" and R :: "'s \<Rightarrow> string \<Rightarrow> bool"
  assumes put: "R s out \<Longrightarrow> \<exists>s'. putcfn c s = Inr s' \<and> R s' (out @ [c])"
begin

lemma sim_put: "R s out \<Longrightarrow> rel_sum (=) R (putcfn c s) (list_putc c out)"
  using put [of s out c] by (auto simp: list_putc_def)

lemma sim_put_all: "R s out \<Longrightarrow> rel_sum (=) R (put_all putcfn cs s) (put_all list_putc cs out)"
  unfolding put_all_def
  by (induction cs arbitrary: s out) (auto intro!: rel_bind_res sim_put)

lemma sim_format_int:
  "R s out \<Longrightarrow> rel_sum (=) (rel_prod (=) R) (format_int putcfn val base zpad len s)
     (format_int list_putc val base zpad len out)"
  unfolding format_int_def Let_def
  by (intro rel_bind_same rel_bind_res [of R] sim_put_all) auto

lemma sim_put_str:
  "R s out \<Longrightarrow> rel_sum (=) (rel_prod (=) R) (put_str putcfn cs n s) (put_str list_putc cs n out)"
  by (induction cs arbitrary: n s out) (auto intro!: rel_bind_res [OF sim_put])

lemma sim_format_str:
  "R s out \<Longrightarrow> rel_sum (=) (rel_prod (=) R) (format_str putcfn str len s)
     (format_str list_putc str len out)"
  unfolding format_str_def Let_def
  by (rule rel_bind_res [OF sim_put_str]) (auto intro!: rel_bind_res [OF sim_put_all])

lemma sim_conv_signed:
  "R s out \<Longrightarrow> rel_sum (=) (rel_prod (=) (rel_prod (=) R)) (conv_signed putcfn zpad len lcnt ap s)
     (conv_signed list_putc zpad len lcnt ap out)"
  unfolding conv_signed_def Let_def
  by (rule rel_bind_same)
    (auto simp del: not_less intro!: rel_bind_res [OF sim_put] rel_bind_res [OF sim_format_int])

lemma sim_conv_unsigned:
  "R s out \<Longrightarrow> rel_sum (=) (rel_prod (=) (rel_prod (=) R)) (conv_unsigned putcfn base zpad len lcnt ap s)
     (conv_unsigned list_putc base zpad len lcnt ap out)"
  unfolding conv_unsigned_def Let_def
  by (rule rel_bind_same) (auto intro!: rel_bind_res [OF sim_format_int])

lemma sim_conv_string:
  "R s out \<Longrightarrow> rel_sum (=) (rel_prod (=) (rel_prod (=) R)) (conv_string putcfn len ap s)
     (conv_string list_putc len ap out)"
  unfolding conv_string_def
  by (rule rel_bind_same) (auto intro!: rel_bind_res [OF sim_format_str])

lemma sim_conv_pointer:
  "R s out \<Longrightarrow> rel_sum (=) (rel_prod (=) (rel_prod (=) R)) (conv_pointer putcfn zpad len ap s)
     (conv_pointer list_putc zpad len ap out)"
  unfolding conv_pointer_def
  by (rule rel_bind_same)
    (auto intro!: rel_bind_res [OF sim_format_str] rel_bind_res [OF sim_format_int])

lemma sim_conv_other:
  "R s out \<Longrightarrow> rel_sum (=) (rel_prod (=) (rel_prod (=) R)) (conv_other putcfn spec ap s)
     (conv_other list_putc spec ap out)"
  unfolding conv_other_def
  by (rule rel_bind_res [OF sim_put], assumption, rule rel_bind_res [OF sim_put]) simp_all

lemma sim_conversion:
  "R s out \<Longrightarrow> rel_sum (=) (rel_prod (=) (rel_prod (=) R)) (conversion putcfn spec zpad len lcnt ap s)
     (conversion list_putc spec zpad len lcnt ap out)"
  unfolding conversion_def
  using sim_conv_signed sim_conv_unsigned sim_conv_string sim_conv_pointer sim_conv_other by presburger

lemma sim_vgprintf_loop:
  "R s out \<Longrightarrow> rel_sum (=) (rel_prod (=) R) (vgprintf_loop putcfn fmt ap n s)
     (vgprintf_loop list_putc fmt ap n out)"
proof (induction "length fmt" arbitrary: fmt ap n s out rule: less_induct)
  case less
  show ?case
  proof (cases fmt)
    case Nil
    then show ?thesis by simp
  next
    case (Cons c p)
    have spec: "rel_sum (=) (rel_prod (=) R)
        (case parse_spec p of Inl e \<Rightarrow> Inl e | Inr (zpad, len, lcnt, p') \<Rightarrow>
           (case p' of [] \<Rightarrow> Inl UndefinedAccess
            | d # q \<Rightarrow> bind_res (conversion putcfn d zpad len lcnt ap s) (\<lambda>(n', ap, s).
               vgprintf_loop putcfn (if d = NUL then p' else q) ap (n + n') s)))
        (case parse_spec p of Inl e \<Rightarrow> Inl e | Inr (zpad, len, lcnt, p') \<Rightarrow>
           (case p' of [] \<Rightarrow> Inl UndefinedAccess
            | d # q \<Rightarrow> bind_res (conversion list_putc d zpad len lcnt ap out) (\<lambda>(n', ap, s).
               vgprintf_loop list_putc (if d = NUL then p' else q) ap (n + n') s)))"
    proof (cases "parse_spec p")
      case (Inr r)
      then obtain z l k p' where r: "r = (z, l, k, p')" by (cases r) auto
      with Inr have len: "length p' < length fmt" using parse_spec_length Cons by fastforce
      show ?thesis
      proof (cases p')
        case (Cons d q)
        with len less.hyps show ?thesis
          by (auto simp: Inr r intro!: rel_bind_res [OF sim_conversion [OF less.prems]])
      qed (simp add: Inr r)
    qed simp
    have plain: "rel_sum (=) (rel_prod (=) R)
        (bind_res (putcfn c s) (\<lambda>s. vgprintf_loop putcfn p ap (n + 1) s))
        (bind_res (list_putc c out) (\<lambda>s. vgprintf_loop list_putc p ap (n + 1) s))"
      using less.hyps [of p] Cons by (intro rel_bind_res [OF sim_put [OF less.prems]]) auto
    show ?thesis
      using spec plain less.prems unfolding Cons vgprintf_loop.simps
      by (simp add: bind_res_def [of "parse_spec p"])
  qed
qed

end

section \<open>vsnprintf\<close>

text \<open>After the characters \<open>out\<close> have been written: the state of \<open>vsnprintf\<close>.\<close>

definition vsn_rel :: "string \<Rightarrow> u64 \<Rightarrow> vsnprintf_state \<Rightarrow> string \<Rightarrow> bool" where
  "vsn_rel buf bufsz st out \<longleftrightarrow>
     unat bufsz \<le> length buf \<and>
     (let k = min (length out) (unat bufsz - 1) in
      vs_pos st = k \<and> vs_buf st = take k out @ drop k buf \<and> vs_rem st = bufsz - of_nat k)"

interpretation vsn: putc_sim vsnprintf_putc "vsn_rel buf bufsz" for buf bufsz
proof
  fix s out c
  assume R: "vsn_rel buf bufsz s out"
  define k where "k = min (length out) (unat bufsz - 1)"
  have le: "unat bufsz \<le> length buf" and s: "vs_pos s = k" "vs_buf s = take k out @ drop k buf"
    "vs_rem s = bufsz - of_nat k"
    using R by (auto simp: vsn_rel_def k_def Let_def)
  have kle: "k \<le> unat bufsz" by (simp add: k_def)
  then have "k < 18446744073709551616" using unat_word64_less [of bufsz] by linarith
  then have "unat (of_nat k :: u64) = k" by (simp add: unat_of_nat)
  then have r: "unat (vs_rem s) = unat bufsz - k"
    using kle by (simp add: s(3) unat_minus_if word_le_nat_alt)
  show "\<exists>s'. vsnprintf_putc c s = Inr s' \<and> vsn_rel buf bufsz s' (out @ [c])"
  proof (cases "vs_rem s \<le> 1")
    case True
    then have full: "unat bufsz - 1 \<le> length out" using r by (auto simp: word_le_nat_alt k_def)
    then have "k = unat bufsz - 1" by (simp add: k_def)
    with full True R show ?thesis
      by (auto simp: vsnprintf_putc_def vsn_rel_def Let_def min_def split: if_splits)
  next
    case False
    then have "1 < unat bufsz - k" using r by (simp add: word_le_nat_alt not_le word_less_nat_alt)
    then have out: "k = length out" "Suc k \<le> unat bufsz - 1" by (auto simp: k_def)
    have "length (vs_buf s) = length buf" using le by (simp add: s k_def min_def)
    moreover have "k < length buf" using out(2) le by simp
    moreover have "(out @ drop k buf)[k := c] = out @ c # drop (Suc k) buf"
      using \<open>k < length buf\<close> out(1) by (simp add: list_update_append Cons_nth_drop_Suc [symmetric])
    ultimately show ?thesis
      using False le out(2) by (auto simp: vsnprintf_putc_def vsn_rel_def Let_def s min_def simp flip: out(1))
  qed
qed

subsection \<open>The return value counts the characters\<close>

definition counts :: "string \<Rightarrow> u64 \<Rightarrow> (u64 \<times> string) res \<Rightarrow> bool" where
  "counts out n r \<longleftrightarrow> (\<forall>n' out'. r = Inr (n', out') \<longrightarrow>
     (\<exists>w. out' = out @ w \<and> n' = n + of_nat (length w)))"

lemma counts_Inl [simp]: "counts out n (Inl e)"
  by (simp add: counts_def)

lemma put_all_list [simp]: "put_all list_putc cs out = Inr (out @ cs)"
  unfolding put_all_def by (induction cs arbitrary: out) (auto simp: list_putc_def)

lemma counts_format_int: "counts out 0 (format_int list_putc val base zpad len out)"
  by (auto simp: counts_def format_int_def bind_res_Inr_conv Let_def)

lemma counts_put_str: "counts out n (put_str list_putc cs n out)"
proof (induction cs arbitrary: n out)
  case Nil
  then show ?case by (simp add: counts_def)
next
  case (Cons c cs)
  show ?case
    using Cons [of "out @ [c]" "n + 1"] by (fastforce simp: counts_def list_putc_def)
qed

lemma counts_format_str: "counts out 0 (format_str list_putc str len out)"
proof (cases "put_str list_putc (case str of None \<Rightarrow> ''(null)'' @ [NUL] | Some cs \<Rightarrow> cs) 0 out")
  case (Inl e)
  then show ?thesis by (simp add: format_str_def counts_def)
next
  case (Inr r)
  then obtain n w where r: "r = (n, out @ w)" "n = of_nat (length w)"
    using counts_put_str [of out 0] unfolding counts_def by (metis add_0 surj_pair)
  have "ucast m = (of_nat (unat m) :: u64)" for m :: u32 by simp
  then show ?thesis
    using Inr r by (auto simp: format_str_def counts_def Let_def)
qed

definition counts_conv :: "string \<Rightarrow> (u64 \<times> vaarg list \<times> string) res \<Rightarrow> bool" where
  "counts_conv out r \<longleftrightarrow> (\<forall>n' ap' out'. r = Inr (n', ap', out') \<longrightarrow>
     (\<exists>w. out' = out @ w \<and> n' = of_nat (length w)))"

lemma counts_conversion: "counts_conv out (conversion list_putc spec zpad len lcnt ap out)"
proof -
  have int: "\<exists>w. out' = out @ w \<and> n = of_nat (length w)"
    if "format_int list_putc val base zpad len out = Inr (n, out')" for val base len out out' n
    using counts_format_int that unfolding counts_def by fastforce
  have str: "\<exists>w. out' = out @ w \<and> n = of_nat (length w)"
    if "format_str list_putc str len out = Inr (n, out')" for str len out out' n
    using counts_format_str that unfolding counts_def by fastforce
  have "counts_conv out (conv_signed list_putc zpad len lcnt ap out)"
    unfolding counts_conv_def conv_signed_def Let_def
    by (fastforce simp: bind_res_Inr_conv list_putc_def split: if_splits dest!: int)
  moreover have "counts_conv out (conv_unsigned list_putc base zpad len lcnt ap out)" for base
    unfolding counts_conv_def conv_unsigned_def Let_def
    by (fastforce simp: bind_res_Inr_conv dest!: int)
  moreover have "counts_conv out (conv_string list_putc len ap out)"
    unfolding counts_conv_def conv_string_def by (fastforce simp: bind_res_Inr_conv dest!: str)
  moreover have "counts_conv out (conv_pointer list_putc zpad len ap out)"
    unfolding counts_conv_def conv_pointer_def
    by (fastforce simp: bind_res_Inr_conv dest!: str int)
  moreover have "counts_conv out (conv_other list_putc spec ap out)"
    unfolding counts_conv_def conv_other_def by (auto simp: list_putc_def)
  ultimately show ?thesis by (simp add: conversion_def)
qed

lemma counts_vgprintf_loop: "counts out n (vgprintf_loop list_putc fmt ap n out)"
proof (induction "length fmt" arbitrary: fmt ap n out rule: less_induct)
  case less
  show ?case
  proof (cases fmt)
    case Nil
    then show ?thesis by (simp add: counts_def)
  next
    case (Cons c p)
    have plain: "counts out n (vgprintf_loop list_putc p ap (n + 1) (out @ [c]))"
      using less [of p] Cons by (fastforce simp: counts_def)
    have "counts out n (bind_res (conversion list_putc d z l k ap out) (\<lambda>(n', ap, s).
        vgprintf_loop list_putc q ap (n + n') s))" if "length q < length fmt" for d z l k q
      using less [OF that] counts_conversion [of out d z l k ap]
      unfolding counts_def counts_conv_def by (fastforce simp: bind_res_Inr_conv)
    then have spec: "counts out n (case p' of [] \<Rightarrow> Inl UndefinedAccess
        | d # q \<Rightarrow> bind_res (conversion list_putc d z l k ap out) (\<lambda>(n', ap, s).
              vgprintf_loop list_putc (if d = NUL then p' else q) ap (n + n') s))"
      if "length p' \<le> length p" for p' z l k
      using that Cons by (cases p') auto
    show ?thesis
    proof (cases "parse_spec p")
      case (Inl e)
      then show ?thesis using plain by (simp add: Cons counts_def list_putc_def)
    next
      case (Inr r)
      obtain z l k p' where r: "r = (z, l, k, p')" by (cases r) auto
      then show ?thesis
        using plain spec [of p' z l k] parse_spec_length [of p z l k p'] Inr
        by (simp add: Cons counts_def list_putc_def)
    qed
  qed
qed

section \<open>Tokens\<close>

lemma strchr_loop_cstr:
  "no_nul s \<Longrightarrow> c \<notin> set s \<Longrightarrow> strchr_loop (s @ NUL # r) c i = Inr None"
  "no_nul s \<Longrightarrow> c \<notin> set s \<Longrightarrow> c \<noteq> NUL \<Longrightarrow> strchr_loop (s @ c # r) c i = Inr (Some (i + length s))"
  by (induction s arbitrary: i) auto

lemma is_delim_cstr:
  assumes "no_nul dl"
  shows "is_delim (dl @ NUL # r) c = Inr (c \<in> set dl)"
proof (cases "c \<in> set dl")
  case True
  then obtain s t where dl: "dl = s @ c # t" "c \<notin> set s" by (meson split_list_first)
  with assms have "strchr_loop (dl @ NUL # r) c 0 = Inr (Some (length s))"
    using strchr_loop_cstr(2) [of s c "t @ NUL # r" 0] by simp
  with True show ?thesis by (simp add: is_delim_def strchr_def)
next
  case False
  with assms show ?thesis by (simp add: is_delim_def strchr_def strchr_loop_cstr(1))
qed

lemma skip_delims_ok:
  assumes "no_nul dl" and "x \<notin> set dl"
  shows "set ds \<subseteq> set dl \<Longrightarrow> skip_delims (dl @ NUL # r) (ds @ x # t) i = Inr (i + length ds)"
proof (induction ds arbitrary: i)
  case Nil
  then show ?case using assms by (simp add: is_delim_cstr)
next
  case (Cons c ds)
  then have "c \<noteq> NUL" using assms(1) by (auto simp: no_nul_def)
  with Cons assms show ?case by (simp add: is_delim_cstr)
qed

lemma skip_token_ok:
  assumes "no_nul dl" and "x \<in> set dl \<or> x = NUL"
  shows "no_nul tok \<Longrightarrow> set tok \<inter> set dl = {} \<Longrightarrow>
    skip_token (dl @ NUL # r) (tok @ x # t) i = Inr (i + length tok)"
proof (induction tok arbitrary: i)
  case Nil
  then show ?case using assms by (auto simp: is_delim_cstr)
next
  case (Cons c tok)
  with assms show ?case by (simp add: is_delim_cstr)
qed

section \<open>Correctness properties\<close>

text \<open>
  \<open>strcmp\<close> on null-terminated strings computes the lexicographic order: it returns 0 exactly
  for equal strings, is antisymmetric and transitive, and never reads past a terminator.
\<close>

theorem strcmp_correct:
  assumes "no_nul s" and "no_nul t" and "no_nul u"
  shows "strcmp (Some (s @ NUL # r)) (Some (t @ NUL # r')) = Inr (str_order s t) \<and>
    (strcmp (Some (s @ NUL # r)) (Some (t @ NUL # r')) = Inr 0 \<longleftrightarrow> s = t) \<and>
    strcmp (Some (t @ NUL # r')) (Some (s @ NUL # r)) = Inr (- str_order s t) \<and>
    (strcmp (Some (s @ NUL # r)) (Some (t @ NUL # r')) = Inr (- 1) \<longrightarrow>
     strcmp (Some (t @ NUL # r')) (Some (u @ NUL # r'')) = Inr (- 1) \<longrightarrow>
     strcmp (Some (s @ NUL # r)) (Some (u @ NUL # r'')) = Inr (- 1))"
  using assms str_order_trans [of s t u]
  by (auto simp: strcmp_def strcmp_loop_order str_order_zero str_order_antisym [of t s])

theorem strcmp_witness:
  "strcmp (Some (''ls'' @ NUL # ''x'')) (Some (''lsx'' @ NUL # [])) = Inr (- 1)"
  using strcmp_correct [of "''ls''" "''lsx''" "''m''" "''x''" "[]" "[]"] by simp

text \<open>What the buffer holds afterwards.\<close>

lemma vsnprintf_ok:
  assumes "unat bufsz \<le> length buf"
  shows "vsnprintf buf bufsz fmt ap =
    (case vgprintf list_putc fmt ap [] of
       Inl e \<Rightarrow> Inl e
     | Inr (n, out) \<Rightarrow>
         let k = min (length out) (unat bufsz - 1) in
         Inr (of_nat (length out), if bufsz = 0 then buf else take k out @ NUL # drop (Suc k) buf))"
proof -
  let ?st = "\<lparr>vs_buf = buf, vs_pos = 0, vs_rem = bufsz\<rparr>"
  have "vsn_rel buf bufsz ?st []" using assms by (simp add: vsn_rel_def)
  then have rel: "rel_sum (=) (rel_prod (=) (vsn_rel buf bufsz)) (vgprintf vsnprintf_putc fmt ap ?st)
      (vgprintf list_putc fmt ap [])"
    unfolding vgprintf_def by (rule vsn.sim_vgprintf_loop)
  show ?thesis
  proof (cases "vgprintf list_putc fmt ap []")
    case (Inl e)
    with rel show ?thesis by (cases "vgprintf vsnprintf_putc fmt ap ?st") (auto simp: vsnprintf_def)
  next
    case (Inr r)
    then obtain n out where r: "vgprintf list_putc fmt ap [] = Inr (n, out)" by (cases r) auto
    then have n: "n = of_nat (length out)"
      using counts_vgprintf_loop [of "[]" 0 fmt ap] by (simp add: counts_def vgprintf_def)
    define k where "k = min (length out) (unat bufsz - 1)"
    from rel r obtain st where st: "vgprintf vsnprintf_putc fmt ap ?st = Inr (n, st)"
      and R: "vsn_rel buf bufsz st out"
      by (cases "vgprintf vsnprintf_putc fmt ap ?st") auto
    have s: "vs_pos st = k" "vs_buf st = take k out @ drop k buf" "vs_rem st = bufsz - of_nat k"
      using R by (auto simp: vsn_rel_def k_def Let_def)
    show ?thesis
    proof (cases "bufsz = 0")
      case True
      then show ?thesis using st r n s by (simp add: vsnprintf_def k_def)
    next
      case False
      then have lt: "k < unat bufsz" using unat_gt_0 [of bufsz] by (auto simp: k_def)
      then have "k < 18446744073709551616" using unat_word64_less [of bufsz] by linarith
      then have "unat (of_nat k :: u64) = k" by (simp add: unat_of_nat)
      then have rem: "vs_rem st \<noteq> 0" using lt s(3) by auto
      have "(take k out @ drop k buf)[k := NUL] = take k out @ NUL # drop (Suc k) buf"
        using lt assms by (simp add: list_update_append k_def Cons_nth_drop_Suc [symmetric])
      moreover have "\<not> length (take k out @ drop k buf) \<le> k" using lt assms by (auto simp: k_def)
      ultimately have "vsnprintf buf bufsz fmt ap = Inr (n, take k out @ NUL # drop (Suc k) buf)"
        using st s rem by (simp add: vsnprintf_def)
      then show ?thesis using r n False by (simp add: k_def Let_def)
    qed
  qed
qed

text \<open>
  C29. \<open>vsnprintf\<close> into a buffer of at least \<open>bufsz\<close> bytes never writes outside the first \<open>bufsz\<close>
  bytes: the buffer receives the longest prefix of the formatted text that leaves room for
  the terminator, then NUL, and keeps its remaining bytes; the result is the length of the
  whole text, also when it was cut.
\<close>

theorem vsnprintf_correct:
  assumes "unat bufsz \<le> length buf"
  shows "vsnprintf buf bufsz fmt ap =
    (case vgprintf list_putc fmt ap [] of
       Inl e \<Rightarrow> Inl e
     | Inr (n, out) \<Rightarrow>
         let k = min (length out) (unat bufsz - 1) in
         Inr (of_nat (length out), if bufsz = 0 then buf else take k out @ NUL # drop (Suc k) buf))"
  by (rule vsnprintf_ok [OF assms])

theorem vsnprintf_witness:
  "vsnprintf ''........'' 6 (''%d-%s'' @ [NUL]) [VWord 42, VStr (Some (''abc'' @ [NUL]))]
     = Inr (6, ''42-ab'' @ [NUL, CHR ''.'', CHR ''.''])"
proof -
  have "vgprintf list_putc (''%d-%s'' @ [NUL]) [VWord 42, VStr (Some (''abc'' @ [NUL]))] [] =
      Inr (6, ''42-abc'')"
    by code_simp
  with vsnprintf_correct [of 6 "''........''"] show ?thesis by simp
qed

text \<open>
  C30. Printing and parsing are inverse: \<open>format_int\<close> in base 10 writes the padding and then the
  decimal numeral without overrunning its buffer of 40 bytes, and \<open>parse_int\<close> reads the
  numeral of every value up to \<open>INT_MAX\<close> back.
\<close>

theorem format_int_parse_int:
  assumes "uint val \<le> INT_MAX"
  shows "format_int list_putc val 10 zpad len [] =
      Inr (of_nat (max (unat len) (length (num_str 10 (unat val)))),
           replicate (unat len - length (num_str 10 (unat val))) (if zpad then CHR ''0'' else CHR '' '')
           @ num_str 10 (unat val))
    \<and> parse_int (num_str 10 (unat val) @ NUL # r) = Inr (uint val)"
proof -
  have "foldl dec_step 0 (num_str 10 (unat val)) = uint val" using foldl_num_str [of "unat val"] by simp
  with foldl_num_str [of "unat val"] assms
  have "parse_int (num_str 10 (unat val) @ NUL # r) = Inr (uint val)"
    unfolding parse_int_def by (subst parse_int_loop_digits) auto
  moreover have "unat len - n + n = max (unat len) n" for n by simp
  ultimately show ?thesis
    using format_digits_fit [of 10 val] by (simp add: format_int_def Let_def del: of_nat_add)
qed

theorem format_int_parse_int_witness:
  "parse_int (num_str 10 (unat (2147483647 :: u64)) @ NUL # []) = Inr 2147483647"
  using format_int_parse_int [of 2147483647 False 0 "[]"] by (simp add: INT_MAX_def)

text \<open>
  \<open>strtok\<close> returns the next token: leading delimiters are skipped, the token is the longest
  run without a delimiter, the delimiter after it is overwritten by NUL and the next call
  continues behind it; a token ended by the terminator is the last one.
\<close>

theorem strtok_next_token:
  assumes "no_nul dl" and "set ds \<subseteq> set dl" and "tok \<noteq> []" and "no_nul tok" and "set tok \<inter> set dl = {}"
    and "x \<in> set dl \<or> x = NUL"
  shows "strtok False (dl @ NUL # r) (pre @ ds @ tok @ x # t, Some (length pre)) =
    Inr (Some (length pre + length ds), pre @ ds @ tok @ NUL # t,
         if x = NUL then None else Some (length pre + length ds + length tok + 1))"
proof -
  let ?buf = "pre @ ds @ tok @ x # t" and ?D = "dl @ NUL # r"
  obtain y tok' where tok: "tok = y # tok'" using assms(3) by (cases tok) auto
  have "skip_delims ?D (drop (length pre) ?buf) (length pre) = Inr (length pre + length ds)"
    using skip_delims_ok [of dl y ds r "tok' @ x # t"] assms by (simp add: tok)
  moreover have "?buf ! (length pre + length ds) \<noteq> NUL"
    using assms(4) by (simp add: nth_append tok)
  moreover have "skip_token ?D (drop (length pre + length ds) ?buf) (length pre + length ds) =
      Inr (length pre + length ds + length tok)"
    using skip_token_ok [OF assms(1,6,4,5)] by simp
  moreover have "?buf ! (length pre + length ds + length tok) = x"
    by (simp add: nth_append)
  moreover have "?buf[length pre + length ds + length tok := NUL] = pre @ ds @ tok @ NUL # t"
    by (simp add: list_update_append)
  ultimately show ?thesis by (auto simp: strtok_def Let_def)
qed

theorem strtok_witness:
  "strtok False ('' '' @ NUL # []) (''cat '' @ ''  '' @ ''a.txt'' @ CHR '' '' # ''b'' @ [NUL], Some 4) =
     Inr (Some 6, ''cat '' @ ''  '' @ ''a.txt'' @ NUL # ''b'' @ [NUL], Some 12)"
  using strtok_next_token [of "'' ''" "''  ''" "''a.txt''" "CHR '' ''" "[]" "''cat ''" "''b'' @ [NUL]"]
  by (simp add: eval_nat_numeral)

end
