(* ===== verification/Thread.thy ===== *)
theory Thread
  imports Memory Queue
begin

text \<open>
  Threads, scheduling, condition variables and sleep locks: \<open>kern/thread.c\<close>, \<open>kern/lock.h\<close> and
  the interrupt enable bit of \<open>kern/intr.h\<close>.

  Thread structures live in a store indexed by thread pointers; the thread lists are linked
  through the \<open>list_next\<close> member as in the code, so that the list operations have to preserve
  the links of all lists. Condition variables are named by what contains them: the
  \<open>child_exit\<close> member of a thread or one of the condition variables of the drivers and locks.

  A context switch changes which thread runs. \<open>suspend_self\<close> is modelled up to the point where
  the resumed thread continues with its own code: the part before \<open>_thread_swtch\<close> runs in the
  suspending thread, the part after it in the resumed thread, which restores the interrupt
  state it saved when it was suspended; a thread that has not run yet starts in its entry
  function instead and skips that part. Register contexts (\<open>thrasm.s\<close>) are not modelled.
\<close>

section \<open>Data\<close>

datatype tptr = MainThread | IdleThread | DynThread u64

datatype cptr = ChildExit tptr | DevCond nat

datatype thread_state =
    THREAD_UNINITIALIZED | THREAD_STOPPED | THREAD_WAITING | THREAD_RUNNING | THREAD_READY
  | THREAD_EXITED

record thread =
  t_name :: string
  stack_base :: u64
  stack_size :: u64
  t_state :: thread_state
  t_id :: int
  t_proc :: "nat option"
  t_parent :: "tptr option"
  list_next :: "tptr option"
  wait_cond :: "cptr option"

record thread_list =
  tl_head :: "tptr option"
  tl_tail :: "tptr option"

type_synonym thrstore = "tptr \<Rightarrow> thread option"

record ts = vm +
  thrs :: thrstore
  thrtab :: "tptr option list"
  ready_list :: thread_list
  conds :: "cptr \<Rightarrow> thread_list"
  curthr :: tptr
  sie :: bool
  resume_sie :: "tptr \<Rightarrow> bool option"
  proc_mtag :: "nat \<Rightarrow> u64"
  thrmgr_initialized :: bool

definition NTHR :: nat where "NTHR = 16"
definition MAIN_TID :: nat where "MAIN_TID = 0"
definition IDLE_TID :: nat where "IDLE_TID = NTHR - 1"

section \<open>Access to thread structures\<close>

definition deref :: "thrstore \<Rightarrow> tptr option \<Rightarrow> thread res" where
  "deref h p = (case p of None \<Rightarrow> Inl UndefinedAccess
     | Some q \<Rightarrow> (case h q of None \<Rightarrow> Inl UndefinedAccess | Some t \<Rightarrow> Inr t))"

definition modify :: "tptr option \<Rightarrow> (thread \<Rightarrow> thread) \<Rightarrow> thrstore \<Rightarrow> thrstore res" where
  "modify p f h = (case p of None \<Rightarrow> Inl UndefinedAccess
     | Some q \<Rightarrow> (case h q of None \<Rightarrow> Inl UndefinedAccess | Some t \<Rightarrow> Inr (h(q \<mapsto> f t))))"

lemma deref_Some [simp]: "h q = Some t \<Longrightarrow> deref h (Some q) = Inr t"
  by (simp add: deref_def)

lemma modify_Some [simp]: "h q = Some t \<Longrightarrow> modify (Some q) f h = Inr (h(q \<mapsto> f t))"
  by (simp add: modify_def)

lemma deref_modify_None [simp]: "deref h None = Inl UndefinedAccess" "modify None f h = Inl UndefinedAccess"
  by (simp_all add: deref_def modify_def)

section \<open>Thread lists\<close>

definition tlclear :: thread_list where
  "tlclear = \<lparr>tl_head = None, tl_tail = None\<rparr>"

definition tlempty :: "thread_list \<Rightarrow> bool" where
  "tlempty l = (tl_head l = None)"

definition tlinsert :: "thread_list \<Rightarrow> tptr option \<Rightarrow> thrstore \<Rightarrow> (thread_list \<times> thrstore) res" where
  "tlinsert l thr h =
     bind_res (modify thr (list_next_update (\<lambda>_. None)) h) (\<lambda>h.
       if thr = None then Inr (l, h)
       else if tl_tail l \<noteq> None then
         bind_res (check (tl_head l \<noteq> None) AssertFailed) (\<lambda>_.
           bind_res (modify (tl_tail l) (list_next_update (\<lambda>_. thr)) h) (\<lambda>h.
             Inr (l\<lparr>tl_tail := thr\<rparr>, h)))
       else
         bind_res (check (tl_head l = None) AssertFailed) (\<lambda>_.
           Inr (l\<lparr>tl_head := thr, tl_tail := thr\<rparr>, h)))"

definition tlremove :: "thread_list \<Rightarrow> thrstore \<Rightarrow> (tptr option \<times> thread_list \<times> thrstore) res" where
  "tlremove l h =
     (let thr = tl_head l in
      if thr = None then Inr (None, l, h)
      else bind_res (deref h thr) (\<lambda>t.
        let l = l\<lparr>tl_head := list_next t\<rparr>;
            l = (if tl_head l = None then l\<lparr>tl_tail := None\<rparr> else l)
        in bind_res (modify thr (list_next_update (\<lambda>_. None)) h) (\<lambda>h. Inr (thr, l, h))))"

definition tlappend ::
    "thread_list \<Rightarrow> thread_list \<Rightarrow> thrstore \<Rightarrow> (thread_list \<times> thread_list \<times> thrstore) res" where
  "tlappend l0 l1 h =
     (if tl_head l0 \<noteq> None then
        bind_res (check (tl_tail l0 \<noteq> None) AssertFailed) (\<lambda>_.
          if tl_head l1 \<noteq> None then
            bind_res (check (tl_tail l1 \<noteq> None) AssertFailed) (\<lambda>_.
              bind_res (modify (tl_tail l0) (list_next_update (\<lambda>_. tl_head l1)) h) (\<lambda>h.
                Inr (l0\<lparr>tl_tail := tl_tail l1\<rparr>, tlclear, h)))
          else Inr (l0, tlclear, h))
      else
        bind_res (check (tl_tail l0 = None) AssertFailed) (\<lambda>_.
          Inr (l0\<lparr>tl_head := tl_head l1, tl_tail := tl_tail l1\<rparr>, tlclear, h)))"

section \<open>Thread lists are queues\<close>

fun chain :: "thrstore \<Rightarrow> tptr option \<Rightarrow> tptr list \<Rightarrow> tptr option \<Rightarrow> bool" where
  "chain h p [] e \<longleftrightarrow> p = e"
| "chain h p (x # xs) e \<longleftrightarrow> p = Some x \<and> (\<exists>t. h x = Some t \<and> chain h (list_next t) xs e)"

definition tlist :: "thrstore \<Rightarrow> thread_list \<Rightarrow> tptr list \<Rightarrow> bool" where
  "tlist h l xs \<longleftrightarrow> chain h (tl_head l) xs None \<and> distinct xs \<and>
     tl_tail l = (if xs = [] then None else Some (last xs))"

lemma chain_append: "chain h p (xs @ ys) e \<longleftrightarrow> (\<exists>q. chain h p xs q \<and> chain h q ys e)"
  by (induction xs arbitrary: p) auto

lemma chain_in_store: "chain h p xs e \<Longrightarrow> x \<in> set xs \<Longrightarrow> \<exists>t. h x = Some t"
  by (induction xs arbitrary: p) auto

text \<open>Two stores agree on the links of the threads in \<open>X\<close>.\<close>

definition same_links :: "tptr set \<Rightarrow> thrstore \<Rightarrow> thrstore \<Rightarrow> bool" where
  "same_links X h h' \<longleftrightarrow> (\<forall>x \<in> X. map_option list_next (h' x) = map_option list_next (h x))"

lemma same_links_mono: "same_links X h h' \<Longrightarrow> Y \<subseteq> X \<Longrightarrow> same_links Y h h'"
  by (auto simp: same_links_def)

lemma same_links_trans: "same_links X h h' \<Longrightarrow> same_links X h' h'' \<Longrightarrow> same_links X h h''"
  by (simp add: same_links_def)

lemma chain_cong: "same_links (set xs) h h' \<Longrightarrow> chain h' p xs e = chain h p xs e"
proof (induction xs arbitrary: p)
  case Nil
  then show ?case by simp
next
  case (Cons x xs)
  then have "map_option list_next (h' x) = map_option list_next (h x)" "same_links (set xs) h h'"
    by (auto simp: same_links_def)
  with Cons.IH show ?case by (cases "h x"; cases "h' x") auto
qed

lemma tlist_cong: "same_links (set xs) h h' \<Longrightarrow> tlist h' l xs = tlist h l xs"
  by (simp add: tlist_def chain_cong)

lemma tlist_Nil [simp]: "tlist h l [] \<longleftrightarrow> l = tlclear"
  by (cases l) (auto simp: tlist_def tlclear_def)

lemma tlist_head: "tlist h l xs \<Longrightarrow> tl_head l = (case xs of [] \<Rightarrow> None | x # _ \<Rightarrow> Some x)"
  by (cases xs) (auto simp: tlist_def)

lemma tlempty_tlist: "tlist h l xs \<Longrightarrow> tlempty l \<longleftrightarrow> xs = []"
  by (auto simp: tlempty_def tlist_head split: list.splits)

lemma tlist_snoc_last:
  assumes "chain h p xs None" and "distinct xs" and "xs \<noteq> []" and "h (last xs) = Some t"
  shows "chain (h(last xs \<mapsto> t\<lparr>list_next := e\<rparr>)) p xs e"
  using assms
proof (induction xs arbitrary: p)
  case Nil
  then show ?case by simp
next
  case (Cons x xs)
  show ?case
  proof (cases "xs = []")
    case True
    with Cons.prems show ?thesis by auto
  next
    case False
    with Cons show ?thesis by auto
  qed
qed

lemma tlinsert_ok:
  assumes l: "tlist h l xs" and thr: "h thr = Some t" "thr \<notin> set xs"
  shows "\<exists>l' h'. tlinsert l (Some thr) h = Inr (l', h') \<and> tlist h' l' (xs @ [thr]) \<and>
    same_links (- set (xs @ [thr])) h h' \<and>
    (\<forall>x. map_option (list_next_update (\<lambda>_. None)) (h' x) = map_option (list_next_update (\<lambda>_. None)) (h x))"
proof -
  let ?h = "h(thr \<mapsto> t\<lparr>list_next := None\<rparr>)"
  have c: "chain h (tl_head l) xs None" "distinct xs" using l by (auto simp: tlist_def)
  have "same_links (set xs) h ?h" using thr(2) by (auto simp: same_links_def)
  then have c1: "chain ?h (tl_head l) xs None" using c(1) chain_cong by blast
  show ?thesis
  proof (cases "xs = []")
    case True
    with l have "l = tlclear" by simp
    with True thr show ?thesis
      by (auto simp: tlinsert_def tlclear_def tlist_def same_links_def)
  next
    case False
    let ?y = "last xs"
    have y: "?y \<in> set xs" "?y \<noteq> thr" using False thr(2) by auto
    then obtain u where u: "?h ?y = Some u" using chain_in_store [OF c1] by blast
    let ?h' = "?h(?y \<mapsto> u\<lparr>list_next := Some thr\<rparr>)"
    have tl: "tl_tail l = Some ?y" "tl_head l \<noteq> None"
      using l False by (auto simp: tlist_def tlist_head [OF l] split: list.splits)
    have run: "tlinsert l (Some thr) h = Inr (l\<lparr>tl_tail := Some thr\<rparr>, ?h')"
      using thr(1) tl u by (simp add: tlinsert_def)
    have "chain ?h' (tl_head l) xs (Some thr)" by (rule tlist_snoc_last [OF c1 c(2) False u])
    moreover have "?h' thr = Some (t\<lparr>list_next := None\<rparr>)" using y(2) by simp
    ultimately have "chain ?h' (tl_head l) (xs @ [thr]) None" by (auto simp: chain_append)
    with c(2) thr(2) have "tlist ?h' (l\<lparr>tl_tail := Some thr\<rparr>) (xs @ [thr])" by (simp add: tlist_def)
    moreover have "same_links (- set (xs @ [thr])) h ?h'" using y by (auto simp: same_links_def)
    moreover have "map_option (list_next_update (\<lambda>_. None)) (?h' x) =
        map_option (list_next_update (\<lambda>_. None)) (h x)" for x
      using thr(1) u y(2) by auto
    ultimately show ?thesis using run by blast
  qed
qed

lemma tlremove_ok:
  assumes l: "tlist h l (x # xs)"
  shows "\<exists>l' t. tlremove l h = Inr (Some x, l', h(x \<mapsto> t\<lparr>list_next := None\<rparr>)) \<and> h x = Some t \<and>
    tlist (h(x \<mapsto> t\<lparr>list_next := None\<rparr>)) l' xs"
proof -
  obtain t where t: "h x = Some t" "chain h (list_next t) xs None" and d: "x \<notin> set xs" "distinct xs"
    and hd: "tl_head l = Some x" and tl: "tl_tail l = Some (last (x # xs))"
    using l by (auto simp: tlist_def)
  let ?h = "h(x \<mapsto> t\<lparr>list_next := None\<rparr>)"
  let ?l = "l\<lparr>tl_head := list_next t\<rparr>"
  let ?l' = "if list_next t = None then ?l\<lparr>tl_tail := None\<rparr> else ?l"
  have "same_links (set xs) h ?h" using d(1) by (auto simp: same_links_def)
  then have "chain ?h (list_next t) xs None" using t(2) chain_cong by blast
  moreover have "list_next t = None \<longleftrightarrow> xs = []" using t(2) by (cases xs) auto
  ultimately have "tlist ?h ?l' xs" using d(2) tl by (auto simp: tlist_def)
  moreover have "tlremove l h = Inr (Some x, ?l', ?h)" using hd t(1) by (simp add: tlremove_def Let_def)
  ultimately show ?thesis using t(1) by blast
qed

lemma tlremove_empty: "tlist h l [] \<Longrightarrow> tlremove l h = Inr (None, l, h)"
  by (simp add: tlremove_def tlclear_def)

lemma tlappend_ok:
  assumes l0: "tlist h l0 xs" and l1: "tlist h l1 ys" and dis: "set xs \<inter> set ys = {}"
  shows "\<exists>l' h'. tlappend l0 l1 h = Inr (l', tlclear, h') \<and> tlist h' l' (xs @ ys) \<and>
    same_links (- set (xs @ ys)) h h' \<and>
    (\<forall>x. map_option (list_next_update (\<lambda>_. None)) (h' x) = map_option (list_next_update (\<lambda>_. None)) (h x))"
proof (cases "xs = [] \<or> ys = []")
  case True
  then show ?thesis
  proof
    assume "xs = []"
    with l0 l1 show ?thesis
      by (auto simp: tlappend_def tlclear_def tlist_def same_links_def)
  next
    assume "ys = []"
    with l0 l1 show ?thesis
      by (cases xs) (auto simp: tlappend_def tlclear_def tlist_def same_links_def)
  qed
next
  case False
  let ?x = "last xs"
  have c0: "chain h (tl_head l0) xs None" "distinct xs" "tl_tail l0 = Some ?x" "tl_head l0 \<noteq> None"
    using l0 False by (auto simp: tlist_def tlist_head [OF l0] split: list.splits)
  have c1: "chain h (tl_head l1) ys None" "distinct ys" "tl_tail l1 = Some (last ys)" "tl_head l1 \<noteq> None"
    using l1 False by (auto simp: tlist_def tlist_head [OF l1] split: list.splits)
  obtain u where u: "h ?x = Some u" using chain_in_store [OF c0(1), of ?x] False by auto
  let ?h' = "h(?x \<mapsto> u\<lparr>list_next := tl_head l1\<rparr>)" and ?l' = "l0\<lparr>tl_tail := Some (last ys)\<rparr>"
  have run: "tlappend l0 l1 h = Inr (?l', tlclear, ?h')"
    using c0 c1 u by (auto simp: tlappend_def)
  have "?x \<in> set xs" using False by simp
  then have "?x \<notin> set ys" using dis by blast
  then have "same_links (set ys) h ?h'" by (auto simp: same_links_def)
  then have "chain ?h' (tl_head l1) ys None" using c1(1) chain_cong by blast
  moreover have "chain ?h' (tl_head l0) xs (tl_head l1)"
    using tlist_snoc_last [OF c0(1,2) _ u] False by blast
  ultimately have "tlist ?h' ?l' (xs @ ys)"
    using c0(2) c1(2) dis False by (auto simp: tlist_def chain_append)
  moreover have "same_links (- set (xs @ ys)) h ?h'" using False by (auto simp: same_links_def)
  moreover have "map_option (list_next_update (\<lambda>_. None)) (?h' x) =
      map_option (list_next_update (\<lambda>_. None)) (h x)" for x
    using u by auto
  ultimately show ?thesis using run by blast
qed

text \<open>A list with its store, as a queue of threads that are in the store and not yet in the list.\<close>

definition tl_enq :: "tptr \<Rightarrow> thread_list \<times> thrstore \<Rightarrow> (thread_list \<times> thrstore) res" where
  "tl_enq thr s = tlinsert (fst s) (Some thr) (snd s)"

definition tl_deq :: "thread_list \<times> thrstore \<Rightarrow> (tptr \<times> thread_list \<times> thrstore) res" where
  "tl_deq s = bind_res (tlremove (fst s) (snd s)) (\<lambda>(p, l, h).
     case p of None \<Rightarrow> Inl UndefinedAccess | Some x \<Rightarrow> Inr (x, l, h))"

interpretation thread_queue: fifo "\<lambda>s xs. tlist (snd s) (fst s) xs"
  "\<lambda>xs thr s. thr \<notin> set xs \<and> snd s thr \<noteq> None" tl_enq tl_deq
proof
  fix s xs e
  assume "tlist (snd s) (fst s) xs" and "e \<notin> set xs \<and> snd s e \<noteq> None"
  then show "\<exists>s'. tl_enq e s = Inr s' \<and> tlist (snd s') (fst s') (xs @ [e])"
    using tlinsert_ok [of "snd s" "fst s" xs e] by (auto simp: tl_enq_def)
next
  fix s x xs
  assume "tlist (snd s) (fst s) (x # xs)"
  from tlremove_ok [OF this]
  show "\<exists>s'. tl_deq s = Inr (x, s') \<and> tlist (snd s') (fst s') xs"
    by (auto simp: tl_deq_def)
qed

section \<open>Interrupt enable bit\<close>

definition intr_disable :: "'a ts_scheme \<Rightarrow> bool \<times> 'a ts_scheme" where
  "intr_disable st = (sie st, st\<lparr>sie := False\<rparr>)"

definition intr_enable :: "'a ts_scheme \<Rightarrow> bool \<times> 'a ts_scheme" where
  "intr_enable st = (sie st, st\<lparr>sie := True\<rparr>)"

definition intr_restore :: "bool \<Rightarrow> 'a ts_scheme \<Rightarrow> 'a ts_scheme" where
  "intr_restore saved st = (let st = st\<lparr>sie := False\<rparr> in if saved then st\<lparr>sie := True\<rparr> else st)"

lemmas intr_defs = intr_disable_def intr_enable_def intr_restore_def

section \<open>Scheduling\<close>

definition set_thread :: "tptr option \<Rightarrow> (thread \<Rightarrow> thread) \<Rightarrow> 'a ts_scheme \<Rightarrow> 'a ts_scheme res" where
  "set_thread p f st = bind_res (modify p f (thrs st)) (\<lambda>h. Inr (st\<lparr>thrs := h\<rparr>))"

definition ready_insert :: "tptr option \<Rightarrow> 'a ts_scheme \<Rightarrow> 'a ts_scheme res" where
  "ready_insert p st = bind_res (tlinsert (ready_list st) p (thrs st))
     (\<lambda>(l, h). Inr (st\<lparr>ready_list := l, thrs := h\<rparr>))"

definition running_thread :: "'a ts_scheme \<Rightarrow> int res" where
  "running_thread st = bind_res (deref (thrs st) (Some (curthr st))) (\<lambda>t. Inr (t_id t))"

definition cur_stack_base :: "'a ts_scheme \<Rightarrow> u64 res" where
  "cur_stack_base st = bind_res (deref (thrs st) (Some (curthr st))) (\<lambda>t. Inr (stack_base t))"

text \<open>
  The part of \<open>suspend_self\<close> before \<open>_thread_swtch\<close>. The suspending thread keeps its saved
  interrupt state on its stack.
\<close>

definition suspend_switch :: "'a ts_scheme \<Rightarrow> 'a ts_scheme res" where
  "suspend_switch st =
     bind_res (check (\<not> tlempty (ready_list st)) AssertFailed) (\<lambda>_.
       let susp = curthr st; (saved, st) = intr_disable st in
       bind_res (tlremove (ready_list st) (thrs st)) (\<lambda>(next_thr, l, h).
         let st = st\<lparr>ready_list := l, thrs := h\<rparr> in
         bind_res (deref (thrs st) next_thr) (\<lambda>n.
         bind_res (check (t_state n = THREAD_READY) AssertFailed) (\<lambda>_.
         bind_res (set_thread next_thr (t_state_update (\<lambda>_. THREAD_RUNNING)) st) (\<lambda>st.
         bind_res (deref (thrs st) (Some susp)) (\<lambda>s.
         bind_res
           (if t_state s = THREAD_RUNNING
            then bind_res (set_thread (Some susp) (t_state_update (\<lambda>_. THREAD_READY)) st)
                   (ready_insert (Some susp))
            else Inr st) (\<lambda>st.
         let st = snd (intr_enable st);
             st = (case t_proc n of None \<Rightarrow> st | Some p \<Rightarrow> snd (memory_space_switch (proc_mtag st p) st))
         in Inr (st\<lparr>curthr := the next_thr, resume_sie := (resume_sie st)(susp \<mapsto> saved)\<rparr>))))))))"

text \<open>
  The part after \<open>_thread_swtch\<close>, in the resumed thread, when it was suspended in
  \<open>suspend_self\<close>: the stack of a thread that exited is released.
\<close>

definition suspend_resume :: "tptr \<Rightarrow> 'a ts_scheme \<Rightarrow> 'a ts_scheme res" where
  "suspend_resume prev st =
     (case resume_sie st (curthr st) of
        None \<Rightarrow> Inr st
      | Some saved \<Rightarrow>
          bind_res (deref (thrs st) (Some prev)) (\<lambda>p.
          bind_res
            (if t_state p = THREAD_EXITED
             then bind_res (memory_free_page (stack_base p - PAGE_SIZE) st)
                    (set_thread (Some prev) (\<lambda>p. p\<lparr>stack_base := 0, stack_size := 0\<rparr>))
             else Inr st)
            (\<lambda>st. Inr ((intr_restore saved st)\<lparr>resume_sie := (resume_sie st)(curthr st := None)\<rparr>))))"

definition suspend_self :: "'a ts_scheme \<Rightarrow> 'a ts_scheme res" where
  "suspend_self st = bind_res (suspend_switch st) (suspend_resume (curthr st))"

definition thread_yield :: "'a ts_scheme \<Rightarrow> 'a ts_scheme res" where
  "thread_yield st =
     bind_res (deref (thrs st) (Some (curthr st))) (\<lambda>t.
       bind_res (check (t_state t = THREAD_RUNNING) AssertFailed) (\<lambda>_. suspend_self st))"

section \<open>Condition variables\<close>

definition condition_init :: "cptr \<Rightarrow> 'a ts_scheme \<Rightarrow> 'a ts_scheme" where
  "condition_init c st = st\<lparr>conds := (conds st)(c := tlclear)\<rparr>"

definition condition_wait :: "cptr \<Rightarrow> 'a ts_scheme \<Rightarrow> 'a ts_scheme res" where
  "condition_wait c st =
     (let me = Some (curthr st) in
      bind_res (deref (thrs st) me) (\<lambda>t.
      bind_res (check (t_state t = THREAD_RUNNING) AssertFailed) (\<lambda>_.
      bind_res (set_thread me (\<lambda>t. t\<lparr>t_state := THREAD_WAITING, wait_cond := Some c, list_next := None\<rparr>) st)
        (\<lambda>st. let (saved, st) = intr_disable st in
          bind_res (tlinsert (conds st c) me (thrs st)) (\<lambda>(l, h).
            suspend_self (intr_restore saved (st\<lparr>conds := (conds st)(c := l), thrs := h\<rparr>)))))))"

text \<open>
  The loop of \<open>condition_broadcast\<close> over the wait list. It follows the links of the list; a
  cyclic list would make it run forever, which is the value \<open>None\<close>.
\<close>

partial_function (option) wake_loop :: "cptr \<Rightarrow> tptr option \<Rightarrow> thrstore \<Rightarrow> thrstore res option" where
  "wake_loop c p h =
     (case p of
        None \<Rightarrow> Some (Inr h)
      | Some q \<Rightarrow>
          (case h q of
             None \<Rightarrow> Some (Inl UndefinedAccess)
           | Some t \<Rightarrow>
               if t_state t \<noteq> THREAD_WAITING \<or> wait_cond t \<noteq> Some c then Some (Inl AssertFailed)
               else wake_loop c (list_next t) (h(q \<mapsto> t\<lparr>t_state := THREAD_READY, wait_cond := None\<rparr>))))"

definition condition_broadcast :: "cptr \<Rightarrow> 'a ts_scheme \<Rightarrow> 'a ts_scheme res option" where
  "condition_broadcast c st =
     (if tlempty (conds st c) then Some (Inr st)
      else
        let (saved, st) = intr_disable st in
        case wake_loop c (tl_head (conds st c)) (thrs st) of
          None \<Rightarrow> None
        | Some r \<Rightarrow> Some (bind_res r (\<lambda>h.
            bind_res (tlappend (ready_list st) (conds st c) h) (\<lambda>(l, _, h).
              Inr (intr_restore saved
                (st\<lparr>ready_list := l, conds := (conds st)(c := tlclear), thrs := h\<rparr>))))))"

section \<open>Creating, exiting and joining threads\<close>

text \<open>The first empty slot of \<open>thrtab\<close> from 1 on.\<close>

definition find_slot :: "'a ts_scheme \<Rightarrow> nat option" where
  "find_slot st = List.find (\<lambda>tid. thrtab st ! tid = None) [1 ..< NTHR]"

text \<open>
  A thread structure with all bytes zero: null pointers and the state of value 0. The heap never gives
  memory out twice and its pages are zeroed by \<open>memory_alloc_page\<close>, but the block it starts with
  is not, so the structure of a new thread is \<open>junk\<close>, arbitrary before its fields are set. No code
  initialises the condition \<open>child_exit\<close> of a new thread; the model leaves it as it is.
\<close>

definition zero_thread :: thread where
  "zero_thread = \<lparr>t_name = [], stack_base = 0, stack_size = 0, t_state = THREAD_UNINITIALIZED,
     t_id = 0, t_proc = None, t_parent = None, list_next = None, wait_cond = None\<rparr>"

definition sizeof_thread :: u64 where "sizeof_thread = 200"
definition sizeof_stack_anchor :: u64 where "sizeof_stack_anchor = 16"

text \<open>
  \<open>thread_spawn\<close>, with the contents \<open>junk\<close> of the memory of the new structure. The entry function and
  its argument are stored in the register context by \<open>_thread_setup\<close>. The stack anchor at the top of the stack page holds the thread pointer.
\<close>

definition thread_spawn :: "thread \<Rightarrow> string \<Rightarrow> 'a ts_scheme \<Rightarrow> (int \<times> 'a ts_scheme) res" where
  "thread_spawn junk name st =
     (case find_slot st of
        None \<Rightarrow> Inl (Panic ''Too many threads'')
      | Some tid \<Rightarrow>
          bind_res (kmalloc sizeof_thread st) (\<lambda>(a, st).
          bind_res (memory_alloc_page st) (\<lambda>(stack_page, st).
          bind_res (deref (thrs st) (Some (curthr st))) (\<lambda>cur.
            let child = DynThread a;
                anchor = stack_page + PAGE_SIZE - sizeof_stack_anchor;
                st = st\<lparr>pmem := (pmem st)(anchor := a, anchor + 8 := 0)\<rparr>;
                st = st\<lparr>thrtab := (thrtab st)[tid := Some child]\<rparr>;
                t = junk\<lparr>t_id := int tid, t_name := name, t_parent := Some (curthr st),
                      t_proc := t_proc cur, stack_base := anchor, stack_size := anchor - stack_page,
                      t_state := THREAD_READY\<rparr>;
                st = st\<lparr>thrs := (thrs st)(child \<mapsto> t), resume_sie := (resume_sie st)(child := None)\<rparr>;
                (saved, st) = intr_disable st
            in bind_res (ready_insert (Some child) st) (\<lambda>st. Inr (int tid, intr_restore saved st))))))"

definition thread_exit :: "'a ts_scheme \<Rightarrow> 'a ts_scheme res option" where
  "thread_exit st =
     (if curthr st = MainThread then Some (Inl HaltSuccess)
      else case set_thread (Some (curthr st)) (t_state_update (\<lambda>_. THREAD_EXITED)) st of
        Inl e \<Rightarrow> Some (Inl e)
      | Inr st \<Rightarrow>
          (case bind_res (deref (thrs st) (Some (curthr st))) (\<lambda>t. Inr (t_parent t)) of
             Inl e \<Rightarrow> Some (Inl e)
           | Inr None \<Rightarrow> Some (Inl AssertFailed)
           | Inr (Some p) \<Rightarrow>
               map_option (\<lambda>r. bind_res r suspend_self) (condition_broadcast (ChildExit p) st)))"

definition recycle_thread :: "nat \<Rightarrow> 'a ts_scheme \<Rightarrow> 'a ts_scheme res" where
  "recycle_thread tid st =
     (if \<not> (0 < tid \<and> tid < NTHR) then Inl AssertFailed
      else case thrtab st ! tid of
        None \<Rightarrow> Inl AssertFailed
      | Some thr \<Rightarrow>
          bind_res (deref (thrs st) (Some thr)) (\<lambda>t.
          bind_res (check (t_state t = THREAD_EXITED) AssertFailed) (\<lambda>_.
          bind_res (foldM (\<lambda>ctid st.
              case thrtab st ! ctid of
                None \<Rightarrow> Inr st
              | Some c \<Rightarrow>
                  bind_res (deref (thrs st) (Some c)) (\<lambda>ct.
                    if t_parent ct = Some thr
                    then bind_res (deref (thrs st) (Some thr)) (\<lambda>t.
                      set_thread (Some c) (t_parent_update (\<lambda>_. t_parent t)) st)
                    else Inr st)) [1 ..< NTHR] st)
            (\<lambda>st. Inr (st\<lparr>thrtab := (thrtab st)[tid := None]\<rparr>)))))"

text \<open>
  \<open>thread_join\<close> waits in a loop. One evaluation of the loop condition either finds the child
  exited and recycles it, or suspends the calling thread: the result says whether the join is
  complete. \<open>thrtab\<close> is read before the index is checked.
\<close>

datatype join_result = Joined int | Waiting

definition thread_join_step :: "int \<Rightarrow> 'a ts_scheme \<Rightarrow> (join_result \<times> 'a ts_scheme) res" where
  "thread_join_step tid st =
     (if tid < 0 \<or> int NTHR \<le> tid then Inl UndefinedAccess
      else let child = thrtab st ! nat tid in
        if tid = 0 then Inr (Joined (- 1), st)
        else if child = None then Inr (Joined (- 1), st)
        else bind_res (deref (thrs st) child) (\<lambda>c.
          if t_parent c \<noteq> Some (curthr st) then Inr (Joined (- 1), st)
          else if t_state c \<noteq> THREAD_EXITED
          then bind_res (condition_wait (ChildExit (curthr st)) st) (\<lambda>st. Inr (Waiting, st))
          else bind_res (recycle_thread (nat tid) st) (\<lambda>st. Inr (Joined tid, st))))"

text \<open>\<open>thread_join_any\<close> up to its wait: an exited child is joined at once.\<close>

definition is_child :: "'a ts_scheme \<Rightarrow> tptr \<Rightarrow> nat \<Rightarrow> bool" where
  "is_child st parent tid = (case thrtab st ! tid of None \<Rightarrow> False
     | Some c \<Rightarrow> (case thrs st c of None \<Rightarrow> False | Some t \<Rightarrow> t_parent t = Some parent))"

definition has_exited :: "'a ts_scheme \<Rightarrow> nat \<Rightarrow> bool" where
  "has_exited st tid = (case thrtab st ! tid of None \<Rightarrow> False
     | Some c \<Rightarrow> (case thrs st c of None \<Rightarrow> False | Some t \<Rightarrow> t_state t = THREAD_EXITED))"

definition thread_join_any :: "'a ts_scheme \<Rightarrow> (join_result \<times> 'a ts_scheme) res" where
  "thread_join_any st =
     (let me = curthr st; children = filter (is_child st me) [1 ..< NTHR] in
      case List.find (has_exited st) children of
        Some tid \<Rightarrow> thread_join_step (int tid) st
      | None \<Rightarrow>
          if children = [] then Inl (Panic ''thread_wait called by childless thread'')
          else bind_res (condition_wait (ChildExit me) st) (\<lambda>st. Inr (Waiting, st)))"

text \<open>\<open>thread_join_any\<close> after its wait, in the resumed thread.\<close>

definition thread_join_any_resumed :: "'a ts_scheme \<Rightarrow> (join_result \<times> 'a ts_scheme) res" where
  "thread_join_any_resumed st =
     (case List.find (\<lambda>tid. is_child st (curthr st) tid \<and> has_exited st tid) [1 ..< NTHR] of
        None \<Rightarrow> Inl (Panic ''spurious child_exit signal'')
      | Some tid \<Rightarrow> bind_res (recycle_thread tid st) (\<lambda>st. Inr (Joined (int tid), st)))"

text \<open>
  The accessors. Their assertions \<open>0 <= tid || tid < NTHR\<close> always hold, so an index outside
  the table is used.
\<close>

definition thread_at :: "int \<Rightarrow> 'a ts_scheme \<Rightarrow> thread res" where
  "thread_at tid st =
     bind_res (check (0 \<le> tid \<or> tid < int NTHR) AssertFailed) (\<lambda>_.
       if tid < 0 \<or> int NTHR \<le> tid then Inl UndefinedAccess
       else bind_res (check (thrtab st ! nat tid \<noteq> None) AssertFailed)
         (\<lambda>_. deref (thrs st) (thrtab st ! nat tid)))"

definition thread_process :: "int \<Rightarrow> 'a ts_scheme \<Rightarrow> nat option res" where
  "thread_process tid st = bind_res (thread_at tid st) (\<lambda>t. Inr (t_proc t))"

definition thread_set_process :: "int \<Rightarrow> nat option \<Rightarrow> 'a ts_scheme \<Rightarrow> 'a ts_scheme res" where
  "thread_set_process tid proc st =
     bind_res (thread_at tid st) (\<lambda>_. set_thread (thrtab st ! nat tid) (t_proc_update (\<lambda>_. proc)) st)"

definition thread_name :: "int \<Rightarrow> 'a ts_scheme \<Rightarrow> string res" where
  "thread_name tid st = bind_res (thread_at tid st) (\<lambda>t. Inr (t_name t))"

text \<open>\<open>get_thread_name\<close> checks nothing.\<close>

definition get_thread_name :: "int \<Rightarrow> 'a ts_scheme \<Rightarrow> string res" where
  "get_thread_name tid st =
     (if tid < 0 \<or> int NTHR \<le> tid then Inl UndefinedAccess
      else bind_res (deref (thrs st) (thrtab st ! nat tid)) (\<lambda>t. Inr (t_name t)))"

text \<open>
  One pass of the loop of the idle thread: it yields while a thread is ready, and otherwise disables
  interrupts, looks again, waits for an interrupt with \<open>wfi\<close> and enables them. The interrupt is a step
  of its own.
\<close>

definition idle_thread_func :: "'a ts_scheme \<Rightarrow> 'a ts_scheme res" where
  "idle_thread_func st =
     (if \<not> tlempty (ready_list st) then thread_yield st
      else Inr (snd (intr_enable (snd (intr_disable st)))))"

definition thread_state_name :: "thread_state \<Rightarrow> string" where
  "thread_state_name s =
     (case s of
        THREAD_UNINITIALIZED \<Rightarrow> ''UNINITIALIZED''
      | THREAD_STOPPED \<Rightarrow> ''STOPPED''
      | THREAD_WAITING \<Rightarrow> ''WAITING''
      | THREAD_RUNNING \<Rightarrow> ''RUNNING''
      | THREAD_READY \<Rightarrow> ''READY''
      | THREAD_EXITED \<Rightarrow> ''EXITED'')"

section \<open>Initialisation\<close>

text \<open>The static thread structures; the stack anchors are symbols of \<open>thrasm.s\<close>.\<close>

definition static_threads :: thrstore where
  "static_threads = [
     MainThread \<mapsto> zero_thread\<lparr>t_name := ''main'', t_id := int MAIN_TID, t_state := THREAD_RUNNING\<rparr>,
     IdleThread \<mapsto> zero_thread\<lparr>t_name := ''idle'', t_id := int IDLE_TID, t_state := THREAD_READY,
       t_parent := Some MainThread\<rparr>]"

definition static_thrtab :: "tptr option list" where
  "static_thrtab = (replicate NTHR None)[MAIN_TID := Some MainThread, IDLE_TID := Some IdleThread]"

definition init_main_thread :: "u64 \<Rightarrow> u64 \<Rightarrow> 'a ts_scheme \<Rightarrow> 'a ts_scheme res" where
  "init_main_thread anchor lowest st =
     set_thread (Some MainThread) (\<lambda>t. t\<lparr>stack_base := anchor, stack_size := anchor - lowest\<rparr>) st"

definition init_idle_thread :: "u64 \<Rightarrow> u64 \<Rightarrow> 'a ts_scheme \<Rightarrow> 'a ts_scheme res" where
  "init_idle_thread anchor lowest st =
     bind_res (set_thread (Some IdleThread) (\<lambda>t. t\<lparr>stack_base := anchor, stack_size := anchor - lowest\<rparr>) st)
       (ready_insert (Some IdleThread))"

definition thread_init :: "u64 \<Rightarrow> u64 \<Rightarrow> u64 \<Rightarrow> u64 \<Rightarrow> 'a ts_scheme \<Rightarrow> 'a ts_scheme res" where
  "thread_init main_anchor main_lowest idle_anchor idle_lowest st =
     bind_res (init_main_thread main_anchor main_lowest st) (\<lambda>st.
     bind_res (init_idle_thread idle_anchor idle_lowest st) (\<lambda>st.
       Inr (st\<lparr>curthr := MainThread, thrmgr_initialized := True\<rparr>)))"

section \<open>Sleep locks\<close>

text \<open>
  A lock is a condition variable and the id of the holder or -1. One round of the loop of
  \<open>lock_acquire\<close> takes the lock or suspends the thread; the result says whether it was taken.
\<close>

record lock =
  lk_cond :: cptr
  lk_tid :: int

definition lock_init :: "cptr \<Rightarrow> 'a ts_scheme \<Rightarrow> lock \<times> 'a ts_scheme" where
  "lock_init c st = (\<lparr>lk_cond = c, lk_tid = - 1\<rparr>, condition_init c st)"

definition lock_acquire_round :: "lock \<Rightarrow> 'a ts_scheme \<Rightarrow> (bool \<times> lock \<times> 'a ts_scheme) res" where
  "lock_acquire_round lk st =
     (let (saved, st) = intr_disable st in
      if lk_tid lk = - 1 then
        bind_res (running_thread st) (\<lambda>me. Inr (True, lk\<lparr>lk_tid := me\<rparr>, intr_restore saved st))
      else bind_res (condition_wait (lk_cond lk) st) (\<lambda>st. Inr (False, lk, st)))"

definition lock_release :: "lock \<Rightarrow> 'a ts_scheme \<Rightarrow> (lock \<times> 'a ts_scheme) res option" where
  "lock_release lk st =
     (case running_thread st of
        Inl e \<Rightarrow> Some (Inl e)
      | Inr me \<Rightarrow>
          if lk_tid lk \<noteq> me then Some (Inl AssertFailed)
          else map_option (\<lambda>r. bind_res r (\<lambda>st. Inr (lk\<lparr>lk_tid := - 1\<rparr>, st)))
                 (condition_broadcast (lk_cond lk) st))"

section \<open>The scheduler's invariant\<close>

text \<open>
  \<open>lists_inv h rl cs rs ws\<close>: the ready list \<open>rl\<close> links exactly the threads \<open>rs\<close>, all of them
  READY, and the wait list of each condition \<open>c\<close> links exactly the threads \<open>ws c\<close>, all of
  them WAITING for \<open>c\<close>. So no thread is in two lists.
\<close>

definition in_state :: "thrstore \<Rightarrow> (thread \<Rightarrow> bool) \<Rightarrow> tptr \<Rightarrow> bool" where
  "in_state h P x \<longleftrightarrow> (\<exists>t. h x = Some t \<and> P t)"

definition ready :: "thread \<Rightarrow> bool" where
  "ready t \<longleftrightarrow> t_state t = THREAD_READY"

definition waits_for :: "cptr \<Rightarrow> thread \<Rightarrow> bool" where
  "waits_for c t \<longleftrightarrow> t_state t = THREAD_WAITING \<and> wait_cond t = Some c"

definition lists_inv ::
    "thrstore \<Rightarrow> thread_list \<Rightarrow> (cptr \<Rightarrow> thread_list) \<Rightarrow> tptr list \<Rightarrow> (cptr \<Rightarrow> tptr list) \<Rightarrow> bool" where
  "lists_inv h rl cs rs ws \<longleftrightarrow>
     tlist h rl rs \<and> (\<forall>x \<in> set rs. in_state h ready x) \<and>
     (\<forall>c. tlist h (cs c) (ws c) \<and> (\<forall>x \<in> set (ws c). in_state h (waits_for c) x))"

lemma lists_invD:
  assumes "lists_inv h rl cs rs ws"
  shows "tlist h rl rs" and "x \<in> set rs \<Longrightarrow> in_state h ready x"
    and "tlist h (cs c) (ws c)" and "x \<in> set (ws c) \<Longrightarrow> in_state h (waits_for c) x"
  using assms unfolding lists_inv_def by blast+

lemma lists_invI:
  assumes "tlist h rl rs" and "\<And>x. x \<in> set rs \<Longrightarrow> in_state h ready x"
    and "\<And>c. tlist h (cs c) (ws c)" and "\<And>c x. x \<in> set (ws c) \<Longrightarrow> in_state h (waits_for c) x"
  shows "lists_inv h rl cs rs ws"
  using assms unfolding lists_inv_def by blast

text \<open>A thread whose state is neither READY nor WAITING, or which waits elsewhere, is in no list.\<close>

lemma not_in_lists:
  assumes "lists_inv h rl cs rs ws" and "h x = Some t"
  shows "t_state t \<noteq> THREAD_READY \<Longrightarrow> x \<notin> set rs"
    and "\<not> waits_for c t \<Longrightarrow> x \<notin> set (ws c)"
  using lists_invD(2,4) [OF assms(1), of x] assms(2) by (auto simp: in_state_def ready_def)

lemma lists_disjoint:
  assumes "lists_inv h rl cs rs ws"
  shows "set rs \<inter> set (ws c) = {}" and "c \<noteq> d \<Longrightarrow> set (ws c) \<inter> set (ws d) = {}"
proof -
  have "\<not> (x \<in> set rs \<and> x \<in> set (ws c))" for x c
    using lists_invD(2,4) [OF assms, of x] by (auto simp: in_state_def ready_def waits_for_def)
  moreover have "c = d" if "x \<in> set (ws c)" "x \<in> set (ws d)" for x c d
    using lists_invD(4) [OF assms that(1)] lists_invD(4) [OF assms that(2)]
    by (auto simp: in_state_def waits_for_def)
  ultimately show "set rs \<inter> set (ws c) = {}" and "c \<noteq> d \<Longrightarrow> set (ws c) \<inter> set (ws d) = {}"
    by auto
qed

text \<open>Changing a thread that is in no list.\<close>

lemma lists_inv_upd:
  assumes "lists_inv h rl cs rs ws" and "x \<notin> set rs" and "\<And>c. x \<notin> set (ws c)"
  shows "lists_inv (h(x := v)) rl cs rs ws"
proof -
  have "same_links (set rs) h (h(x := v))" "same_links (set (ws c)) h (h(x := v))" for c
    using assms(2,3) by (auto simp: same_links_def)
  then have "tlist (h(x := v)) rl rs" "tlist (h(x := v)) (cs c) (ws c)" for c
    using lists_invD(1,3) [OF assms(1)] tlist_cong by blast+
  moreover have "in_state (h(x := v)) P y = in_state h P y" if "y \<noteq> x" for P y
    using that by (simp add: in_state_def)
  ultimately show ?thesis
    using assms(2,3) lists_invD(2,4) [OF assms(1)] by (intro lists_invI) metis+
qed

text \<open>Taking the first thread off the ready list.\<close>

lemma lists_inv_remove:
  assumes inv: "lists_inv h rl cs (n # rs) ws"
  shows "\<exists>rl' t. tlremove rl h = Inr (Some n, rl', h(n \<mapsto> t\<lparr>list_next := None\<rparr>)) \<and>
    h n = Some t \<and> t_state t = THREAD_READY \<and>
    lists_inv (h(n \<mapsto> t\<lparr>list_next := None\<rparr>)) rl' cs rs ws \<and> n \<notin> set rs \<and> (\<forall>c. n \<notin> set (ws c))"
proof -
  obtain rl' t where r: "tlremove rl h = Inr (Some n, rl', h(n \<mapsto> t\<lparr>list_next := None\<rparr>))" "h n = Some t"
    "tlist (h(n \<mapsto> t\<lparr>list_next := None\<rparr>)) rl' rs"
    using tlremove_ok [of h rl n rs] inv by (auto simp: lists_inv_def)
  have rd: "t_state t = THREAD_READY" using inv r(2) by (auto simp: lists_inv_def in_state_def ready_def)
  have nrs: "n \<notin> set rs" using inv by (auto simp: lists_inv_def tlist_def)
  have nws: "n \<notin> set (ws c)" for c
    using not_in_lists(2) [OF inv r(2), of c] rd by (auto simp: waits_for_def)
  let ?h = "h(n \<mapsto> t\<lparr>list_next := None\<rparr>)"
  have "same_links (set (ws c)) h ?h" for c using nws by (auto simp: same_links_def)
  then have "tlist ?h (cs c) (ws c)" for c using lists_invD(3) [OF inv] tlist_cong by blast
  moreover have "in_state ?h P y = in_state h P y" if "y \<noteq> n" for P y
    using that by (simp add: in_state_def)
  ultimately have "lists_inv ?h rl' cs rs ws"
    using r(3) nrs nws lists_invD(2,4) [OF inv] by (intro lists_invI) (auto, metis+)
  with r rd nrs nws show ?thesis by blast
qed

text \<open>Stores that differ only in links, and links that change only inside one list.\<close>

definition same_cores :: "thrstore \<Rightarrow> thrstore \<Rightarrow> bool" where
  "same_cores h h' \<longleftrightarrow> (\<forall>x. map_option (list_next_update (\<lambda>_. None)) (h' x) =
     map_option (list_next_update (\<lambda>_. None)) (h x))"

lemma same_cores_in_state:
  assumes "same_cores h h'" and "\<And>t. P (t\<lparr>list_next := None\<rparr>) = P t"
  shows "in_state h' P x = in_state h P x"
proof -
  have eq: "map_option (list_next_update (\<lambda>_. None)) (h' x) = map_option (list_next_update (\<lambda>_. None)) (h x)"
    using assms(1) by (simp add: same_cores_def)
  show ?thesis
  proof (cases "h x")
    case None
    with eq show ?thesis by (simp add: in_state_def)
  next
    case (Some b)
    with eq obtain a where a: "h' x = Some a" "a\<lparr>list_next := None\<rparr> = b\<lparr>list_next := None\<rparr>"
      by (cases "h' x") auto
    have "P a = P b" unfolding assms(2) [of a, symmetric] assms(2) [of b, symmetric] a(2) ..
    with a(1) Some show ?thesis by (simp add: in_state_def)
  qed
qed

lemma same_cores_lists:
  assumes "same_cores h h'"
  shows "in_state h' ready x = in_state h ready x" and "in_state h' (waits_for c) x = in_state h (waits_for c) x"
  using same_cores_in_state [OF assms, of ready] same_cores_in_state [OF assms, of "waits_for c"]
  by (simp_all add: ready_def waits_for_def)

lemma lists_inv_insert_ready:
  assumes inv: "lists_inv h rl cs rs ws" and x: "h x = Some t" "t_state t = THREAD_READY" "x \<notin> set rs"
  shows "\<exists>rl' h'. tlinsert rl (Some x) h = Inr (rl', h') \<and> lists_inv h' rl' cs (rs @ [x]) ws \<and>
    same_cores h h'"
proof -
  obtain rl' h' where r: "tlinsert rl (Some x) h = Inr (rl', h')" "tlist h' rl' (rs @ [x])"
    "same_links (- set (rs @ [x])) h h'" "same_cores h h'"
    using tlinsert_ok [of h rl rs x t] inv x unfolding lists_inv_def same_cores_def by blast
  have "x \<notin> set (ws c)" for c using not_in_lists(2) [OF inv x(1)] x(2) by (auto simp: waits_for_def)
  then have "same_links (set (ws c)) h h'" for c
    using r(3) lists_disjoint(1) [OF inv, of c] by (intro same_links_mono [OF r(3)]) auto
  then have "tlist h' (cs c) (ws c)" for c using lists_invD(3) [OF inv] tlist_cong by blast
  moreover have "in_state h ready x" using x by (simp add: in_state_def ready_def)
  ultimately have "lists_inv h' rl' cs (rs @ [x]) ws"
    using r(2) lists_invD(2,4) [OF inv]
    by (intro lists_invI) (auto simp: same_cores_lists [OF r(4)])
  with r(1,4) show ?thesis by blast
qed

lemma lists_inv_insert_wait:
  assumes inv: "lists_inv h rl cs rs ws" and x: "h x = Some t" "waits_for c t" "x \<notin> set (ws c)"
  shows "\<exists>l' h'. tlinsert (cs c) (Some x) h = Inr (l', h') \<and>
    lists_inv h' rl (cs(c := l')) rs (ws(c := ws c @ [x])) \<and> same_cores h h'"
proof -
  obtain l' h' where r: "tlinsert (cs c) (Some x) h = Inr (l', h')" "tlist h' l' (ws c @ [x])"
    "same_links (- set (ws c @ [x])) h h'" "same_cores h h'"
    using tlinsert_ok [of h "cs c" "ws c" x t] inv x unfolding lists_inv_def same_cores_def by blast
  have xs: "x \<notin> set rs" "\<And>d. d \<noteq> c \<Longrightarrow> x \<notin> set (ws d)"
    using not_in_lists [OF inv x(1)] x(2) by (auto simp: waits_for_def)
  have "same_links (set rs) h h'"
    using lists_disjoint(1) [OF inv, of c] xs(1) by (intro same_links_mono [OF r(3)]) auto
  then have "tlist h' rl rs" using lists_invD(1) [OF inv] tlist_cong by blast
  moreover have "tlist h' (cs d) (ws d)" if "d \<noteq> c" for d
  proof -
    have "same_links (set (ws d)) h h'"
      using lists_disjoint(2) [OF inv that] xs(2) [OF that] by (intro same_links_mono [OF r(3)]) auto
    then show ?thesis using lists_invD(3) [OF inv] tlist_cong by blast
  qed
  moreover have "in_state h (waits_for c) x" using x by (simp add: in_state_def)
  ultimately have "lists_inv h' rl (cs(c := l')) rs (ws(c := ws c @ [x]))"
    using r(2) lists_invD(2,4) [OF inv]
    by (intro lists_invI) (auto simp: same_cores_lists [OF r(4)] split: if_splits)
  with r(1,4) show ?thesis by blast
qed

text \<open>
  \<open>sched_inv st rs ws\<close>: the lists are in order and the current thread is RUNNING, hence in no
  list.
\<close>

definition sched_inv :: "'a ts_scheme \<Rightarrow> tptr list \<Rightarrow> (cptr \<Rightarrow> tptr list) \<Rightarrow> bool" where
  "sched_inv st rs ws \<longleftrightarrow>
     lists_inv (thrs st) (ready_list st) (conds st) rs ws \<and>
     in_state (thrs st) (\<lambda>t. t_state t = THREAD_RUNNING) (curthr st)"

lemma same_cores_refl [simp]: "same_cores h h"
  by (simp add: same_cores_def)

lemma same_cores_state:
  assumes "same_cores h h'" and "h x = Some t"
  shows "\<exists>t'. h' x = Some t' \<and> t'\<lparr>list_next := None\<rparr> = t\<lparr>list_next := None\<rparr>"
proof -
  have "map_option (list_next_update (\<lambda>_. None)) (h' x) = map_option (list_next_update (\<lambda>_. None)) (h x)"
    using assms(1) by (simp add: same_cores_def)
  with assms(2) show ?thesis by (cases "h' x") auto
qed

lemma core_eqD:
  assumes "t'\<lparr>list_next := None\<rparr> = t\<lparr>list_next := None\<rparr>"
  shows "t_state t' = t_state t" "t_id t' = t_id t" "stack_base t' = stack_base t"
    "t_parent t' = t_parent t" "wait_cond t' = wait_cond t" "t_proc t' = t_proc t"
    "t_name t' = t_name t" "stack_size t' = stack_size t"
  using assms by (cases t; cases t'; simp)+

text \<open>The store without its links.\<close>

definition view :: "thrstore \<Rightarrow> thrstore" where
  "view h = (\<lambda>x. map_option (list_next_update (\<lambda>_. None)) (h x))"

lemma view_upd [simp]: "view (h(x \<mapsto> t)) = (view h)(x \<mapsto> t\<lparr>list_next := None\<rparr>)"
  by (auto simp: view_def)

lemma same_cores_view: "same_cores h h' \<longleftrightarrow> view h' = view h"
  by (auto simp: same_cores_def view_def fun_eq_iff)

lemma view_Some: "h x = Some t \<Longrightarrow> view h x = Some (t\<lparr>list_next := None\<rparr>)"
  by (simp add: view_def)

lemma view_in_state:
  assumes "view h x = Some t" and "P t" and "\<And>t. P (t\<lparr>list_next := None\<rparr>) = P t"
  shows "in_state h P x"
  using assms by (auto simp: view_def in_state_def)

section \<open>What the scheduler does\<close>

lemma suspend_switch_ok:
  assumes inv: "lists_inv (thrs st) (ready_list st) (conds st) (n # rs) ws"
    and cur: "thrs st (curthr st) = Some t" "t_state t \<noteq> THREAD_READY"
  defines "r \<equiv> t_state t = THREAD_RUNNING" and "c \<equiv> curthr st"
  shows "\<exists>st' tn. suspend_switch st = Inr st' \<and> curthr st' = n \<and> n \<noteq> c \<and> thrs st n = Some tn \<and>
    lists_inv (thrs st') (ready_list st') (conds st') (if r then rs @ [c] else rs) ws \<and>
    view (thrs st') = (if r then (view (thrs st))(n \<mapsto> tn\<lparr>t_state := THREAD_RUNNING, list_next := None\<rparr>,
                                    c \<mapsto> t\<lparr>t_state := THREAD_READY, list_next := None\<rparr>)
                       else (view (thrs st))(n \<mapsto> tn\<lparr>t_state := THREAD_RUNNING, list_next := None\<rparr>)) \<and>
    resume_sie st' = (resume_sie st)(c \<mapsto> sie st) \<and> sie st' \<and>
    pmem st' = pmem st \<and> free_list st' = free_list st \<and> thrtab st' = thrtab st"
proof -
  obtain rl' tn where rm: "tlremove (ready_list st) (thrs st) =
      Inr (Some n, rl', (thrs st)(n \<mapsto> tn\<lparr>list_next := None\<rparr>))" "thrs st n = Some tn"
    "t_state tn = THREAD_READY"
    "lists_inv ((thrs st)(n \<mapsto> tn\<lparr>list_next := None\<rparr>)) rl' (conds st) rs ws"
    "n \<notin> set rs" "\<And>d. n \<notin> set (ws d)"
    using lists_inv_remove [OF inv] by blast
  have nc: "n \<noteq> c" using rm(2,3) cur by (auto simp: c_def)
  let ?tn = "tn\<lparr>list_next := None, t_state := THREAD_RUNNING\<rparr>"
  let ?h = "(thrs st)(n \<mapsto> ?tn)"
  have inv1: "lists_inv ?h rl' (conds st) rs ws"
    using lists_inv_upd [OF rm(4,5,6), of "Some ?tn"] by simp
  have hc: "?h c = Some t" using nc cur(1) by (simp add: c_def)
  have ne: "\<not> tlempty (ready_list st)" using tlempty_tlist [OF lists_invD(1) [OF inv]] by simp
  let ?sw = "\<lambda>s. (case t_proc tn of None \<Rightarrow> s | Some p \<Rightarrow> snd (memory_space_switch (proc_mtag s p) s))"
  have sw: "thrs (?sw s) = thrs s" "ready_list (?sw s) = ready_list s" "conds (?sw s) = conds s"
    "resume_sie (?sw s) = resume_sie s" "sie (?sw s) = sie s" "pmem (?sw s) = pmem s"
    "free_list (?sw s) = free_list s" "thrtab (?sw s) = thrtab s" for s :: "'a ts_scheme"
    by (auto simp: memory_space_switch_def split: option.splits)
  show ?thesis
  proof (cases r)
    case True
    then have run: "t_state t = THREAD_RUNNING" by (simp add: r_def)
    let ?t = "t\<lparr>t_state := THREAD_READY\<rparr>"
    have nl: "c \<notin> set rs" "\<And>d. c \<notin> set (ws d)"
      using not_in_lists [OF inv1 hc] run by (auto simp: waits_for_def)
    have inv2: "lists_inv (?h(c \<mapsto> ?t)) rl' (conds st) rs ws" by (rule lists_inv_upd [OF inv1 nl])
    obtain rl2 h2 where ins: "tlinsert rl' (Some c) (?h(c \<mapsto> ?t)) = Inr (rl2, h2)"
      "lists_inv h2 rl2 (conds st) (rs @ [c]) ws" "same_cores (?h(c \<mapsto> ?t)) h2"
      using lists_inv_insert_ready [OF inv2 _ _ nl(1), of ?t] by auto
    have "view h2 = (view (thrs st))(n \<mapsto> tn\<lparr>t_state := THREAD_RUNNING, list_next := None\<rparr>, c \<mapsto> t\<lparr>t_state := THREAD_READY, list_next := None\<rparr>)"
      using ins(3) unfolding same_cores_view by simp
    moreover have "suspend_switch st = Inr ((?sw (st\<lparr>sie := True, ready_list := rl2, thrs := h2\<rparr>))
        \<lparr>curthr := n, resume_sie := (resume_sie st)(c \<mapsto> sie st)\<rparr>)"
      using ne rm(1,2,3) hc run nc ins(1) cur(1) c_def
      by (auto simp: suspend_switch_def set_thread_def ready_insert_def intr_defs Let_def
          memory_space_switch_def split: option.splits)
    ultimately show ?thesis using ins(2) nc rm(2) True sw by simp
  next
    case False
    then have run: "t_state t \<noteq> THREAD_RUNNING" by (simp add: r_def)
    have "suspend_switch st = Inr ((?sw (st\<lparr>sie := True, ready_list := rl', thrs := ?h\<rparr>))
        \<lparr>curthr := n, resume_sie := (resume_sie st)(c \<mapsto> sie st)\<rparr>)"
      using ne rm(1,2,3) hc run nc cur(1) c_def
      by (auto simp: suspend_switch_def set_thread_def ready_insert_def intr_defs Let_def
          memory_space_switch_def split: option.splits)
    then show ?thesis using inv1 nc rm(2) False sw by simp
  qed
qed

lemma suspend_resume_alive:
  assumes "thrs st prev = Some p" and "t_state p \<noteq> THREAD_EXITED"
  shows "\<exists>st'. suspend_resume prev st = Inr st' \<and> thrs st' = thrs st \<and> ready_list st' = ready_list st \<and>
    conds st' = conds st \<and> curthr st' = curthr st \<and> thrtab st' = thrtab st \<and>
    pmem st' = pmem st \<and> free_list st' = free_list st"
  using assms
  by (cases "resume_sie st (curthr st)") (auto simp: suspend_resume_def intr_restore_def Let_def)

lemma running_view:
  assumes "view h x = Some (t\<lparr>t_state := THREAD_RUNNING, list_next := None\<rparr>)"
  shows "in_state h (\<lambda>t. t_state t = THREAD_RUNNING) x"
  using view_in_state [OF assms, of "\<lambda>t. t_state t = THREAD_RUNNING"] by simp

lemma suspend_self_ok:
  assumes inv: "lists_inv (thrs st) (ready_list st) (conds st) (n # rs) ws"
    and cur: "thrs st (curthr st) = Some t" "t_state t = THREAD_RUNNING \<or> t_state t = THREAD_WAITING"
  shows "\<exists>st'. suspend_self st = Inr st' \<and> curthr st' = n \<and>
    sched_inv st' (if t_state t = THREAD_RUNNING then rs @ [curthr st] else rs) ws \<and>
    pmem st' = pmem st \<and> free_list st' = free_list st \<and> thrtab st' = thrtab st"
proof -
  have nr: "t_state t \<noteq> THREAD_READY" using cur(2) by auto
  obtain st1 tn where s1: "suspend_switch st = Inr st1" "curthr st1 = n" "n \<noteq> curthr st"
    "lists_inv (thrs st1) (ready_list st1) (conds st1)
       (if t_state t = THREAD_RUNNING then rs @ [curthr st] else rs) ws"
    "view (thrs st1) = (if t_state t = THREAD_RUNNING
       then (view (thrs st))(n \<mapsto> tn\<lparr>t_state := THREAD_RUNNING, list_next := None\<rparr>,
              curthr st \<mapsto> t\<lparr>t_state := THREAD_READY, list_next := None\<rparr>)
       else (view (thrs st))(n \<mapsto> tn\<lparr>t_state := THREAD_RUNNING, list_next := None\<rparr>))"
    "pmem st1 = pmem st" "free_list st1 = free_list st" "thrtab st1 = thrtab st"
    using suspend_switch_ok [OF inv cur(1) nr] by blast
  have vn: "view (thrs st1) n = Some (tn\<lparr>t_state := THREAD_RUNNING, list_next := None\<rparr>)"
    using s1(3) by (simp add: s1(5))
  have "\<exists>p. view (thrs st1) (curthr st) = Some p \<and> t_state p \<noteq> THREAD_EXITED"
    using s1(3) cur view_Some [of "thrs st" "curthr st" t] by (auto simp: s1(5))
  then obtain p where "thrs st1 (curthr st) = Some p" "t_state p \<noteq> THREAD_EXITED"
    by (auto simp: view_def)
  from suspend_resume_alive [OF this] obtain st2 where
    s2: "suspend_resume (curthr st) st1 = Inr st2" "thrs st2 = thrs st1" "ready_list st2 = ready_list st1"
      "conds st2 = conds st1" "curthr st2 = n" "pmem st2 = pmem st" "free_list st2 = free_list st"
      "thrtab st2 = thrtab st"
    using s1 by auto
  with s1 running_view [OF vn] show ?thesis
    by (auto simp: suspend_self_def sched_inv_def)
qed

lemma thread_yield_ok:
  assumes "sched_inv st (n # rs) ws"
  shows "\<exists>st'. thread_yield st = Inr st' \<and> curthr st' = n \<and> sched_inv st' (rs @ [curthr st]) ws \<and>
    pmem st' = pmem st \<and> free_list st' = free_list st \<and> thrtab st' = thrtab st"
proof -
  obtain t where t: "thrs st (curthr st) = Some t" "t_state t = THREAD_RUNNING"
    using assms by (auto simp: sched_inv_def in_state_def)
  with suspend_self_ok [of st n rs ws t] assms show ?thesis
    by (simp add: thread_yield_def sched_inv_def)
qed

text \<open>The idle thread gives the processor to the first ready thread, and keeps it when there is none.\<close>

lemma idle_thread_func_ok:
  assumes "sched_inv st rs ws"
  shows "\<exists>st'. idle_thread_func st = Inr st' \<and> curthr st' = hd (rs @ [curthr st]) \<and> sched_inv st' (tl (rs @ [curthr st])) ws"
proof (cases rs)
  case Nil
  have "tlist (thrs st) (ready_list st) rs" using assms unfolding sched_inv_def lists_inv_def by blast
  then have "tlempty (ready_list st)" using Nil by (simp only: tlempty_tlist)
  then show ?thesis using Nil assms by (simp add: idle_thread_func_def intr_defs sched_inv_def)
next
  case (Cons n rs')
  have "tlist (thrs st) (ready_list st) rs" using assms unfolding sched_inv_def lists_inv_def by blast
  then have "\<not> tlempty (ready_list st)" using Cons by (simp add: tlempty_tlist)
  then show ?thesis using thread_yield_ok [of st n rs' ws] Cons assms by (auto simp: idle_thread_func_def)
qed

lemma condition_wait_ok:
  assumes inv: "sched_inv st (n # rs) ws"
  shows "\<exists>st'. condition_wait c st = Inr st' \<and> curthr st' = n \<and>
    sched_inv st' rs (ws(c := ws c @ [curthr st]))"
proof -
  let ?me = "curthr st"
  obtain t where t: "thrs st ?me = Some t" "t_state t = THREAD_RUNNING"
    using inv by (auto simp: sched_inv_def in_state_def)
  have li: "lists_inv (thrs st) (ready_list st) (conds st) (n # rs) ws"
    using inv by (simp add: sched_inv_def)
  have nl: "?me \<notin> set (n # rs)" "\<And>d. ?me \<notin> set (ws d)"
    using not_in_lists [OF li t(1)] t(2) by (auto simp: waits_for_def)
  let ?t = "t\<lparr>t_state := THREAD_WAITING, wait_cond := Some c, list_next := None\<rparr>"
  let ?h = "(thrs st)(?me \<mapsto> ?t)"
  have inv1: "lists_inv ?h (ready_list st) (conds st) (n # rs) ws" by (rule lists_inv_upd [OF li nl])
  obtain l' h' where ins: "tlinsert (conds st c) (Some ?me) ?h = Inr (l', h')"
    "lists_inv h' (ready_list st) ((conds st)(c := l')) (n # rs) (ws(c := ws c @ [?me]))"
    "same_cores ?h h'"
    using lists_inv_insert_wait [OF inv1 _ _ nl(2), of ?t c] by (auto simp: waits_for_def)
  obtain t' where t': "h' ?me = Some t'" "t_state t' = THREAD_WAITING"
    using same_cores_state [OF ins(3), of ?me ?t] core_eqD(1) by fastforce
  let ?st = "intr_restore (sie st) (st\<lparr>sie := False, conds := (conds st)(c := l'), thrs := h'\<rparr>)"
  have "condition_wait c st = suspend_self ?st"
    using t ins(1) by (simp add: condition_wait_def set_thread_def intr_defs Let_def)
  moreover have "\<exists>st'. suspend_self ?st = Inr st' \<and> curthr st' = n \<and>
      sched_inv st' rs (ws(c := ws c @ [?me]))"
    using suspend_self_ok [of ?st n rs "ws(c := ws c @ [?me])" t'] ins(2) t'
    by (auto simp: intr_restore_def Let_def)
  ultimately show ?thesis by simp
qed

subsection \<open>Waking the waiters\<close>

definition woken :: "tptr list \<Rightarrow> thrstore \<Rightarrow> thrstore" where
  "woken xs h = (\<lambda>x. if x \<in> set xs
     then map_option (\<lambda>t. t\<lparr>t_state := THREAD_READY, wait_cond := None\<rparr>) (h x) else h x)"

lemma wake_loop_ok:
  "chain h p xs None \<Longrightarrow> distinct xs \<Longrightarrow> \<forall>x \<in> set xs. in_state h (waits_for c) x \<Longrightarrow>
     wake_loop c p h = Some (Inr (woken xs h))"
proof (induction xs arbitrary: p h)
  case Nil
  then show ?case by (subst wake_loop.simps) (simp add: woken_def)
next
  case (Cons x xs)
  then obtain t where t: "p = Some x" "h x = Some t" "chain h (list_next t) xs None" "waits_for c t"
    by (auto simp: in_state_def)
  let ?h = "h(x \<mapsto> t\<lparr>t_state := THREAD_READY, wait_cond := None\<rparr>)"
  have x: "x \<notin> set xs" using Cons.prems(2) by simp
  have "same_links (set xs) h ?h" using x by (auto simp: same_links_def)
  then have "chain ?h (list_next t) xs None" using t(3) chain_cong by blast
  moreover have "\<forall>y \<in> set xs. in_state ?h (waits_for c) y"
    using Cons.prems(3) x by (auto simp: in_state_def)
  ultimately have "wake_loop c (list_next t) ?h = Some (Inr (woken xs ?h))"
    using Cons.IH Cons.prems(2) by simp
  moreover have "woken xs ?h = woken (x # xs) h" using x t(2) by (auto simp: woken_def)
  ultimately show ?case using t by (subst wake_loop.simps) (simp add: waits_for_def)
qed

lemma woken_lists:
  assumes inv: "lists_inv h rl cs rs ws"
  shows "tlist (woken (ws c) h) rl rs" and "tlist (woken (ws c) h) (cs d) (ws d)"
    and "x \<in> set rs \<or> x \<in> set (ws c) \<Longrightarrow> in_state (woken (ws c) h) ready x"
    and "d \<noteq> c \<Longrightarrow> x \<in> set (ws d) \<Longrightarrow> in_state (woken (ws c) h) (waits_for d) x"
proof -
  have "same_links X h (woken (ws c) h)" for X
    by (auto simp: same_links_def woken_def option.map_comp comp_def)
  then show "tlist (woken (ws c) h) rl rs" "tlist (woken (ws c) h) (cs d) (ws d)"
    using lists_invD(1,3) [OF inv] tlist_cong by blast+
  show "x \<in> set rs \<or> x \<in> set (ws c) \<Longrightarrow> in_state (woken (ws c) h) ready x"
    using lists_invD(2) [OF inv, of x] lists_invD(4) [OF inv, of x c]
    by (fastforce simp: woken_def in_state_def ready_def)
  show "d \<noteq> c \<Longrightarrow> x \<in> set (ws d) \<Longrightarrow> in_state (woken (ws c) h) (waits_for d) x"
    using lists_invD(4) [OF inv, of x d] lists_disjoint(2) [OF inv, of d c]
    by (auto simp: woken_def in_state_def)
qed

lemma condition_broadcast_lists:
  assumes inv: "lists_inv (thrs st) (ready_list st) (conds st) rs ws"
  shows "\<exists>st'. condition_broadcast c st = Some (Inr st') \<and>
    lists_inv (thrs st') (ready_list st') (conds st') (rs @ ws c) (ws(c := [])) \<and>
    view (thrs st') = view (woken (ws c) (thrs st)) \<and>
    curthr st' = curthr st \<and> sie st' = sie st \<and> thrtab st' = thrtab st \<and>
    resume_sie st' = resume_sie st \<and> pmem st' = pmem st \<and> free_list st' = free_list st"
proof (cases "ws c = []")
  case True
  then have e: "conds st c = tlclear" using lists_invD(3) [OF inv, of c] by simp
  then have "condition_broadcast c st = Some (Inr st)"
    by (simp add: condition_broadcast_def tlempty_def tlclear_def)
  moreover have "ws(c := []) = ws" using True by auto
  ultimately show ?thesis using inv True by (simp add: woken_def)
next
  case False
  let ?h = "woken (ws c) (thrs st)"
  have l: "tlist (thrs st) (conds st c) (ws c)" using lists_invD(3) [OF inv] .
  have ne: "\<not> tlempty (conds st c)" using tlempty_tlist [OF l] False by simp
  have wake: "wake_loop c (tl_head (conds st c)) (thrs st) = Some (Inr ?h)"
    using l lists_invD(4) [OF inv, of _ c] by (intro wake_loop_ok) (auto simp: tlist_def)
  note w = woken_lists [OF inv, where c = c]
  obtain l' h' where ap: "tlappend (ready_list st) (conds st c) ?h = Inr (l', tlclear, h')"
    "tlist h' l' (rs @ ws c)" "same_links (- set (rs @ ws c)) ?h h'" "same_cores ?h h'"
    using tlappend_ok [OF w(1) w(2) [of c] lists_disjoint(1) [OF inv]] unfolding same_cores_def by blast
  have "lists_inv h' l' ((conds st)(c := tlclear)) (rs @ ws c) (ws(c := []))"
  proof (rule lists_invI)
    show "tlist h' l' (rs @ ws c)" by (rule ap(2))
    show "in_state h' ready x" if "x \<in> set (rs @ ws c)" for x
      using that w(3) same_cores_lists(1) [OF ap(4)] by auto
    show "tlist h' (((conds st)(c := tlclear)) d) ((ws(c := [])) d)" for d
    proof (cases "d = c")
      case False
      then have "same_links (set (ws d)) ?h h'"
        using lists_disjoint(1) [OF inv, of d] lists_disjoint(2) [OF inv, of d c]
        by (intro same_links_mono [OF ap(3)]) auto
      then show ?thesis using w(2) [of d] tlist_cong False by auto
    qed simp
    show "in_state h' (waits_for d) x" if "x \<in> set ((ws(c := [])) d)" for d x
      using that w(4) [of d x] same_cores_lists(2) [OF ap(4)] by (auto split: if_splits)
  qed
  moreover have "condition_broadcast c st = Some (Inr (intr_restore (sie st)
      (st\<lparr>sie := False, ready_list := l', conds := (conds st)(c := tlclear), thrs := h'\<rparr>)))"
    using ne wake ap(1) by (simp add: condition_broadcast_def intr_defs Let_def)
  ultimately show ?thesis
    using ap(4) by (auto simp: intr_restore_def Let_def same_cores_view)
qed

lemma condition_broadcast_ok:
  assumes inv: "sched_inv st rs ws"
  shows "\<exists>st'. condition_broadcast c st = Some (Inr st') \<and> sched_inv st' (rs @ ws c) (ws(c := [])) \<and>
    curthr st' = curthr st \<and> sie st' = sie st"
proof -
  have li: "lists_inv (thrs st) (ready_list st) (conds st) rs ws" using inv by (simp add: sched_inv_def)
  obtain st' where st': "condition_broadcast c st = Some (Inr st')"
    "lists_inv (thrs st') (ready_list st') (conds st') (rs @ ws c) (ws(c := []))"
    "view (thrs st') = view (woken (ws c) (thrs st))" "curthr st' = curthr st" "sie st' = sie st"
    using condition_broadcast_lists [OF li] by blast
  obtain t where t: "thrs st (curthr st) = Some t" "t_state t = THREAD_RUNNING"
    using inv by (auto simp: sched_inv_def in_state_def)
  have "curthr st \<notin> set (ws c)" using not_in_lists(2) [OF li t(1)] t(2) by (auto simp: waits_for_def)
  then have "view (thrs st') (curthr st) = Some (t\<lparr>list_next := None\<rparr>)"
    unfolding st'(3) using t(1) by (simp add: view_def woken_def)
  then have "in_state (thrs st') (\<lambda>t. t_state t = THREAD_RUNNING) (curthr st')"
    using view_in_state [of "thrs st'" "curthr st" _ "\<lambda>t. t_state t = THREAD_RUNNING"] t(2) st'(4) by simp
  with st' show ?thesis by (simp add: sched_inv_def)
qed

subsection \<open>Yielding repeatedly\<close>

fun thread_yields :: "nat \<Rightarrow> 'a ts_scheme \<Rightarrow> 'a ts_scheme res" where
  "thread_yields 0 st = Inr st"
| "thread_yields (Suc k) st = bind_res (thread_yield st) (thread_yields k)"

lemma thread_yields_rotate:
  "sched_inv st rs ws \<Longrightarrow> rs \<noteq> [] \<Longrightarrow>
     \<exists>st' rs'. thread_yields k st = Inr st' \<and> sched_inv st' rs' ws \<and>
       curthr st' # rs' = rotate k (curthr st # rs)"
proof (induction k arbitrary: st rs)
  case 0
  then show ?case by auto
next
  case (Suc k)
  then obtain n ns where rs: "rs = n # ns" by (cases rs) auto
  obtain st1 where st1: "thread_yield st = Inr st1" "curthr st1 = n" "sched_inv st1 (ns @ [curthr st]) ws"
    using thread_yield_ok Suc.prems(1) unfolding rs by blast
  have "rotate (Suc k) (curthr st # rs) = rotate k (n # ns @ [curthr st])"
    by (simp add: rs rotate1_rotate_swap)
  with Suc.IH [OF st1(3)] st1(1,2) show ?case by auto
qed

section \<open>Exiting\<close>

lemma suspend_resume_exited:
  assumes "resume_sie st (curthr st) = Some s" and "thrs st prev = Some p"
    and "t_state p = THREAD_EXITED" and "\<not> page_aligned (stack_base p - PAGE_SIZE)"
  shows "suspend_resume prev st = Inl (Panic ''Invalid page address provided in memory_free_page'')"
  using assms memory_free_page_bad [of "stack_base p - PAGE_SIZE" st]
  by (simp add: suspend_resume_def del: page_const)

lemma thread_exit_panics:
  assumes inv: "sched_inv st (n # rs) ws" and cur: "thrs st (curthr st) = Some t"
    and notmain: "curthr st \<noteq> MainThread" and parent: "t_parent t = Some p"
    and resumed: "resume_sie st n = Some s" and bad: "\<not> page_aligned (stack_base t - PAGE_SIZE)"
  shows "thread_exit st = Some (Inl (Panic ''Invalid page address provided in memory_free_page''))"
proof -
  let ?c = "curthr st" and ?t = "t\<lparr>t_state := THREAD_EXITED\<rparr>"
  have li: "lists_inv (thrs st) (ready_list st) (conds st) (n # rs) ws" using inv by (simp add: sched_inv_def)
  have run: "t_state t = THREAD_RUNNING" using inv cur by (auto simp: sched_inv_def in_state_def)
  have nl: "?c \<notin> set (n # rs)" "\<And>d. ?c \<notin> set (ws d)"
    using not_in_lists [OF li cur] run by (auto simp: waits_for_def)
  let ?st = "st\<lparr>thrs := (thrs st)(?c \<mapsto> ?t)\<rparr>"
  have li1: "lists_inv (thrs ?st) (ready_list ?st) (conds ?st) (n # rs) ws"
    using lists_inv_upd [OF li nl] by simp
  obtain st1 where s1: "condition_broadcast (ChildExit p) ?st = Some (Inr st1)"
    "lists_inv (thrs st1) (ready_list st1) (conds st1) (n # rs @ ws (ChildExit p)) (ws(ChildExit p := []))"
    "view (thrs st1) = view (woken (ws (ChildExit p)) (thrs ?st))"
    "curthr st1 = ?c" "resume_sie st1 = resume_sie st"
    using condition_broadcast_lists [OF li1, of "ChildExit p"] by auto
  have "view (thrs st1) ?c = Some (?t\<lparr>list_next := None\<rparr>)"
    unfolding s1(3) using nl(2) by (simp add: view_def woken_def)
  then obtain t1 where t1: "thrs st1 ?c = Some t1" "t1\<lparr>list_next := None\<rparr> = ?t\<lparr>list_next := None\<rparr>"
    by (auto simp: view_def)
  note c1 = core_eqD [OF t1(2)]
  have t1c: "thrs st1 (curthr st1) = Some t1" "t_state t1 \<noteq> THREAD_READY" "t_state t1 \<noteq> THREAD_RUNNING"
    using t1(1) c1(1) s1(4) by auto
  obtain st2 tn where s2: "suspend_switch st1 = Inr st2" "curthr st2 = n" "n \<noteq> ?c"
    "view (thrs st2) = (view (thrs st1))(n \<mapsto> tn\<lparr>t_state := THREAD_RUNNING, list_next := None\<rparr>)"
    "resume_sie st2 = (resume_sie st)(?c \<mapsto> sie st1)"
    using suspend_switch_ok [OF s1(2) t1c(1,2)] t1c(3) s1(4,5) by auto
  have "view (thrs st2) ?c = Some (t1\<lparr>list_next := None\<rparr>)"
    unfolding s2(4) using s2(3) t1(1) by (simp add: view_def)
  then obtain t2 where t2: "thrs st2 ?c = Some t2" "t2\<lparr>list_next := None\<rparr> = t1\<lparr>list_next := None\<rparr>"
    by (auto simp: view_def)
  note c2 = core_eqD [OF t2(2)]
  have "suspend_resume ?c st2 = Inl (Panic ''Invalid page address provided in memory_free_page'')"
    using suspend_resume_exited [of st2 s ?c t2] resumed s2(2,3,5) t2(1) c1 c2 bad
    by (simp del: page_const)
  then have "suspend_self st1 = Inl (Panic ''Invalid page address provided in memory_free_page'')"
    using s2(1) s1(4) by (simp add: suspend_self_def)
  then show ?thesis
    using notmain cur parent s1(1) by (simp add: thread_exit_def set_thread_def)
qed

lemma anchor_not_aligned:
  assumes "page_aligned pg"
  shows "\<not> page_aligned (pg + PAGE_SIZE - sizeof_stack_anchor - PAGE_SIZE)"
proof
  assume "page_aligned (pg + PAGE_SIZE - sizeof_stack_anchor - PAGE_SIZE)"
  from aligned_diff [OF assms this] have "page_aligned 16" by (simp add: sizeof_stack_anchor_def)
  then show False by (simp add: aligned_def)
qed

section \<open>Spawning\<close>

lemma heap_inv_alloc_page:
  assumes "heap_inv st bs (p # ps)"
  shows "\<exists>st'. memory_alloc_page st = Inr (p, st') \<and> heap_inv st' ((p, 4096) # bs) ps \<and>
    mm.more st' = mm.more st \<and> page_aligned p"
proof -
  have fp: "free_prefix st (p # ps)" using assms by (simp add: heap_inv_def)
  then obtain st' where st': "memory_alloc_page st = Inr (p, st')" "free_prefix st' ps"
    "mm.more st' = mm.more st"
    using memory_alloc_page_Cons by blast
  have hs: "heap_start st' = heap_start st" "heap_end st' = heap_end st"
    using st'(3) by (cases st; cases st'; simp)+
  have "heap_inv st' ((p, unat PAGE_SIZE) # bs) ps"
    using heap_inv_whole_page [OF assms st'(2) hs, of PAGE_SIZE] by simp
  moreover have "page_aligned p" using mm_prefix.pool_page [OF fp] by simp
  ultimately show ?thesis using st'(1,3) by simp
qed

text \<open>Writing inside an allocated block keeps the heap's invariant.\<close>

lemma heap_inv_write:
  assumes inv: "heap_inv st bs ps" and b: "(p, n) \<in> set bs" and a: "unat a \<in> region p n"
  shows "heap_inv (st\<lparr>pmem := (pmem st)(a := w)\<rparr>) bs ps"
proof -
  have "a \<notin> set ps"
  proof
    assume "a \<in> set ps"
    moreover have "unat a \<in> page_region a" by (simp add: page_region_def region_def)
    moreover have "sorted_wrt disjnt (map (\<lambda>(p, n). region p n) bs @ map page_region ps)"
      using inv by (simp add: heap_inv_def)
    ultimately show False
      using a b by (fastforce simp: sorted_wrt_append disjnt_iff)
  qed
  then have "free_prefix (st\<lparr>pmem := (pmem st)(a := w)\<rparr>) ps"
    using inv unfolding heap_inv_def free_prefix_def by (auto intro: free_seg_upd [THEN iffD2])
  with inv show ?thesis by (simp add: heap_inv_def window_def)
qed

text \<open>\<open>thr_blocks st bs\<close>: every dynamically created thread structure is an allocated block.\<close>

definition thr_blocks :: "'a ts_scheme \<Rightarrow> (u64 \<times> nat) list \<Rightarrow> bool" where
  "thr_blocks st bs \<longleftrightarrow> (\<forall>a. thrs st (DynThread a) \<noteq> None \<longrightarrow> (a, 208) \<in> set bs)"

lemma ts_more_cong:
  assumes "mm.more st' = mm.more (st :: 'a ts_scheme)"
  shows "thrs st' = thrs st" "ready_list st' = ready_list st" "conds st' = conds st"
    "curthr st' = curthr st" "thrtab st' = thrtab st" "sie st' = sie st" "resume_sie st' = resume_sie st"
  using assms by (cases st; cases st'; simp)+

lemma kmalloc_ts:
  assumes "kmalloc sz st = Inr (a, st')"
  shows "thrs st' = thrs (st :: 'a ts_scheme)" "ready_list st' = ready_list st" "conds st' = conds st"
    "curthr st' = curthr st" "thrtab st' = thrtab st" "sie st' = sie st" "resume_sie st' = resume_sie st"
  using assms
  by (auto simp: kmalloc_def Let_def bind_res_Inr_conv memory_alloc_page_def split: if_splits)

lemma heap_inv_cong:
  assumes "pmem st' = pmem st" "free_list st' = free_list st" "heap_start st' = heap_start st"
    "heap_end st' = heap_end st"
  shows "heap_inv st' bs ps = heap_inv st bs ps"
  using assms by (simp add: heap_inv_def window_def free_prefix_def)

lemma ready_insert_heap:
  "ready_insert p st = Inr st' \<Longrightarrow> pmem st' = pmem st \<and> free_list st' = free_list st \<and>
     heap_start st' = heap_start st \<and> heap_end st' = heap_end st"
  by (auto simp: ready_insert_def bind_res_Inr_conv)

lemma unat_anchor:
  assumes "page_aligned pg"
  shows "unat (pg + PAGE_SIZE - sizeof_stack_anchor) = unat pg + 4080"
    and "unat (pg + PAGE_SIZE - sizeof_stack_anchor + 8) = unat pg + 4088"
proof -
  have eq: "pg + PAGE_SIZE - sizeof_stack_anchor = pg + 4080"
    "pg + PAGE_SIZE - sizeof_stack_anchor + 8 = pg + 4088"
    by (simp_all add: sizeof_stack_anchor_def)
  show "unat (pg + PAGE_SIZE - sizeof_stack_anchor) = unat pg + 4080"
    and "unat (pg + PAGE_SIZE - sizeof_stack_anchor + 8) = unat pg + 4088"
    unfolding eq using unat_page_top [OF assms] by (simp_all add: unat_word_ariths)
qed

lemma anchor_offset: "pg + PAGE_SIZE - sizeof_stack_anchor - pg = PAGE_SIZE - sizeof_stack_anchor"
  by simp

lemma heap_inv_fresh_page: "heap_inv st ((pg, 4096) # bs) ps \<Longrightarrow> pg \<notin> set ps"
proof
  assume "heap_inv st ((pg, 4096) # bs) ps" and "pg \<in> set ps"
  then have "disjnt (region pg 4096) (page_region pg)" by (auto simp: heap_inv_def)
  then show False by (auto simp: disjnt_iff page_region_def region_def)
qed

lemma thread_spawn_ok:
  assumes inv: "sched_inv st rs ws" and heap: "heap_inv st bs ps" and blk: "thr_blocks st bs"
    and pages: "2 \<le> length ps" and slot: "find_slot st = Some tid"
  shows "\<exists>st' a ps' t pg. thread_spawn junk name st = Inr (int tid, st') \<and>
    thrs st (DynThread a) = None \<and> sched_inv st' (rs @ [DynThread a]) ws \<and>
    heap_inv st' ((pg, 4096) # (a, 208) # bs) ps' \<and> thr_blocks st' ((pg, 4096) # (a, 208) # bs) \<and>
    pg \<in> set ps \<and> pg \<notin> set ps' \<and> set ps' \<subseteq> set ps \<and>
    thrtab st' = (thrtab st)[tid := Some (DynThread a)] \<and> curthr st' = curthr st \<and> sie st' = sie st \<and>
    thrs st' (DynThread a) = Some t \<and> t_parent t = Some (curthr st) \<and> t_id t = int tid \<and>
    t_name t = name \<and> t_state t = THREAD_READY \<and>
    stack_base t = pg + PAGE_SIZE - sizeof_stack_anchor \<and> stack_size t = PAGE_SIZE - sizeof_stack_anchor \<and>
    pmem st' (stack_base t) = a"
proof -
  have r: "round16 sizeof_thread = 208" by code_simp
  have "ps \<noteq> []" using pages by auto
  then obtain a st1 ps1 where k: "kmalloc sizeof_thread st = Inr (a, st1)" "ps1 \<in> {ps, tl ps}"
    "heap_inv st1 ((a, 208) # bs) ps1"
    using kmalloc_ok [OF heap, of sizeof_thread] by (auto simp: r word_le_nat_alt)
  note k1 = kmalloc_ts [OF k(1)]
  have "ps1 \<noteq> []" using k(2) pages by (cases ps) auto
  then obtain pg ps2 where ps1: "ps1 = pg # ps2" by (cases ps1) auto
  obtain st2 where s2: "memory_alloc_page st1 = Inr (pg, st2)"
    "heap_inv st2 ((pg, 4096) # (a, 208) # bs) ps2" "mm.more st2 = mm.more st1" "page_aligned pg"
    using heap_inv_alloc_page [of st1] k(3) ps1 by blast
  note k2 = ts_more_cong [OF s2(3)]
  let ?bs = "(pg, 4096) # (a, 208) # bs" and ?anc = "pg + PAGE_SIZE - sizeof_stack_anchor"
  have fresh: "thrs st (DynThread a) = None"
  proof (rule ccontr)
    assume "thrs st (DynThread a) \<noteq> None"
    then have "(a, 208) \<in> set bs" using blk by (simp add: thr_blocks_def)
    moreover have "sorted_wrt disjnt (map (\<lambda>(p, n). region p n) ((a, 208) # bs))"
      using k(3) by (simp add: heap_inv_def sorted_wrt_append)
    ultimately have "disjnt (region a 208) (region a 208)" by force
    moreover have "unat a \<in> region a 208" by (simp add: region_def)
    ultimately show False by (auto simp: disjnt_iff)
  qed
  obtain cur where cur: "thrs st (curthr st) = Some cur" "t_state cur = THREAD_RUNNING"
    using inv by (auto simp: sched_inv_def in_state_def)
  define t where "t = junk\<lparr>t_id := int tid, t_name := name, t_parent := Some (curthr st),
    t_proc := t_proc cur, stack_base := ?anc, stack_size := ?anc - pg, t_state := THREAD_READY\<rparr>"
  define st3 where "st3 = st2\<lparr>pmem := (pmem st2)(?anc := a, ?anc + 8 := 0),
    thrtab := (thrtab st)[tid := Some (DynThread a)], thrs := (thrs st)(DynThread a \<mapsto> t),
    resume_sie := (resume_sie st)(DynThread a := None), sie := False\<rparr>"
  have li: "lists_inv (thrs st) (ready_list st) (conds st) rs ws" using inv by (simp add: sched_inv_def)
  have nin: "DynThread a \<notin> set rs" "\<And>c. DynThread a \<notin> set (ws c)"
    using lists_invD(2,4) [OF li, of "DynThread a"] fresh by (auto simp: in_state_def)
  have li3: "lists_inv (thrs st3) (ready_list st3) (conds st3) rs ws"
    using lists_inv_upd [OF li nin] k1 k2 by (simp add: st3_def)
  obtain rl h where ins: "tlinsert (ready_list st3) (Some (DynThread a)) (thrs st3) = Inr (rl, h)"
    "lists_inv h rl (conds st3) (rs @ [DynThread a]) ws" "same_cores (thrs st3) h"
    using lists_inv_insert_ready [OF li3, of "DynThread a" t] nin by (auto simp: st3_def t_def)
  let ?st = "intr_restore (sie st) (st3\<lparr>ready_list := rl, thrs := h\<rparr>)"
  have run: "thread_spawn junk name st = Inr (int tid, ?st)"
    using slot k(1) s2(1) cur(1) k1 k2 ins(1)
    by (simp add: thread_spawn_def Let_def ready_insert_def intr_disable_def st3_def t_def del: page_const)
  obtain t' where t': "h (DynThread a) = Some t'" "t'\<lparr>list_next := None\<rparr> = t\<lparr>list_next := None\<rparr>"
    using same_cores_state [OF ins(3), of "DynThread a" t] by (auto simp: st3_def)
  note c = core_eqD [OF t'(2)]
  have "curthr st \<noteq> DynThread a" using cur(1) fresh by auto
  then obtain u where u: "h (curthr st) = Some u" "u\<lparr>list_next := None\<rparr> = cur\<lparr>list_next := None\<rparr>"
    using same_cores_state [OF ins(3), of "curthr st" cur] cur(1) by (auto simp: st3_def)
  have sched: "sched_inv ?st (rs @ [DynThread a]) ws"
    using ins(2) u(1) core_eqD(1) [OF u(2)] cur(2) k1 k2
    by (auto simp: sched_inv_def in_state_def intr_restore_def Let_def st3_def)
  have reg: "unat ?anc \<in> region pg 4096" "unat (?anc + 8) \<in> region pg 4096"
    unfolding unat_anchor [OF s2(4)] by (simp_all add: region_def)
  have "heap_inv (st2\<lparr>pmem := (pmem st2)(?anc := a), pmem := (pmem st2)(?anc := a, ?anc + 8 := 0)\<rparr>) ?bs ps2"
    using heap_inv_write [OF heap_inv_write [OF s2(2) _ reg(1), of a] _ reg(2), of 0]
    by (simp del: page_const)
  then have hp: "heap_inv ?st ?bs ps2"
    by (rule heap_inv_cong [THEN iffD2, rotated -1]) (auto simp: st3_def intr_restore_def Let_def)
  have "thr_blocks ?st ?bs"
    unfolding thr_blocks_def
  proof (intro allI impI)
    fix b assume "thrs ?st (DynThread b) \<noteq> None"
    then have "h (DynThread b) \<noteq> None" by (simp add: intr_restore_def Let_def split: if_splits)
    moreover have "map_option (list_next_update (\<lambda>_. None)) (h (DynThread b)) =
        map_option (list_next_update (\<lambda>_. None)) (thrs st3 (DynThread b))"
      using ins(3) by (simp add: same_cores_def)
    ultimately have "thrs st3 (DynThread b) \<noteq> None" by (metis option.map_disc_iff)
    then show "(b, 208) \<in> set ?bs"
      using blk by (auto simp: st3_def thr_blocks_def split: if_splits)
  qed
  moreover have "pg \<in> set ps" "set ps2 \<subseteq> set ps" using k(2) ps1 by (cases ps; auto)+
  moreover have "pg \<notin> set ps2" using heap_inv_fresh_page [OF s2(2)] .
  ultimately show ?thesis using run fresh sched hp t'(1) c s2(4) k1 k2
    by (intro exI [of _ ?st] exI [of _ a] exI [of _ ps2] exI [of _ t'] exI [of _ pg])
      (simp add: t_def st3_def intr_restore_def Let_def anchor_offset del: page_const)
qed

section \<open>Correctness properties\<close>

subsection \<open>A concrete system\<close>

text \<open>The state before \<open>thread_init\<close>, and the state after it and one spawned thread more.\<close>

definition demo_boot :: ts where
  "demo_boot = \<lparr>pmem = pmem demo_vm, free_list = free_list demo_vm, heap_start = 0x80010000,
     heap_end = 0x80010000, satp = satp demo_vm, main_mtag = main_mtag demo_vm, sstatus_sum = True,
     memory_initialized = True, thrs = static_threads, thrtab = static_thrtab, ready_list = tlclear,
     conds = (\<lambda>_. tlclear), curthr = MainThread, sie = False, resume_sie = (\<lambda>_. None),
     proc_mtag = (\<lambda>_. 0), thrmgr_initialized = False\<rparr>"

lemma demo_boot_heap: "heap_inv demo_boot [] demo_pages"
proof -
  have al: "\<forall>p \<in> set demo_pages. page_aligned p" using mm_prefix.pool_page [OF demo_prefix] by blast
  moreover have "distinct demo_pages" using mm_prefix.pool_distinct [OF demo_prefix] .
  ultimately have "sorted_wrt disjnt (map page_region demo_pages)" by (rule page_regions_disjoint [rotated])
  moreover have "window demo_boot = {}" by (simp add: window_def demo_boot_def)
  moreover have "free_prefix demo_boot demo_pages"
    using demo_prefix by (simp add: free_prefix_def demo_boot_def)
  ultimately show ?thesis by (simp add: heap_inv_def demo_boot_def aligned_def)
qed

lemma thread_init_ok:
  assumes "thrs st = static_threads" and "ready_list st = tlclear" and "conds st = (\<lambda>_. tlclear)"
  shows "\<exists>st'. thread_init ma ml ia il st = Inr st' \<and> sched_inv st' [IdleThread] (\<lambda>_. []) \<and>
    curthr st' = MainThread \<and> thrmgr_initialized st' \<and> thrtab st' = thrtab st \<and>
    pmem st' = pmem st \<and> free_list st' = free_list st \<and> heap_start st' = heap_start st \<and>
    heap_end st' = heap_end st \<and> (\<forall>a. thrs st' (DynThread a) = None) \<and> sie st' = sie st \<and>
    resume_sie st' = resume_sie st"
  using assms
  by (auto simp: thread_init_def init_main_thread_def init_idle_thread_def set_thread_def
      static_threads_def ready_insert_def tlinsert_def tlclear_def sched_inv_def lists_inv_def
      tlist_def in_state_def ready_def zero_thread_def)

text \<open>
  \<open>thread_init\<close> establishes the scheduler's invariant from the static data: the main
  thread runs, the idle thread is the only ready thread, and no thread waits.
\<close>

theorem thread_init_establishes_sched_inv:
  assumes "thrs st = static_threads" and "ready_list st = tlclear" and "conds st = (\<lambda>_. tlclear)"
  shows "\<exists>st'. thread_init ma ml ia il st = Inr st' \<and> sched_inv st' [IdleThread] (\<lambda>_. []) \<and>
    curthr st' = MainThread \<and> thrmgr_initialized st'"
  using thread_init_ok [OF assms] by blast

theorem thread_init_witness:
  "\<exists>st'. thread_init 0x80020FF0 0x80020000 0x80021FF0 0x80021000 demo_boot = Inr st' \<and>
     sched_inv st' [IdleThread] (\<lambda>_. [])"
proof -
  have "thrs demo_boot = static_threads" "ready_list demo_boot = tlclear" "conds demo_boot = (\<lambda>_. tlclear)"
    by (simp_all add: demo_boot_def)
  from thread_init_establishes_sched_inv [OF this] show ?thesis by blast
qed

definition demo_thr :: "ts \<Rightarrow> bool" where
  "demo_thr st \<longleftrightarrow> sched_inv st [IdleThread] (\<lambda>_. []) \<and> curthr st = MainThread \<and>
     thrtab st = static_thrtab \<and> heap_inv st [] demo_pages \<and> thr_blocks st [] \<and> resume_sie st = (\<lambda>_. None)"

lemma demo_thr_exists: "\<exists>st. demo_thr st"
proof -
  obtain st where st: "thread_init 0x80020FF0 0x80020000 0x80021FF0 0x80021000 demo_boot = Inr st"
    "sched_inv st [IdleThread] (\<lambda>_. [])" "curthr st = MainThread" "thrtab st = thrtab demo_boot"
    "pmem st = pmem demo_boot" "free_list st = free_list demo_boot" "heap_start st = heap_start demo_boot"
    "heap_end st = heap_end demo_boot" "\<forall>a. thrs st (DynThread a) = None" "resume_sie st = resume_sie demo_boot"
    using thread_init_ok [of demo_boot "0x80020FF0" "0x80020000" "0x80021FF0" "0x80021000"]
    by (auto simp: demo_boot_def)
  have "heap_inv st [] demo_pages" using heap_inv_cong [OF st(5-8)] demo_boot_heap by blast
  with st show ?thesis
    by (intro exI [of _ st]) (simp add: demo_thr_def thr_blocks_def demo_boot_def)
qed

subsection \<open>Scheduling\<close>

text \<open>
  C14. \<open>thread_yield\<close> is a fair round robin: with \<open>rs\<close> ready, \<open>k\<close> yields in a row rotate the
  cycle of the running thread and the ready threads by \<open>k\<close>, every thread gets the processor
  within one round, and the scheduler's invariant is kept throughout.
\<close>

theorem thread_yield_round_robin:
  assumes "sched_inv st rs ws" and "rs \<noteq> []"
  shows "\<exists>st' rs'. thread_yields k st = Inr st' \<and> sched_inv st' rs' ws \<and>
    curthr st' # rs' = rotate k (curthr st # rs)"
  by (rule thread_yields_rotate [OF assms])

theorem thread_yield_witness:
  "\<exists>(st :: ts) st'. curthr st = MainThread \<and> thread_yields 1 st = Inr st' \<and> curthr st' = IdleThread"
proof -
  obtain st where "demo_thr st" using demo_thr_exists by blast
  then have s: "sched_inv st [IdleThread] (\<lambda>_. [])" "curthr st = MainThread" by (simp_all add: demo_thr_def)
  from thread_yield_round_robin [OF s(1), of 1] s(2) show ?thesis by auto
qed

text \<open>
  C20. \<open>condition_wait\<close> puts the running thread at the end of the wait list of the condition, in
  state WAITING, and continues with the first ready thread.
\<close>

theorem condition_wait_correct:
  assumes "sched_inv st (n # rs) ws"
  shows "\<exists>st'. condition_wait c st = Inr st' \<and> curthr st' = n \<and>
    sched_inv st' rs (ws(c := ws c @ [curthr st]))"
  by (rule condition_wait_ok [OF assms])

theorem condition_wait_witness:
  "\<exists>(st :: ts) st'. condition_wait (DevCond 0) st = Inr st' \<and> curthr st' = IdleThread \<and>
     sched_inv st' [] ((\<lambda>_. [])(DevCond 0 := [MainThread]))"
proof -
  obtain st where "demo_thr st" using demo_thr_exists by blast
  then have s: "sched_inv st [IdleThread] (\<lambda>_. [])" "curthr st = MainThread" by (simp_all add: demo_thr_def)
  from condition_wait_correct [OF s(1), of "DevCond 0"] s(2) show ?thesis by auto
qed

text \<open>
  C19. \<open>condition_broadcast\<close> returns, moves all the threads that wait on the condition to the end
  of the ready list in the order they started to wait, and leaves no one waiting; the running
  thread and the interrupt state are as before.
\<close>

theorem condition_broadcast_correct:
  assumes "sched_inv st rs ws"
  shows "\<exists>st'. condition_broadcast c st = Some (Inr st') \<and>
    sched_inv st' (rs @ ws c) (ws(c := [])) \<and> curthr st' = curthr st \<and> sie st' = sie st"
  by (rule condition_broadcast_ok [OF assms])

theorem condition_broadcast_witness:
  "\<exists>(st :: ts) st'. condition_broadcast (DevCond 0) st = Some (Inr st') \<and>
     sched_inv st' [MainThread] (\<lambda>_. [])"
proof -
  obtain st where "demo_thr st" using demo_thr_exists by blast
  then have s: "sched_inv st [IdleThread] (\<lambda>_. [])" "curthr st = MainThread" by (simp_all add: demo_thr_def)
  obtain st1 :: ts where "sched_inv st1 [] ((\<lambda>_. [])(DevCond 0 := [MainThread]))"
    using condition_wait_ok [OF s(1), of "DevCond 0"] s(2) by auto
  moreover have "((\<lambda>_. [])(DevCond 0 := [MainThread]))(DevCond 0 := []) = (\<lambda>_. [])" by auto
  ultimately show ?thesis
    using condition_broadcast_correct [of st1 "[]" _ "DevCond 0"] by fastforce
qed

text \<open>
  C21. \<open>thread_spawn\<close> with a free slot and two free pages creates a thread that is distinct from
  all others, whatever the memory of its structure held: the structure is a fresh heap block, its
  stack is a page taken off the free list that overlaps no other block and holds the thread pointer
  at its top; the thread is entered in the thread table and becomes the last ready thread, and the
  scheduler's and the heap's invariants are kept.
\<close>

theorem thread_spawn_correct:
  assumes "sched_inv st rs ws" and "heap_inv st bs ps" and "thr_blocks st bs"
    and "2 \<le> length ps" and "find_slot st = Some tid"
  shows "\<exists>st' a ps' t pg. thread_spawn junk name st = Inr (int tid, st') \<and>
    thrs st (DynThread a) = None \<and> sched_inv st' (rs @ [DynThread a]) ws \<and>
    heap_inv st' ((pg, 4096) # (a, 208) # bs) ps' \<and> thr_blocks st' ((pg, 4096) # (a, 208) # bs) \<and>
    pg \<in> set ps \<and> pg \<notin> set ps' \<and> set ps' \<subseteq> set ps \<and>
    thrtab st' = (thrtab st)[tid := Some (DynThread a)] \<and> curthr st' = curthr st \<and> sie st' = sie st \<and>
    thrs st' (DynThread a) = Some t \<and> t_parent t = Some (curthr st) \<and> t_id t = int tid \<and>
    t_name t = name \<and> t_state t = THREAD_READY \<and>
    stack_base t = pg + PAGE_SIZE - sizeof_stack_anchor \<and> stack_size t = PAGE_SIZE - sizeof_stack_anchor \<and>
    pmem st' (stack_base t) = a"
  by (rule thread_spawn_ok [OF assms])

theorem thread_spawn_witness:
  "\<exists>(st :: ts) st' a t pg. thread_spawn zero_thread ''worker'' st = Inr (1, st') \<and>
     sched_inv st' [IdleThread, DynThread a] (\<lambda>_. []) \<and> thrs st' (DynThread a) = Some t \<and>
     pg \<in> set demo_pages \<and> stack_base t = pg + PAGE_SIZE - sizeof_stack_anchor"
proof -
  obtain st where st: "demo_thr st" using demo_thr_exists by blast
  have "find_slot st = Some 1"
    using st by (simp add: demo_thr_def find_slot_def static_thrtab_def NTHR_def MAIN_TID_def
        IDLE_TID_def upt_rec)
  moreover have "2 \<le> length demo_pages" by (simp add: demo_pages_def)
  ultimately show ?thesis
    using thread_spawn_correct [of st "[IdleThread]" "\<lambda>_. []" "[]" demo_pages 1 zero_thread "''worker''"] st
    unfolding demo_thr_def by fastforce
qed

text \<open>
  C37. A thread created by \<open>thread_spawn\<close> cannot exit: its \<open>stack_base\<close> is the stack anchor, 16
  bytes below the end of its stack page, so the address \<open>stack_base - PAGE_SIZE\<close> that the next
  thread releases is not page aligned, and the kernel panics as soon as the next thread is
  one that was suspended before.
\<close>

theorem thread_exit_frees_wrong_address:
  assumes "sched_inv st (n # rs) ws" and "thrs st (curthr st) = Some t"
    and "curthr st \<noteq> MainThread" and "t_parent t = Some p" and "resume_sie st n = Some s"
    and "page_aligned pg" and "stack_base t = pg + PAGE_SIZE - sizeof_stack_anchor"
  shows "thread_exit st = Some (Inl (Panic ''Invalid page address provided in memory_free_page''))"
  using thread_exit_panics [OF assms(1-5)] anchor_not_aligned [OF assms(6)] assms(7) by simp

definition demo_exiting :: ts where
  "demo_exiting = demo_boot\<lparr>
     thrs := [MainThread \<mapsto> zero_thread\<lparr>t_state := THREAD_READY\<rparr>,
              DynThread 0x80010000 \<mapsto> zero_thread\<lparr>t_state := THREAD_RUNNING, t_parent := Some MainThread,
                stack_base := 0x80001000 + PAGE_SIZE - sizeof_stack_anchor\<rparr>],
     ready_list := \<lparr>tl_head = Some MainThread, tl_tail = Some MainThread\<rparr>,
     curthr := DynThread 0x80010000, resume_sie := [MainThread \<mapsto> True]\<rparr>"

theorem thread_exit_witness:
  "thread_exit demo_exiting = Some (Inl (Panic ''Invalid page address provided in memory_free_page''))"
proof (rule thread_exit_frees_wrong_address [of _ MainThread _ _
      "zero_thread\<lparr>t_state := THREAD_RUNNING, t_parent := Some MainThread,
         stack_base := 0x80001000 + PAGE_SIZE - sizeof_stack_anchor\<rparr>" MainThread])
  show "sched_inv demo_exiting [MainThread] (\<lambda>_. [])"
    by (simp add: sched_inv_def lists_inv_def tlist_def in_state_def ready_def demo_exiting_def
        demo_boot_def zero_thread_def tlclear_def)
  show "page_aligned (0x80001000 :: u64)" by (simp add: aligned_def)
qed (simp_all add: demo_exiting_def demo_boot_def zero_thread_def)

subsection \<open>Sleep locks\<close>

text \<open>
  \<open>lock_ok\<close>: no thread waits for a lock that is free, and a held lock has a valid holder.
\<close>

definition lock_ok :: "lock \<Rightarrow> (cptr \<Rightarrow> tptr list) \<Rightarrow> bool" where
  "lock_ok lk ws \<longleftrightarrow> (lk_tid lk = - 1 \<longrightarrow> ws (lk_cond lk) = [])"

text \<open>
  Sleep locks lose no wakeup: one round of \<open>lock_acquire\<close> takes a free lock for the running
  thread, or puts the running thread into the lock's wait list when the lock is held, and in
  both cases no thread waits for a free lock afterwards.
\<close>

theorem lock_acquire_round_correct:
  assumes "sched_inv st (n # rs) ws" and "lock_ok lk ws"
    and "thrs st (curthr st) = Some t" and "0 \<le> t_id t"
  shows "\<exists>got lk' st' rs' ws'. lock_acquire_round lk st = Inr (got, lk', st') \<and>
    sched_inv st' rs' ws' \<and> lock_ok lk' ws' \<and>
    (if lk_tid lk = - 1
     then got \<and> lk_tid lk' = t_id t \<and> curthr st' = curthr st \<and> rs' = n # rs \<and> ws' = ws \<and> sie st' = sie st
     else \<not> got \<and> lk' = lk \<and> curthr st' = n \<and> rs' = rs \<and>
          ws' = ws(lk_cond lk := ws (lk_cond lk) @ [curthr st]))"
proof (cases "lk_tid lk = - 1")
  case True
  let ?st = "intr_restore (sie st) (st\<lparr>sie := False\<rparr>)"
  have "lock_acquire_round lk st = Inr (True, lk\<lparr>lk_tid := t_id t\<rparr>, ?st)"
    using True assms(3) by (simp add: lock_acquire_round_def intr_disable_def running_thread_def)
  moreover have "sched_inv ?st (n # rs) ws" "curthr ?st = curthr st" "sie ?st = sie st"
    using assms(1) by (simp_all add: sched_inv_def intr_restore_def Let_def)
  ultimately show ?thesis using True assms(4) by (auto simp: lock_ok_def)
next
  case False
  have "sched_inv (st\<lparr>sie := False\<rparr>) (n # rs) ws" using assms(1) by (simp add: sched_inv_def)
  from condition_wait_ok [OF this, of "lk_cond lk"]
  obtain st' where st': "condition_wait (lk_cond lk) (st\<lparr>sie := False\<rparr>) = Inr st'" "curthr st' = n"
    "sched_inv st' rs (ws(lk_cond lk := ws (lk_cond lk) @ [curthr st]))"
    by auto
  then have "lock_acquire_round lk st = Inr (False, lk, st')"
    using False by (simp add: lock_acquire_round_def intr_disable_def)
  with st' False show ?thesis by (auto simp: lock_ok_def)
qed

theorem lock_acquire_round_witness:
  "\<exists>(st :: ts) lk' st'. lock_acquire_round \<lparr>lk_cond = DevCond 0, lk_tid = - 1\<rparr> st = Inr (True, lk', st') \<and>
     curthr st' = MainThread"
proof -
  obtain st where st: "demo_thr st" using demo_thr_exists by blast
  then have s: "sched_inv st [IdleThread] (\<lambda>_. [])" "curthr st = MainThread" by (simp_all add: demo_thr_def)
  obtain t where t: "thrs st (curthr st) = Some t" using s(1) by (auto simp: sched_inv_def in_state_def)
  let ?st = "st\<lparr>thrs := (thrs st)(curthr st \<mapsto> t\<lparr>t_id := 0\<rparr>)\<rparr>"
  have li: "lists_inv (thrs st) (ready_list st) (conds st) [IdleThread] (\<lambda>_. [])"
    using s(1) by (simp add: sched_inv_def)
  have "sched_inv ?st [IdleThread] (\<lambda>_. [])"
    using lists_inv_upd [OF li, of "curthr st"] s t by (auto simp: sched_inv_def in_state_def)
  from lock_acquire_round_correct [OF this, of "\<lparr>lk_cond = DevCond 0, lk_tid = - 1\<rparr>" "t\<lparr>t_id := 0\<rparr>"] s(2)
  show ?thesis by (fastforce simp: lock_ok_def)
qed

text \<open>
  \<open>lock_release\<close> by the holder frees the lock and makes every thread that waits for it
  ready, in the order they came; by any other thread it fails the assertion.
\<close>

theorem lock_release_correct:
  assumes "sched_inv st rs ws" and "thrs st (curthr st) = Some t"
  shows "if lk_tid lk = t_id t
    then \<exists>st'. lock_release lk st = Some (Inr (lk\<lparr>lk_tid := - 1\<rparr>, st')) \<and>
      sched_inv st' (rs @ ws (lk_cond lk)) (ws(lk_cond lk := [])) \<and>
      lock_ok (lk\<lparr>lk_tid := - 1\<rparr>) (ws(lk_cond lk := [])) \<and> curthr st' = curthr st
    else lock_release lk st = Some (Inl AssertFailed)"
  using condition_broadcast_ok [OF assms(1), of "lk_cond lk"] assms(2)
  by (auto simp: lock_release_def running_thread_def lock_ok_def)

theorem lock_release_witness:
  "\<exists>(st :: ts) (t :: thread) st'. lock_release \<lparr>lk_cond = DevCond 0, lk_tid = t_id t\<rparr> st =
     Some (Inr (\<lparr>lk_cond = DevCond 0, lk_tid = - 1\<rparr>, st')) \<and> curthr st' = MainThread"
proof -
  obtain st where st: "demo_thr st" using demo_thr_exists by blast
  then have s: "sched_inv st [IdleThread] (\<lambda>_. [])" "curthr st = MainThread" by (simp_all add: demo_thr_def)
  obtain t where t: "thrs st (curthr st) = Some t" using s(1) by (auto simp: sched_inv_def in_state_def)
  obtain st' where "lock_release \<lparr>lk_cond = DevCond 0, lk_tid = t_id t\<rparr> st =
      Some (Inr (\<lparr>lk_cond = DevCond 0, lk_tid = - 1\<rparr>, st'))" "curthr st' = MainThread"
    using lock_release_correct [OF s(1) t, of "\<lparr>lk_cond = DevCond 0, lk_tid = t_id t\<rparr>"] s(2) by auto
  then show ?thesis by blast
qed

end
