(* ===== verification/Uart.thy ===== *)
theory Uart
  imports Thread
begin

text \<open>
  The serial port driver \<open>kern/uart.c\<close>: its ring buffers, the interrupt service routine, and
  reading and writing through the buffers.

  A ring buffer holds two free-running 16-bit positions and an array of 64 bytes. It
  implements a bounded queue for every value of the positions, also across their wrap-around,
  because 64 divides \<open>2 ^ 16\<close>. The device registers the driver writes are part of the device
  state; what it reads from the hardware (line status, received byte) is an argument. The
  bytes written to the transmit register are recorded in order.
\<close>

section \<open>Ring buffers\<close>

definition SERIAL_RBUFSZ :: nat where "SERIAL_RBUFSZ = 64"

record ringbuf =
  hpos :: u16
  tpos :: u16
  rdata :: "u8 list"

definition rbuf_init :: "ringbuf \<Rightarrow> ringbuf" where
  "rbuf_init r = r\<lparr>hpos := 0, tpos := 0\<rparr>"

definition rbuf_empty :: "ringbuf \<Rightarrow> bool" where
  "rbuf_empty r = (hpos r = tpos r)"

definition rbuf_full :: "ringbuf \<Rightarrow> bool" where
  "rbuf_full r = (tpos r - hpos r = of_nat SERIAL_RBUFSZ)"

definition rbuf_put :: "u8 \<Rightarrow> ringbuf \<Rightarrow> ringbuf" where
  "rbuf_put c r = r\<lparr>rdata := (rdata r)[unat (tpos r) mod SERIAL_RBUFSZ := c], tpos := tpos r + 1\<rparr>"

definition rbuf_get :: "ringbuf \<Rightarrow> u8 \<times> ringbuf" where
  "rbuf_get r = (rdata r ! (unat (hpos r) mod SERIAL_RBUFSZ), r\<lparr>hpos := hpos r + 1\<rparr>)"

text \<open>\<open>rb_rep r xs\<close>: the buffer holds the bytes \<open>xs\<close>, oldest first.\<close>

definition rb_rep :: "ringbuf \<Rightarrow> u8 list \<Rightarrow> bool" where
  "rb_rep r xs \<longleftrightarrow> length (rdata r) = 64 \<and> length xs \<le> 64 \<and> tpos r = hpos r + of_nat (length xs) \<and>
     (\<forall>i < length xs. rdata r ! (unat (hpos r + of_nat i) mod 64) = xs ! i)"

lemma unat_u16_add_mod:
  fixes p :: u16
  shows "unat (p + of_nat i) mod 64 = (unat p + i) mod 64"
proof -
  have "(64 :: nat) dvd 65536" by simp
  then have "(unat p + i) mod 65536 mod 64 = (unat p + i) mod 64" by (rule mod_mod_cancel)
  then show ?thesis by (simp add: unat_word_ariths unat_of_nat mod_add_right_eq)
qed

lemma mod_distinct:
  assumes "i < 64" and "j < 64" and "i \<noteq> j"
  shows "(p + i) mod 64 \<noteq> (p + j) mod (64 :: nat)"
proof -
  define q where "q = p mod 64"
  have q: "q < 64" by (simp add: q_def)
  have m: "(p + k) mod 64 = (if q + k < 64 then q + k else q + k - 64)" if "k < 64" for k
  proof -
    have "(p + k) mod 64 = (q + k) mod 64" by (simp add: q_def mod_add_left_eq)
    then show ?thesis using q that by (simp add: mod_if)
  qed
  show ?thesis unfolding m [OF assms(1)] m [OF assms(2)] using assms q by auto
qed

lemma rb_rep_empty: "rb_rep r xs \<Longrightarrow> rbuf_empty r \<longleftrightarrow> xs = []"
proof -
  assume r: "rb_rep r xs"
  then have "unat (of_nat (length xs) :: u16) = length xs" by (simp add: rb_rep_def unat_of_nat)
  then have "(of_nat (length xs) :: u16) = 0 \<longleftrightarrow> xs = []" by (simp add: word_unat_eq_iff)
  with r show ?thesis by (auto simp: rb_rep_def rbuf_empty_def)
qed

lemma rb_rep_full: "rb_rep r xs \<Longrightarrow> rbuf_full r \<longleftrightarrow> length xs = 64"
proof -
  assume r: "rb_rep r xs"
  then have "unat (of_nat (length xs) :: u16) = length xs" by (simp add: rb_rep_def unat_of_nat)
  then have "(of_nat (length xs) :: u16) = 64 \<longleftrightarrow> length xs = 64" by (simp add: word_unat_eq_iff)
  with r show ?thesis by (auto simp: rb_rep_def rbuf_full_def SERIAL_RBUFSZ_def)
qed

lemma rb_rep_init: "length (rdata r) = 64 \<Longrightarrow> rb_rep (rbuf_init r) []"
  by (simp add: rb_rep_def rbuf_init_def)

lemma rb_rep_put:
  assumes "rb_rep r xs" and "length xs < 64"
  shows "rb_rep (rbuf_put c r) (xs @ [c])"
proof -
  let ?n = "length xs"
  have r: "length (rdata r) = 64" "tpos r = hpos r + of_nat ?n"
    "\<And>i. i < ?n \<Longrightarrow> rdata r ! (unat (hpos r + of_nat i) mod 64) = xs ! i"
    using assms(1) by (auto simp: rb_rep_def)
  have "(rdata (rbuf_put c r)) ! (unat (hpos r + of_nat i) mod 64) = (xs @ [c]) ! i" if "i < Suc ?n" for i
  proof (cases "i = ?n")
    case True
    then show ?thesis using r(1,2) by (simp add: rbuf_put_def SERIAL_RBUFSZ_def)
  next
    case False
    with that have i: "i < ?n" by simp
    then have "(unat (hpos r) + i) mod 64 \<noteq> (unat (hpos r) + ?n) mod 64"
      using assms(2) by (intro mod_distinct) auto
    then have "unat (hpos r + of_nat i) mod 64 \<noteq> unat (hpos r + of_nat ?n) mod 64"
      by (simp only: unat_u16_add_mod not_False_eq_True)
    with r(3) [OF i] i show ?thesis by (simp add: rbuf_put_def SERIAL_RBUFSZ_def r(2) nth_append)
  qed
  with r assms(2) show ?thesis by (simp add: rb_rep_def rbuf_put_def add.assoc)
qed

lemma rb_rep_get:
  assumes "rb_rep r (x # xs)"
  shows "fst (rbuf_get r) = x" and "rb_rep (snd (rbuf_get r)) xs"
proof -
  have r: "length (rdata r) = 64" "length xs < 64" "tpos r = hpos r + of_nat (Suc (length xs))"
    "\<And>i. i < Suc (length xs) \<Longrightarrow> rdata r ! (unat (hpos r + of_nat i) mod 64) = (x # xs) ! i"
    using assms by (auto simp: rb_rep_def)
  show "fst (rbuf_get r) = x" using r(4) [of 0] by (simp add: rbuf_get_def SERIAL_RBUFSZ_def)
  have "rdata r ! (unat (hpos r + 1 + of_nat i) mod 64) = xs ! i" if "i < length xs" for i
    using r(4) [of "Suc i"] that by (simp add: add.assoc)
  with r show "rb_rep (snd (rbuf_get r)) xs" by (simp add: rb_rep_def rbuf_get_def add.assoc)
qed

interpretation rbuf: fifo rb_rep "\<lambda>xs _ _. length xs < 64" "\<lambda>c r. Inr (rbuf_put c r)"
  "\<lambda>r. Inr (rbuf_get r)"
proof
  show "rb_rep s xs \<Longrightarrow> length xs < 64 \<Longrightarrow> \<exists>s'. Inr (rbuf_put e s) = Inr s' \<and> rb_rep s' (xs @ [e])"
    for s xs e by (simp add: rb_rep_put)
  show "rb_rep s (x # xs) \<Longrightarrow> \<exists>s'. Inr (rbuf_get s) = Inr (x, s') \<and> rb_rep s' xs" for s x xs
    using rb_rep_get [of s x xs] by (cases "rbuf_get s") auto
qed

section \<open>The device\<close>

record uart_device =
  u_irqno :: int
  rxovrcnt :: u32
  u_refcnt :: u64
  rxbnotempty :: cptr
  txbnotfull :: cptr
  rxbuf :: ringbuf
  txbuf :: ringbuf
  ier :: u8
  lcr :: u8
  dll :: u8
  dlm :: u8
  thr_out :: "u8 list"

definition LCR_DLAB :: u8 where "LCR_DLAB = 128"
definition LSR_DR :: u8 where "LSR_DR = 1"
definition LSR_OE :: u8 where "LSR_OE = 2"
definition LSR_THRE :: u8 where "LSR_THRE = 32"
definition IER_DREIE :: u8 where "IER_DREIE = 1"
definition IER_THREIE :: u8 where "IER_THREIE = 2"
definition EBUSY :: int where "EBUSY = 2"

text \<open>The part of \<open>uart_attach\<close> that sets up a device other than the console.\<close>

definition uart_attach_dev :: "int \<Rightarrow> uart_device \<Rightarrow> 'a ts_scheme \<Rightarrow> uart_device \<times> 'a ts_scheme" where
  "uart_attach_dev irqno dev st =
     (let dev = dev\<lparr>u_irqno := irqno\<rparr>;
          st = condition_init (rxbnotempty dev) st;
          st = condition_init (txbnotfull dev) st;
          dev = dev\<lparr>rxbuf := rbuf_init (rxbuf dev), txbuf := rbuf_init (txbuf dev)\<rparr>;
          dev = dev\<lparr>ier := 0, lcr := LCR_DLAB, dll := 1, dlm := 0\<rparr>
      in (dev\<lparr>lcr := 0\<rparr>, st))"

definition uart_open :: "uart_device \<Rightarrow> int \<times> uart_device" where
  "uart_open dev =
     (if u_refcnt dev \<noteq> 0 then (- EBUSY, dev)
      else (0, dev\<lparr>rxbuf := rbuf_init (rxbuf dev), txbuf := rbuf_init (txbuf dev),
                   ier := IER_DREIE, u_refcnt := 1\<rparr>))"

definition uart_open_ebusy :: int where
  "uart_open_ebusy = - EBUSY"

definition uart_close :: "uart_device \<Rightarrow> uart_device" where
  "uart_close dev = dev\<lparr>ier := 0\<rparr>"

text \<open>
  \<open>uart_isr\<close> with the line status \<open>line_status\<close> and, when it is read, the received byte \<open>rbr\<close>.
\<close>

definition uart_isr_rx ::
    "u8 \<Rightarrow> u8 \<Rightarrow> uart_device \<Rightarrow> 'a ts_scheme \<Rightarrow> (uart_device \<times> 'a ts_scheme) res option" where
  "uart_isr_rx line_status rbr dev st =
     (if line_status AND LSR_DR \<noteq> 0 then
        (if \<not> rbuf_full (rxbuf dev) then
           map_option (\<lambda>r. bind_res r (\<lambda>st. Inr (dev\<lparr>rxbuf := rbuf_put rbr (rxbuf dev)\<rparr>, st)))
             (if rbuf_empty (rxbuf dev) then condition_broadcast (rxbnotempty dev) st else Some (Inr st))
         else Some (Inr (dev\<lparr>ier := ier dev AND NOT IER_DREIE\<rparr>, st)))
      else Some (Inr (dev, st)))"

definition uart_isr_tx ::
    "u8 \<Rightarrow> uart_device \<Rightarrow> 'a ts_scheme \<Rightarrow> (uart_device \<times> 'a ts_scheme) res option" where
  "uart_isr_tx line_status dev st =
     (if line_status AND LSR_THRE \<noteq> 0 then
        (if \<not> rbuf_empty (txbuf dev) then
           map_option (\<lambda>r. bind_res r (\<lambda>st.
               let (c, b) = rbuf_get (txbuf dev)
               in Inr (dev\<lparr>txbuf := b, thr_out := thr_out dev @ [c]\<rparr>, st)))
             (if rbuf_full (txbuf dev) then condition_broadcast (txbnotfull dev) st else Some (Inr st))
         else Some (Inr (dev\<lparr>ier := ier dev AND NOT IER_THREIE\<rparr>, st)))
      else Some (Inr (dev, st)))"

definition uart_isr ::
    "u8 \<Rightarrow> u8 \<Rightarrow> uart_device \<Rightarrow> 'a ts_scheme \<Rightarrow> (uart_device \<times> 'a ts_scheme) res option" where
  "uart_isr line_status rbr dev st =
     (let dev = (if line_status AND LSR_OE \<noteq> 0 then dev\<lparr>rxovrcnt := rxovrcnt dev + 1\<rparr> else dev) in
      case uart_isr_rx line_status rbr dev st of
        None \<Rightarrow> None
      | Some (Inl e) \<Rightarrow> Some (Inl e)
      | Some (Inr (dev, st)) \<Rightarrow> uart_isr_tx line_status dev st)"

text \<open>The copy loops of \<open>uart_read\<close> and \<open>uart_write\<close>.\<close>

fun read_loop :: "nat \<Rightarrow> ringbuf \<Rightarrow> u8 list \<times> ringbuf" where
  "read_loop 0 r = ([], r)"
| "read_loop (Suc n) r =
     (if rbuf_empty r then ([], r)
      else let (c, r) = rbuf_get r; (cs, r) = read_loop n r in (c # cs, r))"

fun write_loop :: "u8 list \<Rightarrow> ringbuf \<Rightarrow> u8 list \<times> ringbuf" where
  "write_loop [] r = ([], r)"
| "write_loop (c # cs) r = (if rbuf_full r then (c # cs, r) else write_loop cs (rbuf_put c r))"

definition LONG_MAX :: nat where "LONG_MAX = 9223372036854775807"

text \<open>
  \<open>uart_read\<close> with a buffer of \<open>bufsz\<close> bytes: \<open>None\<close> as first component says that the thread went
  to sleep waiting for data, else the bytes read.
\<close>

definition uart_read ::
    "nat \<Rightarrow> uart_device \<Rightarrow> 'a ts_scheme \<Rightarrow> (u8 list option \<times> uart_device \<times> 'a ts_scheme) res" where
  "uart_read bufsz dev st =
     (let bufsz = min bufsz LONG_MAX in
      if bufsz = 0 then Inr (Some [], dev, st)
      else
        let st = snd (intr_disable st) in
        if rbuf_empty (rxbuf dev)
        then bind_res (condition_wait (rxbnotempty dev) st) (\<lambda>st. Inr (None, dev, st))
        else
          let st = snd (intr_enable st); (cs, b) = read_loop bufsz (rxbuf dev)
          in Inr (Some cs, dev\<lparr>rxbuf := b, ier := ier dev OR IER_DREIE\<rparr>, st))"

text \<open>
  One round of the outer loop of \<open>uart_write\<close>: the bytes still to be written, after filling
  the buffer or going to sleep because it is full.
\<close>

definition uart_write_round ::
    "u8 list \<Rightarrow> uart_device \<Rightarrow> 'a ts_scheme \<Rightarrow> (u8 list \<times> uart_device \<times> 'a ts_scheme) res" where
  "uart_write_round cs dev st =
     (if cs = [] then Inr ([], dev, st)
      else
        let st = snd (intr_disable st) in
        if rbuf_full (txbuf dev)
        then bind_res (condition_wait (txbnotfull dev) st) (\<lambda>st. Inr (cs, dev, st))
        else
          let st = snd (intr_enable st); (rest, b) = write_loop cs (txbuf dev)
          in Inr (rest, dev\<lparr>txbuf := b, ier := ier dev OR IER_THREIE\<rparr>, st))"

lemma read_loop_ok:
  "rb_rep r xs \<Longrightarrow> fst (read_loop n r) = take n xs \<and> rb_rep (snd (read_loop n r)) (drop n xs)"
proof (induction n arbitrary: r xs)
  case 0
  then show ?case by simp
next
  case (Suc n)
  show ?case
  proof (cases xs)
    case Nil
    then show ?thesis using Suc.prems rb_rep_empty [OF Suc.prems] by simp
  next
    case (Cons x ys)
    with Suc.prems have g: "fst (rbuf_get r) = x" "rb_rep (snd (rbuf_get r)) ys"
      using rb_rep_get by blast+
    from Suc.IH [OF g(2)] g(1) Cons rb_rep_empty [OF Suc.prems] show ?thesis
      by (simp add: case_prod_beta Let_def)
  qed
qed

lemma write_loop_ok:
  "rb_rep r xs \<Longrightarrow> fst (write_loop cs r) = drop (64 - length xs) cs \<and>
     rb_rep (snd (write_loop cs r)) (xs @ take (64 - length xs) cs)"
proof (induction cs arbitrary: r xs)
  case Nil
  then show ?case by simp
next
  case (Cons c cs)
  have le: "length xs \<le> 64" using Cons.prems by (simp add: rb_rep_def)
  show ?case
  proof (cases "length xs = 64")
    case True
    then show ?thesis using Cons.prems rb_rep_full [OF Cons.prems] by simp
  next
    case False
    then have "64 - length xs = Suc (64 - length (xs @ [c]))" using le by simp
    with Cons.IH [OF rb_rep_put [OF Cons.prems]] False le rb_rep_full [OF Cons.prems] show ?thesis
      by simp
  qed
qed

section \<open>Correctness properties\<close>

text \<open>
  C34. The ring buffer is a queue of at most 64 bytes, for all positions, wrap-around included:
  \<open>rbuf_empty\<close> and \<open>rbuf_full\<close> tell exactly whether it holds none or 64, and bytes put in while there
  is room come out after the bytes already there, in the order they were put in.
\<close>

theorem ringbuf_fifo:
  assumes "rb_rep r xs" and "length xs + length cs \<le> 64"
  shows "(rbuf_empty r \<longleftrightarrow> xs = []) \<and> (rbuf_full r \<longleftrightarrow> length xs = 64) \<and>
    (\<exists>r' r''. enq_all (\<lambda>c r. Inr (rbuf_put c r)) cs r = Inr r' \<and>
      (rbuf_empty r' \<longleftrightarrow> xs @ cs = []) \<and> (rbuf_full r' \<longleftrightarrow> length (xs @ cs) = 64) \<and>
      deq_many (\<lambda>r. Inr (rbuf_get r)) (length xs + length cs) r' = Inr (xs @ cs, r'') \<and> rbuf_empty r'' \<and> \<not> rbuf_full r'')"
proof -
  have room: "length (xs @ ys) < 64" if "cs = ys @ c # zs" for ys c zs using assms(2) that by simp
  obtain r' where r': "enq_all (\<lambda>c r. Inr (rbuf_put c r)) cs r = Inr r'" "rb_rep r' (xs @ cs)"
    using rbuf.enq_all_rep [of cs xs r] assms(1) room by blast
  moreover obtain r'' where "deq_many (\<lambda>r. Inr (rbuf_get r)) (length xs + length cs) r' = Inr (xs @ cs, r'')" "rb_rep r'' []"
    using rbuf.deq_many_rep [OF r'(2), of "length xs + length cs"] by auto
  ultimately show ?thesis
    using rb_rep_empty [OF assms(1)] rb_rep_full [OF assms(1)] rb_rep_empty [OF r'(2)] rb_rep_full [OF r'(2)]
      rb_rep_empty [of r'' "[]"] rb_rep_full [of r'' "[]"] by auto
qed

theorem ringbuf_fifo_witness:
  "\<exists>r' r''. enq_all (\<lambda>c r. Inr (rbuf_put c r)) [65, 66, 67] \<lparr>hpos = 65534, tpos = 65534, rdata = replicate 64 0\<rparr> = Inr r' \<and>
    \<not> rbuf_empty r' \<and> \<not> rbuf_full r' \<and> deq_many (\<lambda>r. Inr (rbuf_get r)) 3 r' = Inr ([65, 66, 67], r'') \<and> rbuf_empty r''"
proof -
  have "rb_rep \<lparr>hpos = 65534, tpos = 65534, rdata = replicate 64 0\<rparr> []" by (simp add: rb_rep_def)
  from ringbuf_fifo [OF this, of "[65, 66, 67]"] show ?thesis
    by (auto simp: numeral_3_eq_3 simp del: enq_all.simps deq_many.simps)
qed

text \<open>
  An interrupt that reports a received byte appends it to the receive buffer when there is
  room, and when the buffer was empty makes every waiting reader ready; when the buffer is
  full the byte is left in the device and receive interrupts are switched off. An interrupt
  that reports an empty transmitter sends the oldest byte of the transmit buffer.
\<close>

theorem uart_isr_correct:
  assumes "sched_inv st rs ws" and "rb_rep (rxbuf dev) xs" and "rb_rep (txbuf dev) ys"
    and "ls AND LSR_DR \<noteq> 0" and "ls AND LSR_THRE = 0"
  shows "\<exists>dev' st'. uart_isr ls c dev st = Some (Inr (dev', st')) \<and> thr_out dev' = thr_out dev \<and>
    rb_rep (txbuf dev') ys \<and>
    (if length xs < 64
     then rb_rep (rxbuf dev') (xs @ [c]) \<and> ier dev' = ier dev \<and>
       (if xs = [] then sched_inv st' (rs @ ws (rxbnotempty dev)) (ws(rxbnotempty dev := [])) else st' = st)
     else rb_rep (rxbuf dev') xs \<and> ier dev' = ier dev AND NOT IER_DREIE \<and> st' = st)"
proof -
  have le: "length xs \<le> 64" using assms(2) by (simp add: rb_rep_def)
  note e = rb_rep_empty [OF assms(2)] and f = rb_rep_full [OF assms(2)]
  obtain st1 where "condition_broadcast (rxbnotempty dev) st = Some (Inr st1)"
    "sched_inv st1 (rs @ ws (rxbnotempty dev)) (ws(rxbnotempty dev := []))"
    using condition_broadcast_ok [OF assms(1)] by blast
  with assms e f le rb_rep_put [OF assms(2)] show ?thesis
    by (auto simp: uart_isr_def uart_isr_rx_def uart_isr_tx_def Let_def)
qed

text \<open>
  \<open>uart_read\<close> with data available returns the oldest bytes, at most as many as the buffer
  takes, removes exactly those and re-enables receive interrupts; without data the calling
  thread goes to sleep on the device's condition.
\<close>

theorem uart_read_correct:
  assumes "sched_inv st (n # rs) ws" and "rb_rep (rxbuf dev) xs" and "0 < sz" and "sz \<le> LONG_MAX"
  shows "if xs = []
    then \<exists>st'. uart_read sz dev st = Inr (None, dev, st') \<and> curthr st' = n \<and>
      sched_inv st' rs (ws(rxbnotempty dev := ws (rxbnotempty dev) @ [curthr st]))
    else \<exists>dev' st'. uart_read sz dev st = Inr (Some (take sz xs), dev', st') \<and>
      rb_rep (rxbuf dev') (drop sz xs) \<and> ier dev' = ier dev OR IER_DREIE \<and> sched_inv st' (n # rs) ws"
proof (cases "xs = []")
  case True
  have "sched_inv (st\<lparr>sie := False\<rparr>) (n # rs) ws" using assms(1) by (simp add: sched_inv_def)
  from condition_wait_ok [OF this, of "rxbnotempty dev"] True assms rb_rep_empty [OF assms(2)]
  show ?thesis by (auto simp: uart_read_def Let_def intr_defs)
next
  case False
  have "sched_inv (st\<lparr>sie := True\<rparr>) (n # rs) ws" using assms(1) by (simp add: sched_inv_def)
  with False assms rb_rep_empty [OF assms(2)] read_loop_ok [OF assms(2), of sz] show ?thesis
    by (auto simp: uart_read_def Let_def intr_defs case_prod_beta)
qed

text \<open>
  One round of \<open>uart_write\<close> moves as many bytes as fit into the transmit buffer, in order,
  and enables transmit interrupts; it never overwrites bytes that are still to be sent.
\<close>

theorem uart_write_round_correct:
  assumes "rb_rep (txbuf dev) xs" and "length xs < 64" and "cs \<noteq> []"
  shows "\<exists>dev' st'. uart_write_round cs dev st = Inr (drop (64 - length xs) cs, dev', st') \<and>
    rb_rep (txbuf dev') (xs @ take (64 - length xs) cs) \<and> ier dev' = ier dev OR IER_THREIE \<and>
    length (drop (64 - length xs) cs) < length cs"
proof -
  have "length (drop (64 - length xs) cs) < length cs" using assms(2,3) by (cases cs) auto
  with assms write_loop_ok [OF assms(1), of cs] rb_rep_full [OF assms(1)] show ?thesis
    by (simp add: uart_write_round_def Let_def intr_defs case_prod_beta)
qed

definition demo_uart :: uart_device where
  "demo_uart = \<lparr>u_irqno = 10, rxovrcnt = 0, u_refcnt = 1, rxbnotempty = DevCond 1, txbnotfull = DevCond 2,
     rxbuf = \<lparr>hpos = 0, tpos = 0, rdata = replicate 64 0\<rparr>,
     txbuf = \<lparr>hpos = 0, tpos = 0, rdata = replicate 64 0\<rparr>,
     ier = 0, lcr = 0, dll = 1, dlm = 0, thr_out = []\<rparr>"

lemma demo_uart_empty: "rb_rep (rxbuf demo_uart) []" "rb_rep (txbuf demo_uart) []"
  by (simp_all add: rb_rep_def demo_uart_def)

theorem uart_isr_witness:
  "\<exists>(st :: ts) dev' st'. uart_isr 1 65 demo_uart st = Some (Inr (dev', st')) \<and> rb_rep (rxbuf dev') [65]"
proof -
  obtain st where "demo_thr st" using demo_thr_exists by blast
  then have "sched_inv st [IdleThread] (\<lambda>_. [])" by (simp add: demo_thr_def)
  from uart_isr_correct [OF this demo_uart_empty, of 1 65] show ?thesis
    by (fastforce simp: LSR_DR_def LSR_THRE_def)
qed

theorem uart_read_witness:
  "\<exists>(st :: ts) st'. uart_read 10 demo_uart st = Inr (None, demo_uart, st') \<and> curthr st' = IdleThread"
proof -
  obtain st where "demo_thr st" using demo_thr_exists by blast
  then have "sched_inv st [IdleThread] (\<lambda>_. [])" by (simp add: demo_thr_def)
  from uart_read_correct [OF this demo_uart_empty(1), of 10] show ?thesis
    by (fastforce simp: LONG_MAX_def)
qed

theorem uart_write_round_witness:
  "\<exists>dev' st'. uart_write_round [72, 105] demo_uart demo_boot = Inr ([], dev', st') \<and>
     rb_rep (txbuf dev') [72, 105]"
  using uart_write_round_correct [OF demo_uart_empty(2), of "[72, 105]" demo_boot] by auto

end
