(* ===== verification/Timer.thy ===== *)
theory Timer
  imports Thread
begin

text \<open>
  Timer and alarms: \<open>kern/timer.c\<close> and the inline functions of \<open>kern/timer.h\<close>. The alarms that
  threads sleep on form a list linked through their \<open>next\<close> members, ordered by wake-up time.
  \<open>mtime\<close> and \<open>mtcmp\<close> are the memory-mapped timer registers. Loops that follow links are
  partial functions whose value \<open>None\<close> is a loop without end; on well-formed lists they are
  proved to end.
\<close>

section \<open>State\<close>

record alarm =
  al_cond :: cptr
  al_next :: "nat option"
  twake :: u64

type_synonym alstore = "nat \<Rightarrow> alarm option"

record kt = ts +
  alarms :: alstore
  sleep_list :: "nat option"
  next_tick :: u64
  mtime :: u64
  mtcmp :: u64
  stie :: bool
  stip :: bool
  mtie :: bool
  timer_initialized :: bool

definition TIMER_FREQ :: u64 where "TIMER_FREQ = 10000000"
definition TICK_FREQ :: u64 where "TICK_FREQ = 50"
definition TICK_PERIOD :: u64 where "TICK_PERIOD = TIMER_FREQ div TICK_FREQ"

section \<open>Operations\<close>

text \<open>
  The environment call that re-arms the timer interrupt: machine mode clears STIP and sets MTIE
  (\<open>mmode_excp_handler\<close> of \<open>kern/trapasm.s\<close>).
\<close>

definition enable_mmode_timer_intr :: "'a kt_scheme \<Rightarrow> 'a kt_scheme" where
  "enable_mmode_timer_intr st = st\<lparr>stip := False, mtie := True\<rparr>"

definition timer_init :: "'a kt_scheme \<Rightarrow> 'a kt_scheme" where
  "timer_init st =
     (enable_mmode_timer_intr (st\<lparr>mtime := 0, mtcmp := TICK_PERIOD, stie := True\<rparr>))
       \<lparr>timer_initialized := True\<rparr>"

definition alarm_init :: "nat \<Rightarrow> cptr \<Rightarrow> 'a kt_scheme \<Rightarrow> 'a kt_scheme" where
  "alarm_init al c st =
     (let st = condition_init c st
      in st\<lparr>alarms := (alarms st)(al \<mapsto> \<lparr>al_cond = c, al_next = None, twake = mtime st\<rparr>)\<rparr>)"

definition alarm_reset :: "nat \<Rightarrow> 'a kt_scheme \<Rightarrow> 'a kt_scheme res" where
  "alarm_reset al st = (case alarms st al of None \<Rightarrow> Inl UndefinedAccess
     | Some a \<Rightarrow> Inr (st\<lparr>alarms := (alarms st)(al \<mapsto> a\<lparr>twake := mtime st\<rparr>)\<rparr>))"

text \<open>The search for the place of an alarm behind \<open>prev\<close>, and its insertion there.\<close>

partial_function (option) insert_after :: "nat \<Rightarrow> alarm \<Rightarrow> nat \<Rightarrow> alstore \<Rightarrow> alstore res option" where
  "insert_after al a prev h =
     (case h prev of
        None \<Rightarrow> Some (Inl UndefinedAccess)
      | Some p \<Rightarrow>
          (case al_next p of
             None \<Rightarrow> Some (Inr (h(al \<mapsto> a\<lparr>al_next := None\<rparr>, prev \<mapsto> p\<lparr>al_next := Some al\<rparr>)))
           | Some n \<Rightarrow>
               (case h n of
                  None \<Rightarrow> Some (Inl UndefinedAccess)
                | Some na \<Rightarrow>
                    if twake a \<le> twake na
                    then Some (Inr (h(al \<mapsto> a\<lparr>al_next := Some n\<rparr>, prev \<mapsto> p\<lparr>al_next := Some al\<rparr>)))
                    else insert_after al a n h)))"

text \<open>The insertion of alarm \<open>al\<close> with contents \<open>a\<close> in the sleep list.\<close>

definition sleep_insert :: "nat \<Rightarrow> alarm \<Rightarrow> 'a kt_scheme \<Rightarrow> 'a kt_scheme res option" where
  "sleep_insert al a st =
     (let front = (let st = st\<lparr>alarms := (alarms st)(al \<mapsto> a\<lparr>al_next := sleep_list st\<rparr>), sleep_list := Some al\<rparr>
                   in if twake a < next_tick st
                      then enable_mmode_timer_intr (st\<lparr>mtcmp := twake a, stie := True\<rparr>) else st)
      in case sleep_list st of
           None \<Rightarrow> Some (Inr front)
         | Some s \<Rightarrow>
             (case alarms st s of
                None \<Rightarrow> Some (Inl UndefinedAccess)
              | Some sa \<Rightarrow>
                  if twake a \<le> twake sa then Some (Inr front)
                  else map_option (\<lambda>r. bind_res r (\<lambda>h. Inr (st\<lparr>alarms := h\<rparr>)))
                         (insert_after al a s (alarms st))))"

definition wake_time :: "u64 \<Rightarrow> u64 \<Rightarrow> u64" where
  "wake_time tw tcnt = (if - 1 - tw < tcnt then - 1 else tw + tcnt)"

text \<open>
  \<open>alarm_sleep\<close>, up to the switch to another thread. The interrupt state saved by the sleeping
  thread is restored when it continues.
\<close>

definition alarm_sleep :: "nat \<Rightarrow> u64 \<Rightarrow> 'a kt_scheme \<Rightarrow> 'a kt_scheme res option" where
  "alarm_sleep al tcnt st =
     (case alarms st al of
        None \<Rightarrow> Some (Inl UndefinedAccess)
      | Some a \<Rightarrow>
          let now = mtime st;
              a = a\<lparr>twake := wake_time (twake a) tcnt\<rparr>;
              st = st\<lparr>alarms := (alarms st)(al \<mapsto> a)\<rparr>
          in if twake a < now then Some (Inr st)
             else map_option (\<lambda>r. bind_res r (condition_wait (al_cond a)))
                    (sleep_insert al a (snd (intr_disable st))))"

definition alarm_sleep_sec :: "nat \<Rightarrow> u32 \<Rightarrow> 'a kt_scheme \<Rightarrow> 'a kt_scheme res option" where
  "alarm_sleep_sec al sec st = alarm_sleep al (ucast sec * TIMER_FREQ) st"

definition alarm_sleep_ms :: "nat \<Rightarrow> u64 \<Rightarrow> 'a kt_scheme \<Rightarrow> 'a kt_scheme res option" where
  "alarm_sleep_ms al ms st = alarm_sleep al (ms * (TIMER_FREQ div 1000)) st"

definition alarm_sleep_us :: "nat \<Rightarrow> u64 \<Rightarrow> 'a kt_scheme \<Rightarrow> 'a kt_scheme res option" where
  "alarm_sleep_us al us st = alarm_sleep al (us * (TIMER_FREQ div 1000 div 1000)) st"

text \<open>The loop of \<open>timer_intr_handler\<close>: wakes the alarms that are due.\<close>

partial_function (option) wake_alarms ::
    "u64 \<Rightarrow> nat option \<Rightarrow> 'a kt_scheme \<Rightarrow> (nat option \<times> 'a kt_scheme) res option" where
  "wake_alarms now head st =
     (case head of
        None \<Rightarrow> Some (Inr (None, st))
      | Some i \<Rightarrow>
          (case alarms st i of
             None \<Rightarrow> Some (Inl UndefinedAccess)
           | Some a \<Rightarrow>
               if twake a \<le> now then
                 (case condition_broadcast (al_cond a) st of
                    None \<Rightarrow> None
                  | Some (Inl e) \<Rightarrow> Some (Inl e)
                  | Some (Inr st) \<Rightarrow>
                      wake_alarms now (al_next a) (st\<lparr>alarms := (alarms st)(i \<mapsto> a\<lparr>al_next := None\<rparr>)\<rparr>))
               else Some (Inr (Some i, st))))"

definition timer_rearm :: "u64 \<Rightarrow> nat option \<Rightarrow> 'a kt_scheme \<Rightarrow> 'a kt_scheme res" where
  "timer_rearm now head st =
     (let st = (if next_tick st < now then st\<lparr>next_tick := next_tick st + TICK_PERIOD\<rparr> else st);
          st = st\<lparr>sleep_list := head\<rparr>
      in case head of
           None \<Rightarrow> Inr (enable_mmode_timer_intr (st\<lparr>mtcmp := next_tick st\<rparr>))
         | Some i \<Rightarrow>
             (case alarms st i of
                None \<Rightarrow> Inl UndefinedAccess
              | Some a \<Rightarrow> Inr (enable_mmode_timer_intr
                  (st\<lparr>mtcmp := (if twake a < next_tick st then twake a else next_tick st)\<rparr>))))"

definition timer_intr_handler :: "'a kt_scheme \<Rightarrow> 'a kt_scheme res option" where
  "timer_intr_handler st =
     (let now = mtime st in
      map_option (\<lambda>r. bind_res r (\<lambda>(head, st). timer_rearm now head st))
        (wake_alarms now (sleep_list st) st))"

section \<open>The sleep list\<close>

fun achain :: "alstore \<Rightarrow> nat option \<Rightarrow> nat list \<Rightarrow> bool" where
  "achain h p [] \<longleftrightarrow> p = None"
| "achain h p (x # xs) \<longleftrightarrow> p = Some x \<and> (\<exists>a. h x = Some a \<and> achain h (al_next a) xs)"

definition due :: "alstore \<Rightarrow> nat \<Rightarrow> u64" where
  "due h x = (case h x of None \<Rightarrow> 0 | Some a \<Rightarrow> twake a)"

definition acond :: "alstore \<Rightarrow> nat \<Rightarrow> cptr" where
  "acond h x = (case h x of None \<Rightarrow> DevCond 0 | Some a \<Rightarrow> al_cond a)"

lemma due_Some: "h x = Some a \<Longrightarrow> due h x = twake a" "h x = Some a \<Longrightarrow> acond h x = al_cond a"
  by (simp_all add: due_def acond_def)

lemma achain_upd: "x \<notin> set xs \<Longrightarrow> achain (h(x := v)) p xs = achain h p xs"
  by (induction xs arbitrary: p) auto

text \<open>Where an alarm due at \<open>w\<close> goes: before the first alarm that is not due earlier.\<close>

definition sleep_place :: "alstore \<Rightarrow> u64 \<Rightarrow> nat \<Rightarrow> nat list \<Rightarrow> nat list" where
  "sleep_place h w al xs = takeWhile (\<lambda>x. due h x < w) xs @ al # dropWhile (\<lambda>x. due h x < w) xs"

lemma insert_after_ok:
  assumes "achain h (Some prev) (prev # xs)" and "distinct (prev # xs)" and "al \<notin> set (prev # xs)"
    and "h prev = Some pa" and "twake pa < twake a"
  shows "\<exists>h'. insert_after al a prev h = Some (Inr h') \<and>
    achain h' (Some prev) (prev # sleep_place h (twake a) al xs) \<and>
    (\<forall>x. due h' x = (if x = al then twake a else due h x)) \<and>
    (\<forall>x. acond h' x = (if x = al then al_cond a else acond h x)) \<and>
    (\<forall>x. x \<notin> set (al # prev # xs) \<longrightarrow> h' x = h x)"
  using assms
proof (induction xs arbitrary: prev pa)
  case Nil
  then have p: "h prev = Some pa" "al_next pa = None" "al \<noteq> prev" by auto
  then show ?case
    by (subst insert_after.simps) (auto simp: sleep_place_def due_def acond_def)
next
  case (Cons n xs)
  then obtain na where n: "al_next pa = Some n" "h n = Some na" "achain h (al_next na) xs" by auto
  have dist: "prev \<noteq> n" "n \<notin> set xs" "prev \<notin> set xs" "al \<noteq> prev" "al \<noteq> n" "al \<notin> set xs"
    using Cons.prems(2,3) by auto
  show ?case
  proof (cases "twake a \<le> twake na")
    case True
    let ?h' = "h(al \<mapsto> a\<lparr>al_next := Some n\<rparr>, prev \<mapsto> pa\<lparr>al_next := Some al\<rparr>)"
    have "achain ?h' (Some n) (n # xs)" using n dist by (simp add: achain_upd)
    moreover have "sleep_place h (twake a) al (n # xs) = al # n # xs"
      using leD [OF True] n(2) by (simp add: sleep_place_def due_Some(1))
    ultimately have "achain ?h' (Some prev) (prev # sleep_place h (twake a) al (n # xs))"
      using dist by simp
    moreover have "insert_after al a prev h = Some (Inr ?h')"
      using Cons.prems(4) n True by (subst insert_after.simps) simp
    moreover have "\<forall>x. due ?h' x = (if x = al then twake a else due h x)"
      "\<forall>x. acond ?h' x = (if x = al then al_cond a else acond h x)"
      "\<forall>x. x \<notin> set (al # prev # n # xs) \<longrightarrow> ?h' x = h x"
      using Cons.prems(4) dist by (auto simp: due_def acond_def)
    ultimately show ?thesis by blast
  next
    case False
    then have lt: "twake na < twake a" by simp
    obtain h' where h': "insert_after al a n h = Some (Inr h')"
      "achain h' (Some n) (n # sleep_place h (twake a) al xs)"
      "\<forall>x. due h' x = (if x = al then twake a else due h x)"
      "\<forall>x. acond h' x = (if x = al then al_cond a else acond h x)"
      "\<forall>x. x \<notin> set (al # n # xs) \<longrightarrow> h' x = h x"
      using Cons.IH [of n na] n dist lt Cons.prems(2,3) by auto
    have "h' prev = Some pa" using h'(5) dist Cons.prems(4) by auto
    moreover have "sleep_place h (twake a) al (n # xs) = n # sleep_place h (twake a) al xs"
      using lt n(2) by (simp add: sleep_place_def due_Some(1))
    ultimately have "achain h' (Some prev) (prev # sleep_place h (twake a) al (n # xs))"
      using h'(2) n(1) by simp
    moreover have "insert_after al a prev h = Some (Inr h')"
      using Cons.prems(4) n False h'(1) by (subst insert_after.simps) simp
    ultimately show ?thesis using h' by (intro exI [of _ h']) auto
  qed
qed

lemma sleep_insert_ok:
  assumes ch: "achain (alarms st) (sleep_list st) xs" and d: "distinct xs" and al: "al \<notin> set xs"
  shows "\<exists>st'. sleep_insert al a st = Some (Inr st') \<and>
    achain (alarms st') (sleep_list st') (sleep_place (alarms st) (twake a) al xs) \<and>
    (\<forall>x. due (alarms st') x = (if x = al then twake a else due (alarms st) x)) \<and>
    (\<forall>x. acond (alarms st') x = (if x = al then al_cond a else acond (alarms st) x)) \<and>
    thrs st' = thrs st \<and> ready_list st' = ready_list st \<and> conds st' = conds st \<and> curthr st' = curthr st \<and>
    next_tick st' = next_tick st \<and> mtime st' = mtime st"
proof -
  let ?front = "let st = st\<lparr>alarms := (alarms st)(al \<mapsto> a\<lparr>al_next := sleep_list st\<rparr>), sleep_list := Some al\<rparr>
    in if twake a < next_tick st
                      then enable_mmode_timer_intr (st\<lparr>mtcmp := twake a, stie := True\<rparr>) else st"
  have front: "achain (alarms ?front) (sleep_list ?front) (al # xs)"
    "due (alarms ?front) x = (if x = al then twake a else due (alarms st) x)"
    "acond (alarms ?front) x = (if x = al then al_cond a else acond (alarms st) x)"
    "thrs ?front = thrs st" "ready_list ?front = ready_list st" "conds ?front = conds st"
    "curthr ?front = curthr st" "next_tick ?front = next_tick st" "mtime ?front = mtime st" for x
    using ch al by (auto simp: Let_def achain_upd due_def acond_def enable_mmode_timer_intr_def)
  show ?thesis
  proof (cases xs)
    case Nil
    then have "sleep_insert al a st = Some (Inr ?front)" using ch by (simp add: sleep_insert_def)
    with front Nil show ?thesis by (simp add: sleep_place_def)
  next
    case (Cons s ys)
    then obtain sa where sa: "sleep_list st = Some s" "alarms st s = Some sa" using ch by auto
    show ?thesis
    proof (cases "twake a \<le> twake sa")
      case True
      then have "sleep_insert al a st = Some (Inr ?front)" using sa by (simp add: sleep_insert_def)
      moreover have "sleep_place (alarms st) (twake a) al xs = al # xs"
        using leD [OF True] sa(2) Cons by (simp add: sleep_place_def due_Some(1))
      ultimately show ?thesis using front by simp
    next
      case False
      then have lt: "twake sa < twake a" by simp
      then obtain h' where h': "insert_after al a s (alarms st) = Some (Inr h')"
        "achain h' (Some s) (s # sleep_place (alarms st) (twake a) al ys)"
        "\<forall>x. due h' x = (if x = al then twake a else due (alarms st) x)"
        "\<forall>x. acond h' x = (if x = al then al_cond a else acond (alarms st) x)"
        using insert_after_ok [of "alarms st" s ys al sa a] ch d al sa Cons by auto
      then have "sleep_insert al a st = Some (Inr (st\<lparr>alarms := h'\<rparr>))"
        using sa False by (simp add: sleep_insert_def)
      moreover have "sleep_place (alarms st) (twake a) al xs = s # sleep_place (alarms st) (twake a) al ys"
        using lt Cons by (simp add: sleep_place_def due_Some(1) [of "alarms st" s sa, OF sa(2)])
      ultimately show ?thesis using h' sa(1) by simp
    qed
  qed
qed

lemma sleep_place_set:
  "set (sleep_place h w al xs) = insert al (set xs)"
  "distinct (sleep_place h w al xs) \<longleftrightarrow> distinct (al # xs)"
proof -
  obtain t d where "xs = t @ d" "sleep_place h w al xs = t @ al # d"
    unfolding sleep_place_def using takeWhile_dropWhile_id by metis
  then show "set (sleep_place h w al xs) = insert al (set xs)"
    "distinct (sleep_place h w al xs) \<longleftrightarrow> distinct (al # xs)" by auto
qed

lemma sleep_place_sorted:
  assumes "sorted (map (due h) xs)" and "al \<notin> set xs"
    and "\<And>x. due h' x = (if x = al then w else due h x)"
  shows "sorted (map (due h') (sleep_place h w al xs))"
proof -
  let ?t = "takeWhile (\<lambda>x. due h x < w) xs" and ?d = "dropWhile (\<lambda>x. due h x < w) xs"
  have td: "xs = ?t @ ?d" by simp
  have same: "due h' x = due h x" if "x \<in> set xs" for x using that assms(2,3) by auto
  have eq: "map (due h') ?t = map (due h) ?t" "map (due h') ?d = map (due h) ?d"
    by (auto intro!: same dest: set_takeWhileD set_dropWhileD)
  have "\<forall>x \<in> set ?t. due h x < w" using set_takeWhileD by fast
  moreover have s: "sorted (map (due h) ?t @ map (due h) ?d)"
    using assms(1) td map_append by metis
  moreover have "w \<le> due h x" if "x \<in> set ?d" for x
  proof -
    have "?d \<noteq> []" using that by (metis empty_iff list.set(1))
    then obtain y ys where y: "?d = y # ys" by (meson neq_Nil_conv)
    have "\<not> due h y < w" using hd_dropWhile [of "\<lambda>x. due h x < w" xs] y by auto
    moreover have "due h y \<le> due h x" using s that y by (auto simp: sorted_append)
    ultimately show ?thesis by simp
  qed
  ultimately show ?thesis
    unfolding sleep_place_def by (auto simp: eq sorted_append assms(3) less_imp_le)
qed

section \<open>What the scheduler leaves alone\<close>

text \<open>
  The operations of the scheduler write only the state of the thread manager and of the memory
  below it: whatever a client's record adds is kept.
\<close>

lemma set_thread_more: "set_thread p f st = Inr st' \<Longrightarrow> ts.more st' = ts.more st"
  by (auto simp: set_thread_def bind_res_Inr_conv)

lemma ready_insert_more: "ready_insert p st = Inr st' \<Longrightarrow> ts.more st' = ts.more st"
  by (auto simp: ready_insert_def bind_res_Inr_conv)

lemma intr_more [simp]:
  "ts.more (snd (intr_disable st)) = ts.more st" "ts.more (snd (intr_enable st)) = ts.more st"
  "ts.more (intr_restore b st) = ts.more st"
  by (simp_all add: intr_defs Let_def)

lemma memory_free_page_more:
  "memory_free_page pp (st :: 'a ts_scheme) = Inr st' \<Longrightarrow> ts.more st' = ts.more st"
  by (auto simp: memory_free_page_def Let_def split: if_splits)

lemma suspend_switch_more:
  assumes "suspend_switch st = Inr st'"
  shows "ts.more st' = ts.more st"
proof -
  have sw: "ts.more (case p of None \<Rightarrow> s | Some q \<Rightarrow> snd (memory_space_switch (f q) s)) = ts.more s"
    for p f and s :: "'a ts_scheme"
    by (simp add: memory_space_switch_def split: option.split)
  from assms show ?thesis
    unfolding suspend_switch_def Let_def intr_disable_def intr_enable_def
    by (auto simp: bind_res_Inr_conv sw dest!: set_thread_more ready_insert_more split: if_splits)
qed

lemma suspend_resume_more: "suspend_resume prev st = Inr st' \<Longrightarrow> ts.more st' = ts.more st"
  by (cases "resume_sie st (curthr st)")
     (auto simp: suspend_resume_def bind_res_Inr_conv
       dest!: set_thread_more memory_free_page_more split: if_splits)

lemma suspend_self_more: "suspend_self st = Inr st' \<Longrightarrow> ts.more st' = ts.more st"
  by (auto simp: suspend_self_def bind_res_Inr_conv dest!: suspend_switch_more suspend_resume_more)

lemma thread_yield_more: "thread_yield st = Inr st' \<Longrightarrow> ts.more st' = ts.more st"
  by (auto simp: thread_yield_def bind_res_Inr_conv dest: suspend_self_more)

lemma condition_wait_more: "condition_wait c st = Inr st' \<Longrightarrow> ts.more st' = ts.more st"
  unfolding condition_wait_def Let_def intr_disable_def
  by (auto simp: bind_res_Inr_conv dest!: set_thread_more suspend_self_more)

lemma condition_broadcast_more:
  assumes "condition_broadcast c st = Some (Inr st')"
  shows "ts.more st' = ts.more st"
proof (cases "tlempty (conds st c)")
  case True
  then show ?thesis using assms by (simp add: condition_broadcast_def)
next
  case False
  then show ?thesis using assms
    by (cases "wake_loop c (tl_head (conds st c)) (thrs st)")
       (auto simp: condition_broadcast_def intr_disable_def Let_def bind_res_Inr_conv)
qed

lemma thread_init_more: "thread_init ma ml ia il st = Inr st' \<Longrightarrow> ts.more st' = ts.more st"
  by (auto simp: thread_init_def init_main_thread_def init_idle_thread_def Let_def bind_res_Inr_conv
      dest!: set_thread_more ready_insert_more)

lemma kt_more_cong:
  assumes "ts.more st' = ts.more (st :: 'a kt_scheme)"
  shows "alarms st' = alarms st" "sleep_list st' = sleep_list st" "next_tick st' = next_tick st"
    "mtime st' = mtime st" "mtcmp st' = mtcmp st"
  using assms by (cases st; cases st'; simp)+

section \<open>Waking the alarms that are due\<close>

lemma achain_sorted_due:
  "achain h p xs \<Longrightarrow> sorted (map (due h) xs) \<Longrightarrow>
     dropWhile (\<lambda>x. due h x \<le> now) xs = filter (\<lambda>x. now < due h x) xs"
proof (induction xs arbitrary: p)
  case (Cons x xs)
  have "dropWhile (\<lambda>x. due h x \<le> now) xs = filter (\<lambda>x. now < due h x) xs" using Cons by auto
  moreover have "filter (\<lambda>x. now < due h x) xs = xs" if "now < due h x"
    using that Cons.prems(2) by (auto simp: filter_id_conv)
  ultimately show ?case by (auto simp: not_le)
qed simp

lemma wake_alarms_ok:
  assumes "sched_inv st rs ws" and "achain (alarms st) p xs" and "distinct xs"
    and "distinct (map (acond (alarms st)) xs)"
  defines "h \<equiv> alarms st"
  shows "\<exists>p' st'. wake_alarms now p st = Some (Inr (p', st')) \<and>
    achain (alarms st') p' (dropWhile (\<lambda>x. due h x \<le> now) xs) \<and>
    sched_inv st' (rs @ concat (map (\<lambda>x. ws (acond h x)) (takeWhile (\<lambda>x. due h x \<le> now) xs)))
      (\<lambda>c. if c \<in> acond h ` set (takeWhile (\<lambda>x. due h x \<le> now) xs) then [] else ws c) \<and>
    (\<forall>x. due (alarms st') x = due h x) \<and> (\<forall>x. acond (alarms st') x = acond h x) \<and>
    curthr st' = curthr st \<and> next_tick st' = next_tick st \<and> mtime st' = mtime st"
  using assms(1-4) unfolding h_def
proof (induction xs arbitrary: p st rs ws)
  case Nil
  then show ?case by (subst wake_alarms.simps) simp
next
  case (Cons x xs)
  then obtain a where a: "p = Some x" "alarms st x = Some a" "achain (alarms st) (al_next a) xs" by auto
  note da = due_Some [of "alarms st" x a, OF a(2)]
  show ?case
  proof (cases "twake a \<le> now")
    case False
    then have "wake_alarms now p st = Some (Inr (Some x, st))"
      using a by (subst wake_alarms.simps) simp
    with False Cons.prems a da show ?thesis by simp
  next
    case True
    let ?c = "al_cond a" and ?ws = "ws(al_cond a := [])"
    obtain st1 where b: "condition_broadcast ?c st = Some (Inr st1)" "sched_inv st1 (rs @ ws ?c) ?ws"
      "curthr st1 = curthr st"
      using condition_broadcast_ok [OF Cons.prems(1), of ?c] by blast
    note k = kt_more_cong [OF condition_broadcast_more [OF b(1)]]
    let ?st = "st1\<lparr>alarms := (alarms st)(x \<mapsto> a\<lparr>al_next := None\<rparr>)\<rparr>"
    have x: "x \<notin> set xs" using Cons.prems(3) by simp
    have same: "due (alarms ?st) y = due (alarms st) y" "acond (alarms ?st) y = acond (alarms st) y" for y
      using a(2) by (auto simp: due_def acond_def)
    have "sched_inv ?st (rs @ ws ?c) ?ws" using b(2) by (simp add: sched_inv_def)
    moreover have "achain (alarms ?st) (al_next a) xs" using a(3) x by (simp add: achain_upd)
    moreover have "distinct (map (acond (alarms ?st)) xs)" using Cons.prems(4) unfolding same by simp
    ultimately obtain p' st' where r: "wake_alarms now (al_next a) ?st = Some (Inr (p', st'))"
      "achain (alarms st') p' (dropWhile (\<lambda>x. due (alarms st) x \<le> now) xs)"
      "sched_inv st' ((rs @ ws ?c) @ concat (map (\<lambda>x. ?ws (acond (alarms st) x))
           (takeWhile (\<lambda>x. due (alarms st) x \<le> now) xs)))
         (\<lambda>c. if c \<in> acond (alarms st) ` set (takeWhile (\<lambda>x. due (alarms st) x \<le> now) xs) then []
              else ?ws c)"
      "\<forall>x. due (alarms st') x = due (alarms st) x" "\<forall>x. acond (alarms st') x = acond (alarms st) x"
      "curthr st' = curthr st" "next_tick st' = next_tick st" "mtime st' = mtime st"
      using Cons.IH [of ?st "rs @ ws ?c" ?ws "al_next a"] Cons.prems(3) b(3) k unfolding same
      by (simp del: fun_upd_apply) blast
    have run: "wake_alarms now p st = Some (Inr (p', st'))"
      using a True b(1) r(1) k(1) by (subst wake_alarms.simps) simp
    have cn: "acond (alarms st) y \<noteq> ?c" if "y \<in> set xs" for y
      using Cons.prems(4) that da(2) by (auto simp: image_iff)
    have m: "map (\<lambda>x. ?ws (acond (alarms st) x)) (takeWhile (\<lambda>x. due (alarms st) x \<le> now) xs) =
        map (\<lambda>x. ws (acond (alarms st) x)) (takeWhile (\<lambda>x. due (alarms st) x \<le> now) xs)"
      using cn by (auto dest: set_takeWhileD)
    have f: "(\<lambda>c. if c \<in> acond (alarms st) ` set (takeWhile (\<lambda>x. due (alarms st) x \<le> now) xs) then []
        else ?ws c) =
        (\<lambda>c. if c \<in> acond (alarms st) ` set (takeWhile (\<lambda>x. due (alarms st) x \<le> now) (x # xs)) then []
        else ws c)"
      using True da by (auto simp: fun_eq_iff)
    show ?thesis using run r(2,4-) r(3) [unfolded m f] True da by simp
  qed
qed

lemma timer_rearm_ok:
  fixes st :: "'a kt_scheme"
  assumes "achain (alarms st) p xs"
  shows "\<exists>st'. timer_rearm now p st = Inr st' \<and> alarms st' = alarms st \<and> sleep_list st' = p \<and>
    thrs st' = thrs st \<and> ready_list st' = ready_list st \<and> conds st' = conds st \<and> curthr st' = curthr st \<and>
    mtie st' \<and> \<not> stip st' \<and> next_tick st' = (if next_tick st < now then next_tick st + TICK_PERIOD else next_tick st) \<and>
    mtcmp st' = (case xs of [] \<Rightarrow> next_tick st' | x # _ \<Rightarrow> min (due (alarms st) x) (next_tick st'))"
proof (cases xs)
  case Nil
  then show ?thesis using assms
    by (simp add: timer_rearm_def enable_mmode_timer_intr_def Let_def)
next
  case (Cons x ys)
  then obtain a where "p = Some x" "alarms st x = Some a" using assms by auto
  then show ?thesis
    using Cons by (auto simp: timer_rearm_def enable_mmode_timer_intr_def Let_def due_def min_def)
qed

lemma unat_max: "unat (- 1 :: u64) = 2 ^ 64 - 1"
  by (simp add: unsigned_minus_1_eq_mask mask_eq_exp_minus_1)

lemma wake_time_unat: "unat (wake_time tw n) = min (unat tw + unat n) (2 ^ 64 - 1)"
proof -
  have m: "unat (- 1 - tw) = 2 ^ 64 - 1 - unat tw"
    by (simp add: unat_minus_if unat_max)
  show ?thesis
  proof (cases "- 1 - tw < n")
    case True
    then have "2 ^ 64 - 1 - unat tw < unat n" using m by (simp add: word_less_nat_alt)
    with True show ?thesis by (simp add: wake_time_def unat_max)
  next
    case False
    then have "unat n \<le> 2 ^ 64 - 1 - unat tw" using m by (simp add: word_less_nat_alt not_less)
    moreover have "unat tw \<le> 2 ^ 64 - 1" using unat_word64_less [of tw] by (simp del: unat_word64_less)
    ultimately have "unat tw + unat n \<le> 2 ^ 64 - 1" by linarith
    with False show ?thesis by (simp add: wake_time_def unat_word_ariths)
  qed
qed

lemma timer_intr_handler_ok:
  fixes st :: "'a kt_scheme"
  assumes "sched_inv st rs ws"
    and list: "achain (alarms st) (sleep_list st) xs" "distinct xs" "sorted (map (due (alarms st)) xs)"
    and conds: "distinct (map (acond (alarms st)) xs)"
  defines "late \<equiv> filter (\<lambda>x. due (alarms st) x \<le> mtime st) xs"
    and "rest \<equiv> filter (\<lambda>x. mtime st < due (alarms st) x) xs"
  shows "\<exists>st'. timer_intr_handler st = Some (Inr st') \<and> curthr st' = curthr st \<and>
    sched_inv st' (rs @ concat (map (\<lambda>x. ws (acond (alarms st) x)) late))
      (\<lambda>c. if c \<in> acond (alarms st) ` set late then [] else ws c) \<and>
    achain (alarms st') (sleep_list st') rest \<and>
    next_tick st' = (if next_tick st < mtime st then next_tick st + TICK_PERIOD else next_tick st) \<and>
    mtcmp st' = (case rest of [] \<Rightarrow> next_tick st' | x # _ \<Rightarrow> min (due (alarms st) x) (next_tick st')) \<and>
    mtie st' \<and> \<not> stip st'"
proof -
  let ?now = "mtime st" and ?h = "alarms st"
  have rest: "dropWhile (\<lambda>x. due ?h x \<le> ?now) xs = rest"
    using achain_sorted_due [OF list(1,3)] by (simp add: rest_def)
  have late: "takeWhile (\<lambda>x. due ?h x \<le> ?now) xs = late"
  proof -
    have "filter (\<lambda>x. due ?h x \<le> ?now) rest = []" by (auto simp: rest_def filter_empty_conv)
    then show ?thesis
      using rest takeWhile_dropWhile_id [of "\<lambda>x. due ?h x \<le> ?now" xs] unfolding late_def
      by (metis (no_types, lifting) append_Nil2 filter_append filter_True set_takeWhileD)
  qed
  obtain p' st1 where w: "wake_alarms ?now (sleep_list st) st = Some (Inr (p', st1))"
    "achain (alarms st1) p' rest"
    "sched_inv st1 (rs @ concat (map (\<lambda>x. ws (acond ?h x)) late))
       (\<lambda>c. if c \<in> acond ?h ` set late then [] else ws c)"
    "\<forall>x. due (alarms st1) x = due ?h x" "curthr st1 = curthr st" "next_tick st1 = next_tick st"
    using wake_alarms_ok [OF assms(1) list(1,2) conds, of ?now] unfolding rest late by blast
  obtain st2 where r: "timer_rearm ?now p' st1 = Inr st2" "alarms st2 = alarms st1" "sleep_list st2 = p'"
    "thrs st2 = thrs st1" "ready_list st2 = ready_list st1" "conds st2 = conds st1" "curthr st2 = curthr st1"
    "mtcmp st2 = (case rest of [] \<Rightarrow> next_tick st2 | x # _ \<Rightarrow> min (due (alarms st1) x) (next_tick st2))"
    "next_tick st2 = (if next_tick st1 < ?now then next_tick st1 + TICK_PERIOD else next_tick st1)" "mtie st2" "\<not> stip st2"
    using timer_rearm_ok [OF w(2), of ?now] by auto
  have "timer_intr_handler st = Some (Inr st2)" using w(1) r(1) by (simp add: timer_intr_handler_def)
  moreover have "sched_inv st2 (rs @ concat (map (\<lambda>x. ws (acond ?h x)) late))
       (\<lambda>c. if c \<in> acond ?h ` set late then [] else ws c)" using w(3) r by (simp add: sched_inv_def)
  ultimately show ?thesis using w(2,4-) r(2,3,7-) by (cases rest) auto
qed

section \<open>Correctness properties\<close>

text \<open>
  A concrete system for the witnesses: the threads of \<open>demo_boot\<close> after \<open>thread_init\<close>, one alarm
  on the sleep list and one that is not.
\<close>

definition demo_kt :: kt where
  "demo_kt = ts.extend demo_boot
     \<lparr>alarms = [1 \<mapsto> \<lparr>al_cond = DevCond 1, al_next = None, twake = 100\<rparr>,
                2 \<mapsto> \<lparr>al_cond = DevCond 2, al_next = None, twake = 50\<rparr>],
      sleep_list = Some 1, next_tick = 0, mtime = 60, mtcmp = 0, stie = False, stip = False,
      mtie = False, timer_initialized = True\<rparr>"

definition demo_sleep :: "kt \<Rightarrow> bool" where
  "demo_sleep st \<longleftrightarrow> sched_inv st [IdleThread] (\<lambda>_. []) \<and> curthr st = MainThread \<and> sleep_list st = Some 1 \<and>
     mtime st = 60 \<and> alarms st 1 = Some \<lparr>al_cond = DevCond 1, al_next = None, twake = 100\<rparr> \<and>
     alarms st 2 = Some \<lparr>al_cond = DevCond 2, al_next = None, twake = 50\<rparr>"

lemma demo_sleep_exists: "\<exists>st. demo_sleep st"
proof -
  have "thrs demo_kt = static_threads" "ready_list demo_kt = tlclear" "conds demo_kt = (\<lambda>_. tlclear)"
    by (simp_all add: demo_kt_def ts.defs demo_boot_def)
  then obtain st where "sched_inv st [IdleThread] (\<lambda>_. [])" "curthr st = MainThread" "ts.more st = ts.more demo_kt"
    using thread_init_ok [of demo_kt] thread_init_more [of _ _ _ _ demo_kt] by metis
  moreover from this(3) have "alarms st = alarms demo_kt" "sleep_list st = sleep_list demo_kt"
    "mtime st = mtime demo_kt" using kt_more_cong by blast+
  ultimately show ?thesis by (intro exI [of _ st]) (simp add: demo_sleep_def demo_kt_def ts.defs)
qed

text \<open>
  C25. \<open>alarm_sleep\<close> with a wake-up time that has not passed: the alarm is put on the sleep list,
  which stays ordered by wake-up time and free of duplicates and keeps the other alarms with
  their times; the wake-up time is the alarm's last one plus the count, saturated at the largest
  64-bit value; the running thread waits on the alarm's condition and the first ready thread
  runs.
\<close>

theorem alarm_sleep_correct:
  fixes st :: "'a kt_scheme"
  assumes inv: "sched_inv st (n # rs) ws"
    and list: "achain (alarms st) (sleep_list st) xs" "distinct xs" "sorted (map (due (alarms st)) xs)"
    and al: "alarms st al = Some a" "al \<notin> set xs"
    and future: "mtime st \<le> wake_time (twake a) tcnt"
  shows "\<exists>st' ys. alarm_sleep al tcnt st = Some (Inr st') \<and> curthr st' = n \<and>
    sched_inv st' rs (ws(al_cond a := ws (al_cond a) @ [curthr st])) \<and>
    achain (alarms st') (sleep_list st') ys \<and> distinct ys \<and> set ys = insert al (set xs) \<and>
    sorted (map (due (alarms st')) ys) \<and> (\<forall>x. x \<noteq> al \<longrightarrow> due (alarms st') x = due (alarms st) x) \<and>
    unat (due (alarms st') al) = min (unat (twake a) + unat tcnt) (2 ^ 64 - 1)"
proof -
  let ?w = "wake_time (twake a) tcnt" and ?h = "(alarms st)(al \<mapsto> a\<lparr>twake := wake_time (twake a) tcnt\<rparr>)"
  let ?a = "a\<lparr>twake := ?w\<rparr>" and ?st = "snd (intr_disable (st\<lparr>alarms := ?h\<rparr>))"
  let ?ys = "sleep_place ?h ?w al xs"
  have due: "due ?h x = (if x = al then ?w else due (alarms st) x)" for x by (simp add: due_def)
  have m: "map (due ?h) xs = map (due (alarms st)) xs" using al(2) by (auto simp: due)
  have "achain (alarms ?st) (sleep_list ?st) xs"
    using list(1) al(2) by (simp add: achain_upd intr_disable_def)
  then obtain st1 where s1: "sleep_insert al ?a ?st = Some (Inr st1)" "achain (alarms st1) (sleep_list st1) ?ys"
    "\<forall>x. due (alarms st1) x = (if x = al then ?w else due ?h x)"
    "thrs st1 = thrs st" "ready_list st1 = ready_list st" "conds st1 = conds st" "curthr st1 = curthr st"
    using sleep_insert_ok [of ?st xs al ?a] list(2) al(2) by (auto simp: intr_disable_def)
  have "sched_inv st1 (n # rs) ws" using inv s1(4-7) by (simp add: sched_inv_def)
  then obtain st2 where s2: "condition_wait (al_cond a) st1 = Inr st2" "curthr st2 = n"
    "sched_inv st2 rs (ws(al_cond a := ws (al_cond a) @ [curthr st]))"
    using condition_wait_ok s1(7) by metis
  note k = kt_more_cong [OF condition_wait_more [OF s2(1)]]
  have "alarm_sleep al tcnt st = Some (Inr st2)"
    using al(1) future s1(1) s2(1) by (simp add: alarm_sleep_def Let_def leD)
  moreover have "sorted (map (due (alarms st1)) ?ys)"
    using sleep_place_sorted [of ?h xs al "alarms st1" ?w] list(3) al(2) s1(3) unfolding m by blast
  moreover have "set ?ys = insert al (set xs)" "distinct ?ys"
    using sleep_place_set [of ?h ?w al xs] list(2) al(2) by simp_all
  ultimately show ?thesis
    using s1(2,3) s2(2,3) k due wake_time_unat [of "twake a" tcnt] by (intro exI [of _ st2] exI [of _ ?ys]) simp
qed

theorem alarm_sleep_witness:
  "\<exists>(st :: kt) st' ys. sleep_list st = Some 1 \<and> alarm_sleep 2 20 st = Some (Inr st') \<and>
     achain (alarms st') (sleep_list st') ys \<and> set ys = {1, 2} \<and> sorted (map (due (alarms st')) ys) \<and>
     unat (due (alarms st') 2) = 70 \<and> curthr st' = IdleThread"
proof -
  obtain st where st: "demo_sleep st" using demo_sleep_exists by blast
  then have s: "sched_inv st [IdleThread] (\<lambda>_. [])" "sleep_list st = Some 1" "mtime st = 60"
    "alarms st 1 = Some \<lparr>al_cond = DevCond 1, al_next = None, twake = 100\<rparr>"
    "alarms st 2 = Some \<lparr>al_cond = DevCond 2, al_next = None, twake = 50\<rparr>"
    by (simp_all add: demo_sleep_def)
  have w: "60 \<le> wake_time 50 20" by code_simp
  have "\<exists>st' ys. alarm_sleep 2 20 st = Some (Inr st') \<and> curthr st' = IdleThread \<and>
    sched_inv st' [] ((\<lambda>_. [])(DevCond 2 := [curthr st])) \<and>
    achain (alarms st') (sleep_list st') ys \<and> distinct ys \<and> set ys = insert 2 (set [1]) \<and>
    sorted (map (due (alarms st')) ys) \<and> (\<forall>x. x \<noteq> 2 \<longrightarrow> due (alarms st') x = due (alarms st) x) \<and>
    unat (due (alarms st') 2) = min (unat (50 :: u64) + unat (20 :: u64)) (2 ^ 64 - 1)"
    using alarm_sleep_correct [of st IdleThread "[]" "\<lambda>_. []" "[1]" 2
        "\<lparr>al_cond = DevCond 2, al_next = None, twake = 50\<rparr>" 20] s w by (simp del: fun_upd_apply)
  then show ?thesis using s(2) by (auto simp: insert_commute)
qed

text \<open>
  C24. \<open>timer_intr_handler\<close> returns. Of the alarms on the sleep list it removes exactly those whose
  time has come and makes the threads that wait for them ready, in the order of the wake-up
  times; the other alarms stay on the list and the running thread keeps running. The next tick is
  one period later if its time has passed, the timer is set for the next alarm or the next tick,
  whichever is earlier, and its interrupt is acknowledged and enabled again.
\<close>

theorem timer_intr_handler_correct:
  fixes st :: "'a kt_scheme"
  assumes "sched_inv st rs ws"
    and list: "achain (alarms st) (sleep_list st) xs" "distinct xs" "sorted (map (due (alarms st)) xs)"
    and conds: "distinct (map (acond (alarms st)) xs)"
  defines "late \<equiv> filter (\<lambda>x. due (alarms st) x \<le> mtime st) xs"
    and "rest \<equiv> filter (\<lambda>x. mtime st < due (alarms st) x) xs"
  shows "\<exists>st'. timer_intr_handler st = Some (Inr st') \<and> curthr st' = curthr st \<and>
    sched_inv st' (rs @ concat (map (\<lambda>x. ws (acond (alarms st) x)) late))
      (\<lambda>c. if c \<in> acond (alarms st) ` set late then [] else ws c) \<and>
    achain (alarms st') (sleep_list st') rest \<and>
    next_tick st' = (if next_tick st < mtime st then next_tick st + TICK_PERIOD else next_tick st) \<and>
    mtcmp st' = (case rest of [] \<Rightarrow> next_tick st' | x # _ \<Rightarrow> min (due (alarms st) x) (next_tick st')) \<and>
    mtie st' \<and> \<not> stip st'"
  using timer_intr_handler_ok [OF assms(1-5)] unfolding late_def rest_def .

theorem timer_intr_handler_witness:
  "\<exists>(st :: kt) st'. sleep_list st = Some 1 \<and> timer_intr_handler st = Some (Inr st') \<and>
     sleep_list st' = None \<and> sched_inv st' [MainThread] (\<lambda>_. [])"
proof -
  let ?al = "\<lparr>al_cond = DevCond 1, al_next = None, twake = 100\<rparr>" and ?ws = "(\<lambda>_. [])(DevCond 1 := [MainThread])"
  obtain st where "demo_sleep st" using demo_sleep_exists by blast
  then have s: "sched_inv st [IdleThread] (\<lambda>_. [])" "sleep_list st = Some 1" "curthr st = MainThread"
    "alarms st 1 = Some ?al"
    by (simp_all add: demo_sleep_def)
  obtain st1 :: kt where s1: "condition_wait (DevCond 1) st = Inr st1" "sched_inv st1 [] ?ws"
    using condition_wait_ok [OF s(1), of "DevCond 1"] s(3) by auto
  note k = kt_more_cong [OF condition_wait_more [OF s1(1)]]
  let ?st = "st1\<lparr>mtime := 100\<rparr>"
  have inv: "sched_inv ?st [] ?ws" using s1(2) by (simp add: sched_inv_def)
  have al: "alarms ?st 1 = Some ?al" "sleep_list ?st = Some 1" using s k by simp_all
  have d: "due (alarms ?st) 1 = 100" "acond (alarms ?st) 1 = DevCond 1"
    using due_Some [of "alarms ?st" 1, OF al(1)] by simp_all
  obtain st' where "timer_intr_handler ?st = Some (Inr st')"
    "sched_inv st' ([] @ concat (map (\<lambda>x. ?ws (acond (alarms ?st) x)) [1]))
      (\<lambda>c. if c \<in> acond (alarms ?st) ` set [1] then [] else ?ws c)" "achain (alarms st') (sleep_list st') []"
    using timer_intr_handler_correct [of ?st "[]" ?ws "[1]"] inv al d by (auto simp del: fun_upd_apply)
  moreover have "(\<lambda>c. if c \<in> acond (alarms ?st) ` set [1] then [] else ?ws c) = (\<lambda>_. [])"
    using d by auto
  ultimately show ?thesis using al(2) d(2) by (intro exI [of _ ?st] exI [of _ st']) simp
qed

end
