(* ===== verification/Plic.thy ===== *)
theory Plic
  imports Prelude
begin

text \<open>
  The interrupt controller: \<open>kern/plic.c\<close>. The controller's registers are memory-mapped 32-bit
  words; the model is a map from addresses to words, and each function computes the address the
  way the code does (a product with a 32-bit context number wraps at 32 bits before it is
  added). Reading the claim register is an action of the device: the value it gives is an
  argument.
\<close>

section \<open>Registers\<close>

type_synonym plic = "u64 \<Rightarrow> u32"

definition PLIC_IOBASE :: u64 where "PLIC_IOBASE = 0x0C000000"
definition PLIC_SRCCNT :: nat where "PLIC_SRCCNT = 0x400"

definition priority_reg :: "u32 \<Rightarrow> u64" where
  "priority_reg srcno = PLIC_IOBASE + ucast srcno * 4"

definition pending_reg :: "u32 \<Rightarrow> u64" where
  "pending_reg srcno = PLIC_IOBASE + 0x1000 + ucast (srcno div 32) * 4"

definition enable_reg :: "u32 \<Rightarrow> u32 \<Rightarrow> u64" where
  "enable_reg ctxno srcno = ucast (0x0C000000 + 0x2000 + ctxno * 0x80) + ucast (srcno div 32) * 4"

definition threshold_reg :: "u32 \<Rightarrow> u64" where
  "threshold_reg ctxno = PLIC_IOBASE + 0x200000 + ucast (ctxno * 0x1000)"

definition claim_reg :: "u32 \<Rightarrow> u64" where
  "claim_reg ctxno = PLIC_IOBASE + 0x200004 + ucast (ctxno * 0x1000)"

section \<open>Operations\<close>

definition src_bit :: "u32 \<Rightarrow> u32" where
  "src_bit srcno = push_bit (unat (srcno mod 32)) 1"

definition plic_set_source_priority :: "u32 \<Rightarrow> u32 \<Rightarrow> plic \<Rightarrow> plic" where
  "plic_set_source_priority srcno level r = r(priority_reg srcno := level)"

definition plic_source_pending :: "u32 \<Rightarrow> plic \<Rightarrow> bool" where
  "plic_source_pending srcno r \<longleftrightarrow> r (pending_reg srcno) AND src_bit srcno \<noteq> 0"

definition plic_enable_source_for_context :: "u32 \<Rightarrow> u32 \<Rightarrow> plic \<Rightarrow> plic" where
  "plic_enable_source_for_context ctxno srcno r =
     (let a = enable_reg ctxno srcno in r(a := r a OR src_bit srcno))"

definition plic_disable_source_for_context :: "u32 \<Rightarrow> u32 \<Rightarrow> plic \<Rightarrow> plic" where
  "plic_disable_source_for_context ctxno srcid r =
     (let a = enable_reg ctxno srcid in r(a := r a AND NOT (src_bit srcid)))"

definition plic_set_context_threshold :: "u32 \<Rightarrow> u32 \<Rightarrow> plic \<Rightarrow> plic" where
  "plic_set_context_threshold ctxno level r = r(threshold_reg ctxno := level)"

text \<open>The claim register of the context reads as \<open>claimed\<close>.\<close>

definition plic_claim_context_interrupt :: "u32 \<Rightarrow> (u64 \<Rightarrow> u32) \<Rightarrow> u32" where
  "plic_claim_context_interrupt ctxno claimed = claimed (claim_reg ctxno)"

definition plic_complete_context_interrupt :: "u32 \<Rightarrow> u32 \<Rightarrow> plic \<Rightarrow> plic" where
  "plic_complete_context_interrupt ctxno srcno r = r(claim_reg ctxno := srcno)"

definition plic_init :: "plic \<Rightarrow> plic" where
  "plic_init r = foldl (\<lambda>r i. plic_enable_source_for_context 1 i (plic_set_source_priority i 0 r))
     r (map of_nat [0..<PLIC_SRCCNT])"

definition plic_enable_irq :: "int \<Rightarrow> int \<Rightarrow> plic \<Rightarrow> plic" where
  "plic_enable_irq irqno prio r = plic_set_source_priority (word_of_int irqno) (word_of_int prio) r"

definition plic_disable_irq :: "int \<Rightarrow> plic \<Rightarrow> plic" where
  "plic_disable_irq irqno r = (if 0 < irqno then plic_set_source_priority (word_of_int irqno) 0 r else r)"

definition plic_claim_irq :: "(u64 \<Rightarrow> u32) \<Rightarrow> int" where
  "plic_claim_irq claimed = sint (plic_claim_context_interrupt 1 claimed)"

definition plic_close_irq :: "int \<Rightarrow> plic \<Rightarrow> plic" where
  "plic_close_irq irqno r = plic_complete_context_interrupt 1 (word_of_int irqno) r"

section \<open>The registers do not overlap\<close>

text \<open>Sources and contexts of the platform: 1024 sources, and contexts whose registers fit below the thresholds.\<close>

abbreviation src_ok :: "u32 \<Rightarrow> bool" where
  "src_ok s \<equiv> unat s < PLIC_SRCCNT"

abbreviation ctx_ok :: "u32 \<Rightarrow> bool" where
  "ctx_ok c \<equiv> unat c < 0x1000"

lemma unat_word32_less [simp]: "unat (w :: u32) < 4294967296"
  using unsigned_less [of w, where ?'a = nat] by simp

lemma unat_ucast_32 [simp]: "unat (ucast (w :: u32) :: u64) = unat w"
proof -
  have "unat w < 2 ^ 64" using unat_word32_less [of w] by (simp del: unat_word32_less)
  then show ?thesis by (simp add: unsigned_ucast_eq take_bit_nat_eq_self)
qed

lemma reg_addresses:
  "src_ok s \<Longrightarrow> unat (priority_reg s) = 0x0C000000 + 4 * unat s"
  "src_ok s \<Longrightarrow> unat (pending_reg s) = 0x0C001000 + 4 * (unat s div 32)"
  "src_ok s \<Longrightarrow> ctx_ok c \<Longrightarrow> unat (enable_reg c s) = 0x0C002000 + 0x80 * unat c + 4 * (unat s div 32)"
  "ctx_ok c \<Longrightarrow> unat (threshold_reg c) = 0x0C200000 + 0x1000 * unat c"
  "ctx_ok c \<Longrightarrow> unat (claim_reg c) = 0x0C200004 + 0x1000 * unat c"
  by (auto simp: priority_reg_def pending_reg_def enable_reg_def threshold_reg_def claim_reg_def
      PLIC_IOBASE_def PLIC_SRCCNT_def unat_word_ariths unat_div)

text \<open>Whether a source is enabled for a context, read off the registers.\<close>

definition src_enabled :: "u32 \<Rightarrow> u32 \<Rightarrow> plic \<Rightarrow> bool" where
  "src_enabled c s r \<longleftrightarrow> bit (r (enable_reg c s)) (unat (s mod 32))"

lemma bit_src_bit: "i < 32 \<Longrightarrow> bit (src_bit s) i \<longleftrightarrow> i = unat (s mod 32)"
  by (auto simp: src_bit_def bit_exp_iff)

lemma src_index_less: "unat ((s :: u32) mod 32) < 32"
  by (simp add: unat_mod)

lemma enable_reg_eq:
  assumes "ctx_ok c" "src_ok s" "ctx_ok c'" "src_ok s'"
  shows "enable_reg c s = enable_reg c' s' \<longleftrightarrow> c = c' \<and> unat s div 32 = unat s' div 32"
proof -
  have "enable_reg c s = enable_reg c' s' \<longleftrightarrow> unat (enable_reg c s) = unat (enable_reg c' s')"
    by (simp add: word_unat_eq_iff)
  also have "\<dots> \<longleftrightarrow> 128 * unat c + 4 * (unat s div 32) = 128 * unat c' + 4 * (unat s' div 32)"
    using assms by (simp add: reg_addresses)
  also have "\<dots> \<longleftrightarrow> unat c = unat c' \<and> unat s div 32 = unat s' div 32"
  proof -
    have *: "128 * a + 4 * d = 128 * b + 4 * e \<longleftrightarrow> a = b \<and> d = e" if "d < 32" "e < 32" for a b d e :: nat
    proof
      assume eq: "128 * a + 4 * d = 128 * b + 4 * e"
      have "(128 * a + 4 * d) div 128 = a" "(128 * b + 4 * e) div 128 = b" using that by simp_all
      with eq show "a = b \<and> d = e" by simp
    qed simp
    show ?thesis using assms by (intro *) (simp_all add: PLIC_SRCCNT_def)
  qed
  finally show ?thesis by (simp add: word_unat_eq_iff)
qed

lemma src_split:
  fixes s s' :: u32
  shows "s = s' \<longleftrightarrow> unat s div 32 = unat s' div 32 \<and> unat (s mod 32) = unat (s' mod 32)"
proof -
  have "unat s = 32 * (unat s div 32) + unat (s mod 32)" for s :: u32 by (simp add: unat_mod)
  then show ?thesis by (metis word_unat_eq_iff)
qed

lemma src_enabled_enable:
  assumes "ctx_ok c" "src_ok s" "ctx_ok c'" "src_ok s'"
  shows "src_enabled c s (plic_enable_source_for_context c' s' r) \<longleftrightarrow> src_enabled c s r \<or> c = c' \<and> s = s'"
  using enable_reg_eq [OF assms] src_split [of s s'] src_index_less [of s]
  by (auto simp: src_enabled_def plic_enable_source_for_context_def Let_def bit_or_iff bit_src_bit)

lemma src_enabled_disable:
  assumes "ctx_ok c" "src_ok s" "ctx_ok c'" "src_ok s'"
  shows "src_enabled c s (plic_disable_source_for_context c' s' r) \<longleftrightarrow> src_enabled c s r \<and> \<not> (c = c' \<and> s = s')"
  using enable_reg_eq [OF assms] src_split [of s s'] src_index_less [of s]
  by (auto simp: src_enabled_def plic_disable_source_for_context_def Let_def bit_and_iff bit_not_iff bit_src_bit)

lemma regs_apart:
  assumes "ctx_ok c" "src_ok s" "src_ok s'"
  shows "priority_reg s' \<noteq> enable_reg c s" "pending_reg s' \<noteq> enable_reg c s"
    "priority_reg s = priority_reg s' \<longleftrightarrow> s = s'"
proof -
  have "unat (priority_reg s') \<noteq> unat (enable_reg c s)" "unat (pending_reg s') \<noteq> unat (enable_reg c s)"
    using assms by (simp_all add: reg_addresses PLIC_SRCCNT_def)
  then show "priority_reg s' \<noteq> enable_reg c s" "pending_reg s' \<noteq> enable_reg c s" by auto
  have "priority_reg s = priority_reg s' \<longleftrightarrow> unat (priority_reg s) = unat (priority_reg s')"
    by (simp add: word_unat_eq_iff)
  then show "priority_reg s = priority_reg s' \<longleftrightarrow> s = s'"
    using assms by (simp add: reg_addresses word_unat_eq_iff)
qed

lemma src_enabled_priority:
  assumes "ctx_ok c" "src_ok s" "src_ok s'"
  shows "src_enabled c s (plic_set_source_priority s' l r) = src_enabled c s r"
  using regs_apart(1) [OF assms] by (simp add: src_enabled_def plic_set_source_priority_def)

lemma plic_init_prefix:
  fixes r :: plic
  assumes "n \<le> PLIC_SRCCNT" "ctx_ok c" "src_ok s"
  defines "r' \<equiv> foldl (\<lambda>r i. plic_enable_source_for_context 1 i (plic_set_source_priority i 0 r))
      r (map of_nat [0..<n])"
  shows "r' (priority_reg s) = (if unat s < n then 0 else r (priority_reg s)) \<and>
    (src_enabled c s r' \<longleftrightarrow> src_enabled c s r \<or> c = 1 \<and> unat s < n)"
  using assms(1) unfolding r'_def
proof (induction n)
  case (Suc n)
  let ?i = "of_nat n :: u32"
  let ?r = "foldl (\<lambda>r i. plic_enable_source_for_context 1 i (plic_set_source_priority i 0 r)) r (map of_nat [0..<n])"
  have u: "unat ?i = n" using Suc.prems by (simp add: PLIC_SRCCNT_def unat_of_nat)
  then have i: "src_ok ?i" "ctx_ok (1 :: u32)" using Suc.prems by auto
  have eq: "s = ?i \<longleftrightarrow> unat s = n" using u by (auto simp: word_unat_eq_iff)
  have "plic_enable_source_for_context 1 ?i (plic_set_source_priority ?i 0 ?r) (priority_reg s) =
      (if unat s = n then 0 else ?r (priority_reg s))"
    using regs_apart(1) [OF i(2,1) assms(3)] regs_apart(3) [OF assms(2,3) i(1)] eq
    by (simp add: plic_enable_source_for_context_def plic_set_source_priority_def Let_def)
  moreover have "src_enabled c s (plic_enable_source_for_context 1 ?i (plic_set_source_priority ?i 0 ?r)) \<longleftrightarrow>
      src_enabled c s ?r \<or> c = 1 \<and> unat s = n"
    using src_enabled_enable [OF assms(2,3) i(2,1)] src_enabled_priority [OF assms(2,3) i(1)] eq by auto
  ultimately show ?case using Suc by (auto simp: less_Suc_eq)
qed simp

section \<open>Correctness properties\<close>

text \<open>
  \<open>plic_init\<close> sets the priority of every source to 0, so that none can interrupt, and enables
  every source for context 1 and for no other context that had it disabled. Afterwards
  enabling or disabling a source for a context changes that source for that context and nothing
  else.
\<close>

theorem plic_init_correct:
  assumes "ctx_ok c" and "src_ok s" and "ctx_ok c'" and "src_ok s'"
  shows "plic_init r (priority_reg s) = 0 \<and>
    (src_enabled c s (plic_init r) \<longleftrightarrow> src_enabled c s r \<or> c = 1) \<and>
    (src_enabled c s (plic_enable_source_for_context c' s' r) \<longleftrightarrow> src_enabled c s r \<or> c = c' \<and> s = s') \<and>
    (src_enabled c s (plic_disable_source_for_context c' s' r) \<longleftrightarrow> src_enabled c s r \<and> \<not> (c = c' \<and> s = s'))"
  using plic_init_prefix [of PLIC_SRCCNT c s r] assms src_enabled_enable [OF assms] src_enabled_disable [OF assms]
  by (simp add: plic_init_def)

theorem plic_init_witness:
  "plic_init (\<lambda>_. 0) (priority_reg 10) = 0 \<and> src_enabled 1 10 (plic_init (\<lambda>_. 0))"
  using plic_init_correct [of 1 10 0 0 "\<lambda>_. 0"] by (simp add: PLIC_SRCCNT_def)

end
