(* ===== verification/Intr.thy ===== *)
theory Intr
  imports Timer Plic
begin

text \<open>
  Interrupt management: \<open>kern/intr.c\<close>. A service routine is a function pointer with an argument;
  the table stores a number for the function, and \<open>run_isr\<close>, an argument of the handlers, is what
  calling that function does. \<open>claimed\<close> is what the claim register of the interrupt controller
  reads. A result \<open>None\<close> is a routine that does not return.
\<close>

section \<open>State\<close>

record isr_entry =
  isr :: "nat option"
  isr_aux :: nat
  isr_prio :: int

record it = kt +
  plic_regs :: plic
  isrtab :: "isr_entry list"
  seie :: bool
  intr_initialized :: bool

definition NIRQ :: nat where "NIRQ = 32"
definition EXCODE_STI :: int where "EXCODE_STI = 5"
definition EXCODE_SEI :: int where "EXCODE_SEI = 9"

type_synonym 's isr_call = "nat \<Rightarrow> int \<Rightarrow> nat \<Rightarrow> 's \<Rightarrow> 's res option"

section \<open>Operations\<close>

text \<open>\<open>intr_init\<close>; of the pending bits it clears, supervisor mode can write none that the kernel uses.\<close>

definition intr_init :: "'a it_scheme \<Rightarrow> 'a it_scheme" where
  "intr_init st =
     (let st = snd (intr_disable st)
      in st\<lparr>plic_regs := plic_init (plic_regs st), stie := False, seie := True, intr_initialized := True\<rparr>)"

definition intr_register_isr :: "int \<Rightarrow> int \<Rightarrow> nat option \<Rightarrow> nat \<Rightarrow> 'a it_scheme \<Rightarrow> 'a it_scheme res" where
  "intr_register_isr irqno prio f aux st =
     (if irqno < 0 \<or> int NIRQ \<le> irqno then Inl (Panic ''irqno out of bounds'')
      else
        let prio = (if prio \<le> 0 then 1 else prio)
        in Inr (st\<lparr>isrtab := (isrtab st)[nat irqno := \<lparr>isr = f, isr_aux = aux, isr_prio = prio\<rparr>]\<rparr>))"

definition isr_at :: "int \<Rightarrow> 'a it_scheme \<Rightarrow> isr_entry res" where
  "isr_at irqno st =
     (if irqno < 0 \<or> length (isrtab st) \<le> nat irqno then Inl UndefinedAccess else Inr (isrtab st ! nat irqno))"

definition intr_enable_irq :: "int \<Rightarrow> 'a it_scheme \<Rightarrow> 'a it_scheme res" where
  "intr_enable_irq irqno st =
     bind_res (isr_at irqno st) (\<lambda>e.
       if isr e = None then Inl (Panic ''intr_enable_irq with no isr'')
       else Inr (st\<lparr>plic_regs := plic_enable_irq irqno (isr_prio e) (plic_regs st)\<rparr>))"

definition intr_disable_irq :: "int \<Rightarrow> 'a it_scheme \<Rightarrow> 'a it_scheme" where
  "intr_disable_irq irqno st = st\<lparr>plic_regs := plic_disable_irq irqno (plic_regs st)\<rparr>"

definition extern_intr_handler ::
    "'a it_scheme isr_call \<Rightarrow> (u64 \<Rightarrow> u32) \<Rightarrow> 'a it_scheme \<Rightarrow> 'a it_scheme res option" where
  "extern_intr_handler run_isr claimed st =
     (let irqno = plic_claim_irq claimed in
      if irqno < 0 \<or> int NIRQ \<le> irqno then Some (Inl (Panic ''invalid irq''))
      else if irqno = 0 then Some (Inr st)
      else
        (case isr_at irqno st of
           Inl e \<Rightarrow> Some (Inl e)
         | Inr e \<Rightarrow>
             (case isr e of
                None \<Rightarrow> Some (Inl (Panic ''unhandled irq''))
              | Some f \<Rightarrow>
                  map_option (\<lambda>r. bind_res r (\<lambda>st.
                      Inr (st\<lparr>plic_regs := plic_close_irq irqno (plic_regs st)\<rparr>)))
                    (run_isr f irqno (isr_aux e) st))))"

text \<open>
  \<open>intr_handler\<close> for the cause \<open>code\<close>; \<open>from_user\<close> says that the interrupt came in user mode. The
  case of the timer has no \<open>break\<close> and goes on into the case of external interrupts.
\<close>

definition intr_handler ::
    "'a it_scheme isr_call \<Rightarrow> (u64 \<Rightarrow> u32) \<Rightarrow> int \<Rightarrow> bool \<Rightarrow> 'a it_scheme \<Rightarrow> 'a it_scheme res option" where
  "intr_handler run_isr claimed code from_user st =
     (let after = map_option (\<lambda>r. bind_res r (\<lambda>st. if from_user then thread_yield st else Inr st)) in
      if code = EXCODE_STI then
        (case timer_intr_handler st of
           None \<Rightarrow> None
         | Some (Inl e) \<Rightarrow> Some (Inl e)
         | Some (Inr st) \<Rightarrow> after (extern_intr_handler run_isr claimed st))
      else if code = EXCODE_SEI then after (extern_intr_handler run_isr claimed st)
      else Some (Inl (Panic ''unhandled interrupt'')))"

section \<open>Dispatch\<close>

lemma claim_small:
  assumes "unat w < NIRQ" and "claimed (claim_reg 1) = w"
  shows "plic_claim_irq claimed = int (unat w)"
proof -
  have "int (unat w) < int 32" using assms(1) unfolding NIRQ_def of_nat_less_iff .
  then have "uint w < 32" by simp
  then have "signed_take_bit 31 (uint w) = uint w"
    by (intro signed_take_bit_int_eq_self) (simp_all add: order_trans [of _ 0 "uint w"])
  then show ?thesis using assms(2) by (simp add: plic_claim_irq_def plic_claim_context_interrupt_def sint_uint)
qed

lemma extern_none: "claimed (claim_reg 1) = 0 \<Longrightarrow> extern_intr_handler run_isr claimed st = Some (Inr st)"
  using claim_small [of 0 claimed] by (simp add: extern_intr_handler_def NIRQ_def Let_def)

section \<open>Correctness properties\<close>

text \<open>
  An external interrupt is dispatched to the routine registered for the source that the
  interrupt controller reports: after \<open>intr_register_isr\<close>, the handler calls that routine with
  the number of the source and the registered argument, and then tells the controller that the
  interrupt is complete; other sources keep their routines.
\<close>

theorem extern_intr_handler_correct:
  assumes "intr_register_isr (int n) prio (Some f) aux st = Inr st'" and "length (isrtab st) = NIRQ"
    and "claimed (claim_reg 1) = w" and "unat w = n" and "n \<noteq> 0"
    and "run_isr f (int n) aux st' = Some (Inr st'')"
  shows "extern_intr_handler run_isr claimed st' =
      Some (Inr (st''\<lparr>plic_regs := (plic_regs st'')(claim_reg 1 := w)\<rparr>)) \<and>
    (\<forall>m. m \<noteq> n \<longrightarrow> isr_at (int m) st' = isr_at (int m) st)"
proof -
  have n: "n < NIRQ" and st': "st' = st\<lparr>isrtab := (isrtab st)[n := \<lparr>isr = Some f, isr_aux = aux,
      isr_prio = (if prio \<le> 0 then 1 else prio)\<rparr>]\<rparr>"
    using assms(1) by (auto simp: intr_register_isr_def Let_def split: if_splits)
  have irq: "plic_claim_irq claimed = int n" using claim_small [of w claimed] assms(3,4) n by simp
  have w: "word_of_int (int n) = w" using assms(4) by auto
  have "isr_at (int n) st' = Inr \<lparr>isr = Some f, isr_aux = aux, isr_prio = (if prio \<le> 0 then 1 else prio)\<rparr>"
    using n assms(2) by (simp add: isr_at_def st')
  then have "extern_intr_handler run_isr claimed st' =
      Some (Inr (st''\<lparr>plic_regs := (plic_regs st'')(claim_reg 1 := w)\<rparr>))"
    using irq n assms(5,6) w
    by (simp add: extern_intr_handler_def Let_def plic_close_irq_def plic_complete_context_interrupt_def)
  moreover have "isr_at (int m) st' = isr_at (int m) st" if "m \<noteq> n" for m
    using that by (simp add: isr_at_def st')
  ultimately show ?thesis by blast
qed

definition demo_it :: it where
  "demo_it = kt.extend demo_kt
     \<lparr>plic_regs = (\<lambda>_. 0), isrtab = replicate NIRQ \<lparr>isr = None, isr_aux = 0, isr_prio = 0\<rparr>,
      seie = True, intr_initialized = True\<rparr>"

theorem extern_intr_handler_witness:
  "\<exists>st'. intr_register_isr 10 0 (Some 7) 3 demo_it = Inr st' \<and>
     extern_intr_handler (\<lambda>f i a st. Some (Inr (st\<lparr>seie := f = 7 \<and> i = 10 \<and> a = 3\<rparr>))) (\<lambda>_. 10) st' =
       Some (Inr (st'\<lparr>seie := True, plic_regs := (plic_regs st')(claim_reg 1 := 10)\<rparr>))"
proof -
  let ?run = "\<lambda>f i a (st :: it). Some (Inr (st\<lparr>seie := f = (7 :: nat) \<and> i = (10 :: int) \<and> a = (3 :: nat)\<rparr>))"
  obtain st' where st': "intr_register_isr 10 0 (Some 7) 3 demo_it = Inr st'"
    by (simp add: intr_register_isr_def NIRQ_def)
  have "length (isrtab demo_it) = NIRQ" by (simp add: demo_it_def kt.defs)
  then have "extern_intr_handler ?run (\<lambda>_. 10) st' =
       Some (Inr (st'\<lparr>seie := True, plic_regs := (plic_regs st')(claim_reg 1 := 10)\<rparr>))"
    using extern_intr_handler_correct [of 10 0 7 3 demo_it st' "\<lambda>_. 10" 10 ?run "st'\<lparr>seie := True\<rparr>"] st' by simp
  with st' show ?thesis by blast
qed

text \<open>
  C15. A timer interrupt in user mode, with no device waiting for service, preempts the running
  thread: the threads whose alarms are due become ready, the first ready thread runs, and the
  preempted thread goes to the end of the ready list behind the threads just woken.
\<close>

theorem intr_handler_preempts:
  fixes st :: "'a it_scheme"
  assumes "sched_inv st (n # rs) ws"
    and "achain (alarms st) (sleep_list st) xs" "distinct xs" "sorted (map (due (alarms st)) xs)"
    and "distinct (map (acond (alarms st)) xs)" and "claimed (claim_reg 1) = 0"
  defines "late \<equiv> filter (\<lambda>x. due (alarms st) x \<le> mtime st) xs"
  shows "\<exists>st'. intr_handler run_isr claimed EXCODE_STI True st = Some (Inr st') \<and> curthr st' = n \<and>
    sched_inv st' (rs @ concat (map (\<lambda>x. ws (acond (alarms st) x)) late) @ [curthr st])
      (\<lambda>c. if c \<in> acond (alarms st) ` set late then [] else ws c) \<and>
    achain (alarms st') (sleep_list st') (filter (\<lambda>x. mtime st < due (alarms st) x) xs)"
proof -
  let ?ws = "\<lambda>c. if c \<in> acond (alarms st) ` set late then [] else ws c"
  let ?rs = "rs @ concat (map (\<lambda>x. ws (acond (alarms st) x)) late)"
  obtain st1 where s1: "timer_intr_handler st = Some (Inr st1)" "curthr st1 = curthr st"
    "sched_inv st1 (n # ?rs) ?ws"
    "achain (alarms st1) (sleep_list st1) (filter (\<lambda>x. mtime st < due (alarms st) x) xs)"
    using timer_intr_handler_ok [OF assms(1-5)] unfolding late_def by auto
  obtain st2 where s2: "thread_yield st1 = Inr st2" "curthr st2 = n" "sched_inv st2 (?rs @ [curthr st]) ?ws"
    using thread_yield_ok [OF s1(3)] s1(2) by auto
  have "ts.more st2 = ts.more st1" by (rule thread_yield_more [OF s2(1)])
  note k = kt_more_cong [OF this]
  have "intr_handler run_isr claimed EXCODE_STI True st = Some (Inr st2)"
    using s1(1) s2(1) by (simp add: intr_handler_def Let_def extern_none assms(6))
  then show ?thesis using s1(4) s2(2,3) k by auto
qed

theorem intr_handler_preempts_witness:
  "\<exists>(st :: it) st'. curthr st = MainThread \<and>
     intr_handler (\<lambda>_ _ _ _. None) (\<lambda>_. 0) EXCODE_STI True st = Some (Inr st') \<and> curthr st' = IdleThread"
proof -
  have "thrs demo_it = static_threads" "ready_list demo_it = tlclear" "conds demo_it = (\<lambda>_. tlclear)"
    by (simp_all add: demo_it_def demo_kt_def kt.defs ts.defs demo_boot_def)
  from thread_init_ok [OF this] obtain st where
    st: "thread_init 0 0 0 0 demo_it = Inr st" "sched_inv st [IdleThread] (\<lambda>_. [])" "curthr st = MainThread" by blast
  note k = kt_more_cong [OF thread_init_more [OF st(1)]]
  have al: "alarms st 1 = Some \<lparr>al_cond = DevCond 1, al_next = None, twake = 100\<rparr>" "sleep_list st = Some 1"
    using k by (simp_all add: demo_it_def demo_kt_def kt.defs ts.defs)
  then show ?thesis
    using intr_handler_preempts [OF st(2), of "[1]" "\<lambda>_. 0" "\<lambda>_ _ _ _. None"] st(3) by auto
qed

end
