(* ===== verification/Io.thy ===== *)
theory Io
  imports CString
begin

text \<open>
  The I/O interface: \<open>kern/io.c\<close> and the inline functions of \<open>kern/io.h\<close>.

  An object behind \<open>struct io_intf\<close> is modelled by its operations (\<open>io_ops\<close>, a \<open>None\<close> for a null
  pointer) on a state \<open>'s\<close>. A \<open>read\<close> is given the size of the buffer and returns the count or
  error code and the bytes stored from the start of the buffer; a \<open>write\<close> is given the bytes; a
  \<open>ctl\<close> is given the command and the value its argument points to, and returns that value
  after the call. A count or error code is an \<open>int\<close>, a buffer size a \<open>nat\<close> (objects in memory
  are smaller than half the address space, so the C types do not overflow on them).

  The locales \<open>byte_source\<close> and \<open>byte_sink\<close> are the contracts \<open>io.h\<close> states for \<open>read\<close> and
  \<open>write\<close>; the full-transfer loops and the terminal's line-ending conversions are proved
  against them. Diagnostic output is left out.
\<close>

section \<open>Objects and their operations\<close>

definition EINVAL :: int where "EINVAL = 1"
definition ENOTSUP :: int where "ENOTSUP = 3"
definition ENODEV :: int where "ENODEV = 4"
definition EIO :: int where "EIO = 5"
definition EBADFMT :: int where "EBADFMT = 6"
definition ENOENT :: int where "ENOENT = 7"
definition EBADFD :: int where "EBADFD = 9"
definition EMFILE :: int where "EMFILE = 10"

lemmas err_defs = EINVAL_def ENOTSUP_def ENODEV_def EIO_def EBADFMT_def ENOENT_def EBADFD_def EMFILE_def

definition IOCTL_GETLEN :: int where "IOCTL_GETLEN = 1"
definition IOCTL_SETLEN :: int where "IOCTL_SETLEN = 2"
definition IOCTL_GETPOS :: int where "IOCTL_GETPOS = 3"
definition IOCTL_SETPOS :: int where "IOCTL_SETPOS = 4"
definition IOCTL_FLUSH :: int where "IOCTL_FLUSH = 5"
definition IOCTL_GETBLKSZ :: int where "IOCTL_GETBLKSZ = 6"

lemmas ioctl_defs = IOCTL_GETLEN_def IOCTL_SETLEN_def IOCTL_GETPOS_def IOCTL_SETPOS_def
  IOCTL_FLUSH_def IOCTL_GETBLKSZ_def

type_synonym 's read_fn = "nat \<Rightarrow> 's \<Rightarrow> (int \<times> u8 list \<times> 's) res"
type_synonym 's write_fn = "u8 list \<Rightarrow> 's \<Rightarrow> (int \<times> 's) res"
type_synonym 's ctl_fn = "int \<Rightarrow> u64 \<Rightarrow> 's \<Rightarrow> (int \<times> u64 \<times> 's) res"

record 's io_ops =
  op_close :: "('s \<Rightarrow> 's res) option"
  op_read :: "'s read_fn option"
  op_write :: "'s write_fn option"
  op_ctl :: "'s ctl_fn option"

text \<open>Reference counts: the close operation runs when the last reference goes.\<close>

definition ioref :: "u32 \<Rightarrow> u32 \<times> u32" where
  "ioref refcnt = (refcnt + 1, refcnt + 1)"

definition ioclose :: "'s io_ops \<Rightarrow> u32 \<Rightarrow> 's \<Rightarrow> (u32 \<times> 's) res" where
  "ioclose ops refcnt s =
     (if refcnt = 0 then Inr (refcnt, s)
      else let refcnt = refcnt - 1 in
        if refcnt = 0 then
          (case op_close ops of None \<Rightarrow> Inr (refcnt, s)
           | Some cl \<Rightarrow> bind_res (cl s) (\<lambda>s. Inr (refcnt, s)))
        else Inr (refcnt, s))"

definition ioread :: "'s io_ops \<Rightarrow> 's read_fn" where
  "ioread ops n s = (case op_read ops of None \<Rightarrow> Inr (- ENOTSUP, [], s) | Some rd \<Rightarrow> rd n s)"

text \<open>Calls through the table that do not test for a null pointer.\<close>

definition call_read :: "'s io_ops \<Rightarrow> 's read_fn" where
  "call_read ops n s = (case op_read ops of None \<Rightarrow> Inl UndefinedAccess | Some rd \<Rightarrow> rd n s)"

definition call_write :: "'s io_ops \<Rightarrow> 's write_fn" where
  "call_write ops bs s = (case op_write ops of None \<Rightarrow> Inl UndefinedAccess | Some wr \<Rightarrow> wr bs s)"

definition call_ctl :: "'s io_ops \<Rightarrow> 's ctl_fn" where
  "call_ctl ops cmd arg s = (case op_ctl ops of None \<Rightarrow> Inl UndefinedAccess | Some ct \<Rightarrow> ct cmd arg s)"

lemma ioread_call: "call_read ops n s = Inr r \<Longrightarrow> ioread ops n s = Inr r"
  by (simp add: call_read_def ioread_def split: option.splits)

text \<open>The loops of \<open>ioread_full\<close> and \<open>iowrite\<close>.\<close>

function ioread_loop :: "'s read_fn \<Rightarrow> nat \<Rightarrow> nat \<Rightarrow> u8 list \<Rightarrow> 's \<Rightarrow> (int \<times> u8 list \<times> 's) res" where
  "ioread_loop rd bufsz acc buf s =
     (if acc < bufsz then
        (case rd (bufsz - acc) s of
           Inl e \<Rightarrow> Inl e
         | Inr (cnt, bs, s) \<Rightarrow>
             let buf = take acc buf @ bs in
             if cnt < 0 then Inr (cnt, buf, s)
             else if cnt = 0 then Inr (int acc, buf, s)
             else ioread_loop rd bufsz (acc + nat cnt) buf s)
      else Inr (int acc, buf, s))"
  by pat_completeness auto
termination
  by (relation "measure (\<lambda>(_, n, acc, _). n - acc)") auto

definition ioread_full :: "'s io_ops \<Rightarrow> 's read_fn" where
  "ioread_full ops n s =
     (case op_read ops of None \<Rightarrow> Inr (- ENOTSUP, [], s) | Some rd \<Rightarrow> ioread_loop rd n 0 [] s)"

function iowrite_loop :: "'s write_fn \<Rightarrow> u8 list \<Rightarrow> nat \<Rightarrow> 's \<Rightarrow> (int \<times> 's) res" where
  "iowrite_loop wr buf acc s =
     (if acc < length buf then
        (case wr (drop acc buf) s of
           Inl e \<Rightarrow> Inl e
         | Inr (cnt, s) \<Rightarrow>
             if cnt < 0 then Inr (cnt, s)
             else if cnt = 0 then Inr (int acc, s)
             else iowrite_loop wr buf (acc + nat cnt) s)
      else Inr (int acc, s))"
  by pat_completeness auto
termination
  by (relation "measure (\<lambda>(_, buf, acc, _). length buf - acc)") auto

declare ioread_loop.simps [simp del] iowrite_loop.simps [simp del]

definition iowrite :: "'s io_ops \<Rightarrow> 's write_fn" where
  "iowrite ops buf s =
     (case op_write ops of None \<Rightarrow> Inr (- ENOTSUP, s) | Some wr \<Rightarrow> iowrite_loop wr buf 0 s)"

definition ioctl :: "'s io_ops \<Rightarrow> 's ctl_fn" where
  "ioctl ops cmd arg s = (case op_ctl ops of None \<Rightarrow> Inr (- ENOTSUP, arg, s) | Some ct \<Rightarrow> ct cmd arg s)"

definition ioseek :: "'s io_ops \<Rightarrow> u64 \<Rightarrow> 's \<Rightarrow> (int \<times> 's) res" where
  "ioseek ops pos s = bind_res (ioctl ops IOCTL_SETPOS pos s) (\<lambda>(r, _, s). Inr (r, s))"

definition ioputc :: "'s io_ops \<Rightarrow> u8 \<Rightarrow> 's \<Rightarrow> (int \<times> 's) res" where
  "ioputc ops c s = bind_res (iowrite ops [c] s) (\<lambda>(wlen, s).
     Inr (if wlen < 0 then wlen else if wlen = 0 then - EIO else uint c, s))"

text \<open>A read that reports a byte it did not store leaves \<open>c\<close> uninitialised.\<close>

definition iogetc :: "'s io_ops \<Rightarrow> 's \<Rightarrow> (int \<times> 's) res" where
  "iogetc ops s = bind_res (ioread ops 1 s) (\<lambda>(rlen, bs, s).
     if rlen < 0 then Inr (rlen, s)
     else if rlen = 0 then Inr (- EIO, s)
     else case bs of [] \<Rightarrow> Inl UndefinedAccess | c # _ \<Rightarrow> Inr (uint c, s))"

definition ioputs :: "'s io_ops \<Rightarrow> string \<Rightarrow> 's \<Rightarrow> (int \<times> 's) res" where
  "ioputs ops str s =
     bind_res (iowrite ops (map of_char str) s) (\<lambda>(wlen, s).
       if wlen < 0 then Inr (wlen, s)
       else bind_res (iowrite ops [10] s) (\<lambda>(wlen, s). Inr (if wlen < 0 then wlen else 0, s)))"

text \<open>Formatted output: the callback passes characters on until the first error.\<close>

definition iovprintf_putc :: "'s io_ops \<Rightarrow> (int \<times> 's) putc" where
  "iovprintf_putc ops c st =
     (case st of (err, s) \<Rightarrow>
        if err = 0 then bind_res (ioputc ops (of_char c) s) (\<lambda>(r, s). Inr (if r < 0 then r else err, s))
        else Inr (err, s))"

definition iovprintf :: "'s io_ops \<Rightarrow> string \<Rightarrow> vaarg list \<Rightarrow> 's \<Rightarrow> (int \<times> 's) res" where
  "iovprintf ops fmt ap s =
     bind_res (vgprintf (iovprintf_putc ops) fmt ap (0, s)) (\<lambda>(nout, err, s).
       Inr (if err \<noteq> 0 then err else sint nout, s))"

section \<open>Memory as a file\<close>

record io_lit =
  lit_buf :: "u8 list"
  lit_size :: u64
  lit_pos :: u64

definition lit_count :: "nat \<Rightarrow> io_lit \<Rightarrow> nat" where
  "lit_count bufsz lit = min bufsz (unat (lit_size lit - lit_pos lit))"

definition lit_read :: "io_lit read_fn" where
  "lit_read bufsz lit =
     (if lit_size lit \<le> lit_pos lit then Inr (0, [], lit)
      else
        let p = unat (lit_pos lit); to_read = lit_count bufsz lit in
        if length (lit_buf lit) < p + to_read then Inl UndefinedAccess
        else Inr (int to_read, take to_read (drop p (lit_buf lit)), lit))"

definition lit_write :: "io_lit write_fn" where
  "lit_write buf lit =
     (if lit_size lit \<le> lit_pos lit then Inr (0, lit)
      else
        let p = unat (lit_pos lit); to_write = lit_count (length buf) lit in
        if length (lit_buf lit) < p + to_write then Inl UndefinedAccess
        else Inr (int to_write, lit\<lparr>lit_buf := take p (lit_buf lit) @ take to_write buf @
               drop (p + to_write) (lit_buf lit)\<rparr>))"

definition lit_ioctl :: "io_lit ctl_fn" where
  "lit_ioctl cmd arg lit =
     (if cmd = IOCTL_GETLEN then Inr (0, lit_size lit, lit)
      else if cmd = IOCTL_GETPOS then Inr (0, lit_pos lit, lit)
      else if cmd = IOCTL_SETPOS then
        if lit_size lit < arg then Inr (- 1, arg, lit) else Inr (0, arg, lit\<lparr>lit_pos := arg\<rparr>)
      else Inr (- ENOTSUP, arg, lit))"

definition iolit_ops :: "io_lit io_ops" where
  "iolit_ops = \<lparr>op_close = None, op_read = Some lit_read, op_write = Some lit_write, op_ctl = Some lit_ioctl\<rparr>"

definition iolit_init :: "u8 list \<Rightarrow> u64 \<Rightarrow> io_lit" where
  "iolit_init buf sz = \<lparr>lit_buf = buf, lit_size = sz, lit_pos = 0\<rparr>"

section \<open>The terminal\<close>

abbreviation CR :: u8 where "CR \<equiv> 13"
abbreviation LF :: u8 where "LF \<equiv> 10"

record 's io_term =
  rawio :: 's
  cr_out :: bool
  cr_in :: bool

definition ioterm_init :: "'s \<Rightarrow> 's io_term" where
  "ioterm_init raw = \<lparr>rawio = raw, cr_out = False, cr_in = False\<rparr>"

text \<open>The scan of \<open>ioterm_read\<close>, in place: \<open>rp\<close> reads, \<open>wp\<close> writes.\<close>

function crlf_scan :: "nat \<Rightarrow> u8 list \<Rightarrow> nat \<Rightarrow> nat \<Rightarrow> bool \<Rightarrow> (u8 list \<times> nat \<times> bool) res" where
  "crlf_scan cnt buf rp wp ci =
     (if rp < cnt then
        if length buf \<le> rp then Inl UndefinedAccess
        else
          let ch = buf ! rp in
          if ci then
            if ch = CR then crlf_scan cnt (buf[wp := LF]) (rp + 1) (wp + 1) ci
            else if ch = LF then crlf_scan cnt buf (rp + 1) wp False
            else crlf_scan cnt (buf[wp := ch]) (rp + 1) (wp + 1) False
          else if ch = CR then crlf_scan cnt (buf[wp := LF]) (rp + 1) (wp + 1) True
          else crlf_scan cnt (buf[wp := ch]) (rp + 1) (wp + 1) ci
      else Inr (buf, wp, ci))"
  by pat_completeness auto
termination
  by (relation "measure (\<lambda>(cnt, _, rp, _). cnt - rp)") auto

declare crlf_scan.simps [simp del]

text \<open>\<open>None\<close> is a loop that never returns.\<close>

partial_function (option) ioterm_read ::
    "'s io_ops \<Rightarrow> nat \<Rightarrow> 's io_term \<Rightarrow> (int \<times> u8 list \<times> 's io_term) res option" where
  "ioterm_read raw len iot =
     (case ioread raw len (rawio iot) of
        Inl e \<Rightarrow> Some (Inl e)
      | Inr (cnt, bs, s) \<Rightarrow>
          if cnt < 0 then Some (Inr (cnt, bs, iot\<lparr>rawio := s\<rparr>))
          else
            (case crlf_scan (nat cnt) bs 0 0 (cr_in iot) of
               Inl e \<Rightarrow> Some (Inl e)
             | Inr (buf, wp, ci) \<Rightarrow>
                 if wp = 0 then ioterm_read raw len (iot\<lparr>rawio := s, cr_in := ci\<rparr>)
                 else Some (Inr (int wp, take wp buf, iot\<lparr>rawio := s, cr_in := ci\<rparr>))))"

text \<open>
  The scan of \<open>ioterm_write\<close>. The result is the return value, the flag \<open>cr_out\<close> and the raw
  object. \<open>between wp rp buf\<close> are the bytes from \<open>wp\<close> up to \<open>rp\<close>.
\<close>

definition between :: "nat \<Rightarrow> nat \<Rightarrow> 'a list \<Rightarrow> 'a list" where
  "between i j xs = take (j - i) (drop i xs)"

definition term_drain ::
    "'s io_ops \<Rightarrow> u8 list \<Rightarrow> int \<Rightarrow> nat \<Rightarrow> nat \<Rightarrow> bool \<Rightarrow> 's \<Rightarrow> (int \<times> bool \<times> 's) res" where
  "term_drain raw buf acc wp rp co s =
     (if rp \<noteq> wp then
        bind_res (iowrite raw (between wp rp buf) s) (\<lambda>(cnt, s).
          Inr (if cnt < 0 then cnt else if cnt = 0 then acc else acc + cnt, co, s))
      else Inr (acc, co, s))"

function term_scan ::
    "'s io_ops \<Rightarrow> u8 list \<Rightarrow> int \<Rightarrow> nat \<Rightarrow> nat \<Rightarrow> bool \<Rightarrow> 's \<Rightarrow> (int \<times> bool \<times> 's) res" where
  "term_scan raw buf acc wp rp co s =
     (if rp < length buf then
        let ch = buf ! rp; rp = rp + 1 in
        if ch = CR then
          if rp < length buf \<and> buf ! rp = LF then term_scan raw buf acc wp (rp + 1) False s
          else
            (case iowrite raw (between wp rp buf) s of
               Inl e \<Rightarrow> Inl e
             | Inr (cnt, s) \<Rightarrow>
                 if cnt < 0 then Inr (cnt, co, s)
                 else if cnt = 0 then Inr (acc, co, s)
                 else
                   (case ioputc raw LF s of
                      Inl e \<Rightarrow> Inl e
                    | Inr (r, s) \<Rightarrow>
                        if r < 0 then Inr (r, co, s)
                        else term_scan raw buf (acc + cnt) (wp + nat cnt) rp True s))
        else if ch = LF then
          if co then term_scan raw buf acc (wp + 1) rp False s
          else
            (case (if wp \<noteq> rp - 1 then iowrite raw (between wp (rp - 1) buf) s else Inr (0, s)) of
               Inl e \<Rightarrow> Inl e
             | Inr (cnt, s) \<Rightarrow>
                 if wp \<noteq> rp - 1 \<and> cnt < 0 then Inr (cnt, co, s)
                 else if wp \<noteq> rp - 1 \<and> cnt = 0 then Inr (acc, co, s)
                 else
                   (case ioputc raw CR s of
                      Inl e \<Rightarrow> Inl e
                    | Inr (r, s) \<Rightarrow>
                        if r < 0 then Inr (r, co, s)
                        else term_scan raw buf (acc + cnt) (wp + nat cnt) rp False s))
        else term_scan raw buf acc wp rp False s
      else term_drain raw buf acc wp rp co s)"
  by pat_completeness auto
termination
  by (relation "measure (\<lambda>(_, buf, _, _, rp, _). length buf - rp)") (auto split: if_splits)

declare term_scan.simps [simp del]

definition ioterm_write :: "'s io_ops \<Rightarrow> 's io_term write_fn" where
  "ioterm_write raw buf iot =
     bind_res (term_scan raw buf 0 0 0 (cr_out iot) (rawio iot)) (\<lambda>(r, co, s).
       Inr (r, iot\<lparr>rawio := s, cr_out := co\<rparr>))"

definition ioterm_ioctl :: "'s io_ops \<Rightarrow> 's io_term ctl_fn" where
  "ioterm_ioctl raw cmd arg iot =
     (if cmd \<noteq> IOCTL_SETPOS
      then bind_res (ioctl raw cmd arg (rawio iot)) (\<lambda>(r, arg, s). Inr (r, arg, iot\<lparr>rawio := s\<rparr>))
      else Inr (- ENOTSUP, arg, iot))"

definition ioterm_close :: "'s io_ops \<Rightarrow> u32 \<Rightarrow> 's io_term \<Rightarrow> (u32 \<times> 's io_term) res" where
  "ioterm_close raw refcnt iot =
     bind_res (ioclose raw refcnt (rawio iot)) (\<lambda>(refcnt, s). Inr (refcnt, iot\<lparr>rawio := s\<rparr>))"

text \<open>
  The terminal as an object to write to. Its read and close are \<open>ioterm_read\<close>, which may not
  return, and \<open>ioterm_close\<close>, which needs the reference count of the raw object.
\<close>

definition ioterm_ops :: "'s io_ops \<Rightarrow> 's io_term io_ops" where
  "ioterm_ops raw = \<lparr>op_close = None, op_read = None, op_write = Some (ioterm_write raw),
     op_ctl = Some (ioterm_ioctl raw)\<rparr>"

text \<open>
  Line input. \<open>term_getc\<close> is \<open>c = iogetc(&iot->io_intf)\<close>: an error code is cut to a character.
  \<open>echo\<close> writes characters to the raw object and says whether all were taken. \<open>line\<close> holds
  the characters between \<open>buf\<close> and \<open>p\<close>; the result \<open>None\<close> inside is a null pointer.
\<close>

definition term_getc :: "'s io_ops \<Rightarrow> 's io_term \<Rightarrow> (u8 \<times> 's io_term) res option" where
  "term_getc raw iot =
     map_option (\<lambda>r. bind_res r (\<lambda>(rlen, bs, iot).
       if rlen < 0 then Inr (word_of_int rlen, iot)
       else if rlen = 0 then Inr (word_of_int (- EIO), iot)
       else case bs of [] \<Rightarrow> Inl UndefinedAccess | c # _ \<Rightarrow> Inr (c, iot)))
     (ioterm_read raw 1 iot)"

fun echo :: "'s io_ops \<Rightarrow> u8 list \<Rightarrow> 's io_term \<Rightarrow> (bool \<times> 's io_term) res" where
  "echo raw [] iot = Inr (True, iot)"
| "echo raw (c # cs) iot =
     bind_res (ioputc raw c (rawio iot)) (\<lambda>(r, s).
       let iot = iot\<lparr>rawio := s\<rparr> in if r < 0 then Inr (False, iot) else echo raw cs iot)"

definition getsn_key ::
    "'s io_ops \<Rightarrow> u8 \<Rightarrow> u8 list \<Rightarrow> u64 \<Rightarrow> 's io_term \<Rightarrow> (bool \<times> u8 list \<times> u64 \<times> 's io_term) res" where
  "getsn_key raw c line n iot =
     (if c = 91 then Inr (True, line, n, iot\<lparr>cr_in := False\<rparr>)
      else if c = 8 \<or> c = 127 then
        if line \<noteq> [] then bind_res (echo raw [8, 32, 8] iot) (\<lambda>(ok, iot). Inr (ok, butlast line, n + 1, iot))
        else bind_res (echo raw [7] iot) (\<lambda>(ok, iot). Inr (ok, line, n, iot))
      else if n > 1 then bind_res (echo raw [c] iot) (\<lambda>(ok, iot). Inr (ok, line @ [c], n - 1, iot))
      else bind_res (echo raw [7] iot) (\<lambda>(ok, iot). Inr (ok, line, n, iot)))"

partial_function (option) getsn_loop ::
    "'s io_ops \<Rightarrow> u8 list \<Rightarrow> u64 \<Rightarrow> 's io_term \<Rightarrow> (u8 list option \<times> 's io_term) res option" where
  "getsn_loop raw line n iot =
     (case term_getc raw iot of
        None \<Rightarrow> None
      | Some (Inl e) \<Rightarrow> Some (Inl e)
      | Some (Inr (c, iot)) \<Rightarrow>
          if c = CR \<or> c = LF then
            Some (bind_res (echo raw [CR, LF] iot) (\<lambda>(ok, iot). Inr (if ok then Some line else None, iot)))
          else
            (case getsn_key raw c line n iot of
               Inl e \<Rightarrow> Some (Inl e)
             | Inr (ok, line, n, iot) \<Rightarrow>
                 if ok then getsn_loop raw line n iot else Some (Inr (None, iot))))"

definition ioterm_getsn :: "'s io_ops \<Rightarrow> u64 \<Rightarrow> 's io_term \<Rightarrow> (u8 list option \<times> 's io_term) res option" where
  "ioterm_getsn raw n iot = getsn_loop raw [] n iot"

section \<open>Line-ending conversion, character by character\<close>

text \<open>The tables in the comments of \<open>io.c\<close>, as functions on the stream of characters.\<close>

fun crlf_in :: "bool \<Rightarrow> u8 list \<Rightarrow> u8 list \<times> bool" where
  "crlf_in ci [] = ([], ci)"
| "crlf_in ci (ch # cs) =
     (if ch = CR then (let (out, c) = crlf_in True cs in (LF # out, c))
      else if ci \<and> ch = LF then crlf_in False cs
      else (let (out, c) = crlf_in False cs in (ch # out, c)))"

fun crlf_out :: "bool \<Rightarrow> u8 list \<Rightarrow> u8 list \<times> bool" where
  "crlf_out co [] = ([], co)"
| "crlf_out co (ch # cs) =
     (if ch = CR then (let (out, c) = crlf_out True cs in (CR # LF # out, c))
      else if ch = LF then
        if co then crlf_out False cs else (let (out, c) = crlf_out False cs in (CR # LF # out, c))
      else (let (out, c) = crlf_out False cs in (ch # out, c)))"

lemma crlf_in_append:
  "crlf_in ci (xs @ ys) =
     (let (o1, c1) = crlf_in ci xs; (o2, c2) = crlf_in c1 ys in (o1 @ o2, c2))"
  by (induction ci xs rule: crlf_in.induct) (auto simp: Let_def split: prod.splits)

lemma crlf_in_length: "length (fst (crlf_in ci xs)) \<le> length xs"
  by (induction ci xs rule: crlf_in.induct) (auto simp: Let_def split: prod.splits)

text \<open>The scan in place computes \<open>crlf_in\<close>: the write position never passes the read position.\<close>

lemma crlf_scan_ok:
  assumes "wp \<le> rp" and "rp \<le> length buf"
  shows "\<exists>buf'. crlf_scan (length buf) buf rp wp ci =
      Inr (buf', wp + length (fst (crlf_in ci (drop rp buf))), snd (crlf_in ci (drop rp buf))) \<and>
    take (wp + length (fst (crlf_in ci (drop rp buf)))) buf' = take wp buf @ fst (crlf_in ci (drop rp buf))"
  using assms
proof (induction "length buf - rp" arbitrary: buf rp wp ci rule: less_induct)
  case less
  show ?case
  proof (cases "rp < length buf")
    case False
    then show ?thesis using less.prems by (subst crlf_scan.simps) auto
  next
    case True
    have d: "drop rp buf = buf ! rp # drop (rp + 1) buf" using True by (simp add: Cons_nth_drop_Suc)
    have upd: "take (wp + 1) (buf[wp := c]) = take wp buf @ [c]" "drop (rp + 1) (buf[wp := c]) = drop (rp + 1) buf" for c
      using True less.prems by (simp_all add: take_Suc_conv_app_nth)
    have ih: "\<exists>buf'. crlf_scan (length buf) (buf[wp := c]) (rp + 1) (wp + 1) i =
        Inr (buf', wp + 1 + length (fst (crlf_in i (drop (rp + 1) buf))), snd (crlf_in i (drop (rp + 1) buf))) \<and>
      take (wp + 1 + length (fst (crlf_in i (drop (rp + 1) buf)))) buf' =
        (take wp buf @ [c]) @ fst (crlf_in i (drop (rp + 1) buf))" for c i
      using less.hyps [of "buf[wp := c]" "rp + 1" "wp + 1" i] less.prems True unfolding upd length_list_update by simp
    have skip: "\<exists>buf'. crlf_scan (length buf) buf (rp + 1) wp False =
        Inr (buf', wp + length (fst (crlf_in False (drop (rp + 1) buf))), snd (crlf_in False (drop (rp + 1) buf))) \<and>
      take (wp + length (fst (crlf_in False (drop (rp + 1) buf)))) buf' =
        take wp buf @ fst (crlf_in False (drop (rp + 1) buf))"
      using less.hyps [of buf "rp + 1" wp False] less.prems True by simp
    show ?thesis
      using True ih [of LF True] ih [of "buf ! rp" False] skip
      unfolding d by (subst crlf_scan.simps) (auto simp: Let_def split: prod.splits)
  qed
qed

section \<open>Contracts of read and write\<close>

text \<open>
  What \<open>io.h\<close> promises of \<open>read\<close>: it may return fewer bytes than asked for, but at least one
  unless the data is at its end. \<open>pending s\<close> is the data that is left.
\<close>

locale byte_source =
  fixes rd :: "'s read_fn" and inv :: "'s \<Rightarrow> bool" and pending :: "'s \<Rightarrow> u8 list"
  assumes rd_ok: "\<lbrakk>inv s; 0 < n; n < 2 ^ 63\<rbrakk> \<Longrightarrow> \<exists>k s'. rd n s = Inr (int k, take k (pending s), s') \<and> inv s' \<and>
      k \<le> n \<and> k \<le> length (pending s) \<and> pending s' = drop k (pending s) \<and> (pending s \<noteq> [] \<longrightarrow> 0 < k)"
begin

lemma ioread_loop_ok:
  assumes big: "n < 2 ^ 63" and "inv s" and "acc \<le> n" and "length buf = acc"
  shows "\<exists>s'. ioread_loop rd n acc buf s =
      Inr (int (min n (acc + length (pending s))), buf @ take (n - acc) (pending s), s') \<and>
    inv s' \<and> pending s' = drop (n - acc) (pending s)"
  using assms(2-)
proof (induction "n - acc" arbitrary: acc buf s rule: less_induct)
  case less
  show ?case
  proof (cases "acc < n")
    case False
    then show ?thesis using less.prems by (subst ioread_loop.simps) auto
  next
    case True
    obtain k s1 where r: "rd (n - acc) s = Inr (int k, take k (pending s), s1)" "inv s1"
      "k \<le> n - acc" "k \<le> length (pending s)" "pending s1 = drop k (pending s)" "pending s \<noteq> [] \<longrightarrow> 0 < k"
      using rd_ok [OF less.prems(1), of "n - acc"] True le_less_trans [OF diff_le_self big] by auto
    show ?thesis
    proof (cases "k = 0")
      case True
      then have e: "pending s = []" using r(6) by auto
      with True r \<open>acc < n\<close> less.prems show ?thesis by (subst ioread_loop.simps) auto
    next
      case False
      have "\<exists>s'. ioread_loop rd n (acc + k) (buf @ take k (pending s)) s1 =
          Inr (int (min n (acc + k + length (pending s1))),
               (buf @ take k (pending s)) @ take (n - (acc + k)) (pending s1), s') \<and>
          inv s' \<and> pending s' = drop (n - (acc + k)) (pending s1)"
        using False True r less.prems by (intro less.hyps) auto
      moreover have "take k (pending s) @ take (n - (acc + k)) (drop k (pending s)) = take (n - acc) (pending s)"
        using r(3) True take_add [of k "n - (acc + k)" "pending s"] by simp
      moreover have "n - (acc + k) + k = n - acc" "acc + k + (length (pending s) - k) = acc + length (pending s)"
        using r(3,4) by auto
      ultimately show ?thesis
        using True False r less.prems by (subst ioread_loop.simps) (simp add: drop_drop)
    qed
  qed
qed

text \<open>
  \<open>ioterm_read\<close> returns when the data left gives a character, and what it returns is the next
  part of the converted stream.
\<close>

lemma ioterm_read_ok:
  assumes raw: "op_read raw = Some rd" and "inv (rawio iot)" and len: "0 < len" "len < 2 ^ 63"
    and "fst (crlf_in (cr_in iot) (pending (rawio iot))) \<noteq> []"
  shows "\<exists>bs iot'. ioterm_read raw len iot = Some (Inr (int (length bs), bs, iot')) \<and> bs \<noteq> [] \<and>
    length bs \<le> len \<and> inv (rawio iot') \<and> cr_out iot' = cr_out iot \<and>
    fst (crlf_in (cr_in iot) (pending (rawio iot))) = bs @ fst (crlf_in (cr_in iot') (pending (rawio iot')))"
  using assms(2,5)
proof (induction "length (pending (rawio iot))" arbitrary: iot rule: less_induct)
  case less
  let ?p = "pending (rawio iot)"
  obtain k s where r: "rd len (rawio iot) = Inr (int k, take k ?p, s)" "inv s" "k \<le> len"
    "k \<le> length ?p" "pending s = drop k ?p" "?p \<noteq> [] \<longrightarrow> 0 < k"
    using rd_ok [OF less.prems(1) len] by blast
  obtain o1 c1 where o: "crlf_in (cr_in iot) (take k ?p) = (o1, c1)" by (cases "crlf_in (cr_in iot) (take k ?p)")
  obtain buf where b: "crlf_scan k (take k ?p) 0 0 (cr_in iot) = Inr (buf, length o1, c1)"
    "take (length o1) buf = o1"
    using crlf_scan_ok [of 0 0 "take k ?p" "cr_in iot"] r(4) o by auto
  have split: "fst (crlf_in (cr_in iot) ?p) = o1 @ fst (crlf_in c1 (drop k ?p))"
    using crlf_in_append [of "cr_in iot" "take k ?p" "drop k ?p"] o by (simp add: Let_def split: prod.splits)
  let ?iot = "iot\<lparr>rawio := s, cr_in := c1\<rparr>"
  show ?case
  proof (cases "o1 = []")
    case False
    have "length o1 \<le> len" using crlf_in_length [of "cr_in iot" "take k ?p"] o r(3,4) by simp
    moreover have "ioterm_read raw len iot = Some (Inr (int (length o1), o1, ?iot))"
      using r(1) b False raw by (subst ioterm_read.simps) (simp add: ioread_def)
    ultimately show ?thesis
      using False r(2,5) split by (intro exI [of _ o1] exI [of _ ?iot]) simp
  next
    case True
    have "?p \<noteq> []" using less.prems(2) by auto
    then have "length (pending s) < length ?p" using r(4,5,6) by auto
    then have "\<exists>bs iot'. ioterm_read raw len ?iot = Some (Inr (int (length bs), bs, iot')) \<and> bs \<noteq> [] \<and>
      length bs \<le> len \<and> inv (rawio iot') \<and> cr_out iot' = cr_out ?iot \<and>
      fst (crlf_in (cr_in ?iot) (pending (rawio ?iot))) = bs @ fst (crlf_in (cr_in iot') (pending (rawio iot')))"
      using r(2,5) split True less.prems(2) by (intro less.hyps) auto
    moreover have "ioterm_read raw len iot = ioterm_read raw len ?iot"
      using r(1) b True raw by (subst ioterm_read.simps) (simp add: ioread_def)
    ultimately show ?thesis using split True r(5) by simp
  qed
qed

end

text \<open>
  What \<open>io.h\<close> promises of \<open>write\<close>: it may take fewer bytes than offered, but at least one
  unless the object cannot grow. \<open>view s\<close> is what was written so far, \<open>put\<close> adds one byte to
  it, and \<open>room s\<close> is the number of bytes the object can still take.
\<close>

locale byte_sink =
  fixes wr :: "'s write_fn" and inv :: "'s \<Rightarrow> bool" and view :: "'s \<Rightarrow> 'v" and put :: "'v \<Rightarrow> u8 \<Rightarrow> 'v"
    and room :: "'s \<Rightarrow> nat"
  assumes wr_ok: "\<lbrakk>inv s; bs \<noteq> []; length bs < 2 ^ 63\<rbrakk> \<Longrightarrow> \<exists>k s'. wr bs s = Inr (int k, s') \<and> inv s' \<and>
      view s' = foldl put (view s) (take k bs) \<and> room s' = room s - k \<and> k \<le> length bs \<and>
      k \<le> room s \<and> (0 < room s \<longrightarrow> 0 < k)"
begin

lemma iowrite_loop_ok:
  assumes big: "length buf < 2 ^ 63" and "inv s" and "acc \<le> length buf"
  shows "\<exists>s'. iowrite_loop wr buf acc s = Inr (int (min (length buf) (acc + room s)), s') \<and> inv s' \<and>
    view s' = foldl put (view s) (take (room s) (drop acc buf)) \<and> room s' = room s - (length buf - acc)"
  using assms(2-)
proof (induction "length buf - acc" arbitrary: acc s rule: less_induct)
  case less
  show ?case
  proof (cases "acc < length buf")
    case False
    then show ?thesis using less.prems by (subst iowrite_loop.simps) auto
  next
    case True
    obtain k s1 where r: "wr (drop acc buf) s = Inr (int k, s1)" "inv s1"
      "view s1 = foldl put (view s) (take k (drop acc buf))" "room s1 = room s - k"
      "k \<le> length buf - acc" "k \<le> room s" "0 < room s \<longrightarrow> 0 < k"
      using wr_ok [OF less.prems(1), of "drop acc buf"] True le_less_trans [OF diff_le_self big] by auto
    show ?thesis
    proof (cases "k = 0")
      case True
      then have "room s = 0" using r(7) by auto
      with True r \<open>acc < length buf\<close> less.prems show ?thesis by (subst iowrite_loop.simps) simp
    next
      case False
      have "\<exists>s'. iowrite_loop wr buf (acc + k) s1 = Inr (int (min (length buf) (acc + k + room s1)), s') \<and> inv s' \<and>
          view s' = foldl put (view s1) (take (room s1) (drop (acc + k) buf)) \<and>
          room s' = room s1 - (length buf - (acc + k))"
        using False True r by (intro less.hyps) auto
      moreover have "take k (drop acc buf) @ take (room s - k) (drop (acc + k) buf) = take (room s) (drop acc buf)"
        using r(6) take_add [of k "room s - k" "drop acc buf"] by (simp add: drop_drop add.commute)
      then have "foldl put (foldl put (view s) (take k (drop acc buf))) (take (room s - k) (drop (acc + k) buf)) =
          foldl put (view s) (take (room s) (drop acc buf))"
        by (metis foldl_append)
      moreover have "room s - k - (length buf - (acc + k)) = room s - (length buf - acc)" using r(5) by simp
      ultimately show ?thesis using True False r by (subst iowrite_loop.simps) simp
    qed
  qed
qed

lemma iowrite_all:
  assumes "op_write raw = Some wr" and "inv s" and "length bs \<le> room s" and "length bs < 2 ^ 63"
  shows "\<exists>s'. iowrite raw bs s = Inr (int (length bs), s') \<and> inv s' \<and> view s' = foldl put (view s) bs \<and>
    room s' = room s - length bs"
  using iowrite_loop_ok [OF assms(4,2), of 0] assms by (simp add: iowrite_def)

lemma ioputc_ok:
  assumes "op_write raw = Some wr" and "inv s" and "1 \<le> room s"
  shows "\<exists>s'. ioputc raw c s = Inr (uint c, s') \<and> inv s' \<and> view s' = put (view s) c \<and> room s' = room s - 1"
  using iowrite_all [OF assms(1,2), of "[c]"] assms(3) by (auto simp: ioputc_def)

text \<open>
  The scan of \<open>ioterm_write\<close> sends the bytes it has passed but not written yet and then the
  converted rest of the buffer. After a lone carriage return nothing is left to write.
\<close>

lemma term_scan_ok:
  assumes raw: "op_write raw = Some wr" and big: "length buf < 2 ^ 63" and "inv s" and "wp \<le> rp" and "rp \<le> length buf"
    and "co \<longrightarrow> wp = rp" and "length (between wp rp buf @ fst (crlf_out co (drop rp buf))) \<le> room s"
  shows "\<exists>s'. term_scan raw buf acc wp rp co s =
      Inr (acc + int (length buf - wp) - (if co \<and> rp < length buf \<and> buf ! rp = LF then 1 else 0),
           snd (crlf_out co (drop rp buf)), s') \<and> inv s' \<and>
    view s' = foldl put (view s) (between wp rp buf @ fst (crlf_out co (drop rp buf))) \<and>
    room s' = room s - length (between wp rp buf @ fst (crlf_out co (drop rp buf)))"
  using assms(3-)
proof (induction "length buf - rp" arbitrary: acc wp rp co s rule: less_induct)
  case less
  let ?rest = "\<lambda>co q. fst (crlf_out co (drop q buf))"
  have bb: "length (between i j buf) < 2 ^ 63" for i j using big by (simp add: between_def)
  have be: "between i i buf = []" for i by (simp add: between_def)
  have bl: "length (between i j buf) = j - i" if "i \<le> j" "j \<le> length buf" for i j
    using that by (simp add: between_def)
  show ?case
  proof (cases "rp < length buf")
    case False
    then have d: "drop rp buf = []" by simp
    show ?thesis
    proof (cases "rp = wp")
      case True
      then show ?thesis using False less.prems be d by (subst term_scan.simps) (auto simp: term_drain_def)
    next
      case neq: False
      obtain s' where w: "iowrite raw (between wp rp buf) s = Inr (int (rp - wp), s')" "inv s'"
        "view s' = foldl put (view s) (between wp rp buf)" "room s' = room s - length (between wp rp buf)"
        using iowrite_all [OF raw less.prems(1) _ bb, of wp rp] less.prems d bl [of wp rp] by auto
      have "0 < rp - wp" "rp = length buf" using neq False less.prems(2,3) by auto
      with w neq False d less.prems show ?thesis by (subst term_scan.simps) (auto simp: term_drain_def)
    qed
  next
    case True
    let ?ch = "buf ! rp" and ?q = "rp + 1"
    have d: "drop rp buf = ?ch # drop ?q buf" using True by (simp add: Cons_nth_drop_Suc)
    have bw: "between wp ?q buf = between wp rp buf @ [?ch]"
      using True less.prems(2) by (simp add: between_def Suc_diff_le take_Suc_conv_app_nth)
    have ih: "\<exists>s''. term_scan raw buf acc' wp' q co' s' =
        Inr (acc' + int (length buf - wp') - (if co' \<and> q < length buf \<and> buf ! q = LF then 1 else 0),
          snd (crlf_out co' (drop q buf)), s'') \<and> inv s'' \<and>
        view s'' = foldl put (view s') (between wp' q buf @ ?rest co' q) \<and>
        room s'' = room s' - length (between wp' q buf @ ?rest co' q)"
      if "rp < q" "q \<le> length buf" "inv s'" "wp' \<le> q" "co' \<longrightarrow> wp' = q"
        "length (between wp' q buf @ ?rest co' q) \<le> room s'" for acc' wp' q co' s'
      using that True by (intro less.hyps) auto
    consider (crlf) "?ch = CR" "?q < length buf" "buf ! ?q = LF"
      | (cr) "?ch = CR" "\<not> (?q < length buf \<and> buf ! ?q = LF)"
      | (skip) "?ch = LF" "co" | (lf) "?ch = LF" "\<not> co" | (other) "?ch \<noteq> CR" "?ch \<noteq> LF" by blast
    then show ?thesis
    proof cases
      case crlf
      have d2: "drop ?q buf = LF # drop (?q + 1) buf" using crlf by (simp add: Cons_nth_drop_Suc [symmetric])
      have "between wp (?q + 1) buf = between wp rp buf @ [CR, LF]"
        using crlf bw less.prems(2) by (simp add: between_def Suc_diff_le take_Suc_conv_app_nth)
      then show ?thesis
        using crlf True ih [of "?q + 1" s wp False acc] less.prems d d2
        by (subst term_scan.simps) (simp add: Let_def split: prod.splits)
    next
      case cr
      have room: "length (between wp ?q buf @ [LF] @ ?rest True ?q) \<le> room s"
        using less.prems(5) cr(1) unfolding bw d by (simp add: Let_def split: prod.splits)
      obtain s1 where w1: "iowrite raw (between wp ?q buf) s = Inr (int (?q - wp), s1)" "inv s1"
        "view s1 = foldl put (view s) (between wp ?q buf)" "room s1 = room s - length (between wp ?q buf)"
        using iowrite_all [OF raw less.prems(1) _ bb, of wp ?q] room bl [of wp ?q] True less.prems(2) by auto
      have r1: "1 \<le> room s1" using w1(4) room by simp
      obtain s2 where w2: "ioputc raw LF s1 = Inr (10, s2)" "inv s2" "view s2 = put (view s1) LF" "room s2 = room s1 - 1"
        using ioputc_ok [OF raw w1(2) r1, of LF] by auto
      have nq: "wp + nat (1 + int rp - int wp) = Suc rp" using less.prems(2) by simp
      have "term_scan raw buf acc wp rp co s = term_scan raw buf (acc + int (?q - wp)) ?q ?q True s2"
        using cr True w1(1) w2(1) less.prems(2) nq by (subst term_scan.simps) (auto simp: Let_def)
      moreover have "\<exists>s'. term_scan raw buf (acc + int (?q - wp)) ?q ?q True s2 =
          Inr (acc + int (length buf - wp), snd (crlf_out True (drop ?q buf)), s') \<and> inv s' \<and>
          view s' = foldl put (view s2) (?rest True ?q) \<and> room s' = room s2 - length (?rest True ?q)"
        using ih [of ?q s2 ?q True "acc + int (?q - wp)"] True w1 w2 room cr less.prems(2) be by auto
      ultimately show ?thesis
        using cr(1) bw w1(3,4) w2(3,4) unfolding d by (auto simp: Let_def split: prod.splits)
    next
      case skip
      then show ?thesis
        using True ih [of ?q s ?q False acc] less.prems be unfolding d
        by (subst term_scan.simps) (auto simp: Let_def)
    next
      case lf
      have room: "length (between wp rp buf @ [CR] @ [LF] @ ?rest False ?q) \<le> room s"
        using less.prems(5) lf unfolding d by (simp add: Let_def split: prod.splits)
      have lfb: "between rp ?q buf = [LF]" using lf True by (simp add: between_def take_Suc hd_drop_conv_nth)
      obtain s1 where w1: "wp \<noteq> rp \<longrightarrow> iowrite raw (between wp rp buf) s = Inr (int (rp - wp), s1)"
        "wp = rp \<longrightarrow> s1 = s" "inv s1"
        "view s1 = foldl put (view s) (between wp rp buf)" "room s1 = room s - length (between wp rp buf)"
      proof (cases "wp = rp")
        case True
        then show thesis using that [of s] less.prems(1) be by simp
      next
        case False
        have "length (between wp rp buf) \<le> room s" using room by simp
        from False that iowrite_all [OF raw less.prems(1) this bb] bl [of wp rp] less.prems(2,3)
        show thesis by auto
      qed
      have r1: "1 \<le> room s1" using w1(5) room by simp
      obtain s2 where w2: "ioputc raw CR s1 = Inr (13, s2)" "inv s2" "view s2 = put (view s1) CR" "room s2 = room s1 - 1"
        using ioputc_ok [OF raw w1(3) r1, of CR] by auto
      have "term_scan raw buf acc wp rp co s = term_scan raw buf (acc + int (rp - wp)) rp ?q False s2"
      proof (cases "wp = rp")
        case True
        with w1(2) lf w2(1) \<open>rp < length buf\<close> show ?thesis by (subst term_scan.simps) (simp add: Let_def)
      next
        case False
        moreover have "wp + nat (int rp - int wp) = rp" using less.prems(2) by simp
        ultimately show ?thesis
          using lf True w1(1) w2(1) less.prems(2) by (subst term_scan.simps) (simp add: Let_def)
      qed
      moreover have "\<exists>s'. term_scan raw buf (acc + int (rp - wp)) rp ?q False s2 =
          Inr (acc + int (length buf - wp), snd (crlf_out False (drop ?q buf)), s') \<and> inv s' \<and>
          view s' = foldl put (view s2) ([LF] @ ?rest False ?q) \<and> room s' = room s2 - length ([LF] @ ?rest False ?q)"
        using ih [of ?q s2 rp False "acc + int (rp - wp)"] True w1 w2 room lf less.prems(2) lfb by auto
      ultimately show ?thesis
        using lf w1(4,5) w2(3,4) unfolding d by (auto simp: Let_def split: prod.splits)
    next
      case other
      then show ?thesis
        using True ih [of ?q s wp False acc] less.prems bw unfolding d
        by (subst term_scan.simps) (auto simp: Let_def split: prod.splits)
    qed
  qed
qed

lemma ioterm_write_ok:
  assumes "op_write raw = Some wr" and "length buf < 2 ^ 63" and "inv (rawio iot)"
    and "length (fst (crlf_out (cr_out iot) buf)) \<le> room (rawio iot)"
  shows "\<exists>s'. ioterm_write raw buf iot =
      Inr (int (length buf) - (if cr_out iot \<and> buf \<noteq> [] \<and> hd buf = LF then 1 else 0),
           iot\<lparr>rawio := s', cr_out := snd (crlf_out (cr_out iot) buf)\<rparr>) \<and> inv s' \<and>
    view s' = foldl put (view (rawio iot)) (fst (crlf_out (cr_out iot) buf)) \<and>
    room s' = room (rawio iot) - length (fst (crlf_out (cr_out iot) buf))"
  using term_scan_ok [OF assms(1-3), of 0 0 "cr_out iot" 0] assms(4)
  by (cases buf) (auto simp: ioterm_write_def between_def)

end

section \<open>Correctness properties\<close>

text \<open>
  C28. \<open>ioread_full\<close> over any object whose \<open>read\<close> keeps the contract of \<open>io.h\<close> returns, and gives
  all the bytes asked for, in order, or all that were left before the end of the data.
\<close>

theorem ioread_full_correct:
  assumes "byte_source rd ok pending" and "op_read ops = Some rd" and "ok s" and "n < 2 ^ 63"
  shows "\<exists>s'. ioread_full ops n s =
      Inr (int (min n (length (pending s))), take n (pending s), s') \<and> ok s' \<and> pending s' = drop n (pending s)"
  using byte_source.ioread_loop_ok [OF assms(1,4,3), of 0 "[]"] assms(2) by (simp add: ioread_full_def)

text \<open>
  C27. \<open>ioterm_read\<close> over such an object returns at least one and at most \<open>len\<close> characters, provided
  the data left holds more than a line feed to skip, and what it returns is the next part of the
  input with every line ending converted to one line feed.
\<close>

theorem ioterm_read_correct:
  assumes "byte_source rd ok pending" and "op_read raw = Some rd" and "ok (rawio iot)" and "0 < len" and "len < 2 ^ 63"
    and "fst (crlf_in (cr_in iot) (pending (rawio iot))) \<noteq> []"
  shows "\<exists>bs iot'. ioterm_read raw len iot = Some (Inr (int (length bs), bs, iot')) \<and> bs \<noteq> [] \<and>
    length bs \<le> len \<and> ok (rawio iot') \<and> cr_out iot' = cr_out iot \<and>
    fst (crlf_in (cr_in iot) (pending (rawio iot))) = bs @ fst (crlf_in (cr_in iot') (pending (rawio iot')))"
  using byte_source.ioterm_read_ok [OF assms] .

text \<open>
  C26. \<open>ioterm_write\<close> sends exactly the converted buffer to the raw object (every lone carriage
  return or line feed becomes a pair, a pair stays a pair, also across calls). The count it
  returns is the length of the buffer, except that a line feed skipped because the previous
  call ended in a carriage return is not counted.
\<close>

theorem ioterm_write_correct:
  assumes "byte_sink wr ok view put room" and "op_write raw = Some wr" and "length buf < 2 ^ 63" and "ok (rawio iot)"
    and "length (fst (crlf_out (cr_out iot) buf)) \<le> room (rawio iot)"
  shows "\<exists>s'. ioterm_write raw buf iot =
      Inr (int (length buf) - (if cr_out iot \<and> buf \<noteq> [] \<and> hd buf = LF then 1 else 0),
           iot\<lparr>rawio := s', cr_out := snd (crlf_out (cr_out iot) buf)\<rparr>) \<and> ok s' \<and>
    view s' = foldl put (view (rawio iot)) (fst (crlf_out (cr_out iot) buf))"
  using byte_sink.ioterm_write_ok [OF assms] by blast

text \<open>A byte stream that is a list, for the witnesses: it hands out at most two bytes per call.\<close>

definition list_rd :: "u8 list read_fn" where
  "list_rd n s = Inr (int (length (take (min n 2) s)), take (min n 2) s, drop (min n 2) s)"

definition list_wr :: "u8 list write_fn" where
  "list_wr bs s = (let k = min 2 (min (length bs) (100 - length s)) in Inr (int k, s @ take k bs))"

definition list_ops :: "u8 list io_ops" where
  "list_ops = \<lparr>op_close = None, op_read = Some list_rd, op_write = Some list_wr, op_ctl = None\<rparr>"

lemma list_source: "byte_source list_rd (\<lambda>_. True) (\<lambda>s. s)"
proof
  fix s :: "u8 list" and n :: nat
  assume "0 < n"
  then show "\<exists>k s'. list_rd n s = Inr (int k, take k s, s') \<and> True \<and> k \<le> n \<and> k \<le> length s \<and>
      s' = drop k s \<and> (s \<noteq> [] \<longrightarrow> 0 < k)"
    by (intro exI [of _ "length (take (min n 2) s)"] exI [of _ "drop (min n 2) s"])
       (auto simp: list_rd_def min_def)
qed

lemma foldl_snoc: "foldl (\<lambda>v b. v @ [b]) v bs = v @ bs"
  by (induction bs arbitrary: v) auto

lemma list_sink: "byte_sink list_wr (\<lambda>s. length s \<le> 100) (\<lambda>s. s) (\<lambda>v b. v @ [b]) (\<lambda>s. 100 - length s)"
proof
  fix s bs :: "u8 list"
  assume "length s \<le> 100" "bs \<noteq> []"
  then show "\<exists>k s'. list_wr bs s = Inr (int k, s') \<and> length s' \<le> 100 \<and>
      s' = foldl (\<lambda>v b. v @ [b]) s (take k bs) \<and> 100 - length s' = 100 - length s - k \<and> k \<le> length bs \<and>
      k \<le> 100 - length s \<and> (0 < 100 - length s \<longrightarrow> 0 < k)"
    by (intro exI [of _ "min 2 (min (length bs) (100 - length s))"])
       (auto simp: list_wr_def Let_def foldl_snoc)
qed

theorem ioread_full_witness:
  "\<exists>s'. ioread_full list_ops 5 [1, 2, 3] = Inr (3, [1, 2, 3], s')"
proof -
  have "op_read list_ops = Some list_rd" by (simp add: list_ops_def)
  from ioread_full_correct [OF list_source this, where s = "[1, 2, 3]" and n = 5] show ?thesis by auto
qed

theorem ioterm_read_witness:
  "\<exists>bs iot'. ioterm_read list_ops 8 (ioterm_init [CR, LF, 97]) = Some (Inr (int (length bs), bs, iot')) \<and>
     [LF, 97] = bs @ fst (crlf_in (cr_in iot') (rawio iot'))"
proof -
  have o: "op_read list_ops = Some list_rd" by (simp add: list_ops_def)
  have "fst (crlf_in False [CR, LF, 97]) = [LF, 97]" by (simp add: Let_def)
  then show ?thesis
    using ioterm_read_correct [OF list_source o, where iot = "ioterm_init [CR, LF, 97]" and len = 8]
    by (auto simp: ioterm_init_def)
qed

theorem ioterm_write_witness:
  "ioterm_write list_ops [LF, 97, CR] \<lparr>rawio = [], cr_out = True, cr_in = False\<rparr> =
     Inr (2, \<lparr>rawio = [97, CR, LF], cr_out = True, cr_in = False\<rparr>)"
proof -
  have o: "op_write list_ops = Some list_wr" by (simp add: list_ops_def)
  have "crlf_out True [LF, 97, CR] = ([97, CR, LF], True)" by (simp add: Let_def)
  then show ?thesis
    using ioterm_write_correct [OF list_sink o, of "[LF, 97, CR]" "\<lparr>rawio = [], cr_out = True, cr_in = False\<rparr>"]
    by (auto simp: foldl_snoc)
qed

text \<open>
  The count of \<open>ioterm_write\<close> makes \<open>iowrite\<close> send data twice: writing a carriage return and
  then a line feed followed by \<open>b\<close> through the terminal, \<open>iowrite\<close> finds one byte unwritten and
  writes the \<open>b\<close> again; a lone line feed after a carriage return is reported as the end of
  file.
\<close>

theorem iowrite_term_repeats:
  assumes "byte_sink wr ok view put room" and "op_write raw = Some wr" and "ok (rawio iot)"
    and "cr_out iot" and "b \<noteq> CR" and "b \<noteq> LF" and "2 \<le> room (rawio iot)"
  shows "(\<exists>s'. iowrite (ioterm_ops raw) [LF, b] iot = Inr (2, iot\<lparr>rawio := s', cr_out := False\<rparr>) \<and>
      view s' = put (put (view (rawio iot)) b) b) \<and>
    (\<exists>s'. ioputc (ioterm_ops raw) LF iot = Inr (- EIO, iot\<lparr>rawio := s', cr_out := False\<rparr>))"
proof -
  note sink = byte_sink.ioterm_write_ok [OF assms(1,2)]
  obtain s1 where w1: "ioterm_write raw [LF, b] iot = Inr (1, iot\<lparr>rawio := s1, cr_out := False\<rparr>)" "ok s1"
    "view s1 = put (view (rawio iot)) b" "room s1 = room (rawio iot) - 1"
    using sink [of "[LF, b]" iot] assms(3-) by auto
  have "1 \<le> room s1" using w1(4) assms(7) by simp
  then obtain s2 where w2: "ioterm_write raw [b] (iot\<lparr>rawio := s1, cr_out := False\<rparr>) =
      Inr (1, iot\<lparr>rawio := s2, cr_out := False\<rparr>)" "view s2 = put (view s1) b"
    using sink [of "[b]" "iot\<lparr>rawio := s1, cr_out := False\<rparr>"] assms(3-) w1(2,4) by auto
  obtain s3 where w3: "ioterm_write raw [LF] iot = Inr (0, iot\<lparr>rawio := s3, cr_out := False\<rparr>)"
    using sink [of "[LF]" iot] assms(3,4) by auto
  have "iowrite (ioterm_ops raw) [LF, b] iot = Inr (2, iot\<lparr>rawio := s2, cr_out := False\<rparr>)"
    using w1(1) w2(1) by (simp add: iowrite_def ioterm_ops_def iowrite_loop.simps)
  moreover have "ioputc (ioterm_ops raw) LF iot = Inr (- EIO, iot\<lparr>rawio := s3, cr_out := False\<rparr>)"
    using w3 by (simp add: iowrite_def ioterm_ops_def ioputc_def iowrite_loop.simps)
  ultimately show ?thesis using w1(3) w2(2) by auto
qed

theorem iowrite_term_repeats_witness:
  "\<exists>s'. iowrite (ioterm_ops list_ops) [LF, 98] \<lparr>rawio = [], cr_out = True, cr_in = False\<rparr> =
     Inr (2, \<lparr>rawio = s', cr_out = False, cr_in = False\<rparr>) \<and> s' = [98, 98]"
proof -
  have o: "op_write list_ops = Some list_wr" by (simp add: list_ops_def)
  show ?thesis
    using iowrite_term_repeats [OF list_sink o, of "\<lparr>rawio = [], cr_out = True, cr_in = False\<rparr>" 98] by auto
qed

end
