(* ===== verification/Device.thy ===== *)
theory Device
  imports CString Io
begin

text \<open>
  The device manager: \<open>kern/device.c\<close>. A device is registered under a name with a function that
  opens it; several devices may share a name and are told apart by their instance number. The
  open function is stored as a number; \<open>run_open\<close>, an argument of \<open>device_open\<close>, is what calling
  it does. Names are kept without their terminator.
\<close>

section \<open>State and operations\<close>

record device =
  dev_name :: "string option"
  dev_openfn :: "nat option"
  dev_aux :: nat

type_synonym devtab = "device list"

definition NDEV :: nat where "NDEV = 16"

definition cstr :: "string option \<Rightarrow> string option" where
  "cstr = map_option (\<lambda>s. s @ [NUL])"

definition devtab_empty :: devtab where
  "devtab_empty = replicate NDEV \<lparr>dev_name = None, dev_openfn = None, dev_aux = 0\<rparr>"

text \<open>
  The loop of \<open>device_register\<close> from slot \<open>devno\<close> on, over the slots that are left: the first
  free slot, and the number of devices of that name before it.
\<close>

fun find_free :: "string \<Rightarrow> devtab \<Rightarrow> nat \<Rightarrow> nat \<Rightarrow> (nat \<times> nat) res" where
  "find_free name [] devno instno = Inr (devno, instno)"
| "find_free name (d # ds) devno instno =
     (if dev_name d = None then Inr (devno, instno)
      else bind_res (strcmp (cstr (dev_name d)) (cstr (Some name))) (\<lambda>c.
        find_free name ds (devno + 1) (if c = 0 then instno + 1 else instno)))"

definition device_register :: "string option \<Rightarrow> nat option \<Rightarrow> nat \<Rightarrow> devtab \<Rightarrow> (int \<times> devtab) res" where
  "device_register name openfn aux tab =
     bind_res (check (name \<noteq> None) AssertFailed) (\<lambda>_.
     bind_res (check (openfn \<noteq> None) AssertFailed) (\<lambda>_.
     bind_res (find_free (the name) tab 0 0) (\<lambda>(devno, instno).
       if devno = NDEV then Inl (Panic ''Too many devices (increase NDEV)'')
       else Inr (int instno, tab[devno := \<lparr>dev_name = name, dev_openfn = openfn, dev_aux = aux\<rparr>]))))"

text \<open>The loop of \<open>device_open\<close>: the slot of the \<open>instno\<close>-th device of that name.\<close>

fun find_dev :: "string \<Rightarrow> int \<Rightarrow> devtab \<Rightarrow> nat \<Rightarrow> int \<Rightarrow> nat res" where
  "find_dev name instno [] devno k = Inr devno"
| "find_dev name instno (d # ds) devno k =
     (if dev_openfn d = None then find_dev name instno ds (devno + 1) k
      else bind_res (strcmp (cstr (dev_name d)) (cstr (Some name))) (\<lambda>c.
        if c = 0 then
          if k = instno then Inr devno else find_dev name instno ds (devno + 1) (k + 1)
        else find_dev name instno ds (devno + 1) k))"

definition device_open ::
    "(nat \<Rightarrow> nat \<Rightarrow> 's \<Rightarrow> (int \<times> 's) res) \<Rightarrow> devtab \<Rightarrow> string \<Rightarrow> int \<Rightarrow> 's \<Rightarrow> (int \<times> 's) res" where
  "device_open run_open tab name instno s =
     bind_res (find_dev name instno tab 0 0) (\<lambda>devno.
       if devno = NDEV then Inr (- ENODEV, s)
       else case dev_openfn (tab ! devno) of
              None \<Rightarrow> Inl UndefinedAccess
            | Some f \<Rightarrow> run_open f (dev_aux (tab ! devno)) s)"

section \<open>Well-formed tables\<close>

text \<open>
  The table holds the registered devices \<open>ds\<close>, then empty slots. \<open>instances\<close> are the devices
  of a name in the order they were registered.
\<close>

definition dev_ok :: "device \<Rightarrow> bool" where
  "dev_ok d \<longleftrightarrow> (\<exists>n. dev_name d = Some n \<and> no_nul n) \<and> dev_openfn d \<noteq> None"

definition tab_ok :: "devtab \<Rightarrow> device list \<Rightarrow> bool" where
  "tab_ok tab ds \<longleftrightarrow> length ds \<le> NDEV \<and> (\<forall>d \<in> set ds. dev_ok d) \<and>
     tab = ds @ replicate (NDEV - length ds) \<lparr>dev_name = None, dev_openfn = None, dev_aux = 0\<rparr>"

definition instances :: "string \<Rightarrow> device list \<Rightarrow> device list" where
  "instances name ds = filter (\<lambda>d. dev_name d = Some name) ds"

lemma strcmp_names:
  "no_nul s \<Longrightarrow> no_nul t \<Longrightarrow> \<exists>c. strcmp (cstr (Some s)) (cstr (Some t)) = Inr c \<and> (c = 0 \<longleftrightarrow> s = t)"
  using strcmp_loop_order [of s t "[]" "[]"] by (simp add: strcmp_def cstr_def str_order_zero)

lemma find_free_ok:
  assumes "\<forall>d \<in> set ds. dev_ok d" and "no_nul name" and "\<forall>d \<in> set es. dev_name d = None"
  shows "find_free name (ds @ es) i k = Inr (i + length ds, k + length (instances name ds))"
  using assms(1)
proof (induction ds arbitrary: i k)
  case Nil
  then show ?case using assms(3) by (cases es) (auto simp: instances_def)
next
  case (Cons d ds)
  then obtain n where n: "dev_name d = Some n" "no_nul n" by (auto simp: dev_ok_def)
  obtain c where "strcmp (cstr (Some n)) (cstr (Some name)) = Inr c" "c = 0 \<longleftrightarrow> n = name"
    using strcmp_names [OF n(2) assms(2)] by blast
  with n Cons show ?case by (simp add: instances_def)
qed

lemma find_dev_ok:
  assumes "\<forall>d \<in> set ds. dev_ok d" and "no_nul name" and "\<forall>d \<in> set es. dev_openfn d = None"
    and "0 \<le> inst" and "k \<le> inst"
  shows "\<exists>j. find_dev name inst (ds @ es) i k = Inr (i + j) \<and>
    (if nat (inst - k) < length (instances name ds)
     then j < length ds \<and> ds ! j = instances name ds ! nat (inst - k)
     else j = length ds + length es)"
  using assms(1,5)
proof (induction ds arbitrary: i k)
  case Nil
  have "find_dev name inst es i k = Inr (i + length es)" using assms(3)
    by (induction es arbitrary: i) auto
  then show ?case by (simp add: instances_def)
next
  case (Cons d ds)
  then obtain n where n: "dev_name d = Some n" "no_nul n" "dev_openfn d \<noteq> None" by (auto simp: dev_ok_def)
  obtain c where c: "strcmp (cstr (Some n)) (cstr (Some name)) = Inr c" "c = 0 \<longleftrightarrow> n = name"
    using strcmp_names [OF n(2) assms(2)] by blast
  show ?case
  proof (cases "n = name \<and> k = inst")
    case True
    then show ?thesis using n c Cons.prems by (intro exI [of _ 0]) (auto simp: instances_def)
  next
    case False
    define k' where "k' = (if n = name then k + 1 else k)"
    have k': "k' \<le> inst" using False Cons.prems(2) by (auto simp: k'_def)
    have "find_dev name inst ((d # ds) @ es) i k = find_dev name inst (ds @ es) (i + 1) k'"
      using n c False by (auto simp: k'_def)
    moreover obtain j where j: "find_dev name inst (ds @ es) (i + 1) k' = Inr (i + 1 + j)"
      "if nat (inst - k') < length (instances name ds)
       then j < length ds \<and> ds ! j = instances name ds ! nat (inst - k')
       else j = length ds + length es"
      using Cons.IH [of k' "i + 1"] Cons.prems(1) k' by auto
    moreover have "nat (inst - k) = (if n = name then Suc (nat (inst - k')) else nat (inst - k'))"
      using k' False Cons.prems(2) by (auto simp: k'_def)
    ultimately show ?thesis
      using n by (intro exI [of _ "Suc j"]) (auto simp: instances_def split: if_splits)
  qed
qed

lemma device_open_ok:
  assumes tab: "tab_ok tab ds" and name: "no_nul name"
  shows "device_open run_open tab name (int i) s =
    (if i < length (instances name ds)
     then run_open (the (dev_openfn (instances name ds ! i))) (dev_aux (instances name ds ! i)) s
     else Inr (- ENODEV, s))"
proof -
  let ?es = "replicate (NDEV - length ds) \<lparr>dev_name = None, dev_openfn = None, dev_aux = 0\<rparr>"
  have t: "tab = ds @ ?es" "\<forall>d \<in> set ds. dev_ok d" "length ds \<le> NDEV" using tab by (auto simp: tab_ok_def)
  obtain j where j: "find_dev name (int i) tab 0 0 = Inr j"
    "if i < length (instances name ds) then j < length ds \<and> ds ! j = instances name ds ! i
     else j = length ds + length ?es"
    using find_dev_ok [OF t(2) name, of ?es "int i" 0 0] t(1) by auto
  show ?thesis
  proof (cases "i < length (instances name ds)")
    case True
    then have "instances name ds ! i \<in> set ds" using nth_mem by (fastforce simp: instances_def)
    then obtain f where "dev_openfn (instances name ds ! i) = Some f" using t(2) by (auto simp: dev_ok_def)
    then show ?thesis using True j t(1,3) by (simp add: device_open_def nth_append)
  next
    case False
    then show ?thesis using j t(3) by (simp add: device_open_def)
  qed
qed

lemma device_register_ok:
  fixes f aux :: nat
  assumes tab: "tab_ok tab ds" and "length ds < NDEV" and "no_nul name"
  defines "d \<equiv> \<lparr>dev_name = Some name, dev_openfn = Some f, dev_aux = aux\<rparr>"
  shows "\<exists>tab'. device_register (Some name) (Some f) aux tab = Inr (int (length (instances name ds)), tab') \<and>
    tab_ok tab' (ds @ [d])"
proof -
  let ?e = "\<lparr>dev_name = None, dev_openfn = None, dev_aux = 0\<rparr>"
  have t: "tab = ds @ replicate (NDEV - length ds) ?e" "\<forall>d \<in> set ds. dev_ok d" using tab by (auto simp: tab_ok_def)
  have "find_free name tab 0 0 = Inr (length ds, length (instances name ds))"
    using find_free_ok [OF t(2) assms(3), of "replicate (NDEV - length ds) ?e" 0 0] t(1) by simp
  moreover have "tab[length ds := d] = (ds @ [d]) @ replicate (NDEV - length (ds @ [d])) ?e"
    using assms(2) Suc_diff_Suc [of "length ds" NDEV] unfolding t(1)
    by (metis Suc_diff_Suc append.assoc append_Cons append_Nil length_append_singleton list_update_length
        replicate_Suc)
  moreover have "dev_ok d" using assms(3) by (simp add: dev_ok_def d_def)
  ultimately show ?thesis using t(2) assms(2) by (auto simp: device_register_def tab_ok_def d_def)
qed

section \<open>Correctness properties\<close>

text \<open>
  Registering and opening are inverse: \<open>device_register\<close> on a table with a free slot returns
  an instance number under which \<open>device_open\<close> then calls the open function just registered,
  with its argument; every device registered before opens as before, and an instance number no
  device has is reported as ENODEV.
\<close>

theorem device_register_open:
  assumes "tab_ok tab ds" and "length ds < NDEV" and "no_nul name"
  shows "\<exists>tab' d. device_register (Some name) (Some f) aux tab = Inr (int (length (instances name ds)), tab') \<and>
    tab_ok tab' (ds @ [d]) \<and>
    device_open run_open tab' name (int (length (instances name ds))) s = run_open f aux s \<and>
    (\<forall>m i. no_nul m \<longrightarrow> i < length (instances m ds) \<longrightarrow>
       device_open run_open tab' m (int i) s = device_open run_open tab m (int i) s) \<and>
    (\<forall>i > length (instances name ds). device_open run_open tab' name (int i) s = Inr (- ENODEV, s))"
proof -
  let ?d = "\<lparr>dev_name = Some name, dev_openfn = Some f, dev_aux = aux\<rparr>"
  obtain tab' where r: "device_register (Some name) (Some f) aux tab = Inr (int (length (instances name ds)), tab')"
    "tab_ok tab' (ds @ [?d])"
    using device_register_ok [OF assms] by blast
  have i: "instances m (ds @ [?d]) = instances m ds @ (if m = name then [?d] else [])" for m
    by (simp add: instances_def)
  note old = device_open_ok [OF assms(1), of _ run_open _ s]
  note new = device_open_ok [OF r(2), of _ run_open _ s, unfolded i]
  have "device_open run_open tab' name (int (length (instances name ds))) s = run_open f aux s"
    using new [OF assms(3)] by simp
  moreover have "device_open run_open tab' m (int k) s = device_open run_open tab m (int k) s"
    if "no_nul m" "k < length (instances m ds)" for m k
    using new [OF that(1), of k] old [OF that(1), of k] that(2) by (simp add: nth_append)
  moreover have "device_open run_open tab' name (int k) s = Inr (- ENODEV, s)"
    if "length (instances name ds) < k" for k
    using new [OF assms(3), of k] that by simp
  ultimately show ?thesis using r by blast
qed

theorem device_register_open_witness:
  "\<exists>tab. device_register (Some ''uart'') (Some 1) 5 devtab_empty = Inr (0, tab) \<and>
     device_open (\<lambda>f a s. Inr (int (f + a), s)) tab ''uart'' 0 () = Inr (6, ())"
proof -
  have "tab_ok devtab_empty []" by (simp add: tab_ok_def devtab_empty_def)
  from device_register_open [OF this, of "''uart''" 1 5 "\<lambda>f a s. Inr (int (f + a), s)" "()"]
  show ?thesis by (auto simp: NDEV_def instances_def)
qed

end
