(* ===== verification/Bytes.thy ===== *)
theory Bytes
  imports Prelude
begin

text \<open>
  Bytes in memory and on disk: little-endian numbers, overwriting a part of a byte array, and
  arrays of blocks of one size. The file system, the image builder, the block device and the
  program loader use them.
\<close>

section \<open>Little-endian numbers\<close>

fun le_nat :: "u8 list \<Rightarrow> nat" where
  "le_nat [] = 0"
| "le_nat (b # bs) = unat b + 256 * le_nat bs"

fun enc_nat :: "nat \<Rightarrow> nat \<Rightarrow> u8 list" where
  "enc_nat 0 n = []"
| "enc_nat (Suc k) n = of_nat n # enc_nat k (n div 256)"

definition le16 :: "u8 list \<Rightarrow> nat \<Rightarrow> u16" where
  "le16 bs i = of_nat (le_nat (take 2 (drop i bs)))"

definition le32 :: "u8 list \<Rightarrow> nat \<Rightarrow> u32" where
  "le32 bs i = of_nat (le_nat (take 4 (drop i bs)))"

definition le64 :: "u8 list \<Rightarrow> nat \<Rightarrow> u64" where
  "le64 bs i = of_nat (le_nat (take 8 (drop i bs)))"

definition enc32 :: "u32 \<Rightarrow> u8 list" where
  "enc32 w = enc_nat 4 (unat w)"

lemma le_nat_zeros [simp]: "le_nat (replicate k 0) = 0"
  by (induction k) auto

lemma length_enc_nat [simp]: "length (enc_nat k n) = k"
  by (induction k arbitrary: n) auto

lemma length_enc32 [simp]: "length (enc32 w) = 4"
  by (simp add: enc32_def)

lemma le_nat_enc_nat: "le_nat (enc_nat k n) = n mod 256 ^ k"
proof (induction k arbitrary: n)
  case (Suc k)
  have "unat (of_nat n :: u8) = n mod 256" by (simp add: unat_of_nat)
  then show ?case using Suc [of "n div 256"] by (simp add: mod_mult2_eq)
qed simp

lemma le32_enc32: "le32 (xs @ enc32 w @ ys) (length xs) = w"
proof -
  have "unat w < 256 ^ 4" using unsigned_less [of w, where ?'a = nat] by simp
  then show ?thesis by (simp add: le32_def enc32_def le_nat_enc_nat)
qed

text \<open>An array of 32-bit numbers.\<close>

lemma le32_array:
  assumes "j < length ws"
  shows "le32 (xs @ concat (map enc32 ws) @ ys) (length xs + 4 * j) = ws ! j"
proof -
  have "concat (map enc32 ws) = concat (map enc32 (take j ws)) @ enc32 (ws ! j) @ concat (map enc32 (drop (Suc j) ws))"
    using assms by (metis concat_append id_take_nth_drop list.simps(9) map_append concat.simps(2))
  moreover have "length (concat (map enc32 (take j ws))) = 4 * j"
    using assms by (simp add: length_concat comp_def sum_list_triv)
  ultimately show ?thesis
    using le32_enc32 [of "xs @ concat (map enc32 (take j ws))" "ws ! j" "concat (map enc32 (drop (Suc j) ws)) @ ys"]
    by simp
qed

section \<open>Overwriting\<close>

definition put_at :: "nat \<Rightarrow> 'a list \<Rightarrow> 'a list \<Rightarrow> 'a list" where
  "put_at i new xs = take i xs @ new @ drop (i + length new) xs"

lemma put_at_length [simp]: "i + length new \<le> length xs \<Longrightarrow> length (put_at i new xs) = length xs"
  by (simp add: put_at_def)

lemma put_at_append: "i + length a + length b \<le> length xs \<Longrightarrow>
    put_at (i + length a) b (put_at i a xs) = put_at i (a @ b) xs"
  by (simp add: put_at_def ac_simps)

lemma put_at_Nil [simp]: "put_at i [] xs = xs"
  by (simp add: put_at_def)

lemma take_drop_put_at [simp]:
  "i + length new \<le> length xs \<Longrightarrow> take (length new) (drop i (put_at i new xs)) = new"
  by (simp add: put_at_def)

lemma put_at_nth:
  assumes "i + length new \<le> length xs" and "k < length xs"
  shows "put_at i new xs ! k = (if i \<le> k \<and> k < i + length new then new ! (k - i) else xs ! k)"
  using assms by (auto simp: put_at_def nth_append)

lemma put_at_outside:
  assumes "i + length new \<le> length xs" and "j + n \<le> i \<or> i + length new \<le> j"
  shows "take n (drop j (put_at i new xs)) = take n (drop j xs)"
proof (rule nth_equalityI)
  show "length (take n (drop j (put_at i new xs))) = length (take n (drop j xs))" using assms(1) by simp
  fix k assume "k < length (take n (drop j (put_at i new xs)))"
  then have k: "k < n" "j + k < length xs" using assms(1) by auto
  then have "put_at i new xs ! (j + k) = xs ! (j + k)" using put_at_nth [OF assms(1) k(2)] assms(2) by auto
  then show "take n (drop j (put_at i new xs)) ! k = take n (drop j xs) ! k"
    using k assms(1) by simp
qed

lemma put_at_block:
  assumes "off + length d \<le> n" and "base + n \<le> length C"
  shows "put_at base (put_at off d (take n (drop base C))) C = put_at (base + off) d C"
proof -
  have "drop (off + length d) (take n (drop base C)) @ drop (base + n) C = drop (base + off + length d) C"
  proof -
    have "drop (base + off + length d) C = drop (off + length d) (drop base C)" by (simp add: ac_simps)
    also have "drop base C = take n (drop base C) @ drop (base + n) C"
      by (metis append_take_drop_id drop_drop add.commute)
    finally show ?thesis using assms by simp
  qed
  moreover have "take base C @ take off (take n (drop base C)) = take (base + off) C"
    using assms by (simp add: take_add min_def)
  ultimately show ?thesis using assms by (simp add: put_at_def)
qed

lemma block_put_at:
  assumes "off + length d \<le> n" and "base + n \<le> length C"
  shows "take n (drop base (put_at (base + off) d C)) = put_at off d (take n (drop base C))"
proof -
  have "length (put_at off d (take n (drop base C))) = n" using assms by simp
  then show ?thesis
    using take_drop_put_at [of base "put_at off d (take n (drop base C))" C] put_at_block [OF assms] assms(2)
    by simp
qed

section \<open>Blocks of one size\<close>

definition blocks_of :: "nat \<Rightarrow> 'a list list \<Rightarrow> bool" where
  "blocks_of n xs \<longleftrightarrow> (\<forall>x \<in> set xs. length x = n)"

lemma blocks_of_simps [simp]:
  "blocks_of n []" "blocks_of n (x # xs) \<longleftrightarrow> length x = n \<and> blocks_of n xs"
  "blocks_of n (xs @ ys) \<longleftrightarrow> blocks_of n xs \<and> blocks_of n ys"
  by (auto simp: blocks_of_def)

lemma length_concat_blocks: "blocks_of n xs \<Longrightarrow> length (concat xs) = n * length xs"
  by (induction xs) auto

lemma concat_block:
  "blocks_of n xs \<Longrightarrow> j < length xs \<Longrightarrow> take n (drop (n * j) (concat xs)) = xs ! j"
proof (induction xs arbitrary: j)
  case (Cons x xs)
  then show ?case by (cases j) (auto simp: add.commute)
qed simp

lemma concat_block_slice:
  assumes "blocks_of n xs" and "j < length xs" and "off + k \<le> n"
  shows "take k (drop (n * j + off) (concat xs)) = take k (drop off (xs ! j))"
proof -
  have "xs ! j = take n (drop (n * j) (concat xs))" using concat_block [OF assms(1,2)] by simp
  then have "take k (drop off (xs ! j)) = take k (drop off (drop (n * j) (concat xs)))"
    using assms(3) by (simp add: drop_take min_def)
  then show ?thesis by (simp add: add.commute)
qed

lemma concat_block_put:
  assumes "blocks_of n xs" and "j < length xs" and "off + length d \<le> n"
  shows "concat (xs[j := put_at off d (xs ! j)]) = put_at (n * j + off) d (concat xs)"
proof -
  have ls: "length (concat (take j xs)) = n * j"
    using length_concat_blocks [of n "take j xs"] assms(1,2) by (auto simp: blocks_of_def dest: in_set_takeD)
  have xs: "concat xs = concat (take j xs) @ xs ! j @ concat (drop (Suc j) xs)"
    using assms(2) by (metis concat_append concat.simps(2) id_take_nth_drop)
  have j: "length (xs ! j) = n" using assms(1,2) by (simp add: blocks_of_def)
  have "concat (xs[j := b]) = concat (take j xs) @ b @ concat (drop (Suc j) xs)" for b
    using assms(2) by (simp add: upd_conv_take_nth_drop)
  then show ?thesis using ls j assms(3) by (subst xs) (simp add: put_at_def)
qed

end
