(* ===== verification/Vioblk.thy ===== *)
theory Vioblk
  imports Io Bytes Thread
begin

text \<open>
  The block device driver: \<open>kern/vioblk.c\<close>, and feature negotiation from \<open>kern/virtio.c\<close>.

  The device behind the registers is not part of the kernel: \<open>serve\<close>, an argument of the
  definitions, is what it does with one request (the type and the sector of the request header
  and the data buffer), and \<open>virtio_ok\<close> states what the VirtIO standard says of it. A request
  is the block of code that fills in the descriptors and the header, notifies the device and
  waits for its interrupt; the driver does not look at the status byte.

  Calls are modelled one at a time: a call that finds \<open>io_lock\<close> held is \<open>Blocked\<close>.
\<close>

section \<open>Feature negotiation\<close>

type_synonym featset = "u32 list"

definition VIRTIO_FEATLEN :: nat where "VIRTIO_FEATLEN = 4"

definition virtio_featset_init :: featset where
  "virtio_featset_init = replicate VIRTIO_FEATLEN 0"

definition virtio_featset_add :: "featset \<Rightarrow> nat \<Rightarrow> featset" where
  "virtio_featset_add fts k = fts[k div 32 := fts ! (k div 32) OR push_bit (k mod 32) 1]"

definition virtio_featset_test :: "featset \<Rightarrow> nat \<Rightarrow> bool" where
  "virtio_featset_test fts k \<longleftrightarrow> bit (fts ! (k div 32)) (k mod 32)"

text \<open>
  \<open>offered\<close> are the feature words the device shows, \<open>accepted\<close> says whether it keeps the bit
  \<open>FEATURES_OK\<close> set, and \<open>driver\<close> are the words written to the driver's feature register so far.
  The result is the code with the enabled features and the words the device was told.
\<close>

definition virtio_negotiate_features ::
    "featset \<Rightarrow> bool \<Rightarrow> featset \<Rightarrow> featset \<Rightarrow> featset \<Rightarrow> featset \<Rightarrow> (int \<times> featset \<times> featset) res" where
  "virtio_negotiate_features offered accepted driver enabled wanted needed =
     (if \<forall>i \<in> set [0..<VIRTIO_FEATLEN]. needed ! i \<noteq> 0 \<longrightarrow> offered ! i AND needed ! i = needed ! i
      then
        let en = map (\<lambda>i. if wanted ! i \<noteq> 0 then offered ! i AND wanted ! i else enabled ! i) [0..<VIRTIO_FEATLEN];
            dr = map (\<lambda>i. if wanted ! i \<noteq> 0 then offered ! i AND wanted ! i else driver ! i) [0..<VIRTIO_FEATLEN]
        in if accepted then Inr (0, en, dr) else Inl AssertFailed
      else Inr (- ENOTSUP, enabled, driver))"

text \<open>The registers that select and control a queue.\<close>

record virtio_regs =
  queue_sel :: u32
  queue_ready :: u32
  queue_reset :: u32
  queue_notify :: u32
  queue_num :: u32
  queue_desc :: u64
  queue_device :: u64
  queue_driver :: u64

definition virtio_notify_avail :: "u32 \<Rightarrow> virtio_regs \<Rightarrow> virtio_regs" where
  "virtio_notify_avail qid regs = regs\<lparr>queue_notify := qid\<rparr>"

definition virtio_enable_virtq :: "u32 \<Rightarrow> virtio_regs \<Rightarrow> virtio_regs" where
  "virtio_enable_virtq qid regs = regs\<lparr>queue_sel := qid, queue_ready := 1\<rparr>"

definition virtio_reset_virtq :: "u32 \<Rightarrow> virtio_regs \<Rightarrow> virtio_regs" where
  "virtio_reset_virtq qid regs = regs\<lparr>queue_sel := qid, queue_reset := 1\<rparr>"

definition virtio_attach_virtq :: "u32 \<Rightarrow> u32 \<Rightarrow> u64 \<Rightarrow> u64 \<Rightarrow> u64 \<Rightarrow> virtio_regs \<Rightarrow> virtio_regs" where
  "virtio_attach_virtq qid len desc_addr used_addr avail_addr regs =
     regs\<lparr>queue_sel := qid, queue_desc := desc_addr, queue_device := used_addr, queue_driver := avail_addr,
       queue_num := len\<rparr>"

section \<open>State\<close>

definition VIRTIO_BLK_T_IN :: u32 where "VIRTIO_BLK_T_IN = 0"
definition VIRTIO_BLK_T_OUT :: u32 where "VIRTIO_BLK_T_OUT = 1"

definition EBUSY_blk :: int where "EBUSY_blk = 2"

record 'd vioblk =
  vb_opened :: bool
  vb_readonly :: bool
  vb_blksz :: u32
  vb_pos :: u64
  vb_size :: u64
  vb_blkbuf :: "u8 list"
  vb_avail_flags :: u16
  vb_avail_idx :: u16
  vb_used_idx :: u16
  vb_regs :: virtio_regs
  vb_irq :: bool
  vb_refcnt :: u32
  vb_lock :: bool
  vb_hw :: 'd

type_synonym 'd serve = "u32 \<Rightarrow> u64 \<Rightarrow> u8 list \<Rightarrow> 'd \<Rightarrow> u8 list \<times> 'd"

section \<open>Operations\<close>

definition vb_acquire :: "'d vioblk \<Rightarrow> 'd vioblk res" where
  "vb_acquire dev = (if vb_lock dev then Inl Blocked else Inr (dev\<lparr>vb_lock := True\<rparr>))"

definition vb_release :: "'d vioblk \<Rightarrow> 'd vioblk" where
  "vb_release dev = dev\<lparr>vb_lock := False\<rparr>"

text \<open>
  \<open>vioblk_attach\<close>: the block size from the negotiated features and the device's configuration
  (\<open>blk_size\<close>), and the device structure it sets up. The memory of the structure, the registration
  of the interrupt routine and of the device are those of the heap, \<open>intr.c\<close> and \<open>device.c\<close>; \<open>at\<close>
  gives the addresses of the three parts of the queue.
\<close>

definition VIRTIO_BLK_F_BLK_SIZE :: nat where "VIRTIO_BLK_F_BLK_SIZE = 6"
definition VIRTIO_BLK_F_TOPOLOGY :: nat where "VIRTIO_BLK_F_TOPOLOGY = 10"
definition VIRTIO_F_INDIRECT_DESC :: nat where "VIRTIO_F_INDIRECT_DESC = 28"
definition VIRTIO_F_RING_RESET :: nat where "VIRTIO_F_RING_RESET = 40"

definition vioblk_negotiate :: "featset \<Rightarrow> bool \<Rightarrow> featset \<Rightarrow> featset \<Rightarrow> u32 \<Rightarrow> (u32 \<times> featset) option res" where
  "vioblk_negotiate offered accepted driver enabled blk_size =
     (let needed = virtio_featset_add (virtio_featset_add virtio_featset_init VIRTIO_F_RING_RESET) VIRTIO_F_INDIRECT_DESC;
          wanted = virtio_featset_add (virtio_featset_add virtio_featset_init VIRTIO_BLK_F_BLK_SIZE) VIRTIO_BLK_F_TOPOLOGY
      in bind_res (virtio_negotiate_features offered accepted driver enabled wanted needed) (\<lambda>(r, enabled, driver).
           if r \<noteq> 0 then Inr None
           else Inr (Some (if virtio_featset_test enabled VIRTIO_BLK_F_BLK_SIZE then blk_size else 512, driver))))"

definition zero_regs :: virtio_regs where
  "zero_regs = \<lparr>queue_sel = 0, queue_ready = 0, queue_reset = 0, queue_notify = 0, queue_num = 0,
     queue_desc = 0, queue_device = 0, queue_driver = 0\<rparr>"

definition vioblk_attach_dev ::
    "u32 \<Rightarrow> u64 \<Rightarrow> u8 list \<Rightarrow> u64 \<times> u64 \<times> u64 \<Rightarrow> virtio_regs \<Rightarrow> 'd \<Rightarrow> 'd vioblk" where
  "vioblk_attach_dev blksz capacity blkbuf at regs hw =
     (let (desc, used, avail) = at in
      \<lparr>vb_opened = False, vb_readonly = False, vb_blksz = blksz, vb_pos = 0, vb_size = capacity * 512,
       vb_blkbuf = blkbuf, vb_avail_flags = 0, vb_avail_idx = 0, vb_used_idx = 0,
       vb_regs = virtio_attach_virtq 0 1 desc used avail (regs\<lparr>queue_num := 0\<rparr>), vb_irq = False,
       vb_refcnt = 0, vb_lock = False, vb_hw = hw\<rparr>)"

text \<open>
  Opening and closing. The queue they select is what reading the register \<open>QueueNum\<close> returns, the
  argument \<open>qn\<close>: the standard makes it a register that is only written.
\<close>

definition vioblk_open :: "u32 \<Rightarrow> 'd vioblk \<Rightarrow> (int \<times> 'd vioblk) res" where
  "vioblk_open qn dev =
     bind_res (vb_acquire dev) (\<lambda>dev.
       if vb_opened dev then Inr (- EBUSY_blk, vb_release dev)
       else
         let dev = dev\<lparr>vb_avail_flags := 0, vb_avail_idx := 0, vb_used_idx := 0,
               vb_regs := virtio_notify_avail qn (virtio_enable_virtq qn (vb_regs dev)), vb_irq := True,
               vb_refcnt := 1, vb_opened := True\<rparr>
         in Inr (0, vb_release dev))"

definition VIRTQ_AVAIL_F_NO_INTERRUPT :: u16 where "VIRTQ_AVAIL_F_NO_INTERRUPT = 1"

definition vioblk_close :: "u32 \<Rightarrow> 'd vioblk \<Rightarrow> 'd vioblk res" where
  "vioblk_close qn dev =
     bind_res (vb_acquire dev) (\<lambda>dev.
       let dev = dev\<lparr>vb_avail_idx := 0, vb_avail_flags := VIRTQ_AVAIL_F_NO_INTERRUPT, vb_irq := False,
             vb_regs := virtio_reset_virtq qn (vb_regs dev)\<rparr>
       in Inr ((vb_release dev)\<lparr>vb_opened := False\<rparr>))"

text \<open>The interrupt routine; \<open>Some w\<close> is the value written to the acknowledge register.\<close>

definition vioblk_isr :: "cptr \<Rightarrow> u32 \<Rightarrow> 'a ts_scheme \<Rightarrow> (u32 option \<times> 'a ts_scheme) res option" where
  "vioblk_isr used_updated interrupt_status st =
     (if interrupt_status AND 1 \<noteq> 0 then
        (case condition_broadcast used_updated st of
           None \<Rightarrow> None
         | Some r \<Rightarrow> Some (bind_res r (\<lambda>st. Inr (Some interrupt_status, st))))
      else Some (Inr (None, st)))"

definition vio_request :: "'d serve \<Rightarrow> u32 \<Rightarrow> u64 \<Rightarrow> 'd vioblk \<Rightarrow> 'd vioblk" where
  "vio_request serve ty sector dev =
     (let (buf, hw) = serve ty sector (vb_blkbuf dev) (vb_hw dev)
      in dev\<lparr>vb_avail_idx := vb_avail_idx dev + 1, vb_regs := virtio_notify_avail 0 (vb_regs dev), vb_blkbuf := buf, vb_hw := hw\<rparr>)"

definition sector_index :: "'d vioblk \<Rightarrow> u64" where
  "sector_index dev = ucast (ucast (vb_pos dev div ucast (vb_blksz dev)) :: u32)"

definition sector_offset :: "'d vioblk \<Rightarrow> nat" where
  "sector_offset dev = unat (ucast (vb_pos dev mod ucast (vb_blksz dev)) :: u32)"

lemma sector_offset_less: "vb_blksz dev \<noteq> 0 \<Longrightarrow> sector_offset dev < unat (vb_blksz dev)"
proof -
  assume "vb_blksz dev \<noteq> 0"
  then have pos: "0 < unat (vb_blksz dev)" by (simp add: unat_gt_0)
  have b: "unat (ucast (vb_blksz dev) :: u64) = unat (vb_blksz dev)"
    using unsigned_less [of "vb_blksz dev", where ?'a = nat]
    by (simp add: unsigned_ucast_eq take_bit_nat_eq_self)
  have "sector_offset dev \<le> unat (vb_pos dev mod ucast (vb_blksz dev))"
    by (simp add: sector_offset_def unsigned_ucast_eq)
  also have "\<dots> < unat (vb_blksz dev)" using pos by (simp add: unat_mod b)
  finally show ?thesis .
qed

lemma step_less: "a < n \<Longrightarrow> 0 < k \<Longrightarrow> n - (a + min k (n - a)) < n - (a :: nat)"
  by auto

text \<open>The loops of \<open>vioblk_read\<close> and \<open>vioblk_write\<close>; a block size of 0 would be divided by.\<close>

function vioblk_read_loop ::
    "'d serve \<Rightarrow> nat \<Rightarrow> nat \<Rightarrow> u8 list \<Rightarrow> 'd vioblk \<Rightarrow> (int \<times> u8 list \<times> 'd vioblk) res" where
  "vioblk_read_loop serve bufsz tot buf dev =
     (if tot < bufsz \<and> vb_pos dev < vb_size dev then
        if vb_blksz dev = 0 then Inl UndefinedAccess
        else
          let off = sector_offset dev;
              this = min (unat (vb_blksz dev) - off) (bufsz - tot);
              dev = vio_request serve VIRTIO_BLK_T_IN (sector_index dev) dev
          in if length (vb_blkbuf dev) < off + this then Inl UndefinedAccess
             else vioblk_read_loop serve bufsz (tot + this) (buf @ take this (drop off (vb_blkbuf dev)))
                    (dev\<lparr>vb_pos := vb_pos dev + of_nat this\<rparr>)
      else Inr (int tot, buf, dev))"
  by pat_completeness auto
termination
  by (relation "measure (\<lambda>(_, bufsz, tot, _). bufsz - tot)") (auto intro!: step_less simp: sector_offset_less)

definition vioblk_read :: "'d serve \<Rightarrow> 'd vioblk read_fn" where
  "vioblk_read serve bufsz dev =
     bind_res (vb_acquire dev) (\<lambda>dev.
       bind_res (vioblk_read_loop serve bufsz 0 [] dev) (\<lambda>(n, buf, dev). Inr (n, buf, vb_release dev)))"

text \<open>In \<open>vioblk_write\<close> the end of the device is a \<open>return\<close> that does not release the lock.\<close>

function vioblk_write_loop :: "'d serve \<Rightarrow> u8 list \<Rightarrow> nat \<Rightarrow> 'd vioblk \<Rightarrow> (int \<times> 'd vioblk) res" where
  "vioblk_write_loop serve buf tot dev =
     (if tot < length buf then
        if vb_size dev \<le> vb_pos dev then Inr (0, dev)
        else if vb_blksz dev = 0 then Inl UndefinedAccess
        else
          let off = sector_offset dev; idx = sector_index dev;
              this = min (unat (vb_blksz dev) - off) (length buf - tot);
              dev = (if this \<noteq> unat (vb_blksz dev) then vio_request serve VIRTIO_BLK_T_IN idx dev else dev)
          in if length (vb_blkbuf dev) < off + this then Inl UndefinedAccess
             else
               let dev = dev\<lparr>vb_blkbuf := put_at off (take this (drop tot buf)) (vb_blkbuf dev)\<rparr>;
                   dev = vio_request serve VIRTIO_BLK_T_OUT idx dev
               in vioblk_write_loop serve buf (tot + this) (dev\<lparr>vb_pos := vb_pos dev + of_nat this\<rparr>)
      else Inr (int tot, vb_release dev))"
  by pat_completeness auto
termination
  by (relation "measure (\<lambda>(_, buf, tot, _). length buf - tot)") (auto intro!: step_less simp: sector_offset_less)

declare vioblk_read_loop.simps [simp del] vioblk_write_loop.simps [simp del]

definition vioblk_write :: "'d serve \<Rightarrow> 'd vioblk write_fn" where
  "vioblk_write serve buf dev =
     (if vb_readonly dev then Inr (- EINVAL, dev)
      else bind_res (vb_acquire dev) (vioblk_write_loop serve buf 0))"

definition vioblk_setpos :: "u64 \<Rightarrow> 'd vioblk \<Rightarrow> int \<times> 'd vioblk" where
  "vioblk_setpos new_pos dev =
     (if vb_size dev < new_pos then (- EINVAL, dev) else (0, dev\<lparr>vb_pos := new_pos\<rparr>))"

text \<open>\<open>vioblk_ioctl\<close>: an unknown command returns without releasing the lock.\<close>

definition vioblk_ioctl :: "'d vioblk ctl_fn" where
  "vioblk_ioctl cmd arg dev =
     bind_res (vb_acquire dev) (\<lambda>dev.
       if cmd = IOCTL_GETLEN then Inr (0, vb_size dev, vb_release dev)
       else if cmd = IOCTL_GETPOS then Inr (0, vb_pos dev, vb_release dev)
       else if cmd = IOCTL_SETPOS then
         (let (r, dev) = vioblk_setpos arg dev in Inr (r, arg, vb_release dev))
       else if cmd = IOCTL_GETBLKSZ then
         Inr (0, (arg AND 0xFFFFFFFF00000000) OR ucast (vb_blksz dev), vb_release dev)
       else Inr (- ENOTSUP, arg, dev))"

definition vioblk_io_ops :: "'d serve \<Rightarrow> 'd vioblk io_ops" where
  "vioblk_io_ops serve = \<lparr>op_close = Some (vioblk_close 0), op_read = Some (vioblk_read serve),
     op_write = Some (vioblk_write serve), op_ctl = Some vioblk_ioctl\<rparr>"

section \<open>What the standard says of the device\<close>

text \<open>
  A read request fills the buffer with the data from the given sector on, a write request stores
  the buffer there; a sector has 512 bytes whatever the block size.
\<close>

definition virtio_ok :: "'d serve \<Rightarrow> ('d \<Rightarrow> u8 list) \<Rightarrow> bool" where
  "virtio_ok serve contents \<longleftrightarrow>
     (\<forall>sec buf hw. 512 * unat sec + length buf \<le> length (contents hw) \<longrightarrow>
        fst (serve VIRTIO_BLK_T_IN sec buf hw) = take (length buf) (drop (512 * unat sec) (contents hw)) \<and>
        contents (snd (serve VIRTIO_BLK_T_IN sec buf hw)) = contents hw \<and>
        fst (serve VIRTIO_BLK_T_OUT sec buf hw) = buf \<and>
        contents (snd (serve VIRTIO_BLK_T_OUT sec buf hw)) = put_at (512 * unat sec) buf (contents hw))"

definition vb_data :: "('d \<Rightarrow> u8 list) \<Rightarrow> 'd vioblk \<Rightarrow> u8 list" where
  "vb_data contents dev = contents (vb_hw dev)"

definition vb_wf :: "('d \<Rightarrow> u8 list) \<Rightarrow> 'd vioblk \<Rightarrow> bool" where
  "vb_wf contents dev \<longleftrightarrow> vb_blksz dev = 512 \<and> length (vb_blkbuf dev) = 512 \<and> \<not> vb_readonly dev \<and>
     512 dvd length (vb_data contents dev) \<and> length (vb_data contents dev) < 2 ^ 41 \<and>
     vb_size dev = of_nat (length (vb_data contents dev))"

text \<open>The position as a number, and where the driver goes from there.\<close>

lemma vb_wf_pos:
  assumes "vb_wf contents dev" and "unat (vb_pos dev) < length (vb_data contents dev)"
  shows "unat (sector_index dev) = unat (vb_pos dev) div 512" and "sector_offset dev = unat (vb_pos dev) mod 512"
    and "512 * (unat (vb_pos dev) div 512) + 512 \<le> length (vb_data contents dev)"
    and "vb_pos dev < vb_size dev"
proof -
  let ?p = "unat (vb_pos dev)"
  have wf: "vb_blksz dev = 512" "512 dvd length (vb_data contents dev)" "length (vb_data contents dev) < 2 ^ 41"
    "vb_size dev = of_nat (length (vb_data contents dev))"
    using assms(1) by (auto simp: vb_wf_def)
  have "?p < 2 ^ 41" using assms(2) wf(3) by linarith
  then have "?p div 512 < 2 ^ 32" by (simp add: less_mult_imp_div_less)
  then show "unat (sector_index dev) = ?p div 512"
    by (simp add: sector_index_def wf(1) unsigned_ucast_eq unsigned_take_bit_eq unat_div take_bit_nat_eq_self)
  have "?p mod 512 < 2 ^ 32" by (rule less_trans [of _ 512]) simp_all
  then show "sector_offset dev = ?p mod 512"
    by (simp add: sector_offset_def wf(1) unsigned_ucast_eq unsigned_take_bit_eq unat_mod take_bit_nat_eq_self)
  show "512 * (?p div 512) + 512 \<le> length (vb_data contents dev)"
  proof -
    obtain k where k: "length (vb_data contents dev) = 512 * k" using wf(2) by (auto elim: dvdE)
    then have "?p div 512 < k" using assms(2) by (simp add: less_mult_imp_div_less mult.commute)
    then show ?thesis unfolding k by linarith
  qed
  show "vb_pos dev < vb_size dev"
    using assms(2) wf(3) by (simp add: wf(4) word_less_nat_alt unat_of_nat)
qed

text \<open>One request of either kind at the position of the device.\<close>

lemma vio_request_in:
  assumes "virtio_ok serve contents" and wf: "vb_wf contents dev"
    and pos: "unat (vb_pos dev) < length (vb_data contents dev)"
  defines "dev' \<equiv> vio_request serve VIRTIO_BLK_T_IN (sector_index dev) dev"
  shows "vb_wf contents dev'" "vb_data contents dev' = vb_data contents dev" "vb_pos dev' = vb_pos dev"
    "vb_lock dev' = vb_lock dev" "vb_opened dev' = vb_opened dev"
    "vb_blkbuf dev' = take 512 (drop (512 * (unat (vb_pos dev) div 512)) (vb_data contents dev))"
proof -
  note p = vb_wf_pos [OF wf pos]
  have len: "length (vb_blkbuf dev) = 512" using wf by (simp add: vb_wf_def)
  have b: "512 * unat (sector_index dev) + length (vb_blkbuf dev) \<le> length (contents (vb_hw dev))"
    using p(1,3) len by (simp add: vb_data_def)
  have s: "fst (serve VIRTIO_BLK_T_IN (sector_index dev) (vb_blkbuf dev) (vb_hw dev)) =
      take 512 (drop (512 * (unat (vb_pos dev) div 512)) (vb_data contents dev))"
    "contents (snd (serve VIRTIO_BLK_T_IN (sector_index dev) (vb_blkbuf dev) (vb_hw dev))) = contents (vb_hw dev)"
    using assms(1) b p(1) len by (simp_all add: virtio_ok_def vb_data_def)
  show buf: "vb_blkbuf dev' = take 512 (drop (512 * (unat (vb_pos dev) div 512)) (vb_data contents dev))"
    using s(1) by (simp add: dev'_def vio_request_def case_prod_beta)
  show d: "vb_data contents dev' = vb_data contents dev"
    using s(2) by (simp add: dev'_def vio_request_def vb_data_def case_prod_beta)
  show same: "vb_pos dev' = vb_pos dev" "vb_lock dev' = vb_lock dev" "vb_opened dev' = vb_opened dev"
    by (simp_all add: dev'_def vio_request_def case_prod_beta)
  have "length (vb_blkbuf dev') = 512" using buf p(3) by simp
  moreover have "vb_blksz dev' = vb_blksz dev" "vb_size dev' = vb_size dev" "vb_readonly dev' = vb_readonly dev"
    by (simp_all add: dev'_def vio_request_def case_prod_beta)
  ultimately show "vb_wf contents dev'" using wf d by (simp add: vb_wf_def)
qed

lemma vio_request_out:
  assumes "virtio_ok serve contents" and wf: "vb_wf contents dev"
    and pos: "unat (vb_pos dev) < length (vb_data contents dev)"
  defines "dev' \<equiv> vio_request serve VIRTIO_BLK_T_OUT (sector_index dev) dev"
  shows "vb_wf contents dev'" "vb_pos dev' = vb_pos dev" "vb_lock dev' = vb_lock dev" "vb_opened dev' = vb_opened dev"
    "vb_data contents dev' = put_at (512 * (unat (vb_pos dev) div 512)) (vb_blkbuf dev) (vb_data contents dev)"
proof -
  note p = vb_wf_pos [OF wf pos]
  have len: "length (vb_blkbuf dev) = 512" using wf by (simp add: vb_wf_def)
  have b: "512 * unat (sector_index dev) + length (vb_blkbuf dev) \<le> length (contents (vb_hw dev))"
    using p(1,3) len by (simp add: vb_data_def)
  have s: "fst (serve VIRTIO_BLK_T_OUT (sector_index dev) (vb_blkbuf dev) (vb_hw dev)) = vb_blkbuf dev"
    "contents (snd (serve VIRTIO_BLK_T_OUT (sector_index dev) (vb_blkbuf dev) (vb_hw dev))) =
       put_at (512 * (unat (vb_pos dev) div 512)) (vb_blkbuf dev) (vb_data contents dev)"
    using assms(1) b p(1) len by (simp_all add: virtio_ok_def vb_data_def)
  show d: "vb_data contents dev' = put_at (512 * (unat (vb_pos dev) div 512)) (vb_blkbuf dev) (vb_data contents dev)"
    using s(2) by (simp add: dev'_def vio_request_def vb_data_def case_prod_beta)
  show same: "vb_pos dev' = vb_pos dev" "vb_lock dev' = vb_lock dev" "vb_opened dev' = vb_opened dev"
    by (simp_all add: dev'_def vio_request_def case_prod_beta)
  have "length (vb_data contents dev') = length (vb_data contents dev)" using d p(3) len by simp
  moreover have "length (vb_blkbuf dev') = 512" using s(1) len by (simp add: dev'_def vio_request_def case_prod_beta)
  moreover have "vb_blksz dev' = vb_blksz dev" "vb_size dev' = vb_size dev" "vb_readonly dev' = vb_readonly dev"
    by (simp_all add: dev'_def vio_request_def case_prod_beta)
  ultimately show "vb_wf contents dev'" using wf by (simp add: vb_wf_def)
qed

lemma vb_advance:
  assumes "vb_wf contents dev" and "unat (vb_pos dev) + n \<le> length (vb_data contents dev)"
  shows "unat (vb_pos dev + of_nat n) = unat (vb_pos dev) + n"
    and "vb_wf contents (dev\<lparr>vb_pos := q\<rparr>)" and "vb_data contents (dev\<lparr>vb_pos := q\<rparr>) = vb_data contents dev"
    and "vb_wf contents (dev\<lparr>vb_lock := l\<rparr>)" and "vb_data contents (dev\<lparr>vb_lock := l\<rparr>) = vb_data contents dev"
proof -
  have "length (vb_data contents dev) < 2 ^ 41" using assms(1) by (simp add: vb_wf_def)
  then have "unat (vb_pos dev) + n < 2 ^ 64" using assms(2) by simp
  then show "unat (vb_pos dev + of_nat n) = unat (vb_pos dev) + n"
    by (simp add: unat_word_ariths unat_of_nat)
qed (use assms(1) in \<open>simp_all add: vb_wf_def vb_data_def\<close>)

lemma vioblk_read_loop_ok:
  assumes serve: "virtio_ok serve contents" and "vb_wf contents dev" and "tot \<le> bufsz"
    and "unat (vb_pos dev) + (bufsz - tot) \<le> length (vb_data contents dev)"
  shows "\<exists>dev'. vioblk_read_loop serve bufsz tot buf dev =
      Inr (int bufsz, buf @ take (bufsz - tot) (drop (unat (vb_pos dev)) (vb_data contents dev)), dev') \<and>
    vb_wf contents dev' \<and> vb_data contents dev' = vb_data contents dev \<and> vb_lock dev' = vb_lock dev \<and>
    vb_opened dev' = vb_opened dev \<and> unat (vb_pos dev') = unat (vb_pos dev) + (bufsz - tot)"
  using assms(2-)
proof (induction "bufsz - tot" arbitrary: tot buf dev rule: less_induct)
  case less
  let ?p = "unat (vb_pos dev)" and ?C = "vb_data contents dev"
  show ?case
  proof (cases "tot < bufsz")
    case False
    then show ?thesis using less.prems by (subst vioblk_read_loop.simps) auto
  next
    case True
    then have pl: "?p < length ?C" using less.prems(3) by linarith
    note wp = vb_wf_pos [OF less.prems(1) pl]
    note rq = vio_request_in [OF serve less.prems(1) pl]
    define this where "this = min (512 - ?p mod 512) (bufsz - tot)"
    let ?d = "vio_request serve VIRTIO_BLK_T_IN (sector_index dev) dev"
    let ?d' = "?d\<lparr>vb_pos := vb_pos ?d + of_nat this\<rparr>"
    have m: "?p mod 512 < 512" by simp
    have pos: "0 < this" using m True unfolding this_def by simp
    have le: "this \<le> bufsz - tot" "?p mod 512 + this \<le> 512" using m unfolding this_def by linarith+
    have bs: "vb_blksz dev = 512" using less.prems(1) by (simp add: vb_wf_def)
    have data: "take this (drop (?p mod 512) (vb_blkbuf ?d)) = take this (drop ?p ?C)"
      using le(2) by (simp add: rq(6) drop_take drop_drop min_def)
    have bl: "length (vb_blkbuf ?d) = 512" using rq(1) by (simp add: vb_wf_def)
    have step: "vioblk_read_loop serve bufsz tot buf dev =
        vioblk_read_loop serve bufsz (tot + this) (buf @ take this (drop ?p ?C)) ?d'"
      using True wp bs le bl data
      by (subst vioblk_read_loop.simps) (simp add: Let_def this_def)
    have adv: "unat (vb_pos ?d + of_nat this) = ?p + this" "vb_wf contents ?d'" "vb_data contents ?d' = ?C"
      using vb_advance(1-3) [OF rq(1), of this] le(1) less.prems(3) True rq(2,3) by simp_all
    have "\<exists>dev'. vioblk_read_loop serve bufsz (tot + this) (buf @ take this (drop ?p ?C)) ?d' =
        Inr (int bufsz, (buf @ take this (drop ?p ?C)) @
          take (bufsz - (tot + this)) (drop (unat (vb_pos ?d')) (vb_data contents ?d')), dev') \<and>
      vb_wf contents dev' \<and> vb_data contents dev' = vb_data contents ?d' \<and> vb_lock dev' = vb_lock ?d' \<and>
      vb_opened dev' = vb_opened ?d' \<and> unat (vb_pos dev') = unat (vb_pos ?d') + (bufsz - (tot + this))"
      using True pos le(1) adv less.prems(3) by (intro less.hyps) simp_all
    moreover have "take this (drop ?p ?C) @ take (bufsz - (tot + this)) (drop (?p + this) ?C) =
        take (bufsz - tot) (drop ?p ?C)"
      using le(1) True take_add [of this "bufsz - (tot + this)" "drop ?p ?C"] by (simp add: add.commute)
    ultimately show ?thesis
      using step adv rq(4,5) le(1) True by auto
  qed
qed

lemma vioblk_write_loop_ok:
  assumes serve: "virtio_ok serve contents" and "vb_wf contents dev" and "tot \<le> length buf"
    and "unat (vb_pos dev) + (length buf - tot) \<le> length (vb_data contents dev)"
  shows "\<exists>dev'. vioblk_write_loop serve buf tot dev = Inr (int (length buf), dev') \<and> vb_wf contents dev' \<and>
    vb_data contents dev' = put_at (unat (vb_pos dev)) (drop tot buf) (vb_data contents dev) \<and> \<not> vb_lock dev'"
  using assms(2-)
proof (induction "length buf - tot" arbitrary: tot dev rule: less_induct)
  case less
  let ?p = "unat (vb_pos dev)" and ?C = "vb_data contents dev"
  show ?case
  proof (cases "tot < length buf")
    case False
    then show ?thesis
      using less.prems vb_advance(4,5) [OF less.prems(1), of 0]
      by (subst vioblk_write_loop.simps) (auto simp: vb_release_def)
  next
    case True
    then have pl: "?p < length ?C" using less.prems(3) by linarith
    note wp = vb_wf_pos [OF less.prems(1) pl]
    define this where "this = min (512 - ?p mod 512) (length buf - tot)"
    define d where "d = take this (drop tot buf)"
    define dev1 where "dev1 = (if this \<noteq> 512 then vio_request serve VIRTIO_BLK_T_IN (sector_index dev) dev else dev)"
    define dev2 where "dev2 = dev1\<lparr>vb_blkbuf := put_at (?p mod 512) d (vb_blkbuf dev1)\<rparr>"
    let ?base = "512 * (?p div 512)"
    have m: "?p mod 512 < 512" by simp
    have pos: "0 < this" using m True unfolding this_def by simp
    have le: "this \<le> length buf - tot" "?p mod 512 + this \<le> 512" using m unfolding this_def by linarith+
    have dl: "length d = this" using le(1) by (simp add: d_def)
    have bs: "vb_blksz dev = 512" "length (vb_blkbuf dev) = 512" using less.prems(1) by (simp_all add: vb_wf_def)
    have d1: "vb_wf contents dev1" "vb_data contents dev1 = ?C" "vb_pos dev1 = vb_pos dev"
      "length (vb_blkbuf dev1) = 512"
      using vio_request_in [OF serve less.prems(1) pl] less.prems(1) by (auto simp: dev1_def vb_wf_def)
    have buf: "put_at (?p mod 512) d (vb_blkbuf dev1) = put_at (?p mod 512) d (take 512 (drop ?base ?C))"
    proof (cases "this = 512")
      case True
      then have "?p mod 512 = 0" "length d = 512" using le(2) dl by simp_all
      then show ?thesis using d1(4) wp(3) by (simp add: put_at_def)
    next
      case False
      then show ?thesis using vio_request_in(6) [OF serve less.prems(1) pl] by (simp add: dev1_def)
    qed
    have d2: "vb_wf contents dev2" "vb_data contents dev2 = ?C" "vb_pos dev2 = vb_pos dev"
      "sector_index dev2 = sector_index dev"
      using d1 le(2) dl less.prems(1)
      by (simp_all add: dev2_def vb_wf_def vb_data_def sector_index_def)
    have pl2: "unat (vb_pos dev2) < length (vb_data contents dev2)" using pl d2(2,3) by simp
    let ?d3 = "vio_request serve VIRTIO_BLK_T_OUT (sector_index dev) dev2"
    note rq = vio_request_out [OF serve d2(1) pl2, unfolded d2(2,3,4)]
    have data: "vb_data contents ?d3 = put_at ?p d ?C"
      using rq(5) buf put_at_block [of "?p mod 512" d 512 ?base ?C] le(2) dl wp(3) by (simp add: dev2_def)
    let ?d' = "?d3\<lparr>vb_pos := vb_pos ?d3 + of_nat this\<rparr>"
    have step: "vioblk_write_loop serve buf tot dev = vioblk_write_loop serve buf (tot + this) ?d'"
      using True wp bs le dl d1(4)
      by (subst vioblk_write_loop.simps)
         (auto simp: Let_def this_def [symmetric] dev1_def [symmetric] d_def [symmetric] dev2_def [symmetric])
    have "length (vb_data contents ?d3) = length ?C" using data le(1) dl less.prems(3) by simp
    then have adv: "unat (vb_pos ?d3 + of_nat this) = ?p + this" "vb_wf contents ?d'" "vb_data contents ?d' = put_at ?p d ?C"
      using vb_advance(1-3) [OF rq(1), of this] le(1) less.prems(3) rq(2) data by simp_all
    have "\<exists>dev'. vioblk_write_loop serve buf (tot + this) ?d' = Inr (int (length buf), dev') \<and> vb_wf contents dev' \<and>
        vb_data contents dev' = put_at (unat (vb_pos ?d')) (drop (tot + this) buf) (vb_data contents ?d') \<and> \<not> vb_lock dev'"
      using True pos le(1) adv dl less.prems(3) by (intro less.hyps) simp_all
    moreover have "put_at (?p + this) (drop (tot + this) buf) (put_at ?p d ?C) = put_at ?p (drop tot buf) ?C"
    proof -
      have "drop tot buf = d @ drop (tot + this) buf"
        unfolding d_def by (metis append_take_drop_id drop_drop add.commute)
      then show ?thesis
        using put_at_append [of ?p d "drop (tot + this) buf" ?C] dl le(1) less.prems(3) by simp
    qed
    ultimately show ?thesis using step adv by simp
  qed
qed

section \<open>The block device contract\<close>

text \<open>
  What a client of the block device relies on: it can set the position to any place on the disk,
  a read there returns the bytes of the disk, and a write replaces them. \<open>disk s\<close> are the bytes of
  the disk and \<open>at s\<close> is the position.
\<close>

locale block_device =
  fixes ops :: "'s io_ops" and ok :: "'s \<Rightarrow> bool" and disk :: "'s \<Rightarrow> u8 list" and at :: "'s \<Rightarrow> nat"
  assumes setpos_ok: "ok s \<Longrightarrow> unat p \<le> length (disk s) \<Longrightarrow>
      \<exists>s'. call_ctl ops IOCTL_SETPOS p s = Inr (0, p, s') \<and> ok s' \<and> disk s' = disk s \<and> at s' = unat p"
    and read_ok: "ok s \<Longrightarrow> at s + n \<le> length (disk s) \<Longrightarrow>
      \<exists>s'. call_read ops n s = Inr (int n, take n (drop (at s) (disk s)), s') \<and> ok s' \<and> disk s' = disk s"
    and write_ok: "ok s \<Longrightarrow> at s + length bs \<le> length (disk s) \<Longrightarrow>
      \<exists>s'. call_write ops bs s = Inr (int (length bs), s') \<and> ok s' \<and> disk s' = put_at (at s) bs (disk s)"
begin

text \<open>Reading a block of the disk, as the file system does.\<close>

lemma read_at:
  assumes "ok s" and "unat p + n \<le> length (disk s)"
  shows "\<exists>s1 s2. call_ctl ops IOCTL_SETPOS p s = Inr (0, p, s1) \<and>
    call_read ops n s1 = Inr (int n, take n (drop (unat p) (disk s)), s2) \<and> ok s2 \<and> disk s2 = disk s"
  using setpos_ok [OF assms(1), of p] read_ok [of _ n] assms(2) by (metis add_leD1)

lemma write_at:
  assumes "ok s" and "unat p + length bs \<le> length (disk s)"
  shows "\<exists>s1 s2. call_ctl ops IOCTL_SETPOS p s = Inr (0, p, s1) \<and> call_write ops bs s1 = Inr (int (length bs), s2) \<and> ok s2 \<and> disk s2 = put_at (unat p) bs (disk s)"
  using setpos_ok [OF assms(1), of p] write_ok [of _ bs] assms(2) by (metis add_leD1)

end

lemma vioblk_block_device:
  assumes serve: "virtio_ok serve contents"
  shows "block_device (vioblk_io_ops serve) (\<lambda>dev. vb_wf contents dev \<and> \<not> vb_lock dev)
    (vb_data contents) (\<lambda>dev. unat (vb_pos dev))"
proof
  fix s :: "'a vioblk" and p :: u64
  assume s: "vb_wf contents s \<and> \<not> vb_lock s" and p: "unat p \<le> length (vb_data contents s)"
  have "\<not> vb_size s < p" using s p by (auto simp: vb_wf_def word_less_nat_alt unat_of_nat)
  then show "\<exists>s'. call_ctl (vioblk_io_ops serve) IOCTL_SETPOS p s = Inr (0, p, s') \<and>
      (vb_wf contents s' \<and> \<not> vb_lock s') \<and> vb_data contents s' = vb_data contents s \<and> unat (vb_pos s') = unat p"
    using s by (simp add: call_ctl_def vioblk_io_ops_def vioblk_ioctl_def vb_acquire_def vb_release_def
        vioblk_setpos_def ioctl_defs vb_wf_def vb_data_def)
next
  fix s n assume s: "vb_wf contents s \<and> \<not> vb_lock s"
    and n: "unat (vb_pos s) + n \<le> length (vb_data contents s)"
  let ?s = "s\<lparr>vb_lock := True\<rparr>"
  have w: "vb_wf contents ?s" "vb_data contents ?s = vb_data contents s"
    using s by (simp_all add: vb_wf_def vb_data_def)
  obtain s' where r: "vioblk_read_loop serve n 0 [] ?s =
      Inr (int n, take n (drop (unat (vb_pos s)) (vb_data contents s)), s')" "vb_wf contents s'"
    "vb_data contents s' = vb_data contents s"
    using vioblk_read_loop_ok [OF serve w(1), of 0 n "[]"] w(2) n by auto
  then show "\<exists>s'. call_read (vioblk_io_ops serve) n s =
        Inr (int n, take n (drop (unat (vb_pos s)) (vb_data contents s)), s') \<and>
      (vb_wf contents s' \<and> \<not> vb_lock s') \<and> vb_data contents s' = vb_data contents s"
    using s by (simp add: call_read_def vioblk_io_ops_def vioblk_read_def vb_acquire_def vb_release_def
        vb_wf_def vb_data_def)
next
  fix s :: "'a vioblk" and bs :: "u8 list"
  assume s: "vb_wf contents s \<and> \<not> vb_lock s"
    and n: "unat (vb_pos s) + length bs \<le> length (vb_data contents s)"
  let ?s = "s\<lparr>vb_lock := True\<rparr>"
  have w: "vb_wf contents ?s" "vb_data contents ?s = vb_data contents s"
    using s by (simp_all add: vb_wf_def vb_data_def)
  obtain s' where "vioblk_write_loop serve bs 0 ?s = Inr (int (length bs), s')" "vb_wf contents s'"
    "vb_data contents s' = put_at (unat (vb_pos s)) bs (vb_data contents s)" "\<not> vb_lock s'"
    using vioblk_write_loop_ok [OF serve w(1), of 0 bs] w(2) n by auto
  then show "\<exists>s'. call_write (vioblk_io_ops serve) bs s = Inr (int (length bs), s') \<and>
      (vb_wf contents s' \<and> \<not> vb_lock s') \<and> vb_data contents s' = put_at (unat (vb_pos s)) bs (vb_data contents s)"
    using s by (auto simp: call_write_def vioblk_io_ops_def vioblk_write_def vb_acquire_def vb_wf_def)
qed

text \<open>A disk that is a list of bytes behaves as the standard says; the driver on it is a block device.\<close>

definition serve_disk :: "u8 list serve" where
  "serve_disk ty sec buf hw =
     (if ty = VIRTIO_BLK_T_IN then (take (length buf) (drop (512 * unat sec) hw), hw)
      else if ty = VIRTIO_BLK_T_OUT then (buf, put_at (512 * unat sec) buf hw) else (buf, hw))"

lemma serve_disk_ok: "virtio_ok serve_disk (\<lambda>hw. hw)"
  by (simp add: virtio_ok_def serve_disk_def VIRTIO_BLK_T_IN_def VIRTIO_BLK_T_OUT_def)

interpretation vbd: block_device "vioblk_io_ops serve_disk"
  "\<lambda>dev. vb_wf (\<lambda>hw. hw) dev \<and> \<not> vb_lock dev" "vb_data (\<lambda>hw. hw)" "\<lambda>dev. unat (vb_pos dev)"
  by (rule vioblk_block_device [OF serve_disk_ok])

section \<open>Correctness properties\<close>

text \<open>
  C22. Data written to the block device is read back: on a device that serves requests as the
  VirtIO standard says, seeking, writing, seeking to the same place and reading as many bytes
  all succeed, return the bytes written, and change no other byte of the disk, for any position
  and length, aligned to sectors or not.
\<close>

theorem vioblk_write_read:
  assumes "virtio_ok serve contents" and "vb_wf contents dev" and "\<not> vb_lock dev"
    and "unat p + length bs \<le> length (vb_data contents dev)"
  shows "\<exists>d1 d2 d3 d4. vioblk_ioctl IOCTL_SETPOS p dev = Inr (0, p, d1) \<and>
    vioblk_write serve bs d1 = Inr (int (length bs), d2) \<and>
    vioblk_ioctl IOCTL_SETPOS p d2 = Inr (0, p, d3) \<and>
    vioblk_read serve (length bs) d3 = Inr (int (length bs), bs, d4) \<and>
    vb_data contents d4 = put_at (unat p) bs (vb_data contents dev)"
proof -
  note bd = vioblk_block_device [OF assms(1)]
  obtain d1 d2 where w: "vioblk_ioctl IOCTL_SETPOS p dev = Inr (0, p, d1)"
    "vioblk_write serve bs d1 = Inr (int (length bs), d2)" "vb_wf contents d2" "\<not> vb_lock d2"
    "vb_data contents d2 = put_at (unat p) bs (vb_data contents dev)"
    using block_device.write_at [OF bd, of dev p bs] assms(2-) by (auto simp: call_ctl_def call_write_def vioblk_io_ops_def)
  obtain d3 d4 where r: "vioblk_ioctl IOCTL_SETPOS p d2 = Inr (0, p, d3)"
    "vioblk_read serve (length bs) d3 = Inr (int (length bs),
       take (length bs) (drop (unat p) (vb_data contents d2)), d4)"
    "vb_data contents d4 = vb_data contents d2"
    using block_device.read_at [OF bd, of d2 p "length bs"] assms(4) w(3-5)
    by (auto simp: call_ctl_def call_read_def vioblk_io_ops_def)
  have "take (length bs) (drop (unat p) (put_at (unat p) bs (vb_data contents dev))) = bs"
    using assms(4) by (simp add: put_at_def)
  with w r show ?thesis by auto
qed

theorem vioblk_write_read_witness:
  "\<exists>dev d1 d2 d3 d4. vioblk_ioctl IOCTL_SETPOS 510 (dev :: u8 list vioblk) = Inr (0, 510, d1) \<and>
     vioblk_write serve_disk [1, 2, 3, 4] d1 = Inr (4, d2) \<and>
     vioblk_ioctl IOCTL_SETPOS 510 d2 = Inr (0, 510, d3) \<and> vioblk_read serve_disk 4 d3 = Inr (4, [1, 2, 3, 4], d4)"
proof -
  let ?d = "vioblk_attach_dev 512 2 (replicate 512 0) (0, 0, 0) zero_regs (replicate 1024 0) :: u8 list vioblk"
  have d: "vb_wf (\<lambda>hw. hw) ?d" "\<not> vb_lock ?d" by (simp_all add: vb_wf_def vioblk_attach_dev_def vb_data_def)
  have b: "unat (510 :: u64) + length [1, 2, 3, 4 :: u8] \<le> length (vb_data (\<lambda>hw. hw) ?d)"
    by (simp add: vioblk_attach_dev_def vb_data_def)
  have l: "length [1, 2, 3, 4 :: u8] = 4" "int 4 = 4" by simp_all
  show ?thesis using vioblk_write_read [OF serve_disk_ok d b] unfolding l by blast
qed

end
