(* ===== verification/Virtq.thy ===== *)
theory Virtq
  imports Vioblk
begin

unbundle bit_operations_syntax

text \<open>
  The queue through which \<open>kern/vioblk.c\<close> and the block device speak to each other, below the level of
  \<open>Vioblk\<close>: descriptors, the two rings and the request header (\<open>kern/virtio.h\<close>). The driver's side is what
  the code writes. The device's side, \<open>device_request\<close> and \<open>device_serve\<close>, is what the VirtIO standard
  says a device finds in a split queue: the head of a chain in the available ring, an indirect
  table, and the chain of its entries. It is the environment of the driver, not code of the
  repository; it accepts an indirect descriptor, which the driver uses although it has not
  negotiated \<open>VIRTIO_F_INDIRECT_DESC\<close>. The driver of \<open>Vioblk\<close> on top of the queue behaves as the one on
  the device itself.
\<close>

section \<open>The queue\<close>

record virtq_desc =
  desc_addr :: u64
  desc_len :: u32
  desc_flags :: u16
  desc_next :: u16

record vioblk_request_header =
  rh_type :: u32
  rh_reserved :: u32
  rh_sector :: u64

text \<open>The member \<open>vq\<close> of \<open>struct vioblk_device\<close>, with rings of one entry.\<close>

record virtq =
  avail_flags :: u16
  avail_idx :: u16
  avail_ring :: u16
  used_flags :: u16
  used_idx :: u16
  used_id :: u32
  used_len :: u32
  vq_desc :: "virtq_desc list"
  req_header :: vioblk_request_header
  req_status :: u8

definition VIRTQ_DESC_F_NEXT :: u16 where "VIRTQ_DESC_F_NEXT = 1"
definition VIRTQ_DESC_F_WRITE :: u16 where "VIRTQ_DESC_F_WRITE = 2"
definition VIRTQ_DESC_F_INDIRECT :: u16 where "VIRTQ_DESC_F_INDIRECT = 4"

lemmas desc_flag_defs = VIRTQ_DESC_F_NEXT_def VIRTQ_DESC_F_WRITE_def VIRTQ_DESC_F_INDIRECT_def

text \<open>Addresses of the parts of a device structure at \<open>dev\<close>.\<close>

definition desc_at :: "u64 \<Rightarrow> nat \<Rightarrow> u64" where "desc_at dev i = dev + 112 + 16 * of_nat i"
definition req_header_at :: "u64 \<Rightarrow> u64" where "req_header_at dev = dev + 176"
definition req_status_at :: "u64 \<Rightarrow> u64" where "req_status_at dev = dev + 192"
definition blkbuf_at :: "u64 \<Rightarrow> u64" where "blkbuf_at dev = dev + 208"

section \<open>The driver's side\<close>

text \<open>
  What \<open>vioblk_attach\<close> writes, into memory it has cleared. The links of the descriptors are those of the
  whole array, not of the indirect table, and the data descriptor has the address of the pointer
  to the buffer; both are written again before the first request.
\<close>

definition vq_attach :: "u64 \<Rightarrow> u32 \<Rightarrow> virtq" where
  "vq_attach dev blksz =
     \<lparr>avail_flags = 0, avail_idx = 0, avail_ring = 0, used_flags = 0, used_idx = 0, used_id = 0, used_len = 0,
      vq_desc =
        [\<lparr>desc_addr = desc_at dev 1, desc_len = 16 * 3, desc_flags = VIRTQ_DESC_F_INDIRECT, desc_next = 1\<rparr>,
         \<lparr>desc_addr = req_header_at dev, desc_len = 16, desc_flags = VIRTQ_DESC_F_NEXT, desc_next = 2\<rparr>,
         \<lparr>desc_addr = blkbuf_at dev, desc_len = blksz, desc_flags = VIRTQ_DESC_F_NEXT OR VIRTQ_DESC_F_WRITE, desc_next = 3\<rparr>,
         \<lparr>desc_addr = req_status_at dev, desc_len = 1, desc_flags = VIRTQ_DESC_F_WRITE, desc_next = 0\<rparr>],
      req_header = \<lparr>rh_type = 0, rh_reserved = 0, rh_sector = 0\<rparr>, req_status = 0\<rparr>"

definition vq_open :: "virtq \<Rightarrow> virtq" where
  "vq_open q = q\<lparr>avail_flags := 0, avail_idx := 0, avail_ring := 0, used_flags := 0, used_idx := 0, used_id := 0, used_len := 0\<rparr>"

definition vq_close :: "virtq \<Rightarrow> virtq" where
  "vq_close q = q\<lparr>avail_idx := 0, avail_flags := VIRTQ_AVAIL_F_NO_INTERRUPT\<rparr>"

text \<open>
  Setting up a request for the block buffer at \<open>blkbuf\<close>: reading and writing differ in the flags of
  the data descriptor. The ring has one entry, so its index modulo 1 is 0.
\<close>

definition vq_submit :: "u64 \<Rightarrow> u64 \<Rightarrow> u32 \<Rightarrow> u32 \<Rightarrow> u64 \<Rightarrow> virtq \<Rightarrow> virtq" where
  "vq_submit dev blkbuf blksz ty sector q =
     (let fl = (if ty = VIRTIO_BLK_T_IN then VIRTQ_DESC_F_NEXT OR VIRTQ_DESC_F_WRITE else VIRTQ_DESC_F_NEXT);
          q = q\<lparr>vq_desc := (vq_desc q)[1 := \<lparr>desc_addr = req_header_at dev, desc_len = 16, desc_flags = VIRTQ_DESC_F_NEXT, desc_next = 1\<rparr>]\<rparr>;
          q = q\<lparr>vq_desc := (vq_desc q)[2 := \<lparr>desc_addr = blkbuf, desc_len = blksz, desc_flags = fl, desc_next = 2\<rparr>]\<rparr>;
          q = q\<lparr>req_header := (req_header q)\<lparr>rh_sector := sector, rh_type := ty\<rparr>\<rparr>;
          q = q\<lparr>avail_ring := 0\<rparr>
      in q\<lparr>avail_idx := avail_idx q + 1\<rparr>)"

section \<open>The device's side\<close>

text \<open>
  The part of a chain from entry \<open>i\<close> of a table on, as pairs of an address and a length with the mark
  of what the device may write; a chain has at most as many entries as the table.
\<close>

fun chain_from :: "nat \<Rightarrow> virtq_desc list \<Rightarrow> nat \<Rightarrow> (u64 \<times> u32 \<times> bool) list option" where
  "chain_from 0 tbl i = None"
| "chain_from (Suc n) tbl i =
     (if i < length tbl then
        let d = tbl ! i; seg = (desc_addr d, desc_len d, desc_flags d AND VIRTQ_DESC_F_WRITE \<noteq> 0)
        in if desc_flags d AND VIRTQ_DESC_F_NEXT \<noteq> 0 then map_option ((#) seg) (chain_from n tbl (unat (desc_next d)))
           else Some [seg]
      else None)"

text \<open>The descriptors in \<open>len\<close> bytes of memory from \<open>a\<close> on.\<close>

definition table_at :: "u64 \<Rightarrow> virtq \<Rightarrow> u64 \<Rightarrow> u32 \<Rightarrow> virtq_desc list option" where
  "table_at dev q a len =
     (let off = unat (a - desc_at dev 0); n = unat len div 16 in
      if off mod 16 = 0 \<and> unat len mod 16 = 0 \<and> off div 16 + n \<le> length (vq_desc q)
      then Some (take n (drop (off div 16) (vq_desc q))) else None)"

definition chain :: "u64 \<Rightarrow> virtq \<Rightarrow> (u64 \<times> u32 \<times> bool) list option" where
  "chain dev q =
     (let i = unat (avail_ring q) in
      if i < length (vq_desc q) then
        let d = vq_desc q ! i in
        if desc_flags d AND VIRTQ_DESC_F_INDIRECT \<noteq> 0 then
          (case table_at dev q (desc_addr d) (desc_len d) of None \<Rightarrow> None | Some tbl \<Rightarrow> chain_from (length tbl) tbl 0)
        else chain_from (length (vq_desc q)) (vq_desc q) i
      else None)"

text \<open>
  The request in a chain: a header the device only reads, the data, and a status byte the device
  writes. The result has the type, the sector, and address, length and mark of the data.
\<close>

definition device_request :: "u64 \<Rightarrow> virtq \<Rightarrow> (u32 \<times> u64 \<times> u64 \<times> u32 \<times> bool) option" where
  "device_request dev q =
     (case chain dev q of
        Some [(ha, hl, hw), (da, dl, dw), (sa, sl, sw)] \<Rightarrow>
          if ha = req_header_at dev \<and> hl = 16 \<and> \<not> hw \<and> sa = req_status_at dev \<and> sl = 1 \<and> sw
          then Some (rh_type (req_header q), rh_sector (req_header q), da, dl, dw) else None
      | _ \<Rightarrow> None)"

text \<open>
  The device with its queue: \<open>seen\<close> is how far it has read the available ring, and \<open>stuck\<close> says that
  the driver has waited for a request which the device did not find or could not serve.
\<close>

record 'h vqhw =
  vq :: virtq
  seen :: u16
  stuck :: bool
  disk :: 'h

text \<open>
  Serving the next request: the data has to be the block buffer, writable exactly for a request to
  read. The device enters the head of the chain in the used ring with the number of bytes it wrote.
\<close>

definition device_serve :: "u64 \<Rightarrow> u64 \<Rightarrow> 'h serve \<Rightarrow> u8 list \<Rightarrow> 'h vqhw \<Rightarrow> (u8 list \<times> 'h vqhw) option" where
  "device_serve dev blkbuf serve buf s =
     (if seen s = avail_idx (vq s) then None
      else
        case device_request dev (vq s) of
          None \<Rightarrow> None
        | Some (ty, sector, a, n, w) \<Rightarrow>
            if a = blkbuf \<and> unat n = length buf \<and> w = (ty = VIRTIO_BLK_T_IN) then
              let (buf, hw) = serve ty sector buf (disk s); q = vq s in
              Some (buf, s\<lparr>disk := hw, seen := seen s + 1,
                vq := q\<lparr>used_id := ucast (avail_ring q), used_len := (if w then n + 1 else 1), used_idx := used_idx q + 1,
                  req_status := 0\<rparr>\<rparr>)
            else None)"

text \<open>
  A request, as \<open>Vioblk\<close> sees it: the driver fills in the queue by \<open>vq_submit\<close>, and the device, which
  is notified, serves it before the driver goes on.
\<close>

definition vq_serve :: "u64 \<Rightarrow> u64 \<Rightarrow> u32 \<Rightarrow> 'h serve \<Rightarrow> 'h vqhw serve" where
  "vq_serve dev blkbuf blksz serve ty sector buf s =
     (let s = s\<lparr>vq := vq_submit dev blkbuf blksz ty sector (vq s)\<rparr> in
      if stuck s then (buf, s)
      else case device_serve dev blkbuf serve buf s of None \<Rightarrow> (buf, s\<lparr>stuck := True\<rparr>) | Some r \<Rightarrow> r)"

section \<open>The driver on the queue\<close>

text \<open>The driver with another device behind it.\<close>

definition vb_map :: "('d \<Rightarrow> 'e) \<Rightarrow> 'd vioblk \<Rightarrow> 'e vioblk" where
  "vb_map f d = \<lparr>vb_opened = vb_opened d, vb_readonly = vb_readonly d, vb_blksz = vb_blksz d, vb_pos = vb_pos d,
     vb_size = vb_size d, vb_blkbuf = vb_blkbuf d, vb_avail_flags = vb_avail_flags d, vb_avail_idx = vb_avail_idx d,
     vb_used_idx = vb_used_idx d, vb_regs = vb_regs d, vb_irq = vb_irq d, vb_refcnt = vb_refcnt d,
     vb_lock = vb_lock d, vb_hw = f (vb_hw d)\<rparr>"

lemma vb_map_simps [simp]:
  "vb_readonly (vb_map f d) = vb_readonly d" "vb_blksz (vb_map f d) = vb_blksz d" "vb_pos (vb_map f d) = vb_pos d"
  "vb_size (vb_map f d) = vb_size d" "vb_blkbuf (vb_map f d) = vb_blkbuf d" "vb_lock (vb_map f d) = vb_lock d"
  "vb_avail_idx (vb_map f d) = vb_avail_idx d" "vb_regs (vb_map f d) = vb_regs d" "vb_hw (vb_map f d) = f (vb_hw d)"
  "(vb_map f d)\<lparr>vb_pos := p\<rparr> = vb_map f (d\<lparr>vb_pos := p\<rparr>)" "(vb_map f d)\<lparr>vb_lock := l\<rparr> = vb_map f (d\<lparr>vb_lock := l\<rparr>)"
  "(vb_map f d)\<lparr>vb_blkbuf := b\<rparr> = vb_map f (d\<lparr>vb_blkbuf := b\<rparr>)"
  "sector_index (vb_map f d) = sector_index d" "sector_offset (vb_map f d) = sector_offset d"
  "vb_release (vb_map f d) = vb_map f (vb_release d)"
  by (simp_all add: vb_map_def sector_index_def sector_offset_def vb_release_def)

text \<open>
  What makes the driver work the same on two devices: from a state that is \<open>ok\<close>, a request for the
  sector at the position does to the buffer and the one device what it does to the other.
\<close>

locale serve_sim =
  fixes serve :: "'d serve" and serve' :: "'e serve" and abst :: "'d \<Rightarrow> 'e" and ok :: "'d vioblk \<Rightarrow> bool"
  assumes request: "ok d \<Longrightarrow> vb_pos d < vb_size d \<Longrightarrow> ty = VIRTIO_BLK_T_IN \<or> ty = VIRTIO_BLK_T_OUT \<Longrightarrow>
      vio_request serve' ty (sector_index d) (vb_map abst d) = vb_map abst (vio_request serve ty (sector_index d) d)"
    and request_ok: "ok d \<Longrightarrow> vb_pos d < vb_size d \<Longrightarrow> ty = VIRTIO_BLK_T_IN \<or> ty = VIRTIO_BLK_T_OUT \<Longrightarrow>
      ok (vio_request serve ty (sector_index d) d)"
    and pos_ok: "ok d \<Longrightarrow> ok (d\<lparr>vb_pos := p\<rparr>)"
    and lock_ok: "ok d \<Longrightarrow> ok (d\<lparr>vb_lock := l\<rparr>)"
    and blkbuf_ok: "ok d \<Longrightarrow> length b = length (vb_blkbuf d) \<Longrightarrow> ok (d\<lparr>vb_blkbuf := b\<rparr>)"
begin

lemma read_loop_sim:
  "ok d \<Longrightarrow> vioblk_read_loop serve' n tot buf (vb_map abst d) =
     map_sum id (map_prod id (map_prod id (vb_map abst))) (vioblk_read_loop serve n tot buf d) \<and>
   (\<forall>r bs d'. vioblk_read_loop serve n tot buf d = Inr (r, bs, d') \<longrightarrow> ok d')"
proof (induction "n - tot" arbitrary: tot buf d rule: less_induct)
  case less
  let ?loop = "vioblk_read_loop serve" and ?loop' = "vioblk_read_loop serve'"
  show ?case
  proof (cases "tot < n \<and> vb_pos d < vb_size d \<and> vb_blksz d \<noteq> 0")
    case False
    then show ?thesis using less.prems
      by (subst (1 2 3) vioblk_read_loop.simps) auto
  next
    case True
    define this where "this = min (unat (vb_blksz d) - sector_offset d) (n - tot)"
    define d1 where "d1 = vio_request serve VIRTIO_BLK_T_IN (sector_index d) d"
    have 1: "vio_request serve' VIRTIO_BLK_T_IN (sector_index d) (vb_map abst d) = vb_map abst d1" "ok d1"
      using request request_ok less.prems True by (simp_all add: d1_def)
    have "0 < this" using True sector_offset_less [of d] by (simp add: this_def)
    moreover have "tot < n" using True by blast
    ultimately have ih: "n - (tot + this) < n - tot" by linarith
    show ?thesis
    proof (cases "length (vb_blkbuf d1) < sector_offset d + this")
      case short: True
      then show ?thesis using True 1
        by (subst (1 2 3) vioblk_read_loop.simps) (simp add: Let_def this_def [symmetric] d1_def [symmetric])
    next
      case False
      then have "?loop n tot buf d = ?loop n (tot + this) (buf @ take this (drop (sector_offset d) (vb_blkbuf d1))) (d1\<lparr>vb_pos := vb_pos d1 + of_nat this\<rparr>)"
        "?loop' n tot buf (vb_map abst d) = ?loop' n (tot + this) (buf @ take this (drop (sector_offset d) (vb_blkbuf d1))) (vb_map abst (d1\<lparr>vb_pos := vb_pos d1 + of_nat this\<rparr>))"
        using True 1 by (subst vioblk_read_loop.simps, simp add: Let_def this_def [symmetric] d1_def [symmetric])+
      then show ?thesis using less.hyps [OF ih pos_ok [OF 1(2)]] by simp
    qed
  qed
qed

lemma write_loop_sim:
  "ok d \<Longrightarrow> vioblk_write_loop serve' buf tot (vb_map abst d) =
     map_sum id (map_prod id (vb_map abst)) (vioblk_write_loop serve buf tot d) \<and>
   (\<forall>r d'. vioblk_write_loop serve buf tot d = Inr (r, d') \<longrightarrow> ok d')"
proof (induction "length buf - tot" arbitrary: tot d rule: less_induct)
  case less
  let ?loop = "vioblk_write_loop serve" and ?loop' = "vioblk_write_loop serve'"
  show ?case
  proof (cases "tot < length buf \<and> vb_pos d < vb_size d \<and> vb_blksz d \<noteq> 0")
    case False
    then show ?thesis using less.prems lock_ok
      by (subst (1 2 3) vioblk_write_loop.simps) (auto simp: vb_release_def not_less)
  next
    case True
    define this where "this = min (unat (vb_blksz d) - sector_offset d) (length buf - tot)"
    define d1 where "d1 = (if this \<noteq> unat (vb_blksz d) then vio_request serve VIRTIO_BLK_T_IN (sector_index d) d else d)"
    have 1: "(if this \<noteq> unat (vb_blksz d) then vio_request serve' VIRTIO_BLK_T_IN (sector_index d) (vb_map abst d) else vb_map abst d) = vb_map abst d1" "ok d1"
      using request request_ok less.prems True by (simp_all add: d1_def)
    have same: "vb_pos d1 = vb_pos d" "vb_size d1 = vb_size d" "sector_index d1 = sector_index d"
      by (simp_all add: d1_def vio_request_def case_prod_beta sector_index_def)
    have "0 < this" using True sector_offset_less [of d] by (simp add: this_def)
    moreover have "tot < length buf" using True by blast
    ultimately have ih: "length buf - (tot + this) < length buf - tot" by linarith
    have if_d: "(if this \<noteq> unat (vb_blksz d) then vio_request serve VIRTIO_BLK_T_IN (sector_index d) d else d) = d1" by (simp add: d1_def)
    show ?thesis
    proof (cases "length (vb_blkbuf d1) < sector_offset d + this")
      case short: True
      then show ?thesis using True 1 less.prems
        by (subst (1 2 3) vioblk_write_loop.simps) (simp add: Let_def this_def [symmetric] if_d not_le)
    next
      case False
      define d2 where "d2 = d1\<lparr>vb_blkbuf := put_at (sector_offset d) (take this (drop tot buf)) (vb_blkbuf d1)\<rparr>"
      define d3 where "d3 = vio_request serve VIRTIO_BLK_T_OUT (sector_index d) d2"
      have "length (put_at (sector_offset d) (take this (drop tot buf)) (vb_blkbuf d1)) = length (vb_blkbuf d1)"
        using False by (simp add: put_at_def)
      then have ok2: "ok d2" unfolding d2_def by (rule blkbuf_ok [OF 1(2)])
      have s2: "vb_pos d2 = vb_pos d" "vb_size d2 = vb_size d" "sector_index d2 = sector_index d" "vb_blksz d2 = vb_blksz d1"
        using same by (simp_all add: d2_def sector_index_def)
      have 3: "vio_request serve' VIRTIO_BLK_T_OUT (sector_index d) (vb_map abst d2) = vb_map abst d3" "ok d3"
        using request [OF ok2, of VIRTIO_BLK_T_OUT] request_ok [OF ok2, of VIRTIO_BLK_T_OUT] True s2 by (simp_all add: d3_def)
      have c: "tot < length buf" "\<not> vb_size d \<le> vb_pos d" "(vb_blksz d = 0) = False" "\<not> length (vb_blkbuf d1) < sector_offset d + this"
        using True False by auto
      have "?loop buf tot d = ?loop buf (tot + this) (d3\<lparr>vb_pos := vb_pos d3 + of_nat this\<rparr>)"
        "?loop' buf tot (vb_map abst d) = ?loop' buf (tot + this) (vb_map abst (d3\<lparr>vb_pos := vb_pos d3 + of_nat this\<rparr>))"
        by (subst vioblk_write_loop.simps, simp only: c if_True if_False Let_def vb_map_simps this_def [symmetric] if_d 1(1)
            d2_def [symmetric] d3_def [symmetric] 3(1))+
      then show ?thesis using less.hyps [OF ih pos_ok [OF 3(2)]] by simp
    qed
  qed
qed

lemma read_sim:
  "ok d \<Longrightarrow> vioblk_read serve' n (vb_map abst d) =
     map_sum id (map_prod id (map_prod id (vb_map abst))) (vioblk_read serve n d) \<and>
   (\<forall>r bs d'. vioblk_read serve n d = Inr (r, bs, d') \<longrightarrow> ok d')"
  using read_loop_sim [OF lock_ok, of d n 0 "[]" True] lock_ok
  by (auto simp: vioblk_read_def vb_acquire_def bind_res_def vb_release_def split: sum.splits prod.splits)

lemma write_sim:
  "ok d \<Longrightarrow> vioblk_write serve' bs (vb_map abst d) = map_sum id (map_prod id (vb_map abst)) (vioblk_write serve bs d) \<and>
   (\<forall>r d'. vioblk_write serve bs d = Inr (r, d') \<longrightarrow> ok d')"
  using write_loop_sim [OF lock_ok, of d bs 0 True]
  by (auto simp: vioblk_write_def vb_acquire_def)

end

section \<open>The queue of the block device\<close>

text \<open>
  Between requests the first and the last descriptor are as \<open>vioblk_attach\<close> set them, the device has
  served every request, and the driver's index is that of the queue.
\<close>

definition vq_idle :: "u64 \<Rightarrow> virtq \<Rightarrow> bool" where
  "vq_idle dev q \<longleftrightarrow> length (vq_desc q) = 4 \<and>
     vq_desc q ! 0 = \<lparr>desc_addr = desc_at dev 1, desc_len = 48, desc_flags = VIRTQ_DESC_F_INDIRECT, desc_next = 1\<rparr> \<and>
     vq_desc q ! 3 = \<lparr>desc_addr = req_status_at dev, desc_len = 1, desc_flags = VIRTQ_DESC_F_WRITE, desc_next = 0\<rparr> \<and>
     used_idx q = avail_idx q"

definition vq_ready :: "u64 \<Rightarrow> 'h vqhw vioblk \<Rightarrow> bool" where
  "vq_ready dev d \<longleftrightarrow> vq_idle dev (vq (vb_hw d)) \<and> seen (vb_hw d) = avail_idx (vq (vb_hw d)) \<and> \<not> stuck (vb_hw d) \<and>
     vb_avail_idx d = avail_idx (vq (vb_hw d))"

lemma list4: "length xs = 4 \<Longrightarrow> xs = [xs ! 0, xs ! 1, xs ! 2, xs ! 3]"
  by (auto simp: list_eq_iff_nth_eq less_Suc_eq numeral_eq_Suc)

lemma table_submitted:
  assumes "vq_idle dev q"
  shows "vq_desc (vq_submit dev blkbuf blksz ty sector q) =
    [\<lparr>desc_addr = desc_at dev 1, desc_len = 48, desc_flags = VIRTQ_DESC_F_INDIRECT, desc_next = 1\<rparr>,
     \<lparr>desc_addr = req_header_at dev, desc_len = 16, desc_flags = VIRTQ_DESC_F_NEXT, desc_next = 1\<rparr>,
     \<lparr>desc_addr = blkbuf, desc_len = blksz,
      desc_flags = (if ty = VIRTIO_BLK_T_IN then VIRTQ_DESC_F_NEXT OR VIRTQ_DESC_F_WRITE else VIRTQ_DESC_F_NEXT), desc_next = 2\<rparr>,
     \<lparr>desc_addr = req_status_at dev, desc_len = 1, desc_flags = VIRTQ_DESC_F_WRITE, desc_next = 0\<rparr>]"
proof -
  obtain a b where "vq_desc q = [vq_desc q ! 0, a, b, vq_desc q ! 3]" using assms list4 [of "vq_desc q"] by (auto simp: vq_idle_def)
  moreover have "(vq_desc q)[1 := x, 2 := y] = [vq_desc q ! 0, x, y, vq_desc q ! 3]" for x y
    by (subst calculation) (simp add: numeral_eq_Suc)
  ultimately show ?thesis using assms by (simp add: vq_submit_def Let_def vq_idle_def)
qed

text \<open>The device finds in the queue the request that the driver means.\<close>

lemma device_request_submitted:
  assumes "vq_idle dev q"
  shows "device_request dev (vq_submit dev blkbuf blksz ty sector q) = Some (ty, sector, blkbuf, blksz, ty = VIRTIO_BLK_T_IN)"
proof -
  let ?q = "vq_submit dev blkbuf blksz ty sector q"
  note tbl = table_submitted [OF assms, of blkbuf blksz ty sector]
  have r: "avail_ring ?q = 0" "rh_type (req_header ?q) = ty" "rh_sector (req_header ?q) = sector"
    by (simp_all add: vq_submit_def Let_def)
  have "table_at dev ?q (desc_at dev 1) 48 = Some (tl (vq_desc ?q))"
    unfolding table_at_def tbl by (simp add: desc_at_def)
  then have "chain dev ?q = chain_from (length (tl (vq_desc ?q))) (tl (vq_desc ?q)) 0"
    by (simp add: chain_def r(1) tbl desc_flag_defs del: chain_from.simps)
  also have "\<dots> = Some [(req_header_at dev, 16, False), (blkbuf, blksz, ty = VIRTIO_BLK_T_IN), (req_status_at dev, 1, True)]"
    unfolding tbl by (simp add: desc_flag_defs)
  finally show ?thesis by (simp add: device_request_def r)
qed

text \<open>So a request through the queue is a request to the device, and leaves the queue idle.\<close>

lemma vq_serve_ok:
  assumes "vq_idle dev (vq s)" "seen s = avail_idx (vq s)" "\<not> stuck s" and "length buf = unat blksz"
  shows "\<exists>s'. vq_serve dev blkbuf blksz serve ty sector buf s = (fst (serve ty sector buf (disk s)), s') \<and>
    disk s' = snd (serve ty sector buf (disk s)) \<and> vq_idle dev (vq s') \<and> seen s' = avail_idx (vq s') \<and> \<not> stuck s' \<and>
    avail_idx (vq s') = avail_idx (vq s) + 1"
proof -
  let ?q = "vq_submit dev blkbuf blksz ty sector (vq s)"
  have i: "avail_idx ?q = avail_idx (vq s) + 1" "used_idx ?q = used_idx (vq s)" by (simp_all add: vq_submit_def Let_def)
  have "vq_idle dev (?q\<lparr>used_id := a, used_len := b, used_idx := used_idx ?q + 1, req_status := 0\<rparr>)" for a b
    using assms(1) table_submitted [OF assms(1), of blkbuf blksz ty sector] i by (simp add: vq_idle_def)
  then show ?thesis
    using assms(2-4) i(1) device_request_submitted [OF assms(1), of blkbuf blksz ty sector]
    by (simp add: vq_serve_def device_serve_def Let_def case_prod_beta)
qed

lemma vq_request:
  assumes "vq_ready dev d" and "length (vb_blkbuf d) = unat blksz"
  shows "vio_request serve ty sector (vb_map disk d) = vb_map disk (vio_request (vq_serve dev blkbuf blksz serve) ty sector d)"
    and "vq_ready dev (vio_request (vq_serve dev blkbuf blksz serve) ty sector d)"
proof -
  obtain s' where s: "vq_serve dev blkbuf blksz serve ty sector (vb_blkbuf d) (vb_hw d) = (fst (serve ty sector (vb_blkbuf d) (disk (vb_hw d))), s')"
    "disk s' = snd (serve ty sector (vb_blkbuf d) (disk (vb_hw d)))" "vq_idle dev (vq s')" "seen s' = avail_idx (vq s')" "\<not> stuck s'"
    "avail_idx (vq s') = avail_idx (vq (vb_hw d)) + 1"
    using vq_serve_ok [of dev "vb_hw d" "vb_blkbuf d" blksz blkbuf serve ty sector] assms by (auto simp: vq_ready_def)
  then show "vio_request serve ty sector (vb_map disk d) = vb_map disk (vio_request (vq_serve dev blkbuf blksz serve) ty sector d)"
    by (simp add: vio_request_def case_prod_beta) (simp add: vb_map_def)
  show "vq_ready dev (vio_request (vq_serve dev blkbuf blksz serve) ty sector d)"
    using s assms(1) by (simp add: vio_request_def vq_ready_def)
qed

definition vq_ok :: "('h \<Rightarrow> u8 list) \<Rightarrow> u64 \<Rightarrow> 'h vqhw vioblk \<Rightarrow> bool" where
  "vq_ok contents dev d \<longleftrightarrow> vq_ready dev d \<and> vb_wf contents (vb_map disk d)"

lemma vq_serve_sim:
  assumes "virtio_ok serve contents"
  shows "serve_sim (vq_serve dev blkbuf 512 serve) serve disk (vq_ok contents dev)"
proof
  fix d :: "'a vqhw vioblk" and ty
  assume ok: "vq_ok contents dev d" and pos: "vb_pos d < vb_size d" and ty: "ty = VIRTIO_BLK_T_IN \<or> ty = VIRTIO_BLK_T_OUT"
  have d: "vq_ready dev d" "vb_wf contents (vb_map disk d)" "length (vb_blkbuf d) = unat (512 :: u32)"
    using ok by (simp_all add: vq_ok_def vb_wf_def)
  note rq = vq_request [OF d(1,3), where serve = serve and ty = ty and sector = "sector_index d" and blkbuf = blkbuf]
  show "vio_request serve ty (sector_index d) (vb_map disk d) = vb_map disk (vio_request (vq_serve dev blkbuf 512 serve) ty (sector_index d) d)"
    by (rule rq(1))
  have len: "unat (vb_pos (vb_map disk d)) < length (vb_data contents (vb_map disk d))"
    using d(2) pos by (auto simp: vb_wf_def word_less_nat_alt unat_of_nat)
  have "vb_wf contents (vio_request serve ty (sector_index d) (vb_map disk d))"
    using ty vio_request_in(1) [OF assms d(2) len] vio_request_out(1) [OF assms d(2) len] by auto
  then show "vq_ok contents dev (vio_request (vq_serve dev blkbuf 512 serve) ty (sector_index d) d)"
    using rq by (simp add: vq_ok_def)
qed (simp_all add: vq_ok_def vq_ready_def vb_wf_def vb_data_def)

interpretation dq: serve_sim "vq_serve dev blkbuf 512 serve_disk" serve_disk disk "vq_ok (\<lambda>hw. hw) dev"
  by (rule vq_serve_sim [OF serve_disk_ok])

text \<open>Opening an attached device makes the queue ready.\<close>

definition vioblk_open_vq :: "u32 \<Rightarrow> 'h vqhw vioblk \<Rightarrow> (int \<times> 'h vqhw vioblk) res" where
  "vioblk_open_vq qn d =
     bind_res (vioblk_open qn d) (\<lambda>(r, d).
       Inr (r, if r = 0 then d\<lparr>vb_hw := (vb_hw d)\<lparr>vq := vq_open (vq (vb_hw d))\<rparr>\<rparr> else d))"

definition vioblk_attach_vq :: "u64 \<Rightarrow> u64 \<Rightarrow> u8 list \<Rightarrow> virtio_regs \<Rightarrow> 'h \<Rightarrow> 'h vqhw vioblk" where
  "vioblk_attach_vq dev capacity blkbuf regs hw =
     vioblk_attach_dev 512 capacity blkbuf (desc_at dev 0, dev + 96, dev + 88) regs
       \<lparr>vq = vq_attach dev 512, seen = 0, stuck = False, disk = hw\<rparr>"

lemma vq_open_ok:
  assumes "length blkbuf = 512" "512 * unat capacity = length (contents hw)" "length (contents hw) < 2 ^ 41"
  shows "\<exists>d. vioblk_open_vq qn (vioblk_attach_vq dev capacity blkbuf regs hw) = Inr (0, d) \<and> vq_ok contents dev d \<and>
    \<not> vb_lock d \<and> vb_pos d = 0 \<and> disk (vb_hw d) = hw"
proof -
  have "512 dvd length (contents hw)" using assms(2) [symmetric] by simp
  moreover have "capacity * 512 = of_nat (length (contents hw))"
    by (simp add: assms(2) [symmetric] mult.commute)
  ultimately show ?thesis using assms
    by (simp add: vioblk_open_vq_def vioblk_attach_vq_def vioblk_attach_dev_def vioblk_open_def vb_acquire_def vb_release_def
        Let_def vq_ok_def vq_ready_def vq_idle_def vq_attach_def vq_open_def vb_wf_def vb_data_def vb_map_def)
qed


section \<open>Waiting for the device\<close>

text \<open>
  Behind the notification the driver disables interrupts and waits. \<open>isr_first\<close> says that the
  device has finished before that; its interrupt is then taken between the two, when the driver is not
  yet among the waiting threads, if interrupts are enabled. Otherwise it is taken when the thread that
  runs next has them enabled.
\<close>

definition vioblk_wait :: "bool \<Rightarrow> cptr \<Rightarrow> 'a ts_scheme \<Rightarrow> 'a ts_scheme res option" where
  "vioblk_wait isr_first used_updated st =
     (if isr_first \<and> sie st then
        bind_opt (vioblk_isr used_updated 1 st) (\<lambda>(_, st). Some (condition_wait used_updated (snd (intr_disable st))))
      else
        bind_opt (Some (condition_wait used_updated (snd (intr_disable st)))) (\<lambda>st.
        bind_opt (vioblk_isr used_updated 1 st) (\<lambda>(_, st). Some (Inr st))))"

section \<open>Correctness properties\<close>

text \<open>
  C23. The queue carries every request: on a device that serves its queue as the VirtIO standard says
  and takes indirect descriptors, reading and writing through the descriptors and rings return the same values, and leave the
  same driver and the same disk, as reading and writing on a device that is handed the requests
  themselves; the device never waits for a request or refuses one, and the queue is ready for
  the next request, for any number of requests, also when the 16-bit indices of the rings wrap around.
\<close>

theorem vioblk_queue_refines:
  assumes "virtio_ok serve contents" and "vq_ok contents dev d"
  shows "vioblk_read serve n (vb_map disk d) =
      map_sum id (map_prod id (map_prod id (vb_map disk))) (vioblk_read (vq_serve dev blkbuf 512 serve) n d) \<and>
    vioblk_write serve bs (vb_map disk d) =
      map_sum id (map_prod id (vb_map disk)) (vioblk_write (vq_serve dev blkbuf 512 serve) bs d) \<and>
    (\<forall>r buf d'. vioblk_read (vq_serve dev blkbuf 512 serve) n d = Inr (r, buf, d') \<longrightarrow> vq_ok contents dev d') \<and>
    (\<forall>r d'. vioblk_write (vq_serve dev blkbuf 512 serve) bs d = Inr (r, d') \<longrightarrow> vq_ok contents dev d')"
  using serve_sim.read_sim [OF vq_serve_sim [OF assms(1)] assms(2)] serve_sim.write_sim [OF vq_serve_sim [OF assms(1)] assms(2)]
  by blast

theorem vioblk_queue_refines_witness:
  "\<exists>d d' :: u8 list vqhw vioblk.
     vioblk_open_vq 0 (vioblk_attach_vq 0x80030000 2 (replicate 512 0) zero_regs (replicate 1024 7)) = Inr (0, d) \<and>
     vioblk_read (vq_serve 0x80030000 0x80031000 512 serve_disk) 4 d = Inr (4, [7, 7, 7, 7], d') \<and> vq_ok (\<lambda>hw. hw) 0x80030000 d'"
proof -
  obtain d :: "u8 list vqhw vioblk" where d: "vioblk_open_vq 0 (vioblk_attach_vq 0x80030000 2 (replicate 512 0) zero_regs (replicate 1024 7)) = Inr (0, d)"
    "vq_ok (\<lambda>hw. hw) 0x80030000 d" "\<not> vb_lock d" "vb_pos d = 0" "disk (vb_hw d) = replicate 1024 7"
    using vq_open_ok [of "replicate 512 0" 2 "\<lambda>hw. hw" "replicate 1024 7" 0 "0x80030000" zero_regs] by auto
  note q = vioblk_queue_refines [OF serve_disk_ok d(2), of 4 "0x80031000" "[]"]
  obtain e where "vioblk_read serve_disk 4 (vb_map disk d) = Inr (4, take 4 (drop 0 (replicate 1024 7)), e)"
    using vbd.read_ok [of "vb_map disk d" 4] d(2-5) by (auto simp: vq_ok_def vb_data_def call_read_def vioblk_io_ops_def)
  then obtain d' where "vioblk_read (vq_serve 0x80030000 0x80031000 512 serve_disk) 4 d = Inr (4, [7, 7, 7, 7], d')"
    using q by (cases "vioblk_read (vq_serve 0x80030000 0x80031000 512 serve_disk) 4 d") (auto simp: numeral_eq_Suc)
  with d(1) q show ?thesis by blast
qed

text \<open>
  C39. A wake-up can be lost: the driver notifies the device before it disables interrupts, and if
  interrupts are enabled and the interrupt comes in between, the routine finds no one waiting, and the driver then waits for an
  interrupt that has already been handled, while another thread runs. If the interrupt comes after the driver
  has started to wait, the driver is made ready.
\<close>

theorem vioblk_wakeup_lost:
  assumes "sched_inv st (n # rs) ws" and "ws c = []"
  shows "(sie st \<longrightarrow>
      (\<exists>st1. vioblk_wait True c st = Some (Inr st1) \<and> sched_inv st1 rs (ws(c := [curthr st])) \<and> curthr st1 = n)) \<and>
    (\<exists>st2. vioblk_wait False c st = Some (Inr st2) \<and> sched_inv st2 (rs @ [curthr st]) ws \<and> curthr st2 = n)"
proof -
  have dis: "sched_inv (snd (intr_disable s)) rs ws \<longleftrightarrow> sched_inv s rs ws" "curthr (snd (intr_disable s)) = curthr s" for s :: "'a ts_scheme" and rs ws
    by (simp_all add: sched_inv_def intr_disable_def)
  have ws: "ws(c := []) = ws" using assms(2) by auto
  obtain s where s: "condition_broadcast c st = Some (Inr s)" "sched_inv s (n # rs) ws" "curthr s = curthr st"
    using condition_broadcast_ok [OF assms(1), of c] assms(2) ws by auto
  obtain st1 where 1: "condition_wait c (snd (intr_disable s)) = Inr st1" "curthr st1 = n" "sched_inv st1 rs (ws(c := [curthr st]))"
    using condition_wait_ok [of "snd (intr_disable s)" n rs ws c] s assms(2) by (auto simp: dis)
  obtain s' where 2: "condition_wait c (snd (intr_disable st)) = Inr s'" "curthr s' = n" "sched_inv s' rs (ws(c := [curthr st]))"
    using condition_wait_ok [of "snd (intr_disable st)" n rs ws c] assms by (auto simp: dis)
  obtain st2 where 3: "condition_broadcast c s' = Some (Inr st2)" "curthr st2 = n" "sched_inv st2 (rs @ [curthr st]) ws"
    using condition_broadcast_ok [OF 2(3), of c] 2(2) ws by auto
  show ?thesis using s 1 2 3 by (simp add: vioblk_wait_def vioblk_isr_def)
qed

theorem vioblk_wakeup_lost_witness:
  "\<exists>(st :: ts) st1 st2. curthr st = MainThread \<and> sie st \<and> vioblk_wait True (DevCond 0) st = Some (Inr st1) \<and>
     sched_inv st1 [] ((\<lambda>_. [])(DevCond 0 := [MainThread])) \<and>
     vioblk_wait False (DevCond 0) st = Some (Inr st2) \<and> sched_inv st2 [MainThread] (\<lambda>_. [])"
proof -
  obtain st where "demo_thr st" using demo_thr_exists by blast
  then have s: "sched_inv (st\<lparr>sie := True\<rparr>) [IdleThread] (\<lambda>_. [])" "curthr st = MainThread" by (auto simp: demo_thr_def sched_inv_def)
  from vioblk_wakeup_lost [OF s(1), of "DevCond 0"] s(2) show ?thesis by (rule_tac exI [of _ "st\<lparr>sie := True\<rparr>"]) auto
qed

end
