(* ===== verification/Kfs.thy ===== *)
theory Kfs
  imports Vioblk
begin

text \<open>
  The file system: \<open>kern/kfs.c\<close> with the structures of \<open>kern/kfs.h\<close>. A disk is a boot block with
  the directory, one block per inode, and data blocks. The structures are packed, so the model
  keeps the boot block, the current inode and the current data block as the 4096 bytes they
  occupy, and reads their members at their offsets.

  The block device is a set of operations \<open>blk\<close> on a state \<open>'d\<close>. Offsets on the disk are computed
  with the widths of the code (32 bits in reading and writing, 64 bits in opening). A call that
  finds \<open>fs_lock\<close> held is \<open>Blocked\<close>.
\<close>

section \<open>State\<close>

definition FS_BLKSZ :: nat where "FS_BLKSZ = 4096"
definition FS_NAMELEN :: nat where "FS_NAMELEN = 32"
definition FS_MAXOPEN :: nat where "FS_MAXOPEN = 32"

record file_struct =
  f_refcnt :: u32
  file_position :: u64
  file_size :: u64
  inode_number :: u64
  f_flags :: u64

record 'd fs =
  vioblk_io :: 'd
  fs_initialized :: bool
  boot_block :: "u8 list"
  file_structs :: "file_struct list"
  fs_inode :: "u8 list"
  data_block :: "u8 list"
  fs_lock :: bool

text \<open>Members of \<open>boot_block_t\<close>, \<open>dentry_t\<close> and \<open>inode_t\<close>.\<close>

definition num_dentry :: "u8 list \<Rightarrow> u32" where "num_dentry b = le32 b 0"
definition num_inodes :: "u8 list \<Rightarrow> u32" where "num_inodes b = le32 b 4"

definition dentry_name :: "u8 list \<Rightarrow> nat \<Rightarrow> u8 list" where
  "dentry_name b i = take FS_NAMELEN (drop (64 + 64 * i) b)"

definition dentry_inode :: "u8 list \<Rightarrow> nat \<Rightarrow> u32" where
  "dentry_inode b i = le32 b (64 + 64 * i + FS_NAMELEN)"

definition byte_len :: "u8 list \<Rightarrow> u32" where "byte_len b = le32 b 0"

definition data_block_num :: "u8 list \<Rightarrow> nat \<Rightarrow> u32" where
  "data_block_num b j = le32 b (4 + 4 * j)"

definition zero_file :: file_struct where
  "zero_file = \<lparr>f_refcnt = 0, file_position = 0, file_size = 0, inode_number = 0, f_flags = 0\<rparr>"

section \<open>Operations\<close>

definition fs_acquire :: "'d fs \<Rightarrow> 'd fs res" where
  "fs_acquire fs = (if fs_lock fs then Inl Blocked else Inr (fs\<lparr>fs_lock := True\<rparr>))"

definition fs_release :: "'d fs \<Rightarrow> 'd fs" where
  "fs_release fs = fs\<lparr>fs_lock := False\<rparr>"

text \<open>
  The lock is acquired before \<open>body\<close> and released on every return of it.
\<close>

definition with_lock :: "('d fs \<Rightarrow> ('a \<times> 'd fs) res) \<Rightarrow> 'd fs \<Rightarrow> ('a \<times> 'd fs) res" where
  "with_lock body fs = bind_res (fs_acquire fs) (\<lambda>fs. bind_res (body fs) (\<lambda>(r, fs). Inr (r, fs_release fs)))"

definition fs_mount :: "'d io_ops \<Rightarrow> 'd \<Rightarrow> 'd fs \<Rightarrow> (int \<times> 'd fs) res" where
  "fs_mount blk dev fs =
     (let fs = fs\<lparr>fs_lock := False, vioblk_io := dev\<rparr> in
      if fs_initialized fs then Inr (- 1, fs)
      else
        bind_res (call_ctl blk IOCTL_SETPOS 0 (vioblk_io fs)) (\<lambda>(r, _, d).
          let fs = fs\<lparr>vioblk_io := d\<rparr> in
          if r \<noteq> 0 then Inr (- 1, fs)
          else
            bind_res (ioread blk FS_BLKSZ (vioblk_io fs)) (\<lambda>(n, bs, d).
              let fs = fs\<lparr>vioblk_io := d, boot_block := put_at 0 bs (boot_block fs)\<rparr> in
              if n < 0 then Inr (- 1, fs)
              else Inr (0, fs\<lparr>fs_initialized := True, file_structs := replicate FS_MAXOPEN zero_file\<rparr>))))"

text \<open>The first slot that is not in use.\<close>

fun find_file_slot :: "file_struct list \<Rightarrow> nat \<Rightarrow> nat option" where
  "find_file_slot [] i = None"
| "find_file_slot (f # fs) i = (if f_flags f = 0 then Some i else find_file_slot fs (i + 1))"

text \<open>
  The search of the directory from entry \<open>i\<close> on, with \<open>left\<close> entries to go. The name of an entry
  is copied to a buffer of 33 characters that ends in NUL. An index past the 63 entries of the
  boot block is out of bounds.
\<close>

fun find_dentry :: "u8 list \<Rightarrow> string \<Rightarrow> nat \<Rightarrow> nat \<Rightarrow> nat option res" where
  "find_dentry b name i 0 = Inr None"
| "find_dentry b name i (Suc left) =
     (if 63 \<le> i then Inl UndefinedAccess
      else
        bind_res (strncpy (replicate 33 NUL) (map (\<lambda>c. char_of (unat c)) (dentry_name b i)) 32) (\<lambda>fname.
        bind_res (strncmp (name @ [NUL]) (fname[32 := NUL]) 32) (\<lambda>c.
          if c = 0 then Inr (Some i) else find_dentry b name (i + 1) left)))"

text \<open>\<open>fs_open\<close>; the result on success is the slot whose interface \<open>ioptr\<close> receives.\<close>

definition fs_open_body :: "'d io_ops \<Rightarrow> string \<Rightarrow> 'd fs \<Rightarrow> ((int \<times> nat option) \<times> 'd fs) res" where
  "fs_open_body blk name fs =
     (if \<not> fs_initialized fs then Inr ((- 1, None), fs)
      else
        (case find_file_slot (file_structs fs) 0 of
           None \<Rightarrow> Inr ((- 1, None), fs)
         | Some k \<Rightarrow>
             bind_res (find_dentry (boot_block fs) name 0 (unat (num_dentry (boot_block fs)))) (\<lambda>de.
               case de of
                 None \<Rightarrow> Inr ((- 1, None), fs)
               | Some i \<Rightarrow>
                   let ino = ucast (dentry_inode (boot_block fs) i) :: u64;
                       file = (file_structs fs ! k)\<lparr>file_position := 0, inode_number := ino\<rparr>;
                       fs = fs\<lparr>file_structs := (file_structs fs)[k := file]\<rparr>
                   in bind_res (call_ctl blk IOCTL_SETPOS (4096 + ino * 4096) (vioblk_io fs)) (\<lambda>(r, _, d).
                        let fs = fs\<lparr>vioblk_io := d\<rparr> in
                        if r \<noteq> 0 then Inr ((- 1, None), fs)
                        else
                          bind_res (call_read blk 4096 (vioblk_io fs)) (\<lambda>(n, bs, d).
                            let fs = fs\<lparr>vioblk_io := d, fs_inode := put_at 0 bs (fs_inode fs)\<rparr> in
                            if n \<noteq> 4096 then Inr ((- 1, None), fs)
                            else
                              let file = file\<lparr>file_size := ucast (byte_len (fs_inode fs)), f_flags := 1, f_refcnt := 1\<rparr>
                              in Inr ((0, Some k), fs\<lparr>file_structs := (file_structs fs)[k := file]\<rparr>))))))"

definition fs_open :: "'d io_ops \<Rightarrow> string \<Rightarrow> 'd fs \<Rightarrow> ((int \<times> nat option) \<times> 'd fs) res" where
  "fs_open blk name = with_lock (fs_open_body blk name)"

definition fs_close :: "nat \<Rightarrow> 'd fs \<Rightarrow> 'd fs" where
  "fs_close k fs =
     (if k < FS_MAXOPEN
      then fs\<lparr>file_structs := (file_structs fs)[k := (file_structs fs ! k)\<lparr>f_flags := 0\<rparr>]\<rparr> else fs)"

text \<open>Offsets on the disk, in 32-bit arithmetic.\<close>

definition inode_offset :: "u64 \<Rightarrow> u64" where
  "inode_offset ino = ucast (4096 + (ucast ino :: u32) * 4096 :: u32)"

definition data_offset :: "u32 \<Rightarrow> u32 \<Rightarrow> u32 \<Rightarrow> u64" where
  "data_offset ninodes num off = ucast (4096 + ninodes * 4096 + num * 4096 + off :: u32)"

text \<open>
  The loop of \<open>fs_read\<close>: the result is 0 or an error code, the position reached and the bytes
  copied so far.
\<close>

function fs_read_loop ::
    "'d io_ops \<Rightarrow> nat \<Rightarrow> u64 \<Rightarrow> u8 list \<Rightarrow> 'd fs \<Rightarrow> (int \<times> u64 \<times> u8 list \<times> 'd fs) res" where
  "fs_read_loop blk n pos out fs =
     (if 0 < n then
        let bi = unat (ucast (pos div 4096) :: u32); bo = unat (ucast (pos mod 4096) :: u32) in
        if 4096 \<le> bi then Inr (0, pos, out, fs)
        else if 1023 \<le> bi then Inl UndefinedAccess
        else
          let off = data_offset (num_inodes (boot_block fs)) (data_block_num (fs_inode fs) bi) 0 in
          (case call_ctl blk IOCTL_SETPOS off (vioblk_io fs) of
             Inl e \<Rightarrow> Inl e
           | Inr (r, _, d) \<Rightarrow>
               if r \<noteq> 0 then Inr (- 1, pos, out, fs\<lparr>vioblk_io := d\<rparr>)
               else
                 (case call_read blk 4096 d of
                    Inl e \<Rightarrow> Inl e
                  | Inr (cnt, bs, d) \<Rightarrow>
                      let fs = fs\<lparr>vioblk_io := d, data_block := put_at 0 bs (data_block fs)\<rparr>;
                          this = min n (4096 - bo)
                      in if cnt \<noteq> 4096 then Inr (- 1, pos, out, fs)
                         else fs_read_loop blk (n - this) (pos + of_nat this)
                                (out @ take this (drop bo (data_block fs))) fs))
      else Inr (0, pos, out, fs))"
  by pat_completeness auto

lemma block_offset_less: "unat (ucast ((pos :: u64) mod 4096) :: u32) < 4096"
proof -
  have "unat (ucast (pos mod 4096) :: u32) \<le> unat (pos mod 4096)" by (simp add: unsigned_ucast_eq)
  also have "\<dots> < 4096" by (simp add: unat_mod)
  finally show ?thesis .
qed

termination fs_read_loop
  by (relation "measure (\<lambda>(_, n, _). n)") (auto simp: block_offset_less)

text \<open>Reading the inode of an open file into \<open>inode\<close>; the result says whether it worked.\<close>

definition fs_load_inode :: "'d io_ops \<Rightarrow> u64 \<Rightarrow> int \<Rightarrow> int \<Rightarrow> 'd fs \<Rightarrow> (int \<times> 'd fs) res" where
  "fs_load_inode blk ino seek_err read_err fs =
     bind_res (call_ctl blk IOCTL_SETPOS (inode_offset ino) (vioblk_io fs)) (\<lambda>(r, _, d).
       let fs = fs\<lparr>vioblk_io := d\<rparr> in
       if r \<noteq> 0 then Inr (seek_err, fs)
       else
         bind_res (call_read blk 4096 (vioblk_io fs)) (\<lambda>(n, bs, d).
           Inr (if n \<noteq> 4096 then read_err else 0,
                fs\<lparr>vioblk_io := d, fs_inode := put_at 0 bs (fs_inode fs)\<rparr>)))"

text \<open>The number of bytes to transfer, cut at the end of the file; the sum may wrap.\<close>

definition clip_count :: "file_struct \<Rightarrow> nat \<Rightarrow> nat" where
  "clip_count file n =
     (if file_size file < file_position file + of_nat n then unat (file_size file - file_position file) else n)"

definition fs_read_body :: "'d io_ops \<Rightarrow> nat \<Rightarrow> nat \<Rightarrow> 'd fs \<Rightarrow> ((int \<times> u8 list) \<times> 'd fs) res" where
  "fs_read_body blk k n fs =
     (if length (file_structs fs) \<le> k then Inl UndefinedAccess
      else
        let file = file_structs fs ! k in
        if f_flags file = 0 then Inr ((- 1, []), fs)
        else if \<not> fs_initialized fs then Inr ((- 1, []), fs)
        else if file_size file \<le> file_position file then Inr ((0, []), fs)
        else
          bind_res (fs_load_inode blk (inode_number file) (- 1) (- 1) fs) (\<lambda>(r, fs).
            if r \<noteq> 0 then Inr ((r, []), fs)
            else
              bind_res (fs_read_loop blk (clip_count file n) (file_position file) [] fs) (\<lambda>(e, pos, out, fs).
                if e \<noteq> 0 then Inr ((e, out), fs)
                else Inr ((int (length out), out),
                          fs\<lparr>file_structs := (file_structs fs)[k := file\<lparr>file_position := pos\<rparr>]\<rparr>))))"

definition fs_read :: "'d io_ops \<Rightarrow> nat \<Rightarrow> 'd fs read_fn" where
  "fs_read blk k n fs =
     bind_res (with_lock (fs_read_body blk k n) fs) (\<lambda>((r, out), fs). Inr (r, out, fs))"

text \<open>The loop of \<open>fs_write\<close>, over the bytes still to write.\<close>

function fs_write_loop :: "'d io_ops \<Rightarrow> u8 list \<Rightarrow> u64 \<Rightarrow> nat \<Rightarrow> 'd fs \<Rightarrow> (int \<times> u64 \<times> nat \<times> 'd fs) res" where
  "fs_write_loop blk bs pos done fs =
     (if bs \<noteq> [] then
        let bi = unat (ucast (pos div 4096) :: u32); bo = unat (ucast (pos mod 4096) :: u32) in
        if 4096 \<le> bi then Inr (0, pos, done, fs)
        else if 1023 \<le> bi then Inl UndefinedAccess
        else
          let off = data_offset (num_inodes (boot_block fs)) (data_block_num (fs_inode fs) bi) (of_nat bo) in
          (case call_ctl blk IOCTL_SETPOS off (vioblk_io fs) of
             Inl e \<Rightarrow> Inl e
           | Inr (r, _, d) \<Rightarrow>
               if r \<noteq> 0 then Inr (- 6, pos, done, fs\<lparr>vioblk_io := d\<rparr>)
               else
                 let this = min (length bs) (4096 - bo);
                     fs = fs\<lparr>data_block := put_at 0 (take this bs) (data_block fs)\<rparr>
                 in case call_write blk (take this (data_block fs)) d of
                      Inl e \<Rightarrow> Inl e
                    | Inr (cnt, d) \<Rightarrow>
                        if cnt \<noteq> int this then Inr (- 7, pos, done, fs\<lparr>vioblk_io := d\<rparr>)
                        else fs_write_loop blk (drop this bs) (pos + of_nat this) (done + this)
                               (fs\<lparr>vioblk_io := d\<rparr>))
      else Inr (0, pos, done, fs))"
  by pat_completeness auto
termination
  by (relation "measure (\<lambda>(_, bs, _). length bs)") (auto simp: block_offset_less)

declare fs_read_loop.simps [simp del] fs_write_loop.simps [simp del]

definition fs_write_body :: "'d io_ops \<Rightarrow> nat \<Rightarrow> u8 list \<Rightarrow> 'd fs \<Rightarrow> (int \<times> 'd fs) res" where
  "fs_write_body blk k buf fs =
     (if length (file_structs fs) \<le> k then Inl UndefinedAccess
      else
        let file = file_structs fs ! k in
        if f_flags file = 0 then Inr (- 2, fs)
        else if \<not> fs_initialized fs then Inr (- 3, fs)
        else if file_size file \<le> file_position file then Inr (0, fs)
        else
          bind_res (fs_load_inode blk (inode_number file) (- 1) (- 5) fs) (\<lambda>(r, fs).
            if r \<noteq> 0 then Inr (r, fs)
            else
              bind_res (fs_write_loop blk (take (clip_count file (length buf)) buf) (file_position file) 0 fs)
                (\<lambda>(e, pos, done, fs).
                  if e \<noteq> 0 then Inr (e, fs)
                  else Inr (int done, fs\<lparr>file_structs := (file_structs fs)[k := file\<lparr>file_position := pos\<rparr>]\<rparr>))))"

definition fs_write :: "'d io_ops \<Rightarrow> nat \<Rightarrow> 'd fs write_fn" where
  "fs_write blk k buf fs = with_lock (fs_write_body blk k buf) fs"

definition fs_getlen :: "file_struct \<Rightarrow> u64" where "fs_getlen fd = file_size fd"
definition fs_getpos :: "file_struct \<Rightarrow> u64" where "fs_getpos fd = file_position fd"

definition fs_setpos :: "u64 \<Rightarrow> file_struct \<Rightarrow> int \<times> file_struct" where
  "fs_setpos new_pos fd =
     (if file_size fd < new_pos then (- 1, fd) else (0, fd\<lparr>file_position := new_pos\<rparr>))"

definition fs_getblksz :: "file_struct \<Rightarrow> u64" where "fs_getblksz fd = 4096"

text \<open>\<open>fs_ioctl\<close>: an unknown command returns without releasing the lock.\<close>

definition fs_ioctl :: "nat \<Rightarrow> 'd fs ctl_fn" where
  "fs_ioctl k cmd arg fs =
     bind_res (fs_acquire fs) (\<lambda>fs.
       if length (file_structs fs) \<le> k then Inl UndefinedAccess
       else
         let file = file_structs fs ! k in
         if f_flags file = 0 then Inr (- 1, arg, fs_release fs)
         else if cmd = IOCTL_GETLEN then Inr (0, fs_getlen file, fs_release fs)
         else if cmd = IOCTL_GETPOS then Inr (0, fs_getpos file, fs_release fs)
         else if cmd = IOCTL_SETPOS then
           (let (r, file) = fs_setpos arg file
            in Inr (r, arg, fs_release (fs\<lparr>file_structs := (file_structs fs)[k := file]\<rparr>)))
         else if cmd = IOCTL_GETBLKSZ then Inr (0, fs_getblksz file, fs_release fs)
         else Inr (- ENOTSUP, arg, fs))"

definition fs_io_ops :: "'d io_ops \<Rightarrow> nat \<Rightarrow> 'd fs io_ops" where
  "fs_io_ops blk k = \<lparr>op_close = Some (\<lambda>fs. Inr (fs_close k fs)), op_read = Some (fs_read blk k),
     op_write = Some (fs_write blk k), op_ctl = Some (fs_ioctl k)\<rparr>"

section \<open>Files on a disk\<close>

text \<open>
  The contents of a file, read off the disk: the data blocks its inode lists, in order, cut to its
  length. \<open>ni\<close> is the number of inodes and \<open>ino\<close> the number of the file's inode.
\<close>

definition disk_block :: "u8 list \<Rightarrow> nat \<Rightarrow> u8 list" where
  "disk_block D k = take 4096 (drop (4096 * k) D)"

definition nblocks :: "nat \<Rightarrow> nat" where
  "nblocks sz = (sz + 4095) div 4096"

definition block_no :: "u8 list \<Rightarrow> nat \<Rightarrow> nat \<Rightarrow> nat \<Rightarrow> nat" where
  "block_no D ni ino j = 1 + ni + unat (data_block_num (disk_block D (1 + ino)) j)"

definition file_blocks :: "u8 list \<Rightarrow> nat \<Rightarrow> nat \<Rightarrow> nat \<Rightarrow> u8 list list" where
  "file_blocks D ni ino nb = map (\<lambda>j. disk_block D (block_no D ni ino j)) [0..<nb]"

definition file_data :: "u8 list \<Rightarrow> nat \<Rightarrow> nat \<Rightarrow> nat \<Rightarrow> u8 list" where
  "file_data D ni ino sz = take sz (concat (file_blocks D ni ino (nblocks sz)))"

text \<open>A file whose blocks all lie on the disk, on a disk that 32-bit offsets reach.\<close>

definition file_ok :: "u8 list \<Rightarrow> nat \<Rightarrow> nat \<Rightarrow> nat \<Rightarrow> bool" where
  "file_ok D ni ino sz \<longleftrightarrow> length D < 2 ^ 32 \<and> 4096 * (2 + ino) \<le> length D \<and> sz \<le> 4096 * 1023 \<and>
     (\<forall>j < nblocks sz. 4096 * (1 + block_no D ni ino j) \<le> length D)"

lemma length_disk_block: "4096 * (1 + k) \<le> length D \<Longrightarrow> length (disk_block D k) = 4096"
  by (simp add: disk_block_def)

lemma nblocks_bound: "pos < sz \<Longrightarrow> pos div 4096 < nblocks sz"
proof -
  assume "pos < sz"
  then have "(pos + 4096) div 4096 \<le> nblocks sz" unfolding nblocks_def by (intro div_le_mono) simp
  then show ?thesis by simp
qed

lemma nblocks_size: "sz \<le> 4096 * nblocks sz"
  unfolding nblocks_def by (simp add: minus_mod_eq_mult_div [symmetric])

lemma file_blocks_ok:
  assumes "file_ok D ni ino sz"
  shows "blocks_of 4096 (file_blocks D ni ino (nblocks sz))" "length (file_blocks D ni ino nb) = nb"
    "j < nb \<Longrightarrow> file_blocks D ni ino nb ! j = disk_block D (block_no D ni ino j)"
    "length (file_data D ni ino sz) = sz"
proof -
  show b: "blocks_of 4096 (file_blocks D ni ino (nblocks sz))"
    using assms length_disk_block by (auto simp: blocks_of_def file_blocks_def file_ok_def)
  show l: "length (file_blocks D ni ino nb) = nb" for nb by (simp add: file_blocks_def)
  show "j < nb \<Longrightarrow> file_blocks D ni ino nb ! j = disk_block D (block_no D ni ino j)"
    by (simp add: file_blocks_def)
  show "length (file_data D ni ino sz) = sz"
    using length_concat_blocks [OF b] l nblocks_size [of sz] by (simp add: file_data_def)
qed

lemma data_offset_unat:
  assumes "4096 * (2 + unat ni + unat num) < 2 ^ 32" and "unat off < 4096"
  shows "unat (data_offset ni num off) = 4096 * (1 + unat ni + unat num) + unat off"
proof -
  have "4096 * (1 + unat ni + unat num) + unat off < 2 ^ 32" using assms by simp
  moreover have "4096 + ni * 4096 + num * 4096 + off = of_nat (4096 * (1 + unat ni + unat num) + unat off)"
    by (simp add: algebra_simps)
  ultimately have "unat (4096 + ni * 4096 + num * 4096 + off) = 4096 * (1 + unat ni + unat num) + unat off"
    by (simp add: unat_of_nat del: of_nat_add of_nat_mult of_nat_Suc)
  then show ?thesis using \<open>4096 * (1 + unat ni + unat num) + unat off < 2 ^ 32\<close>
    by (simp add: data_offset_def unsigned_ucast_eq take_bit_nat_eq_self)
qed

lemma inode_offset_unat:
  assumes "4096 * (2 + unat ino) < 2 ^ 32"
  shows "unat (inode_offset ino) = 4096 * (1 + unat ino)"
proof -
  have u: "unat (ucast ino :: u32) = unat ino"
    using assms by (simp add: unsigned_ucast_eq unsigned_take_bit_eq take_bit_nat_eq_self)
  have "4096 + (ucast ino :: u32) * 4096 = of_nat (4096 * (1 + unat (ucast ino :: u32)))"
    by (simp add: algebra_simps)
  then have "unat (4096 + (ucast ino :: u32) * 4096) = 4096 * (1 + unat ino)"
    using assms u by (simp add: unat_of_nat del: of_nat_add of_nat_mult of_nat_Suc)
  then show ?thesis using assms by (simp add: inode_offset_def unsigned_ucast_eq take_bit_nat_eq_self)
qed

lemma pos_split:
  assumes "unat (pos :: u64) < 2 ^ 32"
  shows "unat (ucast (pos div 4096) :: u32) = unat pos div 4096" "unat (ucast (pos mod 4096) :: u32) = unat pos mod 4096"
proof -
  have "unat pos div 4096 < 2 ^ 32" using assms by (rule le_less_trans [OF div_le_dividend])
  then show "unat (ucast (pos div 4096) :: u32) = unat pos div 4096"
    by (simp add: unsigned_ucast_eq unsigned_take_bit_eq unat_div take_bit_nat_eq_self)
  have "unat pos mod 4096 < 2 ^ 32" by (rule less_trans [of _ 4096]) simp_all
  then show "unat (ucast (pos mod 4096) :: u32) = unat pos mod 4096"
    by (simp add: unsigned_ucast_eq unsigned_take_bit_eq unat_mod take_bit_nat_eq_self)
qed

text \<open>
  A file that can be written: its blocks are its own, and its inode is not among them. Writing
  part of one of its blocks changes that part of the file and nothing else on the disk.
\<close>

definition own_blocks :: "u8 list \<Rightarrow> nat \<Rightarrow> nat \<Rightarrow> nat \<Rightarrow> bool" where
  "own_blocks D ni ino sz \<longleftrightarrow> ino < ni \<and> inj_on (block_no D ni ino) {..<nblocks sz}"

lemma disk_block_put:
  assumes "4096 * (1 + k) \<le> length D" and "off + length c \<le> 4096"
  shows "disk_block (put_at (4096 * k + off) c D) b =
    (if b = k then put_at off c (disk_block D k) else disk_block D b)"
proof (cases "b = k")
  case True
  then show ?thesis using block_put_at [of off c 4096 "4096 * k" D] assms by (simp add: disk_block_def)
next
  case False
  then have "4096 * b + 4096 \<le> 4096 * k \<or> 4096 * k + 4096 \<le> 4096 * b" by auto
  then show ?thesis using False put_at_outside [of "4096 * k + off" c D "4096 * b" 4096] assms
    by (auto simp: disk_block_def)
qed

lemma take_put_at: "i + length c \<le> n \<Longrightarrow> n \<le> length xs \<Longrightarrow> take n (put_at i c xs) = put_at i c (take n xs)"
  by (cases "n = i") (auto simp: put_at_def min_def drop_take)

lemma file_write_step:
  assumes fok: "file_ok D ni ino sz" and own: "own_blocks D ni ino sz"
    and c: "p mod 4096 + length c \<le> 4096" "p + length c \<le> sz" "c \<noteq> []"
  defines "k \<equiv> block_no D ni ino (p div 4096)"
  defines "D' \<equiv> put_at (4096 * k + p mod 4096) c D"
  shows "length D' = length D" "disk_block D' (1 + ino) = disk_block D (1 + ino)"
    "file_ok D' ni ino sz" "own_blocks D' ni ino sz"
    "file_data D' ni ino sz = put_at p c (file_data D ni ino sz)"
    "\<forall>b. b \<noteq> k \<longrightarrow> disk_block D' b = disk_block D b"
proof -
  have jn: "p div 4096 < nblocks sz" using c(2,3) by (intro nblocks_bound) (cases c; simp)
  have kD: "4096 * (1 + k) \<le> length D" using fok jn by (simp add: file_ok_def k_def)
  show len: "length D' = length D" using kD c(1) by (simp add: D'_def)
  note blk = disk_block_put [OF kD c(1), folded D'_def]
  show "\<forall>b. b \<noteq> k \<longrightarrow> disk_block D' b = disk_block D b" using blk by simp
  show ino: "disk_block D' (1 + ino) = disk_block D (1 + ino)"
    using blk [of "1 + ino"] own by (simp add: k_def block_no_def own_blocks_def)
  then have bn: "block_no D' ni ino = block_no D ni ino" by (simp add: block_no_def fun_eq_iff)
  show "file_ok D' ni ino sz" "own_blocks D' ni ino sz"
    using fok own len bn by (simp_all add: file_ok_def own_blocks_def)
  note fb = file_blocks_ok [OF fok]
  let ?B = "file_blocks D ni ino (nblocks sz)"
  have "file_blocks D' ni ino (nblocks sz) = ?B[p div 4096 := put_at (p mod 4096) c (?B ! (p div 4096))]"
  proof (rule nth_equalityI)
    show "length (file_blocks D' ni ino (nblocks sz)) =
        length (?B[p div 4096 := put_at (p mod 4096) c (?B ! (p div 4096))])" by (simp add: file_blocks_def)
    fix j assume "j < length (file_blocks D' ni ino (nblocks sz))"
    then have j: "j < nblocks sz" by (simp add: file_blocks_def)
    have "block_no D ni ino j = k \<longleftrightarrow> j = p div 4096"
      using own j jn by (auto simp: own_blocks_def k_def inj_on_eq_iff)
    then show "file_blocks D' ni ino (nblocks sz) ! j = ?B[p div 4096 := put_at (p mod 4096) c (?B ! (p div 4096))] ! j"
      using j jn blk [of "block_no D ni ino j"] by (simp add: file_blocks_def bn nth_list_update k_def)
  qed
  then have "concat (file_blocks D' ni ino (nblocks sz)) = put_at p c (concat ?B)"
    using concat_block_put [OF fb(1), of "p div 4096" "p mod 4096" c] jn fb(2) c(1) by simp
  then show "file_data D' ni ino sz = put_at p c (file_data D ni ino sz)"
    using take_put_at [of p c sz "concat ?B"] c(2) length_concat_blocks [OF fb(1)] fb(2) nblocks_size [of sz]
    by (simp add: file_data_def)
qed

section \<open>Reading and writing over a block device\<close>

text \<open>
  The buffers of the file system have the size of a block, and its copy of the boot block counts
  \<open>ni\<close> inodes.
\<close>

definition fs_bufs :: "nat \<Rightarrow> 'd fs \<Rightarrow> bool" where
  "fs_bufs ni fs \<longleftrightarrow> length (fs_inode fs) = 4096 \<and> length (data_block fs) = 4096 \<and>
     unat (num_inodes (boot_block fs)) = ni"

lemma fs_upd_commute:
  "(fs :: 'd fs)\<lparr>data_block := b, vioblk_io := d\<rparr> = fs\<lparr>vioblk_io := d, data_block := b\<rparr>"
  by simp

lemma put_at_whole: "length bs = length xs \<Longrightarrow> put_at 0 bs xs = bs"
  by (simp add: put_at_def)

context block_device
begin

lemma fs_load_inode_ok:
  assumes "ok (vioblk_io fs)" and "disk (vioblk_io fs) = D" and "length D < 2 ^ 32"
    and "4096 * (2 + unat ino) \<le> length D" and "fs_bufs ni fs"
  shows "\<exists>d. fs_load_inode ops ino e1 e2 fs =
      Inr (0, fs\<lparr>vioblk_io := d, fs_inode := disk_block D (1 + unat ino)\<rparr>) \<and> ok d \<and> disk d = D"
proof -
  have u: "unat (inode_offset ino) = 4096 * (1 + unat ino)" using assms(3,4) by (intro inode_offset_unat) simp
  obtain d1 d2 where r: "call_ctl ops IOCTL_SETPOS (inode_offset ino) (vioblk_io fs) = Inr (0, inode_offset ino, d1)"
    "call_read ops 4096 d1 = Inr (4096, disk_block D (1 + unat ino), d2)" "ok d2" "disk d2 = D"
    using read_at [OF assms(1), of "inode_offset ino" 4096] assms(2,4) u by (auto simp: disk_block_def)
  have "length (disk_block D (1 + unat ino)) = 4096" using assms(4) by (intro length_disk_block) simp
  then show ?thesis
    using r assms(5) by (intro exI [of _ d2]) (simp add: fs_load_inode_def Let_def put_at_whole fs_bufs_def)
qed

lemma fs_read_loop_ok:
  assumes fok: "file_ok D ni ino sz"
    and "ok (vioblk_io fs)" "disk (vioblk_io fs) = D" "fs_bufs ni fs" "fs_inode fs = disk_block D (1 + ino)"
    and "unat pos + n \<le> sz"
  shows "\<exists>d db. fs_read_loop ops n pos out fs =
      Inr (0, pos + of_nat n, out @ take n (drop (unat pos) (file_data D ni ino sz)),
           fs\<lparr>vioblk_io := d, data_block := db\<rparr>) \<and> ok d \<and> disk d = D \<and> length db = 4096"
  using assms(2-)
proof (induction n arbitrary: pos out fs rule: less_induct)
  case (less n)
  let ?p = "unat pos" and ?F = "file_data D ni ino sz"
  show ?case
  proof (cases "0 < n")
    case False
    then show ?thesis
      using less.prems by (subst fs_read_loop.simps)
        (auto simp: fs_bufs_def intro!: exI [of _ "vioblk_io fs"] exI [of _ "data_block fs"])
  next
    case True
    have bounds: "length D < 2 ^ 32" "sz \<le> 4096 * 1023" using fok by (simp_all add: file_ok_def)
    have p32: "?p < 2 ^ 32" using less.prems(5) bounds(2) by simp
    have jn: "?p div 4096 < nblocks sz" using less.prems(5) True by (intro nblocks_bound) simp
    have j1023: "?p div 4096 < 1023" using less.prems(5) bounds(2) True by (simp add: less_mult_imp_div_less)
    let ?k = "block_no D ni ino (?p div 4096)" and ?num = "data_block_num (disk_block D (1 + ino)) (?p div 4096)"
    have kD: "4096 * (1 + ?k) \<le> length D" using fok jn by (simp add: file_ok_def)
    let ?off = "data_offset (num_inodes (boot_block fs)) ?num 0"
    have off: "unat ?off = 4096 * ?k"
    proof -
      have "4096 * (2 + unat (num_inodes (boot_block fs)) + unat ?num) \<le> length D"
        using kD less.prems(3) by (simp add: block_no_def fs_bufs_def)
      then have "4096 * (2 + unat (num_inodes (boot_block fs)) + unat ?num) < 2 ^ 32"
        using bounds(1) by (rule le_less_trans)
      then show ?thesis
        using data_offset_unat [of "num_inodes (boot_block fs)" ?num 0] less.prems(3)
        by (simp add: block_no_def fs_bufs_def)
    qed
    obtain d1 d2 where r: "call_ctl ops IOCTL_SETPOS ?off (vioblk_io fs) = Inr (0, ?off, d1)"
      "call_read ops 4096 d1 = Inr (4096, disk_block D ?k, d2)" "ok d2" "disk d2 = D"
      using read_at [OF less.prems(1), of ?off 4096] off kD less.prems(2) by (auto simp: disk_block_def)
    define this where "this = min n (4096 - ?p mod 4096)"
    have m: "?p mod 4096 < 4096" by simp
    have th: "0 < this" "this \<le> n" "?p mod 4096 + this \<le> 4096" using m True unfolding this_def by linarith+
    have db: "put_at 0 (disk_block D ?k) (data_block fs) = disk_block D ?k"
      using less.prems(3) length_disk_block [OF kD] by (intro put_at_whole) (simp add: fs_bufs_def)
    let ?fs = "fs\<lparr>vioblk_io := d2, data_block := disk_block D ?k\<rparr>"
    have step: "fs_read_loop ops n pos out fs = fs_read_loop ops (n - this) (pos + of_nat this)
        (out @ take this (drop (?p mod 4096) (disk_block D ?k))) ?fs"
      using True pos_split [OF p32] j1023 less.prems(4) r(1,2) db
      by (subst fs_read_loop.simps) (simp add: Let_def this_def)
    note fb = file_blocks_ok [OF fok]
    have data: "take this (drop (?p mod 4096) (disk_block D ?k)) = take this (drop ?p ?F)"
    proof -
      have "take this (drop (?p mod 4096) (disk_block D ?k)) =
          take this (drop (4096 * (?p div 4096) + ?p mod 4096) (concat (file_blocks D ni ino (nblocks sz))))"
        using concat_block_slice [OF fb(1), of "?p div 4096" "?p mod 4096" this] fb(2,3) jn th(3) by simp
      also have "\<dots> = take this (drop ?p ?F)"
        using th(2) less.prems(5) by (simp add: file_data_def drop_take min_def)
      finally show ?thesis .
    qed
    have adv: "unat (pos + of_nat this) = ?p + this"
      using th(2) less.prems(5) bounds(2) by (simp add: unat_word_ariths unat_of_nat)
    have "fs_bufs ni ?fs" using less.prems(3) length_disk_block [OF kD] by (simp add: fs_bufs_def)
    then have "\<exists>d db. fs_read_loop ops (n - this) (pos + of_nat this) (out @ take this (drop ?p ?F)) ?fs =
        Inr (0, (pos + of_nat this) + of_nat (n - this),
          (out @ take this (drop ?p ?F)) @ take (n - this) (drop (unat (pos + of_nat this)) ?F),
          ?fs\<lparr>vioblk_io := d, data_block := db\<rparr>) \<and> ok d \<and> disk d = D \<and> length db = 4096"
      using th True r(3,4) less.prems(4,5) adv by (intro less.IH) simp_all
    moreover have "take this (drop ?p ?F) @ take (n - this) (drop (?p + this) ?F) = take n (drop ?p ?F)"
      using th(2) take_add [of this "n - this" "drop ?p ?F"] by (simp add: add.commute)
    moreover have "pos + of_nat this + of_nat (n - this) = pos + of_nat n"
      using th(2) by (simp add: of_nat_diff)
    ultimately show ?thesis using step data adv by auto
  qed
qed

lemma fs_write_loop_ok:
  assumes "file_ok D ni ino sz" "own_blocks D ni ino sz"
    and "ok (vioblk_io fs)" "disk (vioblk_io fs) = D" "fs_bufs ni fs" "fs_inode fs = disk_block D (1 + ino)"
    and "unat pos + length bs \<le> sz"
  shows "\<exists>d db. fs_write_loop ops bs pos cnt fs =
      Inr (0, pos + of_nat (length bs), cnt + length bs, fs\<lparr>vioblk_io := d, data_block := db\<rparr>) \<and> ok d \<and>
    length db = 4096 \<and> file_ok (disk d) ni ino sz \<and> own_blocks (disk d) ni ino sz \<and>
    file_data (disk d) ni ino sz = put_at (unat pos) bs (file_data D ni ino sz) \<and>
    (\<forall>b. b \<notin> block_no D ni ino ` {..<nblocks sz} \<longrightarrow> disk_block (disk d) b = disk_block D b)"
  using assms
proof (induction "length bs" arbitrary: D pos bs cnt fs rule: less_induct)
  case less
  note fok = less.prems(1)
  let ?p = "unat pos"
  show ?case
  proof (cases "bs = []")
    case True
    then show ?thesis
      using less.prems by (subst fs_write_loop.simps)
        (auto simp: fs_bufs_def intro!: exI [of _ "vioblk_io fs"] exI [of _ "data_block fs"])
  next
    case False
    then have n0: "0 < length bs" by simp
    have bounds: "length D < 2 ^ 32" "sz \<le> 4096 * 1023" using fok by (simp_all add: file_ok_def)
    have p32: "?p < 2 ^ 32" using less.prems(7) bounds(2) by simp
    have jn: "?p div 4096 < nblocks sz" using less.prems(7) n0 by (intro nblocks_bound) linarith
    have "?p < 4096 * 1023" using less.prems(7) bounds(2) n0 by linarith
    then have j1023: "?p div 4096 < 1023" by (simp add: less_mult_imp_div_less)
    let ?k = "block_no D ni ino (?p div 4096)" and ?num = "data_block_num (disk_block D (1 + ino)) (?p div 4096)"
    have kD: "4096 * (1 + ?k) \<le> length D" using fok jn by (simp add: file_ok_def)
    define this where "this = min (length bs) (4096 - ?p mod 4096)"
    have m: "?p mod 4096 < 4096" by simp
    have th: "0 < this" "this \<le> length bs" "?p mod 4096 + this \<le> 4096" using m n0 unfolding this_def by linarith+
    let ?off = "data_offset (num_inodes (boot_block fs)) ?num (of_nat (?p mod 4096))"
    have off: "unat ?off = 4096 * ?k + ?p mod 4096"
    proof -
      have "4096 * (2 + unat (num_inodes (boot_block fs)) + unat ?num) \<le> length D"
        using kD less.prems(5) by (simp add: block_no_def fs_bufs_def)
      then have "4096 * (2 + unat (num_inodes (boot_block fs)) + unat ?num) < 2 ^ 32"
        using bounds(1) by (rule le_less_trans)
      moreover have "unat (of_nat (?p mod 4096) :: u32) = ?p mod 4096"
        using m by (simp add: unat_of_nat less_trans [OF m])
      ultimately show ?thesis
        using data_offset_unat [of "num_inodes (boot_block fs)" ?num "of_nat (?p mod 4096)"] less.prems(5) m
        by (simp add: block_no_def fs_bufs_def)
    qed
    let ?c = "take this bs"
    have lc: "length ?c = this" using th(2) by simp
    obtain d1 d2 where r: "call_ctl ops IOCTL_SETPOS ?off (vioblk_io fs) = Inr (0, ?off, d1)"
      "call_write ops ?c d1 = Inr (int this, d2)" "ok d2" "disk d2 = put_at (4096 * ?k + ?p mod 4096) ?c D"
      using write_at [OF less.prems(3), of ?off ?c] off kD th(3) lc less.prems(4) by auto
    let ?db = "put_at 0 ?c (data_block fs)"
    let ?fs = "fs\<lparr>vioblk_io := d2, data_block := ?db\<rparr>"
    have db: "take this ?db = ?c" "length ?db = 4096"
      using lc th(3) less.prems(5) by (simp_all add: put_at_def fs_bufs_def)
    have step: "fs_write_loop ops bs pos cnt fs =
        fs_write_loop ops (drop this bs) (pos + of_nat this) (cnt + this) ?fs"
      using False pos_split [OF p32] j1023 less.prems(6) r(1,2) db(1) th(2)
      by (subst fs_write_loop.simps) (simp add: Let_def this_def [symmetric] fs_upd_commute)
    have c: "?p mod 4096 + length ?c \<le> 4096" "?p + length ?c \<le> sz" "?c \<noteq> []"
      using th lc less.prems(7) n0 by auto
    note ws = file_write_step [OF fok less.prems(2) c, folded r(4)]
    have adv: "unat (pos + of_nat this) = ?p + this"
      using c(2) lc bounds(2) by (simp add: unat_word_ariths unat_of_nat)
    have "fs_bufs ni ?fs" using less.prems(5) db(2) by (simp add: fs_bufs_def)
    then obtain d db where ih: "fs_write_loop ops (drop this bs) (pos + of_nat this) (cnt + this) ?fs =
        Inr (0, pos + of_nat this + of_nat (length (drop this bs)), cnt + this + length (drop this bs),
          ?fs\<lparr>vioblk_io := d, data_block := db\<rparr>)" "ok d" "length db = 4096"
      "file_ok (disk d) ni ino sz" "own_blocks (disk d) ni ino sz"
      "file_data (disk d) ni ino sz =
        put_at (unat (pos + of_nat this)) (drop this bs) (file_data (disk d2) ni ino sz)"
      "\<forall>b. b \<notin> block_no (disk d2) ni ino ` {..<nblocks sz} \<longrightarrow> disk_block (disk d) b = disk_block (disk d2) b"
      using less.hyps [of "drop this bs" "disk d2" ?fs "pos + of_nat this" "cnt + this"]
        th n0 r(3) less.prems(6,7) adv ws(2,3,4) by auto
    have "put_at (?p + this) (drop this bs) (put_at ?p ?c (file_data D ni ino sz)) =
        put_at ?p bs (file_data D ni ino sz)"
      using put_at_append [of ?p ?c "drop this bs" "file_data D ni ino sz"] lc th(2) less.prems(7)
        file_blocks_ok(4) [OF fok] by simp
    moreover have "pos + of_nat this + of_nat (length (drop this bs)) = pos + of_nat (length bs)"
      using th(2) by (simp add: of_nat_diff)
    moreover have "block_no (disk d2) ni ino = block_no D ni ino"
      using ws(2) by (simp add: block_no_def fun_eq_iff)
    then have "\<forall>b. b \<notin> block_no D ni ino ` {..<nblocks sz} \<longrightarrow> disk_block (disk d) b = disk_block D b"
      using ih(7) ws(6) jn by auto
    ultimately show ?thesis
      using step ih(1-6) ws(5) adv th(2) by (intro exI [of _ d] exI [of _ db]) simp
  qed
qed

end

text \<open>The file behind slot \<open>k\<close> is open, well-formed and on the disk.\<close>

definition fs_disk :: "('d \<Rightarrow> u8 list) \<Rightarrow> 'd fs \<Rightarrow> u8 list" where
  "fs_disk disk fs = disk (vioblk_io fs)"

definition fs_wf :: "('d \<Rightarrow> bool) \<Rightarrow> ('d \<Rightarrow> u8 list) \<Rightarrow> nat \<Rightarrow> 'd fs \<Rightarrow> bool" where
  "fs_wf ok disk k fs \<longleftrightarrow>
     ok (vioblk_io fs) \<and> \<not> fs_lock fs \<and> fs_initialized fs \<and> k < length (file_structs fs) \<and>
     f_flags (file_structs fs ! k) \<noteq> 0 \<and> fs_bufs (unat (num_inodes (boot_block fs))) fs \<and>
     file_ok (fs_disk disk fs) (unat (num_inodes (boot_block fs))) (unat (inode_number (file_structs fs ! k)))
       (unat (file_size (file_structs fs ! k)))"

definition fs_contents :: "('d \<Rightarrow> u8 list) \<Rightarrow> nat \<Rightarrow> 'd fs \<Rightarrow> u8 list" where
  "fs_contents disk k fs = file_data (fs_disk disk fs) (unat (num_inodes (boot_block fs)))
     (unat (inode_number (file_structs fs ! k))) (unat (file_size (file_structs fs ! k)))"

definition fs_at :: "nat \<Rightarrow> 'd fs \<Rightarrow> nat" where
  "fs_at k fs = unat (file_position (file_structs fs ! k))"

definition fs_writable :: "('d \<Rightarrow> bool) \<Rightarrow> ('d \<Rightarrow> u8 list) \<Rightarrow> nat \<Rightarrow> 'd fs \<Rightarrow> bool" where
  "fs_writable ok disk k fs \<longleftrightarrow> fs_wf ok disk k fs \<and>
     own_blocks (fs_disk disk fs) (unat (num_inodes (boot_block fs)))
       (unat (inode_number (file_structs fs ! k))) (unat (file_size (file_structs fs ! k)))"

definition put_byte :: "u8 list \<times> nat \<Rightarrow> u8 \<Rightarrow> u8 list \<times> nat" where
  "put_byte v b = ((fst v)[snd v := b], snd v + 1)"

lemma foldl_put_byte:
  "p + length bs \<le> length c \<Longrightarrow> foldl put_byte (c, p) bs = (put_at p bs c, p + length bs)"
proof (induction bs arbitrary: c p)
  case (Cons b bs)
  have "c[p := b] = put_at p [b] c" using Cons.prems by (simp add: put_at_def upd_conv_take_nth_drop)
  then show ?case
    using Cons put_at_append [of p "[b]" bs c] by (simp add: put_byte_def)
qed (simp add: put_at_def)

lemma clip_count_ok:
  assumes "file_position f < file_size f" and "n < 2 ^ 63" and "unat (file_size f) < 2 ^ 32"
  shows "clip_count f n = min n (unat (file_size f) - unat (file_position f))"
proof -
  have p: "unat (file_position f) < unat (file_size f)" using assms(1) by (simp add: word_less_nat_alt)
  have "unat (file_position f) + n < 2 ^ 64" using p assms(2,3) by simp
  then have "unat (file_position f + of_nat n) = unat (file_position f) + n"
    using assms(2) by (simp add: unat_word_ariths unat_of_nat)
  then show ?thesis
    using p by (auto simp: clip_count_def word_less_nat_alt unat_sub_if_size word_le_nat_alt min_def)
qed

context block_device
begin

lemma fs_read_ok:
  assumes wf: "fs_wf ok disk k fs" and "n < 2 ^ 63"
  shows "\<exists>fs'. fs_read ops k n fs =
      Inr (int (length (take n (drop (fs_at k fs) (fs_contents disk k fs)))),
           take n (drop (fs_at k fs) (fs_contents disk k fs)), fs') \<and>
    fs_wf ok disk k fs' \<and> fs_disk disk fs' = fs_disk disk fs \<and> fs_contents disk k fs' = fs_contents disk k fs \<and>
    fs_at k fs' = fs_at k fs + length (take n (drop (fs_at k fs) (fs_contents disk k fs)))"
proof -
  define f D ni ino sz where "f = file_structs fs ! k" and "D = fs_disk disk fs"
    and "ni = unat (num_inodes (boot_block fs))" and "ino = unat (inode_number f)" and "sz = unat (file_size f)"
  note defs = f_def D_def ni_def ino_def sz_def
  have w: "ok (vioblk_io fs)" "\<not> fs_lock fs" "fs_initialized fs" "k < length (file_structs fs)" "f_flags f \<noteq> 0"
    "fs_bufs ni fs" and fok: "file_ok D ni ino sz"
    using wf by (simp_all add: fs_wf_def defs)
  have F: "fs_contents disk k fs = file_data D ni ino sz" by (simp add: fs_contents_def defs)
  have len: "length (file_data D ni ino sz) = sz" by (rule file_blocks_ok(4) [OF fok])
  have szb: "sz < 2 ^ 32" using fok by (simp add: file_ok_def)
  let ?fs = "fs\<lparr>fs_lock := True\<rparr>"
  show ?thesis
  proof (cases "file_size f \<le> file_position f")
    case True
    then have "sz \<le> unat (file_position f)" by (simp add: sz_def word_le_nat_alt)
    then have e: "drop (fs_at k fs) (fs_contents disk k fs) = []" using F len by (simp add: fs_at_def f_def)
    have "fs_read ops k n fs = Inr (0, [], fs)"
      using True w by (simp add: fs_read_def with_lock_def fs_acquire_def fs_release_def fs_read_body_def f_def)
    then show ?thesis using e wf by simp
  next
    case False
    then have lt: "file_position f < file_size f" by simp
    have m: "clip_count f n = min n (sz - unat (file_position f))"
      using clip_count_ok [OF lt assms(2)] szb by (simp add: sz_def)
    obtain d where i: "fs_load_inode ops (inode_number f) (- 1) (- 1) ?fs =
        Inr (0, ?fs\<lparr>vioblk_io := d, fs_inode := disk_block D (1 + ino)\<rparr>)" "ok d" "disk d = D"
      using fs_load_inode_ok [of ?fs D "inode_number f" ni "- 1" "- 1"] w fok
      by (auto simp: D_def fs_disk_def ino_def file_ok_def fs_bufs_def)
    let ?fs1 = "?fs\<lparr>vioblk_io := d, fs_inode := disk_block D (1 + ino)\<rparr>"
    have fb: "fs_bufs ni ?fs1" using w(6) fok length_disk_block [of "1 + ino" D]
      by (simp add: fs_bufs_def file_ok_def)
    let ?m = "clip_count f n" and ?p = "unat (file_position f)"
    have pm: "?p + ?m \<le> sz" using m lt by (simp add: sz_def word_less_nat_alt)
    obtain d' db where r: "fs_read_loop ops ?m (file_position f) [] ?fs1 =
        Inr (0, file_position f + of_nat ?m, take ?m (drop ?p (file_data D ni ino sz)),
          ?fs1\<lparr>vioblk_io := d', data_block := db\<rparr>)" "ok d'" "disk d' = D" "length db = 4096"
      using fs_read_loop_ok [OF fok, of ?fs1 "file_position f" ?m "[]"] i(2,3) fb pm by auto
    let ?f' = "f\<lparr>file_position := file_position f + of_nat ?m\<rparr>"
    let ?fs2 = "fs\<lparr>vioblk_io := d', data_block := db, fs_inode := disk_block D (1 + ino),
      file_structs := (file_structs fs)[k := ?f']\<rparr>"
    let ?out = "take ?m (drop ?p (file_data D ni ino sz))"
    have "fs_read ops k n fs = Inr (int (length ?out), ?out, ?fs2)"
      using w False i(1) r(1)
      by (simp add: fs_read_def with_lock_def fs_acquire_def fs_release_def fs_read_body_def f_def [symmetric] Let_def)
    moreover have "?out = take n (drop (fs_at k fs) (fs_contents disk k fs))"
      using m len by (simp add: F fs_at_def f_def min_def)
    moreover have "unat (file_position f + of_nat ?m) = ?p + ?m"
      using pm szb by (simp add: unat_word_ariths unat_of_nat)
    moreover have "length ?out = ?m" using pm len by simp
    ultimately show ?thesis
      using w fok r(2-4) wf fb
      by (intro exI [of _ ?fs2]) (simp add: fs_wf_def fs_disk_def fs_contents_def fs_at_def fs_bufs_def defs)
  qed
qed

text \<open>An open file is a source of bytes in the sense of \<open>io.h\<close>.\<close>

lemma fs_source_of:
  "byte_source (fs_read ops k) (\<lambda>fs. fs_wf ok disk k fs \<and> fs_contents disk k fs = C) (\<lambda>fs. drop (fs_at k fs) C)"
proof
  fix fs n assume fs: "fs_wf ok disk k fs \<and> fs_contents disk k fs = C" and n: "0 < n" "n < (2 :: nat) ^ 63"
  let ?p = "drop (fs_at k fs) C"
  let ?m = "length (take n ?p)"
  obtain fs' where r: "fs_read ops k n fs = Inr (int ?m, take n ?p, fs')" "fs_wf ok disk k fs'"
    "fs_contents disk k fs' = C" "fs_at k fs' = fs_at k fs + ?m"
    using fs_read_ok [of k fs n] fs n(2) by auto
  moreover have "take ?m ?p = take n ?p" by (simp add: min_def)
  moreover have "drop (fs_at k fs') C = drop ?m ?p" using r by (simp add: add.commute)
  ultimately show "\<exists>m fs'. fs_read ops k n fs = Inr (int m, take m ?p, fs') \<and>
      (fs_wf ok disk k fs' \<and> fs_contents disk k fs' = C) \<and> m \<le> n \<and>
      m \<le> length ?p \<and> drop (fs_at k fs') C = drop m ?p \<and> (?p \<noteq> [] \<longrightarrow> 0 < m)"
    using n(1) by (intro exI [of _ ?m] exI [of _ fs']) auto
qed

lemma fs_source:
  "byte_source (fs_read ops k) (fs_wf ok disk k) (\<lambda>fs. drop (fs_at k fs) (fs_contents disk k fs))"
proof
  fix fs n assume "fs_wf ok disk k fs" "0 < n" "n < (2 :: nat) ^ 63"
  then show "\<exists>m fs'. fs_read ops k n fs = Inr (int m, take m (drop (fs_at k fs) (fs_contents disk k fs)), fs') \<and>
      fs_wf ok disk k fs' \<and> m \<le> n \<and> m \<le> length (drop (fs_at k fs) (fs_contents disk k fs)) \<and>
      drop (fs_at k fs') (fs_contents disk k fs') = drop m (drop (fs_at k fs) (fs_contents disk k fs)) \<and>
      (drop (fs_at k fs) (fs_contents disk k fs) \<noteq> [] \<longrightarrow> 0 < m)"
    using byte_source.rd_ok [OF fs_source_of [of k "fs_contents disk k fs"], of fs n] by auto
qed

lemma fs_write_ok:
  assumes wf: "fs_wf ok disk k fs" and big: "length buf < 2 ^ 63"
    and own: "own_blocks (fs_disk disk fs) (unat (num_inodes (boot_block fs)))
      (unat (inode_number (file_structs fs ! k))) (unat (file_size (file_structs fs ! k)))"
  defines "m \<equiv> min (length buf) (length (fs_contents disk k fs) - fs_at k fs)"
  shows "\<exists>fs'. fs_write ops k buf fs = Inr (int m, fs') \<and> fs_wf ok disk k fs' \<and>
    fs_contents disk k fs' = put_at (fs_at k fs) (take m buf) (fs_contents disk k fs) \<and>
    fs_at k fs' = fs_at k fs + m \<and> boot_block fs' = boot_block fs \<and>
    inode_number (file_structs fs' ! k) = inode_number (file_structs fs ! k) \<and>
    file_size (file_structs fs' ! k) = file_size (file_structs fs ! k) \<and>
    own_blocks (fs_disk disk fs') (unat (num_inodes (boot_block fs)))
      (unat (inode_number (file_structs fs ! k))) (unat (file_size (file_structs fs ! k))) \<and>
    (\<forall>b. b \<notin> block_no (fs_disk disk fs) (unat (num_inodes (boot_block fs)))
        (unat (inode_number (file_structs fs ! k))) ` {..<nblocks (unat (file_size (file_structs fs ! k)))} \<longrightarrow>
      disk_block (fs_disk disk fs') b = disk_block (fs_disk disk fs) b)"
proof -
  define f D ni ino sz where "f = file_structs fs ! k" and "D = fs_disk disk fs"
    and "ni = unat (num_inodes (boot_block fs))" and "ino = unat (inode_number f)" and "sz = unat (file_size f)"
  note defs = f_def D_def ni_def ino_def sz_def
  have w: "ok (vioblk_io fs)" "\<not> fs_lock fs" "fs_initialized fs" "k < length (file_structs fs)" "f_flags f \<noteq> 0"
    "fs_bufs ni fs" and fok: "file_ok D ni ino sz" and own': "own_blocks D ni ino sz"
    using wf own by (simp_all add: fs_wf_def defs)
  have F: "fs_contents disk k fs = file_data D ni ino sz" by (simp add: fs_contents_def defs)
  have len: "length (file_data D ni ino sz) = sz" by (rule file_blocks_ok(4) [OF fok])
  have szb: "sz < 2 ^ 32" using fok by (simp add: file_ok_def)
  let ?p = "unat (file_position f)"
  have m: "m = min (length buf) (sz - ?p)" by (simp add: m_def F len fs_at_def f_def)
  let ?fs = "fs\<lparr>fs_lock := True\<rparr>"
  show ?thesis
  proof (cases "file_size f \<le> file_position f")
    case True
    then have "m = 0" using m by (simp add: sz_def word_le_nat_alt)
    moreover have "fs_write ops k buf fs = Inr (0, fs)"
      using True w by (simp add: fs_write_def with_lock_def fs_acquire_def fs_release_def fs_write_body_def f_def)
    ultimately show ?thesis using wf own by simp
  next
    case False
    then have lt: "file_position f < file_size f" by simp
    have mc: "clip_count f (length buf) = m"
      using clip_count_ok [OF lt big] szb m by (simp add: sz_def)
    obtain d where i: "fs_load_inode ops (inode_number f) (- 1) (- 5) ?fs =
        Inr (0, ?fs\<lparr>vioblk_io := d, fs_inode := disk_block D (1 + ino)\<rparr>)" "ok d" "disk d = D"
      using fs_load_inode_ok [of ?fs D "inode_number f" ni "- 1" "- 5"] w fok
      by (auto simp: D_def fs_disk_def ino_def file_ok_def fs_bufs_def)
    let ?fs1 = "?fs\<lparr>vioblk_io := d, fs_inode := disk_block D (1 + ino)\<rparr>"
    have fb: "fs_bufs ni ?fs1" using w(6) fok length_disk_block [of "1 + ino" D]
      by (simp add: fs_bufs_def file_ok_def)
    have tl: "length (take m buf) = m" using m by simp
    have pm: "?p + m \<le> sz" using m lt by (simp add: sz_def word_less_nat_alt)
    obtain d' db where r: "fs_write_loop ops (take m buf) (file_position f) 0 ?fs1 =
        Inr (0, file_position f + of_nat m, m, ?fs1\<lparr>vioblk_io := d', data_block := db\<rparr>)" "ok d'" "length db = 4096"
      "file_ok (disk d') ni ino sz" "own_blocks (disk d') ni ino sz"
      "file_data (disk d') ni ino sz = put_at ?p (take m buf) (file_data D ni ino sz)"
      "\<forall>b. b \<notin> block_no D ni ino ` {..<nblocks sz} \<longrightarrow> disk_block (disk d') b = disk_block D b"
      using fs_write_loop_ok [OF fok own', of ?fs1 "file_position f" "take m buf" 0] i(2,3) fb pm tl by auto
    let ?f' = "f\<lparr>file_position := file_position f + of_nat m\<rparr>"
    let ?fs2 = "fs\<lparr>vioblk_io := d', data_block := db, fs_inode := disk_block D (1 + ino),
      file_structs := (file_structs fs)[k := ?f']\<rparr>"
    have run: "fs_write ops k buf fs = Inr (int m, ?fs2)"
      using w False i(1) r(1) mc
      by (simp add: fs_write_def with_lock_def fs_acquire_def fs_release_def fs_write_body_def f_def [symmetric] Let_def)
    have adv: "unat (file_position f + of_nat m) = ?p + m"
      using pm szb by (simp add: unat_word_ariths unat_of_nat)
    define fs2 where "fs2 = ?fs2"
    have same: "fs_disk disk fs2 = disk d'" "file_structs fs2 ! k = ?f'" "boot_block fs2 = boot_block fs"
      "vioblk_io fs2 = d'" "\<not> fs_lock fs2" "fs_initialized fs2" "k < length (file_structs fs2)" "fs_bufs ni fs2"
      using w fb r(3) by (simp_all add: fs2_def fs_disk_def fs_bufs_def)
    have "fs_wf ok disk k fs2"
      using w(5) r(2-4) same(5-8) unfolding fs_wf_def same(1-4) ni_def [symmetric] by (simp add: ino_def sz_def)
    moreover have "fs_contents disk k fs2 = put_at (fs_at k fs) (take m buf) (fs_contents disk k fs)"
      using r(6) unfolding fs_contents_def same(1-3) F [unfolded fs_contents_def]
      by (simp add: fs_at_def f_def [symmetric] ni_def [symmetric] ino_def [symmetric] sz_def [symmetric])
    moreover have "fs_at k fs2 = fs_at k fs + m" using adv by (simp add: fs_at_def same(2) f_def [symmetric])
    ultimately show ?thesis
      using run r(5,7) same(1-3) unfolding fs2_def [symmetric]
      by (intro exI [of _ fs2]) (simp add: f_def [symmetric] D_def [symmetric] ni_def [symmetric]
        ino_def [symmetric] sz_def [symmetric])
  qed
qed

text \<open>An open file whose blocks are its own takes bytes from the position on, up to its length.\<close>

lemma fs_sink:
  "byte_sink (fs_write ops k) (fs_writable ok disk k) (\<lambda>fs. (fs_contents disk k fs, fs_at k fs)) put_byte
    (\<lambda>fs. length (fs_contents disk k fs) - fs_at k fs)"
proof
  fix fs and bs :: "u8 list"
  assume wr: "fs_writable ok disk k fs" and bs: "bs \<noteq> []" "length bs < 2 ^ 63"
  let ?room = "length (fs_contents disk k fs) - fs_at k fs"
  define m where "m = min (length bs) ?room"
  obtain fs' where r: "fs_write ops k bs fs = Inr (int m, fs')" "fs_writable ok disk k fs'"
    "fs_contents disk k fs' = put_at (fs_at k fs) (take m bs) (fs_contents disk k fs)" "fs_at k fs' = fs_at k fs + m"
    using fs_write_ok [of k fs bs] wr bs(2) by (auto simp: fs_writable_def m_def [symmetric])
  have fit: "m = 0 \<or> fs_at k fs + length (take m bs) \<le> length (fs_contents disk k fs)"
    using bs(1) by (auto simp: m_def min_def le_diff_conv2 neq_Nil_conv)
  have "(fs_contents disk k fs', fs_at k fs') = foldl put_byte (fs_contents disk k fs, fs_at k fs) (take m bs)"
    using fit foldl_put_byte [of "fs_at k fs" "take m bs" "fs_contents disk k fs"] r(3,4) by (auto simp: m_def)
  moreover have "length (fs_contents disk k fs') - fs_at k fs' = ?room - m"
    using fit r(3,4) by auto
  moreover have "m \<le> length bs" "m \<le> ?room" "0 < ?room \<longrightarrow> 0 < m" using bs(1) by (auto simp: m_def)
  ultimately show "\<exists>m fs'. fs_write ops k bs fs = Inr (int m, fs') \<and> fs_writable ok disk k fs' \<and>
      (fs_contents disk k fs', fs_at k fs') = foldl put_byte (fs_contents disk k fs, fs_at k fs) (take m bs) \<and>
      length (fs_contents disk k fs') - fs_at k fs' = ?room - m \<and> m \<le> length bs \<and> m \<le> ?room \<and> (0 < ?room \<longrightarrow> 0 < m)"
    using r(1,2) by - (rule exI [of _ m], rule exI [of _ fs'], intro conjI)
qed

end

section \<open>Opening\<close>

text \<open>The name of a directory entry, as a string, and the entry a name selects.\<close>

definition dentry_string :: "u8 list \<Rightarrow> nat \<Rightarrow> string" where
  "dentry_string b i = takeWhile (\<lambda>c. c \<noteq> NUL) (map (\<lambda>c. char_of (unat c)) (dentry_name b i))"

definition lookup_name :: "u8 list \<Rightarrow> string \<Rightarrow> nat option" where
  "lookup_name b name = List.find (\<lambda>i. dentry_string b i = take 32 name) [0..<unat (num_dentry b)]"

lemma unat_pred: "n \<noteq> 0 \<Longrightarrow> unat (n :: u64) = Suc (unat (n - 1))"
  using unat_gt_0 [of n] by (simp add: unat_minus_one)

lemma code_zero: "code c = 0 \<longleftrightarrow> c = NUL"
  using of_char_eq_iff [where ?'a = int, of c NUL] by simp

lemma strncpy_prefix:
  assumes "length src = unat n" and "unat n \<le> length dst"
  shows "\<exists>d. strncpy dst src n = Inr d \<and> length d = length dst \<and>
    takeWhile (\<lambda>c. c \<noteq> NUL) (take (unat n) d) = takeWhile (\<lambda>c. c \<noteq> NUL) src"
  using assms
proof (induction dst src n rule: strncpy.induct)
  case (2 dst c src n)
  have n: "n \<noteq> 0" "unat n = Suc (unat (n - 1))" using 2(2) by (auto intro: unat_pred)
  obtain x d where d: "dst = x # d" using 2(3) n by (cases dst) auto
  show ?case
  proof (cases "c = NUL")
    case False
    then show ?thesis using 2 n d by fastforce
  next
    case True
    then show ?thesis using n d by simp
  qed
qed (auto simp: unat_eq_zero)

lemma strncmp_prefix:
  assumes "NUL \<notin> set s" and "NUL \<in> set t \<or> unat n \<le> length t"
  shows "\<exists>c. strncmp (s @ [NUL]) t n = Inr c \<and>
    (c = 0 \<longleftrightarrow> take (unat n) s = takeWhile (\<lambda>c. c \<noteq> NUL) (take (unat n) t))"
  using assms
proof (induction s arbitrary: t n)
  case Nil
  then show ?case
    by (cases t; cases "n = 0") (auto simp: unat_eq_zero unat_gt_0 take_Cons code_zero split: nat.splits)
next
  case (Cons a s)
  show ?case
  proof (cases "n = 0")
    case True
    then show ?thesis by (cases t) auto
  next
    case False
    then have n: "unat n = Suc (unat (n - 1))" by (rule unat_pred)
    obtain b t' where t: "t = b # t'" using Cons.prems(2) n by (cases t) auto
    show ?thesis
    proof (cases "a = b")
      case True
      then have "NUL \<in> set t' \<or> unat (n - 1) \<le> length t'" using Cons.prems t n by auto
      then show ?thesis using Cons.IH [of t' "n - 1"] Cons.prems(1) True False n t by auto
    next
      case False
      then show ?thesis using \<open>n \<noteq> 0\<close> n t of_char_eq_iff [where ?'a = int, of a b] by auto
    qed
  qed
qed

lemma find_dentry_ok:
  assumes "NUL \<notin> set name" and "length b = 4096" and "i + left \<le> 63"
  shows "find_dentry b name i left = Inr (List.find (\<lambda>i. dentry_string b i = take 32 name) [i..<i + left])"
  using assms(3)
proof (induction left arbitrary: i)
  case (Suc left)
  let ?src = "map (\<lambda>c. char_of (unat c)) (dentry_name b i) :: string"
  have "length ?src = unat (32 :: u64)" using Suc.prems assms(2) by (simp add: dentry_name_def FS_NAMELEN_def)
  then obtain d where d: "strncpy (replicate 33 NUL) ?src 32 = Inr d" "length d = 33"
    "takeWhile (\<lambda>c. c \<noteq> NUL) (take 32 d) = dentry_string b i"
    using strncpy_prefix [of ?src 32 "replicate 33 NUL"] by (auto simp: dentry_string_def)
  obtain c where c: "strncmp (name @ [NUL]) (d[32 := NUL]) 32 = Inr c"
    "c = 0 \<longleftrightarrow> take 32 name = dentry_string b i"
    using strncmp_prefix [OF assms(1), of "d[32 := NUL]" 32] d(2,3) by auto
  have "[i..<i + Suc left] = i # [Suc i..<Suc i + left]" by (simp add: upt_conv_Cons)
  then show ?case using Suc d(1) c by auto
qed simp

text \<open>A file system that is mounted and a directory entry whose inode is on the disk.\<close>

lemma find_file_slot_bounds:
  "find_file_slot fs i = Some k \<Longrightarrow> i \<le> k \<and> k < i + length fs \<and> f_flags (fs ! (k - i)) = 0"
proof (induction fs arbitrary: i)
  case (Cons f fs)
  show ?case
  proof (cases "f_flags f = 0")
    case False
    then have "Suc i \<le> k \<and> k < Suc i + length fs \<and> f_flags (fs ! (k - Suc i)) = 0"
      using Cons.IH [of "Suc i"] Cons.prems by simp
    moreover from this have "k - i = Suc (k - Suc i)" by linarith
    ultimately show ?thesis by simp
  qed (use Cons.prems in simp)
qed simp

text \<open>The directory entry of a name that the mounted file system can open.\<close>

definition fs_ready :: "('d \<Rightarrow> bool) \<Rightarrow> ('d \<Rightarrow> u8 list) \<Rightarrow> 'd fs \<Rightarrow> bool" where
  "fs_ready ok disk fs \<longleftrightarrow> ok (vioblk_io fs) \<and> \<not> fs_lock fs \<and> fs_initialized fs \<and>
     boot_block fs = disk_block (fs_disk disk fs) 0 \<and> length (boot_block fs) = 4096 \<and>
     unat (num_dentry (boot_block fs)) \<le> 63 \<and> length (fs_inode fs) = 4096 \<and> length (data_block fs) = 4096"

definition file_len :: "u8 list \<Rightarrow> nat \<Rightarrow> nat" where
  "file_len D ino = unat (byte_len (disk_block D (1 + ino)))"

lemma unat_ucast_u32: "unat (ucast (w :: u32) :: u64) = unat w"
proof -
  have "unat w < 2 ^ 32" using unsigned_less [of w, where ?'a = nat] by simp
  then show ?thesis by (simp add: unsigned_ucast_eq take_bit_nat_eq_self)
qed

lemma inode_seek_unat: "unat (4096 + (ucast (w :: u32) :: u64) * 4096) = 4096 * (1 + unat w)"
proof -
  have "unat w < 2 ^ 32" using unsigned_less [of w, where ?'a = nat] by simp
  then have "4096 * (1 + unat w) < 2 ^ 64" by simp
  moreover have "4096 + (ucast w :: u64) * 4096 = of_nat (4096 * (1 + unat w))" by (simp add: algebra_simps)
  ultimately show ?thesis by (simp add: unat_of_nat del: of_nat_add of_nat_mult of_nat_Suc)
qed

context block_device
begin

lemma fs_open_ok:
  assumes rdy: "fs_ready ok disk fs" and nm: "NUL \<notin> set name"
    and slot: "find_file_slot (file_structs fs) 0 = Some k"
    and look: "lookup_name (boot_block fs) name = Some i"
  defines "ino \<equiv> unat (dentry_inode (boot_block fs) i)"
  assumes fok: "file_ok (fs_disk disk fs) (unat (num_inodes (boot_block fs))) ino (file_len (fs_disk disk fs) ino)"
  shows "\<exists>fs'. fs_open ops name fs = Inr ((0, Some k), fs') \<and> fs_wf ok disk k fs' \<and> fs_ready ok disk fs' \<and>
    fs_contents disk k fs' = file_data (fs_disk disk fs) (unat (num_inodes (boot_block fs))) ino (file_len (fs_disk disk fs) ino) \<and>
    fs_at k fs' = 0 \<and> fs_disk disk fs' = fs_disk disk fs \<and> boot_block fs' = boot_block fs \<and>
    inode_number (file_structs fs' ! k) = of_nat ino \<and>
    (\<forall>j. j \<noteq> k \<longrightarrow> file_structs fs' ! j = file_structs fs ! j)"
proof -
  define D where "D = fs_disk disk fs"
  have r: "ok (vioblk_io fs)" "disk (vioblk_io fs) = D" "\<not> fs_lock fs" "fs_initialized fs" "length (boot_block fs) = 4096"
    "unat (num_dentry (boot_block fs)) \<le> 63" "length (fs_inode fs) = 4096" "length (data_block fs) = 4096"
    using rdy unfolding fs_ready_def D_def fs_disk_def by blast+
  have kb: "k < length (file_structs fs)" using find_file_slot_bounds [OF slot] by simp
  have fd: "find_dentry (boot_block fs) name 0 (unat (num_dentry (boot_block fs))) = Inr (Some i)"
    using find_dentry_ok [OF nm r(5), of 0 "unat (num_dentry (boot_block fs))"] r(6) look by (simp add: lookup_name_def)
  let ?w = "dentry_inode (boot_block fs) i" and ?I = "disk_block D (1 + ino)"
  let ?off = "4096 + (ucast ?w :: u64) * 4096"
  have off: "unat ?off = 4096 * (1 + ino)" unfolding ino_def by (rule inode_seek_unat)
  have fit: "4096 * (2 + ino) \<le> length D" using fok by (simp add: file_ok_def D_def)
  obtain d1 d2 where io: "call_ctl ops IOCTL_SETPOS ?off (vioblk_io fs) = Inr (0, ?off, d1)"
    "call_read ops 4096 d1 = Inr (4096, ?I, d2)" "ok d2" "disk d2 = D"
    using read_at [OF r(1), of ?off 4096] r(2) off fit by (auto simp: disk_block_def)
  have lI: "length ?I = 4096" using fit by (intro length_disk_block) simp
  have pI: "put_at 0 ?I (fs_inode fs) = ?I" using lI r(7) by (intro put_at_whole) simp
  let ?f = "(file_structs fs ! k)\<lparr>file_position := 0, inode_number := ucast ?w, file_size := ucast (byte_len ?I),
    f_flags := 1, f_refcnt := 1\<rparr>"
  define fs' where "fs' = fs\<lparr>vioblk_io := d2, fs_inode := ?I, file_structs := (file_structs fs)[k := ?f]\<rparr>"
  have run: "fs_open ops name fs = Inr ((0, Some k), fs')"
    using r(3,4) slot fd io(1,2) pI kb
    by (simp add: fs_open_def with_lock_def fs_acquire_def fs_release_def fs_open_body_def Let_def fs'_def)
  have same: "fs_disk disk fs' = D" "file_structs fs' ! k = ?f" "boot_block fs' = boot_block fs"
    using io(4) kb by (simp_all add: fs'_def fs_disk_def)
  have u: "unat (ucast ?w :: u64) = ino" "unat (ucast (byte_len ?I) :: u64) = file_len D ino"
    by (simp_all add: ino_def file_len_def unat_ucast_u32)
  have "fs_wf ok disk k fs'"
    using fok r io(3) kb lI unfolding fs_wf_def same
    by (simp add: u [simplified] D_def [symmetric] fs_bufs_def) (simp add: fs'_def)
  moreover have "fs_ready ok disk fs'"
    using rdy io(3) lI unfolding fs_ready_def same D_def [symmetric] by (auto simp: fs'_def)
  moreover have "fs_contents disk k fs' = file_data D (unat (num_inodes (boot_block fs))) ino (file_len D ino)"
    by (simp add: fs_contents_def same u [simplified])
  moreover have "(ucast ?w :: u64) = of_nat ino" by (simp add: ino_def)
  moreover have "\<forall>j. j \<noteq> k \<longrightarrow> file_structs fs' ! j = file_structs fs ! j" by (simp add: fs'_def)
  ultimately show ?thesis
    using run same by (intro exI [of _ fs']) (simp add: fs_at_def D_def)
qed

end

section \<open>The file system on the block device\<close>

interpretation fsrc: byte_source "fs_read (vioblk_io_ops serve_disk) k"
  "fs_wf (\<lambda>dev. vb_wf (\<lambda>hw. hw) dev \<and> \<not> vb_lock dev) (vb_data (\<lambda>hw. hw)) k"
  "\<lambda>fs. drop (fs_at k fs) (fs_contents (vb_data (\<lambda>hw. hw)) k fs)" for k
  by (rule vbd.fs_source)

interpretation fsnk: byte_sink "fs_write (vioblk_io_ops serve_disk) k"
  "fs_writable (\<lambda>dev. vb_wf (\<lambda>hw. hw) dev \<and> \<not> vb_lock dev) (vb_data (\<lambda>hw. hw)) k"
  "\<lambda>fs. (fs_contents (vb_data (\<lambda>hw. hw)) k fs, fs_at k fs)" put_byte
  "\<lambda>fs. length (fs_contents (vb_data (\<lambda>hw. hw)) k fs) - fs_at k fs" for k
  by (rule vbd.fs_sink)

lemma fs_setpos_ok:
  assumes "fs_wf ok disk k fs" and "unat p \<le> length (fs_contents disk k fs)"
  shows "\<exists>fs'. fs_ioctl k IOCTL_SETPOS p fs = Inr (0, p, fs') \<and> fs_wf ok disk k fs' \<and>
    fs_contents disk k fs' = fs_contents disk k fs \<and> fs_at k fs' = unat p \<and> fs_disk disk fs' = fs_disk disk fs \<and>
    boot_block fs' = boot_block fs \<and> inode_number (file_structs fs' ! k) = inode_number (file_structs fs ! k) \<and>
    file_size (file_structs fs' ! k) = file_size (file_structs fs ! k)"
proof -
  have "length (fs_contents disk k fs) = unat (file_size (file_structs fs ! k))"
    unfolding fs_contents_def using assms(1) by (intro file_blocks_ok(4)) (simp add: fs_wf_def)
  then have "\<not> file_size (file_structs fs ! k) < p" using assms(2) by (simp add: word_less_nat_alt)
  then show ?thesis
    using assms(1) by (simp add: fs_ioctl_def fs_acquire_def fs_release_def fs_setpos_def ioctl_defs fs_wf_def
        fs_contents_def fs_disk_def fs_at_def fs_bufs_def)
qed

section \<open>Correctness properties\<close>

text \<open>
  C5. Data written to a file is read back, through the file system, the block driver and the
  device: seeking inside an open file, writing, seeking back and reading as many bytes all
  succeed and return the bytes written, whatever the position and the length within the file.
  The file then has its old contents with the bytes replaced, and the blocks of the disk that are
  not blocks of this file (the directory, the inodes, the other files) are unchanged.
\<close>

theorem fs_write_read:
  assumes dev: "virtio_ok serve contents"
    and wr: "fs_writable (\<lambda>dev. vb_wf contents dev \<and> \<not> vb_lock dev) (vb_data contents) k fs"
    and fit: "unat p + length bs \<le> length (fs_contents (vb_data contents) k fs)"
  shows "\<exists>f1 f2 f3 f4. fs_ioctl k IOCTL_SETPOS p fs = Inr (0, p, f1) \<and>
    fs_write (vioblk_io_ops serve) k bs f1 = Inr (int (length bs), f2) \<and>
    fs_ioctl k IOCTL_SETPOS p f2 = Inr (0, p, f3) \<and>
    fs_read (vioblk_io_ops serve) k (length bs) f3 = Inr (int (length bs), bs, f4) \<and>
    fs_contents (vb_data contents) k f4 = put_at (unat p) bs (fs_contents (vb_data contents) k fs) \<and>
    (\<forall>b. b \<notin> block_no (fs_disk (vb_data contents) fs) (unat (num_inodes (boot_block fs)))
        (unat (inode_number (file_structs fs ! k))) ` {..<nblocks (unat (file_size (file_structs fs ! k)))} \<longrightarrow>
      disk_block (fs_disk (vb_data contents) f4) b = disk_block (fs_disk (vb_data contents) fs) b)"
proof -
  let ?disk = "vb_data contents"
  note bd = vioblk_block_device [OF dev]
  have wf: "fs_wf (\<lambda>dev. vb_wf contents dev \<and> \<not> vb_lock dev) ?disk k fs" using wr by (simp add: fs_writable_def)
  have "length (fs_contents ?disk k fs) \<le> 4096 * 1023"
  proof -
    have fok: "file_ok (fs_disk ?disk fs) (unat (num_inodes (boot_block fs)))
        (unat (inode_number (file_structs fs ! k))) (unat (file_size (file_structs fs ! k)))"
      using wf by (simp add: fs_wf_def)
    show ?thesis using file_blocks_ok(4) [OF fok] fok by (simp add: fs_contents_def file_ok_def)
  qed
  then have n: "length bs < 2 ^ 63" using fit by simp
  obtain f1 where f1: "fs_ioctl k IOCTL_SETPOS p fs = Inr (0, p, f1)"
    "fs_wf (\<lambda>dev. vb_wf contents dev \<and> \<not> vb_lock dev) ?disk k f1" "fs_contents ?disk k f1 = fs_contents ?disk k fs"
    "fs_at k f1 = unat p" "fs_disk ?disk f1 = fs_disk ?disk fs" "boot_block f1 = boot_block fs"
    "inode_number (file_structs f1 ! k) = inode_number (file_structs fs ! k)"
    "file_size (file_structs f1 ! k) = file_size (file_structs fs ! k)"
    using fs_setpos_ok [OF wf, of p] fit by auto
  have m: "min (length bs) (length (fs_contents ?disk k f1) - fs_at k f1) = length bs" using f1(3,4) fit by simp
  obtain f2 where f2: "fs_write (vioblk_io_ops serve) k bs f1 = Inr (int (length bs), f2)"
    "fs_wf (\<lambda>dev. vb_wf contents dev \<and> \<not> vb_lock dev) ?disk k f2"
    "fs_contents ?disk k f2 = put_at (unat p) bs (fs_contents ?disk k fs)"
    "\<forall>b. b \<notin> block_no (fs_disk ?disk fs) (unat (num_inodes (boot_block fs)))
        (unat (inode_number (file_structs fs ! k))) ` {..<nblocks (unat (file_size (file_structs fs ! k)))} \<longrightarrow>
      disk_block (fs_disk ?disk f2) b = disk_block (fs_disk ?disk fs) b"
    using block_device.fs_write_ok [OF bd f1(2) n, unfolded m] wr f1(3-8) by (auto simp: fs_writable_def)
  have l2: "length (fs_contents ?disk k f2) = length (fs_contents ?disk k fs)" using f2(3) fit by simp
  obtain f3 where f3: "fs_ioctl k IOCTL_SETPOS p f2 = Inr (0, p, f3)"
    "fs_wf (\<lambda>dev. vb_wf contents dev \<and> \<not> vb_lock dev) ?disk k f3" "fs_contents ?disk k f3 = fs_contents ?disk k f2"
    "fs_at k f3 = unat p" "fs_disk ?disk f3 = fs_disk ?disk f2"
    using fs_setpos_ok [OF f2(2), of p] l2 fit by auto
  have data: "take (length bs) (drop (fs_at k f3) (fs_contents ?disk k f3)) = bs"
    using f3(3,4) f2(3) fit by (simp add: put_at_def)
  obtain f4 where "fs_read (vioblk_io_ops serve) k (length bs) f3 = Inr (int (length bs), bs, f4)"
    "fs_disk ?disk f4 = fs_disk ?disk f3" "fs_contents ?disk k f4 = fs_contents ?disk k f3"
    using block_device.fs_read_ok [OF bd f3(2) n, unfolded data] by auto
  then show ?thesis using f1(1) f2(1,3,4) f3(1,3,5) by auto
qed

text \<open>
  Opening a file by name: on a mounted file system the first directory entry whose name
  agrees with the given one (in the 32 characters an entry holds) is opened in the first free
  slot, at position 0 and with the length its inode records, and a read of any number of bytes
  then returns the first bytes of the blocks the inode lists. The slots of the other open files
  and the disk are unchanged.
\<close>

theorem fs_open_read:
  assumes dev: "virtio_ok serve contents"
    and "fs_ready (\<lambda>dev. vb_wf contents dev \<and> \<not> vb_lock dev) (vb_data contents) fs" and "NUL \<notin> set name"
    and "find_file_slot (file_structs fs) 0 = Some k" and "lookup_name (boot_block fs) name = Some i"
    and "file_ok (fs_disk (vb_data contents) fs) (unat (num_inodes (boot_block fs)))
      (unat (dentry_inode (boot_block fs) i))
      (file_len (fs_disk (vb_data contents) fs) (unat (dentry_inode (boot_block fs) i)))"
    and n: "n < 2 ^ 63"
  defines "F \<equiv> file_data (fs_disk (vb_data contents) fs) (unat (num_inodes (boot_block fs)))
      (unat (dentry_inode (boot_block fs) i))
      (file_len (fs_disk (vb_data contents) fs) (unat (dentry_inode (boot_block fs) i)))"
  shows "\<exists>f1 f2. fs_open (vioblk_io_ops serve) name fs = Inr ((0, Some k), f1) \<and>
    (\<forall>j. j \<noteq> k \<longrightarrow> file_structs f1 ! j = file_structs fs ! j) \<and>
    fs_read (vioblk_io_ops serve) k n f1 = Inr (int (length (take n F)), take n F, f2) \<and>
    fs_disk (vb_data contents) f2 = fs_disk (vb_data contents) fs"
proof -
  note bd = vioblk_block_device [OF dev]
  obtain f1 where f1: "fs_open (vioblk_io_ops serve) name fs = Inr ((0, Some k), f1)"
    "fs_wf (\<lambda>dev. vb_wf contents dev \<and> \<not> vb_lock dev) (vb_data contents) k f1"
    "fs_contents (vb_data contents) k f1 = F" "fs_at k f1 = 0"
    "fs_disk (vb_data contents) f1 = fs_disk (vb_data contents) fs"
    "\<forall>j. j \<noteq> k \<longrightarrow> file_structs f1 ! j = file_structs fs ! j"
    using block_device.fs_open_ok [OF bd assms(2-6)] unfolding F_def by blast
  then show ?thesis using block_device.fs_read_ok [OF bd f1(2) n] by fastforce
qed

text \<open>
  C38. \<open>fs_ioctl\<close> returns from an unknown command with \<open>fs_lock\<close> held: every later operation on any
  file, and every attempt to open one, blocks.
\<close>

theorem fs_ioctl_keeps_lock:
  assumes "\<not> fs_lock fs" and "k < length (file_structs fs)" and "f_flags (file_structs fs ! k) \<noteq> 0"
    and "cmd \<notin> {IOCTL_GETLEN, IOCTL_GETPOS, IOCTL_SETPOS, IOCTL_GETBLKSZ}"
  shows "\<exists>fs'. fs_ioctl k cmd arg fs = Inr (- ENOTSUP, arg, fs') \<and>
    fs_read blk j n fs' = Inl Blocked \<and> fs_write blk j buf fs' = Inl Blocked \<and>
    fs_open blk name fs' = Inl Blocked \<and> fs_ioctl j c a fs' = Inl Blocked"
proof -
  have "fs_ioctl k cmd arg fs = Inr (- ENOTSUP, arg, fs\<lparr>fs_lock := True\<rparr>)"
    using assms by (simp add: fs_ioctl_def fs_acquire_def Let_def)
  moreover have "fs_acquire (fs\<lparr>fs_lock := True\<rparr>) = Inl Blocked" by (simp add: fs_acquire_def)
  ultimately show ?thesis by (simp add: fs_read_def fs_write_def fs_open_def fs_ioctl_def with_lock_def)
qed

text \<open>A disk with one file, named \<open>a\<close>, of three bytes, and the file system mounted on it.\<close>

definition demo_boot :: "u8 list" where
  "demo_boot = [1, 0, 0, 0, 1, 0, 0, 0] @ replicate 56 0 @ [97] @ replicate 4031 0"

definition demo_disk :: "u8 list" where
  "demo_disk = demo_boot @ ([3, 0, 0, 0] @ replicate 4092 0) @ ([10, 11, 12] @ replicate 4093 0)"

definition demo_fs :: "u8 list vioblk fs" where
  "demo_fs = \<lparr>vioblk_io = vioblk_attach_dev 512 24 (replicate 512 0) (0, 0, 0) zero_regs demo_disk, fs_initialized = True,
     boot_block = demo_boot, file_structs = replicate 32 zero_file, fs_inode = replicate 4096 0,
     data_block = replicate 4096 0, fs_lock = False\<rparr>"

lemma demo_blocks:
  "length demo_disk = 12288" "disk_block demo_disk 0 = demo_boot" "length demo_boot = 4096"
  "disk_block demo_disk 1 = [3, 0, 0, 0] @ replicate 4092 0" "disk_block demo_disk 2 = [10, 11, 12] @ replicate 4093 0"
  by (simp_all add: demo_disk_def demo_boot_def disk_block_def)

lemma demo_boot_members: "num_dentry demo_boot = 1" "num_inodes demo_boot = 1" "dentry_inode demo_boot 0 = 0"
  "dentry_string demo_boot 0 = ''a''" "byte_len ([3, 0, 0, 0] @ replicate 4092 0) = 3"
  "data_block_num ([3, 0, 0, 0] @ replicate 4092 0) 0 = 0"
proof -
  have "dentry_name demo_boot 0 = 97 # 0 # replicate 30 0"
    by (simp add: dentry_name_def demo_boot_def FS_NAMELEN_def replicate_Suc [symmetric] del: replicate.simps)
  moreover have "char_of (unat (97 :: u8)) = CHR ''a''" "char_of (unat (0 :: u8)) = NUL" by code_simp+
  ultimately show "dentry_string demo_boot 0 = ''a''" by (simp add: dentry_string_def)
qed (simp_all add: num_dentry_def num_inodes_def dentry_inode_def demo_boot_def le32_def FS_NAMELEN_def byte_len_def
      data_block_num_def)

lemma demo_file:
  "file_ok demo_disk 1 0 3" "file_len demo_disk 0 = 3" "file_data demo_disk 1 0 3 = [10, 11, 12]" "own_blocks demo_disk 1 0 3"
proof -
  have b: "block_no demo_disk 1 0 0 = 2" using demo_blocks(4) demo_boot_members(6) by (simp add: block_no_def)
  have n: "nblocks 3 = 1" by (simp add: nblocks_def)
  show "file_ok demo_disk 1 0 3" using b n demo_blocks(1) by (simp add: file_ok_def)
  show "file_len demo_disk 0 = 3" using demo_blocks(4) demo_boot_members(5) by (simp add: file_len_def)
  show "file_data demo_disk 1 0 3 = [10, 11, 12]"
    using b n demo_blocks(5) by (simp add: file_data_def file_blocks_def)
  show "own_blocks demo_disk 1 0 3" using n by (simp add: own_blocks_def lessThan_Suc)
qed

lemma demo_vb: "vb_wf (\<lambda>hw. hw) (vioblk_attach_dev 512 24 (replicate 512 0) (0, 0, 0) zero_regs demo_disk)"
  "\<not> vb_lock (vioblk_attach_dev 512 24 (replicate 512 0) (0, 0, 0) zero_regs demo_disk)"
  "vb_data (\<lambda>hw. hw) (vioblk_attach_dev 512 24 (replicate 512 0) (0, 0, 0) zero_regs demo_disk) = demo_disk"
  using demo_blocks(1) by (simp_all add: vb_wf_def vioblk_attach_dev_def vb_data_def)

lemma demo_fs_ready: "fs_ready (\<lambda>dev. vb_wf (\<lambda>hw. hw) dev \<and> \<not> vb_lock dev) (vb_data (\<lambda>hw. hw)) demo_fs"
  "fs_disk (vb_data (\<lambda>hw. hw)) demo_fs = demo_disk" "boot_block demo_fs = demo_boot"
  "find_file_slot (file_structs demo_fs) 0 = Some 0"
  using demo_blocks demo_vb demo_boot_members
  by (simp_all add: fs_ready_def demo_fs_def fs_disk_def zero_file_def replicate_Suc [where n = 31, simplified])

theorem fs_open_read_witness:
  "\<exists>f1 f2. fs_open (vioblk_io_ops serve_disk) ''a'' demo_fs = Inr ((0, Some 0), f1) \<and>
     fs_read (vioblk_io_ops serve_disk) 0 2 f1 = Inr (2, [10, 11], f2)"
proof -
  have l: "lookup_name (boot_block demo_fs) ''a'' = Some 0"
    using demo_boot_members demo_fs_ready(3) by (simp add: lookup_name_def)
  have f: "file_ok (fs_disk (vb_data (\<lambda>hw. hw)) demo_fs) (unat (num_inodes (boot_block demo_fs)))
      (unat (dentry_inode (boot_block demo_fs) 0))
      (file_len (fs_disk (vb_data (\<lambda>hw. hw)) demo_fs) (unat (dentry_inode (boot_block demo_fs) 0)))"
    using demo_file(1,2) demo_boot_members demo_fs_ready(2,3) by simp
  have "NUL \<notin> set ''a''" "(2 :: nat) < 2 ^ 63" by simp_all
  from fs_open_read [OF serve_disk_ok demo_fs_ready(1) this(1) demo_fs_ready(4) l f this(2)] show ?thesis
    using demo_file(2,3) demo_boot_members demo_fs_ready(2,3) by auto
qed

text \<open>The same file system with the file open in slot 0.\<close>

definition demo_open :: "u8 list vioblk fs" where
  "demo_open = demo_fs\<lparr>file_structs := (file_structs demo_fs)
     [0 := \<lparr>f_refcnt = 1, file_position = 0, file_size = 3, inode_number = 0, f_flags = 1\<rparr>]\<rparr>"

lemma demo_open_fields: "file_structs demo_open ! 0 = \<lparr>f_refcnt = 1, file_position = 0, file_size = 3, inode_number = 0, f_flags = 1\<rparr>"
  "length (file_structs demo_open) = 32" "\<not> fs_lock demo_open" "boot_block demo_open = demo_boot"
  "fs_disk (vb_data (\<lambda>hw. hw)) demo_open = demo_disk"
  using demo_vb by (simp_all add: demo_open_def demo_fs_def fs_disk_def)

lemma demo_open_writable:
  "fs_writable (\<lambda>dev. vb_wf (\<lambda>hw. hw) dev \<and> \<not> vb_lock dev) (vb_data (\<lambda>hw. hw)) 0 demo_open"
  "fs_contents (vb_data (\<lambda>hw. hw)) 0 demo_open = [10, 11, 12]"
  using demo_file demo_boot_members demo_vb unfolding fs_writable_def fs_wf_def fs_contents_def demo_open_fields
  by (simp_all add: fs_bufs_def demo_open_def demo_fs_def)

theorem fs_write_read_witness:
  "\<exists>f1 f2 f3 f4. fs_ioctl 0 IOCTL_SETPOS 1 demo_open = Inr (0, 1, f1) \<and>
     fs_write (vioblk_io_ops serve_disk) 0 [7, 8] f1 = Inr (2, f2) \<and>
     fs_ioctl 0 IOCTL_SETPOS 1 f2 = Inr (0, 1, f3) \<and> fs_read (vioblk_io_ops serve_disk) 0 2 f3 = Inr (2, [7, 8], f4) \<and>
     fs_contents (vb_data (\<lambda>hw. hw)) 0 f4 = [10, 7, 8]"
proof -
  have f: "unat (1 :: u64) + length [7, 8 :: u8] \<le> length (fs_contents (vb_data (\<lambda>hw. hw)) 0 demo_open)"
    by (simp add: demo_open_writable(2))
  have l: "length [7, 8 :: u8] = 2" "int 2 = 2" by simp_all
  have p: "put_at (unat (1 :: u64)) [7, 8 :: u8] [10, 11, 12] = [10, 7, 8]" by (simp add: put_at_def)
  show ?thesis
    using fs_write_read [OF serve_disk_ok demo_open_writable(1) f] unfolding l p demo_open_writable(2) by blast
qed

theorem fs_ioctl_keeps_lock_witness:
  "\<exists>fs'. fs_ioctl 0 IOCTL_FLUSH 0 demo_open = Inr (- ENOTSUP, 0, fs') \<and>
     fs_open (vioblk_io_ops serve_disk) ''a'' fs' = Inl Blocked"
proof -
  have "f_flags (file_structs demo_open ! 0) \<noteq> 0" "0 < length (file_structs demo_open)"
    "IOCTL_FLUSH \<notin> {IOCTL_GETLEN, IOCTL_GETPOS, IOCTL_SETPOS, IOCTL_GETBLKSZ}"
    by (simp_all add: demo_open_fields ioctl_defs)
  from fs_ioctl_keeps_lock [OF demo_open_fields(3) this(2,1,3)] show ?thesis by blast
qed

end
