(* ===== verification/Mkfs.thy ===== *)
theory Mkfs
  imports Kfs "HOL-Library.Signed_Division"
begin

text \<open>
  The image builder \<open>util/mkfs.c\<close>, a program of the host that writes the disk image the kernel
  mounts. The files of the host are a map from paths to contents. The array of inodes is an
  uninitialised local, so its first contents are an argument (\<open>junk\<close>). The blocks written are a
  list, one element per call of \<open>write\<close> with a block; the image is their concatenation. The
  result of the program is its exit status with the blocks written, and a failed \<open>assert\<close> or an
  index past an array is a fault.

  The main result is that the kernel reads back from such an image the files it was built of.
\<close>

section \<open>Structures\<close>

record mk_dentry =
  file_name :: "u8 list"
  de_inode :: u32

record mk_boot =
  bb_num_dentry :: u32
  bb_num_inodes :: u32
  bb_num_data :: u32
  dir_entries :: "mk_dentry list"

record mk_inode =
  ino_byte_len :: u32
  ino_block_num :: "u32 list"

definition zero_dentry :: mk_dentry where
  "zero_dentry = \<lparr>file_name = replicate 32 0, de_inode = 0\<rparr>"

text \<open>The packed structures as bytes.\<close>

definition dentry_bytes :: "mk_dentry \<Rightarrow> u8 list" where
  "dentry_bytes d = file_name d @ enc32 (de_inode d) @ replicate 28 0"

definition boot_bytes :: "mk_boot \<Rightarrow> u8 list" where
  "boot_bytes b = enc32 (bb_num_dentry b) @ enc32 (bb_num_inodes b) @ enc32 (bb_num_data b) @ replicate 52 0 @
     concat (map dentry_bytes (dir_entries b))"

definition inode_bytes :: "mk_inode \<Rightarrow> u8 list" where
  "inode_bytes i = enc32 (ino_byte_len i) @ concat (map enc32 (ino_block_num i))"

section \<open>The program\<close>

definition shortname :: "string \<Rightarrow> string" where
  "shortname arg =
     (if take 12 arg = ''../user/bin/'' then drop 12 arg
      else if take 9 arg = ''user/bin/'' then drop 9 arg else arg)"

text \<open>The library's \<open>strncpy\<close> of a name to its field: cut at 32 bytes, padded with zeros.\<close>

definition name_field :: "string \<Rightarrow> u8 list" where
  "name_field s = take 32 (map (\<lambda>c. of_nat (of_char c)) s @ replicate 32 0)"

fun add_dentries :: "string list \<Rightarrow> nat \<Rightarrow> mk_dentry list \<Rightarrow> (mk_dentry list \<times> nat) res" where
  "add_dentries [] n ds = Inr (ds, n)"
| "add_dentries (arg # args) n ds =
     (if CHR ''/'' \<in> set (shortname arg) then Inl AssertFailed
      else if length ds \<le> n then Inl UndefinedAccess
      else add_dentries args (n + 1)
             (ds[n := \<lparr>file_name = name_field (shortname arg), de_inode = of_nat n\<rparr>]))"

text \<open>The block numbers of one file: \<open>left\<close> of them, from index \<open>j\<close> on.\<close>

fun set_blocks :: "nat \<Rightarrow> nat \<Rightarrow> nat \<Rightarrow> u32 list \<Rightarrow> (u32 list \<times> nat) res" where
  "set_blocks 0 j idx ws = Inr (ws, idx)"
| "set_blocks (Suc left) j idx ws =
     (if length ws \<le> j then Inl UndefinedAccess else set_blocks left (j + 1) (idx + 1) (ws[j := of_nat idx]))"

text \<open>\<open>num_bytes\<close> is an \<open>int\<close>; the division truncates. One block more than the quotient is counted.\<close>

definition num_bytes :: "u8 list \<Rightarrow> int" where
  "num_bytes bs = sint (of_nat (length bs) :: u32)"

definition num_data_blocks_for_file :: "u8 list \<Rightarrow> nat" where
  "num_data_blocks_for_file bs = nat (num_bytes bs sdiv 4096 + 1)"

text \<open>\<open>None\<close> is the exit through \<open>die\<close>.\<close>

fun add_inodes :: "(string \<rightharpoonup> u8 list) \<Rightarrow> string list \<Rightarrow> nat \<Rightarrow> nat \<Rightarrow> mk_inode list \<Rightarrow> (mk_inode list \<times> nat) option res" where
  "add_inodes host [] i idx arr = Inr (Some (arr, idx))"
| "add_inodes host (arg # args) i idx arr =
     (case host arg of
        None \<Rightarrow> Inr None
      | Some bs \<Rightarrow>
          if length arr \<le> i then Inl UndefinedAccess
          else
            bind_res (set_blocks (num_data_blocks_for_file bs) 0 idx (ino_block_num (arr ! i))) (\<lambda>(ws, idx).
              add_inodes host args (i + 1) idx
                (arr[i := \<lparr>ino_byte_len = of_int (num_bytes bs), ino_block_num = ws\<rparr>])))"

text \<open>
  The copying of one file. The buffer keeps its bytes where a short read does not overwrite them.
\<close>

function write_data :: "u8 list \<Rightarrow> u8 list \<Rightarrow> u8 list list" where
  "write_data buf bs =
     (if bs = [] then []
      else let buf = put_at 0 (take 4096 bs) buf in buf # write_data buf (drop 4096 bs))"
  by pat_completeness auto
termination by (relation "measure (\<lambda>(_, bs). length bs)") auto

declare write_data.simps [simp del]

fun add_data :: "(string \<rightharpoonup> u8 list) \<Rightarrow> string list \<Rightarrow> int \<times> u8 list list" where
  "add_data host [] = (0, [])"
| "add_data host (arg # args) =
     (case host arg of
        None \<Rightarrow> (1, [])
      | Some bs \<Rightarrow>
          let (status, blocks) = add_data host args
          in (status, write_data (replicate 4096 0) bs @ blocks))"

text \<open>
  \<open>main\<close>; \<open>image_opened\<close> says whether the image file could be created.
\<close>

definition mkfs_main ::
    "(string \<rightharpoonup> u8 list) \<Rightarrow> bool \<Rightarrow> mk_inode list \<Rightarrow> string list \<Rightarrow> (int \<times> u8 list list) res" where
  "mkfs_main host image_opened junk argv =
     (if length argv < 2 then Inr (1, [])
      else if \<not> image_opened then Inr (1, [])
      else
        bind_res (add_dentries (drop 2 argv) 0 (replicate 63 zero_dentry)) (\<lambda>(ds, number_inodes).
          bind_res (add_inodes host (drop 2 argv) 0 0 (take number_inodes junk)) (\<lambda>r.
            case r of
              None \<Rightarrow> Inr (1, [])
            | Some (arr, data_block_idx) \<Rightarrow>
                let boot = \<lparr>bb_num_dentry = of_nat number_inodes, bb_num_inodes = of_nat number_inodes,
                      bb_num_data = of_nat data_block_idx, dir_entries = ds\<rparr>;
                    (status, blocks) = add_data host (drop 2 argv)
                in Inr (status, boot_bytes boot # map inode_bytes arr @ blocks))))"

section \<open>What the program writes\<close>

text \<open>The number of blocks counted for a file and the number of blocks written for it.\<close>

definition counted :: "u8 list \<Rightarrow> nat" where
  "counted bs = length bs div 4096 + 1"

lemma counted_nblocks: "\<not> 4096 dvd length bs \<Longrightarrow> counted bs = nblocks (length bs)"
proof -
  assume a: "\<not> 4096 dvd length bs"
  obtain q r where qr: "length bs = 4096 * q + r" "r < 4096"
    using mod_less_divisor [of 4096 "length bs"] mult_div_mod_eq [of 4096 "length bs"] by (metis zero_less_numeral)
  then have "0 < r" using a by (cases r) auto
  then have "(4096 * q + r + 4095) div 4096 = q + 1" using qr(2) by (intro div_nat_eqI) (simp_all add: Suc_le_eq)
  then show ?thesis using qr by (simp add: counted_def nblocks_def)
qed

lemma num_bytes_small: "length bs < 2 ^ 31 \<Longrightarrow> num_bytes bs = int (length bs)"
proof -
  assume a: "length bs < 2 ^ 31"
  have "uint (of_nat (length bs) :: u32) = int (length bs)" using a by (simp add: uint_word_of_int_eq unsigned_of_nat take_bit_nat_eq_self of_nat_take_bit)
  then show ?thesis using a unfolding num_bytes_def sint_uint by (simp add: signed_take_bit_int_eq_self)
qed

lemma num_data_blocks_small: "length bs < 2 ^ 31 \<Longrightarrow> num_data_blocks_for_file bs = counted bs"
  by (simp add: num_data_blocks_for_file_def counted_def num_bytes_small signed_divide_int_def nat_add_distrib
      nat_div_distrib)

lemma set_blocks_ok:
  "j + left \<le> length ws \<Longrightarrow> \<exists>ws'. set_blocks left j idx ws = Inr (ws', idx + left) \<and> length ws' = length ws \<and>
     (\<forall>k < j. ws' ! k = ws ! k) \<and> (\<forall>k < left. ws' ! (j + k) = of_nat (idx + k))"
proof (induction left arbitrary: j idx ws)
  case (Suc left)
  then obtain ws' where r: "set_blocks left (j + 1) (idx + 1) (ws[j := of_nat idx]) = Inr (ws', idx + 1 + left)"
    "length ws' = length ws" "\<forall>k < j + 1. ws' ! k = ws[j := of_nat idx] ! k"
    "\<forall>k < left. ws' ! (j + 1 + k) = of_nat (idx + 1 + k)"
    using Suc.IH [of "j + 1" "ws[j := of_nat idx]" "idx + 1"] by auto
  have "ws' ! (j + k) = of_nat (idx + k)" if "k < Suc left" for k
    using r(3,4) that Suc.prems by (cases k) auto
  then show ?case using Suc.prems r(1-3) by auto
qed simp

lemma write_data_ok:
  assumes "length buf = 4096"
  shows "blocks_of 4096 (write_data buf bs)" "length (write_data buf bs) = nblocks (length bs)"
    "take (length bs) (concat (write_data buf bs)) = bs"
proof -
  have "blocks_of 4096 (write_data buf bs) \<and> length (write_data buf bs) = nblocks (length bs) \<and>
      take (length bs) (concat (write_data buf bs)) = bs"
    using assms
  proof (induction buf bs rule: write_data.induct)
    case (1 buf bs)
    show ?case
    proof (cases "bs = []")
      case True
      then show ?thesis by (simp add: write_data.simps nblocks_def)
    next
      case False
      define b where "b = put_at 0 (take 4096 bs) buf"
      have b: "length b = 4096" using 1(2) by (simp add: b_def min_def)
      have w: "write_data buf bs = b # write_data b (drop 4096 bs)"
        using False by (subst write_data.simps) (simp add: b_def Let_def)
      note ih = 1(1) [OF False b_def b]
      have "nblocks (length bs) = Suc (nblocks (length bs - 4096))"
      proof (cases "length bs \<le> 4096")
        case True
        have "(length bs + 4095) div 4096 = 1" using True False by (intro div_nat_eqI) (auto simp: Suc_le_eq)
        then show ?thesis using True by (simp add: nblocks_def)
      next
        case False
        then have "length bs + 4095 = length bs - 4096 + 4095 + 4096" by simp
        then show ?thesis unfolding nblocks_def by (metis add.commute div_add_self1 plus_1_eq_Suc zero_neq_numeral)
      qed
      moreover have "take (length bs) (concat (write_data buf bs)) = bs"
      proof (cases "length bs \<le> 4096")
        case True
        then show ?thesis using b w 1(2) by (simp add: b_def put_at_def)
      next
        case False
        have "take (length bs) (concat (write_data buf bs)) =
            b @ take (length (drop 4096 bs)) (concat (write_data b (drop 4096 bs)))" using False b w by simp
        also have "\<dots> = b @ drop 4096 bs" using ih by simp
        also have "b = take 4096 bs" using False 1(2) by (simp add: b_def put_at_def)
        finally show ?thesis by simp
      qed
      ultimately show ?thesis using ih w b by simp
    qed
  qed
  then show "blocks_of 4096 (write_data buf bs)" "length (write_data buf bs) = nblocks (length bs)"
    "take (length bs) (concat (write_data buf bs)) = bs" by simp_all
qed

section \<open>The image\<close>

text \<open>
  Files that fit the format: at most 63, each of less than 1023 blocks, with names the format
  keeps apart.
\<close>

definition fits :: "(string \<rightharpoonup> u8 list) \<Rightarrow> string list \<Rightarrow> bool" where
  "fits host args \<longleftrightarrow> length args \<le> 63 \<and>
     (\<forall>a \<in> set args. host a \<noteq> None \<and> length (the (host a)) < 4096 * 1023 \<and>
        CHR ''/'' \<notin> set (shortname a) \<and> NUL \<notin> set (shortname a))"

definition junk_ok :: "mk_inode list \<Rightarrow> bool" where
  "junk_ok junk \<longleftrightarrow> 63 \<le> length junk \<and> (\<forall>i \<in> set junk. length (ino_block_num i) = 1023)"

lemma add_dentries_ok:
  assumes "\<forall>a \<in> set args. CHR ''/'' \<notin> set (shortname a)" and "n + length args \<le> length ds"
  shows "\<exists>ds'. add_dentries args n ds = Inr (ds', n + length args) \<and> length ds' = length ds \<and>
    (\<forall>i < n. ds' ! i = ds ! i) \<and> (\<forall>i. n + length args \<le> i \<longrightarrow> i < length ds \<longrightarrow> ds' ! i = ds ! i) \<and>
    (\<forall>i < length args. ds' ! (n + i) = \<lparr>file_name = name_field (shortname (args ! i)), de_inode = of_nat (n + i)\<rparr>)"
  using assms
proof (induction args arbitrary: n ds)
  case (Cons a args)
  let ?d = "\<lparr>file_name = name_field (shortname a), de_inode = of_nat n\<rparr>"
  obtain ds' where r: "add_dentries args (n + 1) (ds[n := ?d]) = Inr (ds', n + 1 + length args)"
    "length ds' = length ds" "\<forall>i < n + 1. ds' ! i = ds[n := ?d] ! i"
    "\<forall>i. n + 1 + length args \<le> i \<longrightarrow> i < length ds \<longrightarrow> ds' ! i = ds[n := ?d] ! i"
    "\<forall>i < length args. ds' ! (n + 1 + i) = \<lparr>file_name = name_field (shortname (args ! i)), de_inode = of_nat (n + 1 + i)\<rparr>"
    using Cons.IH [of "n + 1" "ds[n := ?d]"] Cons.prems by auto
  have "ds' ! (n + i) = \<lparr>file_name = name_field (shortname ((a # args) ! i)), de_inode = of_nat (n + i)\<rparr>"
    if "i < Suc (length args)" for i
    using r(3,5) that Cons.prems by (cases i) auto
  then show ?case using Cons.prems r(1-4) by auto
qed simp

lemma add_inodes_ok:
  assumes "\<forall>a \<in> set args. host a \<noteq> None \<and> length (the (host a)) < 4096 * 1023"
    and "i + length args \<le> length arr" and "\<forall>x \<in> set arr. length (ino_block_num x) = 1023"
  defines "F \<equiv> map (the \<circ> host) args"
  shows "\<exists>arr'. add_inodes host args i idx arr = Inr (Some (arr', idx + sum_list (map counted F))) \<and> length arr' = length arr \<and>
    (\<forall>k < i. arr' ! k = arr ! k) \<and> (\<forall>x \<in> set arr'. length (ino_block_num x) = 1023) \<and>
    (\<forall>k < length args. ino_byte_len (arr' ! (i + k)) = of_nat (length (F ! k)) \<and>
       (\<forall>j < counted (F ! k). ino_block_num (arr' ! (i + k)) ! j = of_nat (idx + sum_list (map counted (take k F)) + j)))"
  unfolding F_def using assms(1-3)
proof (induction args arbitrary: i idx arr)
  case (Cons a args)
  obtain bs where bs: "host a = Some bs" "length bs < 4096 * 1023" using Cons.prems(1) by auto
  have small: "length bs < 2 ^ 31" using bs(2) by simp
  have c: "counted bs \<le> 1023" using bs(2) unfolding counted_def by (simp add: less_mult_imp_div_less Suc_le_eq)
  obtain ws where ws: "set_blocks (counted bs) 0 idx (ino_block_num (arr ! i)) = Inr (ws, idx + counted bs)"
    "length ws = 1023" "\<forall>k < counted bs. ws ! k = of_nat (idx + k)"
    using set_blocks_ok [of 0 "counted bs" "ino_block_num (arr ! i)" idx] c Cons.prems(2,3) by auto
  let ?x = "\<lparr>ino_byte_len = of_nat (length bs), ino_block_num = ws\<rparr>"
  have ok: "\<forall>x \<in> set (arr[i := ?x]). length (ino_block_num x) = 1023"
    using ws(2) Cons.prems(3) set_update_subset_insert [of arr i ?x] by auto
  have prems: "\<forall>a \<in> set args. host a \<noteq> None \<and> length (the (host a)) < 4096 * 1023"
    "i + 1 + length args \<le> length (arr[i := ?x])" using Cons.prems by auto
  obtain arr' where r: "add_inodes host args (i + 1) (idx + counted bs) (arr[i := ?x]) =
      Inr (Some (arr', idx + counted bs + sum_list (map counted (map (the \<circ> host) args))))"
    "length arr' = length arr" "\<forall>k < i + 1. arr' ! k = arr[i := ?x] ! k"
    "\<forall>x \<in> set arr'. length (ino_block_num x) = 1023"
    "\<forall>k < length args. ino_byte_len (arr' ! (i + 1 + k)) = of_nat (length (map (the \<circ> host) args ! k)) \<and>
       (\<forall>j < counted (map (the \<circ> host) args ! k). ino_block_num (arr' ! (i + 1 + k)) ! j =
          of_nat (idx + counted bs + sum_list (map counted (take k (map (the \<circ> host) args))) + j))"
    using Cons.IH [OF prems ok, of "idx + counted bs"] unfolding length_list_update by blast
  have "add_inodes host (a # args) i idx arr = add_inodes host args (i + 1) (idx + counted bs) (arr[i := ?x])"
    using bs(1) ws(1) Cons.prems(2) num_data_blocks_small [OF small] num_bytes_small [OF small] by simp
  then have run: "add_inodes host (a # args) i idx arr =
      Inr (Some (arr', idx + sum_list (map counted (map (the \<circ> host) (a # args)))))"
    using r(1) bs(1) by (simp add: add.assoc)
  have all: "ino_byte_len (arr' ! (i + k)) = of_nat (length (map (the \<circ> host) (a # args) ! k)) \<and>
      (\<forall>j < counted (map (the \<circ> host) (a # args) ! k). ino_block_num (arr' ! (i + k)) ! j =
         of_nat (idx + sum_list (map counted (take k (map (the \<circ> host) (a # args)))) + j))"
    if "k < length (a # args)" for k
  proof (cases k)
    case 0
    then show ?thesis using r(3) ws(3) bs(1) Cons.prems(2) by simp
  next
    case (Suc k')
    then show ?thesis using r(5) that bs(1) by (simp add: add.assoc)
  qed
  have "\<forall>k < i. arr' ! k = arr ! k" using r(3) by simp
  then show ?case using run r(2,4) all by blast
qed simp

lemma add_data_ok:
  "\<forall>a \<in> set args. host a \<noteq> None \<Longrightarrow>
   add_data host args = (0, concat (map (write_data (replicate 4096 0)) (map (the \<circ> host) args)))"
  by (induction args) auto

text \<open>The members of the structures, read from the bytes.\<close>

lemma inode_bytes_members:
  assumes "length (ino_block_num x) = 1023"
  shows "length (inode_bytes x) = 4096" "byte_len (inode_bytes x) = ino_byte_len x"
    "j < 1023 \<Longrightarrow> data_block_num (inode_bytes x) j = ino_block_num x ! j"
proof -
  show "length (inode_bytes x) = 4096"
    using assms by (simp add: inode_bytes_def length_concat comp_def sum_list_triv)
  show "byte_len (inode_bytes x) = ino_byte_len x"
    using le32_enc32 [of "[]" "ino_byte_len x" "concat (map enc32 (ino_block_num x))"]
    by (simp add: byte_len_def inode_bytes_def)
  show "data_block_num (inode_bytes x) j = ino_block_num x ! j" if "j < 1023"
    using le32_array [of j "ino_block_num x" "enc32 (ino_byte_len x)" "[]"] assms that
    by (simp add: data_block_num_def inode_bytes_def)
qed

lemma boot_bytes_members:
  assumes "length (dir_entries b) = 63" and "\<forall>d \<in> set (dir_entries b). length (file_name d) = 32"
  shows "length (boot_bytes b) = 4096" "num_dentry (boot_bytes b) = bb_num_dentry b"
    "num_inodes (boot_bytes b) = bb_num_inodes b"
    "i < 63 \<Longrightarrow> dentry_name (boot_bytes b) i = file_name (dir_entries b ! i)"
    "i < 63 \<Longrightarrow> dentry_inode (boot_bytes b) i = de_inode (dir_entries b ! i)"
proof -
  let ?head = "enc32 (bb_num_dentry b) @ enc32 (bb_num_inodes b) @ enc32 (bb_num_data b) @ replicate 52 0"
  let ?ds = "map dentry_bytes (dir_entries b)"
  have b: "boot_bytes b = ?head @ concat ?ds" "length ?head = 64" by (simp_all add: boot_bytes_def)
  have bl: "blocks_of 64 ?ds" using assms(2) by (auto simp: blocks_of_def dentry_bytes_def)
  show "length (boot_bytes b) = 4096" using b length_concat_blocks [OF bl] assms(1) by simp
  show "num_dentry (boot_bytes b) = bb_num_dentry b"
    using le32_enc32 [of "[]" "bb_num_dentry b"] by (simp add: num_dentry_def boot_bytes_def)
  show "num_inodes (boot_bytes b) = bb_num_inodes b"
    using le32_enc32 [of "enc32 (bb_num_dentry b)" "bb_num_inodes b"] by (simp add: num_inodes_def boot_bytes_def)
  assume i: "i < 63"
  have d: "length (file_name (dir_entries b ! i)) = 32" using assms i by simp
  have sl: "take k (drop (64 + (64 * i + off)) (boot_bytes b)) = take k (drop off (dentry_bytes (dir_entries b ! i)))"
    if "off + k \<le> 64" for off k
    using concat_block_slice [OF bl, of i off k] that assms(1) i b by simp
  show "dentry_name (boot_bytes b) i = file_name (dir_entries b ! i)"
    using sl [of 0 32] d by (simp add: dentry_name_def FS_NAMELEN_def dentry_bytes_def)
  have "le32 (boot_bytes b) (64 + 64 * i + 32) = le32 (dentry_bytes (dir_entries b ! i)) 32"
    using sl [of 32 4] by (simp add: le32_def add.assoc)
  also have "\<dots> = de_inode (dir_entries b ! i)"
    using le32_enc32 [of "file_name (dir_entries b ! i)" "de_inode (dir_entries b ! i)" "replicate 28 0"] d
    by (simp add: dentry_bytes_def)
  finally show "dentry_inode (boot_bytes b) i = de_inode (dir_entries b ! i)"
    by (simp add: dentry_inode_def FS_NAMELEN_def)
qed

lemma length_name_field [simp]: "length (name_field s) = 32"
  by (simp add: name_field_def)

lemma char_byte: "char_of (unat (of_nat (of_char c) :: u8)) = c"
proof -
  have "of_char c < (256 :: nat)" by simp
  then show ?thesis by (simp add: unat_of_nat)
qed

lemma name_field_string:
  assumes "NUL \<notin> set s"
  shows "takeWhile (\<lambda>c. c \<noteq> NUL) (map (\<lambda>c. char_of (unat c)) (name_field s)) = take 32 s"
proof -
  have z: "char_of (0 :: nat) = NUL" by code_simp
  have "map (\<lambda>c. char_of (unat c)) (name_field s) = take 32 s @ replicate (32 - length s) NUL"
    by (simp add: name_field_def take_map comp_def char_byte map_replicate_const min_def z)
  moreover have "\<forall>c \<in> set (take 32 s). c \<noteq> NUL" using assms by (auto dest: in_set_takeD)
  ultimately show ?thesis by (simp add: takeWhile_append2 takeWhile_replicate)
qed

lemma nth_concat_pos:
  "k < length xss \<Longrightarrow> j < length (xss ! k) \<Longrightarrow> concat xss ! (sum_list (map length (take k xss)) + j) = xss ! k ! j"
proof (induction xss arbitrary: k)
  case (Cons xs xss)
  then show ?case by (cases k) (auto simp: nth_append)
qed simp

lemma sum_list_bound: "\<forall>x \<in> set xs. f x \<le> b \<Longrightarrow> sum_list (map f xs) \<le> (b :: nat) * length xs"
  by (induction xs) auto

text \<open>
  The files of an image: what the directory, the inodes and the data blocks hold. The blocks of
  a file are where its inode says, provided no earlier file is a whole number of blocks long.
\<close>

definition image_ok :: "u8 list \<Rightarrow> (string \<times> u8 list) list \<Rightarrow> bool" where
  "image_ok D files \<longleftrightarrow> 4096 dvd length D \<and> 4096 \<le> length D \<and> length D < 2 ^ 32 \<and>
     length files \<le> 63 \<and> unat (num_dentry (disk_block D 0)) = length files \<and>
     unat (num_inodes (disk_block D 0)) = length files \<and>
     (\<forall>i < length files. dentry_string (disk_block D 0) i = fst (files ! i) \<and>
        unat (dentry_inode (disk_block D 0) i) = i \<and> file_len D i = length (snd (files ! i)) \<and>
        file_ok D (length files) i (file_len D i) \<and> own_blocks D (length files) i (file_len D i) \<and>
        file_data D (length files) i (file_len D i) = snd (files ! i))"

definition files_of :: "(string \<rightharpoonup> u8 list) \<Rightarrow> string list \<Rightarrow> (string \<times> u8 list) list" where
  "files_of host args = map (\<lambda>a. (take 32 (shortname a), the (host a))) args"

lemma unat_of_nat_u32: "n < 2 ^ 32 \<Longrightarrow> unat (of_nat n :: u32) = n"
  by (simp add: unat_of_nat)

lemma mkfs_blocks:
  assumes fit: "fits host args" and junk: "junk_ok junk"
  defines "F \<equiv> map (the \<circ> host) args"
  shows "\<exists>b arr. mkfs_main host True junk (c # img # args) =
      Inr (0, boot_bytes b # map inode_bytes arr @ concat (map (write_data (replicate 4096 0)) F)) \<and>
    length arr = length args \<and> (\<forall>x \<in> set arr. length (ino_block_num x) = 1023) \<and>
    (\<forall>k < length args. ino_byte_len (arr ! k) = of_nat (length (F ! k)) \<and>
       (\<forall>j < counted (F ! k). ino_block_num (arr ! k) ! j = of_nat (sum_list (map counted (take k F)) + j))) \<and>
    length (dir_entries b) = 63 \<and> (\<forall>d \<in> set (dir_entries b). length (file_name d) = 32) \<and>
    bb_num_dentry b = of_nat (length args) \<and> bb_num_inodes b = of_nat (length args) \<and>
    (\<forall>i < length args. dir_entries b ! i = \<lparr>file_name = name_field (shortname (args ! i)), de_inode = of_nat i\<rparr>)"
proof -
  have n: "length args \<le> 63" "\<forall>a \<in> set args. CHR ''/'' \<notin> set (shortname a)"
    "\<forall>a \<in> set args. host a \<noteq> None \<and> length (the (host a)) < 4096 * 1023" "\<forall>a \<in> set args. host a \<noteq> None"
    using fit by (auto simp: fits_def)
  obtain ds where ds: "add_dentries args 0 (replicate 63 zero_dentry) = Inr (ds, length args)" "length ds = 63"
    "\<forall>i. length args \<le> i \<longrightarrow> i < 63 \<longrightarrow> ds ! i = zero_dentry"
    "\<forall>i < length args. ds ! i = \<lparr>file_name = name_field (shortname (args ! i)), de_inode = of_nat i\<rparr>"
    using add_dentries_ok [OF n(2), of 0 "replicate 63 zero_dentry"] n(1) by auto
  have "length (file_name (ds ! i)) = 32" if "i < 63" for i
    using ds(3,4) that by (cases "i < length args") (auto simp: zero_dentry_def)
  then have dl: "\<forall>d \<in> set ds. length (file_name d) = 32" using ds(2) by (auto simp: in_set_conv_nth)
  let ?arr = "take (length args) junk"
  have j: "0 + length args \<le> length ?arr" "\<forall>x \<in> set ?arr. length (ino_block_num x) = 1023"
    using junk n(1) by (auto simp: junk_ok_def dest: in_set_takeD)
  obtain arr where arr: "add_inodes host args 0 0 ?arr = Inr (Some (arr, sum_list (map counted F)))"
    "length arr = length args" "\<forall>x \<in> set arr. length (ino_block_num x) = 1023"
    "\<forall>k < length args. ino_byte_len (arr ! k) = of_nat (length (F ! k)) \<and>
       (\<forall>j < counted (F ! k). ino_block_num (arr ! k) ! j = of_nat (sum_list (map counted (take k F)) + j))"
    using add_inodes_ok [OF n(3) j, of 0, folded F_def] j(1) unfolding add_0 by auto
  let ?b = "\<lparr>bb_num_dentry = of_nat (length args), bb_num_inodes = of_nat (length args),
    bb_num_data = of_nat (sum_list (map counted F)), dir_entries = ds\<rparr>"
  have "mkfs_main host True junk (c # img # args) =
      Inr (0, boot_bytes ?b # map inode_bytes arr @ concat (map (write_data (replicate 4096 0)) F))"
    using ds(1) arr(1) add_data_ok [OF n(4)] by (simp add: mkfs_main_def F_def)
  then show ?thesis using arr(2-4) ds(2,4) dl by (intro exI [of _ ?b] exI [of _ arr]) simp
qed

lemma counted_written:
  assumes "\<forall>f \<in> set (butlast F). \<not> 4096 dvd length f" and "k < length F"
  shows "map counted (take k F) = map length (take k (map (write_data (replicate 4096 0)) F))"
proof -
  have "take k F = take k (butlast F)" using assms(2) by (simp add: take_butlast)
  then have "\<forall>f \<in> set (take k F). \<not> 4096 dvd length f" using assms(1) by (auto dest: in_set_takeD)
  then show ?thesis by (auto simp: take_map counted_nblocks write_data_ok(2))
qed

lemma counted_bounds: "nblocks (length bs) \<le> counted bs" "length bs < 4096 * 1023 \<Longrightarrow> counted bs \<le> 1023"
proof -
  have "(length bs + 4095) div 4096 \<le> (length bs + 4096) div 4096" by (rule div_le_mono) simp
  then show "nblocks (length bs) \<le> counted bs" by (simp add: nblocks_def counted_def)
  show "length bs < 4096 * 1023 \<Longrightarrow> counted bs \<le> 1023" by (simp add: counted_def less_mult_imp_div_less Suc_le_eq)
qed

text \<open>A disk of a boot block, \<open>n\<close> inodes and the blocks of \<open>n\<close> files, one file after the other.\<close>

lemma layout:
  assumes bo: "blocks_of 4096 (bt # inos @ concat W)" and n: "length inos = n" "length W = n"
  defines "D \<equiv> concat (bt # inos @ concat W)"
  shows "length D = 4096 * (1 + n + sum_list (map length W))" "disk_block D 0 = bt"
    "k < n \<Longrightarrow> disk_block D (1 + k) = inos ! k"
    "k < n \<Longrightarrow> j < length (W ! k) \<Longrightarrow> disk_block D (1 + n + (sum_list (map length (take k W)) + j)) = W ! k ! j"
    "k < n \<Longrightarrow> j < length (W ! k) \<Longrightarrow> 4096 * (1 + (1 + n + (sum_list (map length (take k W)) + j))) \<le> length D"
proof -
  show lD: "length D = 4096 * (1 + n + sum_list (map length W))"
    using length_concat_blocks [OF bo] n by (simp add: D_def length_concat)
  have dk: "k < 1 + n + sum_list (map length W) \<Longrightarrow> disk_block D k = (bt # inos @ concat W) ! k" for k
    using concat_block [OF bo, of k] n unfolding D_def disk_block_def by (simp add: length_concat)
  show "disk_block D 0 = bt" using dk [of 0] by simp
  show "disk_block D (1 + k) = inos ! k" if "k < n" using dk [of "1 + k"] that n by (simp add: nth_append)
  assume k: "k < n" "j < length (W ! k)"
  let ?s = "sum_list (map length (take k W)) + j"
  have "W = take k W @ W ! k # drop (Suc k) W" using k(1) n(2) by (simp add: id_take_nth_drop)
  then have "sum_list (map length W) = sum_list (map length (take k W @ W ! k # drop (Suc k) W))" by simp
  then have s: "?s < sum_list (map length W)" using k(2) by simp
  show "disk_block D (1 + n + ?s) = W ! k ! j"
    using dk [of "1 + n + ?s"] s nth_concat_pos [of k W j] k n by (simp add: nth_append)
  show "4096 * (1 + (1 + n + ?s)) \<le> length D" using s lD by simp
qed

lemma layout_file:
  assumes bo: "blocks_of 4096 (bt # inos @ concat W)" and n: "length inos = n" "length W = n" and k: "k < n"
    and num: "\<forall>j < length (W ! k). unat (data_block_num (inos ! k) j) = sum_list (map length (take k W)) + j"
  defines "D \<equiv> concat (bt # inos @ concat W)"
  shows "file_blocks D n k (length (W ! k)) = W ! k"
    "\<forall>j < length (W ! k). 4096 * (1 + block_no D n k j) \<le> length D" "inj_on (block_no D n k) {..<length (W ! k)}"
proof -
  note l = layout [OF bo n, folded D_def]
  have bn: "block_no D n k j = 1 + n + (sum_list (map length (take k W)) + j)" if "j < length (W ! k)" for j
    using num that l(3) [OF k] by (simp add: block_no_def)
  have "file_blocks D n k (length (W ! k)) = map ((!) (W ! k)) [0..<length (W ! k)]"
    unfolding file_blocks_def using bn l(4) [OF k] by simp
  then show "file_blocks D n k (length (W ! k)) = W ! k" by (simp add: map_nth)
  show "\<forall>j < length (W ! k). 4096 * (1 + block_no D n k j) \<le> length D" using bn l(5) [OF k] by simp
  show "inj_on (block_no D n k) {..<length (W ! k)}" using bn by (intro inj_onI) simp
qed

lemma sum_counted_bound:
  assumes "\<forall>f \<in> set F. length f < 4096 * 1023" and "length F \<le> 63"
  shows "sum_list (map counted (take k F)) \<le> 1023 * 63"
    "sum_list (map length (map (write_data (replicate 4096 0)) F)) \<le> 1023 * 63"
proof -
  have c: "\<forall>f \<in> set F. counted f \<le> 1023" using assms(1) counted_bounds(2) by blast
  then have "sum_list (map counted (take k F)) \<le> 1023 * length (take k F)"
    by (intro sum_list_bound) (auto dest: in_set_takeD)
  then show "sum_list (map counted (take k F)) \<le> 1023 * 63" using assms(2) by simp
  have "\<forall>f \<in> set F. nblocks (length f) \<le> 1023" using c counted_bounds(1) order_trans by blast
  then have "sum_list (map (\<lambda>f. nblocks (length f)) F) \<le> 1023 * length F" by (rule sum_list_bound)
  then show "sum_list (map length (map (write_data (replicate 4096 0)) F)) \<le> 1023 * 63"
    using assms(2) by (simp add: comp_def write_data_ok(2))
qed

lemma mkfs_image:
  assumes fit: "fits host args" and junk: "junk_ok junk"
    and whole: "\<forall>a \<in> set (butlast args). \<not> 4096 dvd length (the (host a))"
  shows "\<exists>blocks. mkfs_main host True junk (c # img # args) = Inr (0, blocks) \<and>
    image_ok (concat blocks) (files_of host args)"
proof -
  define F where "F = map (the \<circ> host) args"
  define W where "W = map (write_data (replicate 4096 0)) F"
  let ?n = "length args"
  obtain b arr where r: "mkfs_main host True junk (c # img # args) = Inr (0, boot_bytes b # map inode_bytes arr @ concat W)"
    "length arr = ?n" "\<forall>x \<in> set arr. length (ino_block_num x) = 1023"
    "\<forall>k < ?n. ino_byte_len (arr ! k) = of_nat (length (F ! k)) \<and>
       (\<forall>j < counted (F ! k). ino_block_num (arr ! k) ! j = of_nat (sum_list (map counted (take k F)) + j))"
    "length (dir_entries b) = 63" "\<forall>d \<in> set (dir_entries b). length (file_name d) = 32"
    "bb_num_dentry b = of_nat ?n" "bb_num_inodes b = of_nat ?n"
    "\<forall>i < ?n. dir_entries b ! i = \<lparr>file_name = name_field (shortname (args ! i)), de_inode = of_nat i\<rparr>"
    using mkfs_blocks [OF fit junk, of c img] unfolding F_def [symmetric] W_def [symmetric] by blast
  note bb = boot_bytes_members [OF r(5,6)]
  have n63: "?n \<le> 63" and lenF: "\<forall>f \<in> set F. length f < 4096 * 1023" and nf: "length F = ?n" and nw: "length W = ?n"
    using fit by (auto simp: fits_def F_def W_def)
  have wk: "k < ?n \<Longrightarrow> W ! k = write_data (replicate 4096 0) (F ! k)" for k by (simp add: W_def nf)
  have lw: "k < ?n \<Longrightarrow> length (W ! k) = nblocks (length (F ! k))" for k using wk write_data_ok(2) by simp
  have Fk: "k < ?n \<Longrightarrow> length (F ! k) < 4096 * 1023" for k using lenF nf by simp
  have "blocks_of 4096 (map inode_bytes arr)" using r(3) inode_bytes_members(1) by (simp add: blocks_of_def)
  moreover have "blocks_of 4096 (concat W)"
    using write_data_ok(1) [of "replicate 4096 0"] by (auto simp: blocks_of_def W_def)
  ultimately have bo: "blocks_of 4096 (boot_bytes b # map inode_bytes arr @ concat W)" using bb(1) by simp
  have ni: "length (map inode_bytes arr) = ?n" using r(2) by simp
  define D where "D = concat (boot_bytes b # map inode_bytes arr @ concat W)"
  note l = layout [OF bo ni nw, folded D_def]
  have D32: "length D < 2 ^ 32" using l(1) n63 sum_counted_bound(2) [OF lenF] nf by (simp add: W_def)
  have content: "file_len D k = length (F ! k)" "file_ok D ?n k (length (F ! k))" "own_blocks D ?n k (length (F ! k))"
    "file_data D ?n k (length (F ! k)) = F ! k" if k: "k < ?n" for k
  proof -
    have x: "length (ino_block_num (arr ! k)) = 1023" using r(2,3) k by simp
    have ino: "disk_block D (1 + k) = inode_bytes (arr ! k)" using l(3) [OF k] r(2) k by simp
    have "unat (of_nat (length (F ! k)) :: u32) = length (F ! k)" using Fk [OF k] by (intro unat_of_nat_u32) simp
    then show "file_len D k = length (F ! k)"
      using r(4) k ino inode_bytes_members(2) [OF x] by (simp add: file_len_def)
    have "map counted (take k F) = map length (take k W)"
      unfolding W_def using whole k nf by (intro counted_written) (auto simp: F_def map_butlast [symmetric])
    then have num: "unat (data_block_num (map inode_bytes arr ! k) j) = sum_list (map length (take k W)) + j"
      if "j < length (W ! k)" for j
    proof -
      have j: "j < counted (F ! k)" "j < 1023"
        using that lw [OF k] counted_bounds(1) [of "F ! k"] counted_bounds(2) [OF Fk [OF k]] by linarith+
      then have s: "sum_list (map counted (take k F)) + j < 2 ^ 32" using sum_counted_bound(1) [OF lenF, of k] nf n63 by simp
      have d: "data_block_num (map inode_bytes arr ! k) j = of_nat (sum_list (map counted (take k F)) + j)"
        using inode_bytes_members(3) [OF x j(2)] r(2,4) k j(1) by simp
      show ?thesis unfolding d unat_of_nat_u32 [OF s] using \<open>map counted _ = _\<close> by simp
    qed
    note lf = layout_file [OF bo ni nw k, folded D_def] num
    show "file_ok D ?n k (length (F ! k))"
      using D32 lf(2) num lw [OF k] Fk [OF k] l(1) k by (simp add: file_ok_def)
    show "own_blocks D ?n k (length (F ! k))" using lf(3) num lw [OF k] k by (simp add: own_blocks_def)
    show "file_data D ?n k (length (F ! k)) = F ! k"
      using lf(1) num lw [OF k] wk [OF k] write_data_ok(3) by (simp add: file_data_def)
  qed
  have dnames: "dentry_string (boot_bytes b) i = take 32 (shortname (args ! i)) \<and> dentry_inode (boot_bytes b) i = of_nat i"
    if "i < ?n" for i
  proof -
    have "NUL \<notin> set (shortname (args ! i))" using fit that by (simp add: fits_def)
    then show ?thesis using bb(4,5) [of i] that n63 r(9) by (simp add: dentry_string_def name_field_string)
  qed
  have fi: "length (files_of host args) = ?n" "i < ?n \<Longrightarrow> files_of host args ! i = (take 32 (shortname (args ! i)), F ! i)" for i
    by (simp_all add: files_of_def F_def)
  have "image_ok D (files_of host args)"
    unfolding image_ok_def fi(1)
    using l(1,2) D32 n63 bb(2,3) r(7,8) content dnames fi(2) by (simp add: unat_of_nat_u32)
  then show ?thesis using r(1) by (auto simp: D_def)
qed

section \<open>Mounting the image\<close>

text \<open>The file system before it is mounted: its buffers have the size of a block.\<close>

definition fs_fresh :: "'d fs \<Rightarrow> bool" where
  "fs_fresh fs \<longleftrightarrow> \<not> fs_initialized fs \<and> length (boot_block fs) = 4096 \<and> length (fs_inode fs) = 4096 \<and>
     length (data_block fs) = 4096"

lemma find_upt:
  assumes "i < n" and "P i" and "\<And>j. j < n \<Longrightarrow> P j \<Longrightarrow> j = i"
  shows "List.find P [0..<n] = Some i"
proof -
  have "\<forall>j < i. \<not> P j" using assms(1,3) by (metis less_irrefl less_trans)
  then show ?thesis unfolding find_Some_iff using assms(1,2) by (intro exI [of _ i]) simp
qed

lemma find_slot_fresh: "find_file_slot (replicate FS_MAXOPEN zero_file) 0 = Some 0"
proof -
  have "replicate FS_MAXOPEN zero_file = zero_file # replicate 31 zero_file"
    using replicate_Suc [of 31 zero_file] by (simp add: FS_MAXOPEN_def)
  then show ?thesis by (simp add: zero_file_def)
qed

context block_device
begin

lemma fs_mount_ok:
  assumes "fs_fresh fs" and "ok dev" and "4096 \<le> length (disk dev)" and "unat (num_dentry (disk_block (disk dev) 0)) \<le> 63"
  shows "\<exists>fs'. fs_mount ops dev fs = Inr (0, fs') \<and> fs_ready ok disk fs' \<and> fs_disk disk fs' = disk dev \<and>
    file_structs fs' = replicate FS_MAXOPEN zero_file"
proof -
  obtain d1 d2 where r: "call_ctl ops IOCTL_SETPOS 0 dev = Inr (0, 0, d1)"
    "call_read ops 4096 d1 = Inr (4096, disk_block (disk dev) 0, d2)" "ok d2" "disk d2 = disk dev"
    using read_at [OF assms(2), of 0 4096] assms(3) by (auto simp: disk_block_def)
  have rd: "ioread ops FS_BLKSZ d1 = Inr (4096, disk_block (disk dev) 0, d2)"
    using r(2) by (cases "op_read ops") (simp_all add: ioread_def call_read_def FS_BLKSZ_def)
  have l: "length (disk_block (disk dev) 0) = 4096" using assms(3) by (intro length_disk_block) simp
  then have p: "put_at 0 (disk_block (disk dev) 0) (boot_block fs) = disk_block (disk dev) 0"
    using assms(1) by (intro put_at_whole) (simp add: fs_fresh_def)
  show ?thesis
    using assms(1,4) r(1,3,4) rd l p by (simp add: fs_mount_def Let_def fs_fresh_def fs_ready_def fs_disk_def)
qed

lemma image_open:
  assumes img: "image_ok (disk dev) files" and dist: "distinct (map fst files)" and i: "i < length files"
    and nm: "NUL \<notin> set name" "take 32 name = fst (files ! i)" and dev: "ok dev" and fs: "fs_fresh fs"
  obtains f1 f2 where "fs_mount ops dev fs = Inr (0, f1)" and "fs_open ops name f1 = Inr ((0, Some 0), f2)"
    and "fs_wf ok disk 0 f2" and "fs_contents disk 0 f2 = snd (files ! i)" and "fs_at 0 f2 = 0" and "length (snd (files ! i)) < 2 ^ 63"
proof -
  let ?D = "disk dev" and ?n = "length files"
  have g: "4096 \<le> length ?D" "?n \<le> 63" "unat (num_dentry (disk_block ?D 0)) = ?n" "unat (num_inodes (disk_block ?D 0)) = ?n"
    "\<forall>j < ?n. dentry_string (disk_block ?D 0) j = fst (files ! j)" "unat (dentry_inode (disk_block ?D 0) i) = i"
    "file_len ?D i = length (snd (files ! i))" "file_ok ?D ?n i (file_len ?D i)" "file_data ?D ?n i (file_len ?D i) = snd (files ! i)"
    using img i unfolding image_ok_def by blast+
  obtain f1 where f1: "fs_mount ops dev fs = Inr (0, f1)" "fs_ready ok disk f1" "fs_disk disk f1 = ?D"
    "file_structs f1 = replicate FS_MAXOPEN zero_file"
    using fs_mount_ok [OF fs dev g(1)] g(2,3) by auto
  have b: "boot_block f1 = disk_block ?D 0" using f1(2,3) by (simp add: fs_ready_def)
  have inj: "j = i" if "j < ?n" "fst (files ! j) = fst (files ! i)" for j
    using nth_eq_iff_index_eq [OF dist, of j i] that i by simp
  have "List.find (\<lambda>j. dentry_string (disk_block ?D 0) j = take 32 name) [0..<?n] = Some i"
    using g(5) i nm(2) inj by (intro find_upt) auto
  then have look: "lookup_name (boot_block f1) name = Some i" using g(3) b by (simp add: lookup_name_def)
  obtain f2 where f2: "fs_open ops name f1 = Inr ((0, Some 0), f2)" "fs_wf ok disk 0 f2"
    "fs_contents disk 0 f2 = snd (files ! i)" "fs_at 0 f2 = 0"
    using fs_open_ok [OF f1(2) nm(1) _ look, of 0] f1(3,4) b g(4,6,8,9) find_slot_fresh by auto
  have "length (snd (files ! i)) < 2 ^ 63" using g(7,8) by (simp add: file_ok_def)
  then show ?thesis using that f1(1) f2 by blast
qed

lemma image_open_read:
  assumes img: "image_ok (disk dev) files" and dist: "distinct (map fst files)" and i: "i < length files"
    and nm: "NUL \<notin> set name" "take 32 name = fst (files ! i)" and dev: "ok dev" and fs: "fs_fresh fs"
  shows "\<exists>f1 f2 f3. fs_mount ops dev fs = Inr (0, f1) \<and> fs_open ops name f1 = Inr ((0, Some 0), f2) \<and>
    fs_read ops 0 (length (snd (files ! i))) f2 = Inr (int (length (snd (files ! i))), snd (files ! i), f3)"
proof -
  obtain f1 f2 where f: "fs_mount ops dev fs = Inr (0, f1)" "fs_open ops name f1 = Inr ((0, Some 0), f2)" "fs_wf ok disk 0 f2"
      "fs_contents disk 0 f2 = snd (files ! i)" "fs_at 0 f2 = 0" "length (snd (files ! i)) < 2 ^ 63"
    using image_open [OF assms] by blast
  then obtain f3 where "fs_read ops 0 (length (snd (files ! i))) f2 =
      Inr (int (length (snd (files ! i))), snd (files ! i), f3)"
    using fs_read_ok [OF f(3)] by fastforce
  then show ?thesis using f(1,2) by blast
qed

end

section \<open>Correctness properties\<close>

text \<open>
  C4. What \<open>mkfs\<close> stores the kernel reads back. For files that fit the format, no file but the
  last being a whole number of blocks long, and names that differ in their first 32 characters,
  \<open>mkfs\<close> succeeds; when the block device holds the image, mounting it, opening any of the files by
  name and reading it to its length all succeed and return exactly the bytes of the host's file.
  The contents of the uninitialised array of inodes do not matter.
\<close>

theorem mkfs_kernel_roundtrip:
  assumes "fits host args" and "junk_ok junk" and "\<forall>a \<in> set (butlast args). \<not> 4096 dvd length (the (host a))"
    and "distinct (map (\<lambda>a. take 32 (shortname a)) args)" and "i < length args" and dev: "virtio_ok serve contents"
  shows "\<exists>blocks. mkfs_main host True junk (c # img # args) = Inr (0, blocks) \<and>
    (\<forall>dev fs. vb_wf contents dev \<and> \<not> vb_lock dev \<and> vb_data contents dev = concat blocks \<and> fs_fresh fs \<longrightarrow>
      (\<exists>f1 f2 f3. fs_mount (vioblk_io_ops serve) dev fs = Inr (0, f1) \<and>
        fs_open (vioblk_io_ops serve) (shortname (args ! i)) f1 = Inr ((0, Some 0), f2) \<and>
        fs_read (vioblk_io_ops serve) 0 (length (the (host (args ! i)))) f2 =
          Inr (int (length (the (host (args ! i)))), the (host (args ! i)), f3)))"
proof -
  obtain blocks where m: "mkfs_main host True junk (c # img # args) = Inr (0, blocks)"
    "image_ok (concat blocks) (files_of host args)" using mkfs_image [OF assms(1-3)] by blast
  have f: "distinct (map fst (files_of host args))" "i < length (files_of host args)"
    "files_of host args ! i = (take 32 (shortname (args ! i)), the (host (args ! i)))"
    using assms(4,5) by (simp_all add: files_of_def comp_def)
  have n: "NUL \<notin> set (shortname (args ! i))" using assms(1,5) by (simp add: fits_def)
  show ?thesis
    using m block_device.image_open_read [OF vioblk_block_device [OF dev] _ f(1,2) n] f(3) by auto
qed

text \<open>
  C40. A file of exactly one block is given two block numbers but only one block of the image, so
  the blocks of the next file are not where its inode says: its one block is block 4 of an image
  of five blocks, and the inode points to block 5, past the end.
\<close>

theorem mkfs_whole_block_overrun:
  assumes "fits host [a, b]" and "junk_ok junk" and "length (the (host a)) = 4096"
    and "0 < length (the (host b))" and "length (the (host b)) < 4096"
  shows "\<exists>blocks. mkfs_main host True junk [c, img, a, b] = Inr (0, blocks) \<and> length blocks = 5 \<and>
    take (length (the (host b))) (blocks ! 4) = the (host b) \<and> block_no (concat blocks) 2 1 0 = 5"
proof -
  let ?F = "[the (host a), the (host b)]" and ?w = "write_data (replicate 4096 0)"
  obtain bt arr where r: "mkfs_main host True junk [c, img, a, b] =
      Inr (0, boot_bytes bt # map inode_bytes arr @ concat (map ?w ?F))"
    "length arr = 2" "\<forall>x \<in> set arr. length (ino_block_num x) = 1023"
    "\<forall>k < 2. \<forall>j < counted (?F ! k). ino_block_num (arr ! k) ! j = of_nat (sum_list (map counted (take k ?F)) + j)"
    "length (dir_entries bt) = 63" "\<forall>d \<in> set (dir_entries bt). length (file_name d) = 32"
    using mkfs_blocks [OF assms(1,2), of c img] by (auto simp: numeral_2_eq_2)
  have c: "counted (the (host a)) = 2" "0 < counted (the (host b))" using assms(3) by (simp_all add: counted_def)
  have na: "nblocks (length (the (host a))) = 1" "nblocks (length (the (host b))) = 1"
  proof -
    show "nblocks (length (the (host a))) = 1" using assms(3) by (simp add: nblocks_def)
    have "(length (the (host b)) + 4095) div 4096 = 1" using assms(4,5) by (intro div_nat_eqI) (simp_all add: Suc_le_eq)
    then show "nblocks (length (the (host b))) = 1" by (simp add: nblocks_def)
  qed
  note wd = write_data_ok [of "replicate 4096 0", simplified]
  obtain wa wb where w: "?w (the (host a)) = [wa]" "?w (the (host b)) = [wb]"
    using wd(2) [of "the (host a)"] wd(2) [of "the (host b)"] na by (auto simp: length_Suc_conv)
  obtain x y where arr: "arr = [x, y]" using r(2) by (auto simp: length_Suc_conv numeral_2_eq_2)
  have l: "length (boot_bytes bt) = 4096" "length (inode_bytes x) = 4096" "length (inode_bytes y) = 4096"
    using boot_bytes_members(1) [OF r(5,6)] inode_bytes_members(1) r(3) arr by auto
  have "data_block_num (inode_bytes y) 0 = of_nat 2"
    using inode_bytes_members(3) [of y 0] r(3,4) arr c by (auto simp: numeral_2_eq_2)
  then have bn: "block_no (concat (boot_bytes bt # map inode_bytes arr @ concat (map ?w ?F))) 2 1 0 = 5"
    using arr l by (simp add: block_no_def disk_block_def)
  have "take (length (the (host b))) wb = the (host b)" using wd(3) [of "the (host b)"] w(2) by simp
  moreover have "(boot_bytes bt # map inode_bytes arr @ concat (map ?w ?F)) ! 4 = wb"
    using arr w by (simp add: eval_nat_numeral)
  moreover have "length (boot_bytes bt # map inode_bytes arr @ concat (map ?w ?F)) = 5" using arr w by simp
  ultimately show ?thesis using r(1) bn by metis
qed

text \<open>Two files of the host, one of them a whole block, and a stack full of ones.\<close>

definition demo_host :: "string \<rightharpoonup> u8 list" where
  "demo_host = [''user/bin/a'' \<mapsto> [1, 2, 3], ''b'' \<mapsto> [4, 5], ''w'' \<mapsto> replicate 4096 7]"

definition demo_junk :: "mk_inode list" where
  "demo_junk = replicate 63 \<lparr>ino_byte_len = 1, ino_block_num = replicate 1023 1\<rparr>"

lemma demo_junk_ok: "junk_ok demo_junk"
  by (simp add: junk_ok_def demo_junk_def)

lemma demo_shortnames: "shortname ''user/bin/a'' = ''a''" "shortname ''b'' = ''b''" "shortname ''w'' = ''w''"
  by (simp_all add: shortname_def)

lemma demo_host_files: "demo_host ''user/bin/a'' = Some [1, 2, 3]" "demo_host ''b'' = Some [4, 5]"
  "demo_host ''w'' = Some (replicate 4096 7)"
  by (simp_all add: demo_host_def)

definition raw_fs :: "u8 list vioblk fs" where
  "raw_fs = demo_fs\<lparr>fs_initialized := False, boot_block := replicate 4096 0\<rparr>"

theorem mkfs_kernel_roundtrip_witness:
  "\<exists>blocks dev f1 f2 f3. mkfs_main demo_host True demo_junk [''mkfs'', ''kfs.raw'', ''user/bin/a'', ''b''] = Inr (0, blocks) \<and>
     fs_mount (vioblk_io_ops serve_disk) dev raw_fs = Inr (0, f1) \<and>
     fs_open (vioblk_io_ops serve_disk) ''b'' f1 = Inr ((0, Some 0), f2) \<and>
     fs_read (vioblk_io_ops serve_disk) 0 2 f2 = Inr (2, [4, 5], f3)"
proof -
  let ?args = "[''user/bin/a'', ''b'']"
  have fit: "fits demo_host ?args" by (simp add: fits_def demo_shortnames demo_host_files)
  have whole: "\<forall>a \<in> set (butlast ?args). \<not> 4096 dvd length (the (demo_host a))" by (simp add: demo_host_files dvd_eq_mod_eq_0)
  have names: "distinct (map (\<lambda>a. take 32 (shortname a)) ?args)" by (simp add: demo_shortnames)
  obtain blocks where m: "mkfs_main demo_host True demo_junk (''mkfs'' # ''kfs.raw'' # ?args) = Inr (0, blocks)"
    "image_ok (concat blocks) (files_of demo_host ?args)" using mkfs_image [OF fit demo_junk_ok whole] by blast
  define dev :: "u8 list vioblk" where
    "dev = vioblk_attach_dev 512 (of_nat (length (concat blocks) div 512)) (replicate 512 0) (0, 0, 0) zero_regs (concat blocks)"
  have "4096 dvd length (concat blocks)" "length (concat blocks) < 2 ^ 32" using m(2) unfolding image_ok_def by blast+
  moreover from this(1) have d: "512 dvd length (concat blocks)" by (rule dvd_trans [rotated]) simp
  moreover have "of_nat (length (concat blocks) div 512) * 512 = (of_nat (length (concat blocks)) :: u64)"
    using d by (metis dvd_div_mult_self of_nat_mult of_nat_numeral)
  ultimately have dev: "vb_wf (\<lambda>hw. hw) dev \<and> \<not> vb_lock dev \<and> vb_data (\<lambda>hw. hw) dev = concat blocks \<and> fs_fresh raw_fs"
    by (simp add: vb_wf_def vb_data_def dev_def vioblk_attach_dev_def fs_fresh_def raw_fs_def demo_fs_def)
  have i: "1 < length ?args" by simp
  have "shortname (?args ! 1) = ''b''" "the (demo_host (?args ! 1)) = [4, 5]" "length [4, 5 :: u8] = 2" "int 2 = 2"
    by (simp_all add: demo_shortnames demo_host_files)
  note e = this
  from mkfs_kernel_roundtrip [OF fit demo_junk_ok whole names i serve_disk_ok, of "''mkfs''" "''kfs.raw''", unfolded e] m(1)
  obtain f1 f2 f3 where "fs_mount (vioblk_io_ops serve_disk) dev raw_fs = Inr (0, f1)"
     "fs_open (vioblk_io_ops serve_disk) ''b'' f1 = Inr ((0, Some 0), f2)"
     "fs_read (vioblk_io_ops serve_disk) 0 2 f2 = Inr (2, [4, 5], f3)" using dev by force
  with m(1) show ?thesis by blast
qed

theorem mkfs_whole_block_overrun_witness:
  "\<exists>blocks. mkfs_main demo_host True demo_junk [''mkfs'', ''kfs.raw'', ''w'', ''b''] = Inr (0, blocks) \<and>
     block_no (concat blocks) 2 1 0 = 5 \<and> length blocks = 5"
proof -
  have fit: "fits demo_host [''w'', ''b'']" by (simp add: fits_def demo_shortnames demo_host_files)
  have l: "length (the (demo_host ''w'')) = 4096" "0 < length (the (demo_host ''b''))" "length (the (demo_host ''b'')) < 4096"
    by (simp_all add: demo_host_files)
  show ?thesis using mkfs_whole_block_overrun [OF fit demo_junk_ok l, of "''mkfs''" "''kfs.raw''"] by blast
qed

end
