(* ===== verification/UserMem.thy ===== *)
theory UserMem
  imports Memory Bytes
begin

text \<open>
  Loads and stores of the kernel through the page table of the active space, as the processor
  performs them in supervisor mode, and the user part of an address space as a memory of bytes.

  \<open>vtop\<close> is the Sv39 translation with its three levels; a store needs a valid leaf with the W bit,
  and a page of the user is accessible while \<open>SUM\<close> is set. An access that does not translate is a
  page fault in supervisor mode, which \<open>smode_excp_handler\<close> of \<open>kern/excp.c\<close> turns into a panic.
  The tables map the memory of the kernel itself readable and writable outside the user part. The
  structures the kernel keeps there are fields of the state and not words of \<open>pmem\<close>, so what a
  store through a pointer outside the user part does to them, and what a load finds there, is not
  known: such an access is the fault \<open>UndefinedAccess\<close>.
  Physical memory is a map of 64-bit words; \<open>load_byte\<close> and \<open>store_byte\<close> address its bytes.

  \<open>user_space\<close> says that the pages of a set are mapped to frames that are distinct, not free and
  not page tables. Mapping a page, storing bytes and changing flags keep it, and change only the
  bytes they should.
\<close>

section \<open>Access through the page table\<close>

fun vtop :: "nat \<Rightarrow> (u64 \<Rightarrow> u64) \<Rightarrow> u64 \<Rightarrow> u64 \<Rightarrow> (pte \<times> u64) option" where
  "vtop 0 m t va =
     (let p = entry m t (VPN 0 va) in if is_leaf p then Some (p, pte_page p + va mod 4096) else None)"
| "vtop (Suc l) m t va =
     (let p = entry m t (VPN (Suc l) va) in
      if is_leaf p then Some (p, pte_page p + va mod 2 ^ (9 * Suc l + 12))
      else if is_table p then vtop l m (pte_page p) va else None)"

definition load_byte :: "(u64 \<Rightarrow> u64) \<Rightarrow> u64 \<Rightarrow> u8" where
  "load_byte m a = ucast (drop_bit (8 * unat (a mod 8)) (m (a - a mod 8)))"

definition set_byte :: "u64 \<Rightarrow> nat \<Rightarrow> u8 \<Rightarrow> u64" where
  "set_byte w k b = (w AND NOT (push_bit (8 * k) 0xFF)) OR push_bit (8 * k) (ucast b)"

definition store_byte :: "(u64 \<Rightarrow> u64) \<Rightarrow> u64 \<Rightarrow> u8 \<Rightarrow> (u64 \<Rightarrow> u64)" where
  "store_byte m a b = m(a - a mod 8 := set_byte (m (a - a mod 8)) (unat (a mod 8)) b)"

definition may_store :: "'a vm_scheme \<Rightarrow> pte \<Rightarrow> bool" where
  "may_store st p \<longleftrightarrow> pte_flags p AND PTE_W \<noteq> 0 \<and> (pte_flags p AND PTE_U \<noteq> 0 \<longrightarrow> sstatus_sum st)"

definition vstore :: "u64 \<Rightarrow> u8 \<Rightarrow> 'a vm_scheme \<Rightarrow> 'a vm_scheme res" where
  "vstore va b st =
     (case vtop 2 (pmem st) (active_space_root st) va of
        None \<Rightarrow> Inl (Panic [])
      | Some (p, pa) \<Rightarrow>
          if \<not> (wellformed_vma va \<and> may_store st p) then Inl (Panic [])
          else if va < USER_START_VMA \<or> USER_END_VMA \<le> va then Inl UndefinedAccess
          else Inr (st\<lparr>pmem := store_byte (pmem st) pa b\<rparr>))"

fun vstore_bytes :: "u64 \<Rightarrow> u8 list \<Rightarrow> 'a vm_scheme \<Rightarrow> 'a vm_scheme res" where
  "vstore_bytes va [] st = Inr st"
| "vstore_bytes va (b # bs) st = bind_res (vstore va b st) (vstore_bytes (va + 1) bs)"

definition may_load :: "'a vm_scheme \<Rightarrow> pte \<Rightarrow> bool" where
  "may_load st p \<longleftrightarrow> pte_flags p AND PTE_R \<noteq> 0 \<and> (pte_flags p AND PTE_U \<noteq> 0 \<longrightarrow> sstatus_sum st)"

definition vload :: "'a vm_scheme \<Rightarrow> u64 \<Rightarrow> u8 res" where
  "vload st va =
     (case vtop 2 (pmem st) (active_space_root st) va of
        None \<Rightarrow> Inl (Panic [])
      | Some (p, pa) \<Rightarrow>
          if \<not> (wellformed_vma va \<and> may_load st p) then Inl (Panic [])
          else if va < USER_START_VMA \<or> USER_END_VMA \<le> va then Inl UndefinedAccess
          else Inr (load_byte (pmem st) pa))"

fun vload_bytes :: "'a vm_scheme \<Rightarrow> u64 \<Rightarrow> nat \<Rightarrow> u8 list res" where
  "vload_bytes st va 0 = Inr []"
| "vload_bytes st va (Suc n) =
     bind_res (vload st va) (\<lambda>b. bind_res (vload_bytes st (va + 1) n) (\<lambda>bs. Inr (b # bs)))"

section \<open>Bytes of words\<close>

lemma bit_set_byte:
  "bit (set_byte w k b) n \<longleftrightarrow>
     (if 8 * k \<le> n \<and> n < 8 * k + 8 \<and> n < 64 then bit b (n - 8 * k) else bit w n)"
proof -
  have e: "(0xFF :: u64) = mask 8" by (simp add: mask_eq_exp_minus_1)
  show ?thesis
    unfolding set_byte_def e bit_or_iff bit_and_iff bit_not_iff bit_push_bit_iff bit_mask_iff possible_bit_word bit_ucast_iff
    using bit_imp_le_length [of w n] bit_imp_le_length [of b "n - 8 * k"] by auto
qed

lemma byte_set_byte:
  assumes "k < 8" and "k' < 8"
  shows "(ucast (drop_bit (8 * k') (set_byte w k b)) :: u8) = (if k = k' then b else ucast (drop_bit (8 * k') w))"
proof (rule bit_word_eqI)
  fix n assume "n < LENGTH(8)"
  then have n: "n < 8" by simp
  have "8 * k \<le> 8 * k' + n \<and> 8 * k' + n < 8 * k + 8 \<longleftrightarrow> k = k'" using n by auto
  then show "bit (ucast (drop_bit (8 * k') (set_byte w k b)) :: u8) n =
      bit (if k = k' then b else ucast (drop_bit (8 * k') w)) n"
    using n assms by (auto simp: bit_simps bit_set_byte)
qed

lemma load_store_byte:
  "load_byte (store_byte m a b) a' = (if a' = a then b else load_byte m a')"
proof (cases "a - a mod 8 = a' - a' mod 8")
  case True
  have lt: "unat (x mod 8) < 8" for x :: u64 by (simp add: unat_mod_distrib)
  have "a = a' \<longleftrightarrow> unat (a mod 8) = unat (a' mod 8)"
    using True by (metis diff_add_cancel word_unat_eq_iff)
  then show ?thesis
    using True byte_set_byte [OF lt lt] by (auto simp: load_byte_def store_byte_def)
next
  case False
  then show ?thesis by (auto simp: load_byte_def store_byte_def)
qed

text \<open>The word that holds a byte of a page lies in the page.\<close>

lemma word_in_page:
  assumes "page_aligned g" and "x < PAGE_SIZE"
  shows "(g + x) - (g + x) mod 8 - g < PAGE_SIZE" and "(g + x) - g < PAGE_SIZE"
proof -
  obtain k where k: "unat g = 4096 * k" using assms(1) by (auto simp: aligned_def)
  have ux: "unat x < 4096" using assms(2) by (simp add: word_less_nat_alt)
  have "unat ((g + x) mod 8) = unat (g + x) mod 8" by (simp add: unat_mod_distrib)
  also have "\<dots> = (unat g + unat x) mod 8" by (simp add: unat_word_ariths mod_mod_cancel)
  also have "unat g + unat x = unat x + 8 * (512 * k)" using k by simp
  also have "\<dots> mod 8 = unat x mod 8" by (rule mod_mult_self2)
  finally have m: "unat ((g + x) mod 8) = unat x mod 8" .
  have "(g + x) - (g + x) mod 8 - g = x - (g + x) mod 8" by simp
  moreover have "unat (x - (g + x) mod 8) \<le> unat x"
    using m by (simp add: unat_minus_if word_le_nat_alt)
  ultimately show "(g + x) - (g + x) mod 8 - g < PAGE_SIZE" using ux by (simp add: word_less_nat_alt)
  show "(g + x) - g < PAGE_SIZE" using assms(2) by simp
qed

section \<open>The user part of the address space\<close>

text \<open>Addresses of the user part by their distance from its start; page \<open>i\<close> holds the distances with quotient \<open>i\<close>.\<close>

definition ua :: "nat \<Rightarrow> u64" where
  "ua n = USER_START_VMA + of_nat n"

lemma unat_ua: "n < 2 ^ 28 \<Longrightarrow> unat (ua n) = 0xC0000000 + n"
  by (simp add: ua_def USER_START_VMA_def unat_word_ariths unat_of_nat)

lemma ua_add: "ua n + of_nat k = ua (n + k)"
  by (simp add: ua_def add.assoc)

lemma ua_small: "n < 2 ^ 28 \<Longrightarrow> ua n < 2 ^ 38 \<and> ua n < 2 ^ 39"
  by (simp add: word_less_nat_alt unat_ua)

lemma ua_range: "n < 2 ^ 28 \<Longrightarrow> USER_START_VMA \<le> ua n \<and> ua n < USER_END_VMA"
  by (simp add: word_less_nat_alt word_le_nat_alt unat_ua) (simp add: USER_START_VMA_def USER_END_VMA_def)

lemma ua_same_vpage: "n < 2 ^ 28 \<Longrightarrow> n' < 2 ^ 28 \<Longrightarrow> same_vpage (ua n) (ua n') \<longleftrightarrow> n div 4096 = n' div 4096"
proof -
  assume n: "n < 2 ^ 28" "n' < 2 ^ 28"
  have "(0xC0000000 + k) div 4096 = 0xC0000 + k div (4096 :: nat)" for k by simp
  then show ?thesis
    using same_vpage_iff [of "ua n" "ua n'"] ua_small [OF n(1)] ua_small [OF n(2)] unat_ua [OF n(1)] unat_ua [OF n(2)]
    by simp
qed

lemma ua_offset: "n < 2 ^ 28 \<Longrightarrow> unat (ua n mod 4096) = n mod 4096"
proof -
  assume n: "n < 2 ^ 28"
  have "(0xC0000000 + n) mod 4096 = (n + 4096 * 0xC0000) mod 4096" by (simp add: add.commute)
  also have "\<dots> = n mod 4096" by (rule mod_mult_self2)
  finally have "(0xC0000000 + n) mod 4096 = n mod 4096" .
  then show ?thesis using unat_ua [OF n] by (simp add: unat_mod_distrib)
qed

lemma ua_page: "i < 65536 \<Longrightarrow> page_aligned (ua (4096 * i)) \<and> aligned_addr (ua (4096 * i)) PAGE_SIZE"
proof -
  assume "i < 65536"
  then have "page_aligned (ua (4096 * i))" using unat_ua [of "4096 * i"] by (simp add: aligned_def)
  then show ?thesis using aligned_12_iff_mod by (simp add: aligned_addr_def)
qed

definition upte :: "'a vm_scheme \<Rightarrow> nat \<Rightarrow> pte option" where
  "upte st n = mapped (pmem st) (active_space_root st) (ua n)"

definition ubyte :: "'a vm_scheme \<Rightarrow> nat \<Rightarrow> u8 option" where
  "ubyte st n = map_option (\<lambda>p. load_byte (pmem st) (pte_page p + ua n mod 4096)) (upte st n)"

text \<open>The pages \<open>N\<close> are the user's: mapped to frames of their own. \<open>ps\<close> are free pages.\<close>

definition own_frames :: "'a vm_scheme \<Rightarrow> nat set \<Rightarrow> u64 set \<Rightarrow> bool" where
  "own_frames st N G \<longleftrightarrow> N \<subseteq> {..<65536} \<and>
     (\<forall>i \<in> N. \<exists>p. upte st (4096 * i) = Some p \<and> pte_page p \<in> G) \<and>
     (\<forall>i \<in> N. \<forall>j \<in> N. \<forall>p q. upte st (4096 * i) = Some p \<longrightarrow> upte st (4096 * j) = Some q \<longrightarrow>
        pte_page p = pte_page q \<longrightarrow> i = j)"

definition user_space :: "'a vm_scheme \<Rightarrow> u64 list \<Rightarrow> nat set \<Rightarrow> bool" where
  "user_space st ps N \<longleftrightarrow> free_prefix st ps \<and> (\<forall>p \<in> set ps. p < 2 ^ 56) \<and> sstatus_sum st \<and>
     (\<forall>n < 2 ^ 28. \<not> superpage (pmem st) (active_space_root st) (ua n)) \<and>
     (\<exists>F. wf_space (pmem st) (active_space_root st) F \<and> set ps \<subseteq> F \<and> own_frames st N (F - set ps))"

lemma upte_page: "n < 2 ^ 28 \<Longrightarrow> upte st n = upte st (4096 * (n div 4096))"
proof -
  assume n: "n < 2 ^ 28"
  have "4096 * (n div 4096) < 2 ^ 28" using n by (rule le_less_trans [rotated]) simp
  then have "same_vpage (ua n) (ua (4096 * (n div 4096)))" using ua_same_vpage n by simp
  then show ?thesis unfolding upte_def by (rule mapped_cong_vpage)
qed

lemma page_div: "n < 2 ^ 28 \<Longrightarrow> n div 4096 < (65536 :: nat)"
  by (simp add: less_mult_imp_div_less)

text \<open>Words outside the frame of a page are not those of its bytes.\<close>

lemma ubyte_frame:
  assumes "upte st n = Some p" and "upte st' n = Some p'" and "pte_page p' = pte_page p"
    and "\<And>a. a - pte_page p < PAGE_SIZE \<Longrightarrow> pmem st' a = pmem st a"
  shows "ubyte st' n = ubyte st n"
proof -
  have "ua n mod 4096 < PAGE_SIZE" by (simp add: word_mod_less_divisor)
  then have "pmem st' ((pte_page p + ua n mod 4096) - (pte_page p + ua n mod 4096) mod 8) =
      pmem st ((pte_page p + ua n mod 4096) - (pte_page p + ua n mod 4096) mod 8)"
    by (intro assms(4) word_in_page(1)) simp
  then show ?thesis using assms(1-3) by (simp add: ubyte_def load_byte_def)
qed

lemma sstatus_sum_cong: "mm.more st' = mm.more st \<Longrightarrow> sstatus_sum (st' :: 'a vm_scheme) = sstatus_sum st"
  by (cases st; cases st') simp

lemma pte_page_leaf: "page_aligned g \<Longrightarrow> g < 2 ^ 56 \<Longrightarrow> pte_page (leaf_pte g fl) = g"
  using pte_page_of_ptr by (simp add: pte_page_def leaf_pte_def pageptr_to_pagenum_def)

lemma map_user_page:
  assumes us: "user_space st ps N" and three: "3 \<le> length ps" and i: "i < 65536" "i \<notin> N"
  shows "\<exists>st' ps' g. memory_alloc_and_map_page (ua (4096 * i)) fl st = Inr (ua (4096 * i), st') \<and>
    user_space st' ps' (insert i N) \<and> length ps \<le> length ps' + 3 \<and> mm.more st' = mm.more st \<and>
    g \<in> set ps \<and> pte_page (leaf_pte g fl) = g \<and>
    upte st' (4096 * i) = Some (leaf_pte g fl) \<and> (\<forall>n < 2 ^ 28. n div 4096 = i \<longrightarrow> ubyte st' n = Some 0) \<and>
    (\<forall>n < 2 ^ 28. n div 4096 \<in> N \<longrightarrow> upte st' n = upte st n \<and> ubyte st' n = ubyte st n) \<and>
    (\<forall>n < 2 ^ 28. n div 4096 \<noteq> i \<longrightarrow> upte st' n = upte st n)"
proof -
  define root where "root = active_space_root st"
  obtain F where fp: "free_prefix st ps" and lim: "\<forall>p \<in> set ps. p < 2 ^ 56" and sum: "sstatus_sum st"
    and nsp: "\<And>n. n < 2 ^ 28 \<Longrightarrow> \<not> superpage (pmem st) root (ua n)"
    and wf: "wf_space (pmem st) root F" and sub: "set ps \<subseteq> F" and own: "own_frames st N (F - set ps)"
    using us unfolding user_space_def root_def by blast
  have i28: "4096 * i < 2 ^ 28" using i(1) by simp
  have ok: "wellformed_vma (ua (4096 * i))" "aligned_addr (ua (4096 * i)) PAGE_SIZE"
    using ua_small [OF i28] ua_page [OF i(1)] wellformed_small by auto
  obtain st' k where k: "k \<le> 2" "memory_alloc_and_map_page (ua (4096 * i)) fl st = Inr (ua (4096 * i), st')"
    and mf: "maps_fresh st root ps (ua (4096 * i)) fl (hd ps) (drop k (tl ps)) st'"
    and wf': "wf_space (pmem st') root (F - set (take k (tl ps)))"
    using map_page_in [OF wf sub root_def [symmetric] fp lim three nsp [OF i28] ok] by blast
  obtain g qs where ps: "ps = g # qs" using three by (cases ps) auto
  define ps' F' where "ps' = drop k qs" and "F' = F - set (take k qs)"
  have d: "distinct (g # qs)" using mm_prefix.pool_distinct [OF fp] by (simp add: ps)
  have gp: "g \<in> set ps" "g \<notin> set qs" "page_aligned g" "g < 2 ^ 56"
    using d mm_prefix.pool_page [OF fp, of g] lim by (auto simp: ps)
  have dt: "set (take k qs) \<inter> set ps' = {}"
    using d by (simp add: ps'_def set_take_disj_set_drop_if_distinct)
  have tk: "set (take k qs) \<subseteq> set ps" "set ps' \<subseteq> set ps"
    using set_take_subset [of k qs] set_drop_subset [of k qs] by (auto simp: ps ps'_def)
  have m: "free_prefix st' ps'" "mm.more st' = mm.more st" "mapped (pmem st') root (ua (4096 * i)) = Some (leaf_pte g fl)"
    "\<And>va. \<not> same_vpage (ua (4096 * i)) va \<Longrightarrow> mapped (pmem st') root va = mapped (pmem st) root va"
    "\<And>a. a - g < PAGE_SIZE \<Longrightarrow> pmem st' a = 0" "no_new_super root (pmem st) (pmem st')"
    "\<And>a. pmem st' a \<noteq> pmem st a \<Longrightarrow> a - g < PAGE_SIZE \<or>
        (\<exists>q t. vpath q \<and> table_at (pmem st') root q = Some t \<and> a - t < PAGE_SIZE)"
    using mf unfolding maps_fresh_def ps ps'_def list.sel by blast+
  have root': "active_space_root st' = root" using active_space_root_cong [OF m(2)] by (simp add: root_def)
  have g': "upte st' (4096 * i) = Some (leaf_pte g fl)" using m(3) by (simp add: upte_def root')
  have pg: "pte_page (leaf_pte g fl) = g" using pte_page_leaf gp(3,4) by blast
  have other: "upte st' n = upte st n" if "n < 2 ^ 28" "n div 4096 \<noteq> i" for n
  proof -
    have "\<not> same_vpage (ua (4096 * i)) (ua n)" using ua_same_vpage [OF i28 that(1)] that(2) by simp
    then show ?thesis using m(4) by (simp add: upte_def root' root_def)
  qed
  then have old: "upte st' n = upte st n" if "n < 2 ^ 28" "n div 4096 \<in> N" for n using i(2) that by auto
  have oldp: "upte st' (4096 * j) = upte st (4096 * j)" if "j \<in> N" for j
    using old [of "4096 * j"] that own by (auto simp: own_frames_def)
  have FF: "F - set ps \<subseteq> F' - set ps'" "g \<in> F' - set ps'" "set ps' \<subseteq> F'"
    using tk dt gp sub by (auto simp: F'_def ps'_def ps dest: in_set_takeD in_set_dropD)
  have own': "own_frames st' (insert i N) (F' - set ps')"
  proof -
    have new: "pte_page p \<noteq> g" if "j \<in> N" "upte st (4096 * j) = Some p" for j p
      using own that gp(1) by (auto simp: own_frames_def)
    have "\<exists>p. upte st' (4096 * j) = Some p \<and> pte_page p \<in> F' - set ps'" if "j \<in> insert i N" for j
      using that own oldp FF(1,2) g' pg by (cases "j = i") (auto simp: own_frames_def, blast)
    moreover have "a = b" if "a \<in> insert i N" "b \<in> insert i N" "upte st' (4096 * a) = Some p" "upte st' (4096 * b) = Some q"
      "pte_page p = pte_page q" for a b p q
      using that own oldp new g' pg by (auto simp: own_frames_def)
    ultimately show ?thesis using own i(1) unfolding own_frames_def by blast
  qed
  have keep: "pmem st' a = pmem st a" if f: "a - f < PAGE_SIZE" "f \<in> F - set ps" "page_aligned f" for a f
  proof (rule ccontr)
    assume "pmem st' a \<noteq> pmem st a"
    then consider "a - g < PAGE_SIZE" | q t where "vpath q" "table_at (pmem st') root q = Some t" "a - t < PAGE_SIZE"
      using m(7) by blast
    then show False
    proof cases
      case 1
      then show False using page_disjoint [OF f(3) gp(3) f(1)] f(2) gp(1) by blast
    next
      case 2
      then have "page_aligned t" "t \<notin> F'" using wf_space_table [OF wf'] by (auto simp: F'_def ps)
      then show False using page_disjoint [OF f(3) _ f(1) 2(3)] f(2) FF(1) by blast
    qed
  qed
  have data: "ubyte st' n = ubyte st n" if n: "n < 2 ^ 28" "n div 4096 \<in> N" for n
  proof -
    obtain p where p: "upte st (4096 * (n div 4096)) = Some p" "pte_page p \<in> F - set ps"
      using own n(2) unfolding own_frames_def by blast
    have "upte st n = Some p" using p(1) upte_page [OF n(1)] by metis
    then show ?thesis using old [OF n] keep p(2) by (intro ubyte_frame) auto
  qed
  have zero: "ubyte st' n = Some 0" if "n < 2 ^ 28" "n div 4096 = i" for n
  proof -
    have u: "upte st' n = Some (leaf_pte g fl)" using upte_page [OF that(1), of st'] g' that(2) by simp
    have "ua n mod 4096 < PAGE_SIZE" by (simp add: word_mod_less_divisor)
    from m(5) [OF word_in_page(1) [OF gp(3) this]] show ?thesis by (simp add: ubyte_def u pg load_byte_def)
  qed
  have "user_space st' ps' (insert i N)"
    unfolding user_space_def root'
    using m(1) lim tk(2) sum sstatus_sum_cong [OF m(2)] nsp no_new_super_superpage [OF m(6)] wf' FF(3) own'
    by (intro conjI exI [of _ F']) (auto simp: F'_def ps)
  moreover have "length ps \<le> length ps' + 3" using k(1) by (simp add: ps'_def ps)
  ultimately show ?thesis using k(2) m(2) g' pg gp(1) zero data old other by blast
qed

lemma mapped_vtop:
  assumes "mapped m root va = Some p" and "is_leaf p"
  shows "vtop 2 m root va = Some (p, pte_page p + va mod 4096)"
proof -
  obtain a where a: "slot m root va = Some a" "pte_of (m a) = p"
    using assms(1) by (auto simp: mapped_def split: option.splits if_splits)
  then obtain t t1 where t: "child m root (VPN 2 va) = Some t1" "child m t1 (VPN 1 va) = Some t" "a = t + 8 * VPN 0 va"
    by (auto simp: slot_def split: Option.bind_splits)
  have nl: "is_table q \<Longrightarrow> \<not> is_leaf q" for q by (simp add: is_table_def is_leaf_def)
  have "entry m t (VPN 0 va) = p" using a(2) t(3) by (simp add: entry_def)
  then show ?thesis
    using t(1,2) assms(2) nl by (auto simp: numeral_2_eq_2 child_def Let_def split: if_splits)
qed

lemma ua_page_offset: "n < 2 ^ 28 \<Longrightarrow> k < 2 ^ 28 \<Longrightarrow> n div 4096 = k div 4096 \<Longrightarrow> ua n mod 4096 = ua k mod 4096 \<Longrightarrow> n = k"
  using ua_offset [of n] ua_offset [of k] by (metis div_mult_mod_eq)

lemma vstore_user:
  assumes us: "user_space st ps N" and n: "n < 2 ^ 28" "n div 4096 \<in> N"
    and p: "upte st n = Some p" "is_leaf p" "pte_flags p AND PTE_W \<noteq> 0"
  shows "\<exists>st'. vstore (ua n) b st = Inr st' \<and> user_space st' ps N \<and> mm.more st' = mm.more st \<and>
    (\<forall>k. upte st' k = upte st k) \<and> ubyte st' n = Some b \<and>
    (\<forall>k < 2 ^ 28. k \<noteq> n \<longrightarrow> k div 4096 \<in> N \<longrightarrow> ubyte st' k = ubyte st k)"
proof -
  define root where "root = active_space_root st"
  obtain F where fp: "free_prefix st ps" and lim: "\<forall>p \<in> set ps. p < 2 ^ 56" and sum: "sstatus_sum st"
    and nsp: "\<And>n. n < 2 ^ 28 \<Longrightarrow> \<not> superpage (pmem st) root (ua n)"
    and wf: "wf_space (pmem st) root F" and sub: "set ps \<subseteq> F" and own: "own_frames st N (F - set ps)"
    using us unfolding user_space_def root_def by blast
  define f where "f = pte_page p"
  have al: "page_aligned f" by (simp add: f_def)
  have up: "upte st (4096 * (n div 4096)) = Some p" using p(1) upte_page [OF n(1)] by metis
  then have f: "f \<in> F" "f \<notin> set ps" using own n(2) unfolding own_frames_def f_def by auto
  have off: "ua k mod 4096 < PAGE_SIZE" for k by (simp add: word_mod_less_divisor)
  define pa where "pa = f + ua n mod 4096"
  define st' where "st' = st\<lparr>pmem := store_byte (pmem st) pa b\<rparr>"
  have w: "pa - pa mod 8 - f < PAGE_SIZE" unfolding pa_def by (rule word_in_page(1) [OF al off])
  have pm: "pmem st' = (pmem st)(pa - pa mod 8 := set_byte (pmem st (pa - pa mod 8)) (unat (pa mod 8)) b)"
    by (simp add: st'_def store_byte_def)
  have ko: "keeps_outside f (pmem st) (pmem st')" unfolding keeps_outside_def pm using w by auto
  have more: "mm.more st' = mm.more st" by (simp add: st'_def)
  have root': "active_space_root st' = root" using active_space_root_cong [OF more] by (simp add: root_def)
  have same: "upte st' k = upte st k" for k
    using mapped_keeps_outside(2) [OF wf f(1) al ko] by (simp add: upte_def root' root_def)
  have "vstore (ua n) b st = Inr st'"
    using mapped_vtop [of "pmem st" root "ua n" p] p sum wellformed_small ua_small [OF n(1)]
    by (simp add: vstore_def upte_def root_def may_store_def st'_def pa_def f_def not_less not_le ua_range [OF n(1)])
  moreover have "user_space st' ps N"
  proof -
    have "pa - pa mod 8 \<notin> set ps"
      using same_page_iff [OF _ al, of "pa - pa mod 8"] w f(2) mm_prefix.pool_page [OF fp, of "pa - pa mod 8"] by auto
    then have "free_prefix st' ps" using fp by (auto simp: free_prefix_def pm st'_def [symmetric] simp del: fun_upd_apply)
      (auto simp: st'_def)
    moreover have "wf_space (pmem st') root F" by (rule wf_space_keeps_outside [OF wf f(1) al ko])
    moreover have "own_frames st' N (F - set ps)" using own by (simp add: own_frames_def same)
    moreover have "\<not> superpage (pmem st') root (ua k)" if "k < 2 ^ 28" for k
      using superpage_keeps_outside [OF wf f(1) al ko] nsp [OF that] by simp
    ultimately show ?thesis
      using lim sum sub sstatus_sum_cong [OF more] unfolding user_space_def root' by blast
  qed
  moreover have "ubyte st' n = Some b"
    using p(1) same by (simp add: ubyte_def st'_def load_store_byte pa_def f_def)
  moreover have "ubyte st' k = ubyte st k" if k: "k < 2 ^ 28" "k \<noteq> n" "k div 4096 \<in> N" for k
  proof -
    obtain q where q: "upte st (4096 * (k div 4096)) = Some q" using own k(3) unfolding own_frames_def by blast
    then have qk: "upte st k = Some q" using upte_page [OF k(1)] by metis
    have "pte_page q + ua k mod 4096 \<noteq> pa"
    proof (cases "k div 4096 = n div 4096")
      case True
      then have "q = p" using q up by simp
      then show ?thesis using ua_page_offset [OF k(1) n(1) True] k(2) by (auto simp: pa_def f_def)
    next
      case False
      then have "pte_page q \<noteq> f" using own q up k(3) n(2) unfolding own_frames_def f_def by blast
      then show ?thesis
        using page_disjoint [OF _ al, of "pte_page q" pa] word_in_page(2) [OF _ off, of "pte_page q" k]
          word_in_page(2) [OF al off, of n] by (metis pa_def page_aligned_pte_page)
    qed
    then show ?thesis using qk same by (simp add: ubyte_def st'_def load_store_byte)
  qed
  ultimately show ?thesis using more same by blast
qed

section \<open>Ranges of the user part\<close>

definition writable :: "'a vm_scheme \<Rightarrow> nat \<Rightarrow> bool" where
  "writable st n \<longleftrightarrow> (\<exists>p. upte st n = Some p \<and> is_leaf p \<and> pte_flags p AND PTE_W \<noteq> 0)"

lemma vstore_bytes_user:
  assumes "user_space st ps N" and "n + length bs \<le> 2 ^ 28"
    and "\<forall>k < length bs. (n + k) div 4096 \<in> N \<and> writable st (n + k)"
  shows "\<exists>st'. vstore_bytes (ua n) bs st = Inr st' \<and> user_space st' ps N \<and> mm.more st' = mm.more st \<and>
    (\<forall>k. upte st' k = upte st k) \<and>
    (\<forall>k < 2 ^ 28. k div 4096 \<in> N \<longrightarrow>
       ubyte st' k = (if n \<le> k \<and> k < n + length bs then Some (bs ! (k - n)) else ubyte st k))"
  using assms
proof (induction bs arbitrary: n st)
  case (Cons b bs)
  have n: "n < 2 ^ 28" "n div 4096 \<in> N" "writable st n" using Cons.prems(2,3) by (auto dest: spec [of _ 0])
  then obtain p where p: "upte st n = Some p" "is_leaf p" "pte_flags p AND PTE_W \<noteq> 0" unfolding writable_def by blast
  obtain st1 where st1: "vstore (ua n) b st = Inr st1" "user_space st1 ps N" "mm.more st1 = mm.more st"
    "\<And>k. upte st1 k = upte st k" "ubyte st1 n = Some b"
    "\<And>k. k < 2 ^ 28 \<Longrightarrow> k \<noteq> n \<Longrightarrow> k div 4096 \<in> N \<Longrightarrow> ubyte st1 k = ubyte st k"
    using vstore_user [OF Cons.prems(1) n(1,2) p, of b] by blast
  have "\<forall>k < length bs. (n + 1 + k) div 4096 \<in> N \<and> writable st1 (n + 1 + k)"
    using Cons.prems(3) st1(4) by (auto simp: writable_def dest: spec [of _ "Suc _"])
  moreover have "n + 1 + length bs \<le> 2 ^ 28" using Cons.prems(2) by simp
  ultimately obtain st' where st': "vstore_bytes (ua (n + 1)) bs st1 = Inr st'" "user_space st' ps N"
    "mm.more st' = mm.more st1" "\<And>k. upte st' k = upte st1 k"
    "\<And>k. k < 2 ^ 28 \<Longrightarrow> k div 4096 \<in> N \<Longrightarrow>
       ubyte st' k = (if n + 1 \<le> k \<and> k < n + 1 + length bs then Some (bs ! (k - (n + 1))) else ubyte st1 k)"
    using Cons.IH [OF st1(2), of "n + 1"] by blast
  have a: "ua n + 1 = ua (n + 1)" using ua_add [of n 1] by simp
  have "ubyte st' k = (if n \<le> k \<and> k < n + length (b # bs) then Some ((b # bs) ! (k - n)) else ubyte st k)"
    if k: "k < 2 ^ 28" "k div 4096 \<in> N" for k
  proof (cases "k = n")
    case True
    then show ?thesis using st'(5) [OF k] st1(5) by simp
  next
    case False
    then show ?thesis using st'(5) [OF k] st1(6) [OF k(1) False k(2)] by (auto simp: nth_Cons')
  qed
  then show ?case using st1(1,3,4) st'(1-4) a by auto
qed auto

lemma map_range_loop_user:
  assumes "user_space st ps N" and "3 * left \<le> length ps" and "i + done + left \<le> 65536"
    and "{i + done..<i + done + left} \<inter> N = {}"
  shows "\<exists>st' ps'. map_range_loop (ua (4096 * i)) fl done left st = Inr (ua (4096 * i), st') \<and>
    user_space st' ps' (N \<union> {i + done..<i + done + left}) \<and> length ps \<le> length ps' + 3 * left \<and> mm.more st' = mm.more st \<and>
    (\<forall>n < 2 ^ 28. n div 4096 \<in> {i + done..<i + done + left} \<longrightarrow>
       ubyte st' n = Some 0 \<and> (\<exists>g. upte st' n = Some (leaf_pte g fl))) \<and>
    (\<forall>n < 2 ^ 28. n div 4096 \<in> N \<longrightarrow> upte st' n = upte st n \<and> ubyte st' n = ubyte st n) \<and>
    (\<forall>n < 2 ^ 28. n div 4096 \<notin> {i + done..<i + done + left} \<longrightarrow> upte st' n = upte st n)"
  using assms
proof (induction left arbitrary: "done" st ps N)
  case (Suc left)
  let ?j = "i + done"
  have "?j \<in> {i + done..<i + done + Suc left}" by simp
  then have jn: "?j \<notin> N" using Suc.prems(4) by blast
  have j: "?j < 65536" "3 \<le> length ps" using Suc.prems(2,3) by auto
  obtain st1 ps1 g where st1: "memory_alloc_and_map_page (ua (4096 * ?j)) fl st = Inr (ua (4096 * ?j), st1)"
    "user_space st1 ps1 (insert ?j N)" "length ps \<le> length ps1 + 3" "mm.more st1 = mm.more st"
    "upte st1 (4096 * ?j) = Some (leaf_pte g fl)" "\<forall>n < 2 ^ 28. n div 4096 = ?j \<longrightarrow> ubyte st1 n = Some 0"
    "\<forall>n < 2 ^ 28. n div 4096 \<in> N \<longrightarrow> upte st1 n = upte st n \<and> ubyte st1 n = ubyte st n"
    "\<forall>n < 2 ^ 28. n div 4096 \<noteq> ?j \<longrightarrow> upte st1 n = upte st n"
    using map_user_page [OF Suc.prems(1) j(2,1) jn, of fl] by blast
  have a: "ua (4096 * i) + of_nat done * PAGE_SIZE = ua (4096 * ?j)"
    by (simp add: ua_def algebra_simps)
  have nz: "ua (4096 * ?j) \<noteq> 0" using unat_ua [of "4096 * ?j"] j(1) by auto
  have step: "map_range_loop (ua (4096 * i)) fl done (Suc left) st = map_range_loop (ua (4096 * i)) fl (Suc done) left st1"
    using st1(1) nz unfolding map_range_loop.simps a by simp
  have "{i + Suc done..<i + Suc done + left} \<subseteq> {i + done..<i + done + Suc left} - {?j}" by auto
  then have dis: "{i + Suc done..<i + Suc done + left} \<inter> insert ?j N = {}" using Suc.prems(4) by blast
  have pre: "3 * left \<le> length ps1" "i + Suc done + left \<le> 65536"
    using Suc.prems(2,3) st1(3) by simp_all
  obtain st' ps' where st': "map_range_loop (ua (4096 * i)) fl (Suc done) left st1 = Inr (ua (4096 * i), st')"
    "user_space st' ps' (insert ?j N \<union> {i + Suc done..<i + Suc done + left})" "length ps1 \<le> length ps' + 3 * left"
    "mm.more st' = mm.more st1"
    "\<forall>n < 2 ^ 28. n div 4096 \<in> {i + Suc done..<i + Suc done + left} \<longrightarrow>
       ubyte st' n = Some 0 \<and> (\<exists>g. upte st' n = Some (leaf_pte g fl))"
    "\<forall>n < 2 ^ 28. n div 4096 \<in> insert ?j N \<longrightarrow> upte st' n = upte st1 n \<and> ubyte st' n = ubyte st1 n"
    "\<forall>n < 2 ^ 28. n div 4096 \<notin> {i + Suc done..<i + Suc done + left} \<longrightarrow> upte st' n = upte st1 n"
    using Suc.IH [OF st1(2) pre dis] by blast
  have N: "insert ?j N \<union> {i + Suc done..<i + Suc done + left} = N \<union> {?j..<?j + Suc left}" by auto
  have new: "ubyte st' n = Some 0 \<and> (\<exists>g. upte st' n = Some (leaf_pte g fl))"
    if n: "n < 2 ^ 28" "n div 4096 \<in> {?j..<?j + Suc left}" for n
  proof (cases "n div 4096 = ?j")
    case True
    then have "upte st1 n = Some (leaf_pte g fl)" using upte_page [OF n(1), of st1] st1(5) by simp
    then show ?thesis using st'(6) st1(6) n(1) True by auto
  next
    case False
    then show ?thesis using st'(5) n by simp
  qed
  have len: "length ps \<le> length ps' + 3 * Suc left" using st1(3) st'(3) by simp
  have old: "\<forall>n < 2 ^ 28. n div 4096 \<in> N \<longrightarrow> upte st' n = upte st n \<and> ubyte st' n = ubyte st n" using st1(7) st'(6) by auto
  have other: "\<forall>n < 2 ^ 28. n div 4096 \<notin> {?j..<?j + Suc left} \<longrightarrow> upte st' n = upte st n" using st1(8) st'(7) by auto
  have more: "mm.more st' = mm.more st" using st1(4) st'(4) by simp
  show ?case
    using trans [OF step st'(1)] st'(2) [unfolded N] len more new old other by (intro exI [of _ st'] exI [of _ ps'] conjI) blast+
qed auto

lemma map_range_user:
  assumes "user_space st ps N" and "3 * c \<le> length ps" and "i + c \<le> 65536" and "{i..<i + c} \<inter> N = {}"
  shows "\<exists>st' ps'. memory_alloc_and_map_range (ua (4096 * i)) (of_nat (4096 * c)) fl st = Inr (ua (4096 * i), st') \<and>
    user_space st' ps' (N \<union> {i..<i + c}) \<and> length ps \<le> length ps' + 3 * c \<and> mm.more st' = mm.more st \<and>
    (\<forall>n < 2 ^ 28. n div 4096 \<in> {i..<i + c} \<longrightarrow> ubyte st' n = Some 0 \<and> (\<exists>g. upte st' n = Some (leaf_pte g fl))) \<and>
    (\<forall>n < 2 ^ 28. n div 4096 \<in> N \<longrightarrow> upte st' n = upte st n \<and> ubyte st' n = ubyte st n) \<and>
    (\<forall>n < 2 ^ 28. n div 4096 \<notin> {i..<i + c} \<longrightarrow> upte st' n = upte st n)"
proof -
  have "unat (of_nat (4096 * c) div PAGE_SIZE :: u64) = c"
    using assms(3) by (simp add: unat_div unat_word_ariths unat_of_nat)
  then have "memory_alloc_and_map_range (ua (4096 * i)) (of_nat (4096 * c)) fl st = map_range_loop (ua (4096 * i)) fl 0 c st"
    by (simp add: memory_alloc_and_map_range_def)
  then show ?thesis using map_range_loop_user [of st ps N c i 0 fl] assms by simp
qed

text \<open>Changing the flags of pages of the user.\<close>

definition reflag :: "u8 \<Rightarrow> pte \<Rightarrow> pte" where
  "reflag fl p = p\<lparr>pte_flags := pte_flags p AND NOT PTE_FLAGS_MASK OR fl\<rparr>"

lemma pte_page_reflag [simp]: "pte_page (reflag fl p) = pte_page p"
  by (simp add: pte_page_def reflag_def)

lemma own_frames_cong:
  assumes own: "own_frames st N G"
    and eq: "\<And>j. j \<in> N \<Longrightarrow> map_option pte_page (upte st' (4096 * j)) = map_option pte_page (upte st (4096 * j))"
  shows "own_frames st' N G"
proof -
  have ex: "\<exists>p. upte st (4096 * j) = Some p \<and> pte_page p \<in> G \<and> (\<exists>q. upte st' (4096 * j) = Some q \<and> pte_page q = pte_page p)"
    if j: "j \<in> N" for j
  proof -
    obtain p where p: "upte st (4096 * j) = Some p" "pte_page p \<in> G" using own j unfolding own_frames_def by blast
    then have "map_option pte_page (upte st' (4096 * j)) = Some (pte_page p)" using eq [OF j] by simp
    then show ?thesis using p by auto
  qed
  have "\<exists>q. upte st' (4096 * j) = Some q \<and> pte_page q \<in> G" if "j \<in> N" for j using ex [OF that] by auto
  moreover have "j = k" if jk: "j \<in> N" "k \<in> N" "upte st' (4096 * j) = Some q" "upte st' (4096 * k) = Some q'"
    "pte_page q = pte_page q'" for j k q q'
  proof -
    obtain p p' where "upte st (4096 * j) = Some p" "pte_page q = pte_page p" "upte st (4096 * k) = Some p'" "pte_page q' = pte_page p'"
      using ex [OF jk(1)] ex [OF jk(2)] jk(3,4) by auto
    then show ?thesis using own jk(1,2,5) unfolding own_frames_def by auto
  qed
  ultimately show ?thesis using own unfolding own_frames_def by blast
qed

lemma set_flags_user:
  assumes us: "user_space st ps N" and i: "i \<in> N"
  shows "\<exists>st'. memory_set_page_flags (ua (4096 * i)) fl st = Inr st' \<and> user_space st' ps N \<and> mm.more st' = mm.more st \<and>
    (\<forall>n < 2 ^ 28. n div 4096 \<in> N \<longrightarrow> ubyte st' n = ubyte st n \<and>
       upte st' n = (if n div 4096 = i then map_option (reflag fl) (upte st n) else upte st n)) \<and>
    (\<forall>n < 2 ^ 28. n div 4096 \<noteq> i \<longrightarrow> upte st' n = upte st n)"
proof -
  define root where "root = active_space_root st"
  obtain F where fp: "free_prefix st ps" and lim: "\<forall>p \<in> set ps. p < 2 ^ 56" and sum: "sstatus_sum st"
    and nsp: "\<And>n. n < 2 ^ 28 \<Longrightarrow> \<not> superpage (pmem st) root (ua n)"
    and wf: "wf_space (pmem st) root F" and sub: "set ps \<subseteq> F" and own: "own_frames st N (F - set ps)"
    using us unfolding user_space_def root_def by blast
  have i64: "i < 65536" using own i by (auto simp: own_frames_def)
  then have i28: "4096 * i < 2 ^ 28" by simp
  obtain p where p: "upte st (4096 * i) = Some p" using own i unfolding own_frames_def by blast
  then have mp: "mapped (pmem st) root (ua (4096 * i)) = Some p" by (simp add: upte_def root_def)
  have al: "page_aligned (ua (4096 * i))" using ua_page [OF i64] by blast
  obtain st' a w where st': "memory_set_page_flags (ua (4096 * i)) fl st = Inr st'" "mm.more st' = mm.more st"
    "wf_space (pmem st') root F"
    "\<And>va. mapped (pmem st') root va = (if same_vpage (ua (4096 * i)) va then Some (reflag fl p) else mapped (pmem st) root va)"
    "free_list st' = free_list st" "slot (pmem st) root (ua (4096 * i)) = Some a" "pmem st' = (pmem st)(a := w)"
    using set_page_flags_ok [OF wf root_def [symmetric] mp al, of fl] unfolding reflag_def by blast
  have root': "active_space_root st' = root" using active_space_root_cong [OF st'(2)] by (simp add: root_def)
  have a_out: "\<not> a - f < PAGE_SIZE" if "f \<in> F" "page_aligned f" for f
    using slot_outside [OF wf st'(6) that(2)] wf_space_table [OF wf] that(1) by blast
  have pte: "upte st' n = (if n div 4096 = i then map_option (reflag fl) (upte st n) else upte st n)" if "n < 2 ^ 28" for n
  proof (cases "n div 4096 = i")
    case True
    then have "upte st n = Some p" using upte_page [OF that, of st] p by simp
    then show ?thesis using st'(4) [of "ua n"] ua_same_vpage [OF i28 that] True by (simp add: upte_def root' root_def)
  next
    case False
    then show ?thesis using st'(4) [of "ua n"] ua_same_vpage [OF i28 that] by (simp add: upte_def root' root_def)
  qed
  have ptei: "upte st' (4096 * j) = (if j = i then map_option (reflag fl) (upte st (4096 * j)) else upte st (4096 * j))"
    if "j \<in> N" for j
  proof -
    have "4096 * j < 2 ^ 28" using own that by (auto simp: own_frames_def)
    then show ?thesis using pte by simp
  qed
  have own': "own_frames st' N (F - set ps)"
    using ptei by (intro own_frames_cong [OF own]) (auto split: option.splits if_splits simp: option.map_comp comp_def)
  have "user_space st' ps N"
  proof -
    have "a \<notin> set ps" using slot_not_free [OF wf st'(6)] sub mm_prefix.pool_page [OF fp] by blast
    then have "free_prefix st' ps" using fp st'(5,7) by (auto simp: free_prefix_def simp del: fun_upd_apply)
    moreover have "no_new_super root (pmem st) (pmem st')" unfolding st'(7) by (rule slot_write(5) [OF wf st'(6)])
    then have "\<not> superpage (pmem st') root (ua n)" if "n < 2 ^ 28" for n
      using nsp [OF that] no_new_super_superpage by blast
    ultimately show ?thesis
      unfolding user_space_def root' using lim sum sstatus_sum_cong [OF st'(2)] st'(3) sub own'
      by (intro conjI exI [of _ F]) simp_all
  qed
  moreover have "ubyte st' n = ubyte st n" if n: "n < 2 ^ 28" "n div 4096 \<in> N" for n
  proof -
    obtain q where q: "upte st (4096 * (n div 4096)) = Some q" "pte_page q \<in> F"
      using own n(2) unfolding own_frames_def by blast
    have qn: "upte st n = Some q" using q(1) upte_page [OF n(1)] by metis
    then obtain q' where "upte st' n = Some q'" "pte_page q' = pte_page q" using pte [OF n(1)]
      by (cases "n div 4096 = i") simp_all
    moreover have "pmem st' x = pmem st x" if "x - pte_page q < PAGE_SIZE" for x
      using a_out [OF q(2)] that by (auto simp: st'(7))
    ultimately show ?thesis using qn by (intro ubyte_frame)
  qed
  ultimately show ?thesis using st'(1,2) pte by (intro exI [of _ st'] conjI) simp_all
qed

lemma set_range_flags_user:
  assumes "user_space st ps N" and "{i..<i + c} \<subseteq> N" and "i + c \<le> 65536"
  shows "\<exists>st'. memory_set_range_flags (ua (4096 * i)) (of_nat (4096 * c)) fl st = Inr st' \<and> user_space st' ps N \<and>
    mm.more st' = mm.more st \<and>
    (\<forall>n < 2 ^ 28. n div 4096 \<in> N \<longrightarrow> ubyte st' n = ubyte st n \<and>
       upte st' n = (if n div 4096 \<in> {i..<i + c} then map_option (reflag fl) (upte st n) else upte st n)) \<and>
    (\<forall>n < 2 ^ 28. n div 4096 \<notin> {i..<i + c} \<longrightarrow> upte st' n = upte st n)"
proof -
  have c: "unat (of_nat (4096 * c) div PAGE_SIZE :: u64) = c"
    using assms(3) by (simp add: unat_div unat_word_ariths unat_of_nat)
  have a: "ua (4096 * i) + of_nat k * PAGE_SIZE = ua (4096 * (i + k))" for k
    by (simp add: ua_def algebra_simps)
  have "\<exists>st'. foldM (\<lambda>k. memory_set_page_flags (ua (4096 * (i + k))) fl) [0..<d] st = Inr st' \<and> user_space st' ps N \<and>
      mm.more st' = mm.more st \<and>
      (\<forall>n < 2 ^ 28. n div 4096 \<in> N \<longrightarrow> ubyte st' n = ubyte st n \<and>
         upte st' n = (if n div 4096 \<in> {i..<i + d} then map_option (reflag fl) (upte st n) else upte st n)) \<and>
      (\<forall>n < 2 ^ 28. n div 4096 \<notin> {i..<i + d} \<longrightarrow> upte st' n = upte st n)"
    if "d \<le> c" for d
    using that
  proof (induction d)
    case 0
    then show ?case using assms(1) by simp
  next
    case (Suc d)
    then obtain st1 where st1: "foldM (\<lambda>k. memory_set_page_flags (ua (4096 * (i + k))) fl) [0..<d] st = Inr st1"
      "user_space st1 ps N" "mm.more st1 = mm.more st"
      "\<And>n. n < 2 ^ 28 \<Longrightarrow> n div 4096 \<in> N \<Longrightarrow> ubyte st1 n = ubyte st n \<and>
         upte st1 n = (if n div 4096 \<in> {i..<i + d} then map_option (reflag fl) (upte st n) else upte st n)"
      "\<And>n. n < 2 ^ 28 \<Longrightarrow> n div 4096 \<notin> {i..<i + d} \<Longrightarrow> upte st1 n = upte st n"
      by auto
    have "i + d \<in> N" using assms(2) Suc.prems by auto
    from set_flags_user [OF st1(2) this, of fl]
    obtain st2 where st2: "memory_set_page_flags (ua (4096 * (i + d))) fl st1 = Inr st2" "user_space st2 ps N"
      "mm.more st2 = mm.more st1"
      "\<And>n. n < 2 ^ 28 \<Longrightarrow> n div 4096 \<in> N \<Longrightarrow> ubyte st2 n = ubyte st1 n \<and>
         upte st2 n = (if n div 4096 = i + d then map_option (reflag fl) (upte st1 n) else upte st1 n)"
      "\<And>n. n < 2 ^ 28 \<Longrightarrow> n div 4096 \<noteq> i + d \<Longrightarrow> upte st2 n = upte st1 n" by blast
    have "foldM (\<lambda>k. memory_set_page_flags (ua (4096 * (i + k))) fl) [0..<Suc d] st = Inr st2"
      using st1(1) st2(1) by (simp add: foldM_append)
    moreover have "ubyte st2 n = ubyte st n \<and>
        upte st2 n = (if n div 4096 \<in> {i..<i + Suc d} then map_option (reflag fl) (upte st n) else upte st n)"
      if "n < 2 ^ 28" "n div 4096 \<in> N" for n
      using st2(4) [OF that] st1(4) [OF that] by auto
    moreover have "upte st2 n = upte st n" if "n < 2 ^ 28" "n div 4096 \<notin> {i..<i + Suc d}" for n
      using st2(5) [OF that(1)] st1(5) [OF that(1)] that(2) by auto
    ultimately show ?case using st2(2,3) st1(3) by auto
  qed
  then show ?thesis using c by (simp add: memory_set_range_flags_def a [simplified])
qed

section \<open>Loads\<close>

lemma vload_user:
  assumes "sstatus_sum st" and "n < 2 ^ 28" and "upte st n = Some p" and "is_leaf p" and "pte_flags p AND PTE_R \<noteq> 0"
  shows "\<exists>b. ubyte st n = Some b \<and> vload st (ua n) = Inr b"
  using mapped_vtop [of "pmem st" "active_space_root st" "ua n" p] assms wellformed_small ua_small [OF assms(2)] ua_range [OF assms(2)]
  by (simp add: vload_def not_less [symmetric] ubyte_def upte_def may_load_def)

lemma vload_bytes_user:
  assumes "sstatus_sum st" and "n + c \<le> 2 ^ 28"
    and "\<forall>k < c. \<exists>p. upte st (n + k) = Some p \<and> is_leaf p \<and> pte_flags p AND PTE_R \<noteq> 0"
  shows "\<exists>bs. vload_bytes st (ua n) c = Inr bs \<and> length bs = c \<and> (\<forall>k < c. ubyte st (n + k) = Some (bs ! k))"
  using assms(2,3)
proof (induction c arbitrary: n)
  case (Suc c)
  have n1: "ua n + 1 = ua (n + 1)" using ua_add [of n 1] by simp
  have n: "n < 2 ^ 28" using Suc.prems(1) by simp
  obtain p where "upte st n = Some p" "is_leaf p" "pte_flags p AND PTE_R \<noteq> 0" using Suc.prems(2) by (auto dest: spec [of _ 0])
  then obtain b where b: "ubyte st n = Some b" "vload st (ua n) = Inr b"
    using vload_user [OF assms(1) n] by blast
  have "\<forall>k < c. \<exists>p. upte st (n + 1 + k) = Some p \<and> is_leaf p \<and> pte_flags p AND PTE_R \<noteq> 0"
    using Suc.prems(2) by (auto dest: spec [of _ "Suc _"])
  then obtain bs where bs: "vload_bytes st (ua (n + 1)) c = Inr bs" "length bs = c" "\<forall>k < c. ubyte st (n + 1 + k) = Some (bs ! k)"
    using Suc.IH [of "n + 1"] Suc.prems(1) by auto
  have "ubyte st (n + k) = Some ((b # bs) ! k)" if "k < Suc c" for k
    using b(1) bs(3) that by (cases k) auto
  then show ?case using b(2) bs(1,2) n1 by auto
qed simp

section \<open>Unmapping\<close>

text \<open>The frames of a user part with a single page.\<close>

lemma frames_user_page:
  assumes p: "upte st (4096 * i) = Some p" "sel p" "i < 65536" and none: "\<And>n. n < 2 ^ 28 \<Longrightarrow> n div 4096 \<noteq> i \<Longrightarrow> upte st n = None"
  shows "frames sel (pmem st) (active_space_root st) user_pages = [pte_page p]"
proof -
  have one: "concat (map (\<lambda>j. if j = i then [x] else []) [0..<n]) = (if i < n then [x] else [])" for n and x :: u64
    by (induction n) auto
  have a: "0xC0000000 + of_nat j * 4096 = ua (4096 * j)" for j by (simp add: ua_def USER_START_VMA_def)
  have e: "(case upte st (4096 * j) of None \<Rightarrow> [] | Some q \<Rightarrow> if sel q then [pte_page q] else []) = (if j = i then [pte_page p] else [])"
    if "j \<in> set [0..<65536]" for j
    using p none [of "4096 * j"] that by auto
  show ?thesis
    unfolding frames_def user_pages_eq a map_map comp_def upte_def [symmetric] by (subst map_cong [OF refl e]) (simp_all only: one p(3) if_True)
qed

lemma pte_page_limit: "pte_page p < 2 ^ 56"
proof -
  have "take_bit 56 (pte_page p) = pte_page p"
    by (rule bit_word_eqI) (auto simp: pte_page_def pagenum_to_pageptr_def bit_simps dest: bit_imp_le_length)
  then have "unat (pte_page p) = take_bit 56 (unat (pte_page p))" by (metis unsigned_take_bit_eq)
  also have "\<dots> < 2 ^ 56" by (rule take_bit_nat_less_exp)
  finally show ?thesis by (simp add: word_less_nat_alt)
qed

text \<open>After the user pages have been unmapped the user part is empty and their frames are free.\<close>

lemma unmap_user_ok:
  assumes wf: "wf_space (pmem st) root F" and root: "active_space_root st = root" and fp: "free_prefix st ps" "set ps \<subseteq> F"
    and lim: "\<forall>p \<in> set ps. p < 2 ^ 56" and sum: "sstatus_sum st" and nsp: "\<forall>n < 2 ^ 28. \<not> superpage (pmem st) root (ua n)"
    and fr: "set (frames sel_user (pmem st) root user_pages) \<subseteq> F - {0}" "distinct (frames sel_user (pmem st) root user_pages @ ps)"
  defines "ps' \<equiv> rev (frames sel_user (pmem st) root user_pages) @ ps"
  shows "\<exists>st'. memory_unmap_and_free_user st = Inr st' \<and> mm.more st' = mm.more st \<and> user_space st' ps' {} \<and>
    (\<forall>n < 2 ^ 28. \<not> selected sel_user (upte st' n))"
proof -
  obtain st' where st': "foldM (unmap_user_page root) user_pages st = Inr st'" "free_prefix st' ps'" "wf_space (pmem st') root F"
    "mm.more st' = mm.more st" "no_new_super root (pmem st) (pmem st')"
    "\<And>va. mapped (pmem st') root va =
       (if (\<exists>va' \<in> set user_pages. same_vpage va' va) \<and> selected sel_user (mapped (pmem st) root va) then None
        else mapped (pmem st) root va)"
    using unmap_sweep.sweep_ok [OF wf fp fr user_pages_distinct] unfolding ps'_def by blast
  have r: "active_space_root st' = root" "sstatus_sum st'"
    using active_space_root_cong [OF st'(4)] sstatus_sum_cong [OF st'(4)] root sum by auto
  have "\<forall>p \<in> set ps'. p < 2 ^ 56" using lim pte_page_limit by (auto simp: ps'_def frames_def split: option.splits)
  moreover have "set ps' \<subseteq> F" using fr(1) fp(2) by (auto simp: ps'_def)
  moreover have "\<forall>n < 2 ^ 28. \<not> superpage (pmem st') root (ua n)" using no_new_super_superpage [OF st'(5)] nsp by blast
  moreover have "own_frames st' {} G" for G by (simp add: own_frames_def)
  ultimately have "user_space st' ps' {}" using st'(2,3) r unfolding user_space_def by blast
  moreover have "\<not> selected sel_user (upte st' n)" if "n < 2 ^ 28" for n
  proof -
    have "\<exists>va' \<in> set user_pages. same_vpage va' (ua n)"
      unfolding user_pages_cover using ua_range [OF that] by (intro exI [of _ "ua n"]) simp
    then show ?thesis using st'(6) [of "ua n"] by (simp add: upte_def r(1))
  qed
  ultimately show ?thesis
    using st'(1,4) root by (auto simp: memory_unmap_and_free_user_def active_space_root_def Let_def)
qed

end
