(* ===== verification/Elf.thy ===== *)
theory Elf
  imports UserMem Kfs
begin

text \<open>
  The program loader \<open>kern/elf.c\<close>. The file is any object with the operations of \<open>io.h\<close>; its state
  \<open>'s\<close> and the memory of the kernel are passed along. The headers are the packed structures of
  \<open>kern/elf.h\<close>, read from their bytes. The bytes of a segment are stored through the page table of
  the active space.

  The locale \<open>program_file\<close> is what the loader needs of the file. An open file of the file system
  has it, and the loader is proved against it.
\<close>

section \<open>Headers\<close>

record Elf64_Ehdr =
  e_ident :: "u8 list"
  e_type :: u16
  e_machine :: u16
  e_entry :: u64
  e_phoff :: u64
  e_phentsize :: u16
  e_phnum :: u16

record Elf64_Phdr =
  p_type :: u32
  p_flags :: u32
  p_offset :: u64
  p_vaddr :: u64
  p_paddr :: u64
  p_filesz :: u64
  p_memsz :: u64

definition ehdr_of :: "u8 list \<Rightarrow> Elf64_Ehdr" where
  "ehdr_of bs = \<lparr>e_ident = take 16 bs, e_type = le16 bs 16, e_machine = le16 bs 18, e_entry = le64 bs 24,
     e_phoff = le64 bs 32, e_phentsize = le16 bs 54, e_phnum = le16 bs 56\<rparr>"

definition phdr_of :: "u8 list \<Rightarrow> Elf64_Phdr" where
  "phdr_of bs = \<lparr>p_type = le32 bs 0, p_flags = le32 bs 4, p_offset = le64 bs 8, p_vaddr = le64 bs 16,
     p_paddr = le64 bs 24, p_filesz = le64 bs 32, p_memsz = le64 bs 40\<rparr>"

definition PT_LOAD :: u32 where "PT_LOAD = 1"
definition PF_X :: u32 where "PF_X = 1"
definition PF_W :: u32 where "PF_W = 2"
definition PF_R :: u32 where "PF_R = 4"
definition RV64_MACHINE :: u16 where "RV64_MACHINE = 243"
definition ELFDATA2LSB :: u8 where "ELFDATA2LSB = 1"
definition USER_STACK_VMA :: u64 where "USER_STACK_VMA = USER_END_VMA"

definition ELF_MAGIC_OK :: "Elf64_Ehdr \<Rightarrow> bool" where
  "ELF_MAGIC_OK h \<longleftrightarrow> e_ident h ! 0 = 0x7F \<and> e_ident h ! 1 = 0x45 \<and> e_ident h ! 2 = 0x4C \<and> e_ident h ! 3 = 0x46"

section \<open>Loading\<close>

definition round_up_size :: "u64 \<Rightarrow> u64 \<Rightarrow> u64" where
  "round_up_size n blksz = (n + blksz - 1) div blksz * blksz"

definition segment_flags :: "Elf64_Phdr \<Rightarrow> u8" where
  "segment_flags ph =
     ((if p_flags ph AND PF_R \<noteq> 0 then PTE_R else 0) OR (if p_flags ph AND PF_W \<noteq> 0 then PTE_W else 0)
      OR (if p_flags ph AND PF_X \<noteq> 0 then PTE_X else 0)) OR PTE_U"

text \<open>One loadable segment; the result is 0 or the error code to return.\<close>

definition load_segment ::
    "'s io_ops \<Rightarrow> Elf64_Phdr \<Rightarrow> 's \<Rightarrow> 'a vm_scheme \<Rightarrow> (int \<times> 's \<times> 'a vm_scheme) res" where
  "load_segment ops ph s st =
     (if p_vaddr ph < USER_START_VMA \<or> USER_END_VMA < p_vaddr ph + p_memsz ph then Inr (- 6, s, st)
      else
        let aligned_vaddr = round_down_addr (p_vaddr ph) PAGE_SIZE;
            aligned_memsz = round_up_size (p_memsz ph) PAGE_SIZE;
            fl = segment_flags ph
        in bind_res (memory_alloc_and_map_range aligned_vaddr aligned_memsz (fl OR PTE_W) st) (\<lambda>(mapped_range, st).
             if mapped_range = 0 then Inr (- 10, s, st)
             else
               bind_res (ioseek ops (p_offset ph) s) (\<lambda>(r, s).
                 if r \<noteq> 0 then Inr (- 7, s, st)
                 else
                   bind_res (ioread_full ops (unat (p_filesz ph)) s) (\<lambda>(n, bs, s).
                   bind_res (vstore_bytes (p_paddr ph) bs st) (\<lambda>st.
                     if of_int n \<noteq> p_filesz ph then Inr (- 8, s, st)
                     else
                       bind_res (if p_filesz ph < p_memsz ph
                           then vstore_bytes (p_vaddr ph + p_filesz ph) (replicate (unat (p_memsz ph - p_filesz ph)) 0) st
                           else Inr st) (\<lambda>st.
                       bind_res (memory_set_range_flags aligned_vaddr aligned_memsz fl st) (\<lambda>st.
                         Inr (0, s, st))))))))"

text \<open>
  The loop over the program headers, from \<open>i\<close> on with \<open>left\<close> to go. The product of \<open>i\<close> and the
  entry size is an \<open>int\<close>, which it may overflow.
\<close>

fun load_phdrs ::
    "'s io_ops \<Rightarrow> Elf64_Ehdr \<Rightarrow> nat \<Rightarrow> nat \<Rightarrow> 's \<Rightarrow> 'a vm_scheme \<Rightarrow> (int \<times> 's \<times> 'a vm_scheme) res" where
  "load_phdrs ops eh i 0 s st = Inr (0, s, st)"
| "load_phdrs ops eh i (Suc left) s st =
     (if 2 ^ 31 \<le> i * unat (e_phentsize eh) then Inl UndefinedAccess
      else
        bind_res (ioseek ops (e_phoff eh + of_nat (i * unat (e_phentsize eh))) s) (\<lambda>(r, s).
          if r \<noteq> 0 then Inr (- 4, s, st)
          else
            bind_res (ioread_full ops 56 s) (\<lambda>(n, bs, s).
              if n \<noteq> 56 then Inr (- 5, s, st)
              else
                let ph = phdr_of bs in
                if USER_STACK_VMA < p_vaddr ph + p_memsz ph then Inr (- 11, s, st)
                else if p_type ph = PT_LOAD then
                  bind_res (load_segment ops ph s st) (\<lambda>(r, s, st).
                    if r \<noteq> 0 then Inr (r, s, st) else load_phdrs ops eh (i + 1) left s st)
                else load_phdrs ops eh (i + 1) left s st)))"

text \<open>\<open>elf_load\<close>: the return value and, on success, the entry point.\<close>

definition elf_load :: "'s io_ops \<Rightarrow> 's \<Rightarrow> 'a vm_scheme \<Rightarrow> (int \<times> u64 option \<times> 's \<times> 'a vm_scheme) res" where
  "elf_load ops s st =
     bind_res (ioread_full ops 64 s) (\<lambda>(n, bs, s).
       if n \<noteq> 64 then Inr (- 1, None, s, st)
       else
         let eh = ehdr_of bs in
         if \<not> ELF_MAGIC_OK eh then Inr (- 2, None, s, st)
         else if e_type eh \<noteq> 2 \<or> e_machine eh \<noteq> RV64_MACHINE then Inr (- 3, None, s, st)
         else if e_ident eh ! 5 \<noteq> ELFDATA2LSB then Inr (- 9, None, s, st)
         else
           bind_res (load_phdrs ops eh 0 (unat (e_phnum eh)) s st) (\<lambda>(r, s, st).
             if r \<noteq> 0 then Inr (r, None, s, st) else Inr (0, Some (e_entry eh), s, st)))"

section \<open>What the loader needs of the file\<close>

locale program_file =
  fixes ops :: "'s io_ops" and ok :: "'s \<Rightarrow> bool" and data :: "'s \<Rightarrow> u8 list" and at :: "'s \<Rightarrow> nat"
  assumes seek_ok: "ok s \<Longrightarrow> unat p \<le> length (data s) \<Longrightarrow>
      \<exists>s'. ioseek ops p s = Inr (0, s') \<and> ok s' \<and> data s' = data s \<and> at s' = unat p"
    and read_full_ok: "ok s \<Longrightarrow> n < 2 ^ 63 \<Longrightarrow>
      \<exists>s'. ioread_full ops n s = Inr (int (length (take n (drop (at s) (data s)))), take n (drop (at s) (data s)), s') \<and>
        ok s' \<and> data s' = data s"
begin

lemma read_part:
  assumes "ok s" and "unat p + n \<le> length (data s)" and "n < 2 ^ 63"
  shows "\<exists>s1 s2. ioseek ops p s = Inr (0, s1) \<and>
    ioread_full ops n s1 = Inr (int n, take n (drop (unat p) (data s)), s2) \<and> ok s2 \<and> data s2 = data s"
proof -
  obtain s1 where s1: "ioseek ops p s = Inr (0, s1)" "ok s1" "data s1 = data s" "at s1 = unat p"
    using seek_ok [OF assms(1), of p] assms(2) by auto
  obtain s2 where "ioread_full ops n s1 = Inr (int (length (take n (drop (at s1) (data s1)))), take n (drop (at s1) (data s1)), s2)"
    "ok s2" "data s2 = data s1" using read_full_ok [OF s1(2) assms(3)] by blast
  then show ?thesis using s1 assms(2) by auto
qed

end

section \<open>Segments\<close>

text \<open>
  A segment of the file \<open>D\<close> that can be loaded: page-aligned, inside the user part and the file,
  with its physical address equal to the virtual one.
\<close>

definition seg_start :: "Elf64_Phdr \<Rightarrow> nat" where
  "seg_start ph = unat (p_vaddr ph) - 0xC0000000"

definition seg_count :: "Elf64_Phdr \<Rightarrow> nat" where
  "seg_count ph = (unat (p_memsz ph) + 4095) div 4096"

definition seg_pages :: "Elf64_Phdr \<Rightarrow> nat set" where
  "seg_pages ph = {seg_start ph div 4096..<seg_start ph div 4096 + seg_count ph}"

definition seg_ok :: "u8 list \<Rightarrow> Elf64_Phdr \<Rightarrow> bool" where
  "seg_ok D ph \<longleftrightarrow> p_paddr ph = p_vaddr ph \<and> 0xC0000000 \<le> unat (p_vaddr ph) \<and> 4096 dvd seg_start ph \<and>
     unat (p_vaddr ph) + unat (p_memsz ph) \<le> 0xD0000000 \<and> unat (p_filesz ph) \<le> unat (p_memsz ph) \<and>
     unat (p_offset ph) + unat (p_filesz ph) \<le> length D"

text \<open>The segment is in memory: the bytes of the file, then zeros, with the flags of the header.\<close>

definition loaded :: "u8 list \<Rightarrow> Elf64_Phdr \<Rightarrow> 'a vm_scheme \<Rightarrow> bool" where
  "loaded D ph st \<longleftrightarrow> (\<forall>k < unat (p_memsz ph).
     ubyte st (seg_start ph + k) = Some (if k < unat (p_filesz ph) then D ! (unat (p_offset ph) + k) else 0) \<and>
     (\<exists>p. upte st (seg_start ph + k) = Some p \<and> pte_flags p = segment_flags ph OR PTE_A OR PTE_D OR PTE_V))"

lemma eq_of_nat: "unat (w :: 'a::len word) = n \<Longrightarrow> w = of_nat n"
  by auto

lemma seg_addr:
  assumes "seg_ok D ph"
  shows "p_vaddr ph = ua (seg_start ph)" "seg_start ph + unat (p_memsz ph) \<le> 2 ^ 28"
    "seg_start ph = 4096 * (seg_start ph div 4096)" "seg_start ph div 4096 + seg_count ph \<le> 65536"
    "round_down_addr (p_vaddr ph) PAGE_SIZE = ua (seg_start ph)"
    "round_up_size (p_memsz ph) PAGE_SIZE = of_nat (4096 * seg_count ph)"
    "k < unat (p_memsz ph) \<Longrightarrow> (seg_start ph + k) div 4096 \<in> seg_pages ph"
proof -
  let ?n = "seg_start ph" and ?m = "unat (p_memsz ph)"
  have v: "unat (p_vaddr ph) = 0xC0000000 + ?n" using assms by (simp add: seg_ok_def seg_start_def)
  show nm: "?n + ?m \<le> 2 ^ 28" using assms v by (simp add: seg_ok_def)
  show va: "p_vaddr ph = ua ?n"
    unfolding ua_def USER_START_VMA_def using v by (intro word_unat_eq_iff [THEN iffD2]) (use nm in \<open>simp add: unat_word_ariths unat_of_nat\<close>)
  obtain i where i: "?n = 4096 * i" using assms by (auto simp: seg_ok_def elim: dvdE)
  then show al: "?n = 4096 * (?n div 4096)" by simp
  have "4096 * i + ?m \<le> 4096 * 65536" using nm i by simp
  then have "(4096 * i + ?m + 4095) div 4096 \<le> (4096 * 65536 + 4095) div 4096" by (intro div_le_mono) simp
  moreover have "(4096 * i + ?m + 4095) div 4096 = i + seg_count ph"
    unfolding seg_count_def add.assoc by (rule div_mult_self4) simp
  ultimately show fit: "?n div 4096 + seg_count ph \<le> 65536" using i by simp
  have "unat (p_vaddr ph div 4096) = unat (p_vaddr ph) div 4096" by (simp add: unat_div_distrib)
  also have "\<dots> = 0xC0000 + i" using v i by simp
  finally have "p_vaddr ph div 4096 = of_nat (0xC0000 + i)" by (rule eq_of_nat)
  then show "round_down_addr (p_vaddr ph) PAGE_SIZE = ua ?n"
    using i by (simp add: round_down_addr_def ua_def USER_START_VMA_def algebra_simps)
  have "unat (p_memsz ph + 4095) = ?m + 4095" using nm by (simp add: unat_word_ariths)
  then have "unat ((p_memsz ph + 4095) div 4096) = seg_count ph" by (simp add: unat_div_distrib seg_count_def)
  then have "(p_memsz ph + 4095) div 4096 = of_nat (seg_count ph)" by (rule eq_of_nat)
  then have "(4095 + p_memsz ph) div 4096 = of_nat (seg_count ph)" by (simp add: add.commute)
  then show "round_up_size (p_memsz ph) PAGE_SIZE = of_nat (4096 * seg_count ph)"
    by (simp add: round_up_size_def mult.commute)
  show "(?n + k) div 4096 \<in> seg_pages ph" if "k < ?m"
  proof -
    have "k div 4096 < seg_count ph" using nblocks_bound [OF that] by (simp add: nblocks_def seg_count_def)
    moreover have "(?n + k) div 4096 = i + k div 4096" using i by simp
    ultimately show ?thesis using i by (simp add: seg_pages_def)
  qed
qed

lemma segment_flags_set:
  "segment_flags ph \<in> {0x10, 0x12, 0x14, 0x16, 0x18, 0x1A, 0x1C, 0x1E}"
  unfolding segment_flags_def pte_flag_defs by (simp split: if_splits)

lemma leaf_after_load:
  "is_leaf (leaf_pte g (segment_flags ph OR PTE_W))" "pte_flags (leaf_pte g (segment_flags ph OR PTE_W)) AND PTE_W \<noteq> 0"
  "pte_flags (reflag (segment_flags ph) (leaf_pte g (segment_flags ph OR PTE_W))) = segment_flags ph OR PTE_A OR PTE_D OR PTE_V"
  using segment_flags_set [of ph]
  by (auto simp: is_leaf_def leaf_pte_def reflag_def PTE_FLAGS_MASK_def pte_flag_defs)

context program_file
begin

lemma load_segment_ok:
  assumes s: "ok s" "data s = D" and seg: "seg_ok D ph" and us: "user_space st ps N"
    and new: "seg_pages ph \<inter> N = {}" and room: "3 * seg_count ph \<le> length ps"
  shows "\<exists>s' st' ps'. load_segment ops ph s st = Inr (0, s', st') \<and> ok s' \<and> data s' = D \<and>
    user_space st' ps' (N \<union> seg_pages ph) \<and> length ps \<le> length ps' + 3 * seg_count ph \<and> loaded D ph st' \<and>
    mm.more st' = mm.more st \<and>
    (\<forall>n < 2 ^ 28. n div 4096 \<in> N \<longrightarrow> upte st' n = upte st n \<and> ubyte st' n = ubyte st n) \<and>
    (\<forall>n < 2 ^ 28. n div 4096 \<notin> seg_pages ph \<longrightarrow> upte st' n = upte st n)"
proof -
  note ad = seg_addr [OF seg]
  define i c n fs ms where "i = seg_start ph div 4096" and "c = seg_count ph" and "n = seg_start ph"
    and "fs = unat (p_filesz ph)" and "ms = unat (p_memsz ph)"
  note defs = i_def c_def n_def fs_def ms_def
  let ?fl = "segment_flags ph" and ?N = "N \<union> {i..<i + c}"
  have pg: "seg_pages ph = {i..<i + c}" by (simp add: seg_pages_def defs)
  have ni: "n = 4096 * i" using ad(3) by (simp add: defs)
  have b: "fs \<le> ms" "n + ms \<le> 2 ^ 28" "i + c \<le> 65536" "unat (p_offset ph) + fs \<le> length D"
    using seg ad(2,4) by (simp_all add: seg_ok_def defs)
  have inp: "(n + k) div 4096 \<in> {i..<i + c}" if "k < ms" for k using ad(7) that pg by (simp add: defs)
  have rng: "\<not> (p_vaddr ph < USER_START_VMA \<or> USER_END_VMA < p_vaddr ph + p_memsz ph)"
  proof -
    have "unat (p_vaddr ph + p_memsz ph) = unat (p_vaddr ph) + unat (p_memsz ph)"
      using seg by (simp add: seg_ok_def unat_word_ariths)
    then show ?thesis
      using seg by (simp add: seg_ok_def word_less_nat_alt USER_START_VMA_def USER_END_VMA_def)
  qed
  obtain st1 ps1 where st1: "memory_alloc_and_map_range (ua n) (of_nat (4096 * c)) (?fl OR PTE_W) st = Inr (ua n, st1)"
    "user_space st1 ps1 ?N" "length ps \<le> length ps1 + 3 * c"
    "\<And>k. k < 2 ^ 28 \<Longrightarrow> k div 4096 \<in> {i..<i + c} \<Longrightarrow>
       ubyte st1 k = Some 0 \<and> (\<exists>g. upte st1 k = Some (leaf_pte g (?fl OR PTE_W)))"
    "\<And>k. k < 2 ^ 28 \<Longrightarrow> k div 4096 \<in> N \<Longrightarrow> upte st1 k = upte st k \<and> ubyte st1 k = ubyte st k"
    "mm.more st1 = mm.more st" "\<And>k. k < 2 ^ 28 \<Longrightarrow> k div 4096 \<notin> {i..<i + c} \<Longrightarrow> upte st1 k = upte st k"
    using map_range_user [OF us, of c i "?fl OR PTE_W"] room b(3) new pg unfolding ni c_def [symmetric] by auto
  have "unat (ua n) = 0xC0000000 + n" using b(2) by (simp add: ua_def USER_START_VMA_def unat_word_ariths unat_of_nat)
  then have nz: "ua n \<noteq> 0" by auto
  obtain s1 s2 where rd: "ioseek ops (p_offset ph) s = Inr (0, s1)"
    "ioread_full ops fs s1 = Inr (int fs, take fs (drop (unat (p_offset ph)) D), s2)" "ok s2" "data s2 = D"
    using read_part [OF s(1), of "p_offset ph" fs] s(2) b by auto
  define bs where "bs = take fs (drop (unat (p_offset ph)) D)"
  have lb: "length bs = fs" using b(4) by (simp add: bs_def)
  have wr: "(n + k) div 4096 \<in> ?N \<and> writable st1 (n + k)" if "k < ms" for k
    using inp [OF that] st1(4) [of "n + k"] that b(2) leaf_after_load(1,2) unfolding writable_def by fastforce
  obtain st2 where st2: "vstore_bytes (ua n) bs st1 = Inr st2" "user_space st2 ps1 ?N" "\<And>k. upte st2 k = upte st1 k"
    "\<And>k. k < 2 ^ 28 \<Longrightarrow> k div 4096 \<in> ?N \<Longrightarrow>
       ubyte st2 k = (if n \<le> k \<and> k < n + fs then Some (bs ! (k - n)) else ubyte st1 k)" "mm.more st2 = mm.more st1"
    using vstore_bytes_user [OF st1(2), of n bs] wr b lb by auto
  let ?z = "replicate (ms - fs) (0 :: u8)"
  have wr2: "\<forall>k < length ?z. (n + fs + k) div 4096 \<in> ?N \<and> writable st2 (n + fs + k)"
    using wr st2(3) by (auto simp: writable_def add.assoc)
  obtain st3 where st3: "vstore_bytes (ua (n + fs)) ?z st2 = Inr st3" "user_space st3 ps1 ?N" "\<And>k. upte st3 k = upte st2 k"
    "\<And>k. k < 2 ^ 28 \<Longrightarrow> k div 4096 \<in> ?N \<Longrightarrow>
       ubyte st3 k = (if n + fs \<le> k \<and> k < n + fs + length ?z then Some (?z ! (k - (n + fs))) else ubyte st2 k)" "mm.more st3 = mm.more st2"
    using vstore_bytes_user [OF st2(2), of "n + fs" ?z] wr2 b by auto
  obtain st4 where st4: "memory_set_range_flags (ua n) (of_nat (4096 * c)) ?fl st3 = Inr st4" "user_space st4 ps1 ?N"
    "\<And>k. k < 2 ^ 28 \<Longrightarrow> k div 4096 \<in> ?N \<Longrightarrow> ubyte st4 k = ubyte st3 k \<and>
       upte st4 k = (if k div 4096 \<in> {i..<i + c} then map_option (reflag ?fl) (upte st3 k) else upte st3 k)" "mm.more st4 = mm.more st3"
    "\<And>k. k < 2 ^ 28 \<Longrightarrow> k div 4096 \<notin> {i..<i + c} \<Longrightarrow> upte st4 k = upte st3 k"
    using set_range_flags_user [OF st3(2) Un_upper2 b(3), of ?fl] unfolding ni by blast
  have zero: "(if p_filesz ph < p_memsz ph then vstore_bytes (p_vaddr ph + p_filesz ph)
      (replicate (unat (p_memsz ph - p_filesz ph)) 0) st2 else Inr st2) = Inr st3"
  proof (cases "fs < ms")
    case True
    then have "p_filesz ph < p_memsz ph" by (simp add: word_less_nat_alt defs)
    moreover have "p_vaddr ph + p_filesz ph = ua (n + fs)" using ad(1) ua_add [of n fs] by (simp add: defs)
    moreover have "unat (p_memsz ph - p_filesz ph) = ms - fs"
      using True by (simp add: unat_minus_if word_le_nat_alt defs)
    ultimately show ?thesis using st3(1) by simp
  next
    case False
    then have "\<not> p_filesz ph < p_memsz ph" "?z = []" by (simp_all add: word_less_nat_alt defs)
    then show ?thesis using st3(1) by simp
  qed
  have "load_segment ops ph s st = Inr (0, s2, st4)"
    using rng ad(1,5,6) st1(1) nz rd(1,2) st2(1) zero st4(1) seg
    by (simp add: load_segment_def Let_def bs_def defs seg_ok_def)
  moreover have "loaded D ph st4"
    unfolding loaded_def n_def [symmetric] ms_def [symmetric] fs_def [symmetric]
  proof (intro allI impI)
    fix k assume k: "k < ms"
    have n28: "n + k < 2 ^ 28" "(n + k) div 4096 \<in> ?N" "(n + k) div 4096 \<in> {i..<i + c}" using k b(2) inp [OF k] by auto
    obtain g where "upte st1 (n + k) = Some (leaf_pte g (?fl OR PTE_W))" using st1(4) [OF n28(1,3)] by blast
    then have "upte st4 (n + k) = Some (reflag ?fl (leaf_pte g (?fl OR PTE_W)))"
      using st4(3) [OF n28(1,2)] n28(3) st3(3) st2(3) by simp
    moreover have "ubyte st4 (n + k) = Some (if k < fs then D ! (unat (p_offset ph) + k) else 0)"
      using st4(3) [OF n28(1,2)] st3(4) [OF n28(1,2)] st2(4) [OF n28(1,2)] k b(4) by (auto simp: bs_def)
    ultimately show "ubyte st4 (n + k) = Some (if k < fs then D ! (unat (p_offset ph) + k) else 0) \<and>
        (\<exists>p. upte st4 (n + k) = Some p \<and> pte_flags p = ?fl OR PTE_A OR PTE_D OR PTE_V)"
      using leaf_after_load(3) by auto
  qed
  moreover have "upte st4 k = upte st k \<and> ubyte st4 k = ubyte st k" if k: "k < 2 ^ 28" "k div 4096 \<in> N" for k
  proof -
    have kN: "k div 4096 \<in> ?N" "k div 4096 \<notin> {i..<i + c}" using k(2) new pg by auto
    have "\<not> (n \<le> k \<and> k < n + ms)"
    proof
      assume "n \<le> k \<and> k < n + ms"
      then have "k - n < ms" "n + (k - n) = k" by auto
      then show False using inp [of "k - n"] kN(2) by simp
    qed
    then have "ubyte st4 k = ubyte st1 k" using st4(3) [OF k(1) kN(1)] st3(4) [OF k(1) kN(1)] st2(4) [OF k(1) kN(1)] b(1) by auto
    then show ?thesis using st4(3) [OF k(1) kN(1)] kN(2) st3(3) st2(3) st1(5) [OF k] by auto
  qed
  moreover have "mm.more st4 = mm.more st" using st1(6) st2(5) st3(5) st4(4) by simp
  moreover have "upte st4 k = upte st k" if "k < 2 ^ 28" "k div 4096 \<notin> {i..<i + c}" for k
    using st4(5) [OF that] st1(7) [OF that] st3(3) st2(3) by simp
  ultimately show ?thesis using rd(3,4) st4(2) st1(3) pg by (auto simp: c_def [symmetric])
qed

lemma loaded_cong:
  assumes "loaded D ph st" and "seg_ok D ph"
    and "\<And>n. n < 2 ^ 28 \<Longrightarrow> n div 4096 \<in> seg_pages ph \<Longrightarrow> upte st' n = upte st n \<and> ubyte st' n = ubyte st n"
  shows "loaded D ph st'"
proof -
  have "seg_start ph + k < 2 ^ 28 \<and> (seg_start ph + k) div 4096 \<in> seg_pages ph" if "k < unat (p_memsz ph)" for k
    using seg_addr(2,7) [OF assms(2)] that by (meson add_less_cancel_left less_le_trans)
  then show ?thesis using assms(1,3) unfolding loaded_def by simp
qed

end

text \<open>The program headers of a file, and files whose headers the loader accepts.\<close>

definition phdr_at :: "u8 list \<Rightarrow> Elf64_Ehdr \<Rightarrow> nat \<Rightarrow> Elf64_Phdr" where
  "phdr_at D eh i = phdr_of (take 56 (drop (unat (e_phoff eh) + i * unat (e_phentsize eh)) D))"

definition phdr_ok :: "u8 list \<Rightarrow> Elf64_Ehdr \<Rightarrow> nat \<Rightarrow> bool" where
  "phdr_ok D eh i \<longleftrightarrow> i * unat (e_phentsize eh) < 2 ^ 31 \<and>
     unat (e_phoff eh) + i * unat (e_phentsize eh) + 56 \<le> length D \<and>
     (if p_type (phdr_at D eh i) = PT_LOAD then seg_ok D (phdr_at D eh i)
      else p_vaddr (phdr_at D eh i) + p_memsz (phdr_at D eh i) \<le> USER_STACK_VMA)"

definition load_indices :: "u8 list \<Rightarrow> Elf64_Ehdr \<Rightarrow> nat list" where
  "load_indices D eh = filter (\<lambda>i. p_type (phdr_at D eh i) = PT_LOAD) [0..<unat (e_phnum eh)]"

definition pages_apart :: "u8 list \<Rightarrow> Elf64_Ehdr \<Rightarrow> nat list \<Rightarrow> bool" where
  "pages_apart D eh js \<longleftrightarrow> (\<forall>i \<in> set js. \<forall>j \<in> set js. i \<noteq> j \<longrightarrow>
     seg_pages (phdr_at D eh i) \<inter> seg_pages (phdr_at D eh j) = {})"

definition elf_ok :: "u8 list \<Rightarrow> bool" where
  "elf_ok D \<longleftrightarrow> (let eh = ehdr_of (take 64 D) in
     64 \<le> length D \<and> length D < 2 ^ 63 \<and> ELF_MAGIC_OK eh \<and> e_type eh = 2 \<and> e_machine eh = RV64_MACHINE \<and>
     e_ident eh ! 5 = ELFDATA2LSB \<and> (\<forall>i < unat (e_phnum eh). phdr_ok D eh i) \<and>
     pages_apart D eh (load_indices D eh))"

context program_file
begin

lemma load_phdrs_ok:
  assumes "ok s" and "data s = D" and "length D < 2 ^ 63" and "\<forall>j \<in> {i..<i + left}. phdr_ok D eh j" and "user_space st ps N"
  defines "js \<equiv> filter (\<lambda>j. p_type (phdr_at D eh j) = PT_LOAD) [i..<i + left]"
  assumes "pages_apart D eh js" and "\<forall>j \<in> set js. seg_pages (phdr_at D eh j) \<inter> N = {}"
    and "3 * sum_list (map (\<lambda>j. seg_count (phdr_at D eh j)) js) \<le> length ps"
  shows "\<exists>s' st' ps'. load_phdrs ops eh i left s st = Inr (0, s', st') \<and> ok s' \<and> data s' = D \<and>
    (\<forall>j \<in> set js. loaded D (phdr_at D eh j) st') \<and> mm.more st' = mm.more st \<and>
    (\<forall>n < 2 ^ 28. n div 4096 \<in> N \<longrightarrow> upte st' n = upte st n \<and> ubyte st' n = ubyte st n) \<and>
    user_space st' ps' (N \<union> (\<Union>j \<in> set js. seg_pages (phdr_at D eh j))) \<and>
    length ps \<le> length ps' + 3 * sum_list (map (\<lambda>j. seg_count (phdr_at D eh j)) js) \<and>
    (\<forall>n < 2 ^ 28. n div 4096 \<notin> (\<Union>j \<in> set js. seg_pages (phdr_at D eh j)) \<longrightarrow> upte st' n = upte st n)"
  using assms(1-5,7-) unfolding js_def
proof (induction left arbitrary: i s st ps N)
  case 0
  then show ?case by auto
next
  case (Suc left)
  let ?ph = "phdr_at D eh i" and ?L = "\<lambda>j. p_type (phdr_at D eh j) = PT_LOAD"
  have pi: "phdr_ok D eh i" using Suc.prems(4) by simp
  define off where "off = unat (e_phoff eh) + i * unat (e_phentsize eh)"
  have o: "i * unat (e_phentsize eh) < 2 ^ 31" "off + 56 \<le> length D" using pi by (simp_all add: phdr_ok_def off_def)
  have "unat (of_nat (i * unat (e_phentsize eh)) :: u64) = i * unat (e_phentsize eh)" using o(1) by (subst unat_of_nat) simp
  then have uo: "unat (e_phoff eh + of_nat (i * unat (e_phentsize eh))) = off"
    using o(2) Suc.prems(3) by (simp add: unat_word_ariths off_def del: of_nat_mult)
  obtain s1 s2 where rd: "ioseek ops (e_phoff eh + of_nat (i * unat (e_phentsize eh))) s = Inr (0, s1)"
    "ioread_full ops 56 s1 = Inr (56, take 56 (drop off D), s2)" "ok s2" "data s2 = D"
    using read_part [OF Suc.prems(1), of "e_phoff eh + of_nat (i * unat (e_phentsize eh))" 56] uo o(2) Suc.prems(2) by auto
  have ph: "phdr_of (take 56 (drop off D)) = ?ph" by (simp add: phdr_at_def off_def)
  have stack: "\<not> USER_STACK_VMA < p_vaddr ?ph + p_memsz ?ph"
  proof (cases "?L i")
    case True
    then have "seg_ok D ?ph" using pi by (simp add: phdr_ok_def)
    then show ?thesis by (simp add: seg_ok_def word_less_nat_alt unat_word_ariths USER_STACK_VMA_def USER_END_VMA_def)
  next
    case False
    then show ?thesis using pi by (simp add: phdr_ok_def not_less)
  qed
  have split: "[i..<i + Suc left] = i # [Suc i..<Suc i + left]" by (simp add: upt_conv_Cons)
  have sub: "set (filter ?L [Suc i..<Suc i + left]) \<subseteq> set (filter ?L [i..<i + Suc left])" by auto
  have rest: "\<forall>j \<in> {Suc i..<Suc i + left}. phdr_ok D eh j" using Suc.prems(4) by auto
  have apart: "pages_apart D eh (filter ?L [Suc i..<Suc i + left])"
    using Suc.prems(6) sub unfolding pages_apart_def by blast
  have away: "\<forall>j \<in> set (filter ?L [Suc i..<Suc i + left]). seg_pages (phdr_at D eh j) \<inter> N = {}"
    using Suc.prems(7) sub by blast
  show ?case
  proof (cases "?L i")
    case False
    have step: "load_phdrs ops eh i (Suc left) s st = load_phdrs ops eh (Suc i) left s2 st"
      using o(1) rd(1,2) ph stack False by (simp add: not_le Let_def)
    have "filter ?L [i..<i + Suc left] = filter ?L [Suc i..<Suc i + left]" unfolding split using False by simp
    then show ?thesis
      using Suc.IH [OF rd(3,4) Suc.prems(3) rest Suc.prems(5) apart away] Suc.prems(8) step by (simp only:)
  next
    case True
    have seg: "seg_ok D ?ph" using pi True by (simp add: phdr_ok_def)
    let ?js = "filter ?L [Suc i..<Suc i + left]"
    have fl: "filter ?L [i..<i + Suc left] = i # ?js" unfolding split using True by simp
    have room: "3 * seg_count ?ph \<le> length ps" "seg_pages ?ph \<inter> N = {}"
      using Suc.prems(7,8) unfolding fl by auto
    obtain s3 st3 ps3 where ls: "load_segment ops ?ph s2 st = Inr (0, s3, st3)" "ok s3" "data s3 = D"
      "user_space st3 ps3 (N \<union> seg_pages ?ph)" "length ps \<le> length ps3 + 3 * seg_count ?ph" "loaded D ?ph st3"
      "\<forall>n < 2 ^ 28. n div 4096 \<in> N \<longrightarrow> upte st3 n = upte st n \<and> ubyte st3 n = ubyte st n" "mm.more st3 = mm.more st"
      "\<forall>n < 2 ^ 28. n div 4096 \<notin> seg_pages ?ph \<longrightarrow> upte st3 n = upte st n"
      using load_segment_ok [OF rd(3,4) seg Suc.prems(5) room(2,1)] by blast
    have step: "load_phdrs ops eh i (Suc left) s st = load_phdrs ops eh (Suc i) left s3 st3"
      using o(1) rd(1,2) ph stack True ls(1) by (simp add: not_le Let_def)
    have away': "\<forall>j \<in> set ?js. seg_pages (phdr_at D eh j) \<inter> (N \<union> seg_pages ?ph) = {}"
    proof
      fix j assume j: "j \<in> set ?js"
      then have "j \<in> set (i # ?js)" "i \<in> set (i # ?js)" "j \<noteq> i" by auto
      then have "seg_pages (phdr_at D eh j) \<inter> seg_pages ?ph = {}"
        using Suc.prems(6) unfolding fl pages_apart_def by blast
      then show "seg_pages (phdr_at D eh j) \<inter> (N \<union> seg_pages ?ph) = {}" using away j by blast
    qed
    have "3 * sum_list (map (\<lambda>j. seg_count (phdr_at D eh j)) ?js) \<le> length ps3"
      using Suc.prems(8) ls(5) unfolding fl by simp
    then obtain s' st' ps' where r: "load_phdrs ops eh (Suc i) left s3 st3 = Inr (0, s', st')" "ok s'" "data s' = D"
      "\<forall>j \<in> set ?js. loaded D (phdr_at D eh j) st'"
      "\<forall>n < 2 ^ 28. n div 4096 \<in> N \<union> seg_pages ?ph \<longrightarrow> upte st' n = upte st3 n \<and> ubyte st' n = ubyte st3 n"
      "mm.more st' = mm.more st3" "user_space st' ps' (N \<union> seg_pages ?ph \<union> (\<Union>j \<in> set ?js. seg_pages (phdr_at D eh j)))"
      "length ps3 \<le> length ps' + 3 * sum_list (map (\<lambda>j. seg_count (phdr_at D eh j)) ?js)"
      "\<forall>n < 2 ^ 28. n div 4096 \<notin> (\<Union>j \<in> set ?js. seg_pages (phdr_at D eh j)) \<longrightarrow> upte st' n = upte st3 n"
      using Suc.IH [OF ls(2,3) Suc.prems(3) rest ls(4) apart away'] by blast
    have "loaded D ?ph st'" using r(5) by (intro loaded_cong [OF ls(6) seg]) auto
    then have "\<forall>j \<in> set (i # ?js). loaded D (phdr_at D eh j) st'" using r(4) by simp
    moreover have "length ps \<le> length ps' + 3 * sum_list (map (\<lambda>j. seg_count (phdr_at D eh j)) (i # ?js))"
      using ls(5) r(8) by simp
    moreover have "\<forall>n < 2 ^ 28. n div 4096 \<notin> (\<Union>j \<in> set (i # ?js). seg_pages (phdr_at D eh j)) \<longrightarrow> upte st' n = upte st n"
      using ls(9) r(9) by auto
    moreover have "user_space st' ps' (N \<union> (\<Union>j \<in> set (i # ?js). seg_pages (phdr_at D eh j)))"
      using r(7) by (simp add: Un_assoc)
    moreover have "\<forall>n < 2 ^ 28. n div 4096 \<in> N \<longrightarrow> upte st' n = upte st n \<and> ubyte st' n = ubyte st n" using ls(7) r(5) by auto
    ultimately show ?thesis
      using trans [OF step r(1)] r(2,3,6) ls(8) unfolding fl by (intro exI [of _ s'] exI [of _ st'] exI [of _ ps'] conjI) simp_all
  qed
qed

lemma elf_load_ok:
  assumes s: "ok s" "at s = 0" and D: "data s = D" "elf_ok D" and us: "user_space st ps {}"
  defines "eh \<equiv> ehdr_of (take 64 D)"
  assumes room: "3 * sum_list (map (\<lambda>j. seg_count (phdr_at D eh j)) (load_indices D eh)) \<le> length ps"
    and js: "js = load_indices D eh"
  shows "\<exists>s' st' ps'. elf_load ops s st = Inr (0, Some (e_entry eh), s', st') \<and> mm.more st' = mm.more st \<and>
    (\<forall>j \<in> set js. loaded D (phdr_at D eh j) st') \<and> user_space st' ps' (\<Union>j \<in> set js. seg_pages (phdr_at D eh j)) \<and>
    length ps \<le> length ps' + 3 * sum_list (map (\<lambda>j. seg_count (phdr_at D eh j)) js) \<and>
    (\<forall>n < 2 ^ 28. n div 4096 \<notin> (\<Union>j \<in> set js. seg_pages (phdr_at D eh j)) \<longrightarrow> upte st' n = upte st n)"
proof -
  have e: "64 \<le> length D" "length D < 2 ^ 63" "ELF_MAGIC_OK eh" "e_type eh = 2" "e_machine eh = RV64_MACHINE"
    "e_ident eh ! 5 = ELFDATA2LSB" "\<forall>i < unat (e_phnum eh). phdr_ok D eh i" "pages_apart D eh (load_indices D eh)"
    using D(2) unfolding elf_ok_def eh_def [symmetric] by (simp_all add: Let_def eh_def)
  obtain s1 where s1: "ioread_full ops 64 s = Inr (64, take 64 D, s1)" "ok s1" "data s1 = D"
    using read_full_ok [OF s(1), of 64] s(2) D(1) e(1) by auto
  have j: "filter (\<lambda>j. p_type (phdr_at D eh j) = PT_LOAD) [0..<0 + unat (e_phnum eh)] = js" by (simp add: js load_indices_def)
  have p: "\<forall>j \<in> {0..<0 + unat (e_phnum eh)}. phdr_ok D eh j" "\<forall>j \<in> set js. seg_pages (phdr_at D eh j) \<inter> {} = {}" using e(7) by simp_all
  obtain s' st' ps' where r: "load_phdrs ops eh 0 (unat (e_phnum eh)) s1 st = Inr (0, s', st')"
    and rest: "\<forall>j \<in> set js. loaded D (phdr_at D eh j) st'" "mm.more st' = mm.more st"
      "user_space st' ps' ({} \<union> (\<Union>j \<in> set js. seg_pages (phdr_at D eh j)))"
      "length ps \<le> length ps' + 3 * sum_list (map (\<lambda>j. seg_count (phdr_at D eh j)) js)"
      "\<forall>n < 2 ^ 28. n div 4096 \<notin> (\<Union>j \<in> set js. seg_pages (phdr_at D eh j)) \<longrightarrow> upte st' n = upte st n"
    using load_phdrs_ok [OF s1(2,3) e(2) p(1) us, unfolded j, OF e(8) [folded js] p(2) room [folded js]] by blast
  have "elf_load ops s st = Inr (0, Some (e_entry eh), s', st')"
    using r s1(1) e(3-6) by (simp add: elf_load_def eh_def [symmetric])
  then show ?thesis using rest by (intro exI [of _ s'] exI [of _ st'] exI [of _ ps'] conjI) simp_all
qed

end

section \<open>Files of the file system\<close>

context block_device
begin

lemma fs_program_file: "program_file (fs_io_ops ops k) (fs_wf ok disk k) (fs_contents disk k) (fs_at k)"
proof
  fix s and p :: u64 assume "fs_wf ok disk k s" "unat p \<le> length (fs_contents disk k s)"
  then show "\<exists>s'. ioseek (fs_io_ops ops k) p s = Inr (0, s') \<and> fs_wf ok disk k s' \<and>
      fs_contents disk k s' = fs_contents disk k s \<and> fs_at k s' = unat p"
    using fs_setpos_ok [of ok disk k s p] by (auto simp: ioseek_def ioctl_def fs_io_ops_def)
next
  fix s and n :: nat assume "fs_wf ok disk k s" "n < 2 ^ 63"
  then show "\<exists>s'. ioread_full (fs_io_ops ops k) n s =
      Inr (int (length (take n (drop (fs_at k s) (fs_contents disk k s)))), take n (drop (fs_at k s) (fs_contents disk k s)), s') \<and>
      fs_wf ok disk k s' \<and> fs_contents disk k s' = fs_contents disk k s"
    using byte_source.ioread_loop_ok [OF fs_source_of [of k "fs_contents disk k s"], of n s 0 "[]"]
    by (auto simp: ioread_full_def fs_io_ops_def min.commute)
qed

end

interpretation prog: program_file "fs_io_ops (vioblk_io_ops serve_disk) k"
  "fs_wf (\<lambda>dev. vb_wf (\<lambda>hw. hw) dev \<and> \<not> vb_lock dev) (vb_data (\<lambda>hw. hw)) k"
  "fs_contents (vb_data (\<lambda>hw. hw)) k" "fs_at k" for k
  by (rule vbd.fs_program_file)

section \<open>A concrete program\<close>

text \<open>A file with one header, for a segment with three bytes of code and two of zeros.\<close>

definition demo_prog :: "u8 list" where
  "demo_prog =
     [0x7F, 0x45, 0x4C, 0x46, 2, 1, 1, 0, 0, 0, 0, 0, 0, 0, 0, 0,
      2, 0, 243, 0, 1, 0, 0, 0, 0, 0, 0, 0xC0, 0, 0, 0, 0,
      64, 0, 0, 0, 0, 0, 0, 0, 0, 0, 0, 0, 0, 0, 0, 0,
      0, 0, 0, 0, 64, 0, 56, 0, 1, 0, 0, 0, 0, 0, 0, 0,
      1, 0, 0, 0, 5, 0, 0, 0, 120, 0, 0, 0, 0, 0, 0, 0,
      0, 0, 0, 0xC0, 0, 0, 0, 0, 0, 0, 0, 0xC0, 0, 0, 0, 0,
      3, 0, 0, 0, 0, 0, 0, 0, 5, 0, 0, 0, 0, 0, 0, 0,
      0, 0x10, 0, 0, 0, 0, 0, 0, 10, 11, 12]"

definition prog_inode :: "u8 list" where
  "prog_inode = [123, 0, 0, 0] @ replicate 4092 0"

definition prog_disk :: "u8 list" where
  "prog_disk = demo_boot @ prog_inode @ (demo_prog @ replicate 3973 0)"

definition prog_open :: "u8 list vioblk fs" where
  "prog_open = demo_fs\<lparr>vioblk_io := vioblk_attach_dev 512 24 (replicate 512 0) (0, 0, 0) zero_regs prog_disk,
     file_structs := (file_structs demo_fs)
       [0 := \<lparr>f_refcnt = 1, file_position = 0, file_size = 123, inode_number = 0, f_flags = 1\<rparr>]\<rparr>"

lemma demo_prog_length: "length demo_prog = 123"
  by (simp add: demo_prog_def)

lemma prog_blocks: "length prog_disk = 12288" "disk_block prog_disk 1 = prog_inode"
  "disk_block prog_disk 2 = demo_prog @ replicate 3973 0" "disk_block prog_disk 0 = demo_boot"
  using demo_blocks(3) demo_prog_length by (simp_all add: prog_disk_def prog_inode_def disk_block_def)

lemma prog_file: "file_ok prog_disk 1 0 123" "file_data prog_disk 1 0 123 = demo_prog" "own_blocks prog_disk 1 0 123"
proof -
  have i: "byte_len prog_inode = 123" "data_block_num prog_inode 0 = 0"
    by (simp_all add: prog_inode_def byte_len_def data_block_num_def le32_def)
  have b: "block_no prog_disk 1 0 0 = 2" using prog_blocks(2) i(2) by (simp add: block_no_def)
  have n: "nblocks 123 = 1" by (simp add: nblocks_def)
  show "file_ok prog_disk 1 0 123" using b n prog_blocks(1) by (simp add: file_ok_def)
  show "file_data prog_disk 1 0 123 = demo_prog"
    using b n prog_blocks(3) demo_prog_length by (simp add: file_data_def file_blocks_def)
  show "own_blocks prog_disk 1 0 123" using n by (simp add: own_blocks_def lessThan_Suc)
qed

lemma prog_open_ok:
  "fs_wf (\<lambda>dev. vb_wf (\<lambda>hw. hw) dev \<and> \<not> vb_lock dev) (vb_data (\<lambda>hw. hw)) 0 prog_open"
  "fs_contents (vb_data (\<lambda>hw. hw)) 0 prog_open = demo_prog" "fs_at 0 prog_open = 0"
  "fs_writable (\<lambda>dev. vb_wf (\<lambda>hw. hw) dev \<and> \<not> vb_lock dev) (vb_data (\<lambda>hw. hw)) 0 prog_open"
proof -
  let ?dev = "vioblk_attach_dev 512 24 (replicate 512 0) (0, 0, 0) zero_regs prog_disk"
  have vb: "vb_wf (\<lambda>hw. hw) ?dev" "\<not> vb_lock ?dev" "vb_data (\<lambda>hw. hw) ?dev = prog_disk"
    using prog_blocks(1) by (simp_all add: vb_wf_def vioblk_attach_dev_def vb_data_def)
  have f: "file_structs prog_open ! 0 = \<lparr>f_refcnt = 1, file_position = 0, file_size = 123, inode_number = 0, f_flags = 1\<rparr>"
    "length (file_structs prog_open) = 32" "\<not> fs_lock prog_open" "boot_block prog_open = demo_boot"
    "fs_disk (vb_data (\<lambda>hw. hw)) prog_open = prog_disk" "vioblk_io prog_open = ?dev"
    using vb by (simp_all add: prog_open_def demo_fs_def fs_disk_def)
  show w: "fs_wf (\<lambda>dev. vb_wf (\<lambda>hw. hw) dev \<and> \<not> vb_lock dev) (vb_data (\<lambda>hw. hw)) 0 prog_open"
    using prog_file demo_boot_members vb demo_blocks(3) unfolding fs_wf_def f
    by (simp add: fs_bufs_def prog_open_def demo_fs_def)
  show "fs_contents (vb_data (\<lambda>hw. hw)) 0 prog_open = demo_prog"
    using prog_file demo_boot_members unfolding fs_contents_def f by simp
  show "fs_at 0 prog_open = 0" unfolding fs_at_def f by simp
  show "fs_writable (\<lambda>dev. vb_wf (\<lambda>hw. hw) dev \<and> \<not> vb_lock dev) (vb_data (\<lambda>hw. hw)) 0 prog_open"
    unfolding fs_writable_def f using w prog_file(3) demo_boot_members by simp
qed

definition prog_ehdr :: Elf64_Ehdr where
  "prog_ehdr = \<lparr>e_ident = take 16 demo_prog, e_type = 2, e_machine = 243, e_entry = 0xC0000000, e_phoff = 64,
     e_phentsize = 56, e_phnum = 1\<rparr>"

definition prog_phdr :: Elf64_Phdr where
  "prog_phdr = \<lparr>p_type = 1, p_flags = 5, p_offset = 120, p_vaddr = 0xC0000000, p_paddr = 0xC0000000,
     p_filesz = 3, p_memsz = 5\<rparr>"

lemma demo_prog_headers: "ehdr_of (take 64 demo_prog) = prog_ehdr" "phdr_at demo_prog prog_ehdr 0 = prog_phdr"
  by (simp_all add: ehdr_of_def phdr_at_def phdr_of_def demo_prog_def prog_ehdr_def prog_phdr_def le16_def le32_def le64_def)

lemma demo_prog_segment: "seg_ok demo_prog prog_phdr" "seg_count prog_phdr = 1" "load_indices demo_prog prog_ehdr = [0]"
  using demo_prog_length demo_prog_headers(2)
  by (simp_all add: seg_ok_def seg_count_def seg_start_def prog_phdr_def load_indices_def PT_LOAD_def)
    (simp add: prog_ehdr_def)

lemma demo_prog_ok: "elf_ok demo_prog"
proof -
  have "phdr_ok demo_prog prog_ehdr 0"
    using demo_prog_segment(1) demo_prog_length by (simp add: phdr_ok_def demo_prog_headers(2)) (simp add: prog_ehdr_def prog_phdr_def PT_LOAD_def)
  moreover have "ELF_MAGIC_OK prog_ehdr" "e_ident prog_ehdr ! 5 = 1"
    by (simp_all add: ELF_MAGIC_OK_def prog_ehdr_def demo_prog_def)
  ultimately show ?thesis
    unfolding elf_ok_def demo_prog_headers(1) Let_def demo_prog_segment(3)
    by (simp add: demo_prog_length pages_apart_def RV64_MACHINE_def ELFDATA2LSB_def) (simp add: prog_ehdr_def)
qed

lemma demo_user_space: "user_space demo_vm demo_pages {}"
proof -
  have "own_frames demo_vm {} (set demo_pages - set demo_pages)" by (simp add: own_frames_def)
  moreover have "sstatus_sum demo_vm" by (simp add: demo_vm_def)
  ultimately show ?thesis
    unfolding user_space_def demo_root using demo_prefix demo_limit demo_space(1,2) by blast
qed

section \<open>Correctness properties\<close>

text \<open>
  C2. The loader puts a program into memory: for an open file of the file system, on the block
  driver and a device that serves requests as the VirtIO standard says, whose contents are an
  executable with page-aligned segments that lie in the user part and share no page, and with
  enough free pages, \<open>elf_load\<close> succeeds and returns the entry point of the header. Every byte of
  every loadable segment, read back through the page table, is then the byte of the file or, past
  the part stored in the file, zero, and its page has exactly the permissions of the segment. Of the
  kernel's state only memory and the list of free pages change.
\<close>

theorem elf_load_correct:
  assumes dev: "virtio_ok serve contents"
    and "fs_wf (\<lambda>dev. vb_wf contents dev \<and> \<not> vb_lock dev) (vb_data contents) k fs" and "fs_at k fs = 0"
    and "fs_contents (vb_data contents) k fs = D" and "elf_ok D" and "user_space st ps {}"
    and "3 * sum_list (map (\<lambda>j. seg_count (phdr_at D (ehdr_of (take 64 D)) j)) (load_indices D (ehdr_of (take 64 D)))) \<le> length ps"
  shows "\<exists>fs' st'. elf_load (fs_io_ops (vioblk_io_ops serve) k) fs st = Inr (0, Some (e_entry (ehdr_of (take 64 D))), fs', st') \<and>
    mm.more st' = mm.more st \<and> (\<forall>j \<in> set (load_indices D (ehdr_of (take 64 D))). loaded D (phdr_at D (ehdr_of (take 64 D)) j) st')"
  using program_file.elf_load_ok [OF block_device.fs_program_file [OF vioblk_block_device [OF dev]] assms(2-) refl] by blast

theorem elf_load_correct_witness:
  "\<exists>fs' st'. elf_load (fs_io_ops (vioblk_io_ops serve_disk) 0) prog_open demo_vm = Inr (0, Some 0xC0000000, fs', st') \<and>
     loaded demo_prog prog_phdr st'"
proof -
  have "3 * sum_list (map (\<lambda>j. seg_count (phdr_at demo_prog (ehdr_of (take 64 demo_prog)) j))
      (load_indices demo_prog (ehdr_of (take 64 demo_prog)))) \<le> length demo_pages"
    unfolding demo_prog_headers(1) demo_prog_segment(3) by (simp add: demo_prog_headers(2) demo_prog_segment(2) demo_pages_def)
  moreover have e: "e_entry prog_ehdr = 0xC0000000" by (simp add: prog_ehdr_def)
  ultimately have "\<exists>fs' st'. elf_load (fs_io_ops (vioblk_io_ops serve_disk) 0) prog_open demo_vm =
      Inr (0, Some (e_entry (ehdr_of (take 64 demo_prog))), fs', st') \<and> mm.more st' = mm.more demo_vm \<and>
      (\<forall>j \<in> set (load_indices demo_prog (ehdr_of (take 64 demo_prog))).
         loaded demo_prog (phdr_at demo_prog (ehdr_of (take 64 demo_prog)) j) st')"
    using elf_load_correct [OF serve_disk_ok prog_open_ok(1,3,2) demo_prog_ok demo_user_space] by blast
  then show ?thesis
    unfolding demo_prog_headers(1) demo_prog_segment(3) using e by (auto simp: demo_prog_headers(2))
qed

end
