(* ===== verification/Clone.thy ===== *)
theory Clone
  imports Memory
begin

text \<open>
  Cloning an address space (\<open>memory_space_clone\<close>, the memory half of \<open>fork\<close>).

  The clone takes its root, its tables and its frames from the free pages. \<open>changes_in S\<close> says
  that only words of the pages in \<open>S\<close> changed; a space whose tables lie outside \<open>S\<close> is untouched
  by such a change. \<open>cloning\<close> is the invariant of the loop over the user pages.
\<close>

section \<open>Changes inside a set of pages\<close>

definition changes_in :: "u64 set \<Rightarrow> (u64 \<Rightarrow> u64) \<Rightarrow> (u64 \<Rightarrow> u64) \<Rightarrow> bool" where
  "changes_in S m m' \<longleftrightarrow> (\<forall>a. m' a \<noteq> m a \<longrightarrow> (\<exists>n \<in> S. a - n < PAGE_SIZE))"

lemma changes_in_refl [simp]: "changes_in S m m"
  by (simp add: changes_in_def)

lemma changes_in_trans: "changes_in S m m1 \<Longrightarrow> changes_in S m1 m2 \<Longrightarrow> changes_in S m m2"
  unfolding changes_in_def by metis

lemma changes_in_keeps: "keeps_outside n m m' \<Longrightarrow> n \<in> S \<Longrightarrow> changes_in S m m'"
  unfolding changes_in_def keeps_outside_def by blast

lemma changes_in_upd: "n \<in> S \<Longrightarrow> a - n < PAGE_SIZE \<Longrightarrow> changes_in S m (m(a := w))"
  unfolding changes_in_def by (metis fun_upd_other)

lemma changes_in_page:
  assumes "changes_in S m m'" and "\<forall>n \<in> S. page_aligned n" and "page_aligned p" and "p \<notin> S" and "a - p < PAGE_SIZE"
  shows "m' a = m a"
proof (rule ccontr)
  assume "m' a \<noteq> m a"
  then obtain n where "n \<in> S" "a - n < PAGE_SIZE" using assms(1) unfolding changes_in_def by blast
  with assms(2-5) page_disjoint show False by metis
qed

lemma entry_changes_in:
  assumes "wf_space m root F" and "S \<subseteq> F" and "\<forall>n \<in> S. page_aligned n" and "changes_in S m m'"
    and "vpath q" and "table_at m root q = Some t" and "i < 512"
  shows "m' (t + 8 * i) = m (t + 8 * i)"
proof (rule changes_in_page [OF assms(4,3)])
  show "page_aligned t" "t \<notin> S" using wf_space_table [OF assms(1,5,6)] assms(2) by auto
  show "t + 8 * i - t < PAGE_SIZE" using assms(7) by (rule entry_offset_less)
qed

lemma table_at_changes_in:
  assumes "wf_space m root F" and "S \<subseteq> F" and "\<forall>n \<in> S. page_aligned n" and "changes_in S m m'"
    and "vpath q"
  shows "table_at m' root q = table_at m root q"
proof (rule table_at_cong)
  fix r j t
  assume "prefix (r @ [j]) q" and t: "table_at m root r = Some t"
  with assms(5) have "vpath r" "j < 512" by (auto dest: prefix_vpath)
  with entry_changes_in [OF assms(1-4) _ t] show "m' (t + 8 * j) = m (t + 8 * j)" by blast
qed

lemma space_changes_in:
  assumes "wf_space m root F" and "S \<subseteq> F" and "\<forall>n \<in> S. page_aligned n" and "changes_in S m m'"
  shows "wf_space m' root F" and "slot m' root va = slot m root va" and "mapped m' root va = mapped m root va"
    and "slot m root va = Some a \<Longrightarrow> m' a = m a"
proof -
  show "wf_space m' root F"
    using assms(1) table_at_changes_in [OF assms] by (auto simp: wf_space_def)
  show s: "slot m' root va = slot m root va"
    unfolding slot_def using table_at_changes_in [OF assms, of "[VPN 2 va, VPN 1 va]"] by simp
  show e: "m' a = m a" if "slot m root va = Some a" for a
    using that entry_changes_in [OF assms, of "[VPN 2 va, VPN 1 va]"] by (auto elim: slotE)
  show "mapped m' root va = mapped m root va" using s e by (rule mapped_cong)
qed

section \<open>The invariant of the loop\<close>

text \<open>A list of free pages: distinct, aligned, with numbers that fit a page-table entry.\<close>

definition pool :: "u64 list \<Rightarrow> bool" where
  "pool ps \<longleftrightarrow> distinct ps \<and> (\<forall>p \<in> set ps. page_aligned p \<and> p \<noteq> 0 \<and> p < 2 ^ 56)"

text \<open>The user addresses are below the entry 3 of the root table.\<close>

definition user_vpn :: u64 where "user_vpn = 3"

definition done_page :: "u64 set \<Rightarrow> u64 \<Rightarrow> bool" where
  "done_page D va \<longleftrightarrow> (\<exists>v \<in> D. same_vpage v va)"

text \<open>
  The page of an address in the copy: unmapped when it is unmapped in the original, and
  otherwise a frame of \<open>A\<close> with the same flags and the same contents.
\<close>

definition copied :: "(u64 \<Rightarrow> u64) \<Rightarrow> u64 \<Rightarrow> (u64 \<Rightarrow> u64) \<Rightarrow> u64 \<Rightarrow> u64 set \<Rightarrow> u64 \<Rightarrow> bool" where
  "copied m0 proot m root A va \<longleftrightarrow>
     (case mapped m0 proot va of None \<Rightarrow> mapped m root va = None
      | Some p \<Rightarrow> (\<exists>p'. mapped m root va = Some p' \<and> pte_flags p' = pte_flags p \<and> pte_page p' \<in> A \<and>
          (\<forall>off < PAGE_SIZE. m (pte_page p' + off) = m0 (pte_page p + off))))"

text \<open>The entry of the new root for an index outside the user part.\<close>

definition shared_entry :: "(u64 \<Rightarrow> u64) \<Rightarrow> u64 \<Rightarrow> u64 \<Rightarrow> u64" where
  "shared_entry m0 main_root i =
     (if pte_flags (pte_of (m0 (main_root + 8 * i))) AND PTE_G \<noteq> 0 then m0 (main_root + 8 * i) else 0)"

definition own_tables :: "(u64 \<Rightarrow> u64) \<Rightarrow> u64 \<Rightarrow> u64 set \<Rightarrow> bool" where
  "own_tables m root S \<longleftrightarrow> (\<forall>q t. vpath q \<longrightarrow> q = [] \<or> hd q = user_vpn \<longrightarrow> table_at m root q = Some t \<longrightarrow> t \<in> S)"

lemma own_root: "own_tables m root S \<Longrightarrow> root \<in> S"
  unfolding own_tables_def by (drule spec [of _ "[]"]) simp

lemma own_table:
  "own_tables m root S \<Longrightarrow> vpath q \<Longrightarrow> q = [] \<or> hd q = user_vpn \<Longrightarrow> table_at m root q = Some t \<Longrightarrow> t \<in> S"
  unfolding own_tables_def by blast

definition frames_apart :: "(u64 \<Rightarrow> u64) \<Rightarrow> u64 \<Rightarrow> u64 set \<Rightarrow> bool" where
  "frames_apart m root D \<longleftrightarrow> (\<forall>va va' p p'. done_page D va \<longrightarrow> done_page D va' \<longrightarrow> \<not> same_vpage va va' \<longrightarrow>
     mapped m root va = Some p \<longrightarrow> mapped m root va' = Some p' \<longrightarrow> pte_page p \<noteq> pte_page p')"

definition cloning ::
    "(u64 \<Rightarrow> u64) \<Rightarrow> u64 \<Rightarrow> u64 \<Rightarrow> u64 \<Rightarrow> u64 list \<Rightarrow> u64 set \<Rightarrow> nat \<Rightarrow> u64 set \<Rightarrow> (u64 \<Rightarrow> u64) \<Rightarrow> bool" where
  "cloning m0 proot main_root root ps A k D m \<longleftrightarrow>
     changes_in (set ps) m0 m \<and>
     wf_space m root (set (drop k ps) \<union> A) \<and> A \<subseteq> set (take k ps) \<and>
     own_tables m root (set (take k ps)) \<and>
     (\<forall>va. VPN 2 va = user_vpn \<longrightarrow> \<not> superpage m root va) \<and>
     (\<forall>va. done_page D va \<longrightarrow> VPN 2 va = user_vpn \<and> copied m0 proot m root A va) \<and>
     (\<forall>va a. VPN 2 va = user_vpn \<longrightarrow> \<not> done_page D va \<longrightarrow> slot m root va = Some a \<longrightarrow> m a = 0) \<and>
     frames_apart m root D \<and>
     (\<forall>i < 512. i \<noteq> user_vpn \<longrightarrow> m (root + 8 * i) = shared_entry m0 main_root i)"

lemma cloningD:
  assumes "cloning m0 proot main_root root ps A k D m"
  shows clo_changes: "changes_in (set ps) m0 m"
    and clo_wf: "wf_space m root (set (drop k ps) \<union> A)" and clo_frames: "A \<subseteq> set (take k ps)"
    and clo_own: "own_tables m root (set (take k ps))"
    and clo_super: "VPN 2 va = user_vpn \<Longrightarrow> \<not> superpage m root va"
    and clo_user: "done_page D va \<Longrightarrow> VPN 2 va = user_vpn"
    and clo_copied: "done_page D va \<Longrightarrow> copied m0 proot m root A va"
    and clo_zero: "VPN 2 va = user_vpn \<Longrightarrow> \<not> done_page D va \<Longrightarrow> slot m root va = Some a \<Longrightarrow> m a = 0"
    and clo_apart: "frames_apart m root D"
    and clo_shared: "i < 512 \<Longrightarrow> i \<noteq> user_vpn \<Longrightarrow> m (root + 8 * i) = shared_entry m0 main_root i"
  using assms unfolding cloning_def by simp_all

lemma pool_parts:
  assumes "pool ps"
  shows "set (take k ps) \<inter> set (drop k ps) = {}" and "set (drop (k + j) ps) \<subseteq> set (drop k ps)"
    and "set (take (k + j) ps) = set (take k ps) \<union> set (take j (drop k ps))"
    and "p \<in> set ps \<Longrightarrow> page_aligned p"
proof -
  show "set (take k ps) \<inter> set (drop k ps) = {}"
    using assms by (simp add: pool_def set_take_disj_set_drop_if_distinct)
  show "set (drop (k + j) ps) \<subseteq> set (drop k ps)"
    by (metis add.commute drop_drop set_drop_subset)
  show "set (take (k + j) ps) = set (take k ps) \<union> set (take j (drop k ps))"
    by (simp add: take_add)
  show "p \<in> set ps \<Longrightarrow> page_aligned p" using assms by (simp add: pool_def)
qed

lemma clo_frame_aligned:
  assumes "cloning m0 proot main_root root ps A k D m" and "pool ps" and "n \<in> A"
  shows "page_aligned n"
proof -
  have "n \<in> set (take k ps)" using clo_frames [OF assms(1)] assms(3) by (rule subsetD)
  then have "n \<in> set ps" by (rule in_set_takeD)
  then show ?thesis by (rule pool_parts(4) [OF assms(2)])
qed

text \<open>Changes of memory that keep the frames and the mappings keep what was copied.\<close>

lemma copied_cong:
  assumes "copied m0 proot m root A va" and "mapped m' root va = mapped m root va"
    and "\<And>n a. n \<in> A \<Longrightarrow> a - n < PAGE_SIZE \<Longrightarrow> m' a = m a" and "A \<subseteq> A'"
  shows "copied m0 proot m' root A' va"
proof (cases "mapped m0 proot va")
  case None
  then show ?thesis using assms(1,2) by (simp add: copied_def)
next
  case (Some p)
  then obtain p' where p': "mapped m root va = Some p'" "pte_flags p' = pte_flags p" "pte_page p' \<in> A"
      "\<forall>off < PAGE_SIZE. m (pte_page p' + off) = m0 (pte_page p + off)"
    using assms(1) by (auto simp: copied_def)
  have "m' (pte_page p' + off) = m0 (pte_page p + off)" if "off < PAGE_SIZE" for off
    using assms(3) [OF p'(3), of "pte_page p' + off"] p'(4) that by simp
  then show ?thesis using Some p' assms(2,4) unfolding copied_def by auto
qed

lemma frames_apart_cong:
  "frames_apart m root D \<Longrightarrow> (\<And>va. mapped m' root va = mapped m root va) \<Longrightarrow> frames_apart m' root D"
  by (simp add: frames_apart_def)

text \<open>The walk in the new space, which may take pages for tables.\<close>

lemma cloning_walk:
  assumes c: "cloning m0 proot main_root root ps A k D m" and pool: "pool ps"
    and g: "grows root m (set (drop k ps) \<union> A) m1 (set (drop k ps) \<union> A - set (take j (drop k ps)))"
    and loc: "\<forall>a. m1 a \<noteq> m a \<longrightarrow> a = root + 8 * user_vpn \<or>
      (\<exists>t. table_at m1 root [user_vpn] = Some t \<and> a - t < PAGE_SIZE) \<or>
      (\<exists>n \<in> set (take j (drop k ps)). a - n < PAGE_SIZE)"
  shows "cloning m0 proot main_root root ps A (k + j) D m1"
proof -
  note D = cloningD [OF c]
  let ?F = "set (drop k ps) \<union> A - set (take j (drop k ps))"
  have dis: "A \<inter> set (drop k ps) = {}" using pool_parts(1) [OF pool, of k] D(3) by blast
  have "set (take j (drop k ps)) \<inter> set (drop j (drop k ps)) = {}"
    using pool by (intro set_take_disj_set_drop_if_distinct) (auto simp: pool_def)
  then have dj: "set (take j (drop k ps)) \<inter> set (drop (k + j) ps) = {}" by (simp add: add.commute)
  have F: "set (drop (k + j) ps) \<union> A \<subseteq> ?F"
    using dis dj pool_parts(2) [OF pool, of k j] set_take_subset [of j "drop k ps"] by blast
  have v3: "vpath [user_vpn]" by (simp add: user_vpn_def)
  have own: "own_tables m1 root (set (take (k + j) ps))"
    unfolding own_tables_def
  proof (intro allI impI)
    fix q t assume q: "vpath q" "q = [] \<or> hd q = user_vpn" "table_at m1 root q = Some t"
    from grows_new_table [OF g q(1,3)] show "t \<in> set (take (k + j) ps)"
    proof
      assume "table_at m root q = Some t"
      then show ?thesis using own_table [OF D(4) q(1,2)] pool_parts(3) [OF pool] by blast
    next
      assume "t \<in> set (drop k ps) \<union> A - ?F"
      then show ?thesis using pool_parts(3) [OF pool] by blast
    qed
  qed
  have sub: "set (take (k + j) ps) \<subseteq> set ps" by (rule set_take_subset)
  have "changes_in (set ps) m m1"
    unfolding changes_in_def
  proof (intro allI impI)
    fix a assume "m1 a \<noteq> m a"
    with loc consider "a = root + 8 * user_vpn" | t where "table_at m1 root [user_vpn] = Some t" "a - t < PAGE_SIZE"
      | n where "n \<in> set (take j (drop k ps))" "a - n < PAGE_SIZE" by blast
    then show "\<exists>n \<in> set ps. a - n < PAGE_SIZE"
    proof cases
      case 1
      have "root \<in> set ps" using own_root [OF own] sub by blast
      moreover have "a - root < PAGE_SIZE" unfolding 1 by (rule entry_offset_less) (simp add: user_vpn_def)
      ultimately show ?thesis by blast
    next
      case 2
      then have "t \<in> set ps" using own_table [OF own v3] sub by auto
      then show ?thesis using 2(2) by blast
    next
      case 3
      then show ?thesis by (meson in_set_dropD in_set_takeD)
    qed
  qed
  then have "changes_in (set ps) m0 m1" using D(1) changes_in_trans by blast
  moreover have wf1: "wf_space m1 root ?F" using g by (rule grows_wf)
  then have "wf_space m1 root (set (drop (k + j) ps) \<union> A)" using F by (rule wf_space_mono)
  moreover have "A \<subseteq> set (take (k + j) ps)" using D(3) pool_parts(3) [OF pool] by blast
  moreover have "\<not> superpage m1 root va" if "VPN 2 va = user_vpn" for va
    using no_new_super_superpage [OF grows_super [OF g]] D(5) that by blast
  moreover have fr: "m1 a = m a" if n: "n \<in> A" "a - n < PAGE_SIZE" for n a
  proof (rule ccontr)
    assume "m1 a \<noteq> m a"
    then obtain q t where q: "vpath q" "table_at m1 root q = Some t" "a - t < PAGE_SIZE"
      using grows_changed [OF g] by blast
    have "page_aligned t" "t \<noteq> n" using wf_space_table [OF wf1 q(1,2)] n(1) F by auto
    moreover have "page_aligned n" using clo_frame_aligned [OF c pool n(1)] .
    ultimately show False using page_disjoint q(3) n(2) by blast
  qed
  then have "copied m0 proot m1 root A va" if "done_page D va" for va
    using copied_cong [OF D(7) [OF that] grows_mapped [OF g]] by blast
  moreover have "m1 a = 0" if "VPN 2 va = user_vpn" "\<not> done_page D va" "slot m1 root va = Some a" for va a
    using grows_slot [OF g that(3)] D(8) [OF that(1,2)] by metis
  moreover have "frames_apart m1 root D" using frames_apart_cong [OF D(9)] grows_mapped [OF g] by blast
  moreover have "m1 (root + 8 * i) = shared_entry m0 main_root i" if i: "i < 512" "i \<noteq> user_vpn" for i
  proof -
    have r: "page_aligned root" "root \<notin> set (drop k ps)" using wf_space_root [OF D(2)] by auto
    have "m1 (root + 8 * i) = m (root + 8 * i)"
    proof (rule ccontr)
      assume "m1 (root + 8 * i) \<noteq> m (root + 8 * i)"
      with loc consider "root + 8 * i = root + 8 * user_vpn"
        | t where "table_at m1 root [user_vpn] = Some t" "root + 8 * i - t < PAGE_SIZE"
        | n where "n \<in> set (take j (drop k ps))" "root + 8 * i - n < PAGE_SIZE" by blast
      then show False
      proof cases
        case 1
        then show ?thesis using i r(1) entry_eq_iff [OF r(1) r(1) i(1), of user_vpn] by (simp add: user_vpn_def)
      next
        case 2
        have "page_aligned t" "t \<noteq> root"
          using wf_space_table [OF wf1 v3 2(1)] wf_space_inj [OF wf1 v3, of "[]"] 2(1) by auto
        then show ?thesis using 2(2) entry_in_page_iff [OF r(1) _ i(1)] by blast
      next
        case 3
        have "n \<in> set (drop k ps)" using 3(1) by (rule in_set_takeD)
        then have "page_aligned n" "n \<noteq> root" using r(2) pool_parts(4) [OF pool] by (auto dest: in_set_dropD)
        then show ?thesis using 3(2) entry_in_page_iff [OF r(1) _ i(1)] by blast
      qed
    qed
    then show ?thesis using D(10) i by simp
  qed
  ultimately show ?thesis unfolding cloning_def using own D(6) by blast
qed

text \<open>Taking a page as a frame and filling it.\<close>

lemma cloning_frame:
  assumes c: "cloning m0 proot main_root root ps A k D m" and pool: "pool ps"
    and k: "k < length ps" and o: "keeps_outside (ps ! k) m m1"
  shows "cloning m0 proot main_root root ps (insert (ps ! k) A) (Suc k) D m1"
proof -
  note D = cloningD [OF c]
  let ?n = "ps ! k"
  have dk: "set (drop k ps) = insert ?n (set (drop (Suc k) ps))"
    using k by (metis Cons_nth_drop_Suc list.simps(15))
  have tk: "set (take (Suc k) ps) = insert ?n (set (take k ps))"
    using k by (simp add: take_Suc_conv_app_nth)
  have nF: "?n \<in> set (drop k ps) \<union> A" and nps: "?n \<in> set ps" using dk k by auto
  have al: "page_aligned ?n" using pool_parts(4) [OF pool nps] .
  have nA: "?n \<notin> A" using pool_parts(1) [OF pool, of k] D(3) dk by auto
  have F: "set (drop (Suc k) ps) \<union> insert ?n A = set (drop k ps) \<union> A" using dk by blast
  note keep = table_at_keeps_outside [OF D(2) nF al o]
  note sp = superpage_keeps_outside [OF D(2) nF al o]
  note mp = mapped_keeps_outside [OF D(2) nF al o]
  have "changes_in (set ps) m0 m1" using changes_in_trans [OF D(1) changes_in_keeps [OF o nps]] .
  moreover have "wf_space m1 root (set (drop (Suc k) ps) \<union> insert ?n A)"
    unfolding F by (rule wf_space_keeps_outside [OF D(2) nF al o])
  moreover have "insert ?n A \<subseteq> set (take (Suc k) ps)" using D(3) tk by blast
  moreover have "own_tables m1 root (set (take (Suc k) ps))"
    using D(4) keep unfolding own_tables_def tk by auto
  moreover have "\<not> superpage m1 root va" if "VPN 2 va = user_vpn" for va using D(5) [OF that] sp by simp
  moreover have "copied m0 proot m1 root (insert ?n A) va" if d: "done_page D va" for va
  proof (rule copied_cong [OF D(7) [OF d] mp(2)])
    fix n a assume n: "n \<in> A" "a - n < PAGE_SIZE"
    have "page_aligned n" using clo_frame_aligned [OF c pool n(1)] .
    then have "\<not> a - ?n < PAGE_SIZE" using page_disjoint [OF al] n nA by blast
    then show "m1 a = m a" using o by (simp add: keeps_outside_def)
  qed blast
  moreover have "m1 a = 0" if "VPN 2 va = user_vpn" "\<not> done_page D va" "slot m1 root va = Some a" for va a
  proof -
    have s: "slot m root va = Some a" using that(3) mp(1) by simp
    then have "\<not> a - ?n < PAGE_SIZE" using slot_outside [OF D(2) s al] wf_space_table [OF D(2)] nF by blast
    then show ?thesis using D(8) [OF that(1,2) s] o by (simp add: keeps_outside_def)
  qed
  moreover have "frames_apart m1 root D" using frames_apart_cong [OF D(9)] mp(2) by blast
  moreover have "m1 (root + 8 * i) = shared_entry m0 main_root i" if "i < 512" "i \<noteq> user_vpn" for i
    using entry_keeps_outside [OF D(2) nF al o, of "[]" root i] that D(10) by simp
  ultimately show ?thesis unfolding cloning_def using D(6) by blast
qed

text \<open>Entering the frame in the new page table.\<close>

lemma cloning_entry:
  assumes c: "cloning m0 proot main_root root ps A k D m" and pool: "pool ps"
    and v: "VPN 2 v = user_vpn" "\<not> done_page D v" "slot m root v = Some a"
    and p: "mapped m0 proot v = Some p" "pte_flags (pte_of w) = pte_flags p" "pte_page (pte_of w) \<in> A"
    and fill: "\<forall>off < PAGE_SIZE. m (pte_page (pte_of w) + off) = m0 (pte_page p + off)"
    and new: "\<And>va p'. done_page D va \<Longrightarrow> mapped m root va = Some p' \<Longrightarrow> pte_page p' \<noteq> pte_page (pte_of w)"
  shows "cloning m0 proot main_root root ps A k (insert v D) (m(a := w))"
proof -
  note D = cloningD [OF c]
  note sw = slot_write [OF D(2) v(3), where w = w]
  obtain t where t: "table_at m root [VPN 2 v, VPN 1 v] = Some t" "a = t + 8 * VPN 0 v"
    using v(3) by (rule slotE)
  have vp: "vpath [VPN 2 v, VPN 1 v]" by simp
  have tps: "t \<in> set ps" using own_table [OF D(4) vp _ t(1)] v(1) set_take_subset by fastforce
  have at: "a - t < PAGE_SIZE" unfolding t(2) by (rule entry_offset_less) simp
  have tF: "page_aligned t" "t \<notin> A" using wf_space_table [OF D(2) vp t(1)] by auto
  have valid: "pte_flags (pte_of w) AND PTE_V \<noteq> 0"
    using p(1,2) by (auto simp: mapped_def split: option.splits if_splits)
  have mv: "mapped (m(a := w)) root va = Some (pte_of w)" if "same_vpage v va" for va
    using sw(4) [of va] that valid by (simp del: fun_upd_apply)
  have mo: "mapped (m(a := w)) root va = mapped m root va" if "\<not> same_vpage v va" for va
    using sw(4) [of va] that by (simp del: fun_upd_apply)
  have frame: "(m(a := w)) b = m b" if "n \<in> A" "b - n < PAGE_SIZE" for n b
  proof -
    have "page_aligned n" using clo_frame_aligned [OF c pool that(1)] .
    then have "b \<noteq> a" using page_disjoint [OF tF(1), of n a] at tF(2) that by metis
    then show ?thesis by simp
  qed
  have nd: "\<not> same_vpage v va" if "done_page D va" for va
    using that v(2) unfolding done_page_def same_vpage_def by metis
  have di: "done_page (insert v D) va \<longleftrightarrow> same_vpage v va \<or> done_page D va" for va
    by (auto simp: done_page_def)
  have "changes_in (set ps) m0 (m(a := w))"
    using changes_in_trans [OF D(1) changes_in_upd [OF tps at]] .
  moreover have "wf_space (m(a := w)) root (set (drop k ps) \<union> A)" by (rule sw(2))
  moreover have "own_tables (m(a := w)) root (set (take k ps))"
    using D(4) sw(1) unfolding own_tables_def by auto
  moreover have "\<not> superpage (m(a := w)) root va" if "VPN 2 va = user_vpn" for va
    using no_new_super_superpage [OF sw(5)] D(5) [OF that] by blast
  moreover have "VPN 2 va = user_vpn \<and> copied m0 proot (m(a := w)) root A va" if "done_page (insert v D) va" for va
  proof (cases "same_vpage v va")
    case True
    have "mapped m0 proot va = Some p" using p(1) mapped_cong_vpage [OF True] by simp
    moreover have "\<forall>off < PAGE_SIZE. (m(a := w)) (pte_page (pte_of w) + off) = m0 (pte_page p + off)"
      using fill frame [OF p(3)] by (simp del: fun_upd_apply)
    ultimately have "copied m0 proot (m(a := w)) root A va"
      using mv [OF True] p(2,3) unfolding copied_def by (simp del: fun_upd_apply)
    moreover have "VPN 2 va = user_vpn" using True v(1) by (simp add: same_vpage_def)
    ultimately show ?thesis by blast
  next
    case False
    then have d: "done_page D va" using that di by blast
    have "copied m0 proot (m(a := w)) root A va"
      by (rule copied_cong [OF D(7) [OF d] mo [OF False]], erule (1) frame, simp)
    then show ?thesis using D(6) [OF d] by blast
  qed
  moreover have "(m(a := w)) b = 0"
    if "VPN 2 va = user_vpn" "\<not> done_page (insert v D) va" "slot (m(a := w)) root va = Some b" for va b
  proof -
    have s: "slot m root va = Some b" "\<not> same_vpage v va" "\<not> done_page D va" using that(2,3) sw(3) di by auto
    then have "b \<noteq> a" using slot_inj [OF D(2) v(3)] by blast
    then show ?thesis using D(8) [OF that(1) s(3,1)] by simp
  qed
  moreover have "frames_apart (m(a := w)) root (insert v D)"
    unfolding frames_apart_def
  proof (intro allI impI)
    fix va va' p1 p2
    assume d: "done_page (insert v D) va" "done_page (insert v D) va'" and ne: "\<not> same_vpage va va'"
      and m: "mapped (m(a := w)) root va = Some p1" "mapped (m(a := w)) root va' = Some p2"
    have sv: "\<not> (same_vpage v va \<and> same_vpage v va')" using ne by (auto simp: same_vpage_def)
    show "pte_page p1 \<noteq> pte_page p2"
    proof (cases "same_vpage v va \<or> same_vpage v va'")
      case True
      then show ?thesis using sv mv mo m new d di by (metis option.inject)
    next
      case False
      then show ?thesis using mo m d di ne D(9) unfolding frames_apart_def by metis
    qed
  qed
  moreover have "(m(a := w)) (root + 8 * i) = shared_entry m0 main_root i" if i: "i < 512" "i \<noteq> user_vpn" for i
  proof -
    have r: "page_aligned root" using wf_space_root [OF D(2)] by simp
    have "root \<noteq> t" using wf_space_inj [OF D(2) vp, of "[]"] t(1) by auto
    then have "root + 8 * i \<noteq> a" using t(2) entry_eq_iff [OF r tF(1) i(1)] by simp
    then show ?thesis using D(10) [OF i] by simp
  qed
  ultimately show ?thesis unfolding cloning_def using D(3) by blast
qed

text \<open>A page that is not mapped needs nothing.\<close>

lemma cloning_skip:
  assumes c: "cloning m0 proot main_root root ps A k D m"
    and v: "VPN 2 v = user_vpn" "\<not> done_page D v" "mapped m0 proot v = None"
  shows "cloning m0 proot main_root root ps A k (insert v D) m"
proof -
  note D = cloningD [OF c]
  have di: "done_page (insert v D) va \<longleftrightarrow> same_vpage v va \<or> done_page D va" for va
    by (auto simp: done_page_def)
  have none: "mapped m root va = None" if "same_vpage v va" for va
  proof -
    have "slot m root v = Some a \<Longrightarrow> m a = 0" for a using D(8) [OF v(1,2)] .
    then have "mapped m root v = None" by (auto simp: mapped_def split: option.splits)
    then show ?thesis using mapped_cong_vpage [OF that] by simp
  qed
  have "copied m0 proot m root A va" if "same_vpage v va" for va
    using none [OF that] v(3) mapped_cong_vpage [OF that] by (simp add: copied_def)
  moreover have "VPN 2 va = user_vpn" if "same_vpage v va" for va using that v(1) by (simp add: same_vpage_def)
  moreover have "frames_apart m root (insert v D)"
    using D(9) none unfolding frames_apart_def di by (metis option.distinct(1))
  ultimately show ?thesis using D di unfolding cloning_def by metis
qed

section \<open>One page\<close>

lemma copy_page_outside [simp]: "keeps_outside n m (copy_page n p m)"
  by (simp add: keeps_outside_def copy_page_def)

lemma copy_page_inside: "off < PAGE_SIZE \<Longrightarrow> copy_page n p m (n + off) = m (p + off)"
  by (simp add: copy_page_def)

text \<open>Clearing the frame and entering it before it is filled makes no difference.\<close>

lemma copy_page_commute:
  assumes "page_aligned n" and "page_aligned p" and "n \<noteq> p" and "\<not> a - n < PAGE_SIZE" and "\<not> a - p < PAGE_SIZE"
  shows "copy_page n p ((zero_page m n)(a := w)) = (copy_page n p m)(a := w)"
proof
  fix x
  show "copy_page n p ((zero_page m n)(a := w)) x = ((copy_page n p m)(a := w)) x"
  proof (cases "x - n < PAGE_SIZE")
    case True
    let ?y = "p + (x - n)"
    have y: "?y - p < PAGE_SIZE" using True by simp
    then have "?y \<noteq> a" using assms(5) by auto
    moreover have "\<not> ?y - n < PAGE_SIZE" using page_disjoint [OF assms(1,2) _ y] assms(3) by blast
    moreover have "x \<noteq> a" using True assms(4) by blast
    ultimately show ?thesis using True by (simp add: copy_page_def zero_page_outside del: page_const)
  next
    case False
    then show ?thesis by (simp add: copy_page_def zero_page_outside del: page_const)
  qed
qed

lemma free_prefix_pmem:
  "free_prefix st ps \<Longrightarrow> (\<And>x. x \<in> set ps \<Longrightarrow> m x = pmem st x) \<Longrightarrow> free_prefix (st\<lparr>pmem := m\<rparr>) ps"
  unfolding free_prefix_def by (auto simp: free_seg_cong [of ps m "pmem st"])

text \<open>The space that is cloned: its tables and its user frames are not free pages.\<close>

definition parent_ok :: "(u64 \<Rightarrow> u64) \<Rightarrow> u64 \<Rightarrow> u64 list \<Rightarrow> bool" where
  "parent_ok m0 proot ps \<longleftrightarrow> wf_space m0 proot (set ps) \<and>
     (\<forall>va p. VPN 2 va = user_vpn \<longrightarrow> mapped m0 proot va = Some p \<longrightarrow> pte_page p \<notin> set ps)"

lemma parent_kept:
  assumes "parent_ok m0 proot ps" and "pool ps" and "changes_in (set ps) m0 m"
  shows "wf_space m proot (set ps)" and "slot m proot va = slot m0 proot va"
    and "mapped m proot va = mapped m0 proot va" and "slot m0 proot va = Some a \<Longrightarrow> m a = m0 a"
proof -
  have "wf_space m0 proot (set ps)" using assms(1) by (simp add: parent_ok_def)
  moreover have "\<forall>n \<in> set ps. page_aligned n" using assms(2) by (simp add: pool_def)
  ultimately show "wf_space m proot (set ps)" "slot m proot va = slot m0 proot va"
    "mapped m proot va = mapped m0 proot va" "slot m0 proot va = Some a \<Longrightarrow> m a = m0 a"
    using space_changes_in [OF _ subset_refl _ assms(3)] by blast+
qed

lemma mappedE:
  assumes "mapped m root va = Some p"
  obtains a where "slot m root va = Some a" and "p = pte_of (m a)" and "pte_flags p AND PTE_V \<noteq> 0"
  using assms by (auto simp: mapped_def split: option.splits if_splits)

lemma clone_page_unmapped:
  assumes par: "parent_ok m0 proot ps" and pool: "pool ps" and ch: "changes_in (set ps) m0 (pmem st)"
    and none: "mapped m0 proot v = None"
  shows "clone_page proot root v st = Inr st"
proof -
  note pk = parent_kept [OF par pool ch]
  have "mapped (pmem st) proot v = None" using pk(3) none by simp
  then show ?thesis
    using walk_pt_lookup [OF pk(1), of v]
    by (auto simp: clone_page_def mapped_def get_pte_def split: option.splits if_splits)
qed

text \<open>What \<open>clone_page\<close> computes for a mapped page, in terms of the memory after the walk.\<close>

lemma clone_page_run:
  assumes par: "parent_ok m0 proot ps" and pool: "pool ps" and ch: "changes_in (set ps) m0 (pmem st)"
    and p: "mapped m0 proot v = Some p" and user: "VPN 2 v = user_vpn"
    and w: "walk_pt root v True st = Inr (a, st1)" and ch1: "changes_in (set ps) m0 (pmem st1)"
    and n: "memory_alloc_page st1 = Inr (n, st2)" "pmem st2 = zero_page (pmem st1) n" "n \<in> set ps"
    and a: "a \<noteq> 0" "pmem st1 a = 0" "\<not> a - n < PAGE_SIZE" "\<exists>t \<in> set ps. a - t < PAGE_SIZE"
  shows "\<exists>w. clone_page proot root v st =
      Inr (st2\<lparr>pmem := (copy_page n (pte_page p) (pmem st1))(a := w)\<rparr>) \<and>
    pte_flags (pte_of w) = pte_flags p \<and> pte_page (pte_of w) = n"
proof -
  note pk = parent_kept [OF par pool ch]
  obtain b where b: "slot m0 proot v = Some b" "p = pte_of (m0 b)" "pte_flags p AND PTE_V \<noteq> 0"
    using p by (rule mappedE)
  have b0: "b \<noteq> 0" using slot_not_null [OF pk(1)] pk(2) b(1) by simp
  have walk: "walk_pt proot v False st = Inr (b, st)" using walk_pt_lookup [OF pk(1), of v] pk(2) b(1) by simp
  have gb: "get_pte st b = p" using pk(4) [OF b(1)] b(2) by (simp add: get_pte_def)
  obtain t where t: "t \<in> set ps" "a - t < PAGE_SIZE" using a(4) by blast
  let ?e1 = "(pte_of 0)\<lparr>pte_ppn := ucast (pageptr_to_pagenum n)\<rparr>"
  let ?e2 = "?e1\<lparr>pte_flags := pte_flags p\<rparr>"
  have g1: "get_pte st2 a = pte_of 0" using a(2,3) by (simp add: get_pte_def n(2) zero_page_outside)
  have ch2: "changes_in (set ps) m0 (pmem (set_pte a ?e1 st2))"
  proof -
    have "changes_in (set ps) (pmem st1) (zero_page (pmem st1) n)"
      using n(3) by (intro changes_in_keeps) auto
    then have "changes_in (set ps) m0 (zero_page (pmem st1) n)" using ch1 changes_in_trans by blast
    then show ?thesis unfolding set_pte_simps(1) n(2) by (rule changes_in_trans) (rule changes_in_upd [OF t])
  qed
  have gb2: "get_pte (set_pte a ?e1 st2) b = p"
    using parent_kept(4) [OF par pool ch2 b(1)] b(2) by (simp only: get_pte_def)
  have g2: "get_pte (set_pte a ?e1 st2) a = ?e1" by (simp add: get_pte_def)
  have g3: "get_pte (set_pte a ?e2 (set_pte a ?e1 st2)) a = ?e2" by (simp add: get_pte_def)
  have np: "page_aligned n" "n < 2 ^ 56" using pool n(3) by (auto simp: pool_def)
  have pg: "pte_page ?e2 = n" using pte_page_of_ptr [OF np] by (simp add: pte_page_def pageptr_to_pagenum_def)
  have pp: "pte_page p \<notin> set ps" using par user p by (auto simp: parent_ok_def)
  have al: "page_aligned t" using pool t(1) by (simp add: pool_def)
  have "\<not> a - pte_page p < PAGE_SIZE" using page_disjoint [OF al page_aligned_pte_page t(2), of p] t(1) pp by blast
  then have cp: "copy_page n (pte_page p) ((zero_page (pmem st1) n)(a := u64_of_pte ?e2))
      = (copy_page n (pte_page p) (pmem st1))(a := u64_of_pte ?e2)"
    using np(1) a(3) n(3) pp by (intro copy_page_commute) auto
  have pm: "pmem (set_pte a ?e2 (set_pte a ?e1 st2)) = (zero_page (pmem st1) n)(a := u64_of_pte ?e2)"
    by (simp add: n(2))
  have up: "(set_pte a ?e2 (set_pte a ?e1 st2))\<lparr>pmem := x\<rparr> = st2\<lparr>pmem := x\<rparr>" for x
    by (simp add: set_pte_def)
  have "clone_page proot root v st =
      Inr (st2\<lparr>pmem := (copy_page n (pte_page p) (pmem st1))(a := u64_of_pte ?e2)\<rparr>)"
    unfolding clone_page_def walk bind_res_simps prod.case gb w n(1)
    using b0 b(3) a(1) by (simp add: Let_def g1 g2 gb2 g3 pg cp pm up del: set_pte_simps(1) fun_upd_apply)
  then show ?thesis using pg by (intro exI [of _ "u64_of_pte ?e2"]) simp
qed

lemma clone_page_mapped:
  assumes c: "cloning m0 proot main_root root ps A k D (pmem st)" and pool: "pool ps"
    and par: "parent_ok m0 proot ps" and fp: "free_prefix st (drop k ps)" and three: "k + 3 \<le> length ps"
    and p: "mapped m0 proot v = Some p" and user: "VPN 2 v = user_vpn" and nd: "\<not> done_page D v"
  shows "\<exists>st' k' A'. clone_page proot root v st = Inr st' \<and> k' \<le> k + 3 \<and> free_prefix st' (drop k' ps) \<and>
    mm.more st' = mm.more st \<and> cloning m0 proot main_root root ps A' k' (insert v D) (pmem st')"
proof -
  note D = cloningD [OF c]
  have lim: "\<forall>q \<in> set (drop k ps). q < 2 ^ 56" using pool by (auto simp: pool_def dest: in_set_dropD)
  have two: "2 \<le> length (drop k ps)" using three by simp
  obtain a st1 j where w: "j \<le> 2" "walk_pt root v True st = Inr (a, st1)" "slot (pmem st1) root v = Some a"
      "grows root (pmem st) (set (drop k ps) \<union> A) (pmem st1) (set (drop k ps) \<union> A - set (take j (drop k ps)))"
      "free_prefix st1 (drop j (drop k ps))" "mm.more st1 = mm.more st"
      "\<forall>a. pmem st1 a \<noteq> pmem st a \<longrightarrow> a = root + 8 * VPN 2 v \<or>
        (\<exists>t. table_at (pmem st1) root [VPN 2 v] = Some t \<and> a - t < PAGE_SIZE) \<or>
        (\<exists>n \<in> set (take j (drop k ps)). a - n < PAGE_SIZE)"
    using walk_pt_create_local [OF D(2) Un_upper1 fp lim two D(5) [OF user]] by blast
  have c1: "cloning m0 proot main_root root ps A (k + j) D (pmem st1)"
    using cloning_walk [OF c pool w(4)] w(7) unfolding user .
  note D1 = cloningD [OF c1]
  define n where "n = ps ! (k + j)"
  have kj: "k + j < length ps" using three w(1) by simp
  have dr: "drop (k + j) ps = n # drop (Suc (k + j)) ps" using kj by (simp add: n_def Cons_nth_drop_Suc)
  have nps: "n \<in> set ps" using kj by (simp add: n_def)
  have al: "page_aligned n" using pool_parts(4) [OF pool nps] .
  have "free_prefix st1 (n # drop (Suc (k + j)) ps)" using w(5) dr by (simp add: add.commute)
  then obtain st2 where al2: "memory_alloc_page st1 = Inr (n, st2)" "free_prefix st2 (drop (Suc (k + j)) ps)"
      "pmem st2 = zero_page (pmem st1) n" "mm.more st2 = mm.more st1"
    using memory_alloc_page_Cons by blast
  have nF: "n \<in> set (drop (k + j) ps) \<union> A" using dr by simp
  have a: "a \<noteq> 0" "pmem st1 a = 0" "\<not> a - n < PAGE_SIZE"
    using slot_not_null [OF D1(2) w(3)] D1(8) [OF user nd w(3)]
      slot_outside [OF D1(2) w(3) al] wf_space_table [OF D1(2)] nF by blast+
  obtain t where t: "table_at (pmem st1) root [VPN 2 v, VPN 1 v] = Some t" "a = t + 8 * VPN 0 v"
    using w(3) by (rule slotE)
  have vp: "vpath [VPN 2 v, VPN 1 v]" by simp
  have tk: "t \<in> set (take (k + j) ps)" by (rule own_table [OF D1(4) vp _ t(1)]) (simp add: user)
  have at: "a - t < PAGE_SIZE" unfolding t(2) by (rule entry_offset_less) simp
  have tp: "\<exists>t \<in> set ps. a - t < PAGE_SIZE" using in_set_takeD [OF tk] at by blast
  obtain e where e: "clone_page proot root v st =
        Inr (st2\<lparr>pmem := (copy_page n (pte_page p) (pmem st1))(a := e)\<rparr>)"
      "pte_flags (pte_of e) = pte_flags p" "pte_page (pte_of e) = n"
    using clone_page_run [OF par pool D(1) p user w(2) D1(1) al2(1,3) nps a tp] by blast
  let ?m = "copy_page n (pte_page p) (pmem st1)"
  let ?st = "st2\<lparr>pmem := ?m(a := e)\<rparr>"
  have ko: "keeps_outside (ps ! (k + j)) (pmem st1) ?m" by (simp add: n_def)
  have c2: "cloning m0 proot main_root root ps (insert n A) (Suc (k + j)) D ?m"
    using cloning_frame [OF c1 pool kj ko] unfolding n_def .
  have nA: "n \<notin> A" using pool_parts(1) [OF pool, of "k + j"] D1(3) dr by auto
  note mk = mapped_keeps_outside [OF D1(2) nF al copy_page_outside, of "pte_page p"]
  have pp: "pte_page p \<notin> set ps" using par user p by (auto simp: parent_ok_def)
  have pal: "\<forall>q \<in> set ps. page_aligned q" using pool by (simp add: pool_def)
  have "cloning m0 proot main_root root ps (insert n A) (Suc (k + j)) (insert v D) (?m(a := e))"
  proof (rule cloning_entry [OF c2 pool user nd _ p e(2)])
    show "slot ?m root v = Some a" using mk(1) w(3) by simp
    show "pte_page (pte_of e) \<in> insert n A" using e(3) by simp
    show "\<forall>off < PAGE_SIZE. ?m (pte_page (pte_of e) + off) = m0 (pte_page p + off)"
    proof (intro allI impI)
      fix off assume off: "off < PAGE_SIZE"
      have "pte_page p + off - pte_page p < PAGE_SIZE" using off by simp
      then have "pmem st1 (pte_page p + off) = m0 (pte_page p + off)"
        by (rule changes_in_page [OF D1(1) pal page_aligned_pte_page pp])
      then show "?m (pte_page (pte_of e) + off) = m0 (pte_page p + off)"
        unfolding e(3) copy_page_inside [OF off] .
    qed
    fix va p' assume d: "done_page D va" and m: "mapped ?m root va = Some p'"
    have "copied m0 proot (pmem st1) root A va" using D1(7) [OF d] .
    moreover have "mapped (pmem st1) root va = Some p'" using m mk(2) by simp
    ultimately have "pte_page p' \<in> A" by (auto simp: copied_def split: option.splits)
    then show "pte_page p' \<noteq> pte_page (pte_of e)" using nA e(3) by auto
  qed
  moreover have "free_prefix ?st (drop (Suc (k + j)) ps)"
  proof (rule free_prefix_pmem [OF al2(2)])
    fix x assume x: "x \<in> set (drop (Suc (k + j)) ps)"
    then have xp: "x \<in> set ps" "x \<noteq> n" using in_set_dropD pool dr
      by (force, metis distinct.simps(2) distinct_drop pool_def)
    have xal: "page_aligned x" using pool_parts(4) [OF pool xp(1)] .
    have "x \<notin> set (take (k + j) ps)" using pool_parts(1) [OF pool, of "k + j"] x dr by auto
    then have "\<not> a - x < PAGE_SIZE" using page_disjoint [OF _ xal at] tk pool_parts(4) [OF pool in_set_takeD] by metis
    then have "x \<noteq> a" by (auto simp: word_less_nat_alt)
    moreover have "\<not> x - n < PAGE_SIZE" using same_page_iff [OF xal al] xp(2) by blast
    ultimately show "(?m(a := e)) x = pmem st2 x" using al2(3) by (simp add: copy_page_def zero_page_outside)
  qed
  moreover have "mm.more ?st = mm.more st" using al2(4) w(6) by simp
  ultimately show ?thesis using e(1) w(1)
    by (intro exI [of _ ?st] exI [of _ "Suc (k + j)"] exI [of _ "insert n A"]) (simp del: fun_upd_apply)
qed

section \<open>All pages\<close>

definition mapped_count :: "(u64 \<Rightarrow> u64) \<Rightarrow> u64 \<Rightarrow> u64 list \<Rightarrow> nat" where
  "mapped_count m root vs = length (filter (\<lambda>v. mapped m root v \<noteq> None) vs)"

lemma clone_pages_ok:
  assumes pool: "pool ps" and par: "parent_ok m0 proot ps"
    and "cloning m0 proot main_root root ps A k D (pmem st)" and "free_prefix st (drop k ps)"
    and "k + 3 * mapped_count m0 proot vs \<le> length ps"
    and "\<forall>v \<in> set vs. VPN 2 v = user_vpn" and "sorted_wrt (\<lambda>v v'. \<not> same_vpage v v') vs"
    and "\<forall>v \<in> set vs. \<not> done_page D v"
  shows "\<exists>st' k' A'. foldM (clone_page proot root) vs st = Inr st' \<and> free_prefix st' (drop k' ps) \<and>
    k' \<le> k + 3 * mapped_count m0 proot vs \<and> mm.more st' = mm.more st \<and>
    cloning m0 proot main_root root ps A' k' (D \<union> set vs) (pmem st')"
  using assms(3-)
proof (induction vs arbitrary: A k D st)
  case Nil
  then show ?case by (auto simp: mapped_count_def)
next
  case (Cons v vs)
  have user: "VPN 2 v = user_vpn" and nd: "\<not> done_page D v" using Cons.prems(4,6) by auto
  have nd': "\<forall>v' \<in> set vs. \<not> done_page (insert v D) v'"
    using Cons.prems(5,6) by (auto simp: done_page_def)
  have "\<exists>st1 k1 A1. clone_page proot root v st = Inr st1 \<and> k1 + 3 * mapped_count m0 proot vs \<le> k + 3 * mapped_count m0 proot (v # vs) \<and>
    free_prefix st1 (drop k1 ps) \<and> mm.more st1 = mm.more st \<and>
    cloning m0 proot main_root root ps A1 k1 (insert v D) (pmem st1)"
  proof (cases "mapped m0 proot v")
    case None
    have "clone_page proot root v st = Inr st"
      by (rule clone_page_unmapped [OF par pool clo_changes [OF Cons.prems(1)] None])
    moreover have "cloning m0 proot main_root root ps A k (insert v D) (pmem st)"
      by (rule cloning_skip [OF Cons.prems(1) user nd None])
    ultimately show ?thesis using Cons.prems(2) None by (auto simp: mapped_count_def)
  next
    case (Some p)
    have "k + 3 \<le> length ps" using Cons.prems(3) Some by (simp add: mapped_count_def)
    from clone_page_mapped [OF Cons.prems(1) pool par Cons.prems(2) this Some user nd] Some show ?thesis
      by (fastforce simp: mapped_count_def)
  qed
  then obtain st1 k1 A1 where s1: "clone_page proot root v st = Inr st1"
      "k1 + 3 * mapped_count m0 proot vs \<le> k + 3 * mapped_count m0 proot (v # vs)"
      "free_prefix st1 (drop k1 ps)" "mm.more st1 = mm.more st"
      "cloning m0 proot main_root root ps A1 k1 (insert v D) (pmem st1)" by blast
  obtain st' k' A' where s2: "foldM (clone_page proot root) vs st1 = Inr st'" "free_prefix st' (drop k' ps)"
      "k' \<le> k1 + 3 * mapped_count m0 proot vs" "mm.more st' = mm.more st1"
      "cloning m0 proot main_root root ps A' k' (insert v D \<union> set vs) (pmem st')"
    using Cons.IH [OF s1(5,3)] s1(2) Cons.prems(3-5) nd' by auto
  show ?case using s1 s2 by (intro exI [of _ st'] exI [of _ k'] exI [of _ A']) auto
qed

section \<open>The root of the new space\<close>

lemma copy_global_ptes_fold:
  assumes al: "page_aligned r" "page_aligned mr" "r \<noteq> mr" and n: "n \<le> 512"
    and st': "st' = fold (\<lambda>i st. if pte_flags (get_pte st (mr + 8 * of_nat i)) AND PTE_G \<noteq> 0
                  then set_pte (r + 8 * of_nat i) (get_pte st (mr + 8 * of_nat i)) st
                  else st) [0 ..< n] st"
  shows "keeps_outside r (pmem st) (pmem st') \<and> st' = st\<lparr>pmem := pmem st'\<rparr> \<and>
    (\<forall>i < 512. pmem st' (r + 8 * of_nat i) =
      (if i < n \<and> pte_flags (pte_of (pmem st (mr + 8 * of_nat i))) AND PTE_G \<noteq> 0
       then pmem st (mr + 8 * of_nat i) else pmem st (r + 8 * of_nat i)))"
  using n st'
proof (induction n arbitrary: st')
  case 0
  then show ?case by (simp add: keeps_outside_def)
next
  case (Suc n)
  define s1 where "s1 = fold (\<lambda>i st. if pte_flags (get_pte st (mr + 8 * of_nat i)) AND PTE_G \<noteq> 0
                  then set_pte (r + 8 * of_nat i) (get_pte st (mr + 8 * of_nat i)) st
                  else st) [0 ..< n] st"
  have lt: "(of_nat i :: u64) < 512" if "i < 512" for i
    using that by (simp add: word_less_nat_alt unat_of_nat)
  have inj: "(of_nat i :: u64) = of_nat j \<longleftrightarrow> i = j" if "i < 512" "j < 512" for i j
    using that by (simp add: word_unat_eq_iff unat_of_nat)
  have ih: "keeps_outside r (pmem st) (pmem s1)" "s1 = st\<lparr>pmem := pmem s1\<rparr>"
    "\<forall>i < 512. pmem s1 (r + 8 * of_nat i) =
      (if i < n \<and> pte_flags (pte_of (pmem st (mr + 8 * of_nat i))) AND PTE_G \<noteq> 0
       then pmem st (mr + 8 * of_nat i) else pmem st (r + 8 * of_nat i))"
    using Suc.IH [OF _ s1_def] Suc.prems(1) by auto
  have n: "n < 512" using Suc.prems(1) by simp
  have "\<not> mr + 8 * of_nat n - r < PAGE_SIZE" using entry_in_page_iff [OF al(2,1) lt [OF n]] al(3) by blast
  then have g: "get_pte s1 (mr + 8 * of_nat n) = pte_of (pmem st (mr + 8 * of_nat n))"
    using ih(1) by (simp add: get_pte_def keeps_outside_def)
  have st': "st' = (if pte_flags (get_pte s1 (mr + 8 * of_nat n)) AND PTE_G \<noteq> 0
      then set_pte (r + 8 * of_nat n) (get_pte s1 (mr + 8 * of_nat n)) s1 else s1)"
    using Suc.prems(2) by (simp add: s1_def)
  show ?case
  proof (cases "pte_flags (pte_of (pmem st (mr + 8 * of_nat n))) AND PTE_G \<noteq> 0")
    case True
    then have e: "st' = set_pte (r + 8 * of_nat n) (pte_of (pmem st (mr + 8 * of_nat n))) s1"
      using st' g by simp
    have pm: "pmem st' = (pmem s1)(r + 8 * of_nat n := pmem st (mr + 8 * of_nat n))" by (simp add: e)
    have "keeps_outside r (pmem st) (pmem st')"
      unfolding pm by (rule keeps_outside_upd [OF ih(1)]) (rule entry_offset_less [OF lt [OF n]])
    moreover have "st' = st\<lparr>pmem := pmem st'\<rparr>"
    proof -
      obtain m1 where "s1 = st\<lparr>pmem := m1\<rparr>" using ih(2) by blast
      then show ?thesis by (simp add: e set_pte_def)
    qed
    moreover have "pmem st' (r + 8 * of_nat i) = (if i < Suc n \<and> pte_flags (pte_of (pmem st (mr + 8 * of_nat i))) AND PTE_G \<noteq> 0
       then pmem st (mr + 8 * of_nat i) else pmem st (r + 8 * of_nat i))" if "i < 512" for i
      using that ih(3) True entry_eq_iff [OF al(1,1) lt [OF that] lt [OF n]] inj [OF that n]
      unfolding pm by (cases "i = n") auto
    ultimately show ?thesis by blast
  next
    case False
    then have "st' = s1" using st' g by simp
    then show ?thesis using ih False by (auto simp: less_Suc_eq)
  qed
qed

lemma copy_global_ptes_ok:
  assumes "page_aligned r" and "page_aligned mr" and "r \<noteq> mr" and "\<forall>i < 512. pmem st (r + 8 * i) = 0"
  shows "keeps_outside r (pmem st) (pmem (copy_global_ptes mr r st))"
    and "copy_global_ptes mr r st = st\<lparr>pmem := pmem (copy_global_ptes mr r st)\<rparr>"
    and "i < 512 \<Longrightarrow> pmem (copy_global_ptes mr r st) (r + 8 * i) = shared_entry (pmem st) mr i"
proof -
  note f = copy_global_ptes_fold [OF assms(1-3) order_refl copy_global_ptes_def]
  show "keeps_outside r (pmem st) (pmem (copy_global_ptes mr r st))"
    and "copy_global_ptes mr r st = st\<lparr>pmem := pmem (copy_global_ptes mr r st)\<rparr>" using f by blast+
  assume i: "i < 512"
  then have u: "unat i < 512" "of_nat (unat i) = i" by (simp_all add: word_less_nat_alt)
  then show "pmem (copy_global_ptes mr r st) (r + 8 * i) = shared_entry (pmem st) mr i"
    using f [of st, THEN conjunct2, THEN conjunct2, rule_format, OF u(1)] assms(4) i
    by (simp add: shared_entry_def)
qed

text \<open>The tables of the new space are its root and the tables of the kernel.\<close>

definition kernel_ok :: "(u64 \<Rightarrow> u64) \<Rightarrow> u64 \<Rightarrow> u64 list \<Rightarrow> bool" where
  "kernel_ok m0 mr ps \<longleftrightarrow> wf_space m0 mr (set ps) \<and> shared_entry m0 mr user_vpn = 0"

lemma root_tables:
  assumes k: "wf_space m0 mr (set ps)" and r: "r \<in> set ps" "page_aligned r" and o: "keeps_outside r m0 m"
    and e: "\<And>i. i < 512 \<Longrightarrow> m (r + 8 * i) = shared_entry m0 mr i" and q: "vpath (i # q)"
  shows "table_at m r (i # q) = (if shared_entry m0 mr i = 0 then None else table_at m0 mr (i # q))"
proof -
  have i: "i < 512" using q by (simp add: vpath_def)
  have same: "table_at m mr (i # q) = table_at m0 mr (i # q)" by (rule table_at_keeps_outside [OF k r o q])
  have "m (mr + 8 * i) = m0 (mr + 8 * i)" using entry_keeps_outside [OF k r o, of "[]" mr i] i by simp
  then have ce: "child m mr i = child m0 mr i" by (simp add: child_def entry_def)
  show ?thesis
  proof (cases "shared_entry m0 mr i = 0")
    case True
    then show ?thesis using e [OF i] by (simp add: child_def entry_def is_table_def)
  next
    case False
    then have "m (r + 8 * i) = m0 (mr + 8 * i)" using e [OF i] by (auto simp: shared_entry_def split: if_splits)
    then have "child m r i = child m mr i" using ce by (simp add: child_def entry_def)
    then show ?thesis using same False by simp
  qed
qed

lemma root_wf:
  assumes k: "wf_space m0 mr (set ps)" and r: "r \<in> set ps" "page_aligned r" "r \<noteq> 0" and o: "keeps_outside r m0 m"
    and e: "\<And>i. i < 512 \<Longrightarrow> m (r + 8 * i) = shared_entry m0 mr i"
  shows "wf_space m r (set ps - {r})"
proof -
  note tab = root_tables [OF k r(1,2) o e]
  have below: "table_at m0 mr q = Some t" if "vpath q" "q \<noteq> []" "table_at m r q = Some t" for q t
    using that tab by (cases q) (auto split: if_splits)
  have kt: "page_aligned t \<and> t \<noteq> 0 \<and> t \<notin> set ps" if "vpath q" "q \<noteq> []" "table_at m r q = Some t" for q t
    using wf_space_table [OF k that(1) below [OF that]] .
  have "page_aligned t \<and> t \<noteq> 0 \<and> t \<notin> set ps - {r}" if "vpath q" "table_at m r q = Some t" for q t
    using kt that r by (cases "q = []") auto
  moreover have "p = q" if "vpath p" "vpath q" "table_at m r p = Some t" "table_at m r q = Some t" for p q t
  proof (cases "p = [] \<or> q = []")
    case True
    then show ?thesis using kt that r(1) by (metis option.inject table_at.simps(1))
  next
    case False
    then show ?thesis using wf_space_inj [OF k that(1,2)] below that by blast
  qed
  ultimately show ?thesis unfolding wf_space_def by blast
qed

lemma cloning_start:
  assumes k: "kernel_ok m0 mr (r # rs)" and pool: "pool (r # rs)" and o: "keeps_outside r m0 m"
    and e: "\<And>i. i < 512 \<Longrightarrow> m (r + 8 * i) = shared_entry m0 mr i"
  shows "cloning m0 proot mr r (r # rs) {} 1 {} m"
proof -
  have r: "r \<in> set (r # rs)" "page_aligned r" "r \<noteq> 0" "r \<notin> set rs" using pool by (auto simp: pool_def)
  have kw: "wf_space m0 mr (set (r # rs))" and u: "shared_entry m0 mr user_vpn = 0"
    using k by (auto simp: kernel_ok_def)
  note tab = root_tables [OF kw r(1,2) o e]
  have v3: "user_vpn < 512" by (simp add: user_vpn_def)
  have "set rs = set (r # rs) - {r}" using r(4) by auto
  then have "wf_space m r (set (drop 1 (r # rs)) \<union> {})" using root_wf [OF kw r(1-3) o e] by simp
  moreover have "own_tables m r (set (take 1 (r # rs)))"
    unfolding own_tables_def
  proof (intro allI impI)
    fix q t assume q: "vpath q" "q = [] \<or> hd q = user_vpn" "table_at m r q = Some t"
    then show "t \<in> set (take 1 (r # rs))" using tab u by (cases q) auto
  qed
  moreover have "\<not> superpage m r va" if "VPN 2 va = user_vpn" for va
    using e [OF v3] u that by (simp add: superpage_def child_def entry_def is_table_def)
  moreover have "slot m r va = None" if "VPN 2 va = user_vpn" for va
    using tab [of "VPN 2 va" "[VPN 1 va]"] u that v3 by (simp add: slot_def)
  moreover have "changes_in (set (r # rs)) m0 m" using changes_in_keeps [OF o r(1)] .
  ultimately show ?thesis
    using e unfolding cloning_def by (auto simp: done_page_def frames_apart_def)
qed

lemma mtag_to_root_make:
  assumes "page_aligned r" and "r < 2 ^ 56"
  shows "mtag_to_root (make_mtag asid r) = r"
proof -
  have "drop_bit 8 (push_bit 20 (make_mtag asid r)) = push_bit 12 (ucast (ucast (drop_bit 12 r) :: 44 word))"
    by (rule bit_word_eqI)
      (auto simp: make_mtag_def RISCV_SATP_MODE_Sv39_def pageptr_to_pagenum_def bit_simps)
  then show ?thesis using pte_page_of_ptr [OF assms] by (simp add: mtag_to_root_def)
qed

lemma user_pages_vpn: "v \<in> set user_pages \<Longrightarrow> VPN 2 v = user_vpn"
proof -
  assume "v \<in> set user_pages"
  then obtain i where i: "i < 65536" "v = 0xC0000000 + of_nat i * 4096" unfolding user_pages_eq by auto
  have "unat v = 0xC0000000 + 4096 * i" using unat_user_page [OF i(1)] i(2) by simp
  moreover have "VPN 2 v = take_bit 9 (drop_bit 30 v)" by (simp add: VPN_def take_bit_eq_mask mask_eq_exp_minus_1)
  moreover have "(0xC0000000 + 4096 * i) div 1073741824 = 3" by (rule div_nat_eqI) (use i(1) in auto)
  ultimately have "unat (VPN 2 v) = 3"
    by (simp add: unat_mod_distrib unat_div_distrib take_bit_eq_mod drop_bit_eq_div)
  then show ?thesis by (simp add: user_vpn_def word_unat_eq_iff)
qed

section \<open>Correctness of the clone\<close>

text \<open>
  The space at \<open>root\<close> in the memory \<open>m\<close> is a copy of the one at \<open>proot\<close> in \<open>m0\<close>, made of the first
  \<open>k\<close> of the pages \<open>ps\<close>.
\<close>

definition cloned_space ::
    "(u64 \<Rightarrow> u64) \<Rightarrow> u64 \<Rightarrow> u64 \<Rightarrow> u64 list \<Rightarrow> nat \<Rightarrow> (u64 \<Rightarrow> u64) \<Rightarrow> u64 \<Rightarrow> bool" where
  "cloned_space m0 proot main_root ps k m root \<longleftrightarrow>
     wf_space m root (set (drop k ps)) \<and>
     (\<forall>va. USER_START_VMA \<le> va \<longrightarrow> va < USER_END_VMA \<longrightarrow> copied m0 proot m root (set (take k ps)) va) \<and>
     frames_apart m root (set user_pages) \<and>
     (\<forall>i < 512. i \<noteq> user_vpn \<longrightarrow> m (root + 8 * i) = shared_entry m0 main_root i) \<and>
     (\<forall>va. mapped m proot va = mapped m0 proot va) \<and>
     changes_in (set ps) m0 m"

lemma memory_space_clone_ok:
  assumes fp: "free_prefix st ps" and lim: "\<forall>p \<in> set ps. p < 2 ^ 56"
    and par: "parent_ok (pmem st) (mtag_to_root parent_mtag) ps" and ker: "kernel_ok (pmem st) main_pt2 ps"
    and enough: "3 * mapped_count (pmem st) (mtag_to_root parent_mtag) user_pages < length ps"
  shows "\<exists>root st' k. memory_space_clone main_pt2 parent_mtag asid st = Inr (make_mtag asid root, st') \<and>
    mtag_to_root (make_mtag asid root) = root \<and> free_prefix st' (drop k ps) \<and>
    k \<le> 1 + 3 * mapped_count (pmem st) (mtag_to_root parent_mtag) user_pages \<and>
    cloned_space (pmem st) (mtag_to_root parent_mtag) main_pt2 ps k (pmem st') root \<and>
    mm.more st' = mm.more st"
proof -
  let ?proot = "mtag_to_root parent_mtag"
  have pool: "pool ps" using mm_prefix.pool_distinct [OF fp] mm_prefix.pool_page [OF fp] lim by (simp add: pool_def)
  obtain r rs where ps: "ps = r # rs" using enough by (cases ps) auto
  have r: "page_aligned r" "r \<noteq> 0" "r < 2 ^ 56" "r \<in> set ps" using pool by (auto simp: pool_def ps)
  obtain st1 where st1: "memory_alloc_page st = Inr (r, st1)" "free_prefix st1 rs"
      "pmem st1 = zero_page (pmem st) r" "mm.more st1 = mm.more st"
    using memory_alloc_page_Cons [of st r rs] fp by (auto simp: ps)
  let ?z = "st1\<lparr>pmem := zero_page (pmem st1) r\<rparr>"
  have z: "?z = st1" using st1(3) by (cases st1) (auto simp: zero_page_def)
  have kw: "wf_space (pmem st) main_pt2 (set ps)" using ker by (simp add: kernel_ok_def)
  have mr: "page_aligned main_pt2" "r \<noteq> main_pt2" using wf_space_root [OF kw] r(4) by auto
  have zero: "\<forall>i < 512. pmem st1 (r + 8 * i) = 0"
    unfolding st1(3) by (blast intro: zero_page_inside entry_offset_less)
  note cg = copy_global_ptes_ok [OF r(1) mr zero]
  let ?st2 = "copy_global_ptes main_pt2 r st1"
  have o: "keeps_outside r (pmem st) (pmem ?st2)"
    using cg(1) by (simp add: keeps_outside_def st1(3) zero_page_outside del: page_const)
  have e: "pmem ?st2 (r + 8 * i) = shared_entry (pmem st) main_pt2 i" if "i < 512" for i
  proof -
    have "pmem st1 (main_pt2 + 8 * i) = pmem st (main_pt2 + 8 * i)"
      using entry_keeps_outside [OF kw r(4,1) _ , of "pmem st1" "[]" main_pt2 i] that by (simp add: st1(3))
    then show ?thesis using cg(3) [OF that] by (simp add: shared_entry_def)
  qed
  have c0: "cloning (pmem st) ?proot main_pt2 r ps {} 1 {} (pmem ?st2)"
    using cloning_start [OF _ _ o e] ker pool unfolding ps by blast
  have fp2: "free_prefix ?st2 (drop 1 ps)"
  proof -
    have "free_prefix (st1\<lparr>pmem := pmem ?st2\<rparr>) rs"
    proof (rule free_prefix_pmem [OF st1(2)])
      fix x assume x: "x \<in> set rs"
      then have "page_aligned x" "x \<noteq> r" using pool by (auto simp: pool_def ps)
      then have "\<not> x - r < PAGE_SIZE" using same_page_iff r(1) by blast
      then show "pmem ?st2 x = pmem st1 x" using cg(1) by (simp add: keeps_outside_def)
    qed
    then show ?thesis using cg(2) ps by simp
  qed
  obtain st' k A where l: "foldM (clone_page ?proot r) user_pages ?st2 = Inr st'" "free_prefix st' (drop k ps)"
      "k \<le> 1 + 3 * mapped_count (pmem st) ?proot user_pages" "mm.more st' = mm.more ?st2" "cloning (pmem st) ?proot main_pt2 r ps A k ({} \<union> set user_pages) (pmem st')"
    using clone_pages_ok [OF pool par c0 fp2 _ _ user_pages_distinct] enough user_pages_vpn
    by (auto simp: done_page_def)
  note D = cloningD [OF l(5), unfolded Un_empty_left]
  have more: "mm.more st' = mm.more st" using l(4) arg_cong [OF cg(2), of mm.more] st1(4) by simp
  have run: "memory_space_clone main_pt2 parent_mtag asid st = Inr (make_mtag asid r, st')"
    using st1(1) r(2) l(1) by (simp add: memory_space_clone_def z)
  have cop: "copied (pmem st) ?proot (pmem st') r (set (take k ps)) va"
    if "USER_START_VMA \<le> va" "va < USER_END_VMA" for va
  proof -
    have "done_page (set user_pages) va" using that user_pages_cover [of va] unfolding done_page_def by auto
    then show ?thesis using copied_cong [OF D(7) refl refl D(3)] by blast
  qed
  have wf: "wf_space (pmem st') r (set (drop k ps))" using wf_space_mono [OF D(2)] by blast
  have mp: "\<forall>va. mapped (pmem st') ?proot va = mapped (pmem st) ?proot va"
    using parent_kept(3) [OF par pool D(1)] by blast
  show ?thesis
    using run mtag_to_root_make [OF r(1,3)] l(2,3) wf cop D(9,10) mp more D(1)
    unfolding cloned_space_def by blast
qed

text \<open>
  C12. \<open>memory_space_clone\<close> makes an independent copy of the active space. When enough pages are
  free it returns the tag of a new root, below which every user page of the parent is mapped
  with the same permissions to a frame of its own that holds the same bytes, every other user
  page is unmapped, and the entries outside the user part are the global entries of the kernel's
  root. The parent's mappings and all memory outside the pages taken from the free list are
  unchanged.
\<close>

theorem memory_space_clone_correct:
  assumes "free_prefix st ps" and "\<forall>p \<in> set ps. p < 2 ^ 56"
    and "parent_ok (pmem st) (mtag_to_root parent_mtag) ps" and "kernel_ok (pmem st) main_pt2 ps"
    and "3 * mapped_count (pmem st) (mtag_to_root parent_mtag) user_pages < length ps"
  shows "\<exists>root st' k. memory_space_clone main_pt2 parent_mtag asid st = Inr (make_mtag asid root, st') \<and>
    mtag_to_root (make_mtag asid root) = root \<and> free_prefix st' (drop k ps) \<and>
    wf_space (pmem st') root (set (drop k ps)) \<and>
    (\<forall>va. USER_START_VMA \<le> va \<longrightarrow> va < USER_END_VMA \<longrightarrow>
       copied (pmem st) (mtag_to_root parent_mtag) (pmem st') root (set (take k ps)) va) \<and>
    frames_apart (pmem st') root (set user_pages) \<and>
    (\<forall>i < 512. i \<noteq> user_vpn \<longrightarrow> pmem st' (root + 8 * i) = shared_entry (pmem st) main_pt2 i) \<and>
    (\<forall>va. mapped (pmem st') (mtag_to_root parent_mtag) va = mapped (pmem st) (mtag_to_root parent_mtag) va) \<and>
    (\<forall>a. pmem st' a \<noteq> pmem st a \<longrightarrow> (\<exists>n \<in> set ps. a - n < PAGE_SIZE)) \<and>
    mm.more st' = mm.more st"
  using memory_space_clone_ok [OF assms] unfolding cloned_space_def changes_in_def by blast

text \<open>A parent with one mapped page, and an empty kernel root at another page.\<close>

lemma count_one:
  "sorted_wrt (\<lambda>v v'. \<not> same_vpage v v') vs \<Longrightarrow> length (filter (same_vpage v0) vs) \<le> 1"
proof (induction vs)
  case (Cons v vs)
  have "filter (same_vpage v0) vs = []" if "same_vpage v0 v"
    using Cons.prems that by (auto simp: filter_empty_conv same_vpage_def)
  with Cons show ?case by auto
qed simp

lemma length_filter_imp:
  "(\<And>x. P x \<Longrightarrow> Q x) \<Longrightarrow> length (filter P xs) \<le> length (filter Q xs)"
  by (induction xs) (auto simp: le_Suc_eq)

lemma clone_demo:
  "\<exists>st ps. memory_alloc_and_map_page 0xC0000000 (PTE_R OR PTE_W OR PTE_U) demo_vm = Inr (0xC0000000, st) \<and>
    mapped (pmem st) 0x80000000 0xC0000000 \<noteq> None \<and> mapped (pmem st) 0x80000000 0xC0001000 = None \<and>
    free_prefix st ps \<and> (\<forall>p \<in> set ps. p < 2 ^ 56) \<and> parent_ok (pmem st) 0x80000000 ps \<and>
    kernel_ok (pmem st) 0x80009000 ps \<and> 3 * mapped_count (pmem st) 0x80000000 user_pages < length ps"
proof -
  let ?F = "insert 0x80009000 (set demo_pages)"
  let ?fl = "PTE_R OR PTE_W OR PTE_U"
  have al: "page_aligned (0x80000000 :: u64)" "page_aligned (0x80009000 :: u64)" by (simp_all add: aligned_def)
  have out: "0x80000000 \<notin> ?F" "0x80009000 \<notin> set demo_pages" by (simp_all add: demo_pages_def)
  have "pmem demo_vm (0x80000000 + 8 * i) = 0" if "i < 512" for i
    using demo_zero [OF al(1) _ entry_offset_less [OF that]] out by blast
  from wf_space_empty(1) [where m = "pmem demo_vm", OF al(1) _ out(1) this] have wf: "wf_space (pmem demo_vm) 0x80000000 ?F" by simp
  have ok: "wellformed_vma 0xC0000000" "aligned_addr 0xC0000000 PAGE_SIZE" "3 \<le> length demo_pages"
    by (code_simp, code_simp, simp add: demo_pages_def)
  obtain st k where m: "k \<le> 2" "memory_alloc_and_map_page 0xC0000000 ?fl demo_vm = Inr (0xC0000000, st)"
      "maps_fresh demo_vm 0x80000000 demo_pages 0xC0000000 ?fl (hd demo_pages) (drop k (tl demo_pages)) st"
      "wf_space (pmem st) 0x80000000 (?F - set (take k (tl demo_pages)))"
    using map_page_in [OF wf _ demo_root demo_prefix demo_limit ok(3) demo_space(2) ok(1,2), of ?fl] by blast
  let ?ps = "drop k (tl demo_pages)" and ?pg = "hd demo_pages"
  have f: "free_prefix st ?ps" "wf_space (pmem st) 0x80000000 (insert ?pg (set ?ps))" "?pg \<notin> set ?ps"
      "mapped (pmem st) 0x80000000 0xC0000000 = Some (leaf_pte ?pg ?fl)" "set ?ps \<subseteq> set demo_pages"
    using m(3) unfolding maps_fresh_def by blast+
  have other: "mapped (pmem st) 0x80000000 va = None" if "\<not> same_vpage 0xC0000000 va" for va
    using m(3) that demo_space(3) unfolding maps_fresh_def by metis
  have frame: "pte_page (leaf_pte ?pg ?fl) = ?pg" by code_simp
  have "\<not> same_vpage 0xC0000000 0xC0001000" by code_simp
  then have next_page: "mapped (pmem st) 0x80000000 0xC0001000 = None" by (rule other)
  have par: "parent_ok (pmem st) 0x80000000 ?ps"
    unfolding parent_ok_def
  proof (intro conjI allI impI)
    show "wf_space (pmem st) 0x80000000 (set ?ps)" using wf_space_mono [OF f(2)] by blast
    fix va p assume "mapped (pmem st) 0x80000000 va = Some p"
    moreover from this have "same_vpage 0xC0000000 va" using other by fastforce
    then have "mapped (pmem st) 0x80000000 va = Some (leaf_pte ?pg ?fl)"
      using f(4) mapped_cong_vpage by metis
    ultimately show "pte_page p \<notin> set ?ps" using f(3) frame by simp
  qed
  have kz: "pmem st (0x80009000 + 8 * i) = 0" if i: "i < 512" for i
  proof (rule ccontr)
    assume n: "pmem st (0x80009000 + 8 * i) \<noteq> 0"
    let ?a = "0x80009000 + 8 * i"
    have off: "?a - 0x80009000 < PAGE_SIZE" by (rule entry_offset_less [OF i])
    have "pmem demo_vm ?a = 0" by (rule demo_zero [OF al(2) out(2) off])
    then consider "?a - ?pg < PAGE_SIZE" | q t where "vpath q" "table_at (pmem st) 0x80000000 q = Some t" "?a - t < PAGE_SIZE"
      using m(3) n unfolding maps_fresh_def by metis
    then show False
    proof cases
      case 1
      have "page_aligned ?pg" by (simp add: demo_pages_def aligned_def)
      then have "?pg = 0x80009000" using page_disjoint [OF _ al(2) 1 off] by blast
      then show ?thesis by (simp add: demo_pages_def)
    next
      case 2
      have "set (tl demo_pages) \<subseteq> set demo_pages" by (simp add: demo_pages_def)
      then have "0x80009000 \<notin> set (take k (tl demo_pages))" using out(2) by (blast dest: in_set_takeD)
      then have "page_aligned t" "t \<noteq> 0x80009000" using wf_space_table [OF m(4) 2(1,2)] by auto
      then show ?thesis using page_disjoint [OF _ al(2) 2(3) off] by blast
    qed
  qed
  have "0x80009000 \<notin> set ?ps" using f(5) out(2) by blast
  then have "kernel_ok (pmem st) 0x80009000 ?ps"
    using wf_space_empty(1) [where m = "pmem st", OF al(2) _ _ kz] kz [of user_vpn] by (simp add: kernel_ok_def shared_entry_def user_vpn_def)
  moreover have "mapped_count (pmem st) 0x80000000 user_pages \<le> 1"
  proof -
    have "mapped_count (pmem st) 0x80000000 user_pages \<le> length (filter (same_vpage 0xC0000000) user_pages)"
      unfolding mapped_count_def by (rule length_filter_imp) (metis other)
    then show ?thesis using count_one [OF user_pages_distinct, of "0xC0000000"] by linarith
  qed
  moreover have "5 \<le> length ?ps" using m(1) by (simp add: demo_pages_def)
  moreover have "\<forall>p \<in> set ?ps. p < 2 ^ 56" using f(5) demo_limit by blast
  ultimately show ?thesis using m(2) f(1,4) par next_page by (intro exI [of _ st] exI [of _ ?ps]) auto
qed

theorem memory_space_clone_witness:
  "\<exists>st root st'. memory_alloc_and_map_page 0xC0000000 (PTE_R OR PTE_W OR PTE_U) demo_vm = Inr (0xC0000000, st) \<and>
    memory_space_clone 0x80009000 (make_mtag 0 0x80000000) 7 st = Inr (make_mtag 7 root, st') \<and>
    mapped (pmem st') root 0xC0000000 \<noteq> None \<and> mapped (pmem st') root 0xC0001000 = mapped (pmem st) 0x80000000 0xC0001000"
proof -
  obtain st ps where d: "memory_alloc_and_map_page 0xC0000000 (PTE_R OR PTE_W OR PTE_U) demo_vm = Inr (0xC0000000, st)"
    "mapped (pmem st) 0x80000000 0xC0000000 \<noteq> None"
    "free_prefix st ps" "\<forall>p \<in> set ps. p < 2 ^ 56" "parent_ok (pmem st) 0x80000000 ps"
    "kernel_ok (pmem st) 0x80009000 ps" "3 * mapped_count (pmem st) 0x80000000 user_pages < length ps"
    "mapped (pmem st) 0x80000000 0xC0001000 = None"
    using clone_demo by blast
  have t: "mtag_to_root (make_mtag 0 0x80000000) = 0x80000000" by code_simp
  have u: "USER_START_VMA \<le> 0xC0000000" "0xC0000000 < USER_END_VMA" "USER_START_VMA \<le> 0xC0001000" "0xC0001000 < USER_END_VMA"
    by (simp_all add: USER_START_VMA_def USER_END_VMA_def)
  obtain root st' k where c: "memory_space_clone 0x80009000 (make_mtag 0 0x80000000) 7 st = Inr (make_mtag 7 root, st')"
      "\<forall>va. USER_START_VMA \<le> va \<longrightarrow> va < USER_END_VMA \<longrightarrow>
        copied (pmem st) 0x80000000 (pmem st') root (set (take k ps)) va"
    using memory_space_clone_correct [of st ps "make_mtag 0 0x80000000" "0x80009000" 7] d(3-7) unfolding t by blast
  have "copied (pmem st) 0x80000000 (pmem st') root (set (take k ps)) 0xC0000000"
    "copied (pmem st) 0x80000000 (pmem st') root (set (take k ps)) 0xC0001000" using c(2) u by blast+
  then have "mapped (pmem st') root 0xC0000000 \<noteq> None" "mapped (pmem st') root 0xC0001000 = None"
    using d(2,8) unfolding copied_def by (auto split: option.splits)
  then show ?thesis using d(1,8) c(1) by auto
qed

end
