(* ===== verification/Console.thy ===== *)
theory Console
  imports Intr CString
begin

text \<open>
  The console of \<open>kern/console.c\<close>: characters and formatted text on the polled serial port, and
  lines read from it. The port is what it has sent, \<open>con_out\<close>, and what it will receive,
  \<open>con_in\<close>: \<open>com0_putc\<close> and \<open>com0_getc\<close> of \<open>kern/uart.c\<close> spin until the port is ready, and a read
  with nothing left to receive never returns. \<open>con_prev\<close> and \<open>con_in_prev\<close> are the static
  variables \<open>cprev\<close> of the two functions. \<open>CONSOLE_RAW\<close> is not defined.
\<close>

section \<open>State and operations\<close>

record ct = it +
  con_out :: string
  con_prev :: char
  con_in :: string
  con_in_prev :: char

definition cCR :: char where "cCR = CHR 0x0D"
definition cLF :: char where "cLF = CHR 0x0A"
definition cBS :: char where "cBS = CHR 0x08"
definition cDEL :: char where "cDEL = CHR 0x7F"

definition com0_putc :: "char \<Rightarrow> 'a ct_scheme \<Rightarrow> 'a ct_scheme" where
  "com0_putc c st = st\<lparr>con_out := con_out st @ [c]\<rparr>"

definition com0_getc :: "'a ct_scheme \<Rightarrow> (char \<times> 'a ct_scheme) res" where
  "com0_getc st = (case con_in st of [] \<Rightarrow> Inl Blocked | c # cs \<Rightarrow> Inr (c, st\<lparr>con_in := cs\<rparr>))"

definition console_putchar :: "char \<Rightarrow> 'a ct_scheme \<Rightarrow> 'a ct_scheme" where
  "console_putchar c st =
     (let st' =
        (if c = cCR then com0_putc cLF (com0_putc c st)
         else if c = cLF then com0_putc c (if con_prev st \<noteq> cCR then com0_putc cCR st else st)
         else com0_putc c st)
      in st'\<lparr>con_prev := c\<rparr>)"

text \<open>The loop of \<open>console_getchar\<close>.\<close>

function getc_loop :: "'a ct_scheme \<Rightarrow> (char \<times> 'a ct_scheme) res" where
  "getc_loop st =
     (case com0_getc st of
        Inl e \<Rightarrow> Inl e
      | Inr (c, st) \<Rightarrow> if c = cLF \<and> con_in_prev st = cCR then getc_loop st else Inr (c, st))"
  by pat_completeness auto
termination
  by (relation "measure (\<lambda>st. length (con_in st))") (auto simp: com0_getc_def split: list.splits)

declare getc_loop.simps [simp del]

definition console_getchar :: "'a ct_scheme \<Rightarrow> (char \<times> 'a ct_scheme) res" where
  "console_getchar st =
     bind_res (getc_loop st) (\<lambda>(c, st).
       let st = st\<lparr>con_in_prev := c\<rparr> in Inr (if c = cCR then cLF else c, st))"

fun console_puts :: "string \<Rightarrow> 'a ct_scheme \<Rightarrow> 'a ct_scheme res" where
  "console_puts [] st = Inl UndefinedAccess"
| "console_puts (c # str) st =
     (if c \<noteq> NUL then console_puts str (console_putchar c st) else Inr (console_putchar cLF st))"

lemma getc_loop_shrinks: "getc_loop st = Inr (c, st') \<Longrightarrow> length (con_in st') < length (con_in st)"
proof (induction st arbitrary: c st' rule: getc_loop.induct)
  case (1 st)
  show ?case
    using "1.prems" "1.IH" by (fastforce simp: getc_loop.simps [of st] com0_getc_def split: list.splits if_splits)
qed

lemma console_getchar_shrinks: "console_getchar st = Inr (c, st') \<Longrightarrow> length (con_in st') < length (con_in st)"
  using getc_loop_shrinks by (fastforce simp: console_getchar_def bind_res_Inr_conv Let_def)

text \<open>
  \<open>console_getsn\<close>: \<open>buf\<close> is the buffer, \<open>p\<close> the place of the next character in it and \<open>n\<close> the
  room that is left.
\<close>

function con_getsn_loop :: "string \<Rightarrow> nat \<Rightarrow> u64 \<Rightarrow> 'a ct_scheme \<Rightarrow> (string \<times> 'a ct_scheme) res" where
  "con_getsn_loop buf p n st =
     (case console_getchar st of
        Inl e \<Rightarrow> Inl e
      | Inr (c, st) \<Rightarrow>
          if c = cCR then con_getsn_loop buf p n st
          else if c = cLF then (if p < length buf then Inr (buf[p := NUL], st) else Inl UndefinedAccess)
          else if c = cBS \<or> c = cDEL then
            (if p \<noteq> 0 then con_getsn_loop buf (p - 1) (n + 1) st else con_getsn_loop buf p n st)
          else if n > 1 then
            (if p < length buf then con_getsn_loop (buf[p := c]) (p + 1) (n - 1) st else Inl UndefinedAccess)
          else con_getsn_loop buf p n st)"
  by pat_completeness auto
termination
  by (relation "measure (\<lambda>(_, _, _, st). length (con_in st))") (auto dest: console_getchar_shrinks)

declare con_getsn_loop.simps [simp del]

definition console_getsn :: "string \<Rightarrow> u64 \<Rightarrow> 'a ct_scheme \<Rightarrow> (string \<times> 'a ct_scheme) res" where
  "console_getsn buf n st = con_getsn_loop buf 0 n st"

definition vprintf_putc :: "'a ct_scheme putc" where
  "vprintf_putc c st = Inr (console_putchar c st)"

definition console_vprintf :: "string \<Rightarrow> vaarg list \<Rightarrow> 'a ct_scheme \<Rightarrow> (u64 \<times> 'a ct_scheme) res" where
  "console_vprintf fmt ap st =
     (let saved = sie st; st = (if intr_initialized st then snd (intr_disable st) else st)
      in bind_res (vgprintf vprintf_putc fmt ap st) (\<lambda>(nout, st).
           Inr (nout, if intr_initialized st then intr_restore saved st else st)))"

definition console_printf :: "string \<Rightarrow> vaarg list \<Rightarrow> 'a ct_scheme \<Rightarrow> (u64 \<times> 'a ct_scheme) res" where
  "console_printf fmt args st = console_vprintf fmt args st"

definition console_labeled_printf ::
    "string \<Rightarrow> string \<Rightarrow> int \<Rightarrow> string \<Rightarrow> vaarg list \<Rightarrow> 'a ct_scheme \<Rightarrow> 'a ct_scheme res" where
  "console_labeled_printf label src_flname src_lineno fmt args st =
     (let saved = sie st; st = (if intr_initialized st then snd (intr_disable st) else st)
      in bind_res (console_printf (''%s: %s:%d: '' @ [NUL])
             [VStr (Some label), VStr (Some src_flname), VWord (of_int src_lineno)] st) (\<lambda>(_, st).
         bind_res (console_vprintf fmt args st) (\<lambda>(_, st).
           let st = console_putchar cLF st
           in Inr (if intr_initialized st then intr_restore saved st else st))))"

section \<open>Output\<close>

text \<open>What the port sends for a text, and the effect of printing it.\<close>

fun console_text :: "char \<Rightarrow> string \<Rightarrow> string" where
  "console_text prev [] = []"
| "console_text prev (c # cs) =
     (if c = cCR then [cCR, cLF] else if c = cLF \<and> prev \<noteq> cCR then [cCR, cLF] else [c]) @ console_text c cs"

definition printed :: "string \<Rightarrow> 'a ct_scheme \<Rightarrow> 'a ct_scheme" where
  "printed cs st = st\<lparr>con_out := con_out st @ console_text (con_prev st) cs, con_prev := last (con_prev st # cs)\<rparr>"

lemma cCR_LF [simp]: "cCR \<noteq> cLF" "cLF \<noteq> cCR"
  by (simp_all add: cCR_def cLF_def)

lemma putchar_printed: "console_putchar c st = printed [c] st"
  by (auto simp: console_putchar_def printed_def com0_putc_def)

lemma printed_Nil [simp]: "printed [] st = st"
  by (simp add: printed_def)

lemma console_text_append: "console_text p (xs @ ys) = console_text p xs @ console_text (last (p # xs)) ys"
  by (induction xs arbitrary: p) auto

lemma printed_append: "printed ys (printed xs st) = printed (xs @ ys) st"
  by (auto simp: printed_def console_text_append)

lemma printed_fields [simp]:
  "sie (printed cs st) = sie st" "intr_initialized (printed cs st) = intr_initialized st" "con_in (printed cs st) = con_in st"
  by (simp_all add: printed_def)

text \<open>Text with no carriage return: every line feed becomes a carriage return and a line feed.\<close>

definition crlf :: "string \<Rightarrow> string" where
  "crlf cs = concat (map (\<lambda>c. if c = cLF then [cCR, cLF] else [c]) cs)"

lemma console_text_crlf: "cCR \<notin> set cs \<Longrightarrow> p \<noteq> cCR \<Longrightarrow> console_text p cs = crlf cs"
  by (induction cs arbitrary: p) (auto simp: crlf_def)

lemma console_puts_printed: "no_nul s \<Longrightarrow> console_puts (s @ NUL # t) st = Inr (printed (s @ [cLF]) st)"
  by (induction s arbitrary: st) (auto simp: no_nul_def putchar_printed printed_append)

text \<open>Formatted output sends what the same format writes to a list.\<close>

interpretation con_sim: putc_sim vprintf_putc "\<lambda>st out. st = printed out st0" for st0
  by unfold_locales (simp add: vprintf_putc_def putchar_printed printed_append)

lemma vgprintf_printed:
  "vgprintf vprintf_putc fmt ap st =
     bind_res (vgprintf list_putc fmt ap []) (\<lambda>(n, out). Inr (n, printed out st))"
proof -
  have "rel_sum (=) (rel_prod (=) (\<lambda>s out. s = printed out st))
      (vgprintf_loop vprintf_putc fmt ap 0 st) (vgprintf_loop list_putc fmt ap 0 [])"
    by (rule con_sim.sim_vgprintf_loop) simp
  then show ?thesis
    unfolding vgprintf_def
    by (cases "vgprintf_loop vprintf_putc fmt ap 0 st"; cases "vgprintf_loop list_putc fmt ap 0 []") auto
qed

lemma printed_sie: "(printed cs (st\<lparr>sie := b\<rparr>)) = (printed cs st)\<lparr>sie := b\<rparr>"
  by (simp add: printed_def)

lemma console_vprintf_printed:
  "console_vprintf fmt ap st = bind_res (vgprintf list_putc fmt ap []) (\<lambda>(n, out). Inr (n, printed out st))"
proof -
  have s: "st\<lparr>sie := sie st\<rparr> = st" by simp
  have "(if sie st then (printed out st)\<lparr>sie := True\<rparr> else (printed out st)\<lparr>sie := False\<rparr>) = printed out st" for out
    using printed_sie [where cs = out and st = st and b = "sie st"] unfolding s by (cases "sie st") simp_all
  then show ?thesis
    by (cases "vgprintf list_putc fmt ap []")
      (auto simp: console_vprintf_def vgprintf_printed intr_disable_def intr_restore_def printed_sie Let_def)
qed

section \<open>Input\<close>

text \<open>Line editing, on a stack of characters with room for \<open>k\<close>.\<close>

fun edit_char :: "nat \<Rightarrow> string \<Rightarrow> char \<Rightarrow> string" where
  "edit_char k acc c =
     (if c = cBS \<or> c = cDEL then butlast acc else if length acc < k then acc @ [c] else acc)"

text \<open>A line of input: the characters before its end, which is a carriage return or a line feed.\<close>

lemma getchar_plain:
  assumes "con_in st = c # cs" and "\<not> (c = cLF \<and> con_in_prev st = cCR)"
  shows "console_getchar st = Inr (if c = cCR then cLF else c, st\<lparr>con_in := cs, con_in_prev := c\<rparr>)"
  using assms by (auto simp: console_getchar_def getc_loop.simps com0_getc_def)

lemma con_getsn_loop_ok:
  assumes "con_in st = xs @ e # rest" and "\<forall>x \<in> set xs. x \<noteq> cCR \<and> x \<noteq> cLF" and "e = cCR \<or> e = cLF"
    and "xs = [] \<and> con_in_prev st = cCR \<longrightarrow> e = cCR"
    and "p + unat n = k + 1" and "p \<le> k" and "k < length buf" and "k + 1 < 2 ^ 64"
  shows "\<exists>buf'. con_getsn_loop buf p n st = Inr (buf', st\<lparr>con_in := rest, con_in_prev := e\<rparr>) \<and>
    (let l = foldl (edit_char k) (take p buf) xs in
       length l \<le> k \<and> take (Suc (length l)) buf' = l @ [NUL] \<and> length buf' = length buf)"
  using assms
proof (induction xs arbitrary: buf p n st)
  case Nil
  have "console_getchar st = Inr (cLF, st\<lparr>con_in := rest, con_in_prev := e\<rparr>)"
    using Nil getchar_plain [of st e rest] by auto
  then show ?case
    using Nil by (subst con_getsn_loop.simps) (auto simp: min_def take_Suc_conv_app_nth)
next
  case (Cons c xs)
  let ?st = "st\<lparr>con_in := xs @ e # rest, con_in_prev := c\<rparr>"
  have c: "c \<noteq> cCR" "c \<noteq> cLF" using Cons.prems(2) by auto
  then have g: "console_getchar st = Inr (c, ?st)" using getchar_plain [of st c "xs @ e # rest"] Cons.prems(1) by simp
  have st: "?st\<lparr>con_in := rest, con_in_prev := e\<rparr> = st\<lparr>con_in := rest, con_in_prev := e\<rparr>" by simp
  have pre: "con_in ?st = xs @ e # rest" "\<forall>x \<in> set xs. x \<noteq> cCR \<and> x \<noteq> cLF" "xs = [] \<and> con_in_prev ?st = cCR \<longrightarrow> e = cCR"
    using Cons.prems(2) c by auto
  note IH = Cons.IH [OF pre(1,2) Cons.prems(3) pre(3), unfolded st]
  note step = con_getsn_loop.simps [of buf p n st, unfolded g, simplified c]
  show ?case
  proof (cases "c = cBS \<or> c = cDEL")
    case True
    show ?thesis
    proof (cases "p = 0")
      case False
      have n1: "p - 1 + unat (n + 1) = k + 1"
        using False Cons.prems(5,8) by (simp add: unat_word_ariths)
      have "con_getsn_loop buf p n st = con_getsn_loop buf (p - 1) (n + 1) ?st" using True False c g by (simp add: step)
      moreover have "butlast (take p buf) = take (p - 1) buf"
        using Cons.prems(6,7) False by (simp add: butlast_take)
      ultimately show ?thesis using IH [OF n1 _ Cons.prems(7,8)] Cons.prems(6) True by simp
    next
      case True': True
      have "con_getsn_loop buf p n st = con_getsn_loop buf p n ?st" unfolding step using True True' c by auto
      then show ?thesis using IH [OF Cons.prems(5-8)] True True' by simp
    qed
  next
    case False
    have l: "length (take p buf) = p" using Cons.prems(6,7) by simp
    show ?thesis
    proof (cases "n > 1")
      case True
      then have p: "p < k" "p < length buf" "p + 1 + unat (n - 1) = k + 1"
        using Cons.prems(5,7) by (simp_all add: word_less_nat_alt unat_minus_if word_le_nat_alt)
      have "con_getsn_loop buf p n st = con_getsn_loop (buf[p := c]) (p + 1) (n - 1) ?st" using True False c g p by (simp add: step)
      moreover have "take (p + 1) (buf[p := c]) = take p buf @ [c]" using p(2) by (simp add: take_Suc_conv_app_nth)
      ultimately show ?thesis using IH [OF p(3), of "buf[p := c]"] p Cons.prems(7,8) False l by simp
    next
      case n: False
      then have "p = k" using Cons.prems(5,6) by (simp add: word_less_nat_alt)
      moreover have "con_getsn_loop buf p n st = con_getsn_loop buf p n ?st" using n False c g by (simp add: step)
      ultimately show ?thesis using IH [OF Cons.prems(5-8)] False l by simp
    qed
  qed
qed

section \<open>Correctness properties\<close>

text \<open>
  Formatted console output: the port sends the text the format gives, with every line feed as a
  carriage return and a line feed, and nothing else changes, the interrupt enable included. The
  text has no carriage return of its own and the last character before it was not one.
\<close>

theorem console_printf_correct:
  assumes "vgprintf list_putc fmt args [] = Inr (n, out)" and "cCR \<notin> set out" and "con_prev st \<noteq> cCR"
  shows "console_printf fmt args st =
    Inr (n, st\<lparr>con_out := con_out st @ crlf out, con_prev := last (con_prev st # out)\<rparr>)"
  using assms by (simp add: console_printf_def console_vprintf_printed printed_def console_text_crlf)

text \<open>
  A line read from the console: up to the end of the line, characters are appended while there is
  room and removed by a backspace or delete; the buffer then holds the line with its terminator,
  and the input continues behind the end of the line.
\<close>

theorem console_getsn_correct:
  assumes "con_in st = xs @ e # rest" and "\<forall>x \<in> set xs. x \<noteq> cCR \<and> x \<noteq> cLF" and "e = cCR \<or> e = cLF"
    and "con_in_prev st \<noteq> cCR" and "0 < n" and "unat n \<le> length buf"
  shows "\<exists>buf' l. console_getsn buf n st = Inr (buf', st\<lparr>con_in := rest, con_in_prev := e\<rparr>) \<and>
    l = foldl (edit_char (unat n - 1)) [] xs \<and> length l < unat n \<and> take (Suc (length l)) buf' = l @ [NUL]"
proof -
  have u: "0 < unat n" "unat n < 2 ^ 64" using assms(5) by (simp_all add: word_less_nat_alt)
  show ?thesis
    using con_getsn_loop_ok [OF assms(1-3), of 0 n "unat n - 1" buf] assms(4,6) u by (fastforce simp: console_getsn_def Let_def)
qed

text \<open>A console that has printed nothing and will receive a line with a correction.\<close>

definition demo_ct :: ct where
  "demo_ct = it.extend demo_it (ct.fields [] NUL [CHR ''l'', CHR ''x'', cBS, CHR ''s'', cCR, CHR ''q''] NUL)"

lemma demo_ct_fields: "con_out demo_ct = []" "con_prev demo_ct = NUL"
  "con_in demo_ct = [CHR ''l'', CHR ''x'', cBS, CHR ''s''] @ cCR # [CHR ''q'']" "con_in_prev demo_ct = NUL"
  by (simp_all add: demo_ct_def it.defs ct.defs)

theorem console_printf_correct_witness:
  "\<exists>st'. console_printf (''n=%d'' @ [cLF, NUL]) [VWord 42] demo_ct = Inr (5, st') \<and>
     con_out st' = ''n=42'' @ [cCR, cLF]"
proof -
  have f: "vgprintf list_putc (''n=%d'' @ [cLF, NUL]) [VWord 42] [] = Inr (5, ''n=42'' @ [cLF])"
    by code_simp
  have "cCR \<notin> set (''n=42'' @ [cLF])" "con_prev demo_ct \<noteq> cCR" "crlf (''n=42'' @ [cLF]) = ''n=42'' @ [cCR, cLF]"
    by (simp_all add: demo_ct_fields(2) cCR_def cLF_def crlf_def)
  with console_printf_correct [OF f this(1,2)] show ?thesis by (simp add: demo_ct_fields(1))
qed

theorem console_getsn_correct_witness:
  "\<exists>buf' st'. console_getsn (replicate 8 NUL) 8 demo_ct = Inr (buf', st') \<and> take 3 buf' = ''ls'' @ [NUL]"
proof -
  have e: "foldl (edit_char 7) [] [CHR ''l'', CHR ''x'', cBS, CHR ''s''] = ''ls''"
    by (simp add: cBS_def cDEL_def)
  have "\<forall>x \<in> set [CHR ''l'', CHR ''x'', cBS, CHR ''s'']. x \<noteq> cCR \<and> x \<noteq> cLF" "con_in_prev demo_ct \<noteq> cCR"
    by (simp_all add: demo_ct_fields(4) cCR_def cLF_def cBS_def)
  from console_getsn_correct [OF demo_ct_fields(3) this(1) _ this(2), of 8 "replicate 8 NUL"] e
  show ?thesis by (auto simp: numeral_3_eq_3)
qed

end
