(* ===== verification/Process.thy ===== *)
theory Process
  imports Console Elf Device
begin

text \<open>
  Processes: \<open>kern/process.c\<close>, \<open>kern/process.h\<close>, and \<open>thread_fork_to_user\<close> of \<open>kern/thread.c\<close>.

  The state \<open>ks\<close> adds to the state below it the process structures, the process table, the file
  system and the other devices. A process structure is reached by its pointer, a number: 0 is the
  static \<open>main_proc\<close>, the others are addresses from \<open>kmalloc\<close>. The field \<open>mtag\<close> of a process is
  \<open>proc_mtag\<close> of the thread state, which the scheduler reads. An I/O object is the \<open>io_intf\<close> of an
  open file, by its slot in the table of \<open>kfs.c\<close>, or of a device, by a number. What is reached
  through function pointers is in the environment \<open>kenv\<close>: the operations of the block device and
  of the other devices, and their open functions. It also has the arbitrary contents of memory that
  the code uses before it has set it: a process structure and a thread structure from \<open>kmalloc\<close>, and
  an uninitialised local variable.

  A call that does not return to its caller says how it leaves: in \<open>sysret\<close>, \<open>Suspended\<close> means
  that another thread runs (the caller waits or has exited), \<open>EnterUser\<close> that \<open>_thread_finish_jump\<close>
  started user mode, and \<open>EnterChild\<close> that the child of a fork runs in user mode.
\<close>

section \<open>State\<close>

datatype ioptr = FileIo nat | DevIo nat

record process =
  proc_id :: int
  proc_tid :: int
  iotab :: "ioptr option list"
  pending_signals :: u64
  blocked_signals :: u64
  signal_handler :: "u64 list"

record ('d, 'w) ks = ct +
  procs :: "nat \<Rightarrow> process option"
  proctab :: "nat option list"
  procmgr_initialized :: bool
  kfs :: "'d fs"
  devices :: devtab
  devs :: 'w
  dev_refs :: "nat \<Rightarrow> u32"

record ('d, 'w) kenv =
  blk_ops :: "'d io_ops"
  dev_ops :: "nat \<Rightarrow> 'w io_ops"
  dev_open :: "nat \<Rightarrow> nat \<Rightarrow> 'w \<times> (nat \<Rightarrow> u32) \<times> ioptr option \<Rightarrow> (int \<times> 'w \<times> (nat \<Rightarrow> u32) \<times> ioptr option) res"
  main_pt2 :: u64
  sleep_alarm :: "int \<Rightarrow> nat \<times> cptr"
  kmalloc_junk :: process
  thread_junk :: thread
  stack_junk :: int

datatype sysret = Ret int | Suspended | EnterUser u64 u64 u64 | EnterChild

definition NPROC :: nat where "NPROC = 16"
definition PROCESS_IOMAX :: nat where "PROCESS_IOMAX = 16"
definition NSIG :: nat where "NSIG = 10"
definition MAIN_PID :: nat where "MAIN_PID = 0"
definition main_proc :: nat where "main_proc = 0"
definition sizeof_process :: u64 where "sizeof_process = 240"

definition zero_process :: process where
  "zero_process = \<lparr>proc_id = 0, proc_tid = 0, iotab = replicate PROCESS_IOMAX None, pending_signals = 0,
     blocked_signals = 0, signal_handler = replicate NSIG 0\<rparr>"

text \<open>The static data before \<open>procmgr_init\<close>.\<close>

definition static_procs :: "nat \<Rightarrow> process option" where
  "static_procs = [main_proc \<mapsto> zero_process]"

definition static_proctab :: "nat option list" where
  "static_proctab = (replicate NPROC None)[MAIN_PID := Some main_proc]"

section \<open>I/O objects\<close>

definition file_refcnt :: "nat \<Rightarrow> ('d, 'w, 'a) ks_scheme \<Rightarrow> u32" where
  "file_refcnt k st = f_refcnt (file_structs (kfs st) ! k)"

definition set_file_refcnt :: "nat \<Rightarrow> u32 \<Rightarrow> 'd fs \<Rightarrow> 'd fs" where
  "set_file_refcnt k n fs = fs\<lparr>file_structs := (file_structs fs)[k := (file_structs fs ! k)\<lparr>f_refcnt := n\<rparr>]\<rparr>"

definition obj_refs :: "ioptr \<Rightarrow> ('d, 'w, 'a) ks_scheme \<Rightarrow> u32" where
  "obj_refs p st = (case p of FileIo k \<Rightarrow> file_refcnt k st | DevIo i \<Rightarrow> dev_refs st i)"

definition obj_ref :: "ioptr \<Rightarrow> ('d, 'w, 'a) ks_scheme \<Rightarrow> ('d, 'w, 'a) ks_scheme" where
  "obj_ref p st =
     (case p of
        FileIo k \<Rightarrow> st\<lparr>kfs := set_file_refcnt k (fst (ioref (file_refcnt k st))) (kfs st)\<rparr>
      | DevIo i \<Rightarrow> st\<lparr>dev_refs := (dev_refs st)(i := fst (ioref (dev_refs st i)))\<rparr>)"

definition obj_close :: "('d, 'w) kenv \<Rightarrow> ioptr \<Rightarrow> ('d, 'w, 'a) ks_scheme \<Rightarrow> ('d, 'w, 'a) ks_scheme res" where
  "obj_close env p st =
     (case p of
        FileIo k \<Rightarrow>
          bind_res (ioclose (fs_io_ops (blk_ops env) k) (file_refcnt k st) (kfs st)) (\<lambda>(n, fs).
            Inr (st\<lparr>kfs := set_file_refcnt k n fs\<rparr>))
      | DevIo i \<Rightarrow>
          bind_res (ioclose (dev_ops env i) (dev_refs st i) (devs st)) (\<lambda>(n, w).
            Inr (st\<lparr>devs := w, dev_refs := (dev_refs st)(i := n)\<rparr>)))"

definition obj_read ::
    "('d, 'w) kenv \<Rightarrow> ioptr \<Rightarrow> nat \<Rightarrow> ('d, 'w, 'a) ks_scheme \<Rightarrow> (int \<times> u8 list \<times> ('d, 'w, 'a) ks_scheme) res" where
  "obj_read env p n st =
     (case p of
        FileIo k \<Rightarrow> bind_res (call_read (fs_io_ops (blk_ops env) k) n (kfs st)) (\<lambda>(r, bs, fs). Inr (r, bs, st\<lparr>kfs := fs\<rparr>))
      | DevIo i \<Rightarrow> bind_res (call_read (dev_ops env i) n (devs st)) (\<lambda>(r, bs, w). Inr (r, bs, st\<lparr>devs := w\<rparr>)))"

definition obj_write ::
    "('d, 'w) kenv \<Rightarrow> ioptr \<Rightarrow> u8 list \<Rightarrow> ('d, 'w, 'a) ks_scheme \<Rightarrow> (int \<times> ('d, 'w, 'a) ks_scheme) res" where
  "obj_write env p bs st =
     (case p of
        FileIo k \<Rightarrow> bind_res (call_write (fs_io_ops (blk_ops env) k) bs (kfs st)) (\<lambda>(r, fs). Inr (r, st\<lparr>kfs := fs\<rparr>))
      | DevIo i \<Rightarrow> bind_res (call_write (dev_ops env i) bs (devs st)) (\<lambda>(r, w). Inr (r, st\<lparr>devs := w\<rparr>)))"

definition obj_ctl ::
    "('d, 'w) kenv \<Rightarrow> ioptr \<Rightarrow> int \<Rightarrow> u64 \<Rightarrow> ('d, 'w, 'a) ks_scheme \<Rightarrow> (int \<times> u64 \<times> ('d, 'w, 'a) ks_scheme) res" where
  "obj_ctl env p cmd arg st =
     (case p of
        FileIo k \<Rightarrow> bind_res (call_ctl (fs_io_ops (blk_ops env) k) cmd arg (kfs st)) (\<lambda>(r, v, fs). Inr (r, v, st\<lparr>kfs := fs\<rparr>))
      | DevIo i \<Rightarrow> bind_res (call_ctl (dev_ops env i) cmd arg (devs st)) (\<lambda>(r, v, w). Inr (r, v, st\<lparr>devs := w\<rparr>)))"

section \<open>Operations\<close>

definition get_proc :: "nat option \<Rightarrow> ('d, 'w, 'a) ks_scheme \<Rightarrow> process res" where
  "get_proc p st = (case Option.bind p (procs st) of None \<Rightarrow> Inl UndefinedAccess | Some pr \<Rightarrow> Inr pr)"

definition set_proc :: "nat \<Rightarrow> process \<Rightarrow> ('d, 'w, 'a) ks_scheme \<Rightarrow> ('d, 'w, 'a) ks_scheme" where
  "set_proc p pr st = st\<lparr>procs := (procs st)(p \<mapsto> pr)\<rparr>"

definition current_process :: "('d, 'w, 'a) ks_scheme \<Rightarrow> nat option res" where
  "current_process st = bind_res (running_thread st) (\<lambda>tid. thread_process tid st)"

text \<open>The current process and its structure, for the callers that use it without a test.\<close>

definition cur_proc :: "('d, 'w, 'a) ks_scheme \<Rightarrow> (nat \<times> process) res" where
  "cur_proc st = bind_res (current_process st) (\<lambda>p. bind_res (get_proc p st) (\<lambda>pr. Inr (the p, pr)))"

text \<open>
  \<open>elf_load\<close> on an I/O object. The last lines of \<open>elf_load\<close> print the thread of the current process, which
  is read through \<open>current_process()\<close> without a test.
\<close>

definition obj_load ::
    "('d, 'w) kenv \<Rightarrow> ioptr \<Rightarrow> ('d, 'w, 'a) ks_scheme \<Rightarrow> (int \<times> u64 option \<times> ('d, 'w, 'a) ks_scheme) res" where
  "obj_load env p st =
     bind_res
       (case p of
          FileIo k \<Rightarrow> bind_res (elf_load (fs_io_ops (blk_ops env) k) (kfs st) st) (\<lambda>(r, e, fs, st). Inr (r, e, st\<lparr>kfs := fs\<rparr>))
        | DevIo i \<Rightarrow> bind_res (elf_load (dev_ops env i) (devs st) st) (\<lambda>(r, e, w, st). Inr (r, e, st\<lparr>devs := w\<rparr>)))
       (\<lambda>(r, e, st).
          if e = None then Inr (r, e, st) else bind_res (cur_proc st) (\<lambda>_. Inr (r, e, st)))"

definition current_pid :: "('d, 'w, 'a) ks_scheme \<Rightarrow> int res" where
  "current_pid st = bind_res (cur_proc st) (\<lambda>(p, pr). Inr (proc_id pr))"

definition procmgr_init :: "('d, 'w, 'a) ks_scheme \<Rightarrow> ('d, 'w, 'a) ks_scheme res" where
  "procmgr_init st =
     bind_res (get_proc (Some main_proc) st) (\<lambda>pr.
     bind_res (running_thread st) (\<lambda>tid.
       let st = set_proc main_proc (pr\<lparr>proc_id := int MAIN_PID, proc_tid := tid\<rparr>) st;
           st = st\<lparr>proc_mtag := (proc_mtag st)(main_proc := active_space_mtag st)\<rparr>
       in bind_res (thread_set_process tid (Some main_proc) st) (\<lambda>st.
          bind_res (get_proc (Some main_proc) st) (\<lambda>pr.
            Inr ((set_proc main_proc (pr\<lparr>iotab := replicate PROCESS_IOMAX None\<rparr>) st)\<lparr>procmgr_initialized := True\<rparr>)))))"

definition process_exec ::
    "('d, 'w) kenv \<Rightarrow> ioptr \<Rightarrow> ('d, 'w, 'a) ks_scheme \<Rightarrow> (sysret \<times> ('d, 'w, 'a) ks_scheme) res" where
  "process_exec env exeio st =
     bind_res (memory_unmap_and_free_user st) (\<lambda>st.
     bind_res (obj_load env exeio st) (\<lambda>(result, entry_point, st).
       if result < 0 then Inr (Ret (- 1), st)
       else case entry_point of
              None \<Rightarrow> Inl UndefinedAccess
            | Some upc \<Rightarrow>
                if upc < USER_START_VMA \<or> USER_END_VMA \<le> upc then Inr (Ret (- 1), st)
                else bind_res (cur_stack_base st) (\<lambda>stack_anchor.
                  Inr (EnterUser stack_anchor USER_STACK_VMA upc, st))))"

text \<open>The loop of \<open>process_exit\<close> that closes descriptor \<open>i\<close> of the process \<open>p\<close>.\<close>

definition close_fd :: "('d, 'w) kenv \<Rightarrow> nat \<Rightarrow> nat \<Rightarrow> ('d, 'w, 'a) ks_scheme \<Rightarrow> ('d, 'w, 'a) ks_scheme res" where
  "close_fd env p i st =
     bind_res (get_proc (Some p) st) (\<lambda>pr.
       case iotab pr ! i of
         None \<Rightarrow> Inr st
       | Some io \<Rightarrow>
           bind_res (obj_close env io st) (\<lambda>st.
           bind_res (get_proc (Some p) st) (\<lambda>pr.
             Inr (set_proc p (pr\<lparr>iotab := (iotab pr)[i := None]\<rparr>) st))))"

definition process_exit :: "('d, 'w) kenv \<Rightarrow> ('d, 'w, 'a) ks_scheme \<Rightarrow> ('d, 'w, 'a) ks_scheme res option" where
  "process_exit env st =
     bind_opt (Some (current_process st)) (\<lambda>p.
       case p of
         None \<Rightarrow> Some (Inl (Panic ''prcess_exit: current process doesn't exist, ::confused_face_emoji''))
       | Some p \<Rightarrow>
           bind_opt (Some (memory_space_reclaim st)) (\<lambda>st.
           bind_opt (Some (foldM (close_fd env p) [0..<PROCESS_IOMAX] st)) thread_exit))"

definition find_process_by_pid :: "int \<Rightarrow> ('d, 'w, 'a) ks_scheme \<Rightarrow> nat option" where
  "find_process_by_pid pid st = (if pid < 0 \<or> int NPROC \<le> pid then None else proctab st ! nat pid)"

text \<open>\<open>process_terminate\<close> does nothing for another process. The result says whether the call returned.\<close>

definition process_terminate ::
    "('d, 'w) kenv \<Rightarrow> int \<Rightarrow> ('d, 'w, 'a) ks_scheme \<Rightarrow> (bool \<times> ('d, 'w, 'a) ks_scheme) res option" where
  "process_terminate env pid st =
     bind_opt (Some (current_process st)) (\<lambda>cur.
       if find_process_by_pid pid st = cur
       then bind_opt (process_exit env st) (\<lambda>st. Some (Inr (False, st)))
       else Some (Inr (True, st)))"

section \<open>Forking\<close>

definition SATP_ASID_MASK :: u64 where "SATP_ASID_MASK = 0xFFFF0000000000"

text \<open>
  \<open>thread_fork_to_user\<close>, up to \<open>_thread_finish_fork\<close>, which saves the context of the parent,
  switches to the child and enters user mode there. The parent continues behind that call, and
  not in \<open>suspend_self\<close>, when it is next scheduled.
\<close>

definition thread_fork_to_user ::
    "('d, 'w) kenv \<Rightarrow> nat \<Rightarrow> ('d, 'w, 'a) ks_scheme \<Rightarrow> (sysret \<times> ('d, 'w, 'a) ks_scheme) res" where
  "thread_fork_to_user env child_proc st =
     bind_res (cur_proc st) (\<lambda>(parent, _).
     bind_res (memory_space_clone (main_pt2 env) (proc_mtag st parent)
         (drop_bit 44 (proc_mtag st child_proc AND SATP_ASID_MASK)) st) (\<lambda>(child_mtag, st).
       if child_mtag = 0 then Inr (Ret (- 2), st)
       else
         let st = st\<lparr>proc_mtag := (proc_mtag st)(child_proc := child_mtag)\<rparr> in
         case find_slot st of
           None \<Rightarrow> Inl (Panic ''Too many threads'')
         | Some tid \<Rightarrow>
             bind_res (kmalloc sizeof_thread st) (\<lambda>(a, st).
             bind_res (memory_alloc_page st) (\<lambda>(stack_page, st).
               let me = curthr st; child = DynThread a;
                   anchor = stack_page + PAGE_SIZE - sizeof_stack_anchor;
                   st = st\<lparr>pmem := (pmem st)(anchor := a, anchor + 8 := 0)\<rparr>;
                   st = st\<lparr>thrtab := (thrtab st)[tid := Some child]\<rparr>;
                   t = (thread_junk env)\<lparr>t_id := int tid, t_name := ''forked_process'', t_parent := Some me,
                         stack_base := anchor, stack_size := anchor - stack_page\<rparr>;
                   st = st\<lparr>thrs := (thrs st)(child \<mapsto> t), resume_sie := (resume_sie st)(child := None)\<rparr>
               in bind_res (set_thread (Some me) (t_state_update (\<lambda>_. THREAD_READY)) st) (\<lambda>st.
                    let (saved, st) = intr_disable st in
                    bind_res (ready_insert (Some me) st) (\<lambda>st.
                    let st = intr_restore saved st in
                    bind_res (set_thread (Some child) (t_state_update (\<lambda>_. THREAD_RUNNING)) st) (\<lambda>st.
                    bind_res (get_proc (Some child_proc) st) (\<lambda>pr.
                    let st = set_proc child_proc (pr\<lparr>proc_tid := int tid\<rparr>) st in
                    bind_res (thread_set_process (int tid) (Some child_proc) st) (\<lambda>st.
                    let st = snd (memory_space_switch child_mtag st)
                    in Inr (EnterChild, st\<lparr>curthr := child, resume_sie := (resume_sie st)(me := None)\<rparr>))))))))))"

section \<open>Lemmas\<close>

lemma current_process_cong:
  "thrs st' = thrs st \<Longrightarrow> thrtab st' = thrtab st \<Longrightarrow> curthr st' = curthr st \<Longrightarrow> current_process st' = current_process st"
  by (simp add: current_process_def running_thread_def thread_process_def thread_at_def cong: if_cong)

lemma current_process_set [simp]: "current_process (set_proc p pr st) = current_process st"
  by (rule current_process_cong) (simp_all add: set_proc_def)

lemma cur_procE:
  assumes "cur_proc st = Inr (p, pr)"
  shows "current_process st = Inr (Some p)" "procs st p = Some pr"
  using assms by (auto simp: cur_proc_def get_proc_def bind_res_Inr_conv split: option.splits Option.bind_splits)

lemma cur_procI: "current_process st = Inr (Some p) \<Longrightarrow> procs st p = Some pr \<Longrightarrow> cur_proc st = Inr (p, pr)"
  by (simp add: cur_proc_def get_proc_def)

lemma cur_proc_set: "cur_proc st = Inr (p, pr) \<Longrightarrow> cur_proc (set_proc p pr' st) = Inr (p, pr')"
  by (rule cur_procI) (auto dest: cur_procE, simp add: set_proc_def)

text \<open>A change of memory and of the free list leaves the rest of the state.\<close>

lemma mm_more_cong: "mm.more st' = mm.more st \<Longrightarrow> st' = st\<lparr>pmem := pmem st', free_list := free_list st'\<rparr>"
  by (rule mm.equality) auto

lemma loaded_kfs [simp]: "loaded D ph (st\<lparr>kfs := fs\<rparr>) = loaded D ph st"
  by (simp add: loaded_def ubyte_def upte_def active_space_root_def active_space_mtag_def)

lemma user_space_kfs [simp]: "user_space (st\<lparr>kfs := fs\<rparr>) ps N = user_space st ps N"
  by (simp add: user_space_def free_prefix_def own_frames_def upte_def active_space_root_def active_space_mtag_def)

lemma user_view_kfs [simp]: "upte (st\<lparr>kfs := fs\<rparr>) n = upte st n" "ubyte (st\<lparr>kfs := fs\<rparr>) n = ubyte st n"
  by (simp_all add: ubyte_def upte_def active_space_root_def active_space_mtag_def)

lemma process_exec_ok:
  assumes dev: "virtio_ok serve contents" and env: "blk_ops env = vioblk_io_ops serve"
    and img: "fs_wf (\<lambda>dev. vb_wf contents dev \<and> \<not> vb_lock dev) (vb_data contents) k (kfs st)" "fs_at k (kfs st) = 0"
      "fs_contents (vb_data contents) k (kfs st) = D" "elf_ok D"
    and space: "wf_space (pmem st) root F" "active_space_root st = root" "free_prefix st ps" "set ps \<subseteq> F"
      "\<forall>p \<in> set ps. p < 2 ^ 56" "sstatus_sum st" "\<forall>n < 2 ^ 28. \<not> superpage (pmem st) root (ua n)"
      "set (frames sel_user (pmem st) root user_pages) \<subseteq> F - {0}" "distinct (frames sel_user (pmem st) root user_pages @ ps)"
    and thr: "thrs st (curthr st) = Some t" and cur: "cur_proc st = Inr (p, pr)"
  defines "eh \<equiv> ehdr_of (take 64 D)"
  assumes entry: "USER_START_VMA \<le> e_entry eh" "e_entry eh < USER_END_VMA"
    and room: "3 * sum_list (map (\<lambda>j. seg_count (phdr_at D eh j)) (load_indices D eh)) \<le>
      length (frames sel_user (pmem st) root user_pages) + length ps"
  defines "js \<equiv> load_indices D eh" and "new \<equiv> \<Union>j \<in> set (load_indices D eh). seg_pages (phdr_at D eh j)"
  shows "\<exists>st' ps'. process_exec env (FileIo k) st = Inr (EnterUser (stack_base t) USER_STACK_VMA (e_entry eh), st') \<and>
    curthr st' = curthr st \<and> (\<forall>j \<in> set js. loaded D (phdr_at D eh j) st') \<and>
    (\<forall>n < 2 ^ 28. n div 4096 \<notin> new \<longrightarrow> \<not> selected sel_user (upte st' n)) \<and> user_space st' ps' new \<and>
    length (frames sel_user (pmem st) root user_pages) + length ps \<le>
      length ps' + 3 * sum_list (map (\<lambda>j. seg_count (phdr_at D eh j)) js)"
proof -
  let ?ps = "rev (frames sel_user (pmem st) root user_pages) @ ps"
  obtain st1 where st1: "memory_unmap_and_free_user st = Inr st1" "mm.more st1 = mm.more st" "user_space st1 ?ps {}"
    "\<forall>n < 2 ^ 28. \<not> selected sel_user (upte st1 n)"
    using unmap_user_ok [OF space] by blast
  have k1: "kfs st1 = kfs st" using arg_cong [OF mm_more_cong [OF st1(2)], of kfs] by simp
  have rm: "3 * sum_list (map (\<lambda>j. seg_count (phdr_at D eh j)) (load_indices D eh)) \<le> length ?ps" using room by simp
  obtain fs2 st2 ps2 where st2: "elf_load (fs_io_ops (vioblk_io_ops serve) k) (kfs st) st1 = Inr (0, Some (e_entry eh), fs2, st2)"
    "mm.more st2 = mm.more st1" "\<forall>j \<in> set js. loaded D (phdr_at D eh j) st2" "user_space st2 ps2 new"
    "length ?ps \<le> length ps2 + 3 * sum_list (map (\<lambda>j. seg_count (phdr_at D eh j)) js)"
    "\<forall>n < 2 ^ 28. n div 4096 \<notin> new \<longrightarrow> upte st2 n = upte st1 n"
    using program_file.elf_load_ok [OF block_device.fs_program_file [OF vioblk_block_device [OF dev]] img(1,2,3,4) st1(3)
        rm [unfolded eh_def] refl]
    unfolding eh_def [symmetric] js_def new_def by blast
  have "mm.more st2 = mm.more st" using st1(2) st2(2) by simp
  note m = mm_more_cong [OF this]
  have t2: "thrs st2 (curthr st2) = Some t" "curthr st2 = curthr st"
    using arg_cong [OF m, of thrs] arg_cong [OF m, of curthr] thr by simp_all
  have "current_process (st2\<lparr>kfs := fs2\<rparr>) = current_process st"
    using arg_cong [OF m, of thrs] arg_cong [OF m, of thrtab] arg_cong [OF m, of curthr] by (intro current_process_cong) simp_all
  then have c2: "cur_proc (st2\<lparr>kfs := fs2\<rparr>) = Inr (p, pr)"
    using cur_procE [OF cur] arg_cong [OF m, of procs] by (intro cur_procI) simp_all
  have "process_exec env (FileIo k) st = Inr (EnterUser (stack_base t) USER_STACK_VMA (e_entry eh), st2\<lparr>kfs := fs2\<rparr>)"
    using st1(1) st2(1) entry t2(1) c2
    by (simp add: process_exec_def obj_load_def env k1 not_less not_le cur_stack_base_def deref_def)
  moreover have "\<forall>n < 2 ^ 28. n div 4096 \<notin> new \<longrightarrow> \<not> selected sel_user (upte st2 n)" using st1(4) st2(6) by simp
  ultimately show ?thesis
    using t2(2) st2(3,4,5) by (intro exI [of _ "st2\<lparr>kfs := fs2\<rparr>"] exI [of _ ps2]) simp
qed

section \<open>Correctness properties\<close>

text \<open>
  C6. Executing a program from a file: when the file is an executable with page-aligned segments in the
  user part that share no page, and there are enough pages once those of the old program are
  freed, \<open>process_exec\<close> replaces the user part of the address space by the segments of the program
  and enters user mode at the entry point of its header, with the stack at the top of the user
  part and the kernel stack of the running thread. Outside the pages of the segments no page of the
  user is mapped any more, and the frames of the old program are free pages again: those that were
  free and those of the old program, less at most three pages for every page of a segment, are
  free afterwards.
\<close>

theorem process_exec_correct:
  assumes dev: "virtio_ok serve contents" and env: "blk_ops env = vioblk_io_ops serve"
    and img: "fs_wf (\<lambda>dev. vb_wf contents dev \<and> \<not> vb_lock dev) (vb_data contents) k (kfs st)" "fs_at k (kfs st) = 0"
      "fs_contents (vb_data contents) k (kfs st) = D" "elf_ok D"
    and space: "wf_space (pmem st) root F" "active_space_root st = root" "free_prefix st ps" "set ps \<subseteq> F"
      "\<forall>p \<in> set ps. p < 2 ^ 56" "sstatus_sum st" "\<forall>n < 2 ^ 28. \<not> superpage (pmem st) root (ua n)"
      "set (frames sel_user (pmem st) root user_pages) \<subseteq> F - {0}" "distinct (frames sel_user (pmem st) root user_pages @ ps)"
    and thr: "thrs st (curthr st) = Some t" and cur: "cur_proc st = Inr (p, pr)"
  defines "eh \<equiv> ehdr_of (take 64 D)"
  assumes entry: "USER_START_VMA \<le> e_entry eh" "e_entry eh < USER_END_VMA"
    and room: "3 * sum_list (map (\<lambda>j. seg_count (phdr_at D eh j)) (load_indices D eh)) \<le>
      length (frames sel_user (pmem st) root user_pages) + length ps"
  defines "js \<equiv> load_indices D eh" and "new \<equiv> \<Union>j \<in> set (load_indices D eh). seg_pages (phdr_at D eh j)"
  shows "\<exists>st' ps'. process_exec env (FileIo k) st = Inr (EnterUser (stack_base t) USER_STACK_VMA (e_entry eh), st') \<and>
    curthr st' = curthr st \<and> (\<forall>j \<in> set js. loaded D (phdr_at D eh j) st') \<and>
    (\<forall>n < 2 ^ 28. n div 4096 \<notin> new \<longrightarrow> \<not> selected sel_user (upte st' n)) \<and> user_space st' ps' new \<and>
    length (frames sel_user (pmem st) root user_pages) + length ps \<le>
      length ps' + 3 * sum_list (map (\<lambda>j. seg_count (phdr_at D eh j)) js)"
  using process_exec_ok [OF assms(1-17) assms(19-21) [unfolded eh_def]] unfolding eh_def js_def new_def .

text \<open>A kernel with the console and the file of the earlier examples.\<close>

definition demo_ks :: "(u8 list vioblk, unit) ks" where
  "demo_ks = ct.extend demo_ct (ks.fields static_procs static_proctab True prog_open devtab_empty () (\<lambda>_. 0))"

definition demo_env :: "(u8 list vioblk, unit) kenv" where
  "demo_env = \<lparr>blk_ops = vioblk_io_ops serve_disk, dev_ops = (\<lambda>_. \<lparr>op_close = None, op_read = None, op_write = None, op_ctl = None\<rparr>),
     dev_open = (\<lambda>_ _ s. Inr (- ENODEV, s)), main_pt2 = 0x80000000, sleep_alarm = (\<lambda>_. (0, DevCond 0)),
     kmalloc_junk = zero_process, thread_junk = zero_thread, stack_junk = 0\<rparr>"

lemma demo_ks_fields: "pmem demo_ks = pmem demo_vm" "free_list demo_ks = free_list demo_vm" "satp demo_ks = satp demo_vm"
  "sstatus_sum demo_ks" "kfs demo_ks = prog_open" "curthr demo_ks = MainThread" "thrs demo_ks = static_threads"
  by (simp_all add: demo_ks_def ct.defs ks.defs demo_ct_def it.defs demo_it_def kt.defs demo_kt_def ts.defs Thread.demo_boot_def demo_vm_def)

lemma demo_ks_space: "wf_space (pmem demo_ks) 0x80000000 (set demo_pages)" "active_space_root demo_ks = 0x80000000"
  "free_prefix demo_ks demo_pages" "\<forall>n < 2 ^ 28. \<not> superpage (pmem demo_ks) 0x80000000 (ua n)"
  "frames sel_user (pmem demo_ks) 0x80000000 user_pages = []"
proof -
  show "active_space_root demo_ks = 0x80000000"
    using demo_root by (simp add: active_space_root_def active_space_mtag_def demo_ks_fields)
  show "free_prefix demo_ks demo_pages" using demo_prefix by (simp add: free_prefix_def demo_ks_fields)
  show "frames sel_user (pmem demo_ks) 0x80000000 user_pages = []" by (simp add: frames_def demo_ks_fields demo_space(3))
qed (use demo_space in \<open>simp_all add: demo_ks_fields\<close>)

text \<open>The main thread running the main process \<open>pr\<close>, with an empty user part.\<close>

definition demo_run :: "process \<Rightarrow> (u8 list vioblk, unit) ks" where
  "demo_run pr = demo_ks\<lparr>thrs := [MainThread \<mapsto> zero_thread\<lparr>t_proc := Some 0, t_state := THREAD_RUNNING\<rparr>],
     thrtab := static_thrtab, procs := [0 \<mapsto> pr]\<rparr>"

lemma demo_run_cur: "cur_proc (demo_run pr) = Inr (0, pr)"
proof (rule cur_procI)
  have c: "curthr (demo_run pr) = MainThread" by (simp add: demo_run_def demo_ks_fields(6))
  show "current_process (demo_run pr) = Inr (Some 0)"
    by (simp add: current_process_def running_thread_def c)
      (simp add: demo_run_def deref_def thread_process_def thread_at_def zero_thread_def
        static_thrtab_def NTHR_def MAIN_TID_def IDLE_TID_def)
qed (simp add: demo_run_def)

lemma demo_run_space: "user_space (demo_run pr) demo_pages {}" "kfs (demo_run pr) = prog_open"
proof -
  have f: "pmem (demo_run pr) = pmem demo_vm" "satp (demo_run pr) = satp demo_vm" "sstatus_sum (demo_run pr)"
    "free_list (demo_run pr) = free_list demo_vm" by (simp_all add: demo_run_def demo_ks_fields)
  show "kfs (demo_run pr) = prog_open" by (simp add: demo_run_def demo_ks_fields)
  show "user_space (demo_run pr) demo_pages {}"
    using demo_user_space f by (simp add: user_space_def free_prefix_def own_frames_def active_space_root_def
        active_space_mtag_def demo_vm_def [THEN arg_cong, of sstatus_sum])
qed

lemma demo_run_upte: "active_space_root (demo_run pr) = 0x80000000" "upte (demo_run pr) n = None"
proof -
  show r: "active_space_root (demo_run pr) = 0x80000000"
    using demo_ks_space(2) by (simp add: active_space_root_def active_space_mtag_def demo_run_def)
  show "upte (demo_run pr) n = None"
    unfolding upte_def r by (simp add: demo_run_def demo_ks_fields demo_space(3))
qed

text \<open>The same with the page at distance 4096 from the start of the user part in use.\<close>

lemma demo_run_page:
  "\<exists>(st :: (u8 list vioblk, unit) ks) ps F g. cur_proc st = Inr (0, pr) \<and> kfs st = prog_open \<and>
     (\<exists>t. thrs st (curthr st) = Some t) \<and> active_space_root st = 0x80000000 \<and>
     wf_space (pmem st) 0x80000000 F \<and> set ps \<subseteq> F \<and> g \<in> F - {0} - set ps \<and> free_prefix st ps \<and> (\<forall>p \<in> set ps. p < 2 ^ 56) \<and>
     sstatus_sum st \<and> (\<forall>n < 2 ^ 28. \<not> superpage (pmem st) 0x80000000 (ua n)) \<and> 5 \<le> length ps \<and>
     upte st 4096 = Some (leaf_pte g (PTE_R OR PTE_W OR PTE_U)) \<and> frames sel_user (pmem st) 0x80000000 user_pages = [g]"
proof -
  let ?fl = "PTE_R OR PTE_W OR PTE_U" and ?st = "demo_run pr"
  have "3 \<le> length demo_pages" by (simp add: demo_pages_def)
  from map_user_page [OF demo_run_space(1) [of pr] this, of 1 ?fl] obtain st ps g where st: "user_space st ps {1}"
    "mm.more st = mm.more ?st" "upte st (4096 * 1) = Some (leaf_pte g ?fl)" "length demo_pages \<le> length ps + 3" "g \<in> set demo_pages"
    "pte_page (leaf_pte g ?fl) = g" "\<And>n. n < 2 ^ 28 \<Longrightarrow> n div 4096 \<noteq> 1 \<Longrightarrow> upte st n = upte ?st n"
    by auto
  note m = mm_more_cong [OF st(2)]
  have "current_process st = current_process ?st"
    using arg_cong [OF m, of thrs] arg_cong [OF m, of thrtab] arg_cong [OF m, of curthr] by (intro current_process_cong) simp_all
  then have cur: "cur_proc st = Inr (0, pr)"
    using cur_procE [OF demo_run_cur [of pr]] arg_cong [OF m, of procs] by (intro cur_procI) simp_all
  have f: "kfs st = prog_open" "\<exists>t. thrs st (curthr st) = Some t"
    using arg_cong [OF m, of kfs] arg_cong [OF m, of thrs] arg_cong [OF m, of curthr] demo_run_space(2)
    by (simp_all add: demo_run_def demo_ks_fields)
  have r: "active_space_root st = 0x80000000" using active_space_root_cong [OF st(2)] demo_run_upte(1) by simp
  obtain F where F: "wf_space (pmem st) 0x80000000 F" "set ps \<subseteq> F" "own_frames st {1} (F - set ps)"
    using st(1) unfolding user_space_def r by blast
  have "g \<in> F - set ps" using F(3) st(3,6) by (auto simp: own_frames_def)
  moreover have "g \<noteq> 0" using st(5) by (auto simp: demo_pages_def)
  moreover have "frames sel_user (pmem st) 0x80000000 user_pages = [g]"
    using frames_user_page [of st 1, OF st(3)] st(6,7) demo_run_upte(2) r by (simp add: sel_user_def leaf_pte_def pte_flag_defs)
  moreover have "5 \<le> length ps" using st(4) by (simp add: demo_pages_def)
  moreover have "free_prefix st ps" "\<forall>p \<in> set ps. p < 2 ^ 56" "sstatus_sum st" "\<forall>n < 2 ^ 28. \<not> superpage (pmem st) 0x80000000 (ua n)"
    using st(1) unfolding user_space_def r by blast+
  ultimately show ?thesis
    using st(3) cur f r F(1,2) by (intro exI [of _ st] exI [of _ ps] exI [of _ F] exI [of _ g]) simp
qed

theorem process_exec_correct_witness:
  "\<exists>(st :: (u8 list vioblk, unit) ks) a st' p. upte st 4096 = Some p \<and> sel_user p \<and>
     process_exec demo_env (FileIo 0) st = Inr (EnterUser a USER_STACK_VMA 0xC0000000, st') \<and>
     loaded demo_prog prog_phdr st' \<and> \<not> selected sel_user (upte st' 4096)"
proof -
  obtain st :: "(u8 list vioblk, unit) ks" and ps F g t where st: "cur_proc st = Inr (0, zero_process)" "kfs st = prog_open"
      "thrs st (curthr st) = Some t" "active_space_root st = 0x80000000" "wf_space (pmem st) 0x80000000 F" "set ps \<subseteq> F"
      "g \<in> F - {0} - set ps" "free_prefix st ps" "\<forall>p \<in> set ps. p < 2 ^ 56" "sstatus_sum st"
      "\<forall>n < 2 ^ 28. \<not> superpage (pmem st) 0x80000000 (ua n)" "5 \<le> length ps"
      "upte st 4096 = Some (leaf_pte g (PTE_R OR PTE_W OR PTE_U))" "frames sel_user (pmem st) 0x80000000 user_pages = [g]"
    using demo_run_page by blast
  have e: "e_entry prog_ehdr = 0xC0000000" by (simp add: prog_ehdr_def)
  have room: "3 * sum_list (map (\<lambda>j. seg_count (phdr_at demo_prog prog_ehdr j)) (load_indices demo_prog prog_ehdr)) \<le>
      length (frames sel_user (pmem st) 0x80000000 user_pages) + length ps"
    unfolding demo_prog_segment(3) st(14) using st(12) by (simp add: demo_prog_headers(2) demo_prog_segment(2))
  have fr: "set (frames sel_user (pmem st) 0x80000000 user_pages) \<subseteq> F - {0}"
    "distinct (frames sel_user (pmem st) 0x80000000 user_pages @ ps)"
    unfolding st(14) using mm_prefix.pool_distinct [OF st(8)] st(7) by simp_all
  have en: "USER_START_VMA \<le> e_entry (ehdr_of (take 64 demo_prog))" "e_entry (ehdr_of (take 64 demo_prog)) < USER_END_VMA"
    unfolding demo_prog_headers(1) e by (simp_all add: USER_START_VMA_def USER_END_VMA_def)
  have "blk_ops demo_env = vioblk_io_ops serve_disk" by (simp add: demo_env_def)
  from process_exec_correct [OF serve_disk_ok this prog_open_ok(1) [folded st(2)] prog_open_ok(3) [folded st(2)]
      prog_open_ok(2) [folded st(2)] demo_prog_ok st(5,4,8,6,9,10,11) fr st(3,1) en room [folded demo_prog_headers(1)]]
  obtain st' ps' where r: "process_exec demo_env (FileIo 0) st = Inr (EnterUser (stack_base t) USER_STACK_VMA 0xC0000000, st')"
      "loaded demo_prog prog_phdr st'" "\<forall>n < 2 ^ 28. n div 4096 \<notin> seg_pages prog_phdr \<longrightarrow> \<not> selected sel_user (upte st' n)"
    unfolding demo_prog_headers(1) demo_prog_segment(3) e by (auto simp: demo_prog_headers(2))
  have "1 \<notin> seg_pages prog_phdr" unfolding seg_pages_def demo_prog_segment(2) by (simp add: seg_start_def prog_phdr_def)
  then have "\<not> selected sel_user (upte st' 4096)" using r(3) [rule_format, of 4096] by simp
  moreover have "sel_user (leaf_pte g (PTE_R OR PTE_W OR PTE_U))" by (simp add: sel_user_def leaf_pte_def pte_flag_defs)
  ultimately show ?thesis using st(13) r(1,2) by blast
qed

end
