(* ===== verification/Signals.thy ===== *)
theory Signals
  imports Process
begin

text \<open>
  Delivery of signals, \<open>kern/signals.c\<close>: on the way back to user mode the lowest pending signal that
  is not blocked is taken off the set of pending signals and handled. The signals are the bits of
  a 64-bit mask; the delivery works on the lower 32 bits of it.
\<close>

section \<open>Operations\<close>

definition SIGTERM :: nat where "SIGTERM = 1"
definition SIGKILL :: nat where "SIGKILL = 2"

definition signal_handle :: "('d, 'w) kenv \<Rightarrow> nat \<Rightarrow> ('d, 'w, 'a) ks_scheme \<Rightarrow> (sysret \<times> ('d, 'w, 'a) ks_scheme) res option" where
  "signal_handle env sig st =
     bind_opt (Some (cur_proc st)) (\<lambda>(p, pr).
       if signal_handler pr ! sig = 0 then
         if sig = SIGTERM then bind_opt (process_exit env st) (\<lambda>st. Some (Inr (Suspended, st)))
         else Some (Inr (Ret 0, st))
       else Some (Inr (Ret 0, st)))"

text \<open>
  The masks are 32-bit numbers, so clearing the bit of a signal clears the upper half of the
  pending set as well.
\<close>

definition signal_deliver :: "('d, 'w) kenv \<Rightarrow> ('d, 'w, 'a) ks_scheme \<Rightarrow> (sysret \<times> ('d, 'w, 'a) ks_scheme) res option" where
  "signal_deliver env st =
     bind_opt (Some (cur_proc st)) (\<lambda>(p, pr).
       let unmasked = (ucast (pending_signals pr AND NOT (blocked_signals pr)) :: u32) in
       if unmasked = 0 then Some (Inr (Ret 0, st))
       else case List.find (\<lambda>sig. unmasked AND push_bit sig 1 \<noteq> 0) [1..<NSIG] of
              None \<Rightarrow> Some (Inr (Ret 0, st))
            | Some sig \<Rightarrow>
                let mask = (push_bit sig 1 :: u32);
                    st = set_proc p (pr\<lparr>pending_signals := pending_signals pr AND ucast (NOT mask)\<rparr>) st
                in signal_handle env sig st)"

section \<open>Properties\<close>

text \<open>The signals a process would take, and the one it takes next.\<close>

definition deliverable :: "process \<Rightarrow> nat \<Rightarrow> bool" where
  "deliverable pr sig \<longleftrightarrow> 1 \<le> sig \<and> sig < NSIG \<and> bit (pending_signals pr) sig \<and> \<not> bit (blocked_signals pr) sig"

lemma unmasked_bit:
  assumes "sig < 32"
  shows "(ucast (a AND NOT b :: u64) :: u32) AND push_bit sig 1 \<noteq> 0 \<longleftrightarrow> bit a sig \<and> \<not> bit b sig"
  unfolding bit_iff_and_push_bit_not_eq_0 [symmetric] using assms by (simp add: bit_simps)

lemma find_upt_least:
  "List.find P [a..<b] = (if \<exists>x \<in> {a..<b}. P x then Some (LEAST x. x \<in> {a..<b} \<and> P x) else None)"
proof (induction "b - a" arbitrary: a)
  case (Suc n)
  have u: "[a..<b] = a # [Suc a..<b]" "{a..<b} = insert a {Suc a..<b}" using Suc.hyps(2) by (auto simp: upt_conv_Cons)
  show ?case
  proof (cases "P a")
    case True
    then have "(LEAST x. x \<in> {a..<b} \<and> P x) = a" using Suc.hyps(2) by (intro Least_equality) auto
    then show ?thesis using True Suc.hyps(2) by (auto simp: upt_conv_Cons)
  next
    case False
    then have "(x \<in> {a..<b} \<and> P x) = (x \<in> {Suc a..<b} \<and> P x)" for x using u(2) by auto
    then show ?thesis using False Suc.hyps(1) [of "Suc a"] Suc.hyps(2) unfolding u(1) by (simp add: Bex_def) blast
  qed
qed simp

lemma find_signal:
  "List.find (\<lambda>sig. (ucast (pending_signals pr AND NOT (blocked_signals pr)) :: u32) AND push_bit sig 1 \<noteq> 0) [1..<NSIG] =
     (if \<exists>sig. deliverable pr sig then Some (LEAST sig. deliverable pr sig) else None)"
proof -
  have "(x \<in> {1..<NSIG} \<and> (ucast (pending_signals pr AND NOT (blocked_signals pr)) :: u32) AND push_bit x 1 \<noteq> 0) =
      deliverable pr x" for x
    using unmasked_bit [of x "pending_signals pr" "blocked_signals pr"] by (auto simp: deliverable_def NSIG_def)
  then show ?thesis unfolding find_upt_least Bex_def by presburger
qed

lemma unmasked_zero: "(ucast (a AND NOT b :: u64) :: u32) = 0 \<Longrightarrow> sig < 32 \<Longrightarrow> \<not> (bit a sig \<and> \<not> bit b sig)"
  using unmasked_bit [of sig a b] by simp

section \<open>Correctness properties\<close>

text \<open>
  C33. \<open>signal_deliver\<close> takes the lowest pending signal that is not blocked. That signal is no longer
  pending, every other signal of the 32 is pending as before, and the process exits if the signal
  is \<open>SIGTERM\<close> with the default action; every other signal has no effect. With no such signal
  nothing changes.
\<close>

theorem signal_deliver_correct:
  assumes cur: "cur_proc st = Inr (p, pr)"
  shows "if \<forall>sig. \<not> deliverable pr sig then signal_deliver env st = Some (Inr (Ret 0, st))
    else \<exists>sig pr'. deliverable pr sig \<and> (\<forall>j < sig. \<not> deliverable pr j) \<and>
      pr' = pr\<lparr>pending_signals := pending_signals pr'\<rparr> \<and>
      (\<forall>n < 32. bit (pending_signals pr') n \<longleftrightarrow> bit (pending_signals pr) n \<and> n \<noteq> sig) \<and>
      signal_deliver env st =
        (if sig = SIGTERM \<and> signal_handler pr ! SIGTERM = 0
         then bind_opt (process_exit env (set_proc p pr' st)) (\<lambda>st. Some (Inr (Suspended, st)))
         else Some (Inr (Ret 0, set_proc p pr' st)))"
proof (cases "\<exists>sig. deliverable pr sig")
  case False
  then show ?thesis using cur find_signal [of pr] by (auto simp: signal_deliver_def Let_def)
next
  case True
  define sig where "sig = (LEAST sig. deliverable pr sig)"
  have sig: "deliverable pr sig" "\<forall>j < sig. \<not> deliverable pr j"
    using True not_less_Least unfolding sig_def by (auto intro: LeastI_ex)
  define pr' where "pr' = pr\<lparr>pending_signals := pending_signals pr AND ucast (NOT (push_bit sig 1) :: u32)\<rparr>"
  have nz: "(ucast (pending_signals pr AND NOT (blocked_signals pr)) :: u32) \<noteq> 0"
    using unmasked_zero sig(1) by (fastforce simp: deliverable_def NSIG_def)
  have "\<forall>n < 32. bit (pending_signals pr') n \<longleftrightarrow> bit (pending_signals pr) n \<and> n \<noteq> sig"
    by (auto simp: pr'_def bit_simps)
  moreover have "signal_deliver env st = signal_handle env sig (set_proc p pr' st)"
    unfolding signal_deliver_def cur bind_opt_simps case_prod_conv Let_def find_signal if_P [OF True] if_not_P [OF nz] option.case
      pr'_def sig_def ..
  moreover have "cur_proc (set_proc p pr' st) = Inr (p, pr')" "signal_handler pr' = signal_handler pr"
    using cur by (simp_all add: cur_proc_set) (simp add: pr'_def)
  then have "signal_handle env sig (set_proc p pr' st) =
      (if sig = SIGTERM \<and> signal_handler pr ! SIGTERM = 0
       then bind_opt (process_exit env (set_proc p pr' st)) (\<lambda>st. Some (Inr (Suspended, st)))
       else Some (Inr (Ret 0, set_proc p pr' st)))"
    by (simp add: signal_handle_def)
  moreover have "pr' = pr\<lparr>pending_signals := pending_signals pr'\<rparr>" by (simp add: pr'_def)
  ultimately show ?thesis using sig True by auto
qed

theorem signal_deliver_correct_witness:
  "\<exists>pr'. signal_deliver demo_env (demo_run (zero_process\<lparr>pending_signals := 0x28\<rparr>)) =
     Some (Inr (Ret 0, set_proc 0 pr' (demo_run (zero_process\<lparr>pending_signals := 0x28\<rparr>)))) \<and>
     bit (pending_signals pr') 5 \<and> \<not> bit (pending_signals pr') 3"
proof -
  let ?pr = "zero_process\<lparr>pending_signals := 0x28\<rparr>"
  have d: "deliverable ?pr n \<longleftrightarrow> n = 3 \<or> n = 5" for n
  proof -
    have "bit (0x28 :: u64) n \<longleftrightarrow> n = 3 \<or> n = 5" if "n < 10"
    proof -
      from that have "n \<in> {0, 1, 2, 3, 4, 5, 6, 7, 8, 9}" by auto
      then show ?thesis by auto
    qed
    then show ?thesis by (auto simp: deliverable_def NSIG_def zero_process_def)
  qed
  have "\<not> (\<forall>sig. \<not> deliverable ?pr sig)" unfolding d by blast
  note s = signal_deliver_correct [OF demo_run_cur [of ?pr], of demo_env, unfolded if_not_P [OF this]]
  obtain sig pr' where r: "deliverable ?pr sig" "\<forall>j < sig. \<not> deliverable ?pr j"
    "\<forall>n < 32. bit (pending_signals pr') n \<longleftrightarrow> bit (pending_signals ?pr) n \<and> n \<noteq> sig"
    "signal_deliver demo_env (demo_run ?pr) =
        (if sig = SIGTERM \<and> signal_handler ?pr ! SIGTERM = 0
         then bind_opt (process_exit demo_env (set_proc 0 pr' (demo_run ?pr))) (\<lambda>st. Some (Inr (Suspended, st)))
         else Some (Inr (Ret 0, set_proc 0 pr' (demo_run ?pr))))"
    using s by blast
  have "sig = 3" using r(1,2) unfolding d by (metis less_numeral_extra(4) linorder_neqE_nat numeral_less_iff semiring_norm(78,79,76,77,80,81))
  then show ?thesis using r(3,4) by (auto simp: SIGTERM_def)
qed

end
