(* ===== verification/Syscall.thy ===== *)
theory Syscall
  imports Signals
begin

text \<open>
  The system calls of \<open>kern/syscall.c\<close> and the exception handlers of \<open>kern/excp.c\<close> that lead to
  them. Arguments are the registers of the trap frame; pointers are virtual addresses of the
  calling process, read and written through its page table. A register passed for a C \<open>int\<close> is
  cut to 32 bits and read as signed.

  Of the messages the kernel prints only those of \<open>sysmsgout\<close> and of an unhandled exception are
  kept.
\<close>

section \<open>Arguments\<close>

record trap_frame =
  tf_x :: "u64 list"
  tf_sstatus :: u64
  tf_sepc :: u64

definition TFR_A0 :: nat where "TFR_A0 = 10"

definition areg :: "trap_frame \<Rightarrow> nat \<Rightarrow> u64" where
  "areg tfr i = tf_x tfr ! (TFR_A0 + i)"

definition c_int :: "u64 \<Rightarrow> int" where
  "c_int w = sint (ucast w :: u32)"

text \<open>A string of the calling process, up to its terminator.\<close>

partial_function (option) user_str_loop :: "'a vm_scheme \<Rightarrow> u64 \<Rightarrow> string \<Rightarrow> string res option" where
  "user_str_loop st va s =
     (case vload st va of
        Inl e \<Rightarrow> Some (Inl e)
      | Inr b \<Rightarrow> if b = 0 then Some (Inr s) else user_str_loop st (va + 1) (s @ [char_of (unat b)]))"

definition user_str :: "'a vm_scheme \<Rightarrow> u64 \<Rightarrow> string res option" where
  "user_str st va = user_str_loop st va []"

text \<open>\<open>strncpy\<close> with the destination in the memory of the process.\<close>

fun user_strncpy :: "u64 \<Rightarrow> string \<Rightarrow> nat \<Rightarrow> 'a vm_scheme \<Rightarrow> 'a vm_scheme res" where
  "user_strncpy dst [] n st = (if n \<noteq> 0 then Inl UndefinedAccess else Inr st)"
| "user_strncpy dst (c # src) n st =
     (if n \<noteq> 0 \<and> c \<noteq> NUL then bind_res (vstore dst (of_char c) st) (user_strncpy (dst + 1) src (n - 1))
      else if n \<noteq> 0 then vstore dst 0 st else Inr st)"

definition le_bytes :: "nat \<Rightarrow> u64 \<Rightarrow> u8 list" where
  "le_bytes n w = map (\<lambda>i. ucast (drop_bit (8 * i) w)) [0..<n]"

definition of_le_bytes :: "u8 list \<Rightarrow> u64" where
  "of_le_bytes bs = foldr (\<lambda>b w. ucast b OR push_bit 8 w) bs 0"

section \<open>Calls\<close>

type_synonym ('d, 'w, 'a) sysres = "(sysret \<times> ('d, 'w, 'a) ks_scheme) res option"

definition sysexit :: "('d, 'w) kenv \<Rightarrow> ('d, 'w, 'a) ks_scheme \<Rightarrow> ('d, 'w, 'a) sysres" where
  "sysexit env st = bind_opt (process_exit env st) (\<lambda>st. Some (Inr (Suspended, st)))"

definition sysmsgout :: "u64 \<Rightarrow> ('d, 'w, 'a) ks_scheme \<Rightarrow> ('d, 'w, 'a) sysres" where
  "sysmsgout msg st =
     bind_opt (memory_validate_vstr (vload st) msg PTE_U st) (\<lambda>result.
       if result \<noteq> 0 then Some (Inr (Ret result, st))
       else
         bind_opt (Some (running_thread st)) (\<lambda>tid.
         bind_opt (Some (thread_name tid st)) (\<lambda>name.
         bind_opt (user_str st msg) (\<lambda>s.
         bind_opt (Some (console_printf (''Thread <%s:%d> says: %s'' @ [cLF, NUL])
             [VStr (Some (name @ [NUL])), VWord (of_int tid), VStr (Some (s @ [NUL]))] st)) (\<lambda>(_, st).
           Some (Inr (Ret 0, st)))))))"

definition sysdevopen ::
    "('d, 'w) kenv \<Rightarrow> int \<Rightarrow> u64 \<Rightarrow> int \<Rightarrow> ('d, 'w, 'a) ks_scheme \<Rightarrow> ('d, 'w, 'a) sysres" where
  "sysdevopen env fd name instno st =
     (if fd < 0 \<or> int PROCESS_IOMAX \<le> fd then Some (Inr (Ret (- EMFILE), st))
      else
        bind_opt (memory_validate_vstr (vload st) name PTE_U st) (\<lambda>v.
          if v \<noteq> 0 then Some (Inr (Ret (- EINVAL), st))
          else
            bind_opt (user_str st name) (\<lambda>s.
            bind_opt (Some (device_open (dev_open env) (devices st) s instno (devs st, dev_refs st, None)))
              (\<lambda>(result, w, refs, dev_io).
                let st = st\<lparr>devs := w, dev_refs := refs\<rparr> in
                if result < 0 then Some (Inr (Ret result, st))
                else
                  bind_opt (Some (cur_proc st)) (\<lambda>(p, pr).
                    Some (Inr (Ret result, set_proc p (pr\<lparr>iotab := (iotab pr)[nat fd := dev_io]\<rparr>) st)))))))"

definition sysfsopen :: "('d, 'w) kenv \<Rightarrow> int \<Rightarrow> u64 \<Rightarrow> ('d, 'w, 'a) ks_scheme \<Rightarrow> ('d, 'w, 'a) sysres" where
  "sysfsopen env fd name st =
     (if fd < 0 \<or> int PROCESS_IOMAX \<le> fd then Some (Inr (Ret (- EMFILE), st))
      else
        bind_opt (memory_validate_vstr (vload st) name (PTE_U OR PTE_A) st) (\<lambda>v.
          if v \<noteq> 0 then Some (Inr (Ret (- EINVAL), st))
          else
            bind_opt (user_str st name) (\<lambda>s.
            bind_opt (Some (fs_open (blk_ops env) s (kfs st))) (\<lambda>((result, k), fs).
              let st = st\<lparr>kfs := fs\<rparr> in
              if result < 0 then Some (Inr (Ret result, st))
              else
                bind_opt (Some (cur_proc st)) (\<lambda>(p, pr).
                  Some (Inr (Ret result, set_proc p (pr\<lparr>iotab := (iotab pr)[nat fd := map_option FileIo k]\<rparr>) st)))))))"

text \<open>The check of a descriptor the calls on open objects begin with.\<close>

definition fd_object :: "process \<Rightarrow> int \<Rightarrow> ioptr option" where
  "fd_object pr fd = (if fd < 0 \<or> int PROCESS_IOMAX \<le> fd then None else iotab pr ! nat fd)"

definition sysclose :: "('d, 'w) kenv \<Rightarrow> int \<Rightarrow> ('d, 'w, 'a) ks_scheme \<Rightarrow> ('d, 'w, 'a) sysres" where
  "sysclose env fd st =
     bind_opt (Some (cur_proc st)) (\<lambda>(p, pr).
       case fd_object pr fd of
         None \<Rightarrow> Some (Inr (Ret (- EBADFD), st))
       | Some io \<Rightarrow>
           bind_opt (Some (obj_close env io st)) (\<lambda>st.
           bind_opt (Some (get_proc (Some p) st)) (\<lambda>pr.
             Some (Inr (Ret 0, set_proc p (pr\<lparr>iotab := (iotab pr)[nat fd := None]\<rparr>) st)))))"

definition sysread :: "('d, 'w) kenv \<Rightarrow> int \<Rightarrow> u64 \<Rightarrow> u64 \<Rightarrow> ('d, 'w, 'a) ks_scheme \<Rightarrow> ('d, 'w, 'a) sysres" where
  "sysread env fd buf bufsz st =
     bind_opt (Some (cur_proc st)) (\<lambda>(p, pr).
       case fd_object pr fd of
         None \<Rightarrow> Some (Inr (Ret (- EBADFD), st))
       | Some io \<Rightarrow>
           bind_opt (memory_validate_vptr_len buf bufsz (PTE_W OR PTE_U) st) (\<lambda>v.
             if v \<noteq> 0 then Some (Inr (Ret (- EINVAL), st))
             else
               bind_opt (Some (obj_read env io (unat bufsz) st)) (\<lambda>(r, bs, st).
               bind_opt (Some (vstore_bytes buf bs st)) (\<lambda>st. Some (Inr (Ret r, st))))))"

definition syswrite :: "('d, 'w) kenv \<Rightarrow> int \<Rightarrow> u64 \<Rightarrow> u64 \<Rightarrow> ('d, 'w, 'a) ks_scheme \<Rightarrow> ('d, 'w, 'a) sysres" where
  "syswrite env fd buf len st =
     bind_opt (Some (cur_proc st)) (\<lambda>(p, pr).
       case fd_object pr fd of
         None \<Rightarrow> Some (Inr (Ret (- EBADFD), st))
       | Some io \<Rightarrow>
           bind_opt (memory_validate_vptr_len buf len (PTE_R OR PTE_U) st) (\<lambda>v.
             if v \<noteq> 0 then Some (Inr (Ret (- EINVAL), st))
             else
               bind_opt (Some (vload_bytes st buf (unat len))) (\<lambda>bs.
               bind_opt (Some (obj_write env io bs st)) (\<lambda>(r, st). Some (Inr (Ret r, st))))))"

text \<open>
  \<open>sysioctl\<close>: the argument is a 64-bit number in the memory of the process, which the operation
  reads or writes.
\<close>

definition sysioctl :: "('d, 'w) kenv \<Rightarrow> int \<Rightarrow> int \<Rightarrow> u64 \<Rightarrow> ('d, 'w, 'a) ks_scheme \<Rightarrow> ('d, 'w, 'a) sysres" where
  "sysioctl env fd cmd arg st =
     bind_opt (Some (cur_proc st)) (\<lambda>(p, pr).
       case fd_object pr fd of
         None \<Rightarrow> Some (Inr (Ret (- EBADFD), st))
       | Some io \<Rightarrow>
           if arg = 0 then Some (Inr (Ret (- EINVAL), st))
           else if cmd \<in> {IOCTL_GETLEN, IOCTL_GETPOS, IOCTL_GETBLKSZ} then
             bind_opt (memory_validate_vptr_len arg 8 (PTE_W OR PTE_U) st) (\<lambda>v.
               if v \<noteq> 0 then Some (Inr (Ret (- EINVAL), st))
               else
                 bind_opt (Some (obj_ctl env io cmd 0 st)) (\<lambda>(r, v, st).
                   if r = 0 then bind_opt (Some (vstore_bytes arg (le_bytes 8 v) st)) (\<lambda>st. Some (Inr (Ret r, st)))
                   else Some (Inr (Ret r, st))))
           else if cmd = IOCTL_SETPOS then
             bind_opt (memory_validate_vptr_len arg 8 (PTE_R OR PTE_W OR PTE_U) st) (\<lambda>v.
               if v \<noteq> 0 then Some (Inr (Ret (- EINVAL), st))
               else
                 bind_opt (Some (vload_bytes st arg 8)) (\<lambda>bs.
                 bind_opt (Some (obj_ctl env io cmd (of_le_bytes bs) st)) (\<lambda>(r, v, st). Some (Inr (Ret r, st)))))
           else Some (Inr (Ret (- ENOTSUP), st)))"

definition sysexec :: "('d, 'w) kenv \<Rightarrow> int \<Rightarrow> ('d, 'w, 'a) ks_scheme \<Rightarrow> ('d, 'w, 'a) sysres" where
  "sysexec env fd st =
     bind_opt (Some (cur_proc st)) (\<lambda>(p, pr).
       case fd_object pr fd of
         None \<Rightarrow> Some (Inr (Ret (- EBADFD), st))
       | Some io \<Rightarrow> Some (process_exec env io (set_proc p (pr\<lparr>iotab := (iotab pr)[nat fd := None]\<rparr>) st)))"

text \<open>
  \<open>syswait\<close> up to the point where it returns or waits; a thread that waits evaluates the condition
  of its join again when it is woken.
\<close>

definition syswait :: "int \<Rightarrow> ('d, 'w, 'a) ks_scheme \<Rightarrow> ('d, 'w, 'a) sysres" where
  "syswait tid st =
     bind_opt (Some (if tid = 0 then thread_join_any st else thread_join_step tid st)) (\<lambda>(j, st).
       Some (Inr (case j of Joined r \<Rightarrow> Ret r | Waiting \<Rightarrow> Suspended, st)))"

definition sysusleep :: "('d, 'w) kenv \<Rightarrow> u64 \<Rightarrow> ('d, 'w, 'a) ks_scheme \<Rightarrow> ('d, 'w, 'a) sysres" where
  "sysusleep env us st =
     (if us = 0 then Some (Inr (Ret (- EINVAL), st))
      else
        bind_opt (Some (running_thread st)) (\<lambda>tid.
          let (al, c) = sleep_alarm env tid;
              st = alarm_init al c st;
              ticks = us * TIMER_FREQ div 1000000;
              me = curthr st
          in bind_opt (alarm_sleep al ticks st) (\<lambda>st.
               Some (Inr (if curthr st = me then Ret 0 else Suspended, st)))))"

text \<open>Copying the descriptors to the child, with a reference for each.\<close>

definition fork_fd :: "nat \<Rightarrow> nat \<Rightarrow> nat \<Rightarrow> ('d, 'w, 'a) ks_scheme \<Rightarrow> ('d, 'w, 'a) ks_scheme res" where
  "fork_fd parent cp j st =
     bind_res (get_proc (Some parent) st) (\<lambda>pr.
       let st = (case iotab pr ! j of None \<Rightarrow> st | Some io \<Rightarrow> obj_ref io st) in
       bind_res (get_proc (Some cp) st) (\<lambda>cr.
         Inr (set_proc cp (cr\<lparr>iotab := (iotab cr)[j := iotab pr ! j]\<rparr>) st)))"

text \<open>
  The first free slot of the process table, and the structure allocated for it, whose contents are
  those the memory had. If the heap gave out the memory of a process that exists, the two would
  share their fields, which the model does not follow: that is the fault \<open>UndefinedAccess\<close>.
\<close>

definition alloc_proc :: "('d, 'w) kenv \<Rightarrow> ('d, 'w, 'a) ks_scheme \<Rightarrow> (nat \<times> nat \<times> ('d, 'w, 'a) ks_scheme) res" where
  "alloc_proc env st =
     (case List.find (\<lambda>i. proctab st ! i = None) [0..<NPROC] of
        None \<Rightarrow> Inl UndefinedAccess
      | Some i \<Rightarrow>
          bind_res (kmalloc sizeof_process st) (\<lambda>(a, st).
            if a = 0 then Inr (i, unat a, st\<lparr>proctab := (proctab st)[i := None]\<rparr>)
            else if procs st (unat a) \<noteq> None then Inl UndefinedAccess
            else Inr (i, unat a,
              st\<lparr>proctab := (proctab st)[i := Some (unat a)], procs := (procs st)(unat a \<mapsto> kmalloc_junk env)\<rparr>)))"

text \<open>
  \<open>sysfork\<close>. With no free slot \<open>child_proc\<close> is an uninitialised pointer. When the fork fails the
  structure of the child is cleared first, and the slot of its process number, by then 0, after.
  The parent of a successful fork returns the number of the child when it runs again.
\<close>

definition sysfork :: "('d, 'w) kenv \<Rightarrow> ('d, 'w, 'a) ks_scheme \<Rightarrow> ('d, 'w, 'a) sysres" where
  "sysfork env st =
     bind_opt (Some (alloc_proc env st)) (\<lambda>(i, cp, st).
       if cp = 0 then Some (Inr (Ret (- 1), st))
       else
         bind_opt (Some (cur_proc st)) (\<lambda>(parent, _).
         bind_opt (Some (get_proc (Some cp) st)) (\<lambda>cr.
         let id = (case List.find (\<lambda>i. proctab st ! i = Some cp) [0..<NPROC] of
                     None \<Rightarrow> proc_id cr | Some i \<Rightarrow> int i);
             st = set_proc cp (cr\<lparr>proc_id := id, proc_tid := - 1\<rparr>) st;
             st = st\<lparr>proc_mtag := (proc_mtag st)(cp := 0)\<rparr> in
         bind_opt (Some (foldM (fork_fd parent cp) [0..<PROCESS_IOMAX] st)) (\<lambda>st.
         bind_opt (Some (thread_fork_to_user env cp st)) (\<lambda>(r, st).
           case r of
             Ret result \<Rightarrow>
               let st = set_proc cp zero_process st;
                   st = st\<lparr>proc_mtag := (proc_mtag st)(cp := 0), proctab := (proctab st)[0 := None]\<rparr>
               in bind_opt (Some (foldM (\<lambda>j st. bind_res (get_proc (Some parent) st) (\<lambda>pr.
                      case iotab pr ! j of None \<Rightarrow> Inr st | Some io \<Rightarrow> obj_close env io st)) [0..<PROCESS_IOMAX] st))
                    (\<lambda>st. Some (Inr (Ret result, st)))
           | _ \<Rightarrow> Some (Inr (r, st)))))))"

definition sysfork_resumed :: "nat \<Rightarrow> ('d, 'w, 'a) ks_scheme \<Rightarrow> ('d, 'w, 'a) sysres" where
  "sysfork_resumed cp st = bind_opt (Some (get_proc (Some cp) st)) (\<lambda>cr. Some (Inr (Ret (proc_id cr), st)))"

text \<open>
  \<open>syssignal\<close>: the return after \<open>SIGKILL\<close> gives no value, and the shift \<open>1 << sig\<close> is undefined for
  numbers the type \<open>int\<close> cannot hold.
\<close>

definition syssignal :: "('d, 'w) kenv \<Rightarrow> int \<Rightarrow> int \<Rightarrow> ('d, 'w, 'a) ks_scheme \<Rightarrow> ('d, 'w, 'a) sysres" where
  "syssignal env pid sig st =
     (case find_process_by_pid pid st of
        None \<Rightarrow> Some (Inr (Ret (- EINVAL), st))
      | Some p \<Rightarrow>
          bind_opt (Some (get_proc (Some p) st)) (\<lambda>pr.
            if sig = int SIGKILL then
              bind_opt (process_terminate env pid st) (\<lambda>(returned, st).
                if returned then Some (Inl UndefinedAccess) else Some (Inr (Suspended, st)))
            else if sig < 0 \<or> 31 \<le> sig then Some (Inl UndefinedAccess)
            else Some (Inr (Ret 0, set_proc p (pr\<lparr>pending_signals := pending_signals pr OR push_bit (nat sig) 1\<rparr>) st))))"

text \<open>
  \<open>sysrunningprocs\<close>: slot \<open>i\<close> of the table, with the place for the next name and the count. The
  count starts with whatever the variable held.
\<close>

definition proc_entry ::
    "u64 \<Rightarrow> nat \<Rightarrow> u64 \<times> int \<times> ('d, 'w, 'a) ks_scheme \<Rightarrow> (u64 \<times> int \<times> ('d, 'w, 'a) ks_scheme) res" where
  "proc_entry pids i s =
     (case s of (names, num_written, st) \<Rightarrow>
        case proctab st ! i of
          None \<Rightarrow> Inr (names, num_written, st)
        | Some p \<Rightarrow>
            bind_res (get_proc (Some p) st) (\<lambda>pr.
            bind_res (vstore_bytes (pids + 4 * of_nat i) (le_bytes 4 (of_int (proc_id pr))) st) (\<lambda>st.
            bind_res (get_thread_name (proc_tid pr) st) (\<lambda>name.
            bind_res (vstore (names + of_nat FS_NAMELEN - 1) 0 st) (\<lambda>st.
            bind_res (user_strncpy names (name @ [NUL]) FS_NAMELEN st) (\<lambda>st.
              Inr (names + of_nat FS_NAMELEN, num_written + 1, st)))))))"

definition sysrunningprocs :: "('d, 'w) kenv \<Rightarrow> u64 \<Rightarrow> u64 \<Rightarrow> ('d, 'w, 'a) ks_scheme \<Rightarrow> ('d, 'w, 'a) sysres" where
  "sysrunningprocs env pids names st =
     bind_opt (Some (foldM (proc_entry pids) [0..<NPROC] (names, stack_junk env, st))) (\<lambda>(_, n, st). Some (Inr (Ret n, st)))"

definition sysnumprograms :: "u64 \<Rightarrow> ('d, 'w, 'a) ks_scheme \<Rightarrow> ('d, 'w, 'a) sysres" where
  "sysnumprograms arg st =
     (if arg = 0 then Some (Inr (Ret (- EINVAL), st))
      else
        bind_opt (Some (vstore_bytes arg (le_bytes 4 (ucast (num_inodes (boot_block (kfs st))))) st)) (\<lambda>st.
          Some (Inr (Ret 0, st))))"

definition prog_name :: "nat \<Rightarrow> u64 \<times> ('d, 'w, 'a) ks_scheme \<Rightarrow> (u64 \<times> ('d, 'w, 'a) ks_scheme) res" where
  "prog_name i s =
     (case s of (arg, st) \<Rightarrow>
        if 63 \<le> i then Inl UndefinedAccess
        else
          bind_res (user_strncpy arg (map (\<lambda>c. char_of (unat c)) (dentry_name (boot_block (kfs st)) i)) FS_NAMELEN st) (\<lambda>st.
            Inr (arg + of_nat FS_NAMELEN, st)))"

definition sysprognames :: "u64 \<Rightarrow> ('d, 'w, 'a) ks_scheme \<Rightarrow> ('d, 'w, 'a) sysres" where
  "sysprognames arg st =
     (if arg = 0 then Some (Inr (Ret (- EINVAL), st))
      else
        bind_opt (Some (foldM prog_name [0..<unat (num_inodes (boot_block (kfs st)))] (arg, st))) (\<lambda>(_, st).
          Some (Inr (Ret 0, st))))"

section \<open>Dispatch\<close>

definition SYSCALL_EXIT :: u64 where "SYSCALL_EXIT = 0"
definition SYSCALL_MSGOUT :: u64 where "SYSCALL_MSGOUT = 1"
definition SYSCALL_DEVOPEN :: u64 where "SYSCALL_DEVOPEN = 10"
definition SYSCALL_FSOPEN :: u64 where "SYSCALL_FSOPEN = 11"
definition SYSCALL_CLOSE :: u64 where "SYSCALL_CLOSE = 20"
definition SYSCALL_READ :: u64 where "SYSCALL_READ = 21"
definition SYSCALL_WRITE :: u64 where "SYSCALL_WRITE = 22"
definition SYSCALL_IOCTL :: u64 where "SYSCALL_IOCTL = 23"
definition SYSCALL_EXEC :: u64 where "SYSCALL_EXEC = 30"
definition SYSCALL_FORK :: u64 where "SYSCALL_FORK = 31"
definition SYSCALL_USLEEP :: u64 where "SYSCALL_USLEEP = 40"
definition SYSCALL_WAIT :: u64 where "SYSCALL_WAIT = 41"
definition SYSCALL_PROGNAMES :: u64 where "SYSCALL_PROGNAMES = 43"
definition SYSCALL_NUMPROGS :: u64 where "SYSCALL_NUMPROGS = 44"
definition SYSCALL_PROCS :: u64 where "SYSCALL_PROCS = 45"
definition SYSCALL_SIGNAL :: u64 where "SYSCALL_SIGNAL = 46"

lemmas syscall_numbers = SYSCALL_EXIT_def SYSCALL_MSGOUT_def SYSCALL_DEVOPEN_def SYSCALL_FSOPEN_def SYSCALL_CLOSE_def
  SYSCALL_READ_def SYSCALL_WRITE_def SYSCALL_IOCTL_def SYSCALL_EXEC_def SYSCALL_FORK_def SYSCALL_USLEEP_def
  SYSCALL_WAIT_def SYSCALL_PROGNAMES_def SYSCALL_NUMPROGS_def SYSCALL_PROCS_def SYSCALL_SIGNAL_def

definition syscall :: "('d, 'w) kenv \<Rightarrow> trap_frame \<Rightarrow> ('d, 'w, 'a) ks_scheme \<Rightarrow> ('d, 'w, 'a) sysres" where
  "syscall env tfr st =
     (let a = areg tfr; n = a 7 in
      if n = SYSCALL_EXIT then sysexit env st
      else if n = SYSCALL_MSGOUT then sysmsgout (a 0) st
      else if n = SYSCALL_DEVOPEN then sysdevopen env (c_int (a 0)) (a 1) (c_int (a 2)) st
      else if n = SYSCALL_FSOPEN then sysfsopen env (c_int (a 0)) (a 1) st
      else if n = SYSCALL_CLOSE then sysclose env (c_int (a 0)) st
      else if n = SYSCALL_READ then sysread env (c_int (a 0)) (a 1) (a 2) st
      else if n = SYSCALL_WRITE then syswrite env (c_int (a 0)) (a 1) (a 2) st
      else if n = SYSCALL_IOCTL then sysioctl env (c_int (a 0)) (c_int (a 1)) (a 2) st
      else if n = SYSCALL_EXEC then sysexec env (c_int (a 0)) st
      else if n = SYSCALL_WAIT then syswait (c_int (a 0)) st
      else if n = SYSCALL_USLEEP then sysusleep env (a 0) st
      else if n = SYSCALL_FORK then sysfork env st
      else if n = SYSCALL_SIGNAL then syssignal env (c_int (a 0)) (c_int (a 1)) st
      else if n = SYSCALL_NUMPROGS then sysnumprograms (a 0) st
      else if n = SYSCALL_PROGNAMES then sysprognames (a 0) st
      else if n = SYSCALL_PROCS then sysrunningprocs env (a 0) (a 1) st
      else Some (Inr (Ret (- EINVAL), st)))"

text \<open>The trap frame gets the result when the call returns; the frame of a thread that waits keeps its \<open>a0\<close>.\<close>

definition syscall_handler ::
    "('d, 'w) kenv \<Rightarrow> trap_frame \<Rightarrow> ('d, 'w, 'a) ks_scheme \<Rightarrow> (sysret \<times> trap_frame \<times> ('d, 'w, 'a) ks_scheme) res option" where
  "syscall_handler env tfr st =
     (let tfr = tfr\<lparr>tf_sepc := tf_sepc tfr + 4\<rparr> in
      bind_opt (syscall env tfr st) (\<lambda>(r, st).
        Some (Inr (r, case r of Ret v \<Rightarrow> tfr\<lparr>tf_x := (tf_x tfr)[TFR_A0 := of_int v]\<rparr> | _ \<Rightarrow> tfr, st))))"

section \<open>Exceptions\<close>

definition excp_names :: "string option list" where
  "excp_names = [Some ''Misaligned instruction address'', Some ''Instruction access fault'', Some ''Illegal instruction'',
     Some ''Breakpoint'', Some ''Misaligned load address'', Some ''Load access fault'', Some ''Misaligned store address'',
     Some ''Store access fault'', Some ''Environment call from U mode'', Some ''Environment call from S mode'', None, None,
     Some ''Instruction page fault'', Some ''Load page fault'', None, Some ''Store page fault'']"

text \<open>\<open>default_excp_handler\<close>: the console output and the panic without a message that follows.\<close>

definition default_excp_handler :: "nat \<Rightarrow> trap_frame \<Rightarrow> 'a ct_scheme \<Rightarrow> fault \<times> 'a ct_scheme" where
  "default_excp_handler cause tfr st =
     (let name = (if cause < length excp_names then excp_names ! cause else None) in
      case (case name of
              None \<Rightarrow> console_printf (''Exception %d at %p'' @ [cLF, NUL]) [VWord (of_nat cause), VWord (tf_sepc tfr)] st
            | Some n \<Rightarrow> console_printf (''%s at %p'' @ [cLF, NUL]) [VStr (Some (n @ [NUL])), VWord (tf_sepc tfr)] st) of
        Inl e \<Rightarrow> (e, st)
      | Inr (_, st) \<Rightarrow> (Panic [], st))"

definition smode_excp_handler :: "nat \<Rightarrow> trap_frame \<Rightarrow> ('d, 'w, 'a) ks_scheme \<Rightarrow> fault" where
  "smode_excp_handler cause tfr st = fst (default_excp_handler cause tfr st)"

definition ECALL_FROM_UMODE :: nat where "ECALL_FROM_UMODE = 8"
definition INSTR_PAGE_FAULT :: nat where "INSTR_PAGE_FAULT = 12"
definition LOAD_PAGE_FAULT :: nat where "LOAD_PAGE_FAULT = 13"
definition STORE_PAGE_FAULT :: nat where "STORE_PAGE_FAULT = 15"

text \<open>
  \<open>umode_excp_handler\<close>, with the faulting address \<open>stval\<close>. Signals are delivered when the handler
  comes back to the thread that trapped.
\<close>

definition umode_excp_handler ::
    "('d, 'w) kenv \<Rightarrow> u64 \<Rightarrow> nat \<Rightarrow> trap_frame \<Rightarrow> ('d, 'w, 'a) ks_scheme \<Rightarrow>
      (sysret \<times> trap_frame \<times> ('d, 'w, 'a) ks_scheme) res option" where
  "umode_excp_handler env stval cause tfr st =
     bind_opt
       (if cause \<in> {INSTR_PAGE_FAULT, LOAD_PAGE_FAULT, STORE_PAGE_FAULT}
        then bind_opt (Some (memory_handle_page_fault stval st)) (\<lambda>st. Some (Inr (Ret 0, tfr, st)))
        else if cause = ECALL_FROM_UMODE then syscall_handler env tfr st
        else Some (Inl (fst (default_excp_handler cause tfr st))))
       (\<lambda>(r, tfr, st).
          case r of
            Ret _ \<Rightarrow> bind_opt (signal_deliver env st) (\<lambda>(r, st). Some (Inr (r, tfr, st)))
          | _ \<Rightarrow> Some (Inr (r, tfr, st)))"

section \<open>Buffers of the process\<close>

text \<open>
  The validation of a buffer looks at the first byte and at every 4096th byte after it. For a buffer
  that starts inside a page this can leave out the page of its last byte.
\<close>

definition checked :: "'a vm_scheme \<Rightarrow> u8 \<Rightarrow> nat \<Rightarrow> nat \<Rightarrow> bool" where
  "checked st fl n c \<longleftrightarrow> (\<forall>k. 4096 * k < c \<longrightarrow> accessible st fl (ua (n + 4096 * k)))"

lemma user_buffer_valid:
  assumes us: "user_space st ps N" and buf: "0 < c" "n + c \<le> 2 ^ 28"
  shows "memory_validate_vptr_len (ua n) (of_nat c) fl st = Some (Inr (if checked st fl n c then 0 else - 1))"
proof -
  obtain F where wf: "wf_space (pmem st) (active_space_root st) F" using us unfolding user_space_def by blast
  have n: "n < 2 ^ 28" using buf by simp
  have c: "unat (of_nat c :: u64) = c" using buf(2) by (simp add: unat_of_nat)
  have a: "ua n + of_nat i * 4096 = ua (n + 4096 * i)" for i by (simp add: ua_def)
  have "wellformed_vma (ua n)" using wellformed_small ua_small [OF n] by blast
  moreover have "(of_nat c :: u64) \<noteq> 0" using c buf(1) by (metis unat_0 less_irrefl)
  moreover have "unat (ua n) + unat (of_nat c :: u64) + 4096 \<le> 2 ^ 64" using unat_ua [OF n] c buf(2) by simp
  ultimately show ?thesis using validate_steps [OF wf, of "ua n" "of_nat c" fl] unfolding a c checked_def by blast
qed

text \<open>A buffer that is accessible throughout passes; on a page boundary only such a buffer does.\<close>

lemma accessible_checked: "\<forall>j < c. accessible st fl (ua (n + j)) \<Longrightarrow> checked st fl n c"
  by (simp add: checked_def)

lemma checked_aligned:
  assumes "checked st fl n c" and "4096 dvd n" and "n + c \<le> 2 ^ 28" and "j < c"
  shows "accessible st fl (ua (n + j))"
proof -
  have "4096 * (j div 4096) < c" using assms(4) by (meson le_less_trans times_div_less_eq_dividend)
  then have "accessible st fl (ua (n + 4096 * (j div 4096)))" using assms(1) unfolding checked_def by blast
  moreover obtain m where m: "n = 4096 * m" using assms(2) by blast
  have "(n + j) div 4096 = m + j div 4096" unfolding m by (rule div_mult_self4) simp
  then have "n + 4096 * (j div 4096) = 4096 * ((n + j) div 4096)" using m by (simp add: distrib_left)
  moreover have "n + j < 2 ^ 28" using assms(3,4) by simp
  ultimately show ?thesis using upte_page [of "n + j" st] unfolding accessible_def upte_def by simp
qed

lemma accessible_upte:
  assumes "accessible st fl (ua n)" and "fl AND PTE_W \<noteq> 0 \<or> fl AND PTE_R \<noteq> 0"
  shows "\<exists>p. upte st n = Some p \<and> is_leaf p \<and> (fl AND PTE_W \<noteq> 0 \<longrightarrow> pte_flags p AND PTE_W \<noteq> 0) \<and>
    (fl AND PTE_R \<noteq> 0 \<longrightarrow> pte_flags p AND PTE_R \<noteq> 0)"
proof -
  obtain p where p: "upte st n = Some p" "pte_flags p AND fl = fl"
    using assms(1) by (auto simp: accessible_def upte_def split: option.splits)
  have sub: "pte_flags p AND b \<noteq> 0" if "fl AND b \<noteq> 0" for b
  proof
    assume "pte_flags p AND b = 0"
    then have "fl AND (pte_flags p AND b) = 0" by simp
    moreover have "fl AND (pte_flags p AND b) = fl AND b" using p(2) by (metis and.assoc and.commute)
    ultimately show False using that by simp
  qed
  have "pte_flags p AND PTE_V \<noteq> 0" using p(1) by (auto simp: upte_def mapped_def split: option.splits if_splits)
  moreover have "pte_flags p AND (PTE_R OR PTE_W OR PTE_X) \<noteq> 0"
  proof -
    have "bit (pte_flags p) 1 \<or> bit (pte_flags p) 2"
      using assms(2) sub [of PTE_W] sub [of PTE_R]
      by (auto simp: pte_flag_defs bit_iff_and_push_bit_not_eq_0 push_bit_of_1)
    then have "bit (pte_flags p AND (PTE_R OR PTE_W OR PTE_X)) 1 \<or> bit (pte_flags p AND (PTE_R OR PTE_W OR PTE_X)) 2"
      by (auto simp: pte_flag_defs bit_simps)
    then show ?thesis by (metis bit_0_eq bot_apply bot_bool_def)
  qed
  ultimately have "is_leaf p" by (simp add: is_leaf_def)
  then show ?thesis using p(1) sub by auto
qed

section \<open>Correctness properties\<close>

text \<open>
  C10. Reading from a file into the memory of a process, for any buffer in the user part. When every
  byte of the buffer is writable for the user, \<open>sysread\<close> returns the number of bytes there are
  from the position of the file on, at most as many as asked for, and those bytes are in the
  buffer; the rest of the process's memory and the file are unchanged and the position has
  advanced. When the first byte of the buffer or one at a multiple of 4096 from it, the bytes whose
  pages the call looks at, is not writable for the user, the call fails and nothing changes; on a
  page boundary that is so whenever any byte is not writable.
\<close>

theorem sysread_correct:
  assumes dev: "virtio_ok serve contents" and env: "blk_ops env = vioblk_io_ops serve"
    and cur: "cur_proc st = Inr (p, pr)" "fd_object pr fd = Some (FileIo k)"
    and wf: "fs_wf (\<lambda>dev. vb_wf contents dev \<and> \<not> vb_lock dev) (vb_data contents) k (kfs st)"
    and us: "user_space st ps N" and buf: "0 < c" "n + c \<le> 2 ^ 28"
  defines "bs \<equiv> take c (drop (fs_at k (kfs st)) (fs_contents (vb_data contents) k (kfs st)))"
  shows "((\<forall>j < c. accessible st (PTE_W OR PTE_U) (ua (n + j)) \<and> (n + j) div 4096 \<in> N) \<longrightarrow>
      (\<exists>st'. sysread env fd (ua n) (of_nat c) st = Some (Inr (Ret (int (length bs)), st')) \<and>
        (\<forall>j < 2 ^ 28. j div 4096 \<in> N \<longrightarrow>
           ubyte st' j = (if n \<le> j \<and> j < n + length bs then Some (bs ! (j - n)) else ubyte st j)) \<and>
        fs_contents (vb_data contents) k (kfs st') = fs_contents (vb_data contents) k (kfs st) \<and>
        fs_at k (kfs st') = fs_at k (kfs st) + length bs)) \<and>
    (\<not> checked st (PTE_W OR PTE_U) n c \<or> 4096 dvd n \<and> (\<exists>j < c. \<not> accessible st (PTE_W OR PTE_U) (ua (n + j))) \<longrightarrow>
      sysread env fd (ua n) (of_nat c) st = Some (Inr (Ret (- EINVAL), st)))"
proof (intro conjI impI)
  assume "\<not> checked st (PTE_W OR PTE_U) n c \<or> 4096 dvd n \<and> (\<exists>j < c. \<not> accessible st (PTE_W OR PTE_U) (ua (n + j)))"
  then have "\<not> checked st (PTE_W OR PTE_U) n c" using checked_aligned [OF _ _ buf(2)] by blast
  then have "memory_validate_vptr_len (ua n) (of_nat c) (PTE_W OR PTE_U) st = Some (Inr (- 1))"
    using user_buffer_valid [OF us buf, of "PTE_W OR PTE_U"] by simp
  then show "sysread env fd (ua n) (of_nat c) st = Some (Inr (Ret (- EINVAL), st))" using cur by (simp add: sysread_def)
next
  assume all: "\<forall>j < c. accessible st (PTE_W OR PTE_U) (ua (n + j)) \<and> (n + j) div 4096 \<in> N"
  have uc: "unat (of_nat c :: u64) = c" using buf(2) by (simp add: unat_of_nat)
  obtain fs1 where fs1: "fs_read (vioblk_io_ops serve) k c (kfs st) = Inr (int (length bs), bs, fs1)"
    "fs_contents (vb_data contents) k fs1 = fs_contents (vb_data contents) k (kfs st)"
    "fs_at k fs1 = fs_at k (kfs st) + length bs"
    using block_device.fs_read_ok [OF vioblk_block_device [OF dev] wf, of c] buf(2) unfolding bs_def by auto
  let ?st = "st\<lparr>kfs := fs1\<rparr>"
  have le: "length bs \<le> c" by (simp add: bs_def)
  have "(PTE_W OR PTE_U) AND PTE_W \<noteq> 0" by (simp add: pte_flag_defs)
  then have "writable ?st (n + j)" if "j < c" for j
    using accessible_upte [of st "PTE_W OR PTE_U" "n + j"] all that by (auto simp: writable_def)
  then have "\<forall>j < length bs. (n + j) div 4096 \<in> N \<and> writable ?st (n + j)" using all le by simp
  then obtain st' where st': "vstore_bytes (ua n) bs ?st = Inr st'" "mm.more st' = mm.more ?st"
    "\<forall>j < 2 ^ 28. j div 4096 \<in> N \<longrightarrow> ubyte st' j = (if n \<le> j \<and> j < n + length bs then Some (bs ! (j - n)) else ubyte ?st j)"
    using vstore_bytes_user [of ?st ps N n bs] us buf(2) le by auto
  have "kfs st' = fs1" using arg_cong [OF mm_more_cong [OF st'(2)], of kfs] by simp
  moreover have "checked st (PTE_W OR PTE_U) n c" using all by (intro accessible_checked) simp
  then have "sysread env fd (ua n) (of_nat c) st = Some (Inr (Ret (int (length bs)), st'))"
    using cur user_buffer_valid [OF us buf, of "PTE_W OR PTE_U"] fs1(1) st'(1)
    by (simp add: sysread_def obj_read_def env uc fs_io_ops_def call_read_def)
  ultimately show "\<exists>st'. sysread env fd (ua n) (of_nat c) st = Some (Inr (Ret (int (length bs)), st')) \<and>
      (\<forall>j < 2 ^ 28. j div 4096 \<in> N \<longrightarrow>
         ubyte st' j = (if n \<le> j \<and> j < n + length bs then Some (bs ! (j - n)) else ubyte st j)) \<and>
      fs_contents (vb_data contents) k (kfs st') = fs_contents (vb_data contents) k (kfs st) \<and>
      fs_at k (kfs st') = fs_at k (kfs st) + length bs"
    using fs1(2,3) st'(3) by (intro exI [of _ st']) simp
qed

text \<open>
  C11. Writing to a file from the memory of a process, for any buffer in the user part. When every byte
  of the buffer is readable for the user, \<open>syswrite\<close> puts the bytes of the buffer into the file
  at its position, as far as the file reaches, and returns their number. When the first byte of the
  buffer or one at a multiple of 4096 from it is not readable for the user, the call fails and
  nothing changes; on a page boundary that is so whenever any byte is not readable.
\<close>

theorem syswrite_correct:
  assumes dev: "virtio_ok serve contents" and env: "blk_ops env = vioblk_io_ops serve"
    and cur: "cur_proc st = Inr (p, pr)" "fd_object pr fd = Some (FileIo k)"
    and wf: "fs_writable (\<lambda>dev. vb_wf contents dev \<and> \<not> vb_lock dev) (vb_data contents) k (kfs st)"
    and us: "user_space st ps N" and buf: "0 < c" "n + c \<le> 2 ^ 28"
  defines "m \<equiv> min c (length (fs_contents (vb_data contents) k (kfs st)) - fs_at k (kfs st))"
  shows "((\<forall>j < c. accessible st (PTE_R OR PTE_U) (ua (n + j))) \<longrightarrow>
      (\<exists>bs fs. syswrite env fd (ua n) (of_nat c) st = Some (Inr (Ret (int m), st\<lparr>kfs := fs\<rparr>)) \<and>
        length bs = c \<and> (\<forall>j < c. ubyte st (n + j) = Some (bs ! j)) \<and>
        fs_contents (vb_data contents) k fs =
          put_at (fs_at k (kfs st)) (take m bs) (fs_contents (vb_data contents) k (kfs st)) \<and>
        fs_at k fs = fs_at k (kfs st) + m)) \<and>
    (\<not> checked st (PTE_R OR PTE_U) n c \<or> 4096 dvd n \<and> (\<exists>j < c. \<not> accessible st (PTE_R OR PTE_U) (ua (n + j))) \<longrightarrow>
      syswrite env fd (ua n) (of_nat c) st = Some (Inr (Ret (- EINVAL), st)))"
proof (intro conjI impI)
  assume "\<not> checked st (PTE_R OR PTE_U) n c \<or> 4096 dvd n \<and> (\<exists>j < c. \<not> accessible st (PTE_R OR PTE_U) (ua (n + j)))"
  then have "\<not> checked st (PTE_R OR PTE_U) n c" using checked_aligned [OF _ _ buf(2)] by blast
  then have "memory_validate_vptr_len (ua n) (of_nat c) (PTE_R OR PTE_U) st = Some (Inr (- 1))"
    using user_buffer_valid [OF us buf, of "PTE_R OR PTE_U"] by simp
  then show "syswrite env fd (ua n) (of_nat c) st = Some (Inr (Ret (- EINVAL), st))" using cur by (simp add: syswrite_def)
next
  assume all: "\<forall>j < c. accessible st (PTE_R OR PTE_U) (ua (n + j))"
  have uc: "unat (of_nat c :: u64) = c" using buf(2) by (simp add: unat_of_nat)
  have sum: "sstatus_sum st" using us by (simp add: user_space_def)
  have "(PTE_R OR PTE_U) AND PTE_R \<noteq> 0" by (simp add: pte_flag_defs)
  then have "\<exists>p. upte st (n + j) = Some p \<and> is_leaf p \<and> pte_flags p AND PTE_R \<noteq> 0" if "j < c" for j
    using accessible_upte [of st "PTE_R OR PTE_U" "n + j"] all that by auto
  then obtain bs where bs: "vload_bytes st (ua n) c = Inr bs" "length bs = c" "\<forall>j < c. ubyte st (n + j) = Some (bs ! j)"
    using vload_bytes_user [OF sum buf(2)] by blast
  have "length bs < 2 ^ 63" using bs(2) buf(2) by simp
  then obtain fs where fs: "fs_write (vioblk_io_ops serve) k bs (kfs st) = Inr (int m, fs)"
    "fs_contents (vb_data contents) k fs = put_at (fs_at k (kfs st)) (take m bs) (fs_contents (vb_data contents) k (kfs st))"
    "fs_at k fs = fs_at k (kfs st) + m"
    using block_device.fs_write_ok [OF vioblk_block_device [OF dev], of k "kfs st" bs] wf bs(2)
    unfolding fs_writable_def m_def by auto
  have "syswrite env fd (ua n) (of_nat c) st = Some (Inr (Ret (int m), st\<lparr>kfs := fs\<rparr>))"
    using cur user_buffer_valid [OF us buf, of "PTE_R OR PTE_U"] accessible_checked [OF all] bs(1) fs(1)
    by (simp add: syswrite_def obj_write_def env uc fs_io_ops_def call_write_def)
  then show "\<exists>bs fs. syswrite env fd (ua n) (of_nat c) st = Some (Inr (Ret (int m), st\<lparr>kfs := fs\<rparr>)) \<and>
      length bs = c \<and> (\<forall>j < c. ubyte st (n + j) = Some (bs ! j)) \<and>
      fs_contents (vb_data contents) k fs =
        put_at (fs_at k (kfs st)) (take m bs) (fs_contents (vb_data contents) k (kfs st)) \<and>
      fs_at k fs = fs_at k (kfs st) + m"
    using bs(2,3) fs(2,3) by blast
qed

text \<open>A process with the file open as descriptor 0 and one page mapped.\<close>

definition demo_reader :: process where
  "demo_reader = zero_process\<lparr>iotab := (replicate PROCESS_IOMAX None)[0 := Some (FileIo 0)]\<rparr>"

lemma demo_fd: "fd_object demo_reader 0 = Some (FileIo 0)"
  by (simp add: demo_reader_def fd_object_def PROCESS_IOMAX_def)

lemma demo_mapped:
  "\<exists>(st :: (u8 list vioblk, unit) ks) ps. cur_proc st = Inr (0, demo_reader) \<and> kfs st = prog_open \<and> user_space st ps {0} \<and>
     (\<forall>j < 4096. accessible st (PTE_W OR PTE_U) (ua j) \<and> accessible st (PTE_R OR PTE_U) (ua j) \<and> ubyte st j = Some 0) \<and>
     (\<forall>fl. \<not> accessible st fl (ua 4096))"
proof -
  let ?fl = "PTE_R OR PTE_W OR PTE_U" and ?st = "demo_run demo_reader"
  have "3 \<le> length demo_pages" by (simp add: demo_pages_def)
  from map_user_page [OF demo_run_space(1) [of demo_reader] this, of 0 ?fl] obtain st ps g where st: "user_space st ps {0}"
    "mm.more st = mm.more ?st" "upte st 0 = Some (leaf_pte g ?fl)" "\<And>n. n < 2 ^ 28 \<Longrightarrow> n div 4096 = 0 \<Longrightarrow> ubyte st n = Some 0"
    "\<And>n. n < 2 ^ 28 \<Longrightarrow> n div 4096 \<noteq> 0 \<Longrightarrow> upte st n = upte ?st n"
    by auto
  note m = mm_more_cong [OF st(2)]
  have "current_process st = current_process ?st"
    using arg_cong [OF m, of thrs] arg_cong [OF m, of thrtab] arg_cong [OF m, of curthr] by (intro current_process_cong) simp_all
  then have "cur_proc st = Inr (0, demo_reader)"
    using cur_procE [OF demo_run_cur [of demo_reader]] arg_cong [OF m, of procs] by (intro cur_procI) simp_all
  moreover have "kfs st = prog_open" using arg_cong [OF m, of kfs] demo_run_space(2) by simp
  moreover have "accessible st fl (ua j)" if "j < 4096" "fl \<in> {PTE_W OR PTE_U, PTE_R OR PTE_U}" for j fl
  proof -
    have "upte st j = upte st 0" using that(1) upte_page [of j st] by simp
    then show ?thesis using st(3) that(2)
      by (auto simp: accessible_def upte_def leaf_pte_def pte_flag_defs)
  qed
  moreover have "ubyte st j = Some 0" if "j < 4096" for j using st(4) [of j] that by simp
  moreover have "upte st 4096 = None" using st(5) [of 4096] demo_run_upte by simp
  then have "\<not> accessible st fl (ua 4096)" for fl by (simp add: accessible_def upte_def)
  ultimately show ?thesis using st(1) by (intro exI [of _ st] exI [of _ ps]) simp
qed

theorem sysread_correct_witness:
  "\<exists>(st :: (u8 list vioblk, unit) ks) st'. sysread demo_env 0 (ua 5) (of_nat 4) st = Some (Inr (Ret 4, st')) \<and>
     ubyte st' 5 = Some 0x7F \<and> ubyte st' 8 = Some 0x46 \<and> ubyte st' 9 = Some 0 \<and>
     sysread demo_env 0 (ua 4096) (of_nat 4) st = Some (Inr (Ret (- EINVAL), st))"
proof -
  obtain st :: "(u8 list vioblk, unit) ks" and ps where st: "cur_proc st = Inr (0, demo_reader)" "kfs st = prog_open" "user_space st ps {0}"
    "\<forall>j < 4096. accessible st (PTE_W OR PTE_U) (ua j) \<and> accessible st (PTE_R OR PTE_U) (ua j) \<and> ubyte st j = Some 0"
    "\<forall>fl. \<not> accessible st fl (ua 4096)"
    using demo_mapped by blast
  have t: "take 4 (drop (fs_at 0 prog_open) (fs_contents (vb_data (\<lambda>hw. hw)) 0 prog_open)) = [0x7F, 0x45, 0x4C, 0x46]"
    by (simp add: prog_open_ok(2,3) demo_prog_def)
  have acc: "\<forall>j < 4. accessible st (PTE_W OR PTE_U) (ua (5 + j)) \<and> (5 + j) div 4096 \<in> {0 :: nat}" using st(4) by simp
  have no: "\<not> checked st (PTE_W OR PTE_U) 4096 4" using st(5) unfolding checked_def by (metis add.right_neutral mult_0_right zero_less_numeral)
  have "blk_ops demo_env = vioblk_io_ops serve_disk" by (simp add: demo_env_def)
  note r = sysread_correct [OF serve_disk_ok this st(1) demo_fd prog_open_ok(1) [folded st(2)] st(3), of 4, unfolded st(2) t]
  have "sysread demo_env 0 (ua 4096) (of_nat 4) st = Some (Inr (Ret (- EINVAL), st))" using r [of 4096] no by simp
  moreover obtain st' where s': "sysread demo_env 0 (ua 5) (of_nat 4) st = Some (Inr (Ret 4, st'))"
    "\<forall>j < 2 ^ 28. j div 4096 \<in> {0} \<longrightarrow> ubyte st' j = (if 5 \<le> j \<and> j < 9 then Some ([0x7F, 0x45, 0x4C, 0x46] ! (j - 5)) else ubyte st j)"
    using r [of 5] acc by auto
  moreover have "ubyte st' 5 = Some 0x7F" "ubyte st' 8 = Some 0x46" "ubyte st' 9 = Some 0"
    using s'(2) [rule_format, of 5] s'(2) [rule_format, of 8] s'(2) [rule_format, of 9] st(4) by simp_all
  ultimately show ?thesis by blast
qed

theorem syswrite_correct_witness:
  "\<exists>(st :: (u8 list vioblk, unit) ks) fs. syswrite demo_env 0 (ua 5) (of_nat 2) st = Some (Inr (Ret 2, st\<lparr>kfs := fs\<rparr>)) \<and>
     take 4 (fs_contents (vb_data (\<lambda>hw. hw)) 0 fs) = [0, 0, 0x4C, 0x46] \<and>
     syswrite demo_env 0 (ua 4096) (of_nat 2) st = Some (Inr (Ret (- EINVAL), st))"
proof -
  obtain st :: "(u8 list vioblk, unit) ks" and ps where st: "cur_proc st = Inr (0, demo_reader)" "kfs st = prog_open" "user_space st ps {0}"
    "\<forall>j < 4096. accessible st (PTE_W OR PTE_U) (ua j) \<and> accessible st (PTE_R OR PTE_U) (ua j) \<and> ubyte st j = Some 0"
    "\<forall>fl. \<not> accessible st fl (ua 4096)"
    using demo_mapped by blast
  have acc: "\<forall>j < 2. accessible st (PTE_R OR PTE_U) (ua (5 + j))" using st(4) by simp
  have no: "\<not> checked st (PTE_R OR PTE_U) 4096 2" using st(5) unfolding checked_def by (metis add.right_neutral mult_0_right zero_less_numeral)
  have m: "min 2 (length (fs_contents (vb_data (\<lambda>hw. hw)) 0 prog_open) - fs_at 0 prog_open) = 2"
    by (simp add: prog_open_ok(2,3) demo_prog_length)
  have "blk_ops demo_env = vioblk_io_ops serve_disk" by (simp add: demo_env_def)
  note w = syswrite_correct [OF serve_disk_ok this st(1) demo_fd prog_open_ok(4) [folded st(2)] st(3), of 2, unfolded st(2) m]
  have "syswrite demo_env 0 (ua 4096) (of_nat 2) st = Some (Inr (Ret (- EINVAL), st))" using w [of 4096] no by simp
  moreover have b: "(0 :: nat) < 2" "5 + 2 \<le> (2 :: nat) ^ 28" by simp_all
  obtain bs fs where r: "syswrite demo_env 0 (ua 5) (of_nat 2) st = Some (Inr (Ret (int 2), st\<lparr>kfs := fs\<rparr>))" "length bs = 2"
    "\<forall>j < 2. ubyte st (5 + j) = Some (bs ! j)"
    "fs_contents (vb_data (\<lambda>hw. hw)) 0 fs = put_at (fs_at 0 prog_open) (take 2 bs) (fs_contents (vb_data (\<lambda>hw. hw)) 0 prog_open)"
    using mp [OF conjunct1 [OF w [OF b]] acc] by blast
  have "bs = [0, 0]"
  proof (rule nth_equalityI)
    fix i assume "i < length bs"
    then have "i < 2" using r(2) by simp
    then show "bs ! i = [0, 0] ! i" using r(3) st(4) by (auto simp: less_2_cases_iff)
  qed (simp add: r(2))
  then have "take 4 (fs_contents (vb_data (\<lambda>hw. hw)) 0 fs) = [0, 0, 0x4C, 0x46]"
    unfolding r(4) prog_open_ok(2,3) by (simp add: put_at_def demo_prog_def)
  moreover have "syswrite demo_env 0 (ua 5) (of_nat 2) st = Some (Inr (Ret 2, st\<lparr>kfs := fs\<rparr>))" using r(1) by simp
  ultimately show ?thesis by blast
qed

end
