(* ===== verification/Fork.thy ===== *)
theory Fork
  imports Syscall Clone
begin

text \<open>
  Forking a process: the copy of the address space (\<open>Clone\<close>), the thread of the child and its
  place in the scheduler, and the descriptors with their references, put together for
  \<open>thread_fork_to_user\<close> and \<open>sysfork\<close>.
\<close>

section \<open>Memory around the clone\<close>

lemma parent_ok_changes:
  assumes par: "parent_ok m0 proot ps" and pool: "pool ps" and ch: "changes_in (set ps) m0 m" and sub: "set qs \<subseteq> set ps"
  shows "parent_ok m proot qs" and "mapped_count m proot vs = mapped_count m0 proot vs"
proof -
  note pk = parent_kept [OF par pool ch]
  show "parent_ok m proot qs"
    using par wf_space_mono [OF pk(1) sub] sub unfolding parent_ok_def pk(3) by blast
  show "mapped_count m proot vs = mapped_count m0 proot vs" by (simp add: mapped_count_def pk(3))
qed

lemma kernel_ok_changes:
  assumes ker: "kernel_ok m0 mr ps" and pool: "pool ps" and ch: "changes_in (set ps) m0 m" and sub: "set qs \<subseteq> set ps"
  shows "kernel_ok m mr qs" and "i < 512 \<Longrightarrow> shared_entry m mr i = shared_entry m0 mr i"
proof -
  have wf: "wf_space m0 mr (set ps)" using ker by (simp add: kernel_ok_def)
  have al: "\<forall>n \<in> set ps. page_aligned n" using pool by (simp add: pool_def)
  show e: "shared_entry m mr i = shared_entry m0 mr i" if "i < 512" for i
    using entry_changes_in [OF wf subset_refl al ch, of "[]" mr i] that by (simp add: shared_entry_def)
  have "user_vpn < 512" by (simp add: user_vpn_def)
  then show "kernel_ok m mr qs"
    using ker e wf_space_mono [OF space_changes_in(1) [OF wf subset_refl al ch] sub] by (simp add: kernel_ok_def)
qed

lemma cloned_space_frame:
  assumes c: "cloned_space m0 proot mr ps k m root" and pool: "pool ps" and par: "parent_ok m0 proot ps"
    and ch: "changes_in (set (drop k ps)) m m'"
  shows "cloned_space m0 proot mr ps k m' root"
proof -
  have wf: "wf_space m root (set (drop k ps))" and c0: "changes_in (set ps) m0 m" using c by (simp_all add: cloned_space_def)
  have al: "\<forall>n \<in> set (drop k ps). page_aligned n" using pool by (auto simp: pool_def dest: in_set_dropD)
  note sc = space_changes_in [OF wf subset_refl al ch]
  have "changes_in (set ps) m m'" using ch set_drop_subset [of k ps] unfolding changes_in_def by blast
  then have c1: "changes_in (set ps) m0 m'" using changes_in_trans [OF c0] by blast
  have "copied m0 proot m' root (set (take k ps)) va" if "copied m0 proot m root (set (take k ps)) va" for va
  proof (rule copied_cong [OF that sc(3)])
    fix n a assume n: "n \<in> set (take k ps)" "a - n < PAGE_SIZE"
    have "page_aligned n" "n \<notin> set (drop k ps)"
      using pool_parts(4) [OF pool in_set_takeD [OF n(1)]] pool_parts(1) [OF pool, of k] n(1) by auto
    then show "m' a = m a" using changes_in_page [OF ch al _ _ n(2)] by blast
  qed simp
  moreover have "frames_apart m' root (set user_pages)"
    using c sc(3) by (auto simp: cloned_space_def intro: frames_apart_cong)
  moreover have "m' (root + 8 * i) = m (root + 8 * i)" if "i < 512" for i
    using entry_changes_in [OF wf subset_refl al ch, of "[]" root i] that by simp
  ultimately show ?thesis
    using c sc(1) c1 parent_kept(3) [OF par pool c1] unfolding cloned_space_def by simp
qed

section \<open>The structure and the stack of a thread\<close>

lemma kmalloc_frame:
  assumes "kmalloc sz st = Inr (a, st')"
  shows "st' = st\<lparr>pmem := pmem st', free_list := free_list st', heap_start := heap_start st', heap_end := heap_end st'\<rparr>"
  using assms by (auto simp: kmalloc_def Let_def bind_res_Inr_conv memory_alloc_page_def split: if_splits)

lemma kmalloc_changes:
  assumes "kmalloc sz st = Inr (a, st')" and "free_prefix st ps" and "ps \<noteq> []"
  shows "changes_in (set ps) (pmem st) (pmem st')"
proof -
  obtain n ns where ps: "ps = n # ns" using assms(3) by (cases ps) auto
  obtain st1 where "memory_alloc_page st = Inr (n, st1)" "pmem st1 = zero_page (pmem st) n"
    using memory_alloc_page_Cons assms(2) unfolding ps by blast
  then have "pmem st' = pmem st \<or> pmem st' = zero_page (pmem st) n"
    using assms(1) by (auto simp: kmalloc_def Let_def bind_res_Inr_conv split: if_splits)
  moreover have "changes_in (set ps) (pmem st) (zero_page (pmem st) n)"
    by (rule changes_in_keeps) (auto simp: ps)
  ultimately show ?thesis by auto
qed

lemma mm_more_heap: "mm.more st' = mm.more st \<Longrightarrow> st' = st\<lparr>pmem := pmem st', free_list := free_list st'\<rparr>"
  by (rule mm.equality) auto

abbreviation anchor_of :: "u64 \<Rightarrow> u64" where
  "anchor_of pg \<equiv> pg + PAGE_SIZE - sizeof_stack_anchor"

lemma thread_memory:
  assumes heap: "heap_inv st bs ps" and blk: "thr_blocks st bs" and pages: "2 \<le> length ps"
  shows "\<exists>a st1 pg st2 ps2. kmalloc sizeof_thread st = Inr (a, st1) \<and> memory_alloc_page st1 = Inr (pg, st2) \<and>
    thrs st (DynThread a) = None \<and> page_aligned pg \<and>
    heap_inv (st2\<lparr>pmem := (pmem st2)(anchor_of pg := a, anchor_of pg + 8 := 0)\<rparr>) ((pg, 4096) # (a, 208) # bs) ps2 \<and>
    changes_in (set ps) (pmem st) ((pmem st2)(anchor_of pg := a, anchor_of pg + 8 := 0)) \<and>
    st2 = st\<lparr>pmem := pmem st2, free_list := free_list st2, heap_start := heap_start st2, heap_end := heap_end st2\<rparr>"
proof -
  have r: "round16 sizeof_thread = 208" by code_simp
  have ne: "ps \<noteq> []" using pages by auto
  then obtain a st1 ps1 where k: "kmalloc sizeof_thread st = Inr (a, st1)" "ps1 \<in> {ps, tl ps}"
    "heap_inv st1 ((a, 208) # bs) ps1"
    using kmalloc_ok [OF heap, of sizeof_thread] by (auto simp: r word_le_nat_alt)
  have "ps1 \<noteq> []" using k(2) pages by (cases ps) auto
  then obtain pg ps2 where ps1: "ps1 = pg # ps2" by (cases ps1) auto
  obtain st2 where s2: "memory_alloc_page st1 = Inr (pg, st2)"
    "heap_inv st2 ((pg, 4096) # (a, 208) # bs) ps2" "mm.more st2 = mm.more st1" "page_aligned pg"
    using heap_inv_alloc_page [of st1] k(3) ps1 by blast
  have fresh: "thrs st (DynThread a) = None"
  proof (rule ccontr)
    assume "thrs st (DynThread a) \<noteq> None"
    then have "(a, 208) \<in> set bs" using blk by (simp add: thr_blocks_def)
    moreover have "sorted_wrt disjnt (map (\<lambda>(p, n). region p n) ((a, 208) # bs))"
      using k(3) by (simp add: heap_inv_def sorted_wrt_append)
    ultimately have "disjnt (region a 208) (region a 208)" by force
    moreover have "unat a \<in> region a 208" by (simp add: region_def)
    ultimately show False by (auto simp: disjnt_iff)
  qed
  have reg: "unat (anchor_of pg) \<in> region pg 4096" "unat (anchor_of pg + 8) \<in> region pg 4096"
    unfolding unat_anchor [OF s2(4)] by (simp_all add: region_def)
  have hp: "heap_inv (st2\<lparr>pmem := (pmem st2)(anchor_of pg := a, anchor_of pg + 8 := 0)\<rparr>) ((pg, 4096) # (a, 208) # bs) ps2"
    using heap_inv_write [OF heap_inv_write [OF s2(2) _ reg(1), of a] _ reg(2), of 0]
    by (simp del: page_const)
  have pgps: "pg \<in> set ps" using k(2) ps1 by (cases ps) auto
  have fp1: "free_prefix st1 (pg # ps2)" and fp: "free_prefix st ps"
    using k(3) heap ps1 by (simp_all add: heap_inv_def)
  have z: "pmem st2 = zero_page (pmem st1) pg" using memory_alloc_page_Cons [OF fp1] s2(1) by auto
  have off: "anchor_of pg - pg < PAGE_SIZE" "anchor_of pg + 8 - pg < PAGE_SIZE"
    by (simp_all add: sizeof_stack_anchor_def)
  have "changes_in (set ps) (pmem st) (pmem st1)" by (rule kmalloc_changes [OF k(1) fp ne])
  moreover have "changes_in (set ps) (pmem st1) (pmem st2)"
    unfolding z by (rule changes_in_keeps [OF keeps_outside_zero_page pgps])
  moreover have "changes_in (set ps) (pmem st2) ((pmem st2)(anchor_of pg := a, anchor_of pg + 8 := 0))"
    using changes_in_trans [OF changes_in_upd [OF pgps off(1)] changes_in_upd [OF pgps off(2)]] .
  ultimately have ch: "changes_in (set ps) (pmem st) ((pmem st2)(anchor_of pg := a, anchor_of pg + 8 := 0))"
    by (blast intro: changes_in_trans)
  obtain m1 f1 h1 e1 where st1: "st1 = st\<lparr>pmem := m1, free_list := f1, heap_start := h1, heap_end := e1\<rparr>"
    using kmalloc_frame [OF k(1)] by blast
  obtain m2 f2 where "st2 = st1\<lparr>pmem := m2, free_list := f2\<rparr>" using mm_more_heap [OF s2(3)] by blast
  then have "st2 = st\<lparr>pmem := pmem st2, free_list := free_list st2, heap_start := heap_start st2, heap_end := heap_end st2\<rparr>"
    unfolding st1 by simp
  with k(1) s2(1,4) fresh hp ch show ?thesis by blast
qed

section \<open>The lists of the scheduler\<close>

text \<open>The running thread becomes the last ready thread and a new thread runs in its place.\<close>

lemma hand_over:
  assumes inv: "sched_inv st rs ws" and cur: "thrs st (curthr st) = Some cur" and fresh: "thrs st c = None"
  shows "\<exists>rl h. tlinsert (ready_list st) (Some (curthr st)) ((thrs st)(c \<mapsto> t, curthr st \<mapsto> cur\<lparr>t_state := THREAD_READY\<rparr>))
      = Inr (rl, h) \<and> (\<forall>f. \<exists>u. h c = Some u \<and> u\<lparr>list_next := None\<rparr> = t\<lparr>list_next := None\<rparr> \<and>
      lists_inv (h(c \<mapsto> f u)) rl (conds st) (rs @ [curthr st]) ws)"
proof -
  have li: "lists_inv (thrs st) (ready_list st) (conds st) rs ws" and run: "t_state cur = THREAD_RUNNING"
    using inv cur by (auto simp: sched_inv_def in_state_def)
  have nc: "c \<notin> set rs" "\<And>d. c \<notin> set (ws d)"
    using lists_invD(2,4) [OF li, of c] fresh by (auto simp: in_state_def)
  have nm: "curthr st \<notin> set rs" "\<And>d. curthr st \<notin> set (ws d)"
    using not_in_lists [OF li cur] run by (auto simp: ready_def waits_for_def)
  have ne: "c \<noteq> curthr st" using cur fresh by auto
  let ?h = "(thrs st)(c \<mapsto> t, curthr st \<mapsto> cur\<lparr>t_state := THREAD_READY\<rparr>)"
  have li2: "lists_inv ?h (ready_list st) (conds st) rs ws"
    using lists_inv_upd [OF lists_inv_upd [OF li nc] nm] .
  obtain rl h where i: "tlinsert (ready_list st) (Some (curthr st)) ?h = Inr (rl, h)"
      "lists_inv h rl (conds st) (rs @ [curthr st]) ws" "same_cores ?h h"
    using lists_inv_insert_ready [OF li2, of "curthr st" "cur\<lparr>t_state := THREAD_READY\<rparr>"] nm(1) by auto
  obtain u where u: "h c = Some u" "u\<lparr>list_next := None\<rparr> = t\<lparr>list_next := None\<rparr>"
    using same_cores_state [OF i(3), of c t] ne by auto
  have "lists_inv (h(c \<mapsto> f u)) rl (conds st) (rs @ [curthr st]) ws" for f
    using lists_inv_upd [OF i(2), of c] nc ne by auto
  with i(1) u show ?thesis by blast
qed

lemma make_mtag_nonzero: "make_mtag asid r \<noteq> 0"
proof
  assume "make_mtag asid r = 0"
  then have "bit (make_mtag asid r) 63 = bit (0 :: u64) 63" by simp
  then show False by (simp add: make_mtag_def RISCV_SATP_MODE_Sv39_def bit_simps)
qed

lemma heap_inv_drop:
  assumes heap: "heap_inv st bs ps" and fp: "free_prefix st' (drop k ps)"
    and same: "heap_start st' = heap_start st" "heap_end st' = heap_end st"
  shows "heap_inv st' bs (drop k ps)"
proof -
  have "sorted_wrt disjnt ((window st # map (\<lambda>(p, n). region p n) bs) @ map page_region (take k ps) @ map page_region (drop k ps))"
    using heap by (simp add: heap_inv_def flip: map_append)
  then have "sorted_wrt disjnt ((window st # map (\<lambda>(p, n). region p n) bs) @ map page_region (drop k ps))"
    unfolding sorted_wrt_append by auto
  then show ?thesis using heap fp same by (simp add: heap_inv_def window_def)
qed

section \<open>thread_fork_to_user\<close>

text \<open>What the fork of a thread leaves behind.\<close>

definition forked ::
    "('d, 'w) kenv \<Rightarrow> ('d, 'w, 'a) ks_scheme \<Rightarrow> nat \<Rightarrow> nat \<Rightarrow> u64 list \<Rightarrow> tptr list \<Rightarrow> (cptr \<Rightarrow> tptr list) \<Rightarrow>
      nat \<Rightarrow> ('d, 'w, 'a) ks_scheme \<Rightarrow> bool" where
  "forked env st parent cp ps rs ws tid st' \<longleftrightarrow>
     (\<exists>a root k u.
        curthr st' = DynThread a \<and> thrs st (DynThread a) = None \<and>
        thrs st' (DynThread a) = Some u \<and> t_id u = int tid \<and> t_proc u = Some cp \<and> t_parent u = Some (curthr st) \<and>
        thrtab st' = (thrtab st)[tid := Some (DynThread a)] \<and>
        sched_inv st' (rs @ [curthr st]) ws \<and>
        active_space_root st' = root \<and> proc_mtag st' = (proc_mtag st)(cp := satp st') \<and>
        cloned_space (pmem st) (mtag_to_root (proc_mtag st parent)) (main_pt2 env) ps k (pmem st') root)"

lemma thread_fork_ok:
  fixes st :: "('d, 'w, 'a) ks_scheme"
  assumes inv: "sched_inv st rs ws" and heap: "heap_inv st bs ps" and blk: "thr_blocks st bs"
    and slot: "find_slot st = Some tid" "length (thrtab st) = NTHR"
    and cur: "cur_proc st = Inr (parent, pr)" and child_rec: "procs st cp = Some cr"
    and lim: "\<forall>p \<in> set ps. p < 2 ^ 56"
    and par: "parent_ok (pmem st) (mtag_to_root (proc_mtag st parent)) ps" and ker: "kernel_ok (pmem st) (main_pt2 env) ps"
    and enough: "3 * mapped_count (pmem st) (mtag_to_root (proc_mtag st parent)) user_pages + 3 \<le> length ps"
  shows "\<exists>st'. thread_fork_to_user env cp st = Inr (EnterChild, st') \<and> forked env st parent cp ps rs ws tid st' \<and>
    procs st' = (procs st)(cp \<mapsto> cr\<lparr>proc_tid := int tid\<rparr>) \<and> proctab st' = proctab st \<and> kfs st' = kfs st \<and>
    dev_refs st' = dev_refs st"
proof -
  let ?proot = "mtag_to_root (proc_mtag st parent)"
  define asid where "asid = drop_bit 44 (proc_mtag st cp AND SATP_ASID_MASK)"
  have fp: "free_prefix st ps" using heap by (simp add: heap_inv_def)
  have pool: "pool ps" using mm_prefix.pool_distinct [OF fp] mm_prefix.pool_page [OF fp] lim by (simp add: pool_def)
  obtain root s1 k where c: "memory_space_clone (main_pt2 env) (proc_mtag st parent) asid st = Inr (make_mtag asid root, s1)"
      "mtag_to_root (make_mtag asid root) = root" "free_prefix s1 (drop k ps)"
      "k \<le> 1 + 3 * mapped_count (pmem st) ?proot user_pages"
      "cloned_space (pmem st) ?proot (main_pt2 env) ps k (pmem s1) root" "mm.more s1 = mm.more st"
    using memory_space_clone_ok [OF fp lim par ker, of asid] enough by auto
  obtain m1 f1 where s1: "s1 = st\<lparr>pmem := m1, free_list := f1\<rparr>" using mm_more_heap [OF c(6)] by blast
  define s2 where "s2 = s1\<lparr>proc_mtag := (proc_mtag s1)(cp := make_mtag asid root)\<rparr>"
  have h2: "heap_inv s2 bs (drop k ps)"
    using heap_inv_drop [OF heap c(3)] by (simp add: s1 s2_def heap_inv_def window_def free_prefix_def)
  have b2: "thr_blocks s2 bs" using blk by (simp add: thr_blocks_def s1 s2_def)
  have two: "2 \<le> length (drop k ps)" using c(4) enough by simp
  obtain a s3 pg s4 ps2 where t: "kmalloc sizeof_thread s2 = Inr (a, s3)" "memory_alloc_page s3 = Inr (pg, s4)"
      "thrs s2 (DynThread a) = None"
      "changes_in (set (drop k ps)) (pmem s2) ((pmem s4)(anchor_of pg := a, anchor_of pg + 8 := 0))"
      "s4 = s2\<lparr>pmem := pmem s4, free_list := free_list s4, heap_start := heap_start s4, heap_end := heap_end s4\<rparr>"
    using thread_memory [OF h2 b2 two] by blast
  obtain m4 f4 hs4 he4 where s4: "s4 = s2\<lparr>pmem := m4, free_list := f4, heap_start := hs4, heap_end := he4\<rparr>"
    using t(5) by blast
  have fresh: "thrs st (DynThread a) = None" using t(3) by (simp add: s1 s2_def)
  obtain ct where ct: "thrs st (curthr st) = Some ct" using inv by (auto simp: sched_inv_def in_state_def)
  define tc where "tc = (thread_junk env)\<lparr>t_id := int tid, t_name := ''forked_process'', t_parent := Some (curthr st),
    stack_base := anchor_of pg, stack_size := anchor_of pg - pg\<rparr>"
  obtain rl h where ho: "tlinsert (ready_list st) (Some (curthr st))
        ((thrs st)(DynThread a \<mapsto> tc, curthr st \<mapsto> ct\<lparr>t_state := THREAD_READY\<rparr>)) = Inr (rl, h)"
      "\<forall>f. \<exists>u. h (DynThread a) = Some u \<and> u\<lparr>list_next := None\<rparr> = tc\<lparr>list_next := None\<rparr> \<and>
        lists_inv (h(DynThread a \<mapsto> f u)) rl (conds st) (rs @ [curthr st]) ws"
    using hand_over [OF inv ct fresh] by blast
  obtain u where u: "h (DynThread a) = Some u" "u\<lparr>list_next := None\<rparr> = tc\<lparr>list_next := None\<rparr>"
      "\<And>f. lists_inv (h(DynThread a \<mapsto> f u)) rl (conds st) (rs @ [curthr st]) ws"
    using ho(2) by (metis option.inject)
  note uc = core_eqD [OF u(2)]
  have tid: "tid < 16" using slot(1) unfolding find_slot_def NTHR_def
    by (auto simp: find_Some_iff)
  have ne: "curthr st \<noteq> DynThread a" using ct fresh by auto
  define st' where "st' = s4\<lparr>pmem := m4(anchor_of pg := a, anchor_of pg + 8 := 0),
     thrtab := (thrtab st)[tid := Some (DynThread a)],
     thrs := h(DynThread a \<mapsto> u\<lparr>t_state := THREAD_RUNNING, t_proc := Some cp\<rparr>),
     ready_list := rl, resume_sie := (resume_sie st)(DynThread a := None, curthr st := None),
     sie := sie st, procs := (procs st)(cp \<mapsto> cr\<lparr>proc_tid := int tid\<rparr>),
     satp := make_mtag asid root, curthr := DynThread a\<rparr>"
  have run: "thread_fork_to_user env cp st = Inr (EnterChild, st')"
  proof -
    have fs: "find_slot s2 = Some tid" using slot(1) by (simp add: find_slot_def s1 s2_def)
    have s2c: "s1\<lparr>proc_mtag := (proc_mtag s1)(cp := make_mtag asid root)\<rparr> = s2" by (simp add: s2_def)
    have sie: "intr_restore (sie st) x = x\<lparr>sie := sie st\<rparr>" for x :: "('d, 'w, 'a) ks_scheme"
      by (simp add: intr_restore_def Let_def)
    have pm: "proc_mtag s1 = proc_mtag st" "proc_mtag st cp = proc_mtag s1 cp" by (simp_all add: s1)
    show ?thesis
      unfolding thread_fork_to_user_def cur bind_res_simps prod.case asid_def [symmetric] c(1)
      unfolding if_not_P [OF make_mtag_nonzero] Let_def s2c fs option.case t(1,2) bind_res_simps prod.case
      using ct ne tid slot(2) ho(1) [unfolded tc_def] u(1) child_rec
      by (simp add: s4 s2_def s1 set_thread_def ready_insert_def intr_disable_def sie
          get_proc_def set_proc_def thread_set_process_def thread_at_def NTHR_def memory_space_switch_def st'_def
          del: page_const)
  qed
  have sc: "sched_inv st' (rs @ [curthr st]) ws"
    using u(3) [of "\<lambda>u. u\<lparr>t_state := THREAD_RUNNING, t_proc := Some cp\<rparr>"]
    by (simp add: sched_inv_def st'_def s4 s2_def s1 in_state_def del: page_const)
  have cs: "cloned_space (pmem st) ?proot (main_pt2 env) ps k (pmem st') root"
  proof (rule cloned_space_frame [OF c(5) pool par])
    show "changes_in (set (drop k ps)) (pmem s1) (pmem st')" using t(4) by (simp add: st'_def s4 s2_def)
  qed
  have "forked env st parent cp ps rs ws tid st'"
    unfolding forked_def
    using sc cs fresh uc c(2)
    by (intro exI [of _ a] exI [of _ root] exI [of _ k] exI [of _ "u\<lparr>t_state := THREAD_RUNNING, t_proc := Some cp\<rparr>"])
      (simp add: st'_def s4 s2_def s1 tc_def active_space_root_def active_space_mtag_def del: page_const)
  with run show ?thesis by (intro exI [of _ st']) (simp add: st'_def s4 s2_def s1)
qed

section \<open>The descriptors\<close>

definition files_in_range :: "process \<Rightarrow> ('d, 'w, 'a) ks_scheme \<Rightarrow> bool" where
  "files_in_range pr st \<longleftrightarrow> (\<forall>k. Some (FileIo k) \<in> set (iotab pr) \<longrightarrow> k < length (file_structs (kfs st)))"

lemma obj_ref_ok:
  assumes "\<And>k. io = FileIo k \<Longrightarrow> k < length (file_structs (kfs st))"
  shows "\<exists>fs d. obj_ref io st = st\<lparr>kfs := fs, dev_refs := d\<rparr> \<and> length (file_structs fs) = length (file_structs (kfs st)) \<and>
    (\<forall>x. obj_refs x (obj_ref io st) = obj_refs x st + (if x = io then 1 else 0))"
proof (cases io)
  case (FileIo k)
  then have k: "k < length (file_structs (kfs st))" using assms by blast
  have e: "obj_ref io st = st\<lparr>kfs := set_file_refcnt k (file_refcnt k st + 1) (kfs st), dev_refs := dev_refs st\<rparr>"
    by (simp add: obj_ref_def FileIo ioref_def)
  have "obj_refs x (obj_ref io st) = obj_refs x st + (if x = io then 1 else 0)" for x
    using k unfolding e by (cases x) (auto simp: obj_refs_def FileIo file_refcnt_def set_file_refcnt_def nth_list_update)
  moreover have "length (file_structs (set_file_refcnt k (file_refcnt k st + 1) (kfs st))) = length (file_structs (kfs st))"
    by (simp add: set_file_refcnt_def)
  ultimately show ?thesis using e by blast
next
  case (DevIo i)
  have e: "obj_ref io st = st\<lparr>kfs := kfs st, dev_refs := (dev_refs st)(i := dev_refs st i + 1)\<rparr>"
    by (simp add: obj_ref_def DevIo ioref_def)
  have "obj_refs x (obj_ref io st) = obj_refs x st + (if x = io then 1 else 0)" for x
    unfolding e by (cases x) (auto simp: obj_refs_def DevIo file_refcnt_def)
  then show ?thesis using e by blast
qed

definition refs_added :: "ioptr option list \<Rightarrow> ('d, 'w, 'a) ks_scheme \<Rightarrow> ('d, 'w, 'a) ks_scheme \<Rightarrow> bool" where
  "refs_added ios st st' \<longleftrightarrow> (\<forall>x. obj_refs x st' = obj_refs x st + of_nat (count_list ios (Some x)))"

lemma fork_fds:
  assumes p: "procs st parent = Some pr" "procs st cp = Some cr" "cp \<noteq> parent"
    and len: "length (iotab pr) = 16" "length (iotab cr) = 16" and fr: "files_in_range pr st" and n: "n \<le> 16"
  shows "\<exists>fs d. foldM (fork_fd parent cp) [0..<n] st =
      Inr (st\<lparr>procs := (procs st)(cp \<mapsto> cr\<lparr>iotab := take n (iotab pr) @ drop n (iotab cr)\<rparr>), kfs := fs, dev_refs := d\<rparr>) \<and>
    length (file_structs fs) = length (file_structs (kfs st)) \<and>
    refs_added (take n (iotab pr)) st
      (st\<lparr>procs := (procs st)(cp \<mapsto> cr\<lparr>iotab := take n (iotab pr) @ drop n (iotab cr)\<rparr>), kfs := fs, dev_refs := d\<rparr>)"
  using n
proof (induction n)
  case 0
  have "(procs st)(cp \<mapsto> cr) = procs st" using p(2) by auto
  then show ?case by (intro exI [of _ "kfs st"] exI [of _ "dev_refs st"]) (simp add: refs_added_def)
next
  case (Suc n)
  let ?cr = "\<lambda>n. cr\<lparr>iotab := take n (iotab pr) @ drop n (iotab cr)\<rparr>"
  obtain fs d where ih: "foldM (fork_fd parent cp) [0..<n] st = Inr (st\<lparr>procs := (procs st)(cp \<mapsto> ?cr n), kfs := fs, dev_refs := d\<rparr>)"
      "length (file_structs fs) = length (file_structs (kfs st))"
      "refs_added (take n (iotab pr)) st (st\<lparr>procs := (procs st)(cp \<mapsto> ?cr n), kfs := fs, dev_refs := d\<rparr>)"
    using Suc.IH Suc.prems Suc_leD by blast
  define s1 where "s1 = st\<lparr>procs := (procs st)(cp \<mapsto> ?cr n), kfs := fs, dev_refs := d\<rparr>"
  have n: "n < 16" using Suc.prems by simp
  have tk: "take (Suc n) (iotab pr) = take n (iotab pr) @ [iotab pr ! n]"
    using n len(1) by (simp add: take_Suc_conv_app_nth)
  have upd: "(take n (iotab pr) @ drop n (iotab cr))[n := iotab pr ! n] = take (Suc n) (iotab pr) @ drop (Suc n) (iotab cr)"
    using n len unfolding tk by (simp add: list_update_append Cons_nth_drop_Suc [symmetric])
  let ?s = "case iotab pr ! n of None \<Rightarrow> s1 | Some io \<Rightarrow> obj_ref io s1"
  have "\<exists>fs' d'. ?s = s1\<lparr>kfs := fs', dev_refs := d'\<rparr> \<and> length (file_structs fs') = length (file_structs (kfs s1)) \<and>
      refs_added [iotab pr ! n] s1 ?s"
  proof (cases "iotab pr ! n")
    case None
    then show ?thesis by (intro exI [of _ "kfs s1"] exI [of _ "dev_refs s1"]) (simp add: refs_added_def)
  next
    case (Some io)
    have "k < length (file_structs (kfs s1))" if "io = FileIo k" for k
    proof -
      have "Some (FileIo k) \<in> set (iotab pr)" using Some that n len(1) by (metis nth_mem)
      then show ?thesis using fr ih(2) by (simp add: files_in_range_def s1_def)
    qed
    then obtain fs' d' where o: "obj_ref io s1 = s1\<lparr>kfs := fs', dev_refs := d'\<rparr>"
        "length (file_structs fs') = length (file_structs (kfs s1))"
        "\<forall>x. obj_refs x (obj_ref io s1) = obj_refs x s1 + (if x = io then 1 else 0)"
      using obj_ref_ok [of io s1] by blast
    have "refs_added [iotab pr ! n] s1 (obj_ref io s1)" using o(3) Some by (simp add: refs_added_def)
    then show ?thesis using o(1,2) Some by (intro exI [of _ fs'] exI [of _ d']) simp
  qed
  then obtain fs' d' where s: "?s = s1\<lparr>kfs := fs', dev_refs := d'\<rparr>"
      "length (file_structs fs') = length (file_structs (kfs s1))" "refs_added [iotab pr ! n] s1 (s1\<lparr>kfs := fs', dev_refs := d'\<rparr>)"
    by metis
  have run: "fork_fd parent cp n s1 = Inr (st\<lparr>procs := (procs st)(cp \<mapsto> ?cr (Suc n)), kfs := fs', dev_refs := d'\<rparr>)"
  proof -
    have "get_proc (Some parent) s1 = Inr pr" using p by (simp add: get_proc_def s1_def)
    then show ?thesis
      unfolding fork_fd_def s(1) by (simp add: s(1) Let_def get_proc_def set_proc_def s1_def upd)
  qed
  have "refs_added (take (Suc n) (iotab pr)) st (st\<lparr>procs := (procs st)(cp \<mapsto> ?cr (Suc n)), kfs := fs', dev_refs := d'\<rparr>)"
    using ih(3) s(3) unfolding tk refs_added_def s1_def
    by (simp add: obj_refs_def file_refcnt_def count_list_append split: ioptr.splits)
  moreover have "foldM (fork_fd parent cp) [0..<Suc n] st =
      Inr (st\<lparr>procs := (procs st)(cp \<mapsto> ?cr (Suc n)), kfs := fs', dev_refs := d'\<rparr>)"
    using ih(1) run by (simp add: foldM_append s1_def del: fun_upd_apply)
  moreover have "length (file_structs fs') = length (file_structs (kfs st))" using s(2) ih(2) by (simp add: s1_def)
  ultimately show ?case by blast
qed

section \<open>sysfork\<close>

text \<open>Every process structure but the static one is an allocated block of the heap.\<close>

definition proc_blocks :: "('d, 'w, 'a) ks_scheme \<Rightarrow> (u64 \<times> nat) list \<Rightarrow> bool" where
  "proc_blocks st bs \<longleftrightarrow> (\<forall>p. procs st p \<noteq> None \<longrightarrow> p = main_proc \<or> (of_nat p, 240) \<in> set bs)"

definition table_ok :: "('d, 'w, 'a) ks_scheme \<Rightarrow> bool" where
  "table_ok st \<longleftrightarrow> length (proctab st) = 16 \<and> (\<forall>i < 16. \<forall>p. proctab st ! i = Some p \<longrightarrow> procs st p \<noteq> None)"

lemma kmalloc_nonnull:
  assumes "kmalloc sz st = Inr (a, st')" and "heap_inv st bs ps" and "heap_start st \<noteq> 0" and "round16 sz < PAGE_SIZE"
    and "ps \<noteq> []" and "0 < round16 sz"
  shows "a \<noteq> 0"
proof -
  obtain n ns where ps: "ps = n # ns" using assms(5) by (cases ps) auto
  have fp: "free_prefix st (n # ns)" using assms(2) by (simp add: heap_inv_def ps)
  obtain st1 where al: "memory_alloc_page st = Inr (n, st1)" using memory_alloc_page_Cons [OF fp] by blast
  have n: "n \<noteq> 0" "page_aligned n" using mm_prefix.pool_page [OF fp, of n] by auto
  consider "a = heap_end st - round16 sz" "round16 sz \<le> heap_end st - heap_start st" | "a = n + PAGE_SIZE - round16 sz" | "a = n"
    using assms(1) al by (auto simp: kmalloc_def Let_def bind_res_Inr_conv not_less split: if_splits)
  then show ?thesis
  proof cases
    case 1
    have le: "heap_start st \<le> heap_end st" using assms(2) by (simp add: heap_inv_def)
    have "unat (heap_end st - heap_start st) = unat (heap_end st) - unat (heap_start st)"
      using le by (simp add: unat_minus_if)
    moreover have "unat (heap_start st) \<noteq> 0" using assms(3) by (simp add: unat_eq_zero)
    ultimately have "unat (round16 sz) < unat (heap_end st)"
      using 1(2) le by (simp add: word_le_nat_alt)
    then show ?thesis using 1(1) by auto
  next
    case 2
    have u: "unat n + 4096 \<le> 18446744073709551616" using unat_page_top [OF n(2)] .
    have "unat (PAGE_SIZE - round16 sz) = 4096 - unat (round16 sz)"
      using assms(4) by (simp add: unat_minus_if word_less_nat_alt word_le_nat_alt)
    moreover have "0 < unat (round16 sz)" using assms(6) by (simp add: word_less_nat_alt)
    ultimately have "unat (n + (PAGE_SIZE - round16 sz)) = unat n + (4096 - unat (round16 sz))"
      using u by (simp add: unat_word_ariths)
    moreover have "unat n \<noteq> 0" using n(1) by (simp add: unat_eq_zero)
    ultimately have "n + (PAGE_SIZE - round16 sz) \<noteq> 0" by auto
    then show ?thesis unfolding 2 by (simp add: add_diff_eq)
  next
    case 3
    then show ?thesis using n(1) by simp
  qed
qed

lemma alloc_proc_ok:
  fixes st :: "('d, 'w, 'a) ks_scheme"
  assumes heap: "heap_inv st bs ps" "heap_start st \<noteq> 0" "ps \<noteq> []" and pb: "proc_blocks st bs"
    and slot: "List.find (\<lambda>i. proctab st ! i = None) [0..<NPROC] = Some i"
  shows "\<exists>a st1 ps1. alloc_proc env st = Inr (i, unat a, st1) \<and> unat a \<noteq> 0 \<and> procs st (unat a) = None \<and>
    ps1 \<in> {ps, tl ps} \<and> heap_inv st1 ((a, 240) # bs) ps1 \<and> changes_in (set ps) (pmem st) (pmem st1) \<and>
    st1 = st\<lparr>pmem := pmem st1, free_list := free_list st1, heap_start := heap_start st1, heap_end := heap_end st1,
      proctab := (proctab st)[i := Some (unat a)], procs := (procs st)(unat a \<mapsto> kmalloc_junk env)\<rparr>"
proof -
  have r: "round16 sizeof_process = 240" by code_simp
  obtain a s ps1 where k: "kmalloc sizeof_process st = Inr (a, s)" "ps1 \<in> {ps, tl ps}" "heap_inv s ((a, 240) # bs) ps1"
    using kmalloc_ok [OF heap(1), of sizeof_process] heap(3) by (auto simp: r word_le_nat_alt)
  have nz: "a \<noteq> 0" using kmalloc_nonnull [OF k(1) heap(1,2) _ heap(3)] by (simp add: r word_less_nat_alt)
  have fresh: "procs st (unat a) = None"
  proof (rule ccontr)
    assume "procs st (unat a) \<noteq> None"
    then have "(a, 240) \<in> set bs" using pb nz by (auto simp: proc_blocks_def main_proc_def unat_eq_zero)
    moreover have "sorted_wrt disjnt (map (\<lambda>(p, n). region p n) ((a, 240) # bs))"
      using k(3) by (simp add: heap_inv_def sorted_wrt_append)
    ultimately have "disjnt (region a 240) (region a 240)" by force
    moreover have "unat a \<in> region a 240" by (simp add: region_def)
    ultimately show False by (auto simp: disjnt_iff)
  qed
  obtain m f hs he where s: "s = st\<lparr>pmem := m, free_list := f, heap_start := hs, heap_end := he\<rparr>"
    using kmalloc_frame [OF k(1)] by blast
  define st1 where "st1 = s\<lparr>proctab := (proctab s)[i := Some (unat a)], procs := (procs s)(unat a \<mapsto> kmalloc_junk env)\<rparr>"
  have "alloc_proc env st = Inr (i, unat a, st1)" using slot k(1) nz fresh by (simp add: alloc_proc_def st1_def s)
  moreover have "heap_inv st1 ((a, 240) # bs) ps1" using k(3) by (simp add: heap_inv_def st1_def window_def free_prefix_def)
  moreover have "changes_in (set ps) (pmem st) (pmem st1)"
    using kmalloc_changes [OF k(1) _ heap(3)] heap(1) by (simp add: st1_def heap_inv_def)
  ultimately show ?thesis using k(2) fresh nz
    by (intro exI [of _ a] exI [of _ st1] exI [of _ ps1]) (simp add: st1_def s unat_eq_zero del: fun_upd_apply)
qed

lemma cur_procD:
  "cur_proc st = Inr (p, pr) \<Longrightarrow> current_process st = Inr (Some p) \<and> procs st p = Some pr"
  by (auto simp: cur_proc_def bind_res_Inr_conv get_proc_def split: option.splits Option.bind_splits)

lemma cur_proc_cong:
  assumes "cur_proc st = Inr (p, pr)" and "thrs st' = thrs st" and "thrtab st' = thrtab st" and "curthr st' = curthr st"
    and "procs st' p = Some pr"
  shows "cur_proc st' = Inr (p, pr)"
  using cur_procD [OF assms(1)] current_process_cong [OF assms(2-4)] assms(5) by (simp add: cur_proc_def get_proc_def)

lemma copied_base:
  assumes par: "parent_ok m0 proot ps" and pool: "pool ps" and ch: "changes_in (set ps) m0 m1"
    and c: "copied m1 proot m root A va" and va: "VPN 2 va = user_vpn" and sub: "A \<subseteq> B"
  shows "copied m0 proot m root B va"
proof -
  have mp: "mapped m1 proot va = mapped m0 proot va" by (rule parent_kept(3) [OF par pool ch])
  have al: "\<forall>n \<in> set ps. page_aligned n" using pool by (simp add: pool_def)
  show ?thesis
  proof (cases "mapped m0 proot va")
    case None
    then show ?thesis using c mp by (simp add: copied_def)
  next
    case (Some p)
    have pp: "pte_page p \<notin> set ps" using par va Some by (auto simp: parent_ok_def)
    have "m1 (pte_page p + off) = m0 (pte_page p + off)" if "off < PAGE_SIZE" for off
      using changes_in_page [OF ch al page_aligned_pte_page pp, of "pte_page p + off"] that by simp
    then show ?thesis using c mp Some sub by (auto simp: copied_def)
  qed
qed

lemma user_va_vpn:
  assumes "USER_START_VMA \<le> va" and "va < USER_END_VMA"
  shows "VPN 2 va = user_vpn"
proof -
  obtain v where "v \<in> set user_pages" "same_vpage v va" using user_pages_cover [of va] assms by auto
  then show ?thesis using user_pages_vpn by (simp add: same_vpage_def)
qed

lemma child_index:
  assumes "table_ok st" and "procs st cp = None" and slot: "List.find (\<lambda>i. proctab st ! i = None) [0..<NPROC] = Some i"
  shows "List.find (\<lambda>j. (proctab st)[i := Some cp] ! j = Some cp) [0..<NPROC] = Some i" and "i < 16"
proof -
  show i: "i < 16" using slot by (auto simp: find_Some_iff NPROC_def)
  have len: "length (proctab st) = 16" using assms(1) by (simp add: table_ok_def)
  have "proctab st ! j \<noteq> Some cp" if "j < 16" for j
    using assms(1,2) that by (auto simp: table_ok_def)
  then show "List.find (\<lambda>j. (proctab st)[i := Some cp] ! j = Some cp) [0..<NPROC] = Some i"
    using i len unfolding find_Some_iff NPROC_def by (intro exI [of _ i]) auto
qed

text \<open>
  The part of \<open>sysfork\<close> before the fork of the thread: the state \<open>s\<close> in which \<open>thread_fork_to_user\<close>
  is called has the structure of the child with the descriptors of the parent, and is otherwise
  the state before with one block of the heap allocated.
\<close>

definition prepared ::
    "('d, 'w, 'a) ks_scheme \<Rightarrow> nat \<Rightarrow> nat \<Rightarrow> process \<Rightarrow> process \<Rightarrow> ('d, 'w, 'a) ks_scheme \<Rightarrow> bool" where
  "prepared st i cp cr pr s \<longleftrightarrow>
     procs st cp = None \<and> procs s = (procs st)(cp \<mapsto> cr) \<and> proctab s = (proctab st)[i := Some cp] \<and>
     proc_id cr = int i \<and> iotab cr = iotab pr \<and> refs_added (iotab pr) st s \<and>
     thrs s = thrs st \<and> thrtab s = thrtab st \<and> curthr s = curthr st \<and> ready_list s = ready_list st \<and> conds s = conds st \<and>
     proc_mtag s = (proc_mtag st)(cp := 0)"

lemma sysfork_prefix:
  fixes st :: "('d, 'w, 'a) ks_scheme"
  assumes heap: "heap_inv st bs ps" "heap_start st \<noteq> 0" "ps \<noteq> []" and pb: "proc_blocks st bs" and tab: "table_ok st"
    and slot: "List.find (\<lambda>i. proctab st ! i = None) [0..<NPROC] = Some i"
    and cur: "cur_proc st = Inr (parent, pr)" and io: "length (iotab pr) = 16" "files_in_range pr st"
    and junk: "length (iotab (kmalloc_junk env)) = 16"
  shows "\<exists>a cp cr s ps1. prepared st i cp cr pr s \<and> ps1 \<in> {ps, tl ps} \<and> heap_inv s ((a, 240) # bs) ps1 \<and>
    changes_in (set ps) (pmem st) (pmem s) \<and>
    (\<forall>st'. thread_fork_to_user env cp s = Inr (EnterChild, st') \<longrightarrow> sysfork env st = Some (Inr (EnterChild, st')))"
proof -
  obtain a0 s1 ps1 where al: "alloc_proc env st = Inr (i, unat a0, s1)" "unat a0 \<noteq> 0" "procs st (unat a0) = None"
      "ps1 \<in> {ps, tl ps}" "heap_inv s1 ((a0, 240) # bs) ps1" "changes_in (set ps) (pmem st) (pmem s1)"
      "s1 = st\<lparr>pmem := pmem s1, free_list := free_list s1, heap_start := heap_start s1, heap_end := heap_end s1,
        proctab := (proctab st)[i := Some (unat a0)], procs := (procs st)(unat a0 \<mapsto> kmalloc_junk env)\<rparr>"
    using alloc_proc_ok [OF heap pb slot, of env] by blast
  define cp where "cp = unat a0"
  obtain m1 f1 hs1 he1 where s1: "s1 = st\<lparr>pmem := m1, free_list := f1, heap_start := hs1, heap_end := he1,
        proctab := (proctab st)[i := Some cp], procs := (procs st)(cp \<mapsto> kmalloc_junk env)\<rparr>"
    using al(7) unfolding cp_def by blast
  note cp = al(2,3) [folded cp_def]
  have pp: "procs st parent = Some pr" "cp \<noteq> parent" using cur_procD [OF cur] cp(2) by auto
  let ?cr = "(kmalloc_junk env)\<lparr>proc_id := int i, proc_tid := - 1\<rparr>"
  define s2 where "s2 = s1\<lparr>procs := (procs st)(cp \<mapsto> ?cr), proc_mtag := (proc_mtag st)(cp := 0)\<rparr>"
  have p2: "procs s2 parent = Some pr" "procs s2 cp = Some ?cr" using pp by (simp_all add: s2_def)
  have fr2: "files_in_range pr s2" using io(2) by (simp add: files_in_range_def s2_def s1)
  obtain fs d where fd: "foldM (fork_fd parent cp) [0..<16] s2 =
        Inr (s2\<lparr>procs := (procs s2)(cp \<mapsto> ?cr\<lparr>iotab := iotab pr\<rparr>), kfs := fs, dev_refs := d\<rparr>)"
      "refs_added (iotab pr) s2 (s2\<lparr>procs := (procs s2)(cp \<mapsto> ?cr\<lparr>iotab := iotab pr\<rparr>), kfs := fs, dev_refs := d\<rparr>)"
    using fork_fds [OF p2 pp(2) io(1) _ fr2, of 16] io(1) junk by auto
  define s3 where "s3 = s2\<lparr>procs := (procs s2)(cp \<mapsto> ?cr\<lparr>iotab := iotab pr\<rparr>), kfs := fs, dev_refs := d\<rparr>"
  have cur1: "cur_proc s1 = Inr (parent, pr)"
    by (rule cur_proc_cong [OF cur]) (use pp in \<open>simp_all add: s1\<close>)
  have ix: "List.find (\<lambda>j. proctab s1 ! j = Some cp) [0..<NPROC] = Some i"
    using child_index(1) [OF tab cp(2) slot] by (simp add: s1)
  have g1: "get_proc (Some cp) s1 = Inr (kmalloc_junk env)" by (simp add: get_proc_def s1)
  have up: "(set_proc cp ?cr s1)\<lparr>proc_mtag := (proc_mtag (set_proc cp ?cr s1))(cp := 0)\<rparr> = s2"
    by (simp add: set_proc_def s2_def s1)
  have run: "sysfork env st = Some (Inr (EnterChild, st'))" if tf: "thread_fork_to_user env cp s3 = Inr (EnterChild, st')" for st'
    unfolding sysfork_def al(1) [folded cp_def] bind_opt_simps prod.case if_not_P [OF cp(1)] cur1 g1 ix option.case Let_def up
      PROCESS_IOMAX_def fd(1)
    unfolding s3_def [symmetric] tf by simp
  have "refs_added (iotab pr) st s3"
    using fd(2) unfolding refs_added_def s3_def
    by (simp add: obj_refs_def file_refcnt_def s2_def s1 split: ioptr.splits)
  then have "prepared st i cp (?cr\<lparr>iotab := iotab pr\<rparr>) pr s3"
    using cp(2) by (simp add: prepared_def s3_def s2_def s1)
  moreover have "heap_inv s3 ((a0, 240) # bs) ps1"
    using al(5) by (simp add: heap_inv_def window_def free_prefix_def s3_def s2_def)
  moreover have "changes_in (set ps) (pmem st) (pmem s3)" using al(6) by (simp add: s3_def s2_def)
  ultimately show ?thesis using run al(4) by blast
qed

section \<open>Correctness of the fork\<close>

text \<open>
  C7. \<open>sysfork\<close> with a free slot in the tables of processes and of threads and enough free pages
  creates a child that is a copy of its parent. The child gets a new process structure under the
  free number, a new thread that runs at once in user mode while the parent becomes the last ready
  thread, the same open descriptors with one more reference to the object for each, and an
  address space of its own in which every user page of the parent has the same permissions and
  the same contents. No mapping of the parent and no byte of its user pages changes.
\<close>

theorem sysfork_correct:
  fixes st :: "('d, 'w, 'a) ks_scheme"
  assumes inv: "sched_inv st rs ws" and heap: "heap_inv st bs ps" "heap_start st \<noteq> 0"
    and blk: "thr_blocks st bs" "proc_blocks st bs" and tab: "table_ok st" "length (thrtab st) = NTHR"
    and slot: "List.find (\<lambda>i. proctab st ! i = None) [0..<NPROC] = Some i" "find_slot st = Some tid"
    and cur: "cur_proc st = Inr (parent, pr)" and io: "length (iotab pr) = 16" "files_in_range pr st"
    and junk: "length (iotab (kmalloc_junk env)) = 16" and lim: "\<forall>p \<in> set ps. p < 2 ^ 56"
    and proot: "proot = mtag_to_root (proc_mtag st parent)"
    and par: "parent_ok (pmem st) proot ps" and ker: "kernel_ok (pmem st) (main_pt2 env) ps"
    and enough: "3 * mapped_count (pmem st) proot user_pages + 4 \<le> length ps"
  shows "\<exists>st' cp cr a u. sysfork env st = Some (Inr (EnterChild, st')) \<and>
    procs st cp = None \<and> procs st' = (procs st)(cp \<mapsto> cr) \<and> proctab st' = (proctab st)[i := Some cp] \<and>
    proc_id cr = int i \<and> proc_tid cr = int tid \<and> iotab cr = iotab pr \<and> refs_added (iotab pr) st st' \<and>
    thrs st (DynThread a) = None \<and> curthr st' = DynThread a \<and> thrs st' (DynThread a) = Some u \<and>
    t_id u = int tid \<and> t_proc u = Some cp \<and> t_parent u = Some (curthr st) \<and> sched_inv st' (rs @ [curthr st]) ws \<and>
    satp st' = proc_mtag st' cp \<and> proc_mtag st' parent = proc_mtag st parent \<and>
    (\<forall>va. USER_START_VMA \<le> va \<longrightarrow> va < USER_END_VMA \<longrightarrow>
       copied (pmem st) proot (pmem st') (active_space_root st') (set ps) va) \<and>
    frames_apart (pmem st') (active_space_root st') (set user_pages) \<and>
    (\<forall>va. mapped (pmem st') proot va = mapped (pmem st) proot va) \<and>
    (\<forall>a. pmem st' a \<noteq> pmem st a \<longrightarrow> (\<exists>n \<in> set ps. a - n < PAGE_SIZE))"
proof -
  have fp: "free_prefix st ps" using heap by (simp add: heap_inv_def)
  have pool: "pool ps" using mm_prefix.pool_distinct [OF fp] mm_prefix.pool_page [OF fp] lim by (simp add: pool_def)
  have "ps \<noteq> []" using enough by auto
  then obtain a0 cp cr s ps1 where p: "prepared st i cp cr pr s" "ps1 \<in> {ps, tl ps}" "heap_inv s ((a0, 240) # bs) ps1"
      and ch1: "changes_in (set ps) (pmem st) (pmem s)"
      and run: "\<And>st'. thread_fork_to_user env cp s = Inr (EnterChild, st') \<Longrightarrow> sysfork env st = Some (Inr (EnterChild, st'))"
    using sysfork_prefix [OF heap _ blk(2) tab(1) slot(1) cur io junk] by blast
  have q: "procs st cp = None" "procs s = (procs st)(cp \<mapsto> cr)" "proctab s = (proctab st)[i := Some cp]" "proc_id cr = int i"
      "iotab cr = iotab pr" "refs_added (iotab pr) st s" "thrs s = thrs st" "thrtab s = thrtab st" "curthr s = curthr st"
      "ready_list s = ready_list st" "conds s = conds st" "proc_mtag s = (proc_mtag st)(cp := 0)"
    using p(1) unfolding prepared_def by blast+
  have pp: "procs st parent = Some pr" "cp \<noteq> parent" using cur_procD [OF cur] q(1) by auto
  have sub1: "set ps1 \<subseteq> set ps" using p(2) by (cases ps) auto
  have pm: "proc_mtag s parent = proc_mtag st parent" using pp(2) q(12) by simp
  have "parent_ok (pmem s) (mtag_to_root (proc_mtag s parent)) ps1" "kernel_ok (pmem s) (main_pt2 env) ps1"
      "3 * mapped_count (pmem s) (mtag_to_root (proc_mtag s parent)) user_pages + 3 \<le> length ps1"
    using parent_ok_changes [OF par pool ch1 sub1] kernel_ok_changes(1) [OF ker pool ch1 sub1] pm proot enough p(2) by auto
  moreover have "thr_blocks s ((a0, 240) # bs)" "sched_inv s rs ws" "find_slot s = Some tid" "length (thrtab s) = NTHR"
    using blk(1) inv slot(2) tab(2) q(7-11) by (simp_all add: thr_blocks_def sched_inv_def find_slot_def)
  moreover have "cur_proc s = Inr (parent, pr)" by (rule cur_proc_cong [OF cur q(7-9)]) (use pp q(2) in simp)
  moreover have "procs s cp = Some cr" "\<forall>p \<in> set ps1. p < 2 ^ 56" using q(2) lim sub1 by auto
  ultimately obtain st' where tf: "thread_fork_to_user env cp s = Inr (EnterChild, st')" "forked env s parent cp ps1 rs ws tid st'"
      "procs st' = (procs s)(cp \<mapsto> cr\<lparr>proc_tid := int tid\<rparr>)" "proctab st' = proctab s" "kfs st' = kfs s" "dev_refs st' = dev_refs s"
    using thread_fork_ok [OF _ p(3)] by blast
  from tf(2) obtain a root k u where f: "curthr st' = DynThread a" "thrs s (DynThread a) = None"
      "thrs st' (DynThread a) = Some u" "t_id u = int tid" "t_proc u = Some cp" "t_parent u = Some (curthr s)"
      "sched_inv st' (rs @ [curthr s]) ws" "active_space_root st' = root" "proc_mtag st' = (proc_mtag s)(cp := satp st')"
      "cloned_space (pmem s) proot (main_pt2 env) ps1 k (pmem st') root"
    unfolding forked_def pm proot by blast
  have cop: "copied (pmem st) proot (pmem st') root (set ps) va" if "USER_START_VMA \<le> va" "va < USER_END_VMA" for va
  proof (rule copied_base [OF par pool ch1 _ user_va_vpn [OF that]])
    show "copied (pmem s) proot (pmem st') root (set (take k ps1)) va" using f(10) that unfolding cloned_space_def by blast
    show "set (take k ps1) \<subseteq> set ps" using sub1 set_take_subset by fastforce
  qed
  have ch: "changes_in (set ps) (pmem st) (pmem st')"
    using changes_in_trans [OF ch1] f(10) sub1 unfolding cloned_space_def changes_in_def by blast
  have "refs_added (iotab pr) st st'"
    using q(6) tf(5,6) by (simp add: refs_added_def obj_refs_def file_refcnt_def split: ioptr.splits)
  moreover have "procs st' = (procs st)(cp \<mapsto> cr\<lparr>proc_tid := int tid\<rparr>)" using tf(3) q(2) by simp
  moreover have "satp st' = proc_mtag st' cp" "proc_mtag st' parent = proc_mtag st parent" using f(9) pm pp(2) by simp_all
  moreover have "frames_apart (pmem st') root (set user_pages)" using f(10) by (simp add: cloned_space_def)
  moreover have "\<forall>va. mapped (pmem st') proot va = mapped (pmem st) proot va" using parent_kept(3) [OF par pool ch] by blast
  ultimately show ?thesis
    using run [OF tf(1)] q tf(4) f(1-8) cop ch unfolding changes_in_def
    by (intro exI [of _ st'] exI [of _ cp] exI [of _ "cr\<lparr>proc_tid := int tid\<rparr>"] exI [of _ a] exI [of _ u]) simp
qed

text \<open>A parent with an open file and nothing mapped, alone in the scheduler.\<close>

definition demo_parent :: "(u8 list vioblk, unit) ks" where
  "demo_parent = (demo_run demo_reader)\<lparr>proc_mtag := (\<lambda>_. make_mtag 0 0x80000000)\<rparr>"

lemma demo_parent_fields:
  "pmem demo_parent = pmem demo_vm" "free_list demo_parent = free_list demo_vm" "heap_start demo_parent = 0x80010000"
  "heap_end demo_parent = 0x80010000" "proctab demo_parent = static_proctab" "procs demo_parent = [0 \<mapsto> demo_reader]"
  "thrtab demo_parent = static_thrtab" "curthr demo_parent = MainThread" "ready_list demo_parent = tlclear"
  "conds demo_parent = (\<lambda>_. tlclear)" "kfs demo_parent = prog_open"
  "thrs demo_parent = [MainThread \<mapsto> zero_thread\<lparr>t_proc := Some 0, t_state := THREAD_RUNNING\<rparr>]"
  "proc_mtag demo_parent p = make_mtag 0 0x80000000"
  by (simp_all add: demo_parent_def demo_run_def demo_ks_def ct.defs ks.defs demo_ct_def it.defs demo_it_def kt.defs demo_kt_def
      ts.defs Thread.demo_boot_def demo_vm_def)

lemma demo_parent_ok:
  "sched_inv demo_parent [] (\<lambda>_. [])" "heap_inv demo_parent [] demo_pages" "thr_blocks demo_parent []"
  "proc_blocks demo_parent []" "table_ok demo_parent" "length (thrtab demo_parent) = NTHR"
  "List.find (\<lambda>i. proctab demo_parent ! i = None) [0..<NPROC] = Some 1" "find_slot demo_parent = Some 1"
  "cur_proc demo_parent = Inr (0, demo_reader)" "length (iotab demo_reader) = 16" "files_in_range demo_reader demo_parent"
proof -
  show "sched_inv demo_parent [] (\<lambda>_. [])"
    by (simp add: sched_inv_def lists_inv_def demo_parent_fields tlclear_def in_state_def)
  show "heap_inv demo_parent [] demo_pages"
    using heap_inv_cong [of demo_parent Thread.demo_boot] demo_boot_heap
    by (simp add: demo_parent_fields Thread.demo_boot_def)
  show "thr_blocks demo_parent []" "proc_blocks demo_parent []"
    by (simp_all add: thr_blocks_def proc_blocks_def main_proc_def demo_parent_fields)
  show "table_ok demo_parent" by (simp add: table_ok_def demo_parent_fields static_proctab_def NPROC_def MAIN_PID_def main_proc_def nth_list_update)
  show "length (thrtab demo_parent) = NTHR" by (simp add: demo_parent_fields static_thrtab_def)
  show "List.find (\<lambda>i. proctab demo_parent ! i = None) [0..<NPROC] = Some 1"
    by (simp add: demo_parent_fields static_proctab_def NPROC_def MAIN_PID_def upt_rec)
  show "find_slot demo_parent = Some 1"
    by (simp add: find_slot_def demo_parent_fields static_thrtab_def NTHR_def MAIN_TID_def IDLE_TID_def upt_rec)
  show "cur_proc demo_parent = Inr (0, demo_reader)"
    by (rule cur_proc_cong [OF demo_run_cur [of demo_reader]]) (simp_all add: demo_parent_def demo_run_def)
  show "length (iotab demo_reader) = 16" by (simp add: demo_reader_def PROCESS_IOMAX_def)
  show "files_in_range demo_reader demo_parent"
    by (auto simp: files_in_range_def demo_parent_fields demo_reader_def PROCESS_IOMAX_def prog_open_def demo_fs_def
        dest!: subsetD [OF set_update_subset_insert])
qed

lemma demo_parent_space:
  "parent_ok (pmem demo_parent) 0x80000000 demo_pages" "kernel_ok (pmem demo_parent) 0x80000000 demo_pages"
  "mapped_count (pmem demo_parent) 0x80000000 user_pages = 0"
proof -
  show "parent_ok (pmem demo_parent) 0x80000000 demo_pages" "mapped_count (pmem demo_parent) 0x80000000 user_pages = 0"
    by (simp_all add: parent_ok_def mapped_count_def demo_parent_fields demo_space)
  have "page_aligned (0x80000000 :: u64)" "0x80000000 \<notin> set demo_pages" by (simp_all add: aligned_def demo_pages_def)
  moreover have "0x80000000 + 8 * user_vpn - 0x80000000 < PAGE_SIZE" by (rule entry_offset_less) (simp add: user_vpn_def)
  ultimately have "pmem demo_vm (0x80000000 + 8 * user_vpn) = 0" by (rule demo_zero)
  then show "kernel_ok (pmem demo_parent) 0x80000000 demo_pages"
    by (simp add: kernel_ok_def shared_entry_def demo_parent_fields demo_space)
qed

theorem sysfork_correct_witness:
  "\<exists>st' cp cr. sysfork demo_env demo_parent = Some (Inr (EnterChild, st')) \<and> procs st' = [0 \<mapsto> demo_reader, cp \<mapsto> cr] \<and>
     cp \<noteq> 0 \<and> proc_id cr = 1 \<and> proc_tid cr = 1 \<and> iotab cr = iotab demo_reader \<and> file_refcnt 0 st' = 2"
proof -
  have m: "length (iotab (kmalloc_junk demo_env)) = 16" "main_pt2 demo_env = 0x80000000" "heap_start demo_parent \<noteq> 0"
      "0x80000000 = mtag_to_root (proc_mtag demo_parent 0)"
    unfolding demo_parent_fields by (simp_all add: demo_env_def zero_process_def PROCESS_IOMAX_def) code_simp
  have n: "3 * mapped_count (pmem demo_parent) 0x80000000 user_pages + 4 \<le> length demo_pages"
    unfolding demo_parent_space(3) by (simp add: demo_pages_def)
  obtain st' cp cr where s: "sysfork demo_env demo_parent = Some (Inr (EnterChild, st'))" "procs demo_parent cp = None"
      "procs st' = (procs demo_parent)(cp \<mapsto> cr)" "proc_id cr = int 1" "proc_tid cr = int 1" "iotab cr = iotab demo_reader"
      "refs_added (iotab demo_reader) demo_parent st'"
    using sysfork_correct [OF demo_parent_ok(1,2) m(3) demo_parent_ok(3-11) m(1) demo_limit m(4) demo_parent_space(1)
      demo_parent_space(2) [folded m(2)] n] by blast
  have "count_list (iotab demo_reader) (Some (FileIo 0)) = 1"
    by (simp add: demo_reader_def PROCESS_IOMAX_def numeral_eq_Suc)
  then have "obj_refs (FileIo 0) st' = obj_refs (FileIo 0) demo_parent + 1"
    using s(7) by (simp add: refs_added_def)
  then have "file_refcnt 0 st' = 2"
    by (simp add: obj_refs_def file_refcnt_def demo_parent_fields prog_open_def demo_fs_def)
  with s show ?thesis by (auto simp: demo_parent_fields split: if_splits)
qed

end
