(* ===== verification/Shell.thy ===== *)
theory Shell
  imports CString
begin

text \<open>
  The shell \<open>user/shell.c\<close>: the line editor with its history, the splitting of a line into
  arguments, and the commands.

  The global variables are the record \<open>sh\<close>. The shell reaches the kernel only through system
  calls: \<open>calls\<close> lists the calls made so far with their arguments, oldest first, and the
  results that matter are the parameter \<open>senv\<close>, functions of the calls made so far. The
  one-byte reads of the keyboard are a separate list of pairs, the result of the call and the
  byte delivered when that result is positive; when the list is used up the shell is waiting
  in \<open>_read\<close>. A function that ends in \<open>_exit\<close> returns \<open>Exited\<close>.

  The use of an object that was never written, and an access outside an array, are the fault
  \<open>UndefinedAccess\<close>. The loop at the end of \<open>enter\<close> is the exception: it passes every entry of
  \<open>argv\<close> on to \<open>_msgout\<close>, also those that were never written, and the shell itself does not
  follow them; the call is recorded with the value \<open>Unset\<close>, an arbitrary pointer for the kernel.
\<close>

section \<open>State\<close>

abbreviation ESC :: char where "ESC \<equiv> CHR 0x1B"
abbreviation CR :: char where "CR \<equiv> CHR 0x0D"
abbreviation LF :: char where "LF \<equiv> CHR 0x0A"
abbreviation BS :: char where "BS \<equiv> CHR 0x08"
abbreviation DEL :: char where "DEL \<equiv> CHR 0x7F"

definition MAX_INPUT :: nat where "MAX_INPUT = 64"
definition MAX_HISTORY :: nat where "MAX_HISTORY = 10"
definition MAX_ARGS :: nat where "MAX_ARGS = 10"
definition SH_NPROC :: nat where "SH_NPROC = 16"
definition SH_FS_NAMELEN :: nat where "SH_FS_NAMELEN = 32"

text \<open>
  An entry of \<open>argv\<close>: never written, the null pointer, or a pointer into the copy of the line
  at an offset.
\<close>

datatype aptr = Unset | NullPtr | Off nat

text \<open>
  The argument of \<open>_msgout\<close>: a literal, an entry of \<open>argv\<close> with the copy of the line it points
  into, or the address of a single character.
\<close>

datatype msg = Literal string | Arg aptr string | AddrOf char

datatype ucall =
    Write string
  | Msgout msg
  | Exit
  | Fork
  | DevOpen int string int
  | FsOpen int string
  | Exec int
  | GetNumProgs
  | GetProgNames
  | GetProcs
  | Signal int int
  | Close int

record sh =
  history :: "string list"
  input :: string
  buf_size :: int
  cursor_pos :: int
  history_count :: int
  history_pos :: int
  device_counter :: int
  calls :: "ucall list"

record senv =
  fork_result :: "ucall list \<Rightarrow> int"
  devopen_result :: "ucall list \<Rightarrow> int"
  fsopen_result :: "ucall list \<Rightarrow> int"
  exec_returns :: "ucall list \<Rightarrow> bool"
  num_progs :: "ucall list \<Rightarrow> int"
  prog_names :: "ucall list \<Rightarrow> string"
  proc_pids :: "ucall list \<Rightarrow> int list"
  proc_names :: "ucall list \<Rightarrow> string"

datatype 'a ran = Returned 'a | Exited sh

definition bind_ran :: "'a ran res \<Rightarrow> ('a \<Rightarrow> 'b ran res) \<Rightarrow> 'b ran res" where
  "bind_ran r f = bind_res r (\<lambda>x. case x of Returned a \<Rightarrow> f a | Exited st \<Rightarrow> Inr (Exited st))"

lemma bind_ran_simps [simp]:
  "bind_ran (Inl e) f = Inl e"
  "bind_ran (Inr (Returned a)) f = f a"
  "bind_ran (Inr (Exited st)) f = Inr (Exited st)"
  by (simp_all add: bind_ran_def)

lemma bind_ran_Returned_conv:
  "bind_ran r f = Inr (Returned b) \<longleftrightarrow> (\<exists>a. r = Inr (Returned a) \<and> f a = Inr (Returned b))"
  by (auto simp: bind_ran_def bind_res_def split: sum.split ran.split)

definition call :: "ucall \<Rightarrow> sh \<Rightarrow> sh" where
  "call u st = st\<lparr>calls := calls st @ [u]\<rparr>"

text \<open>\<open>_write (0, s, n)\<close> of a literal, and with \<open>n = sizeof (s)\<close>, which counts the final NUL.\<close>

definition wr :: "string \<Rightarrow> sh \<Rightarrow> sh" where
  "wr s = call (Write s)"

definition wr_sizeof :: "string \<Rightarrow> sh \<Rightarrow> sh" where
  "wr_sizeof s = call (Write (s @ [NUL]))"

text \<open>\<open>_write (0, &input[off], n)\<close>.\<close>

definition wr_input :: "int \<Rightarrow> int \<Rightarrow> sh \<Rightarrow> sh res" where
  "wr_input off n st =
     (if 0 \<le> off \<and> 0 \<le> n \<and> off + n \<le> int (length (input st))
      then Inr (wr (take (nat n) (drop (nat off) (input st))) st) else Inl UndefinedAccess)"

text \<open>\<open>for (i = a; i < b; i++) _write (0, s, 1)\<close>.\<close>

definition wr_times :: "int \<Rightarrow> int \<Rightarrow> string \<Rightarrow> sh \<Rightarrow> sh" where
  "wr_times a b s st = ((wr s) ^^ nat (b - a)) st"

definition get_ch :: "string \<Rightarrow> int \<Rightarrow> char res" where
  "get_ch xs i = (if 0 \<le> i \<and> i < int (length xs) then Inr (xs ! nat i) else Inl UndefinedAccess)"

definition put_ch :: "string \<Rightarrow> int \<Rightarrow> char \<Rightarrow> string res" where
  "put_ch xs i c = (if 0 \<le> i \<and> i < int (length xs) then Inr (xs[nat i := c]) else Inl UndefinedAccess)"

definition copy_ch :: "int \<Rightarrow> int \<Rightarrow> string \<Rightarrow> string res" where
  "copy_ch i j xs = bind_res (get_ch xs j) (put_ch xs i)"

section \<open>History\<close>

definition fetch_clear :: "sh \<Rightarrow> sh res" where
  "fetch_clear st =
     (let st = st\<lparr>history_pos := - 1, buf_size := 0, cursor_pos := 0\<rparr> in
      bind_res (memset (input st) NUL (nat (buf_size st))) (\<lambda>inp.
      let st = wr (CR # ''> '') (st\<lparr>input := inp\<rparr>);
          st = wr_times 0 (int MAX_INPUT) '' '' st
      in Inr (wr_times 0 (int MAX_INPUT) [BS] st)))"

definition fetch_show :: "sh \<Rightarrow> sh res" where
  "fetch_show st =
     (if 0 \<le> history_pos st \<and> history_pos st < history_count st then
        if int (length (history st)) \<le> history_pos st then Inl UndefinedAccess
        else
          bind_res (strncpy (input st) (history st ! nat (history_pos st)) (of_nat MAX_INPUT)) (\<lambda>inp.
          bind_res (strlen inp) (\<lambda>n.
            let st = st\<lparr>input := inp, buf_size := uint n, cursor_pos := uint n\<rparr>;
                st = wr (CR # ''> '') st
            in bind_res (wr_input 0 (buf_size st) st) (\<lambda>st.
                 Inr (wr_times (buf_size st) (int MAX_INPUT) [BS]
                   (wr_times (buf_size st) (int MAX_INPUT) '' '' st)))))
      else Inr st)"

definition fetch_history :: "int \<Rightarrow> sh \<Rightarrow> sh res" where
  "fetch_history direction st =
     (if direction = 1 then
        if history_pos st = history_count st - 1 then Inr st
        else fetch_show (st\<lparr>history_pos := history_pos st + 1\<rparr>)
      else if direction = - 1 then
        if history_pos st = 0 then fetch_clear st
        else if history_pos st = - 1 then Inr st
        else fetch_show (st\<lparr>history_pos := history_pos st - 1\<rparr>)
      else fetch_show st)"

definition shift_row :: "nat \<Rightarrow> string list \<Rightarrow> string list res" where
  "shift_row i h =
     (if i < length h then
        bind_res (memset (h ! i) NUL MAX_INPUT) (\<lambda>row.
        bind_res (strncpy row (h ! (i - 1)) (of_nat MAX_INPUT)) (\<lambda>row. Inr (h[i := row])))
      else Inl UndefinedAccess)"

definition save_to_history :: "string \<Rightarrow> sh \<Rightarrow> sh res" where
  "save_to_history inp st =
     (if buf_size st = 0 then Inr st
      else
        bind_res (foldM shift_row (rev [1..<MAX_HISTORY]) (history st)) (\<lambda>h.
        if h = [] then Inl UndefinedAccess
        else
          bind_res (strncpy (h ! 0) inp (of_nat MAX_INPUT)) (\<lambda>row.
          bind_res (put_ch row (buf_size st) NUL) (\<lambda>row.
            Inr (st\<lparr>history := h[0 := row],
                    history_count := (if history_count st < int MAX_HISTORY
                      then history_count st + 1 else history_count st)\<rparr>)))))"

section \<open>Editing\<close>

definition handle_arrow_keys :: "char \<Rightarrow> sh \<Rightarrow> sh res" where
  "handle_arrow_keys c st =
     (if c = CHR ''D'' \<and> cursor_pos st > 0 then
        Inr (wr (ESC # ''[D'') (st\<lparr>cursor_pos := cursor_pos st - 1\<rparr>))
      else if c = CHR ''C'' \<and> cursor_pos st < buf_size st then
        Inr (wr (ESC # ''[C'') (st\<lparr>cursor_pos := cursor_pos st + 1\<rparr>))
      else if c = CHR ''B'' then fetch_history (- 1) st
      else if c = CHR ''A'' then fetch_history 1 st
      else Inr st)"

definition handle_new_line :: "sh \<Rightarrow> sh res" where
  "handle_new_line st =
     bind_res (save_to_history (input st) st) (\<lambda>st. Inr (wr_sizeof ''> '' st))"

definition handle_backspace_char :: "sh \<Rightarrow> sh res" where
  "handle_backspace_char st =
     (let st = st\<lparr>cursor_pos := cursor_pos st - 1, buf_size := buf_size st - 1\<rparr> in
      bind_res (foldM (\<lambda>i. copy_ch i (i + 1)) [cursor_pos st .. buf_size st] (input st)) (\<lambda>inp.
      let st = wr [BS] (st\<lparr>input := inp\<rparr>) in
      bind_res (wr_input (cursor_pos st) (buf_size st - cursor_pos st) st) (\<lambda>st.
        Inr (wr_times (cursor_pos st) (buf_size st + 1) [BS] (wr '' '' st)))))"

definition insert_char :: "char \<Rightarrow> sh \<Rightarrow> sh res" where
  "insert_char c st =
     bind_res (foldM (\<lambda>i. copy_ch i (i - 1)) (rev [cursor_pos st + 1 .. buf_size st]) (input st)) (\<lambda>inp.
     bind_res (put_ch inp (cursor_pos st) c) (\<lambda>inp.
     let st = st\<lparr>input := inp, buf_size := buf_size st + 1, cursor_pos := cursor_pos st + 1\<rparr> in
     bind_res (wr_input (cursor_pos st - 1) 1 st) (\<lambda>st.
     bind_res (wr_input (cursor_pos st) (buf_size st - cursor_pos st) st) (\<lambda>st.
       Inr (wr_times (cursor_pos st) (buf_size st) [BS] st)))))"

section \<open>Splitting a line\<close>

text \<open>
  The loop of \<open>tokenize_input\<close>: the buffer, the position of \<open>ptr\<close>, \<open>*argc\<close>, the array \<open>argv\<close>
  of \<open>MAX_ARGS\<close> entries, \<open>in_token\<close>.
\<close>

function tokenize_loop ::
    "string \<Rightarrow> nat \<Rightarrow> nat \<Rightarrow> aptr list \<Rightarrow> bool \<Rightarrow> (string \<times> nat \<times> aptr list) res" where
  "tokenize_loop buf ptr argc argv in_token =
     (if length buf \<le> ptr then Inl UndefinedAccess
      else if buf ! ptr \<noteq> NUL \<and> argc < MAX_ARGS then
        if buf ! ptr = CHR '' '' then
          if in_token then tokenize_loop (buf[ptr := NUL]) (ptr + 1) argc argv False
          else tokenize_loop buf (ptr + 1) argc argv in_token
        else if \<not> in_token then
          tokenize_loop buf (ptr + 1) (argc + 1) (argv[argc := Off ptr]) True
        else tokenize_loop buf (ptr + 1) argc argv in_token
      else Inr (buf, argc, argv))"
  by pat_completeness auto
termination
  by (relation "measure (\<lambda>(buf, ptr, _). length buf - ptr)") auto

declare tokenize_loop.simps [simp del]

definition tokenize_input :: "string \<Rightarrow> aptr list \<Rightarrow> (string \<times> nat \<times> aptr list) res" where
  "tokenize_input input_copy argv =
     bind_res (tokenize_loop input_copy 0 0 argv False) (\<lambda>(buf, argc, argv).
       if argc < length argv then Inr (buf, argc, argv[argc := NullPtr]) else Inl UndefinedAccess)"

text \<open>The string an entry of \<open>argv\<close> points to.\<close>

definition arg_str :: "string \<Rightarrow> aptr list \<Rightarrow> nat \<Rightarrow> string res" where
  "arg_str buf argv i =
     (if i < length argv then
        case argv ! i of Off p \<Rightarrow> Inr (drop p buf) | _ \<Rightarrow> Inl UndefinedAccess
      else Inl UndefinedAccess)"

section \<open>Commands\<close>

definition CRLF :: string where "CRLF = [CR, LF]"

text \<open>\<open>strcmp (argv[0], lit) == 0\<close>.\<close>

definition str_is :: "string \<Rightarrow> string \<Rightarrow> bool res" where
  "str_is s lit = bind_res (strcmp (Some s) (Some (lit @ [NUL]))) (\<lambda>r. Inr (r = 0))"

definition put_name :: "string \<Rightarrow> nat \<Rightarrow> sh \<Rightarrow> sh res" where
  "put_name arg i st =
     (let ptr = drop (i * SH_FS_NAMELEN) arg in
      bind_res (strlen ptr) (\<lambda>n. Inr (wr CRLF (wr (take (unat n) ptr) st))))"

text \<open>The array \<open>arg\<close> has \<open>num_programs * FS_NAMELEN\<close> elements, and must have at least one.\<close>

definition list_programs :: "senv \<Rightarrow> int \<Rightarrow> sh \<Rightarrow> sh res" where
  "list_programs env num_programs st =
     (if num_programs \<le> 0 then Inl UndefinedAccess
      else
        let st = call GetProgNames st;
            arg = take (nat num_programs * SH_FS_NAMELEN) (prog_names env (calls st))
        in foldM (put_name arg) [0..<nat num_programs] (wr CRLF st))"

definition int_bytes :: "int \<Rightarrow> string" where
  "int_bytes n = map (\<lambda>i. char_of (n div 256 ^ i)) [0..<4]"

definition put_proc :: "int list \<Rightarrow> string \<Rightarrow> nat \<Rightarrow> sh \<Rightarrow> sh res" where
  "put_proc pids names i st =
     (if length pids \<le> i \<or> length names < (i + 1) * SH_FS_NAMELEN then Inl UndefinedAccess
      else if pids ! i = - 1 then Inr st
      else
        let ptr = drop (i * SH_FS_NAMELEN) names;
            print = pids ! i + 48
        in Inr (wr CRLF (wr (take SH_FS_NAMELEN ptr) (wr ''     '' (wr (int_bytes print) st)))))"

definition list_processes :: "senv \<Rightarrow> sh \<Rightarrow> sh res" where
  "list_processes env st =
     (let st = call GetProcs st;
          pids = proc_pids env (calls st);
          names = proc_names env (calls st);
          st = wr_sizeof (''PID   THREAD NAME'' @ CRLF) (wr CRLF st)
      in foldM (put_proc pids names) [0..<SH_NPROC] st)"

fun sig_lookup :: "(string \<times> int) list \<Rightarrow> string \<Rightarrow> int res" where
  "sig_lookup [] s = Inr (- 1)"
| "sig_lookup ((name, n) # xs) s =
     bind_res (str_is s name) (\<lambda>b. if b then Inr n else sig_lookup xs s)"

definition sig_names :: "(string \<times> int) list" where
  "sig_names = [(''SIGTERM'', 1), (''SIGKILL'', 2), (''SIGINT'', 3), (''SIGALRM'', 4), (''SIGSTOP'', 5),
     (''SIGCONT'', 6), (''SIGPIPE'', 7), (''SIGUSR1'', 8), (''SIGUSR2'', 9)]"

text \<open>
  \<open>get_sig_num\<close> computes the number but has no \<open>return\<close> statement: what the caller reads is not
  defined, the value \<open>None\<close>.
\<close>

definition get_sig_num :: "string \<Rightarrow> sh \<Rightarrow> (int option \<times> sh) res" where
  "get_sig_num sig_name st =
     bind_res (sig_lookup sig_names sig_name) (\<lambda>result.
       let st = (if result < 0 then wr_sizeof ''Signal does not exist'' st else st)
       in Inr (None, wr CRLF st))"

definition cstr :: "string \<Rightarrow> string" where
  "cstr s = takeWhile (\<lambda>c. c \<noteq> NUL) s"

definition run_program :: "senv \<Rightarrow> string \<Rightarrow> sh \<Rightarrow> (int \<times> sh) ran res" where
  "run_program env program st =
     (if device_counter st = INT_MAX then Inl UndefinedAccess
      else
        let st = st\<lparr>device_counter := device_counter st + 1\<rparr>;
            st = call Fork st
        in if fork_result env (calls st) \<noteq> 0 then Inr (Returned (0, st))
           else
             let st = call (Msgout (AddrOf (char_of (device_counter st + 48)))) st;
                 st = call (DevOpen 0 ''ser'' (device_counter st)) st
             in if devopen_result env (calls st) < 0 then
                  Inr (Exited (call Exit (call (Msgout (Literal ''_devopen failed'')) st)))
                else
                  let st = call (FsOpen 2 (cstr program)) st
                  in if fsopen_result env (calls st) < 0 then
                       Inr (Exited (call Exit (call (Msgout (Literal ''_fsopen failed'')) st)))
                     else
                       let st = call (Exec 2) st
                       in if exec_returns env (calls st) then Inr (Returned (- 2, st))
                          else Inr (Exited st))"

definition print_help :: "sh \<Rightarrow> sh" where
  "print_help st =
     (let st = wr_sizeof CRLF st;
          st = wr_sizeof (''Supported commands:'' @ CRLF) st;
          st = wr_sizeof ('' - list: List runnable programs'' @ CRLF) st;
          st = wr_sizeof ('' - run <program>: Run a program'' @ CRLF) st;
          st = wr_sizeof ('' - clear: Clear the screen'' @ CRLF) st;
          st = wr_sizeof ('' - exit: Exit the shell'' @ CRLF) st;
          st = wr_sizeof ('' - help: Display this help message'' @ CRLF) st
      in wr_sizeof ('' - ps: List currently running processes'' @ CRLF) st)"

definition cmd_run :: "senv \<Rightarrow> nat \<Rightarrow> string \<Rightarrow> aptr list \<Rightarrow> sh \<Rightarrow> sh ran res" where
  "cmd_run env argc buf argv st =
     (if argc < 2 \<or> argc > 2 then
        Inr (Returned (wr_sizeof (''usage: run <program>'' @ CRLF) (wr CRLF st)))
      else
        bind_res (arg_str buf argv 1) (\<lambda>program.
        bind_ran (run_program env program st) (\<lambda>(result, st).
          let st = (if result < 0 then wr_sizeof ''failed to run program'' st else st)
          in Inr (Returned (wr CRLF st)))))"

definition cmd_signal :: "nat \<Rightarrow> string \<Rightarrow> aptr list \<Rightarrow> sh \<Rightarrow> sh ran res" where
  "cmd_signal argc buf argv st =
     (if argc = 3 then
        bind_res (arg_str buf argv 2) (\<lambda>s.
        bind_res (parse_int s) (\<lambda>pid.
        let st = (if pid < 0 \<or> pid > int SH_NPROC - 1
                  then wr_sizeof (''Invalid PID'' @ CRLF) (wr CRLF st) else st) in
        bind_res (arg_str buf argv 1) (\<lambda>name.
        bind_res (get_sig_num name st) (\<lambda>(result, st).
          case result of None \<Rightarrow> Inl UndefinedAccess
          | Some n \<Rightarrow> if n < 0 then Inr (Returned st)
                      else Inr (Returned (call (Signal pid n) st))))))
      else
        Inr (Returned (wr CRLF (wr_sizeof ''Usage: signal SIGNAL_NAME PID'' (wr CRLF st)))))"

definition execute_command :: "senv \<Rightarrow> nat \<Rightarrow> string \<Rightarrow> aptr list \<Rightarrow> sh \<Rightarrow> sh ran res" where
  "execute_command env argc buf argv st =
     (if argc = 0 then Inr (Returned (wr_sizeof CRLF st))
      else
        bind_res (arg_str buf argv 0) (\<lambda>cmd.
        bind_res (strncmp cmd (''list'' @ [NUL]) 4) (\<lambda>r.
        if r = 0 then
          let st = call GetNumProgs st
          in bind_res (list_programs env (num_progs env (calls st)) st) (\<lambda>st. Inr (Returned st))
        else bind_res (str_is cmd ''run'') (\<lambda>b. if b then cmd_run env argc buf argv st
        else bind_res (str_is cmd ''help'') (\<lambda>b. if b then Inr (Returned (print_help st))
        else bind_res (str_is cmd ''exit'') (\<lambda>b.
          if b then Inr (Exited (call Exit (call (Msgout (Literal (''exiting shell'' @ [LF]))) st)))
        else bind_res (str_is cmd ''clear'') (\<lambda>b.
          if b then Inr (Returned (wr (ESC # ''[2J'' @ ESC # ''[H'') st))
        else bind_res (str_is cmd ''ps'') (\<lambda>b.
          if b then bind_res (list_processes env st) (\<lambda>st. Inr (Returned st))
        else bind_res (str_is cmd ''signal'') (\<lambda>b. if b then cmd_signal argc buf argv st
        else Inr (Returned
          (wr_sizeof CRLF (wr_sizeof ''unsupported command'' (wr_sizeof CRLF st)))))))))))))"

section \<open>The main loop\<close>

type_synonym reads = "(int \<times> char) list"

text \<open>
  \<open>_read (0, &c, 1)\<close>: the result, the value of \<open>c\<close> afterwards and the reads still to come;
  \<open>None\<close> when the call does not return.
\<close>

fun sys_read :: "reads \<Rightarrow> char \<Rightarrow> (int \<times> char \<times> reads) option" where
  "sys_read [] c = None"
| "sys_read ((n, b) # ks) c = Some (n, (if n > 0 then b else c), ks)"

datatype iter = Continue char reads sh | Finished sh | Waiting sh

definition enter :: "senv \<Rightarrow> sh \<Rightarrow> sh ran res" where
  "enter env st =
     bind_res (memcpy (replicate MAX_INPUT NUL) (input st) MAX_INPUT) (\<lambda>input_copy.
     bind_res (tokenize_input input_copy (replicate MAX_ARGS Unset)) (\<lambda>(buf, argc, argv).
     bind_ran (execute_command env argc buf argv st) (\<lambda>st.
     bind_res (handle_new_line st) (\<lambda>st.
     let st = foldl (\<lambda>st i. call (Msgout (Arg (argv ! i) buf)) st) st [0..<MAX_ARGS];
         st = st\<lparr>history_pos := - 1, buf_size := 0, cursor_pos := 0\<rparr>
     in bind_res (memset (input st) NUL MAX_INPUT) (\<lambda>inp.
          Inr (Returned (st\<lparr>input := inp\<rparr>)))))))"

definition handle_char :: "senv \<Rightarrow> char \<Rightarrow> reads \<Rightarrow> sh \<Rightarrow> iter res" where
  "handle_char env c ks st =
     (if c = CR then
        bind_res (enter env st) (\<lambda>r.
          case r of Returned st \<Rightarrow> Inr (Continue c ks st) | Exited st \<Rightarrow> Inr (Finished st))
      else if c = DEL then
        if cursor_pos st > 0 \<and> buf_size st > 0
        then bind_res (handle_backspace_char st) (\<lambda>st. Inr (Continue c ks st))
        else Inr (Continue c ks st)
      else if buf_size st \<ge> int MAX_INPUT - 1 then Inr (Continue c ks st)
      else bind_res (insert_char c st) (\<lambda>st. Inr (Continue c ks st)))"

text \<open>One pass of the loop. \<open>c\<close> is the local variable, which keeps its value between passes.\<close>

definition main_iter :: "senv \<Rightarrow> reads \<Rightarrow> char \<Rightarrow> sh \<Rightarrow> iter res" where
  "main_iter env ks c st =
     (case sys_read ks c of None \<Rightarrow> Inr (Waiting st) | Some (len, c, ks) \<Rightarrow>
        if len < 0 then
          Inr (Finished (call Exit (call (Msgout (Literal ''error encountered.'')) st)))
        else if c = ESC then
          (case sys_read ks c of None \<Rightarrow> Inr (Waiting st) | Some (n0, seq0, ks) \<Rightarrow>
          (case sys_read ks c of None \<Rightarrow> Inr (Waiting st) | Some (n1, seq1, ks) \<Rightarrow>
             if n0 \<le> 0 then Inl UndefinedAccess
             else if seq0 = CHR ''['' then
               if n1 \<le> 0 then Inl UndefinedAccess
               else bind_res (handle_arrow_keys seq1 st) (\<lambda>st. Inr (Continue c ks st))
             else handle_char env c ks st))
        else handle_char env c ks st)"

lemma sys_read_shorter: "sys_read ks c = Some (n, c', ks') \<Longrightarrow> length ks' < length ks"
  by (cases ks) auto

lemma handle_char_reads: "handle_char env c ks st = Inr (Continue c' ks' st') \<Longrightarrow> ks' = ks"
  by (auto simp: handle_char_def bind_res_def split: if_split_asm sum.split_asm ran.split_asm)

lemma main_iter_shorter:
  "main_iter env ks c st = Inr (Continue c' ks' st') \<Longrightarrow> length ks' < length ks"
  by (fastforce simp: main_iter_def bind_res_Inr_conv split: option.splits if_splits
      dest!: sys_read_shorter handle_char_reads)

datatype outcome = Idle sh | Ended sh

function main_loop :: "senv \<Rightarrow> reads \<Rightarrow> char \<Rightarrow> sh \<Rightarrow> outcome res" where
  "main_loop env ks c st =
     (case main_iter env ks c st of
        Inl e \<Rightarrow> Inl e
      | Inr (Continue c ks st) \<Rightarrow> main_loop env ks c st
      | Inr (Finished st) \<Rightarrow> Inr (Ended st)
      | Inr (Waiting st) \<Rightarrow> Inr (Idle st))"
  by pat_completeness auto
termination
  by (relation "measure (\<lambda>(env, ks, c, st). length ks)") (auto dest: main_iter_shorter)

declare main_loop.simps [simp del]

text \<open>The loop that waits for a first key: any result but 0 ends it.\<close>

fun first_key :: "reads \<Rightarrow> char \<Rightarrow> (char \<times> reads) option" where
  "first_key [] c = None"
| "first_key ((n, b) # ks) c =
     (let c = (if n > 0 then b else c) in if n \<noteq> 0 then Some (c, ks) else first_key ks c)"

definition shell_main :: "senv \<Rightarrow> reads \<Rightarrow> char \<Rightarrow> sh \<Rightarrow> outcome res" where
  "shell_main env ks c st =
     (case first_key ks c of None \<Rightarrow> Inr (Idle st)
      | Some (c, ks) \<Rightarrow>
          main_loop env ks c ((wr_sizeof ''> '' st)\<lparr>buf_size := 0, cursor_pos := 0,
            history_count := 0, history_pos := - 1\<rparr>))"

text \<open>The global variables before \<open>main\<close>: all zero, but for \<open>device_counter\<close>.\<close>

definition sh0 :: sh where
  "sh0 = \<lparr>history = replicate MAX_HISTORY (replicate MAX_INPUT NUL), input = replicate MAX_INPUT NUL,
     buf_size = 0, cursor_pos = 0, history_count = 0, history_pos = 0, device_counter = 1, calls = []\<rparr>"

section \<open>The edited line\<close>

text \<open>
  What an editing key does to the line, seen as the characters before and after the cursor.
  The line holds at most 63 characters.
\<close>

datatype ekey = Char char | Backspace | LeftArrow | RightArrow

fun edit :: "ekey \<Rightarrow> string \<times> string \<Rightarrow> string \<times> string" where
  "edit (Char c) (l, r) = (if length l + length r < 63 then (l @ [c], r) else (l, r))"
| "edit Backspace (l, r) = (butlast l, r)"
| "edit LeftArrow (l, r) = (if l = [] then (l, r) else (butlast l, last l # r))"
| "edit RightArrow (l, r) = (case r of [] \<Rightarrow> (l, r) | x # r \<Rightarrow> (l @ [x], r))"

fun key_reads :: "ekey \<Rightarrow> reads" where
  "key_reads (Char c) = [(1, c)]"
| "key_reads Backspace = [(1, DEL)]"
| "key_reads LeftArrow = [(1, ESC), (1, CHR ''[''), (1, CHR ''D'')]"
| "key_reads RightArrow = [(1, ESC), (1, CHR ''[''), (1, CHR ''C'')]"

fun plain_key :: "ekey \<Rightarrow> bool" where
  "plain_key (Char c) = (c \<notin> {NUL, CR, ESC, DEL})"
| "plain_key _ = True"

text \<open>The calls a key makes: the echo on the screen.\<close>

fun key_echo :: "ekey \<Rightarrow> string \<times> string \<Rightarrow> ucall list" where
  "key_echo (Char c) (l, r) =
     (if length l + length r < 63
      then [Write [c], Write r] @ replicate (length r) (Write [BS]) else [])"
| "key_echo Backspace (l, r) =
     (if l = [] then [] else [Write [BS], Write r, Write '' ''] @ replicate (Suc (length r)) (Write [BS]))"
| "key_echo LeftArrow (l, r) = (if l = [] then [] else [Write (ESC # ''[D'')])"
| "key_echo RightArrow (l, r) = (if r = [] then [] else [Write (ESC # ''[C'')])"

text \<open>The buffer holds the line, followed by the bytes \<open>z\<close>.\<close>

definition holds_line :: "sh \<Rightarrow> string \<Rightarrow> string \<Rightarrow> string \<Rightarrow> bool" where
  "holds_line st l r z \<longleftrightarrow>
     input st = l @ r @ z \<and> length (input st) = 64 \<and> z \<noteq> [] \<and>
     cursor_pos st = int (length l) \<and> buf_size st = int (length l + length r)"

definition blank :: "string \<Rightarrow> bool" where
  "blank z \<longleftrightarrow> set z \<subseteq> {NUL}"

lemma calls_call [simp]:
  "calls (call u st) = calls st @ [u]" "input (call u st) = input st"
  "buf_size (call u st) = buf_size st" "cursor_pos (call u st) = cursor_pos st"
  "history (call u st) = history st" "history_count (call u st) = history_count st"
  "history_pos (call u st) = history_pos st"
  by (simp_all add: call_def)

lemma wr_times_eq: "wr_times a b s st = st\<lparr>calls := calls st @ replicate (nat (b - a)) (Write s)\<rparr>"
proof -
  have "((wr s) ^^ n) st = st\<lparr>calls := calls st @ replicate n (Write s)\<rparr>" for n
    by (induction n) (simp_all add: wr_def call_def replicate_append_same)
  then show ?thesis by (simp add: wr_times_def)
qed

lemma copy_ch_app:
  "j = int (length xs + length ys + 1) \<Longrightarrow> i = int (length xs) \<Longrightarrow> ys = [] \<Longrightarrow>
   copy_ch i j (xs @ a # b # zs) = Inr (xs @ b # b # zs)"
  by (simp add: copy_ch_def get_ch_def put_ch_def nth_append list_update_append nat_add_distrib)

lemma shift_right_ok:
  "foldM (\<lambda>i. copy_ch i (i - 1)) (rev [int (length l) + 1 .. int (length l + length r)]) (l @ r @ x # z)
     = Inr (l @ hd (r @ [x]) # r @ z)"
proof (induction r arbitrary: x z rule: rev_induct)
  case Nil
  then show ?case by simp
next
  case (snoc y r)
  have "rev [int (length l) + 1 .. int (length l + length (r @ [y]))]
      = (int (length l + length r) + 1) # rev [int (length l) + 1 .. int (length l + length r)]"
    by (simp add: upto_rec2)
  moreover have "copy_ch (int (length l + length r) + 1) (int (length l + length r) + 1 - 1)
      (l @ (r @ [y]) @ x # z) = Inr ((l @ r) @ y # y # z)"
    by (simp add: copy_ch_def get_ch_def put_ch_def nth_append list_update_append nat_add_distrib)
  ultimately show ?case
    using snoc [of y "y # z"] by (cases r) (simp_all add: bind_res_def)
qed

lemma shift_left_ok:
  "foldM (\<lambda>i. copy_ch i (i + 1)) [int (length l) .. int (length l + length r)] (l @ x # r @ y # z)
     = Inr (l @ r @ y # y # z)"
proof (induction r arbitrary: l x)
  case Nil
  then show ?case by (simp add: copy_ch_app)
next
  case (Cons a r)
  have "[int (length l) .. int (length l + length (a # r))]
      = int (length l) # [int (length (l @ [a])) .. int (length (l @ [a]) + length r)]"
    by (simp add: upto_rec1)
  moreover have "copy_ch (int (length l)) (int (length l) + 1) (l @ x # (a # r) @ y # z)
      = Inr ((l @ [a]) @ a # r @ y # z)"
    by (simp add: copy_ch_app)
  ultimately show ?case using Cons [of "l @ [a]" a] by simp
qed

lemma insert_char_ok:
  assumes "holds_line st l r z"
  shows "insert_char c st = Inr (st\<lparr>input := (l @ [c]) @ r @ tl z, buf_size := buf_size st + 1,
    cursor_pos := cursor_pos st + 1, calls := calls st @ [Write [c], Write r] @ replicate (length r) (Write [BS])\<rparr>)"
proof -
  obtain x z' where z: "z = x # z'" using assms by (cases z) (auto simp: holds_line_def)
  then have i: "input st = l @ r @ x # z'" "cursor_pos st = int (length l)"
      "buf_size st = int (length l + length r)"
    using assms by (simp_all add: holds_line_def)
  have p: "put_ch (l @ hd (r @ [x]) # r @ z') (int (length l)) c = Inr (l @ c # r @ z')"
    by (simp add: put_ch_def list_update_append)
  show ?thesis
    unfolding insert_char_def i shift_right_ok bind_res_simps p
    by (simp add: wr_input_def z wr_times_eq wr_def nat_add_distrib)
      (simp add: call_def)
qed

lemma backspace_ok:
  assumes "holds_line st (l @ [a]) r z"
  shows "handle_backspace_char st = Inr (st\<lparr>input := l @ r @ hd z # z, buf_size := buf_size st - 1,
    cursor_pos := cursor_pos st - 1,
    calls := calls st @ [Write [BS], Write r, Write '' ''] @ replicate (Suc (length r)) (Write [BS])\<rparr>)"
proof -
  obtain x z' where z: "z = x # z'" using assms by (cases z) (auto simp: holds_line_def)
  then have i: "input st = l @ a # r @ x # z'" "cursor_pos st = int (length l) + 1"
      "buf_size st = int (length l + length r) + 1"
    using assms by (simp_all add: holds_line_def)
  show ?thesis
    unfolding handle_backspace_char_def i Let_def
    apply (simp add: i shift_left_ok [simplified])
    apply (simp add: wr_input_def z wr_times_eq wr_def nat_add_distrib)
    apply (simp add: call_def)
    done
qed

text \<open>One key: the loop reads it, updates the line and echoes it, and leaves the rest alone.\<close>

definition same_history :: "sh \<Rightarrow> sh \<Rightarrow> bool" where
  "same_history st st' \<longleftrightarrow> history st' = history st \<and> history_count st' = history_count st \<and>
     history_pos st' = history_pos st \<and> device_counter st' = device_counter st"

lemma same_history_simps [simp]:
  "same_history st st" "same_history st (call u st)"
  "same_history st (st\<lparr>input := i, buf_size := b, cursor_pos := p, calls := cs\<rparr>)"
  "same_history st (call u (st\<lparr>cursor_pos := p\<rparr>))"
  by (simp_all add: same_history_def call_def)

definition edited :: "ekey \<Rightarrow> sh \<Rightarrow> string \<times> string \<Rightarrow> sh \<Rightarrow> bool" where
  "edited k st lr st' \<longleftrightarrow> same_history st st' \<and> calls st' = calls st @ key_echo k lr \<and>
     (\<exists>z. blank z \<and> holds_line st' (fst (edit k lr)) (snd (edit k lr)) z)"

lemma editedI:
  "same_history st st' \<Longrightarrow> calls st' = calls st @ key_echo k lr \<Longrightarrow> blank z \<Longrightarrow> edit k lr = (l', r') \<Longrightarrow>
   holds_line st' l' r' z \<Longrightarrow> edited k st lr st'"
  by (auto simp: edited_def)

lemma edit_char_iter:
  assumes h: "holds_line st l r z" and b: "blank z" and c: "c \<notin> {NUL, CR, ESC, DEL}"
  shows "\<exists>st'. main_iter env ((1, c) # ks) c0 st = Inr (Continue c ks st') \<and> edited (Char c) st (l, r) st'"
proof (cases "length l + length r < 63")
  case True
  have "length z \<noteq> Suc 0" using True h by (auto simp: holds_line_def)
  then have "tl z \<noteq> []" using h by (cases z) (auto simp: holds_line_def)
  moreover have "blank (tl z)" using b by (cases z) (auto simp: blank_def)
  ultimately show ?thesis
    using True h c
    by (auto simp: main_iter_def handle_char_def insert_char_ok [OF h] MAX_INPUT_def
        intro!: editedI [where z = "tl z"]) (auto simp: holds_line_def)
next
  case False
  then show ?thesis using h c b
    by (auto simp: main_iter_def handle_char_def MAX_INPUT_def holds_line_def intro!: editedI)
qed

lemma edit_backspace_iter:
  assumes h: "holds_line st l r z" and b: "blank z"
  shows "\<exists>st'. main_iter env ((1, DEL) # ks) c0 st = Inr (Continue DEL ks st') \<and> edited Backspace st (l, r) st'"
proof (cases l rule: rev_cases)
  case Nil
  then show ?thesis using h b
    by (auto simp: main_iter_def handle_char_def holds_line_def intro!: editedI)
next
  case (snoc l' a)
  have h': "holds_line st (l' @ [a]) r z" using h snoc by simp
  have "blank (hd z # z)" using b h by (cases z) (auto simp: blank_def holds_line_def)
  then show ?thesis using h' snoc
    by (auto simp: main_iter_def handle_char_def backspace_ok [OF h'] intro!: editedI [where z = "hd z # z"])
      (auto simp: holds_line_def)
qed

lemma edit_arrow_iter:
  assumes h: "holds_line st l r z" and b: "blank z"
  shows "\<exists>st'. main_iter env ((1, ESC) # (1, CHR ''['') # (1, CHR ''D'') # ks) c0 st = Inr (Continue ESC ks st')
      \<and> edited LeftArrow st (l, r) st'"
    and "\<exists>st'. main_iter env ((1, ESC) # (1, CHR ''['') # (1, CHR ''C'') # ks) c0 st = Inr (Continue ESC ks st')
      \<and> edited RightArrow st (l, r) st'"
proof -
  show "\<exists>st'. main_iter env ((1, ESC) # (1, CHR ''['') # (1, CHR ''D'') # ks) c0 st = Inr (Continue ESC ks st')
      \<and> edited LeftArrow st (l, r) st'"
    using h b by (cases l rule: rev_cases)
      (auto simp: main_iter_def handle_arrow_keys_def wr_def holds_line_def intro!: editedI)
  show "\<exists>st'. main_iter env ((1, ESC) # (1, CHR ''['') # (1, CHR ''C'') # ks) c0 st = Inr (Continue ESC ks st')
      \<and> edited RightArrow st (l, r) st'"
    using h b by (cases r)
      (auto simp: main_iter_def handle_arrow_keys_def wr_def holds_line_def intro!: editedI)
qed

lemma edit_iter:
  assumes "holds_line st l r z" and "blank z" and "plain_key k"
  shows "\<exists>c' st'. main_iter env (key_reads k @ ks) c0 st = Inr (Continue c' ks st') \<and> edited k st (l, r) st'"
proof (cases k)
  case (Char c)
  then show ?thesis using edit_char_iter [OF assms(1,2), of c env ks c0] assms(3) by auto
next
  case Backspace
  then show ?thesis using edit_backspace_iter [OF assms(1,2), of env ks c0] by auto
next
  case LeftArrow
  then show ?thesis using edit_arrow_iter(1) [OF assms(1,2), of env ks c0] by auto
next
  case RightArrow
  then show ?thesis using edit_arrow_iter(2) [OF assms(1,2), of env ks c0] by auto
qed

text \<open>A sequence of keys.\<close>

fun key_echoes :: "ekey list \<Rightarrow> string \<times> string \<Rightarrow> ucall list" where
  "key_echoes [] lr = []"
| "key_echoes (k # ks) lr = key_echo k lr @ key_echoes ks (edit k lr)"

lemma edit_keys:
  assumes "holds_line st l r z" and "blank z" and "\<forall>k \<in> set keys. plain_key k"
  shows "\<exists>c' st' l' r' z'. main_loop env (concat (map key_reads keys) @ rest) c0 st = main_loop env rest c' st'
      \<and> same_history st st' \<and> calls st' = calls st @ key_echoes keys (l, r)
      \<and> fold edit keys (l, r) = (l', r') \<and> holds_line st' l' r' z' \<and> blank z'"
  using assms
proof (induction keys arbitrary: st l r z c0)
  case Nil
  then show ?case
    by (intro exI [of _ c0] exI [of _ st] exI [of _ l] exI [of _ r] exI [of _ z]) simp
next
  case (Cons k keys)
  obtain c1 st1 where i: "main_iter env (key_reads k @ concat (map key_reads keys) @ rest) c0 st
        = Inr (Continue c1 (concat (map key_reads keys) @ rest) st1)" and e: "edited k st (l, r) st1"
    using edit_iter [OF Cons.prems(1,2)] Cons.prems(3) by (metis list.set_intros(1))
  obtain l1 r1 z1 where e1: "edit k (l, r) = (l1, r1)" and h1: "holds_line st1 l1 r1 z1" "blank z1"
    using e by (auto simp: edited_def) (metis prod.collapse)
  from Cons.IH [OF h1, of c1] Cons.prems(3) i e e1 show ?case
    by (subst main_loop.simps) (auto simp: edited_def same_history_def)
qed

section \<open>Words\<close>

text \<open>The words of a line: the maximal runs of characters other than the space.\<close>

function words :: "string \<Rightarrow> string list" where
  "words [] = []"
| "words (c # s) =
     (if c = CHR '' '' then words s
      else (c # takeWhile (\<lambda>c. c \<noteq> CHR '' '') s) # words (dropWhile (\<lambda>c. c \<noteq> CHR '' '') s))"
  by pat_completeness auto
termination
  by (relation "measure length") (auto simp: le_imp_less_Suc length_dropWhile_le)

text \<open>What the loop makes of a line: the spaces it overwrites, the offsets it stores.\<close>

fun cut :: "bool \<Rightarrow> string \<Rightarrow> string" where
  "cut tok [] = []"
| "cut tok (c # s) = (if c = CHR '' '' then (if tok then NUL else c) # cut False s else c # cut True s)"

fun starts :: "bool \<Rightarrow> nat \<Rightarrow> string \<Rightarrow> nat list" where
  "starts tok p [] = []"
| "starts tok p (c # s) =
     (if c = CHR '' '' then starts False (Suc p) s
      else if tok then starts True (Suc p) s else p # starts True (Suc p) s)"

lemma starts_ge: "q \<in> set (starts tok p s) \<Longrightarrow> p \<le> q"
  by (induction tok p s rule: starts.induct) (auto split: if_splits)

lemma cut_length [simp]: "length (cut tok s) = length s"
  by (induction tok s rule: cut.induct) auto

lemma tokenize_loop_eq:
  assumes "no_nul s" and "argc + length (starts tok p s) < 10" and "length pre = p" and "length argv = 10"
  shows "tokenize_loop (pre @ s @ NUL # post) p argc argv tok =
    Inr (pre @ cut tok s @ NUL # post, argc + length (starts tok p s),
      take argc argv @ map Off (starts tok p s) @ drop (argc + length (starts tok p s)) argv)"
  using assms
proof (induction tok p s arbitrary: pre argc argv rule: starts.induct)
  case (1 tok p)
  then show ?case by (subst tokenize_loop.simps) (simp add: nth_append)
next
  case (2 tok p c s)
  have c: "c \<noteq> NUL" "no_nul s" using "2.prems"(1) by (auto simp: no_nul_def)
  have n: "(pre @ (c # s) @ NUL # post) ! p = c" "p < length (pre @ (c # s) @ NUL # post)"
    "(pre @ (c # s) @ NUL # post)[p := NUL] = pre @ NUL # s @ NUL # post"
    using "2.prems"(3) by (auto simp: nth_append list_update_append)
  have a: "argc < MAX_ARGS" using "2.prems"(2) by (simp add: MAX_ARGS_def)
  consider "c = CHR '' ''" tok | "c = CHR '' ''" "\<not> tok" | "c \<noteq> CHR '' ''" tok | "c \<noteq> CHR '' ''" "\<not> tok"
    by blast
  then show ?case
  proof cases
    case 1
    with "2.IH"(1) [of argc "pre @ [NUL]" argv] "2.prems" c n a show ?thesis
      by (subst tokenize_loop.simps) simp
  next
    case 2
    with "2.IH"(1) [of argc "pre @ [c]" argv] "2.prems" c n a show ?thesis
      by (subst tokenize_loop.simps) simp
  next
    case 3
    with "2.IH"(2) [of argc "pre @ [c]" argv] "2.prems" c n a show ?thesis
      by (subst tokenize_loop.simps) simp
  next
    case 4
    with "2.IH"(3) [of "Suc argc" "pre @ [c]" "argv[argc := Off p]"] "2.prems" c n a show ?thesis
      by (subst tokenize_loop.simps) (simp add: take_Suc_conv_app_nth MAX_ARGS_def)
  qed
qed

lemma cstr_simps [simp]: "cstr [] = []" "cstr (c # s) = (if c = NUL then [] else c # cstr s)"
  by (simp_all add: cstr_def)

lemma starts_words:
  "(\<not> tok \<longrightarrow> map (\<lambda>q. cstr (drop (q - p) (cut tok s @ NUL # post))) (starts tok p s) = words s) \<and>
   (tok \<longrightarrow> map (\<lambda>q. cstr (drop (q - p) (cut tok s @ NUL # post))) (starts tok p s)
       = words (dropWhile (\<lambda>c. c \<noteq> CHR '' '') s)
     \<and> (no_nul s \<longrightarrow> cstr (cut tok s @ NUL # post) = takeWhile (\<lambda>c. c \<noteq> CHR '' '') s))"
  if "no_nul s"
  using that
proof (induction tok p s rule: starts.induct)
  case (1 tok p)
  then show ?case by simp
next
  case (2 tok p c s)
  have c: "c \<noteq> NUL" "no_nul s" using "2.prems" by (auto simp: no_nul_def)
  have d: "drop (q - p) (x # xs) = drop (q - Suc p) xs" if "q \<in> set (starts b (Suc p) s)" for q b x xs
    using starts_ge [OF that] by (simp add: Suc_diff_Suc [symmetric, of p q] Suc_le_eq)
  have m: "map (\<lambda>q. cstr (drop (q - p) (x # xs))) (starts b (Suc p) s)
      = map (\<lambda>q. cstr (drop (q - Suc p) xs)) (starts b (Suc p) s)" for b x xs
    by (intro map_cong refl) (simp only: d)
  show ?case using "2.IH" c by (auto simp: m simp del: map_eq_conv drop_append)
qed

text \<open>The first entries of \<open>argv\<close> point to the given strings.\<close>

definition args_are :: "string \<Rightarrow> aptr list \<Rightarrow> string list \<Rightarrow> bool" where
  "args_are buf argv ws \<longleftrightarrow> length argv = 10 \<and> length ws < 10 \<and> argv ! length ws = NullPtr \<and>
     (\<forall>i < length ws. \<exists>p. argv ! i = Off p \<and> cstr (drop p buf) = ws ! i)"

lemma tokenize_words:
  assumes "no_nul s" and "length (words s) < 10"
  shows "\<exists>buf argv. tokenize_input (s @ NUL # post) (replicate MAX_ARGS Unset)
    = Inr (buf, length (words s), argv) \<and> args_are buf argv (words s)"
proof -
  let ?q = "starts False 0 s"
  let ?buf = "cut False s @ NUL # post"
  let ?argv = "map Off ?q @ drop (length ?q) (replicate MAX_ARGS Unset)"
  have w: "map (\<lambda>q. cstr (drop q ?buf)) ?q = words s"
    using starts_words [OF assms(1), of False 0 post] by simp
  then have l: "length ?q = length (words s)" by (metis length_map)
  have t: "tokenize_loop (s @ NUL # post) 0 0 (replicate MAX_ARGS Unset) False = Inr (?buf, length ?q, ?argv)"
    using tokenize_loop_eq [OF assms(1), of 0 False 0 "[]" "replicate MAX_ARGS Unset" post] assms(2) l
    by (simp add: MAX_ARGS_def)
  have e: "cstr (drop (?q ! i) ?buf) = words s ! i" if "i < length (words s)" for i
    using w that l by (metis (no_types, lifting) nth_map)
  show ?thesis
    using t l assms(2) e
    by (auto simp: tokenize_input_def args_are_def nth_append MAX_ARGS_def)
qed

section \<open>Saving and recalling lines\<close>

definition row_ok :: "string \<Rightarrow> bool" where
  "row_ok row \<longleftrightarrow> length row = 64 \<and> NUL \<in> set row"

definition hist_ok :: "sh \<Rightarrow> bool" where
  "hist_ok st \<longleftrightarrow> length (history st) = 10 \<and> (\<forall>row \<in> set (history st). row_ok row) \<and>
     0 \<le> history_count st \<and> history_count st \<le> 10"

text \<open>The lines remembered, the most recent first.\<close>

definition hist :: "sh \<Rightarrow> string list" where
  "hist st = take (nat (history_count st)) (map cstr (history st))"

lemma cstr_split: "NUL \<in> set row \<Longrightarrow> \<exists>post. row = cstr row @ NUL # post \<and> no_nul (cstr row)"
proof -
  assume "NUL \<in> set row"
  then obtain xs ys where "row = xs @ NUL # ys" "NUL \<notin> set xs" by (meson split_list_first)
  moreover from this have "cstr row = xs" by (simp add: cstr_def takeWhile_append)
  ultimately show ?thesis by (auto simp: no_nul_def)
qed

lemma cstr_line [simp]: "no_nul s \<Longrightarrow> cstr (s @ NUL # post) = s"
  by (induction s) (auto simp: no_nul_def)

lemma strncpy_line:
  assumes "no_nul s" and "length s < n" and "length s < length dst" and "n < 18446744073709551616"
  shows "strncpy dst (s @ NUL # post) (of_nat n) = Inr (s @ NUL # drop (Suc (length s)) dst)"
  using assms
proof (induction s arbitrary: dst n)
  case Nil
  then show ?case by (cases dst) (auto simp: word_unat_eq_iff unat_of_nat)
next
  case (Cons c s)
  obtain d dst' where d: "dst = d # dst'" using Cons.prems by (cases dst) auto
  obtain m where m: "n = Suc m" using Cons.prems by (cases n) auto
  have "unat (of_nat n :: u64) = n" using Cons.prems(4) by (simp add: unat_of_nat)
  then have "(of_nat n :: u64) \<noteq> 0" using m by auto
  moreover have "(of_nat n :: u64) - 1 = of_nat m" using m by simp
  ultimately show ?case using Cons d m by (auto simp: no_nul_def)
qed

lemma memset_all: "n \<le> length xs \<Longrightarrow> memset xs c n = Inr (replicate n c @ drop n xs)"
  by (induction xs c n rule: memset.induct) auto

lemma memcpy_all: "n \<le> length xs \<Longrightarrow> n \<le> length ys \<Longrightarrow> memcpy xs ys n = Inr (take n ys @ drop n xs)"
  by (induction xs ys n rule: memcpy.induct) auto

lemma strlen_line:
  "no_nul s \<Longrightarrow> length s < 64 \<Longrightarrow> \<exists>n. strlen (s @ NUL # post) = Inr n \<and> uint n = int (length s)"
  by (simp add: strlen_def strlen_loop_cstr unsigned_of_nat take_bit_nat_eq_self)

lemma row_okE:
  assumes "row_ok row"
  obtains post where "row = cstr row @ NUL # post" "no_nul (cstr row)" "length (cstr row) < 64"
proof -
  obtain post where r: "row = cstr row @ NUL # post" "no_nul (cstr row)"
    using cstr_split assms by (auto simp: row_ok_def)
  have "length row = 64" using assms by (simp add: row_ok_def)
  then have "length (cstr row) < 64" by (subst (asm) r(1)) simp
  with r show ?thesis by (rule that)
qed

lemma shift_row_ok:
  assumes "\<forall>row \<in> set h. row_ok row" and "0 < i" and "i < length h"
  shows "\<exists>row. shift_row i h = Inr (h[i := row]) \<and> row_ok row \<and> cstr row = cstr (h ! (i - 1))"
proof -
  have hi: "row_ok (h ! i)" "row_ok (h ! (i - 1))" using assms by auto
  from hi(2) obtain post where r: "h ! (i - 1) = cstr (h ! (i - 1)) @ NUL # post"
      "no_nul (cstr (h ! (i - 1)))" "length (cstr (h ! (i - 1))) < 64"
    by (rule row_okE)
  let ?s = "cstr (h ! (i - 1))"
  have "strncpy (replicate 64 NUL) (h ! (i - 1)) (of_nat 64)
      = Inr (?s @ NUL # drop (Suc (length ?s)) (replicate 64 NUL))"
    by (subst r(1), rule strncpy_line) (use r(2,3) in auto)
  then have "shift_row i h = Inr (h[i := ?s @ NUL # drop (Suc (length ?s)) (replicate 64 NUL)])"
    using hi(1) assms(3) by (simp add: shift_row_def memset_all MAX_INPUT_def row_ok_def)
  moreover have "row_ok (?s @ NUL # drop (Suc (length ?s)) (replicate 64 NUL))"
    using r(3) by (simp add: row_ok_def)
  ultimately show ?thesis using r(2) by fastforce
qed

lemma shift_rows_ok:
  assumes "\<forall>row \<in> set h. row_ok row" and "n < length h"
  shows "\<exists>h'. foldM shift_row (rev [1..<Suc n]) h = Inr h' \<and> length h' = length h \<and> (\<forall>row \<in> set h'. row_ok row) \<and>
    map cstr h' = cstr (h ! 0) # take n (map cstr h) @ drop (Suc n) (map cstr h)"
  using assms
proof (induction n arbitrary: h)
  case 0
  then show ?case by (cases h) auto
next
  case (Suc n)
  obtain row where row: "shift_row (Suc n) h = Inr (h[Suc n := row])" "row_ok row" "cstr row = cstr (h ! n)"
    using shift_row_ok [OF Suc.prems(1), of "Suc n"] Suc.prems(2) by auto
  have ok: "\<forall>row \<in> set (h[Suc n := row]). row_ok row"
    using Suc.prems(1) row(2) set_update_subset_insert [of h "Suc n" row] by blast
  obtain h' where h': "foldM shift_row (rev [1..<Suc n]) (h[Suc n := row]) = Inr h'" "length h' = length h"
      "\<forall>row \<in> set h'. row_ok row"
      "map cstr h' = cstr (h[Suc n := row] ! 0) # take n (map cstr (h[Suc n := row])) @ drop (Suc n) (map cstr (h[Suc n := row]))"
    using Suc.IH [OF ok] Suc.prems(2) by auto
  have "drop (Suc n) (map cstr (h[Suc n := row])) = cstr (h ! n) # drop (Suc (Suc n)) (map cstr h)"
    using Suc.prems(2) row(3) by (subst Cons_nth_drop_Suc [symmetric]) (auto simp: map_update drop_update_cancel)
  moreover have "take n (map cstr (h[Suc n := row])) = take n (map cstr h)"
    by (simp add: map_update)
  moreover have "take (Suc n) (map cstr h) = take n (map cstr h) @ [cstr (h ! n)]"
    using Suc.prems(2) by (simp add: take_Suc_conv_app_nth)
  ultimately have "map cstr h' = cstr (h ! 0) # take (Suc n) (map cstr h) @ drop (Suc (Suc n)) (map cstr h)"
    using h'(4) by simp
  then show ?case using row(1) h'(1-3) by (auto simp del: upt_Suc simp: upt_Suc_append)
qed

lemma hist_upd: "hist (st\<lparr>history := h, history_count := n\<rparr>) = take (nat n) (map cstr h)"
  by (simp add: hist_def)

lemma save_to_history_ok:
  assumes ok: "hist_ok st" and s: "no_nul s" "length s < 64" "s \<noteq> []" "buf_size st = int (length s)"
  shows "\<exists>h n. save_to_history (s @ NUL # post) st = Inr (st\<lparr>history := h, history_count := n\<rparr>) \<and>
    hist_ok (st\<lparr>history := h, history_count := n\<rparr>) \<and>
    hist (st\<lparr>history := h, history_count := n\<rparr>) = take 10 (s # hist st)"
proof -
  have rows: "\<forall>row \<in> set (history st). row_ok row" "length (history st) = 10"
    using ok by (auto simp: hist_ok_def)
  obtain h where h: "foldM shift_row (rev [1..<MAX_HISTORY]) (history st) = Inr h" "length h = 10"
      "\<forall>row \<in> set h. row_ok row" "map cstr h = cstr (history st ! 0) # take 9 (map cstr (history st))"
    using shift_rows_ok [OF rows(1), of 9] rows(2) by (auto simp: MAX_HISTORY_def)
  have r0: "row_ok (h ! 0)" using h(2,3) by auto
  let ?row = "s @ NUL # drop (Suc (length s)) (h ! 0)"
  let ?n = "if history_count st < 10 then history_count st + 1 else history_count st"
  have "strncpy (h ! 0) (s @ NUL # post) (of_nat 64) = Inr ?row"
    by (rule strncpy_line) (use s r0 in \<open>auto simp: row_ok_def\<close>)
  moreover have "put_ch ?row (int (length s)) NUL = Inr ?row" by (simp add: put_ch_def list_update_append)
  ultimately have sv: "save_to_history (s @ NUL # post) st = Inr (st\<lparr>history := h[0 := ?row],
      history_count := (if history_count st < 10 then history_count st + 1 else history_count st)\<rparr>)"
    using h(1,2) s(3,4) by (auto simp: save_to_history_def MAX_INPUT_def MAX_HISTORY_def)
  have "row_ok ?row" using r0 s(2) by (simp add: row_ok_def)
  then have ok': "\<forall>row \<in> set (h[0 := ?row]). row_ok row"
    using h(3) set_update_subset_insert [of h 0 ?row] by blast
  have m: "map cstr (h[0 := ?row]) = s # take 9 (map cstr (history st))"
    using h(4) s(1) by (simp add: map_update)
  have "take (nat (if history_count st < 10 then history_count st + 1 else history_count st))
      (map cstr (h[0 := ?row])) = take 10 (s # hist st)"
  proof (cases "history_count st < 10")
    case True
    then show ?thesis using ok unfolding m by (simp add: hist_def hist_ok_def nat_add_distrib min_def)
  next
    case False
    then have "history_count st = 10" using ok by (simp add: hist_ok_def)
    then show ?thesis unfolding m by (simp add: hist_def)
  qed
  then have "hist (st\<lparr>history := h[0 := ?row], history_count := ?n\<rparr>) = take 10 (s # hist st)"
    by (simp only: hist_upd)
  moreover have "hist_ok (st\<lparr>history := h[0 := ?row], history_count := ?n\<rparr>)"
    using ok ok' h(2) by (simp add: hist_ok_def)
  ultimately show ?thesis using sv by blast
qed

text \<open>Commands write to the terminal and make calls; they do not touch the line or the history.\<close>

definition line_kept :: "sh \<Rightarrow> sh \<Rightarrow> bool" where
  "line_kept st st' \<longleftrightarrow> input st' = input st \<and> buf_size st' = buf_size st \<and> cursor_pos st' = cursor_pos st \<and>
     history st' = history st \<and> history_count st' = history_count st \<and> history_pos st' = history_pos st"

lemma line_kept_refl [intro, simp]: "line_kept st st"
  by (simp add: line_kept_def)

lemma line_kept_trans: "line_kept st st' \<Longrightarrow> line_kept st' st'' \<Longrightarrow> line_kept st st''"
  by (simp add: line_kept_def)

lemma line_kept_call [simp]:
  "line_kept st (call u st') \<longleftrightarrow> line_kept st st'"
  "line_kept (call u st) st' \<longleftrightarrow> line_kept st st'"
  "line_kept st (st'\<lparr>device_counter := d\<rparr>) \<longleftrightarrow> line_kept st st'"
  by (simp_all add: line_kept_def)

lemma line_kept_wr [simp]:
  "line_kept st (wr s st') \<longleftrightarrow> line_kept st st'"
  "line_kept (wr s st) st' \<longleftrightarrow> line_kept st st'"
  "line_kept st (wr_sizeof s st') \<longleftrightarrow> line_kept st st'"
  "line_kept (wr_sizeof s st) st' \<longleftrightarrow> line_kept st st'"
  by (simp_all add: wr_def wr_sizeof_def)

lemma line_kept_foldM:
  assumes "foldM f xs st = Inr st'" and "\<And>x t t'. f x t = Inr t' \<Longrightarrow> line_kept t t'"
  shows "line_kept st st'"
  using assms(1)
proof (induction xs arbitrary: st)
  case (Cons x xs)
  then obtain t where "f x st = Inr t" "foldM f xs t = Inr st'" by (auto simp: bind_res_Inr_conv)
  with assms(2) Cons.IH show ?case by (blast intro: line_kept_trans)
qed simp

lemma line_kept_list_programs: "list_programs env n st = Inr st' \<Longrightarrow> line_kept st st'"
  by (auto simp: list_programs_def Let_def put_name_def bind_res_Inr_conv split: if_splits
      dest!: line_kept_foldM)

lemma line_kept_list_processes: "list_processes env st = Inr st' \<Longrightarrow> line_kept st st'"
  by (auto simp: list_processes_def Let_def put_proc_def split: if_splits dest!: line_kept_foldM)

lemma line_kept_run: "run_program env p st = Inr (Returned (n, st')) \<Longrightarrow> line_kept st st'"
  by (auto simp: run_program_def Let_def split: if_splits)

lemma execute_command_keeps:
  assumes "execute_command env argc buf argv st = Inr (Returned st')"
  shows "line_kept st st'"
proof -
  have run: "line_kept st st'" if "cmd_run env argc buf argv st = Inr (Returned st')"
    using that by (auto simp: cmd_run_def bind_res_Inr_conv bind_ran_Returned_conv Let_def
        split: if_splits dest: line_kept_run)
  have sig: "line_kept st st'" if "cmd_signal argc buf argv st = Inr (Returned st')"
    using that by (auto simp: cmd_signal_def bind_res_Inr_conv Let_def get_sig_num_def split: if_splits)
  show ?thesis
    using assms run sig unfolding execute_command_def print_help_def Let_def
    by (auto simp: bind_res_Inr_conv split: if_splits
        dest: line_kept_list_programs line_kept_list_processes)
qed

lemma msgouts_keep:
  "line_kept st (foldl (\<lambda>st i. call (Msgout (f i)) st) st is)"
  by (induction "is" arbitrary: st) (auto simp: line_kept_def)

text \<open>The state in which the shell waits for a new line.\<close>

definition at_prompt :: "sh \<Rightarrow> bool" where
  "at_prompt st \<longleftrightarrow> input st = replicate 64 NUL \<and> buf_size st = 0 \<and> cursor_pos st = 0 \<and>
     history_pos st = - 1 \<and> hist_ok st"

lemma at_prompt_line: "at_prompt st \<Longrightarrow> \<exists>z. blank z \<and> holds_line st [] [] z"
  by (intro exI [of _ "replicate 64 NUL"]) (auto simp: at_prompt_def holds_line_def blank_def)

text \<open>Enter: the words are executed, the line is saved, and the shell prompts again.\<close>

definition enters :: "senv \<Rightarrow> sh \<Rightarrow> string \<Rightarrow> string list \<Rightarrow> sh ran res \<Rightarrow> bool" where
  "enters env st s lines r \<longleftrightarrow> (\<exists>buf argv. args_are buf argv (words s) \<and>
     (case execute_command env (length (words s)) buf argv st of
        Inl e \<Rightarrow> r = Inl e
      | Inr (Exited t) \<Rightarrow> r = Inr (Exited t)
      | Inr (Returned t) \<Rightarrow> (\<exists>t'. r = Inr (Returned t') \<and> at_prompt t' \<and> hist t' = lines)))"

lemma entersI:
  assumes "args_are buf argv (words s)"
    and "case execute_command env (length (words s)) buf argv st of
        Inl e \<Rightarrow> r = Inl e
      | Inr (Exited t) \<Rightarrow> r = Inr (Exited t)
      | Inr (Returned t) \<Rightarrow> (\<exists>t'. r = Inr (Returned t') \<and> at_prompt t' \<and> hist t' = lines)"
  shows "enters env st s lines r"
  using assms unfolding enters_def by blast

lemma handle_new_line_ok:
  assumes "hist_ok st" and "input st = s @ NUL # post" and "no_nul s" and "length s < 64"
    and "buf_size st = 0 \<or> buf_size st = int (length s)"
  shows "\<exists>st'. handle_new_line st = Inr st' \<and> hist_ok st' \<and> input st' = input st \<and>
    hist st' = (if buf_size st = 0 then hist st else take 10 (s # hist st))"
proof (cases "buf_size st = 0")
  case True
  then show ?thesis
    using assms(1) by (auto simp: handle_new_line_def save_to_history_def wr_sizeof_def hist_ok_def hist_def)
next
  case False
  then have "s \<noteq> []" "buf_size st = int (length s)" using assms(5) by auto
  from save_to_history_ok [OF assms(1,3,4) this, of post] False assms(2) show ?thesis
    by (auto simp: handle_new_line_def wr_sizeof_def hist_ok_def hist_def)
qed

lemma enter_ok:
  assumes st: "hist_ok st" "input st = s @ NUL # post" "length (input st) = 64" "no_nul s"
    and w: "length (words s) < 10"
    and b: "buf_size st = 0 \<or> buf_size st = int (length s)"
  shows "enters env st s (if buf_size st = 0 then hist st else take 10 (s # hist st)) (enter env st)"
proof -
  have s64: "length s < 64" using st(2,3) by simp
  obtain buf argv where t: "tokenize_input (s @ NUL # post) (replicate MAX_ARGS Unset)
      = Inr (buf, length (words s), argv)" and a: "args_are buf argv (words s)"
    using tokenize_words [OF st(4) w] by blast
  have cp: "memcpy (replicate MAX_INPUT NUL) (input st) MAX_INPUT = Inr (s @ NUL # post)"
    using st(2,3) by (subst memcpy_all) (auto simp: MAX_INPUT_def)
  note e = enter_def [of env st, unfolded cp bind_res_simps t prod.case]
  show ?thesis
  proof (cases "execute_command env (length (words s)) buf argv st")
    case (Inl f)
    then show ?thesis by (intro entersI [OF a]) (simp add: e)
  next
    case (Inr r)
    show ?thesis
    proof (cases r)
      case (Exited u)
      then show ?thesis using Inr by (intro entersI [OF a]) (simp add: e)
    next
      case (Returned u)
      have k: "line_kept st u" using execute_command_keeps Inr Returned by blast
      then have u: "hist_ok u" "input u = s @ NUL # post" "buf_size u = buf_size st" "hist u = hist st"
        using st by (auto simp: line_kept_def hist_ok_def hist_def)
      obtain v where v: "handle_new_line u = Inr v" "hist_ok v" "input v = input u"
          "hist v = (if buf_size st = 0 then hist st else take 10 (s # hist st))"
        using handle_new_line_ok [OF u(1,2) st(4) s64] b u by auto
      let ?x = "foldl (\<lambda>st i. call (Msgout (Arg (argv ! i) buf)) st) v [0..<MAX_ARGS]"
      have x: "line_kept v ?x" by (rule msgouts_keep)
      have i: "length (input ?x) = 64" using x v(3) u(2) st(2,3) by (simp add: line_kept_def)
      have "enter env st = Inr (Returned (?x\<lparr>history_pos := - 1, buf_size := 0, cursor_pos := 0,
          input := replicate 64 NUL\<rparr>))"
        using Inr Returned v(1) i by (simp add: e Let_def memset_all MAX_INPUT_def)
      moreover have "at_prompt (?x\<lparr>history_pos := - 1, buf_size := 0, cursor_pos := 0, input := replicate 64 NUL\<rparr>)"
        using x v(2) by (simp add: at_prompt_def hist_ok_def line_kept_def)
      moreover have "hist (?x\<lparr>history_pos := - 1, buf_size := 0, cursor_pos := 0, input := replicate 64 NUL\<rparr>)
          = (if buf_size st = 0 then hist st else take 10 (s # hist st))"
        using x v(4) by (simp add: hist_def line_kept_def)
      ultimately show ?thesis using Inr Returned by (intro entersI [OF a]) auto
    qed
  qed
qed

text \<open>Enter in the main loop.\<close>

lemma main_loop_enter:
  "main_loop env ((1, CR) # rest) c st = (case enter env st of Inl e \<Rightarrow> Inl e
     | Inr (Returned t) \<Rightarrow> main_loop env rest CR t | Inr (Exited t) \<Rightarrow> Inr (Ended t))"
  by (subst main_loop.simps) (auto simp: main_iter_def handle_char_def split: sum.split ran.split)

definition then_loop :: "senv \<Rightarrow> reads \<Rightarrow> sh ran res \<Rightarrow> outcome res" where
  "then_loop env rest r = (case r of Inl e \<Rightarrow> Inl e
     | Inr (Returned t) \<Rightarrow> main_loop env rest CR t | Inr (Exited t) \<Rightarrow> Inr (Ended t))"

abbreviation UpArrow :: reads where "UpArrow \<equiv> [(1, ESC), (1, CHR ''[''), (1, CHR ''A'')]"
abbreviation DownArrow :: reads where "DownArrow \<equiv> [(1, ESC), (1, CHR ''[''), (1, CHR ''B'')]"

lemma fetch_show_ok:
  assumes ok: "hist_ok st" and i: "length (input st) = 64"
    and p: "0 \<le> history_pos st" "history_pos st < history_count st"
  shows "\<exists>st' post. fetch_show st = Inr st' \<and> hist_ok st' \<and> hist st' = hist st \<and>
    history_pos st' = history_pos st \<and> history_count st' = history_count st \<and>
    holds_line st' (hist st ! nat (history_pos st)) [] (NUL # post) \<and> no_nul (hist st ! nat (history_pos st))"
proof -
  let ?row = "history st ! nat (history_pos st)"
  have lt: "nat (history_pos st) < 10" "nat (history_pos st) < nat (history_count st)"
    using p ok by (auto simp: hist_ok_def)
  then have h: "hist st ! nat (history_pos st) = cstr ?row" using ok by (simp add: hist_def hist_ok_def)
  have "row_ok ?row" using ok lt(1) by (auto simp: hist_ok_def)
  then obtain post where r: "?row = cstr ?row @ NUL # post" "no_nul (cstr ?row)" "length (cstr ?row) < 64"
    by (rule row_okE)
  let ?inp = "cstr ?row @ NUL # drop (Suc (length (cstr ?row))) (input st)"
  have c: "strncpy (input st) ?row (of_nat 64) = Inr ?inp"
    by (subst (1) r(1), rule strncpy_line) (use r(2,3) i in auto)
  obtain n where n: "strlen ?inp = Inr n" "uint n = int (length (cstr ?row))"
    using strlen_line [OF r(2,3)] by blast
  have l: "length ?inp = 64" using i r(3) by simp
  have u: "length (history st) = 10" using ok by (simp add: hist_ok_def)
  show ?thesis
    using p c n l lt ok u r(2,3) unfolding h
    by (auto simp: fetch_show_def MAX_INPUT_def wr_input_def wr_times_eq wr_def Let_def holds_line_def
        hist_ok_def hist_def)
qed

lemma up_arrow_loop:
  assumes ok: "hist_ok st" "length (input st) = 64" and p: "- 1 \<le> history_pos st" "history_pos st < history_count st - 1"
  shows "\<exists>st' post. main_loop env (UpArrow @ rest) c st = main_loop env rest ESC st' \<and> hist_ok st' \<and>
    hist st' = hist st \<and> history_pos st' = history_pos st + 1 \<and> history_count st' = history_count st \<and>
    holds_line st' (hist st ! nat (history_pos st + 1)) [] (NUL # post) \<and>
    no_nul (hist st ! nat (history_pos st + 1))"
proof -
  let ?st = "st\<lparr>history_pos := history_pos st + 1\<rparr>"
  have h: "hist ?st = hist st" "hist_ok ?st" using ok by (simp_all add: hist_def hist_ok_def)
  obtain st' post where f: "fetch_show ?st = Inr st'" "hist_ok st'" "hist st' = hist st"
      "history_pos st' = history_pos st + 1" "history_count st' = history_count st"
      "holds_line st' (hist st ! nat (history_pos st + 1)) [] (NUL # post)"
      "no_nul (hist st ! nat (history_pos st + 1))"
    using fetch_show_ok [OF h(2)] ok p h(1) by auto
  then have "main_iter env (UpArrow @ rest) c st = Inr (Continue ESC rest st')"
    using p by (simp add: main_iter_def handle_arrow_keys_def fetch_history_def)
  then show ?thesis using f by (subst main_loop.simps) auto
qed

lemma up_arrows_loop:
  assumes ok: "hist_ok st" "input st = replicate 64 NUL" "history_pos st = - 1" and n: "n < length (hist st)"
  shows "\<exists>st' post. main_loop env (concat (replicate (Suc n) UpArrow) @ rest) c st = main_loop env rest ESC st' \<and>
    hist_ok st' \<and> hist st' = hist st \<and> history_pos st' = int n \<and> history_count st' = history_count st \<and>
    holds_line st' (hist st ! n) [] (NUL # post) \<and> no_nul (hist st ! n)"
  using n
proof (induction n arbitrary: rest)
  case 0
  have "0 < history_count st" using 0 ok(1) by (auto simp: hist_def)
  then show ?case using up_arrow_loop [of st env rest c] ok by auto
next
  case (Suc n)
  have sp: "concat (replicate (Suc (Suc n)) UpArrow) @ rest
      = concat (replicate (Suc n) UpArrow) @ UpArrow @ rest"
    by (simp only: replicate_Suc [of "Suc n"] replicate_append_same [symmetric] concat_append append_assoc) simp
  have c: "int (Suc n) < history_count st" using Suc.prems ok(1) by (auto simp: hist_def hist_ok_def)
  obtain st1 post where s1: "main_loop env (concat (replicate (Suc n) UpArrow) @ UpArrow @ rest) c st
        = main_loop env (UpArrow @ rest) ESC st1"
      "hist_ok st1" "hist st1 = hist st" "history_pos st1 = int n" "history_count st1 = history_count st"
      "holds_line st1 (hist st ! n) [] (NUL # post)"
    using Suc.IH [of "UpArrow @ rest"] Suc.prems by auto
  have "length (input st1) = 64" using s1(6) unfolding holds_line_def by blast
  then show ?case
    using up_arrow_loop [of st1 env rest ESC] s1 c sp by (auto simp: nat_add_distrib)
qed

lemma plain_edit_no_nul:
  "plain_key k \<Longrightarrow> no_nul l \<Longrightarrow> no_nul r \<Longrightarrow> edit k (l, r) = (l', r') \<Longrightarrow> no_nul l' \<and> no_nul r'"
proof (cases k)
  case LeftArrow
  assume "no_nul l" "no_nul r" "edit k (l, r) = (l', r')"
  then show ?thesis using LeftArrow
    by (cases l rule: rev_cases) (auto simp: no_nul_def)
qed (auto simp: no_nul_def dest: in_set_butlastD split: if_split_asm list.split_asm)

lemma plain_edits_no_nul:
  "\<forall>k \<in> set ks. plain_key k \<Longrightarrow> no_nul l \<Longrightarrow> no_nul r \<Longrightarrow> fold edit ks (l, r) = (l', r') \<Longrightarrow> no_nul l' \<and> no_nul r'"
proof (induction ks arbitrary: l r)
  case (Cons k ks)
  obtain l1 r1 where e: "edit k (l, r) = (l1, r1)" by force
  have "no_nul l1 \<and> no_nul r1" using plain_edit_no_nul [OF _ _ _ e] Cons.prems by simp
  with Cons.IH [of l1 r1] Cons.prems e show ?case by simp
qed simp

section \<open>Properties\<close>

text \<open>
  C13. Typing a line. From the prompt, any sequence of characters, backspaces and left and
  right arrows followed by Enter leaves in the buffer exactly the line those keys spell
  (\<open>edit\<close>, at most 63 characters), splits it into its words, executes the command with those
  arguments and nothing else, and, when the command returns, adds the line to the history (the
  ten most recent are kept) and prompts again with an empty buffer.
\<close>

theorem shell_line_correct:
  assumes "at_prompt st" and "\<forall>k \<in> set keys. plain_key k"
    and "fold edit keys ([], []) = (l, r)" and "length (words (l @ r)) < 10"
  shows "\<exists>st1 res. calls st1 = calls st @ key_echoes keys ([], []) \<and>
    enters env st1 (l @ r) (if l @ r = [] then hist st else take 10 ((l @ r) # hist st)) res \<and>
    main_loop env (concat (map key_reads keys) @ (1, CR) # rest) c st = then_loop env rest res"
proof -
  obtain z where z: "blank z" "holds_line st [] [] z" using at_prompt_line [OF assms(1)] by blast
  obtain c1 st1 z1 where k: "main_loop env (concat (map key_reads keys) @ (1, CR) # rest) c st
        = main_loop env ((1, CR) # rest) c1 st1"
      "same_history st st1" "calls st1 = calls st @ key_echoes keys ([], [])" "holds_line st1 l r z1" "blank z1"
    using edit_keys [OF z(2,1) assms(2), of env "(1, CR) # rest" c] assms(3) by auto
  have nn: "no_nul (l @ r)" using plain_edits_no_nul [OF assms(2) _ _ assms(3)] by (auto simp: no_nul_def)
  obtain post where p: "input st1 = (l @ r) @ NUL # post"
    using k(4,5) by (cases z1) (auto simp: holds_line_def blank_def)
  have h: "hist_ok st1" "hist st1 = hist st"
    using k(2) assms(1) by (auto simp: same_history_def at_prompt_def hist_ok_def hist_def)
  have b: "buf_size st1 = int (length (l @ r))" "length (input st1) = 64"
    using k(4) unfolding holds_line_def by auto
  have e: "buf_size st1 = 0 \<longleftrightarrow> l @ r = []" unfolding b(1) by (simp only: of_nat_eq_0_iff length_0_conv)
  have "enters env st1 (l @ r) (if l @ r = [] then hist st else take 10 ((l @ r) # hist st)) (enter env st1)"
    using enter_ok [OF h(1) p b(2) nn assms(4) disjI2 [OF b(1)], of env] unfolding e h(2) .
  with k(1,3) show ?thesis unfolding main_loop_enter then_loop_def by blast
qed

text \<open>
  C31. The history. From the prompt, pressing the up arrow \<open>n + 1\<close> times puts the line entered
  \<open>n + 1\<close> lines ago in the buffer, and Enter then executes the words of that line.
\<close>

theorem shell_recall_correct:
  assumes "at_prompt st" and "n < length (hist st)" and "length (words (hist st ! n)) < 10"
  shows "\<exists>st1 post res. holds_line st1 (hist st ! n) [] (NUL # post) \<and>
    enters env st1 (hist st ! n)
      (if hist st ! n = [] then hist st else take 10 (hist st ! n # hist st)) res \<and>
    main_loop env (concat (replicate (Suc n) UpArrow) @ (1, CR) # rest) c st = then_loop env rest res"
proof -
  obtain st1 post where k: "main_loop env (concat (replicate (Suc n) UpArrow) @ (1, CR) # rest) c st
        = main_loop env ((1, CR) # rest) ESC st1"
      "hist_ok st1" "hist st1 = hist st" "holds_line st1 (hist st ! n) [] (NUL # post)" "no_nul (hist st ! n)"
    using up_arrows_loop [OF _ _ _ assms(2), of env "(1, CR) # rest" c] assms(1) by (auto simp: at_prompt_def)
  have b: "input st1 = hist st ! n @ NUL # post" "length (input st1) = 64"
      "buf_size st1 = int (length (hist st ! n))"
    using k(4) unfolding holds_line_def by auto
  have "enters env st1 (hist st ! n) (if hist st ! n = [] then hist st else take 10 (hist st ! n # hist st))
      (enter env st1)"
    using enter_ok [OF k(2) b(1,2) k(5) assms(3), of env] b(3) k(3) by (auto split: if_splits)
  with k(1,4) show ?thesis unfolding main_loop_enter then_loop_def by blast
qed

text \<open>
  The down arrow on the most recent entry of the history clears the screen and sets the
  length of the line to 0, but leaves the recalled command in the buffer: Enter on the empty
  line executes it again.
\<close>

theorem shell_down_arrow_runs_hidden_line:
  assumes "at_prompt st" and "hist st \<noteq> []" and "length (words (hist st ! 0)) < 10"
  shows "\<exists>st1 res. buf_size st1 = 0 \<and> enters env st1 (hist st ! 0) (hist st) res \<and>
    main_loop env (UpArrow @ DownArrow @ (1, CR) # rest) c st = then_loop env rest res"
proof -
  obtain st1 post where k: "main_loop env (UpArrow @ DownArrow @ (1, CR) # rest) c st
        = main_loop env (DownArrow @ (1, CR) # rest) ESC st1"
      "hist_ok st1" "hist st1 = hist st" "history_pos st1 = 0"
      "holds_line st1 (hist st ! 0) [] (NUL # post)" "no_nul (hist st ! 0)"
    using up_arrows_loop [of st 0 env "DownArrow @ (1, CR) # rest" c] assms(1,2)
    by (auto simp: at_prompt_def)
  obtain st2 where f: "fetch_history (- 1) st1 = Inr st2" "input st2 = input st1" "buf_size st2 = 0"
      "hist_ok st2" "hist st2 = hist st"
    using k(2-4) by (simp add: fetch_history_def fetch_clear_def Let_def wr_def wr_times_eq hist_ok_def hist_def)
  have "main_iter env (DownArrow @ (1, CR) # rest) ESC st1 = Inr (Continue ESC ((1, CR) # rest) st2)"
    using f(1) by (simp add: main_iter_def handle_arrow_keys_def)
  then have m: "main_loop env (DownArrow @ (1, CR) # rest) ESC st1 = main_loop env ((1, CR) # rest) ESC st2"
    by (subst main_loop.simps) simp
  have b: "input st2 = hist st ! 0 @ NUL # post" "length (input st2) = 64"
    using k(5) f(2) unfolding holds_line_def by auto
  have "enters env st2 (hist st ! 0) (hist st) (enter env st2)"
    using enter_ok [OF f(4) b k(6) assms(3), of env] f(3,5) by simp
  with k(1) m f(3) show ?thesis unfolding main_loop_enter then_loop_def by metis
qed

text \<open>A shell that has been started, for the witnesses.\<close>

definition demo_senv :: senv where
  "demo_senv = \<lparr>fork_result = (\<lambda>_. 1), devopen_result = (\<lambda>_. 0), fsopen_result = (\<lambda>_. 0),
     exec_returns = (\<lambda>_. False), num_progs = (\<lambda>_. 0), prog_names = (\<lambda>_. []), proc_pids = (\<lambda>_. []),
     proc_names = (\<lambda>_. [])\<rparr>"

definition demo_sh :: sh where
  "demo_sh = sh0\<lparr>history_pos := - 1, history_count := 1,
     history := (''help'' @ replicate 60 NUL) # replicate 9 (replicate 64 NUL)\<rparr>"

lemma demo_sh_prompt: "at_prompt demo_sh" and demo_sh_hist: "hist demo_sh = [''help'']"
proof -
  show "at_prompt demo_sh"
    by (simp add: demo_sh_def sh0_def at_prompt_def hist_ok_def row_ok_def MAX_INPUT_def)
  show "hist demo_sh = [''help'']"
    by (simp add: demo_sh_def sh0_def hist_def cstr_def takeWhile_append)
qed

definition demo_keys :: "ekey list" where
  "demo_keys = [Char CHR ''p'', Char CHR ''x'', Backspace, LeftArrow, RightArrow, Char CHR ''s'']"

lemma demo_keys_edit: "fold edit demo_keys ([], []) = (''ps'', [])"
  by (simp add: demo_keys_def)

theorem shell_line_witness:
  "\<exists>st1 res. calls st1 = calls demo_sh @ key_echoes demo_keys ([], []) \<and>
    enters demo_senv st1 ''ps'' [''ps'', ''help''] res \<and>
    main_loop demo_senv (concat (map key_reads demo_keys) @ [(1, CR)]) NUL demo_sh = then_loop demo_senv [] res"
  using shell_line_correct [OF demo_sh_prompt _ demo_keys_edit, of demo_senv "[]" NUL]
  by (simp add: demo_keys_def demo_sh_hist)

theorem shell_recall_witness:
  "\<exists>st1 post res. holds_line st1 ''help'' [] (NUL # post) \<and> enters demo_senv st1 ''help'' [''help'', ''help''] res \<and>
    main_loop demo_senv (UpArrow @ [(1, CR)]) NUL demo_sh = then_loop demo_senv [] res"
  using shell_recall_correct [OF demo_sh_prompt, of 0 demo_senv "[]" NUL]
  by (simp add: demo_sh_hist)

theorem shell_down_arrow_witness:
  "\<exists>st1 res. buf_size st1 = 0 \<and> enters demo_senv st1 ''help'' [''help''] res \<and>
    main_loop demo_senv (UpArrow @ DownArrow @ [(1, CR)]) NUL demo_sh = then_loop demo_senv [] res"
  using shell_down_arrow_runs_hidden_line [OF demo_sh_prompt, of demo_senv "[]" NUL]
  by (simp add: demo_sh_hist)

end
