(* ===== verification/UserProg.thy ===== *)
theory UserProg
  imports Shell
begin

text \<open>
  The other programs of \<open>user/\<close>: \<open>fib.c\<close> and the initial programs. A program is the list of the system
  calls it makes; their results are those of \<open>senv\<close>, as for the shell. \<open>start.s\<close> makes \<open>main\<close> return to
  \<open>_exit\<close>, so a program whose \<open>main\<close> returns ends with that call, and \<open>_exec\<close> is the last call of a program
  unless it returns. \<open>hello.c\<close> calls functions that no file of \<open>user/\<close> defines.
\<close>

section \<open>Fibonacci numbers\<close>

lemma two_le: "(n :: u32) \<noteq> 0 \<Longrightarrow> n \<noteq> 1 \<Longrightarrow> 2 \<le> n"
proof -
  assume "n \<noteq> 0" "n \<noteq> 1"
  then have "unat n \<noteq> unat (0 :: u32)" "unat n \<noteq> unat (1 :: u32)" by (simp_all only: word_unat_eq_iff not_False_eq_True)
  then show ?thesis by (simp add: word_le_nat_alt)
qed

function fib :: "u32 \<Rightarrow> u32" where
  "fib n = (if n = 0 then 0 else if n = 1 then 1 else fib (n - 2) + fib (n - 1))"
  by pat_completeness auto
termination
proof (relation "measure unat")
  fix n :: u32 assume n: "n \<noteq> 0" "n \<noteq> 1"
  note le = two_le [OF n]
  then have "1 \<le> n" by (simp add: word_le_nat_alt)
  show "(n - 2, n) \<in> measure unat" "(n - 1, n) \<in> measure unat"
    using le \<open>1 \<le> n\<close> by (simp_all add: unat_sub word_le_nat_alt)
qed simp

declare fib.simps [simp del]

fun fibonacci :: "nat \<Rightarrow> nat" where
  "fibonacci 0 = 0"
| "fibonacci (Suc 0) = 1"
| "fibonacci (Suc (Suc k)) = fibonacci k + fibonacci (Suc k)"

lemma fib_fibonacci: "k < 2 ^ 32 \<Longrightarrow> fib (of_nat k) = of_nat (fibonacci k)"
proof (induction k rule: fibonacci.induct)
  case 1 then show ?case by (subst fib.simps) simp
next
  case 2 then show ?case by (subst fib.simps) simp
next
  case (3 k)
  have u: "unat (of_nat (Suc (Suc k)) :: u32) = Suc (Suc k)"
    using 3(3) by (simp only: unat_of_nat) simp
  then have "of_nat (Suc (Suc k)) \<noteq> (0 :: u32)" "of_nat (Suc (Suc k)) \<noteq> (1 :: u32)" by (metis unat_0 nat.simps(3)) (metis u unat_1 One_nat_def nat.inject nat.simps(3))
  then show ?case using 3 by (subst fib.simps) simp
qed

text \<open>The numbers that \<open>fib.c\<close> prints are right up to 47 and no further.\<close>

fun fib_pair :: "nat \<Rightarrow> int \<times> int" where
  "fib_pair 0 = (0, 1)"
| "fib_pair (Suc k) = (case fib_pair k of (a, b) \<Rightarrow> (b, a + b))"

lemma fib_pair_fibonacci: "fib_pair k = (int (fibonacci k), int (fibonacci (Suc k)))"
  by (induction k) simp_all

lemma fibonacci_mono: "fibonacci (Suc k) \<le> fibonacci (Suc (k + n))"
  by (induction n) auto

lemma fib_exact: "k < 2 ^ 32 \<Longrightarrow> unat (fib (of_nat k)) = fibonacci k \<longleftrightarrow> k \<le> 47"
proof -
  assume k: "k < 2 ^ 32"
  have "fib_pair 47 = (2971215073, 4807526976)" by code_simp
  then have "(int (fibonacci 47), int (fibonacci (Suc 47))) = (2971215073, 4807526976)" by (simp only: fib_pair_fibonacci)
  then have f: "fibonacci 47 = 2971215073" "fibonacci 48 = 4807526976" by simp_all
  have "fibonacci k < 2 ^ 32 \<longleftrightarrow> k \<le> 47"
  proof
    assume "k \<le> 47"
    show "fibonacci k < 2 ^ 32"
    proof (cases k)
      case (Suc j)
      then show ?thesis using fibonacci_mono [of j "46 - j"] \<open>k \<le> 47\<close> f(1) by simp
    qed simp
  next
    assume lt: "fibonacci k < 2 ^ 32"
    show "k \<le> 47"
    proof (rule ccontr)
      assume "\<not> k \<le> 47"
      then show False using fibonacci_mono [of 47 "k - 48"] lt f(2) by simp
    qed
  qed
  moreover have "unat (fib (of_nat k)) = fibonacci k mod 2 ^ 32" using fib_fibonacci [OF k] by (simp add: unat_of_nat)
  ultimately show ?thesis by (metis mod_less mod_less_divisor zero_less_numeral zero_less_power)
qed

section \<open>The program \<open>fib.c\<close>\<close>

text \<open>The buffer \<open>linebuf\<close> holds whatever was on the stack at first.\<close>

definition fib_fmt :: string where "fib_fmt = ''f(%u) = %u'' @ [LF, NUL]"

definition fib_line :: "u32 \<Rightarrow> ucall list \<times> string \<Rightarrow> (ucall list \<times> string) res" where
  "fib_line n s =
     (case s of (cs, linebuf) \<Rightarrow>
        bind_res (vsnprintf linebuf 64 fib_fmt [VWord (ucast n), VWord (ucast (fib n))]) (\<lambda>(_, linebuf).
          Inr (cs @ [Msgout (Literal (takeWhile (\<lambda>c. c \<noteq> NUL) linebuf))], linebuf)))"

definition fib_main :: "string \<Rightarrow> ucall list res" where
  "fib_main linebuf =
     bind_res (foldM fib_line (map of_nat [0..<60]) ([], linebuf)) (\<lambda>(cs, _). Inr (cs @ [Exit]))"

definition fib_text :: "nat \<Rightarrow> string" where
  "fib_text k = ''f('' @ num_str 10 k @ '') = '' @ num_str 10 (fibonacci k mod 2 ^ 32) @ [LF]"

lemma vgprintf_unsigned:
  "conversion list_putc (CHR ''u'') False 0 0 (VWord (ucast (w :: u32)) # ap) out =
     Inr (of_nat (length (num_str 10 (unat w))), ap, out @ num_str 10 (unat w))"
proof -
  have "unat w < 2 ^ 32" using unsigned_less [of w, where ?'a = nat] by simp
  then have "unat (ucast (ucast (ucast w :: u64) :: u32) :: u64) = unat w"
    by (simp add: unsigned_ucast_eq unsigned_take_bit_eq take_bit_nat_eq_self)
  then show ?thesis
    by (simp add: conversion_def conv_unsigned_def format_int_def format_digits_fit Let_def)
qed

lemma fib_fmt_text:
  "\<exists>n'. vgprintf list_putc fib_fmt [VWord (ucast n), VWord (ucast (m :: u32))] [] =
     Inr (n', ''f('' @ num_str 10 (unat (n :: u32)) @ '') = '' @ num_str 10 (unat m) @ [LF])"
  by (simp add: vgprintf_def fib_fmt_def parse_spec_def vgprintf_unsigned list_putc_def)

lemma num_str_length: "n < 10 ^ Suc k \<Longrightarrow> length (num_str 10 n) \<le> Suc k"
proof (induction k arbitrary: n)
  case 0
  then show ?case by (simp add: num_str.simps)
next
  case (Suc k)
  then have "n div 10 < 10 ^ Suc k" by (simp add: less_mult_imp_div_less mult.commute)
  from Suc.IH [OF this] show ?case by (subst num_str.simps) simp
qed

lemma num_str_no_nul: "NUL \<notin> set (num_str 10 n)"
  using foldl_num_str [of n] by (auto simp: is_dec_digit_def)

lemma fib_line_ok:
  assumes "length buf = 64" and "k < 60"
  shows "\<exists>buf'. fib_line (of_nat k) (cs, buf) = Inr (cs @ [Msgout (Literal (fib_text k))], buf') \<and> length buf' = 64"
proof -
  let ?m = "fib (of_nat k)"
  have k: "unat (of_nat k :: u32) = k" using assms(2) by (simp add: unat_of_nat)
  have m: "unat ?m = fibonacci k mod 2 ^ 32" using fib_fibonacci [of k] assms(2) by (simp add: unat_of_nat)
  obtain n' where t: "vgprintf list_putc fib_fmt [VWord (ucast (of_nat k :: u32)), VWord (ucast ?m)] [] = Inr (n', fib_text k)"
    using fib_fmt_text [of "of_nat k" ?m] unfolding k m fib_text_def by blast
  have "length (num_str 10 k) \<le> 2" using num_str_length [of k 1] assms(2) by simp
  moreover have "length (num_str 10 (fibonacci k mod 2 ^ 32)) \<le> 10" 
  proof -
    have "fibonacci k mod 2 ^ 32 < 2 ^ 32" by (rule mod_less_divisor) simp
    also have "\<dots> < (10 :: nat) ^ Suc 9" by simp
    finally show ?thesis using num_str_length [of _ 9] by simp
  qed
  ultimately have l: "length (fib_text k) \<le> 20" by (simp add: fib_text_def)
  have "takeWhile (\<lambda>c. c \<noteq> NUL) (fib_text k @ NUL # ys) = fib_text k" for ys
    using num_str_no_nul by (subst takeWhile_append2) (auto simp: fib_text_def)
  then show ?thesis
    using t l assms(1) by (simp add: fib_line_def vsnprintf_ok Let_def min_def)
qed

lemma fib_main_prints:
  assumes "length linebuf = 64"
  shows "fib_main linebuf = Inr (map (\<lambda>k. Msgout (Literal (fib_text k))) [0..<60] @ [Exit])"
proof -
  have "\<exists>buf. foldM fib_line (map of_nat [0..<n]) ([], linebuf) = Inr (map (\<lambda>k. Msgout (Literal (fib_text k))) [0..<n], buf) \<and>
      length buf = 64" if "n \<le> 60" for n
    using that
  proof (induction n)
    case (Suc n)
    then obtain buf where b: "foldM fib_line (map of_nat [0..<n]) ([], linebuf) = Inr (map (\<lambda>k. Msgout (Literal (fib_text k))) [0..<n], buf)"
      "length buf = 64" by auto
    then show ?case
      using fib_line_ok [of buf n "map (\<lambda>k. Msgout (Literal (fib_text k))) [0..<n]"] Suc.prems by (auto simp: foldM_append)
  qed (use assms in simp)
  from this [of 60] show ?thesis by (auto simp: fib_main_def)
qed

section \<open>The initial programs\<close>

text \<open>
  \<open>open_ser\<close> and \<open>exec_file\<close> are the two blocks of code the programs share: a failure is reported by
  \<open>_msgout\<close> and ends the program.
\<close>

definition exec_file :: "senv \<Rightarrow> int \<Rightarrow> string \<Rightarrow> ucall list \<Rightarrow> ucall list" where
  "exec_file env fd name cs =
     (let cs = cs @ [FsOpen fd name] in
      if fsopen_result env cs < 0 then cs @ [Msgout (Literal ''_fsopen failed''), Exit]
      else let cs = cs @ [Exec fd] in if exec_returns env cs then cs @ [Exit] else cs)"

definition open_ser :: "senv \<Rightarrow> int \<Rightarrow> (ucall list \<Rightarrow> ucall list) \<Rightarrow> ucall list \<Rightarrow> ucall list" where
  "open_ser env n k cs =
     (let cs = cs @ [DevOpen 0 ''ser'' n] in
      if devopen_result env cs < 0 then cs @ [Msgout (Literal ''_devopen failed''), Exit] else k cs)"

definition init0_main :: "ucall list" where
  "init0_main = [Msgout (Literal ''Hello, world!''), Exit]"

definition init1_main :: "senv \<Rightarrow> ucall list" where
  "init1_main env =
     (let cs = [DevOpen 0 ''ser'' 1] in
      if devopen_result env cs < 0 then cs @ [Exit] else cs @ [Write (''Hello, world!'' @ [CR, LF]), Close 0, Exit])"

definition init2_main :: "senv \<Rightarrow> ucall list" where
  "init2_main env = open_ser env 1 (exec_file env 1 ''trek'') []"

definition init_shell_main :: "senv \<Rightarrow> ucall list" where
  "init_shell_main env = open_ser env 1 (exec_file env 1 ''shell'') []"

text \<open>Both processes of \<open>init_fib_fib.c\<close> go on in the same way.\<close>

definition init_fib_fib_main :: "senv \<Rightarrow> ucall list" where
  "init_fib_fib_main env = exec_file env 0 ''fib'' [Fork]"

definition init_fib_rule30_main :: "senv \<Rightarrow> ucall list" where
  "init_fib_rule30_main env =
     (if fork_result env [Fork] \<noteq> 0 then exec_file env 1 ''fib'' [Fork]
      else open_ser env 1 (exec_file env 1 ''rule30'') [Fork])"

definition init_trek_rule30_main :: "senv \<Rightarrow> ucall list" where
  "init_trek_rule30_main env =
     (if fork_result env [Fork] \<noteq> 0 then open_ser env 1 (exec_file env 1 ''trek'') [Fork]
      else open_ser env 2 (exec_file env 1 ''rule30'') [Fork])"

text \<open>A program either executes a file that it has opened or ends with \<open>_exit\<close>, and says why it does.\<close>

lemma exec_file_ends:
  "last (exec_file env fd name cs) = Exit \<or> (last (exec_file env fd name cs) = Exec fd \<and>
     0 \<le> fsopen_result env (cs @ [FsOpen fd name]) \<and> \<not> exec_returns env (cs @ [FsOpen fd name, Exec fd]))"
  by (simp add: exec_file_def Let_def not_less)

lemma init_shell_executes:
  assumes "\<And>cs. 0 \<le> devopen_result env cs" and "\<And>cs. 0 \<le> fsopen_result env cs" and "\<And>cs. \<not> exec_returns env cs"
  shows "init_shell_main env = [DevOpen 0 ''ser'' 1, FsOpen 1 ''shell'', Exec 1]"
  using assms by (simp add: init_shell_main_def open_ser_def exec_file_def Let_def not_less)

end
