(* ===== verification/Frames.thy ===== *)
theory Frames
  imports Fork Intr
begin

text \<open>
  What each operation of the kernel leaves alone: operations on memory keep the state of the other
  components, operations on files keep the table of open files, and the operations of the
  scheduler and of the timer keep the threads free of dangling pointers (\<open>sched_typed\<close>).
\<close>

section \<open>What the operations on memory leave alone\<close>

text \<open>Operations on memory keep what a client's record adds to the state of the memory manager.\<close>

named_theorems vm_more \<open>operations on memory keep the rest of the state\<close>

lemma foldM_keeps:
  assumes "\<And>x s s'. f x s = Inr s' \<Longrightarrow> g s' = g s" and "foldM f xs s = Inr s'"
  shows "g s' = g s"
  using assms(2) by (induction xs arbitrary: s) (auto simp: bind_res_Inr_conv dest: assms(1))

lemma vm_upd_more [simp]:
  "vm.more (st\<lparr>pmem := m\<rparr>) = vm.more st" "vm.more (st\<lparr>free_list := p\<rparr>) = vm.more st"
  "vm.more (st\<lparr>heap_start := a\<rparr>) = vm.more st" "vm.more (st\<lparr>heap_end := a\<rparr>) = vm.more st"
  "vm.more (st\<lparr>satp := w\<rparr>) = vm.more st" "vm.more (set_pte a e st) = vm.more st"
  by (simp_all add: set_pte_def)

lemma alloc_page_vm_more [vm_more]: "memory_alloc_page st = Inr (p, st') \<Longrightarrow> vm.more st' = vm.more st"
  by (auto simp: memory_alloc_page_def Let_def split: if_splits)

lemma free_page_vm_more [vm_more]: "memory_free_page p st = Inr st' \<Longrightarrow> vm.more st' = vm.more st"
  by (auto simp: memory_free_page_def Let_def split: if_splits)

lemma kmalloc_vm_more [vm_more]: "kmalloc n st = Inr (a, st') \<Longrightarrow> vm.more st' = vm.more st"
  using arg_cong [OF kmalloc_frame [of n st a st'], of vm.more] by simp

lemma walk_loop_vm_more: "walk_loop n pt vma c st = Inr (p, st') \<Longrightarrow> vm.more st' = vm.more st"
  by (induction n pt vma c st rule: walk_loop.induct)
    (auto simp: Let_def bind_res_Inr_conv split: if_splits dest!: vm_more)

lemma walk_pt_vm_more [vm_more]: "walk_pt root vma c st = Inr (p, st') \<Longrightarrow> vm.more st' = vm.more st"
  unfolding walk_pt_def by (rule walk_loop_vm_more)

lemma map_page_vm_more [vm_more]: "memory_alloc_and_map_page vma fl st = Inr (p, st') \<Longrightarrow> vm.more st' = vm.more st"
  by (auto simp: memory_alloc_and_map_page_def bind_res_Inr_conv split: if_splits dest!: vm_more)

lemma map_loop_vm_more: "map_range_loop vma fl i n st = Inr (p, st') \<Longrightarrow> vm.more st' = vm.more st"
proof (induction vma fl i n st rule: map_range_loop.induct)
  case (2 vma fl i n st)
  from "2.prems" obtain r s where r: "memory_alloc_and_map_page (vma + of_nat i * PAGE_SIZE) fl st = Inr (r, s)"
    and rest: "if r = 0 then bind_res (foldM (\<lambda>i. memory_free_page (vma + of_nat i * PAGE_SIZE)) [0..<i] s) (\<lambda>st. Inr (0, st)) = Inr (p, st')
      else map_range_loop vma fl (Suc i) n s = Inr (p, st')" by (auto simp: bind_res_Inr_conv split: if_splits)
  have s: "vm.more s = vm.more st" using r by (rule vm_more)
  show ?case
  proof (cases "r = 0")
    case True
    then have "foldM (\<lambda>i. memory_free_page (vma + of_nat i * PAGE_SIZE)) [0..<i] s = Inr st'"
      using rest by (auto simp: bind_res_Inr_conv)
    then show ?thesis using foldM_keeps [of "\<lambda>i. memory_free_page (vma + of_nat i * PAGE_SIZE)" vm.more] vm_more s by metis
  next
    case False
    then show ?thesis using "2.IH" [OF False, of s] rest s by simp
  qed
qed simp

lemma map_range_vm_more [vm_more]: "memory_alloc_and_map_range vma n fl st = Inr (p, st') \<Longrightarrow> vm.more st' = vm.more st"
  unfolding memory_alloc_and_map_range_def Let_def by (rule map_loop_vm_more)

lemma page_flags_vm_more [vm_more]: "memory_set_page_flags vp fl st = Inr st' \<Longrightarrow> vm.more st' = vm.more st"
  by (auto simp: memory_set_page_flags_def bind_res_Inr_conv Let_def split: if_splits dest!: vm_more)

lemma range_flags_vm_more [vm_more]: "memory_set_range_flags vp n fl st = Inr st' \<Longrightarrow> vm.more st' = vm.more st"
  unfolding memory_set_range_flags_def Let_def by (erule foldM_keeps [rotated]) (rule vm_more)

lemma page_fault_vm_more [vm_more]: "memory_handle_page_fault vp st = Inr st' \<Longrightarrow> vm.more st' = vm.more st"
  by (auto simp: memory_handle_page_fault_def bind_res_Inr_conv Let_def split: if_splits dest!: vm_more)

lemma vstore_vm_more [vm_more]: "vstore va b st = Inr st' \<Longrightarrow> vm.more st' = vm.more st"
  by (auto simp: vstore_def split: if_splits option.splits)

lemma vstore_bytes_vm_more [vm_more]: "vstore_bytes va bs st = Inr st' \<Longrightarrow> vm.more st' = vm.more st"
  by (induction va bs st rule: vstore_bytes.induct) (auto simp: bind_res_Inr_conv dest!: vm_more)

lemma user_strncpy_vm_more [vm_more]: "user_strncpy dst s n st = Inr st' \<Longrightarrow> vm.more st' = vm.more st"
  by (induction dst s n st rule: user_strncpy.induct) (fastforce simp: bind_res_Inr_conv split: if_splits dest: vm_more)+

lemma reclaim_vm_more [vm_more]: "memory_space_reclaim st = Inr st' \<Longrightarrow> vm.more st' = vm.more st"
proof -
  have page: "reclaim_page root va s = Inr s' \<Longrightarrow> vm.more s' = vm.more s" for root va and s s' :: "'a vm_scheme"
    by (auto simp: reclaim_page_def bind_res_Inr_conv Let_def split: if_splits dest!: vm_more)
  show "vm.more st' = vm.more st" if r: "memory_space_reclaim st = Inr st'"
    using foldM_keeps [where g = vm.more, OF page r [unfolded memory_space_reclaim_def Let_def]] by simp
qed

lemma unmap_vm_more [vm_more]: "memory_unmap_and_free_user st = Inr st' \<Longrightarrow> vm.more st' = vm.more st"
proof -
  have page: "unmap_user_page root va s = Inr s' \<Longrightarrow> vm.more s' = vm.more s" for root va and s s' :: "'a vm_scheme"
    by (auto simp: unmap_user_page_def bind_res_Inr_conv Let_def split: if_splits dest!: vm_more)
  show "memory_unmap_and_free_user st = Inr st' \<Longrightarrow> vm.more st' = vm.more st"
    unfolding memory_unmap_and_free_user_def Let_def by (rule foldM_keeps [where g = vm.more, OF page])
qed

lemma clone_vm_more [vm_more]: "memory_space_clone mp mt asid st = Inr (r, st') \<Longrightarrow> vm.more st' = vm.more st"
proof -
  have page: "clone_page pr cr va s = Inr s' \<Longrightarrow> vm.more s' = vm.more s" for pr cr va and s s' :: "'a vm_scheme"
    by (auto simp: clone_page_def bind_res_Inr_conv Let_def split: if_splits dest!: vm_more)
  have "vm.more (fold (\<lambda>i st. if P i st then set_pte (a i) (e i st) st else st) xs s) = vm.more s"
    for P a e and xs :: "nat list" and s :: "'a vm_scheme"
    by (induction xs arbitrary: s) auto
  then have glob: "vm.more (copy_global_ptes mp cr s) = vm.more s" for cr and s :: "'a vm_scheme"
    unfolding copy_global_ptes_def .
  show "vm.more st' = vm.more st" if c: "memory_space_clone mp mt asid st = Inr (r, st')"
  proof -
    obtain a s where a: "memory_alloc_page st = Inr (a, s)" using c by (auto simp: memory_space_clone_def bind_res_Inr_conv)
    let ?s = "copy_global_ptes mp a (s\<lparr>pmem := zero_page (pmem s) a\<rparr>)"
    have "st' = s \<or> foldM (clone_page (mtag_to_root mt) a) (addr_range USER_START_VMA USER_END_VMA PAGE_SIZE) ?s = Inr st'"
      using c a by (auto simp: memory_space_clone_def Let_def bind_res_Inr_conv split: if_splits)
    then have "vm.more st' = vm.more s" using foldM_keeps [where g = vm.more, OF page] glob [of a] by fastforce
    then show ?thesis using vm_more(1) [OF a] by simp
  qed
qed


text \<open>What holds of the value of a function when it returns, with rules for sequencing.\<close>

definition all_res :: "('a \<Rightarrow> bool) \<Rightarrow> 'a res \<Rightarrow> bool" where
  "all_res P r \<longleftrightarrow> (case r of Inl e \<Rightarrow> True | Inr a \<Rightarrow> P a)"

lemma all_res_simps [simp]:
  "all_res P (Inl e)" "all_res P (Inr a) = P a" "all_res P (bind_res n f) = all_res (\<lambda>a. all_res P (f a)) n"
  "all_res P (if b then m else m') = (if b then all_res P m else all_res P m')"
  by (auto simp: all_res_def bind_res_def split: sum.splits)

lemma all_resD: "all_res P r \<Longrightarrow> r = Inr a \<Longrightarrow> P a"
  by (simp add: all_res_def)

lemma all_resI: "(\<And>a. r = Inr a \<Longrightarrow> P a) \<Longrightarrow> all_res P r"
  by (simp add: all_res_def split: sum.splits)

lemma all_res_mono: "all_res Q r \<Longrightarrow> (\<And>a. Q a \<Longrightarrow> P a) \<Longrightarrow> all_res P r"
  by (simp add: all_res_def split: sum.splits)

text \<open>For facts that hold on every path the conditions of the branches do not matter.\<close>

lemma all_paths:
  "P a \<Longrightarrow> all_res P (Inr a)" "all_res P (Inl e)" "all_res (\<lambda>a. all_res P (f a)) n \<Longrightarrow> all_res P (bind_res n f)"
  "all_res P m \<Longrightarrow> all_res P m' \<Longrightarrow> all_res P (if b then m else m')"
  "(\<And>x y. q = (x, y) \<Longrightarrow> all_res P (g x y)) \<Longrightarrow> all_res P (case q of (x, y) \<Rightarrow> g x y)"
  "all_res P m \<Longrightarrow> (\<And>z. all_res P (k z)) \<Longrightarrow> all_res P (case opt of None \<Rightarrow> m | Some z \<Rightarrow> k z)"
  by (auto split: prod.split option.split)

lemma vm_paths:
  "(\<And>p st'. vm.more st' = vm.more st \<Longrightarrow> P (p, st')) \<Longrightarrow> all_res P (memory_alloc_and_map_range vma n fl st)"
  "(\<And>st'. vm.more st' = vm.more st \<Longrightarrow> Q st') \<Longrightarrow> all_res Q (vstore_bytes va bs st)"
  "(\<And>st'. vm.more st' = vm.more st \<Longrightarrow> Q st') \<Longrightarrow> all_res Q (memory_set_range_flags vma n fl st)"
  by (auto intro!: all_resI dest: vm_more)

lemma io_paths: "(\<And>a. R a) \<Longrightarrow> all_res R (ioseek ops p s)" "(\<And>a. S a) \<Longrightarrow> all_res S (ioread_full ops n s)"
  by (auto intro: all_resI)

lemma segment_vm_more: "load_segment ops ph s st = Inr (r, s', st') \<Longrightarrow> vm.more st' = vm.more st"
proof -
  have "all_res (\<lambda>(r, s', st'). vm.more st' = vm.more st) (load_segment ops ph s st)"
    unfolding load_segment_def Let_def by (intro all_paths vm_paths io_paths) auto
  then show "load_segment ops ph s st = Inr (r, s', st') \<Longrightarrow> vm.more st' = vm.more st" by (auto dest: all_resD)
qed

lemma phdrs_vm_more: "load_phdrs ops eh i n s st = Inr (r, s', st') \<Longrightarrow> vm.more st' = vm.more st"
proof (induction n arbitrary: i s st)
  case (Suc n)
  from Suc.prems show ?case
    by (fastforce simp: Let_def bind_res_Inr_conv split: if_splits dest: segment_vm_more Suc.IH)
qed simp

lemma elf_vm_more: "elf_load ops s st = Inr (r, e, s', st') \<Longrightarrow> vm.more st' = vm.more st"
  by (auto simp: elf_load_def Let_def bind_res_Inr_conv split: if_splits dest!: phdrs_vm_more)

section \<open>The file table\<close>

text \<open>
  The flags and the reference counts of the open files. Reading, writing and seeking keep them;
  opening a file takes a slot that is free.
\<close>

definition file_view :: "'d fs \<Rightarrow> (u64 \<times> u32) list" where
  "file_view fs = map (\<lambda>f. (f_flags f, f_refcnt f)) (file_structs fs)"

lemma file_view_upd [simp]:
  "file_view (fs\<lparr>fs_lock := b\<rparr>) = file_view fs" "file_view (fs\<lparr>vioblk_io := d\<rparr>) = file_view fs"
  "file_view (fs\<lparr>fs_inode := bs\<rparr>) = file_view fs" "file_view (fs\<lparr>data_block := bs\<rparr>) = file_view fs"
  "file_view (fs_release fs) = file_view fs"
  by (simp_all add: file_view_def fs_release_def)

lemma file_view_set:
  assumes "f_flags f = f_flags (file_structs fs ! k)" and "f_refcnt f = f_refcnt (file_structs fs ! k)"
  shows "file_view (fs\<lparr>file_structs := (file_structs fs)[k := f]\<rparr>) = file_view fs"
  using assms by (cases "k < length (file_structs fs)") (simp_all add: file_view_def map_update list_update_same_conv list_update_beyond)

lemma load_inode_view: "fs_load_inode blk ino a b fs = Inr (r, fs') \<Longrightarrow> file_structs fs' = file_structs fs"
  by (auto simp: fs_load_inode_def Let_def bind_res_Inr_conv split: if_splits)

lemma read_loop_view: "fs_read_loop blk n pos out fs = Inr (r, p, o', fs') \<Longrightarrow> file_structs fs' = file_structs fs"
proof (induction n arbitrary: pos out fs rule: less_induct)
  case (less n)
  have "n - min n (4096 - unat (ucast (pos mod 4096) :: u32)) < n" if "0 < n" using that block_offset_less [of pos] by auto
  then show ?case using less.prems
    by (subst (asm) fs_read_loop.simps) (auto simp: Let_def split: if_splits sum.splits prod.splits dest!: less.IH [rotated])
qed

lemma write_loop_view: "fs_write_loop blk bs pos n fs = Inr (r, p, n', fs') \<Longrightarrow> file_structs fs' = file_structs fs"
proof (induction "length bs" arbitrary: bs pos n fs rule: less_induct)
  case less
  have "length (drop (min (length bs) (4096 - unat (ucast (pos mod 4096) :: u32))) bs) < length bs" if "bs \<noteq> []"
    using that block_offset_less [of pos] by auto
  then show ?case using less.prems
    by (subst (asm) fs_write_loop.simps) (auto simp: Let_def split: if_splits sum.splits prod.splits dest!: less.hyps [rotated])
qed


lemma with_lock_view:
  assumes "\<And>fs fs'. body fs = Inr (r, fs') \<Longrightarrow> file_view fs' = file_view fs" and "with_lock body fs = Inr (r, fs')"
  shows "file_view fs' = file_view fs"
  using assms(2) by (auto simp: with_lock_def fs_acquire_def bind_res_Inr_conv split: if_splits dest!: assms(1))

lemma fs_read_view: "fs_read blk k n fs = Inr (r, out, fs') \<Longrightarrow> file_view fs' = file_view fs"
proof -
  have "file_view t = file_view s" if b: "fs_read_body blk k n s = Inr (x, t)" for x and s t :: "'a fs"
  proof -
    from b consider "t = s" | r u where "fs_load_inode blk (inode_number (file_structs s ! k)) (- 1) (- 1) s = Inr (r, u)"
        "file_structs t = file_structs u \<or> (\<exists>pos. file_structs t = (file_structs u)[k := (file_structs s ! k)\<lparr>file_position := pos\<rparr>])"
      by (auto simp: fs_read_body_def Let_def bind_res_Inr_conv split: if_splits dest!: read_loop_view) blast+
    then show ?thesis
    proof cases
      case (2 r u)
      then have "file_structs u = file_structs s" by (auto dest: load_inode_view)
      with 2(2) show ?thesis using file_view_set [of _ s k] by (auto simp: file_view_def)
    qed simp
  qed
  note body = this
  show "file_view fs' = file_view fs" if "fs_read blk k n fs = Inr (r, out, fs')"
  proof (rule with_lock_view [OF body])
    show "with_lock (fs_read_body blk k n) fs = Inr ((r, out), fs')" using that by (auto simp: fs_read_def bind_res_Inr_conv)
  qed
qed

lemma fs_write_view: "fs_write blk k bs fs = Inr (r, fs') \<Longrightarrow> file_view fs' = file_view fs"
proof -
  have "file_view t = file_view s" if b: "fs_write_body blk k bs s = Inr (x, t)" for x and s t :: "'a fs"
  proof -
    from b consider "t = s" | r u where "fs_load_inode blk (inode_number (file_structs s ! k)) (- 1) (- 5) s = Inr (r, u)"
        "file_structs t = file_structs u \<or> (\<exists>pos. file_structs t = (file_structs u)[k := (file_structs s ! k)\<lparr>file_position := pos\<rparr>])"
      by (auto simp: fs_write_body_def Let_def bind_res_Inr_conv split: if_splits dest!: write_loop_view) blast+
    then show ?thesis
    proof cases
      case (2 r u)
      then have "file_structs u = file_structs s" by (auto dest: load_inode_view)
      with 2(2) show ?thesis using file_view_set [of _ s k] by (auto simp: file_view_def)
    qed simp
  qed
  then show "fs_write blk k bs fs = Inr (r, fs') \<Longrightarrow> file_view fs' = file_view fs"
    unfolding fs_write_def by (rule with_lock_view)
qed

lemma fs_ioctl_view: "fs_ioctl k cmd arg fs = Inr (r, v, fs') \<Longrightarrow> file_view fs' = file_view fs"
proof -
  have "file_view (fs\<lparr>fs_lock := True, file_structs := (file_structs fs)[k := snd (fs_setpos arg (file_structs fs ! k))]\<rparr>) = file_view fs"
    using file_view_set [of "snd (fs_setpos arg (file_structs fs ! k))" "fs\<lparr>fs_lock := True\<rparr>" k]
    by (auto simp: fs_setpos_def)
  then show "fs_ioctl k cmd arg fs = Inr (r, v, fs') \<Longrightarrow> file_view fs' = file_view fs"
    by (auto simp: fs_ioctl_def fs_acquire_def bind_res_Inr_conv Let_def split: if_splits prod.splits)
qed

text \<open>Reads and seeks through the operations of a file, and the loader on top of them.\<close>

lemma io_view:
  "call_read (fs_io_ops blk k) n fs = Inr (r, bs, fs') \<Longrightarrow> file_view fs' = file_view fs"
  "call_write (fs_io_ops blk k) ws fs = Inr (r, fs') \<Longrightarrow> file_view fs' = file_view fs"
  "call_ctl (fs_io_ops blk k) cmd arg fs = Inr (r, v, fs') \<Longrightarrow> file_view fs' = file_view fs"
  by (auto simp: call_read_def call_write_def call_ctl_def fs_io_ops_def dest: fs_read_view fs_write_view fs_ioctl_view)

lemma ioread_loop_view:
  assumes "\<And>n s r bs s'. rd n s = Inr (r, bs, s') \<Longrightarrow> g s' = g s" and "ioread_loop rd n acc buf s = Inr (r, bs, s')"
  shows "g s' = g s"
  using assms(2)
proof (induction "n - acc" arbitrary: acc buf s rule: less_induct)
  case less
  show ?case
  proof (cases "acc < n")
    case True
    then obtain cnt bs1 s1 where rd: "rd (n - acc) s = Inr (cnt, bs1, s1)"
      using less.prems by (subst (asm) ioread_loop.simps) (auto split: sum.splits)
    then consider "s' = s1" | "0 < cnt" "ioread_loop rd n (acc + nat cnt) (take acc buf @ bs1) s1 = Inr (r, bs, s')"
      using less.prems True by (subst (asm) ioread_loop.simps) (auto simp: Let_def split: if_splits)
    then show ?thesis
      using assms(1) [OF rd] less.hyps [of "acc + nat cnt" "take acc buf @ bs1" s1] True by cases auto
  next
    case False
    then show ?thesis using less.prems by (subst (asm) ioread_loop.simps) simp
  qed
qed

lemma elf_load_view:
  assumes rd: "\<And>f n s r bs s'. op_read ops = Some f \<Longrightarrow> f n s = Inr (r, bs, s') \<Longrightarrow> g s' = g s"
    and ctl: "\<And>f c a s r v s'. op_ctl ops = Some f \<Longrightarrow> f c a s = Inr (r, v, s') \<Longrightarrow> g s' = g s"
    and load: "elf_load ops s st = Inr (r, e, s', st')"
  shows "g s' = g s"
proof -
  have full: "g s' = g s" if "ioread_full ops n s = Inr (r, bs, s')" "r \<noteq> - ENOTSUP \<or> op_read ops \<noteq> None" for n s r bs s'
    using that ioread_loop_view [where g = g, OF rd] by (auto simp: ioread_full_def split: option.splits)
  have full: "g s' = g s" if "ioread_full ops n s = Inr (r, bs, s')" for n s r bs s'
    using that full by (cases "op_read ops") (auto simp: ioread_full_def)
  have io: "(\<And>r s'. g s' = g s \<Longrightarrow> P (r, s')) \<Longrightarrow> all_res P (ioseek ops p s)"
    "(\<And>r bs s'. g s' = g s \<Longrightarrow> Q (r, bs, s')) \<Longrightarrow> all_res Q (ioread_full ops n s)" for P Q p n s
    by (rule all_resI; fastforce simp: ioseek_def ioctl_def bind_res_Inr_conv split: option.splits dest: ctl)
      (rule all_resI; auto dest: full)
  have any: "(\<And>p st'. P (p, st')) \<Longrightarrow> all_res P (memory_alloc_and_map_range vma n fl st)"
    "(\<And>st'. Q st') \<Longrightarrow> all_res Q (vstore_bytes va bs st)" "(\<And>st'. Q st') \<Longrightarrow> all_res Q (memory_set_range_flags vma n fl st)"
    for P Q vma n fl va bs and st :: "'c vm_scheme" by (auto intro!: all_resI)
  have seg: "all_res (\<lambda>(r, s', st'). g s' = g s) (load_segment ops ph s st)" for ph s and st :: "'c vm_scheme"
    unfolding load_segment_def Let_def by (intro all_paths io any) auto
  have segI: "(\<And>r s' st'. g s' = g s \<Longrightarrow> P (r, s', st')) \<Longrightarrow> all_res P (load_segment ops ph s st)" for P ph s and st :: "'c vm_scheme"
    by (rule all_res_mono [OF seg]) auto
  have "all_res (\<lambda>(r, s', st'). g s' = g s0) (load_phdrs ops eh i n s st)" if "g s = g s0" for eh i n s s0 and st :: "'c vm_scheme"
    using that by (induction n arbitrary: i s st) (auto simp: Let_def simp del: all_res_simps intro!: all_paths io segI)
  then have hdrs: "(\<And>r s' st'. g s' = g s \<Longrightarrow> P (r, s', st')) \<Longrightarrow> all_res P (load_phdrs ops eh i n s st)" for P eh i n s and st :: "'c vm_scheme"
    by (rule all_res_mono) auto
  have "all_res (\<lambda>(r, e, s', st'). g s' = g s) (elf_load ops s st)"
    unfolding elf_load_def Let_def by (intro all_paths io hdrs) auto
  then show ?thesis using load by (auto dest: all_resD)
qed

lemma fs_open_view:
  assumes "fs_open blk name fs = Inr ((r, k), fs')"
  shows "(r < 0 \<and> file_view fs' = file_view fs) \<or> (\<exists>j. r = 0 \<and> k = Some j \<and> j < length (file_view fs) \<and>
    fst (file_view fs ! j) = 0 \<and> file_view fs' = (file_view fs)[j := (1, 1)])"
proof -
  obtain t where t: "fs_open_body blk name (fs\<lparr>fs_lock := True\<rparr>) = Inr ((r, k), t)" "file_view fs' = file_view t"
    using assms by (auto simp: fs_open_def with_lock_def fs_acquire_def bind_res_Inr_conv split: if_splits)
  show ?thesis
  proof (cases "find_file_slot (file_structs fs) 0")
    case None
    then show ?thesis using t by (auto simp: fs_open_body_def split: if_splits)
  next
    case (Some j)
    have j: "j < length (file_structs fs)" "f_flags (file_structs fs ! j) = 0" using find_file_slot_bounds [OF Some] by auto
    have keep: "file_view (fs\<lparr>fs_lock := True, vioblk_io := d, file_structs := (file_structs fs)[j := (file_structs fs ! j)\<lparr>file_position := 0, inode_number := ino\<rparr>]\<rparr>) = file_view fs"
      "file_view (fs\<lparr>fs_lock := True, vioblk_io := d, file_structs := (file_structs fs)[j := (file_structs fs ! j)\<lparr>file_position := 0, inode_number := ino\<rparr>], fs_inode := b\<rparr>) = file_view fs"
      for d ino b
      using j by (simp_all add: file_view_def map_update list_update_same_conv)
    have "(r < 0 \<and> file_view t = file_view fs) \<or> (r = 0 \<and> k = Some j \<and> file_view t = (file_view fs)[j := (1, 1)])"
      using t(1) Some j keep
      by (auto simp: fs_open_body_def Let_def bind_res_Inr_conv split: if_splits option.splits)
        (simp_all add: file_view_def map_update)
    then show ?thesis using t(2) j by (auto simp: file_view_def)
  qed
qed

section \<open>Threads without dangling pointers\<close>

text \<open>
  \<open>D\<close> is the set of existing thread structures, \<open>P\<close> the set of existing process structures.
\<close>

definition points :: "'p set \<Rightarrow> 'p option \<Rightarrow> bool" where
  "points D p \<longleftrightarrow> (\<forall>x. p = Some x \<longrightarrow> x \<in> D)"

definition thread_typed :: "nat set \<Rightarrow> tptr set \<Rightarrow> thread \<Rightarrow> bool" where
  "thread_typed P D t \<longleftrightarrow> 0 \<le> t_id t \<and> t_id t < int NTHR \<and> points P (t_proc t) \<and> points D (t_parent t) \<and> points D (list_next t)"

definition store_typed :: "nat set \<Rightarrow> thrstore \<Rightarrow> bool" where
  "store_typed P h \<longleftrightarrow> (\<forall>p t. h p = Some t \<longrightarrow> thread_typed P (dom h) t)"

definition list_typed :: "tptr set \<Rightarrow> thread_list \<Rightarrow> bool" where
  "list_typed D l \<longleftrightarrow> points D (tl_head l) \<and> points D (tl_tail l)"

definition sched_typed :: "nat set \<Rightarrow> 'a ts_scheme \<Rightarrow> bool" where
  "sched_typed P st \<longleftrightarrow> store_typed P (thrs st) \<and> length (thrtab st) = NTHR \<and>
     (\<forall>p \<in> set (thrtab st). points (dom (thrs st)) p) \<and> curthr st \<in> dom (thrs st) \<and>
     list_typed (dom (thrs st)) (ready_list st) \<and> (\<forall>c. list_typed (dom (thrs st)) (conds st c))"

lemma points_simps [simp]: "points D None" "points D (Some x) = (x \<in> D)"
  by (simp_all add: points_def)

lemma sched_typed_cong:
  "thrs st' = thrs st \<Longrightarrow> thrtab st' = thrtab st \<Longrightarrow> curthr st' = curthr st \<Longrightarrow> ready_list st' = ready_list st \<Longrightarrow>
    conds st' = conds st \<Longrightarrow> sched_typed P st' = sched_typed P st"
  by (simp add: sched_typed_def)

lemma sched_typed_upd [simp]:
  "sched_typed P (st\<lparr>sie := b\<rparr>) = sched_typed P st" "sched_typed P (st\<lparr>resume_sie := r\<rparr>) = sched_typed P st"
  "sched_typed P (st\<lparr>pmem := m\<rparr>) = sched_typed P st" "sched_typed P (st\<lparr>satp := w\<rparr>) = sched_typed P st"
  "sched_typed P (st\<lparr>proc_mtag := f\<rparr>) = sched_typed P st"
  "sched_typed P (intr_restore b st) = sched_typed P st" "sched_typed P (snd (intr_disable st)) = sched_typed P st"
  "sched_typed P (snd (intr_enable st)) = sched_typed P st" "sched_typed P (snd (memory_space_switch w st)) = sched_typed P st"
  by (simp_all add: sched_typed_def intr_defs Let_def memory_space_switch_def)

lemma vm_sched_typed: "vm.more st' = vm.more st \<Longrightarrow> sched_typed P st' = sched_typed P (st :: 'a ts_scheme)"
  by (rule sched_typed_cong) (cases st; cases st'; simp)+

lemma modify_typed:
  assumes "modify p f h = Inr h'" and "store_typed P h" and "\<And>t. thread_typed P (dom h) t \<Longrightarrow> thread_typed P (dom h) (f t)"
  shows "store_typed P h'" and "dom h' = dom h" and "points (dom h) p"
proof -
  obtain q t where q: "p = Some q" "h q = Some t" "h' = h(q \<mapsto> f t)" using assms(1) by (auto simp: modify_def split: option.splits)
  show d: "dom h' = dom h" "points (dom h) p" using q by auto
  show "store_typed P h'" unfolding store_typed_def d using assms(2,3) q by (auto simp: store_typed_def)
qed

lemma set_next_typed [simp]:
  "thread_typed P D t \<Longrightarrow> points D q \<Longrightarrow> thread_typed P D (t\<lparr>list_next := q\<rparr>)"
  "thread_typed P D t \<Longrightarrow> thread_typed P D (t\<lparr>t_state := s\<rparr>)" "thread_typed P D t \<Longrightarrow> thread_typed P D (t\<lparr>wait_cond := c\<rparr>)"
  "thread_typed P D t \<Longrightarrow> thread_typed P D (t\<lparr>stack_base := a, stack_size := b\<rparr>)"
  "thread_typed P D t \<Longrightarrow> points P r \<Longrightarrow> thread_typed P D (t\<lparr>t_proc := r\<rparr>)"
  "thread_typed P D t \<Longrightarrow> points D q \<Longrightarrow> thread_typed P D (t\<lparr>t_parent := q\<rparr>)"
  by (simp_all add: thread_typed_def)

lemma tlinsert_typed:
  assumes ins: "tlinsert l thr h = Inr (l', h')" and h: "store_typed P h" and l: "list_typed (dom h) l"
  shows "store_typed P h' \<and> dom h' = dom h \<and> list_typed (dom h) l'"
proof -
  from ins obtain h1 where h1: "modify thr (list_next_update (\<lambda>_. None)) h = Inr h1"
    by (auto simp: tlinsert_def bind_res_Inr_conv)
  note t1 = modify_typed [OF h1 h set_next_typed(1) [OF _ points_simps(1)]]
  show ?thesis
  proof (cases "thr = None \<or> tl_tail l = None")
    case True
    then show ?thesis using ins h1 t1 l by (auto simp: tlinsert_def list_typed_def bind_res_Inr_conv split: if_splits)
  next
    case False
    then have m: "modify (tl_tail l) (list_next_update (\<lambda>_. thr)) h1 = Inr h'" and l': "l' = l\<lparr>tl_tail := thr\<rparr>"
      using ins h1 by (auto simp: tlinsert_def bind_res_Inr_conv)
    have "points (dom h1) thr" using t1(2,3) by simp
    from modify_typed [OF m t1(1) set_next_typed(1) [OF _ this]] t1(2,3) show ?thesis
      using l by (simp add: l' list_typed_def)
  qed
qed

lemma tlremove_typed:
  assumes r: "tlremove l h = Inr (p, l', h')" and h: "store_typed P h" and l: "list_typed (dom h) l"
  shows "store_typed P h' \<and> dom h' = dom h \<and> list_typed (dom h) l' \<and> points (dom h) p"
proof (cases "tl_head l")
  case None
  then show ?thesis using assms by (auto simp: tlremove_def)
next
  case (Some x)
  then obtain t where t: "h x = Some t" using l by (auto simp: list_typed_def)
  have m: "modify (Some x) (list_next_update (\<lambda>_. None)) h = Inr h'" and p: "p = Some x"
      and l': "l' = (if list_next t = None then l\<lparr>tl_head := None, tl_tail := None\<rparr> else l\<lparr>tl_head := list_next t\<rparr>)"
    using r t unfolding tlremove_def Let_def Some by (auto split: if_splits)
  have "points (dom h) (list_next t)" using h t by (auto simp: store_typed_def thread_typed_def)
  then show ?thesis
    using modify_typed [OF m h set_next_typed(1) [OF _ points_simps(1)]] l p by (simp add: l' list_typed_def)
qed

lemma tlappend_typed:
  assumes a: "tlappend l0 l1 h = Inr (l', e, h')" and h: "store_typed P h" and l: "list_typed (dom h) l0" "list_typed (dom h) l1"
  shows "store_typed P h' \<and> dom h' = dom h \<and> list_typed (dom h) l'"
proof (cases "tl_head l0 \<noteq> None \<and> tl_head l1 \<noteq> None")
  case True
  then have m: "modify (tl_tail l0) (list_next_update (\<lambda>_. tl_head l1)) h = Inr h'" and l': "l' = l0\<lparr>tl_tail := tl_tail l1\<rparr>"
    using a by (auto simp: tlappend_def bind_res_Inr_conv)
  have "points (dom h) (tl_head l1)" using l(2) by (simp add: list_typed_def)
  from modify_typed [OF m h set_next_typed(1) [OF _ this]] show ?thesis using l by (simp add: l' list_typed_def)
next
  case False
  then show ?thesis using a h l by (auto simp: tlappend_def list_typed_def bind_res_Inr_conv split: if_splits)
qed

lemma wake_loop_typed:
  assumes "wake_loop c p h = Some r" and "store_typed P h"
  shows "all_res (\<lambda>h'. store_typed P h' \<and> dom h' = dom h) r"
proof -
  have "store_typed P h \<longrightarrow> all_res (\<lambda>h'. store_typed P h' \<and> dom h' = dom h) r"
  proof (rule wake_loop.raw_induct [OF _ assms(1)], intro impI)
    fix wl c p h r
    assume IH: "\<And>c p h r. wl c p h = Some r \<Longrightarrow> store_typed P h \<longrightarrow> all_res (\<lambda>h'. store_typed P h' \<and> dom h' = dom h) r"
      and run: "(case p of None \<Rightarrow> Some (Inr h)
        | Some q \<Rightarrow> (case h q of None \<Rightarrow> Some (Inl UndefinedAccess)
           | Some t \<Rightarrow> if t_state t \<noteq> THREAD_WAITING \<or> wait_cond t \<noteq> Some c then Some (Inl AssertFailed)
               else wl c (list_next t) (h(q \<mapsto> t\<lparr>t_state := THREAD_READY, wait_cond := None\<rparr>)))) = Some r"
      and h: "store_typed P h"
    show "all_res (\<lambda>h'. store_typed P h' \<and> dom h' = dom h) r"
    proof (cases "Option.bind p h")
      case None
      then show ?thesis using run h by (auto split: option.splits)
    next
      case (Some t)
      then obtain q where q: "p = Some q" "h q = Some t" by (auto simp: bind_eq_Some_conv)
      let ?h = "h(q \<mapsto> t\<lparr>t_state := THREAD_READY, wait_cond := None\<rparr>)"
      have "store_typed P ?h" "dom ?h = dom h"
        using modify_typed(1,2) [OF modify_Some [of h q, OF q(2)] h, of "\<lambda>t. t\<lparr>t_state := THREAD_READY, wait_cond := None\<rparr>"]
        by simp_all
      then show ?thesis using IH [of c "list_next t" ?h r] run q by (auto split: if_splits)
    qed
  qed
  then show ?thesis using assms(2) by blast
qed

text \<open>The operations of the scheduler keep the threads typed.\<close>

named_theorems sched_keeps \<open>operations that keep sched_typed\<close>

lemma set_thread_typed [sched_keeps]:
  assumes "set_thread p f st = Inr st'" and "sched_typed P st"
    and "\<And>t. thread_typed P (dom (thrs st)) t \<Longrightarrow> thread_typed P (dom (thrs st)) (f t)"
  shows "sched_typed P st'"
proof -
  obtain h where h: "modify p f (thrs st) = Inr h" "st' = st\<lparr>thrs := h\<rparr>"
    using assms(1) by (auto simp: set_thread_def bind_res_Inr_conv)
  have "store_typed P (thrs st)" using assms(2) by (simp add: sched_typed_def)
  from modify_typed [OF h(1) this assms(3)] show ?thesis using assms(2) h(2) by (simp add: sched_typed_def)
qed

lemma ready_insert_typed [sched_keeps]:
  assumes "ready_insert p st = Inr st'" and "sched_typed P st"
  shows "sched_typed P st'"
proof -
  obtain l h where l: "tlinsert (ready_list st) p (thrs st) = Inr (l, h)" "st' = st\<lparr>ready_list := l, thrs := h\<rparr>"
    using assms(1) by (auto simp: ready_insert_def bind_res_Inr_conv)
  then show ?thesis using tlinsert_typed [OF l(1), of P] assms(2) by (simp add: sched_typed_def)
qed

lemma modify_dom: "modify p f h = Inr h' \<Longrightarrow> dom h' = dom h"
  by (auto simp: modify_def split: option.splits if_splits)

lemma thread_dom:
  "set_thread p f st = Inr st' \<Longrightarrow> dom (thrs st') = dom (thrs st)" "ready_insert p st = Inr st' \<Longrightarrow> dom (thrs st') = dom (thrs st)"
proof -
  show "dom (thrs st') = dom (thrs st)" if "set_thread p f st = Inr st'"
    using that modify_dom by (fastforce simp: set_thread_def bind_res_Inr_conv)
  show "dom (thrs st') = dom (thrs st)" if r: "ready_insert p st = Inr st'"
  proof -
    obtain l h where l: "tlinsert (ready_list st) p (thrs st) = Inr (l, h)" "thrs st' = h"
      using r by (auto simp: ready_insert_def bind_res_Inr_conv)
    from l(1) obtain h1 where "modify p (list_next_update (\<lambda>_. None)) (thrs st) = Inr h1"
        "h = h1 \<or> (\<exists>q g. modify q g h1 = Inr h)"
      by (fastforce simp: tlinsert_def bind_res_Inr_conv split: if_splits)
    then show ?thesis using modify_dom l(2) by blast
  qed
qed

lemma suspend_switch_typed:
  assumes run: "suspend_switch st = Inr st'" and st: "sched_typed P st"
  shows "sched_typed P st'"
proof -
  define s0 where "s0 = snd (intr_disable st)"
  from run obtain p l h where rem: "tlremove (ready_list s0) (thrs s0) = Inr (p, l, h)"
    by (auto simp: suspend_switch_def s0_def Let_def intr_disable_def bind_res_Inr_conv)
  define s1 where "s1 = s0\<lparr>ready_list := l, thrs := h\<rparr>"
  from run rem obtain n s2 where n: "deref (thrs s1) p = Inr n"
      and s2: "set_thread p (t_state_update (\<lambda>_. THREAD_RUNNING)) s1 = Inr s2"
    by (auto simp: suspend_switch_def s0_def s1_def Let_def intr_disable_def bind_res_Inr_conv)
  from run rem n s2 obtain s3 where s3: "s3 = s2 \<or> (\<exists>s. set_thread (Some (curthr st)) (t_state_update (\<lambda>_. THREAD_READY)) s2 = Inr s \<and>
        ready_insert (Some (curthr st)) s = Inr s3)"
      and st': "st' = (case t_proc n of None \<Rightarrow> snd (intr_enable s3) | Some q \<Rightarrow> snd (memory_space_switch (proc_mtag (snd (intr_enable s3)) q)
        (snd (intr_enable s3))))\<lparr>curthr := the p, resume_sie := (resume_sie (case t_proc n of None \<Rightarrow> snd (intr_enable s3) | Some q \<Rightarrow>
        snd (memory_space_switch (proc_mtag (snd (intr_enable s3)) q) (snd (intr_enable s3)))))(curthr st \<mapsto> sie st)\<rparr>"
    by (auto simp: suspend_switch_def s0_def s1_def Let_def intr_disable_def bind_res_Inr_conv split: if_splits)
  have s0t: "sched_typed P s0" using st by (simp add: s0_def)
  then have r: "store_typed P h" "dom h = dom (thrs s0)" "list_typed (dom h) l" "points (dom h) p"
    using tlremove_typed [OF rem, of P] by (simp_all add: sched_typed_def)
  have s1t: "sched_typed P s1" using s0t r by (simp add: sched_typed_def s1_def)
  have s2t: "sched_typed P s2" by (rule set_thread_typed [OF s2 s1t]) simp
  have d2: "the p \<in> dom (thrs s2)"
    using s2 by (auto simp: set_thread_def modify_def bind_res_Inr_conv split: option.splits)
  have "sched_typed P s" if "set_thread (Some (curthr st)) (t_state_update (\<lambda>_. THREAD_READY)) s2 = Inr s" for s
    by (rule set_thread_typed [OF that s2t]) simp
  then have s3t: "sched_typed P s3" using s3 s2t by (auto intro: ready_insert_typed)
  have "dom (thrs s3) = dom (thrs s2)" using s3 thread_dom by blast
  then show ?thesis using s3t d2 unfolding st' by (auto simp: sched_typed_def memory_space_switch_def intr_defs split: option.splits)
qed

lemma suspend_resume_typed:
  assumes "suspend_resume prev st = Inr st'" and st: "sched_typed P st"
  shows "sched_typed P st'"
proof -
  have "sched_typed P s'" if "memory_free_page a st = Inr s" "set_thread p (\<lambda>p. p\<lparr>stack_base := 0, stack_size := 0\<rparr>) s = Inr s'" for a p s s'
    by (rule set_thread_typed [OF that(2)]) (use vm_sched_typed [OF free_page_vm_more [OF that(1)]] st in simp_all)
  then show ?thesis using assms
    by (auto simp: suspend_resume_def bind_res_Inr_conv split: option.splits if_splits)
qed

lemma suspend_self_typed [sched_keeps]: "suspend_self st = Inr st' \<Longrightarrow> sched_typed P st \<Longrightarrow> sched_typed P st'"
  by (auto simp: suspend_self_def bind_res_Inr_conv intro: suspend_switch_typed suspend_resume_typed)

lemma thread_yield_typed [sched_keeps]: "thread_yield st = Inr st' \<Longrightarrow> sched_typed P st \<Longrightarrow> sched_typed P st'"
  by (auto simp: thread_yield_def bind_res_Inr_conv intro: suspend_self_typed)

lemma condition_init_typed [simp]: "sched_typed P st \<Longrightarrow> sched_typed P (condition_init c st)"
  by (simp add: condition_init_def sched_typed_def list_typed_def tlclear_def)

lemma condition_wait_typed [sched_keeps]:
  assumes run: "condition_wait c st = Inr st'" and st: "sched_typed P st"
  shows "sched_typed P st'"
proof -
  from run obtain s l h where s: "set_thread (Some (curthr st)) (\<lambda>t. t\<lparr>t_state := THREAD_WAITING, wait_cond := Some c, list_next := None\<rparr>) st = Inr s"
      and l: "tlinsert (conds s c) (Some (curthr st)) (thrs s) = Inr (l, h)"
      and st': "suspend_self (intr_restore (sie s) (s\<lparr>sie := False, conds := (conds s)(c := l), thrs := h\<rparr>)) = Inr st'"
    by (auto simp: condition_wait_def Let_def intr_disable_def bind_res_Inr_conv)
  have "sched_typed P s" by (rule set_thread_typed [OF s st]) simp
  then have "sched_typed P (s\<lparr>sie := False, conds := (conds s)(c := l), thrs := h\<rparr>)"
    using tlinsert_typed [OF l, of P] by (auto simp: sched_typed_def)
  then show ?thesis using suspend_self_typed [OF st'] by simp
qed

lemma condition_broadcast_typed [sched_keeps]:
  assumes run: "condition_broadcast c st = Some (Inr st')" and st: "sched_typed P st"
  shows "sched_typed P st'"
proof (cases "tlempty (conds st c)")
  case True
  then show ?thesis using assms by (simp add: condition_broadcast_def)
next
  case False
  then obtain h l e h' where h: "wake_loop c (tl_head (conds st c)) (thrs st) = Some (Inr h)"
      and l: "tlappend (ready_list st) (conds st c) h = Inr (l, e, h')"
      and st': "st' = intr_restore (sie st) (st\<lparr>sie := False, ready_list := l, conds := (conds st)(c := tlclear), thrs := h'\<rparr>)"
    using run by (auto simp: condition_broadcast_def Let_def intr_disable_def bind_res_Inr_conv split: option.splits)
  have t: "store_typed P (thrs st)" "list_typed (dom (thrs st)) (ready_list st)" "list_typed (dom (thrs st)) (conds st c)"
    using st by (simp_all add: sched_typed_def)
  have hd: "store_typed P h" "dom h = dom (thrs st)" using wake_loop_typed [OF h t(1)] by simp_all
  have "store_typed P h' \<and> dom h' = dom h \<and> list_typed (dom h) l" using tlappend_typed [OF l hd(1)] t hd(2) by simp
  then show ?thesis using st hd(2) by (auto simp: st' sched_typed_def list_typed_def tlclear_def intr_restore_def Let_def)
qed

lemma thread_exit_typed [sched_keeps]:
  assumes run: "thread_exit st = Some (Inr st')" and st: "sched_typed P st"
  shows "sched_typed P st'"
proof -
  from run obtain s p s1 where s: "set_thread (Some (curthr st)) (t_state_update (\<lambda>_. THREAD_EXITED)) st = Inr s"
      and s1: "condition_broadcast (ChildExit p) s = Some (Inr s1)" "suspend_self s1 = Inr st'"
    by (auto simp: thread_exit_def bind_res_Inr_conv split: if_splits sum.splits option.splits)
  have "sched_typed P s" by (rule set_thread_typed [OF s st]) simp
  then show ?thesis using s1 by (blast intro: sched_keeps)
qed

lemma thread_typedD: "sched_typed P st \<Longrightarrow> thrs st p = Some t \<Longrightarrow> thread_typed P (dom (thrs st)) t"
  by (simp add: sched_typed_def store_typed_def)

text \<open>The loop of \<open>recycle_thread\<close> gives the children of the thread to its parent.\<close>

abbreviation reparent :: "tptr \<Rightarrow> nat \<Rightarrow> 'a ts_scheme \<Rightarrow> 'a ts_scheme res" where
  "reparent thr ctid st \<equiv> (case thrtab st ! ctid of None \<Rightarrow> Inr st
     | Some c \<Rightarrow> bind_res (deref (thrs st) (Some c)) (\<lambda>ct. if t_parent ct = Some thr
         then bind_res (deref (thrs st) (Some thr)) (\<lambda>t. set_thread (Some c) (t_parent_update (\<lambda>_. t_parent t)) st) else Inr st))"

lemma reparent_cases:
  assumes "reparent thr x s = Inr s'"
  obtains "s' = s" | c t where "thrs s thr = Some t" "set_thread (Some c) (t_parent_update (\<lambda>_. t_parent t)) s = Inr s'"
  using assms by (auto simp: bind_res_Inr_conv deref_def split: option.splits if_splits)

lemma recycle_loop:
  assumes "recycle_thread tid st = Inr st'"
  obtains thr s where "foldM (reparent thr) [1 ..< NTHR] st = Inr s" "st' = s\<lparr>thrtab := (thrtab s)[tid := None]\<rparr>"
  using assms by (auto simp: recycle_thread_def bind_res_Inr_conv split: if_splits option.splits)

lemma recycle_more: "recycle_thread tid st = Inr st' \<Longrightarrow> ts.more st' = ts.more st"
proof (erule recycle_loop)
  fix thr s assume f: "foldM (reparent thr) [1 ..< NTHR] st = Inr s" and st': "st' = s\<lparr>thrtab := (thrtab s)[tid := None]\<rparr>"
  have "ts.more s = ts.more st"
    by (rule foldM_keeps [OF _ f], erule reparent_cases) (auto dest: set_thread_more)
  then show "ts.more st' = ts.more st" by (simp add: st')
qed

lemma recycle_typed [sched_keeps]:
  assumes run: "recycle_thread tid st = Inr st'" and st: "sched_typed P st"
  shows "sched_typed P st'"
  using run
proof (rule recycle_loop)
  fix thr s assume fold: "foldM (reparent thr) [1 ..< NTHR] st = Inr s" and st': "st' = s\<lparr>thrtab := (thrtab s)[tid := None]\<rparr>"
  have "sched_typed P s"
  proof (rule foldM_invariant [OF fold, of "\<lambda>_. sched_typed P"], rule st)
    fix x t t' assume t: "sched_typed P t" and x: "reparent thr x t = Inr t'"
    from x show "sched_typed P t'"
    proof (rule reparent_cases)
      fix c u assume u: "thrs t thr = Some u" "set_thread (Some c) (t_parent_update (\<lambda>_. t_parent u)) t = Inr t'"
      then have "points (dom (thrs t)) (t_parent u)" using thread_typedD [OF t] by (simp add: thread_typed_def)
      then show ?thesis using set_thread_typed [OF u(2) t] by simp
    qed (use t in simp)
  qed
  then show ?thesis by (auto simp: st' sched_typed_def dest!: subsetD [OF set_update_subset_insert])
qed

lemma join_step_typed [sched_keeps]: "thread_join_step tid st = Inr (r, st') \<Longrightarrow> sched_typed P st \<Longrightarrow> sched_typed P st'"
  by (auto simp: thread_join_step_def Let_def bind_res_Inr_conv split: if_splits intro: sched_keeps)

lemma join_any_typed [sched_keeps]:
  "thread_join_any st = Inr (r, st') \<Longrightarrow> sched_typed P st \<Longrightarrow> sched_typed P st'"
  "thread_join_any_resumed st = Inr (r, st') \<Longrightarrow> sched_typed P st \<Longrightarrow> sched_typed P st'"
  by (auto simp: thread_join_any_def thread_join_any_resumed_def Let_def bind_res_Inr_conv split: if_splits option.splits intro: sched_keeps)

lemma thread_process_typed:
  assumes "thread_set_process tid pr st = Inr st'" and "sched_typed P st" and "points P pr"
  shows "sched_typed P st'"
  using assms set_thread_typed [of "thrtab st ! nat tid" "t_proc_update (\<lambda>_. pr)" st st' P]
  by (auto simp: thread_set_process_def bind_res_Inr_conv)

text \<open>A thread structure in new memory.\<close>

lemma new_thread_typed:
  assumes "sched_typed P st" and "thread_typed P (insert c (dom (thrs st))) t" and "tid < NTHR"
  shows "sched_typed P (st\<lparr>thrtab := (thrtab st)[tid := Some c], thrs := (thrs st)(c \<mapsto> t)\<rparr>)"
proof -
  have mono: "points D p \<Longrightarrow> points (insert c D) p" for D and p :: "tptr option" by (auto simp: points_def)
  have "thread_typed P (insert c (dom (thrs st))) u" if "thrs st q = Some u" for q u
    using thread_typedD [OF assms(1) that] mono by (auto simp: thread_typed_def)
  then show ?thesis
    using assms mono by (auto simp: sched_typed_def store_typed_def list_typed_def dest!: subsetD [OF set_update_subset_insert])
qed

section \<open>Timer and interrupts\<close>

lemma sched_typed_kt [simp]:
  "sched_typed P (st\<lparr>alarms := al\<rparr>) = sched_typed P st" "sched_typed P (st\<lparr>sleep_list := l\<rparr>) = sched_typed P st"
  "sched_typed P (st\<lparr>mtcmp := w\<rparr>) = sched_typed P st" "sched_typed P (st\<lparr>stie := b\<rparr>) = sched_typed P st"
  "sched_typed P (st\<lparr>next_tick := w\<rparr>) = sched_typed P st" "sched_typed P (enable_mmode_timer_intr st) = sched_typed P st"
  by (simp_all add: sched_typed_def enable_mmode_timer_intr_def)

lemma kt_upd_more [simp]:
  "kt.more (st\<lparr>alarms := al\<rparr>) = kt.more st" "kt.more (st\<lparr>sleep_list := l\<rparr>) = kt.more st"
  "kt.more (st\<lparr>mtcmp := w\<rparr>) = kt.more st" "kt.more (st\<lparr>stie := b\<rparr>) = kt.more st"
  "kt.more (st\<lparr>next_tick := w\<rparr>) = kt.more st" "kt.more (enable_mmode_timer_intr st) = kt.more st"
  by (simp_all add: enable_mmode_timer_intr_def)

lemma ts_kt_more: "ts.more st' = ts.more st \<Longrightarrow> kt.more st' = kt.more (st :: 'a kt_scheme)"
  by (cases st; cases st') simp

lemma alarm_init_keeps: "sched_typed P st \<Longrightarrow> sched_typed P (alarm_init al c st)" "kt.more (alarm_init al c st) = kt.more st"
proof -
  have "ts.more (condition_init c st) = ts.more st" by (simp add: condition_init_def)
  then show "kt.more (alarm_init al c st) = kt.more st" unfolding alarm_init_def Let_def kt_upd_more by (rule ts_kt_more)
  show "sched_typed P st \<Longrightarrow> sched_typed P (alarm_init al c st)" unfolding alarm_init_def Let_def by simp
qed

lemma sleep_insert_keeps:
  assumes "sleep_insert al a st = Some (Inr st')"
  shows "sched_typed P st' = sched_typed P st" and "kt.more st' = kt.more st"
  using assms by (auto simp: sleep_insert_def Let_def bind_res_Inr_conv split: option.splits if_splits)

lemma alarm_sleep_keeps:
  assumes "alarm_sleep al n st = Some (Inr st')"
  shows "sched_typed P st \<Longrightarrow> sched_typed P st'" and "kt.more st' = kt.more st"
proof -
  from assms obtain a where "alarms st al = Some a" by (auto simp: alarm_sleep_def split: option.splits)
  define b s where "b = a\<lparr>twake := wake_time (twake a) n\<rparr>" and "s = st\<lparr>alarms := (alarms st)(al \<mapsto> b)\<rparr>"
  then consider "st' = s" | t where "sleep_insert al b (snd (intr_disable s)) = Some (Inr t)" "condition_wait (al_cond b) t = Inr st'"
    using assms \<open>alarms st al = Some a\<close> by (auto simp: alarm_sleep_def Let_def s_def b_def bind_res_Inr_conv split: if_splits)
  then have "(sched_typed P st \<longrightarrow> sched_typed P st') \<and> kt.more st' = kt.more st"
  proof cases
    case (2 t)
    have "kt.more (snd (intr_disable s)) = kt.more s" by (rule ts_kt_more) simp
    then have "kt.more st' = kt.more st"
      using sleep_insert_keeps(2) [OF 2(1)] ts_kt_more [OF condition_wait_more [OF 2(2)]] by (simp add: s_def)
    then show ?thesis
      using sleep_insert_keeps(1) [OF 2(1), of P] condition_wait_typed [OF 2(2), of P] by (simp add: s_def)
  qed (simp add: s_def)
  then show "sched_typed P st \<Longrightarrow> sched_typed P st'" "kt.more st' = kt.more st" by blast+
qed

lemma wake_alarms_keeps:
  assumes "wake_alarms now p st = Some r" and "sched_typed P st"
  shows "all_res (\<lambda>(q, st'). sched_typed P st' \<and> kt.more st' = kt.more st) r"
proof -
  have "sched_typed P st \<longrightarrow> all_res (\<lambda>(q, st'). sched_typed P st' \<and> kt.more st' = kt.more st) r"
  proof (rule wake_alarms.raw_induct [OF _ assms(1)], intro impI)
    fix wl now p st r
    assume IH: "\<And>now p st r. wl now p st = Some r \<Longrightarrow>
        sched_typed P st \<longrightarrow> all_res (\<lambda>(q, st'). sched_typed P st' \<and> kt.more st' = kt.more st) r"
      and run: "(case p of None \<Rightarrow> Some (Inr (None, st))
        | Some i \<Rightarrow> (case alarms st i of None \<Rightarrow> Some (Inl UndefinedAccess)
           | Some a \<Rightarrow> if twake a \<le> now then
               (case condition_broadcast (al_cond a) st of None \<Rightarrow> None | Some (Inl e) \<Rightarrow> Some (Inl e)
                | Some (Inr st) \<Rightarrow> wl now (al_next a) (st\<lparr>alarms := (alarms st)(i \<mapsto> a\<lparr>al_next := None\<rparr>)\<rparr>))
             else Some (Inr (Some i, st)))) = Some r"
      and st: "sched_typed P st"
    show "all_res (\<lambda>(q, st'). sched_typed P st' \<and> kt.more st' = kt.more st) r"
    proof (cases "\<exists>i a s. p = Some i \<and> alarms st i = Some a \<and> twake a \<le> now \<and> condition_broadcast (al_cond a) st = Some (Inr s)")
      case True
      then obtain i a s where a: "p = Some i" "alarms st i = Some a" "twake a \<le> now" "condition_broadcast (al_cond a) st = Some (Inr s)"
        by blast
      let ?s = "s\<lparr>alarms := (alarms s)(i \<mapsto> a\<lparr>al_next := None\<rparr>)\<rparr>"
      have "wl now (al_next a) ?s = Some r" using run a by simp
      moreover have "sched_typed P ?s" "kt.more ?s = kt.more st"
        using condition_broadcast_typed [OF a(4) st] ts_kt_more [OF condition_broadcast_more [OF a(4)]] by simp_all
      ultimately show ?thesis using IH [of now "al_next a" ?s r] by simp
    next
      case False
      then show ?thesis using run st by (auto split: option.splits if_splits sum.splits)
    qed
  qed
  then show ?thesis using assms(2) by blast
qed

lemma timer_intr_keeps:
  assumes "timer_intr_handler st = Some (Inr st')" and "sched_typed P st"
  shows "sched_typed P st' \<and> kt.more st' = kt.more st"
proof -
  obtain q s where w: "wake_alarms (mtime st) (sleep_list st) st = Some (Inr (q, s))" "timer_rearm (mtime st) q s = Inr st'"
    using assms(1) by (auto simp: timer_intr_handler_def Let_def bind_res_Inr_conv)
  have "sched_typed P s \<and> kt.more s = kt.more st" using wake_alarms_keeps [OF w(1) assms(2)] by simp
  then show ?thesis using w(2) by (auto simp: timer_rearm_def Let_def split: option.splits if_splits)
qed

end
