(* ===== verification/KernelInv.thy ===== *)
theory KernelInv
  imports Frames
begin

text \<open>
  The invariant of the joint state between traps. \<open>kernel_inv\<close> says that every pointer the kernel keeps
  leads to an existing structure (the tables of threads and of processes, the lists of the
  scheduler, the links between threads, the process of a thread and the files of a process) and
  that every open descriptor names an open file with enough references. Each operation on processes,
  each system call and the exception handler keep it.
\<close>

section \<open>Processes and their descriptors\<close>

definition proc_typed :: "nat \<Rightarrow> process \<Rightarrow> bool" where
  "proc_typed n pr \<longleftrightarrow> length (iotab pr) = PROCESS_IOMAX \<and> length (signal_handler pr) = NSIG \<and>
     (\<forall>k. Some (FileIo k) \<in> set (iotab pr) \<longrightarrow> k < n)"

text \<open>The number of descriptors of an object, over all processes.\<close>

definition descs :: "(nat \<Rightarrow> process option) \<Rightarrow> ioptr \<Rightarrow> nat" where
  "descs ps x = (\<Sum>p \<in> dom ps. count_list (iotab (the (ps p))) (Some x))"

text \<open>
  Each file has as many references as descriptors, at least, and is open if it has a descriptor. A
  slot of the process table is never freed and each fork fills one, so the reference count of a
  file, which starts at 1 and grows by at most 16 in a fork, is bounded.
\<close>

definition used :: "nat option list \<Rightarrow> nat" where
  "used tab = length (filter (\<lambda>p. p \<noteq> None) tab)"

definition file_held :: "nat \<Rightarrow> nat \<Rightarrow> u64 \<times> u32 \<Rightarrow> bool" where
  "file_held u d v \<longleftrightarrow> d \<le> unat (snd v) \<and> (0 < d \<longrightarrow> fst v \<noteq> 0) \<and> unat (snd v) \<le> 1 + PROCESS_IOMAX * u"

lemma used_bound: "used tab \<le> length tab"
  by (simp add: used_def)

lemma used_fill: "i < length tab \<Longrightarrow> tab ! i = None \<Longrightarrow> used (tab[i := Some p]) = Suc (used tab)"
  by (induction tab arbitrary: i) (auto simp: used_def split: nat.splits)

definition procs_inv :: "(nat \<Rightarrow> process option) \<Rightarrow> nat option list \<Rightarrow> (u64 \<times> u32) list \<Rightarrow> bool" where
  "procs_inv ps tab v \<longleftrightarrow> length tab = NPROC \<and> (\<forall>p \<in> set tab. points (dom ps) p) \<and> length v = FS_MAXOPEN \<and>
     (\<forall>p pr. ps p = Some pr \<longrightarrow> proc_typed (length v) pr) \<and> finite (dom ps) \<and>
     (\<forall>k < length v. file_held (used tab) (descs ps (FileIo k)) (v ! k))"

definition kernel_inv :: "('d, 'w, 'a) ks_scheme \<Rightarrow> bool" where
  "kernel_inv st \<longleftrightarrow> sched_typed (dom (procs st)) st \<and> procs_inv (procs st) (proctab st) (file_view (kfs st))"

lemma count_list_update:
  "i < length xs \<Longrightarrow> count_list (xs[i := y]) x + (if xs ! i = x then 1 else 0) = count_list xs x + (if y = x then 1 else 0)"
proof (induction xs arbitrary: i)
  case (Cons a xs)
  then show ?case
  proof (cases i)
    case (Suc j)
    then show ?thesis using Cons.IH [of j] Cons.prems by (auto split: if_splits)
  qed auto
qed simp

lemma descs_set:
  assumes "finite (dom ps)" and "ps p = Some pr"
  shows "descs (ps(p \<mapsto> pr')) x + count_list (iotab pr) (Some x) = descs ps x + count_list (iotab pr') (Some x)"
proof -
  have d: "dom (ps(p \<mapsto> pr')) = dom ps" and p: "p \<in> dom ps" using assms(2) by auto
  have "(\<Sum>q \<in> dom ps - {p}. count_list (iotab (the ((ps(p \<mapsto> pr')) q))) (Some x)) =
      (\<Sum>q \<in> dom ps - {p}. count_list (iotab (the (ps q))) (Some x))"
    by (rule sum.cong) auto
  then show ?thesis
    unfolding descs_def d sum.remove [OF assms(1) p] by (simp add: assms(2))
qed

lemma descs_new:
  assumes "finite (dom ps)" and "ps p = None"
  shows "descs (ps(p \<mapsto> pr)) x = descs ps x + count_list (iotab pr) (Some x)"
proof -
  have "(\<Sum>q \<in> dom ps. count_list (iotab (the ((ps(p \<mapsto> pr)) q))) (Some x)) = descs ps x"
    unfolding descs_def using assms(2) by (intro sum.cong) auto
  then show ?thesis using assms by (simp add: descs_def domIff)
qed

lemma procs_invD:
  assumes "procs_inv ps tab v" and "ps p = Some pr"
  shows "length (iotab pr) = 16" "length (signal_handler pr) = NSIG" "Some (FileIo k) \<in> set (iotab pr) \<Longrightarrow> k < length v"
    "length v = FS_MAXOPEN"
  using assms by (auto simp: procs_inv_def proc_typed_def PROCESS_IOMAX_def)

text \<open>A process changes, with a table of files that holds what the new descriptors need.\<close>

lemma procs_inv_set:
  assumes inv: "procs_inv ps tab v" and p: "ps p = Some pr" and t: "proc_typed (length v) pr'" and v: "length v' = length v"
    and held: "\<And>k d. k < length v \<Longrightarrow> d + count_list (iotab pr) (Some (FileIo k)) =
      descs ps (FileIo k) + count_list (iotab pr') (Some (FileIo k)) \<Longrightarrow> file_held (used tab) (descs ps (FileIo k)) (v ! k) \<Longrightarrow> file_held (used tab) d (v' ! k)"
  shows "procs_inv (ps(p \<mapsto> pr')) tab v'"
proof -
  have fin: "finite (dom ps)" and d: "dom (ps(p \<mapsto> pr')) = dom ps" using inv p by (auto simp: procs_inv_def)
  have "file_held (used tab) (descs (ps(p \<mapsto> pr')) (FileIo k)) (v' ! k)" if "k < length v" for k
    using held [OF that descs_set [OF fin p]] inv that by (simp add: procs_inv_def)
  then show ?thesis using inv t v unfolding procs_inv_def d by (auto split: if_splits)
qed

text \<open>A descriptor is dropped, with or without its reference.\<close>

lemma count_drop:
  assumes "length (iotab pr) = 16" and "i < 16"
  shows "count_list ((iotab pr)[i := None]) (Some x) + (if iotab pr ! i = Some x then 1 else 0) = count_list (iotab pr) (Some x)"
  using count_list_update [of i "iotab pr" None "Some x"] assms by simp

lemma proc_typed_upd:
  assumes "proc_typed n pr" and "\<And>k. io = Some (FileIo k) \<Longrightarrow> k < n"
  shows "proc_typed n (pr\<lparr>iotab := (iotab pr)[i := io]\<rparr>)"
  using assms by (auto simp: proc_typed_def dest!: subsetD [OF set_update_subset_insert])

lemma procs_inv_drop:
  assumes inv: "procs_inv ps tab v" and p: "ps p = Some pr" and i: "i < 16" and nf: "\<forall>k. io \<noteq> Some (FileIo k)"
  shows "procs_inv (ps(p \<mapsto> pr\<lparr>iotab := (iotab pr)[i := io]\<rparr>)) tab v"
proof (rule procs_inv_set [OF inv p])
  show "proc_typed (length v) (pr\<lparr>iotab := (iotab pr)[i := io]\<rparr>)"
    using inv p nf by (intro proc_typed_upd) (auto simp: procs_inv_def)
  fix k d assume "d + count_list (iotab pr) (Some (FileIo k)) =
      descs ps (FileIo k) + count_list (iotab (pr\<lparr>iotab := (iotab pr)[i := io]\<rparr>)) (Some (FileIo k))"
    "file_held (used tab) (descs ps (FileIo k)) (v ! k)"
  moreover have "count_list ((iotab pr)[i := io]) (Some (FileIo k)) \<le> count_list (iotab pr) (Some (FileIo k))"
    using count_list_update [of i "iotab pr" io "Some (FileIo k)"] procs_invD(1) [OF inv p] i nf by (auto split: if_splits)
  ultimately show "file_held (used tab) d (v ! k)" by (simp add: file_held_def)
qed simp

definition close_view :: "nat \<Rightarrow> (u64 \<times> u32) list \<Rightarrow> (u64 \<times> u32) list" where
  "close_view k v = (if snd (v ! k) = 0 then v else v[k := (if snd (v ! k) = 1 then 0 else fst (v ! k), snd (v ! k) - 1)])"

lemma file_held_close:
  assumes "file_held u (Suc d) v" shows "file_held u d (if snd v = 1 then 0 else fst v, snd v - 1)" and "snd v \<noteq> 0"
proof -
  show nz: "snd v \<noteq> 0" using assms by (auto simp: file_held_def)
  then have "unat (snd v - 1) = unat (snd v) - 1" by (simp add: unat_minus_one)
  then show "file_held u d (if snd v = 1 then 0 else fst v, snd v - 1)" using assms by (auto simp: file_held_def)
qed

lemma procs_inv_close:
  assumes inv: "procs_inv ps tab v" and p: "ps p = Some pr" and i: "i < 16" and io: "iotab pr ! i = Some (FileIo k)"
  shows "procs_inv (ps(p \<mapsto> pr\<lparr>iotab := (iotab pr)[i := None]\<rparr>)) tab (close_view k v)"
proof (rule procs_inv_set [OF inv p])
  show "proc_typed (length v) (pr\<lparr>iotab := (iotab pr)[i := None]\<rparr>)"
    using inv p by (intro proc_typed_upd) (auto simp: procs_inv_def)
  show "length (close_view k v) = length v" by (simp add: close_view_def)
  fix j d assume j: "j < length v" "file_held (used tab) (descs ps (FileIo j)) (v ! j)"
    and d: "d + count_list (iotab pr) (Some (FileIo j)) =
      descs ps (FileIo j) + count_list (iotab (pr\<lparr>iotab := (iotab pr)[i := None]\<rparr>)) (Some (FileIo j))"
  have "descs ps (FileIo j) = (if j = k then Suc d else d)"
    using d count_drop [OF procs_invD(1) [OF inv p] i, of "FileIo j"] io by (auto split: if_splits)
  then show "file_held (used tab) d (close_view k v ! j)"
    using j file_held_close [of "used tab" d "v ! j"] by (cases "j = k") (auto simp: close_view_def)
qed

text \<open>A file is opened in a free slot.\<close>

lemma procs_inv_open:
  assumes inv: "procs_inv ps tab v" and p: "ps p = Some pr" and i: "i < 16" and k: "k < length v" "fst (v ! k) = 0"
  shows "procs_inv (ps(p \<mapsto> pr\<lparr>iotab := (iotab pr)[i := Some (FileIo k)]\<rparr>)) tab (v[k := (1, 1)])"
proof (rule procs_inv_set [OF inv p])
  show "proc_typed (length v) (pr\<lparr>iotab := (iotab pr)[i := Some (FileIo k)]\<rparr>)"
    using inv p k by (intro proc_typed_upd) (auto simp: procs_inv_def)
  fix j d assume j: "j < length v" "file_held (used tab) (descs ps (FileIo j)) (v ! j)"
    and d: "d + count_list (iotab pr) (Some (FileIo j)) =
      descs ps (FileIo j) + count_list (iotab (pr\<lparr>iotab := (iotab pr)[i := Some (FileIo k)]\<rparr>)) (Some (FileIo j))"
  have "d \<le> descs ps (FileIo j) + (if j = k then 1 else 0)"
    using d count_list_update [of i "iotab pr" "Some (FileIo k)" "Some (FileIo j)"] procs_invD(1) [OF inv p] i
    by (auto split: if_splits)
  then show "file_held (used tab) d (v[k := (1, 1)] ! j)"
    using j k by (auto simp: file_held_def nth_list_update split: if_splits)
qed simp

section \<open>Frames of the kernel state\<close>

lemma kt_ks_more:
  assumes "kt.more st' = kt.more (st :: ('d, 'w, 'a) ks_scheme)"
  shows "procs st' = procs st" "proctab st' = proctab st" "kfs st' = kfs st" "devs st' = devs st" "dev_refs st' = dev_refs st"
  using assms by (cases st; cases st'; simp)+

lemma vm_ts_more: "vm.more st' = vm.more st \<Longrightarrow> ts.more st' = ts.more (st :: 'a ts_scheme)"
  by (cases st; cases st') simp

lemma kernel_inv_cong:
  assumes "kt.more st' = kt.more st" and "sched_typed (dom (procs st)) st \<Longrightarrow> sched_typed (dom (procs st)) st'" and "kernel_inv st"
  shows "kernel_inv st'"
  using assms(2,3) kt_ks_more [OF assms(1)] by (simp add: kernel_inv_def)

lemma kernel_inv_vm: "vm.more st' = vm.more st \<Longrightarrow> kernel_inv st \<Longrightarrow> kernel_inv st'"
  by (rule kernel_inv_cong [OF ts_kt_more [OF vm_ts_more]]) (blast intro: vm_sched_typed [THEN iffD2])+

lemma kernel_inv_ts:
  "ts.more st' = ts.more st \<Longrightarrow> (\<And>P. sched_typed P st \<Longrightarrow> sched_typed P st') \<Longrightarrow> kernel_inv st \<Longrightarrow> kernel_inv st'"
  by (rule kernel_inv_cong [OF ts_kt_more])

lemma sched_typed_ks [simp]:
  "sched_typed P (st\<lparr>kfs := fs\<rparr>) = sched_typed P st" "sched_typed P (st\<lparr>devs := w\<rparr>) = sched_typed P st"
  "sched_typed P (st\<lparr>dev_refs := r\<rparr>) = sched_typed P st" "sched_typed P (st\<lparr>procs := ps\<rparr>) = sched_typed P st"
  "sched_typed P (st\<lparr>proctab := tab\<rparr>) = sched_typed P st" "sched_typed P (set_proc p pr st) = sched_typed P st"
  by (simp_all add: sched_typed_def set_proc_def)

lemma kernel_inv_set_proc:
  assumes "kernel_inv st" and "procs st p = Some pr" and "procs_inv ((procs st)(p \<mapsto> pr')) (proctab st) (file_view (kfs st))"
  shows "kernel_inv (set_proc p pr' st)"
proof -
  have "dom ((procs st)(p \<mapsto> pr')) = dom (procs st)" using assms(2) by auto
  then show ?thesis using assms by (simp add: kernel_inv_def set_proc_def)
qed

lemma kernel_inv_kfs: "file_view fs = file_view (kfs st) \<Longrightarrow> kernel_inv st \<Longrightarrow> kernel_inv (st\<lparr>kfs := fs\<rparr>)"
  "kernel_inv (st\<lparr>devs := w\<rparr>) = kernel_inv st" "kernel_inv (st\<lparr>dev_refs := r\<rparr>) = kernel_inv st"
  "kernel_inv (st\<lparr>proc_mtag := f\<rparr>) = kernel_inv st"
  by (simp_all add: kernel_inv_def)

lemma kernel_inv_drop_fd:
  assumes inv: "kernel_inv st" and p: "procs st p = Some pr" and i: "i < 16" and nf: "\<forall>k. io \<noteq> Some (FileIo k)"
  shows "kernel_inv (set_proc p (pr\<lparr>iotab := (iotab pr)[i := io]\<rparr>) st)"
proof (rule kernel_inv_set_proc [OF inv p])
  have pi: "procs_inv (procs st) (proctab st) (file_view (kfs st))" using inv by (simp add: kernel_inv_def)
  show "procs_inv ((procs st)(p \<mapsto> pr\<lparr>iotab := (iotab pr)[i := io]\<rparr>)) (proctab st) (file_view (kfs st))"
    by (rule procs_inv_drop [OF pi p i nf])
qed

lemma kernel_inv_same_fds:
  assumes inv: "kernel_inv st" and p: "procs st p = Some pr" and "iotab pr' = iotab pr" "signal_handler pr' = signal_handler pr"
  shows "kernel_inv (set_proc p pr' st)"
proof (rule kernel_inv_set_proc [OF inv p])
  have i: "procs_inv (procs st) (proctab st) (file_view (kfs st))" using inv by (simp add: kernel_inv_def)
  show "procs_inv ((procs st)(p \<mapsto> pr')) (proctab st) (file_view (kfs st))"
    by (rule procs_inv_set [OF i p]) (use i p assms(3,4) in \<open>auto simp: procs_inv_def proc_typed_def\<close>)
qed

section \<open>Objects\<close>

lemma obj_read_inv: "obj_read env io n st = Inr (r, bs, st') \<Longrightarrow> kernel_inv st \<Longrightarrow> kernel_inv st'"
  by (auto simp: obj_read_def bind_res_Inr_conv kernel_inv_kfs(2) split: ioptr.splits intro!: kernel_inv_kfs(1) dest: io_view)

lemma obj_write_inv: "obj_write env io bs st = Inr (r, st') \<Longrightarrow> kernel_inv st \<Longrightarrow> kernel_inv st'"
  by (auto simp: obj_write_def bind_res_Inr_conv kernel_inv_kfs(2) split: ioptr.splits intro!: kernel_inv_kfs(1) dest: io_view)

lemma obj_ctl_inv: "obj_ctl env io cmd arg st = Inr (r, v, st') \<Longrightarrow> kernel_inv st \<Longrightarrow> kernel_inv st'"
  by (auto simp: obj_ctl_def bind_res_Inr_conv kernel_inv_kfs(2) split: ioptr.splits intro!: kernel_inv_kfs(1) dest: io_view)

lemma obj_load_inv:
  assumes load: "obj_load env io st = Inr (r, e, st')" and inv: "kernel_inv st"
  shows "kernel_inv st'"
proof (cases io)
  case (FileIo k)
  then obtain fs s where l: "elf_load (fs_io_ops (blk_ops env) k) (kfs st) st = Inr (r, e, fs, s)" "st' = s\<lparr>kfs := fs\<rparr>"
    using load by (auto simp: obj_load_def bind_res_Inr_conv split: if_splits)
  have "file_view fs = file_view (kfs st)"
    by (rule elf_load_view [OF _ _ l(1)]) (auto simp: fs_io_ops_def dest: fs_read_view fs_ioctl_view)
  moreover have m: "vm.more s = vm.more st" by (rule elf_vm_more [OF l(1)])
  ultimately show ?thesis
    using kernel_inv_vm [OF m inv] kt_ks_more(3) [OF ts_kt_more [OF vm_ts_more [OF m]]] by (simp add: l(2) kernel_inv_kfs(1))
next
  case (DevIo i)
  then obtain w s where l: "elf_load (dev_ops env i) (devs st) st = Inr (r, e, w, s)" "st' = s\<lparr>devs := w\<rparr>"
    using load by (auto simp: obj_load_def bind_res_Inr_conv split: if_splits)
  then show ?thesis using kernel_inv_vm [OF elf_vm_more [OF l(1)] inv] by (simp add: kernel_inv_kfs(2))
qed

lemma obj_close_keeps:
  assumes c: "obj_close env io st = Inr st'" and len: "length (file_view (kfs st)) = FS_MAXOPEN" and k: "\<And>k. io = FileIo k \<Longrightarrow> k < FS_MAXOPEN"
  shows "procs st' = procs st \<and> proctab st' = proctab st \<and> sched_typed P st' = sched_typed P st \<and>
    file_view (kfs st') = (case io of FileIo k \<Rightarrow> close_view k (file_view (kfs st)) | DevIo i \<Rightarrow> file_view (kfs st))"
proof (cases io)
  case (FileIo k)
  then have k: "k < FS_MAXOPEN" "k < length (file_structs (kfs st))" using assms(2,3) by (simp_all add: file_view_def)
  then show ?thesis using c FileIo
    by (auto simp: obj_close_def ioclose_def fs_io_ops_def fs_close_def Let_def close_view_def file_refcnt_def set_file_refcnt_def
        file_view_def map_update list_update_same_conv split: if_splits)
next
  case (DevIo i)
  then show ?thesis using c by (auto simp: obj_close_def bind_res_Inr_conv)
qed

text \<open>Closing descriptor \<open>i\<close> of a process.\<close>

lemma close_descriptor:
  assumes inv: "kernel_inv st" and p: "procs st p = Some pr" and i: "i < 16" and io: "iotab pr ! i = Some io"
    and c: "obj_close env io st = Inr st'"
  shows "kernel_inv (set_proc p (pr\<lparr>iotab := (iotab pr)[i := None]\<rparr>) st')" and "procs st' = procs st"
proof -
  have pi: "procs_inv (procs st) (proctab st) (file_view (kfs st))" and s: "sched_typed (dom (procs st)) st"
    using inv by (simp_all add: kernel_inv_def)
  note d = procs_invD [OF pi p]
  have "k < FS_MAXOPEN" if "io = FileIo k" for k using d(3) [of k] d(1,4) io i that by (auto simp: in_set_conv_nth)
  note k = obj_close_keeps [OF c d(4) this]
  show "procs st' = procs st" using k by blast
  have "dom ((procs st)(p \<mapsto> pr\<lparr>iotab := (iotab pr)[i := None]\<rparr>)) = dom (procs st)" using p by auto
  moreover have "procs_inv ((procs st)(p \<mapsto> pr\<lparr>iotab := (iotab pr)[i := None]\<rparr>)) (proctab st) (file_view (kfs st'))"
  proof (cases io)
    case (FileIo k)
    then show ?thesis using k procs_inv_close [OF pi p i] io by simp
  next
    case (DevIo j)
    then show ?thesis using k procs_inv_drop [OF pi p i] by simp
  qed
  ultimately show "kernel_inv (set_proc p (pr\<lparr>iotab := (iotab pr)[i := None]\<rparr>) st')"
    using k s by (simp add: kernel_inv_def set_proc_def)
qed

section \<open>Processes\<close>

lemma close_fd_inv:
  assumes c: "close_fd env p i st = Inr st'" and inv: "kernel_inv st" and i: "i < 16"
  shows "kernel_inv st'"
proof -
  obtain pr where pr: "procs st p = Some pr"
    using c by (auto simp: close_fd_def get_proc_def bind_res_Inr_conv split: option.splits)
  show ?thesis
  proof (cases "iotab pr ! i")
    case None
    then show ?thesis using c pr inv by (simp add: close_fd_def get_proc_def)
  next
    case (Some io)
    then obtain s where s: "obj_close env io st = Inr s" using c pr by (auto simp: close_fd_def get_proc_def bind_res_Inr_conv)
    note d = close_descriptor [OF inv pr i Some s]
    have "st' = set_proc p (pr\<lparr>iotab := (iotab pr)[i := None]\<rparr>) s" using c pr Some s d(2) by (simp add: close_fd_def get_proc_def)
    then show ?thesis using d(1) by simp
  qed
qed

lemma thread_exit_more: "thread_exit st = Some (Inr st') \<Longrightarrow> ts.more st' = ts.more st"
  by (auto simp: thread_exit_def bind_res_Inr_conv split: if_splits sum.splits option.splits
      dest!: set_thread_more condition_broadcast_more suspend_self_more)

lemma bind_opt_conv: "bind_opt m f = Some (Inr r) \<longleftrightarrow> (\<exists>a. m = Some (Inr a) \<and> f a = Some (Inr r))"
  by (auto simp: bind_opt_def split: option.splits sum.splits)

lemma process_exit_inv:
  assumes e: "process_exit env st = Some (Inr st')" and inv: "kernel_inv st"
  shows "kernel_inv st'"
proof -
  from e obtain p s1 s2 where r: "memory_space_reclaim st = Inr s1" "foldM (close_fd env p) [0..<PROCESS_IOMAX] s1 = Inr s2"
      "thread_exit s2 = Some (Inr st')"
    by (auto simp: process_exit_def bind_opt_conv split: option.splits)
  have "kernel_inv s1" by (rule kernel_inv_vm [OF reclaim_vm_more [OF r(1)] inv])
  then have "kernel_inv s2"
  proof (rule foldM_invariant [OF r(2), of "\<lambda>_. kernel_inv"])
    fix ys x zs t t' assume x: "[0..<PROCESS_IOMAX] = ys @ x # zs" "kernel_inv t" "close_fd env p x t = Inr t'"
    then have "x \<in> set [0..<PROCESS_IOMAX]" by simp
    then show "kernel_inv t'" using close_fd_inv [OF x(3,2)] by (simp add: PROCESS_IOMAX_def)
  qed
  then show ?thesis using kernel_inv_ts [OF thread_exit_more [OF r(3)] thread_exit_typed [OF r(3)]] by simp
qed

lemma process_exec_inv: "process_exec env io st = Inr (r, st') \<Longrightarrow> kernel_inv st \<Longrightarrow> kernel_inv st'"
  by (auto simp: process_exec_def bind_res_Inr_conv split: if_splits option.splits
      dest!: unmap_vm_more intro: kernel_inv_vm obj_load_inv)

lemma process_terminate_inv: "process_terminate env pid st = Some (Inr (b, st')) \<Longrightarrow> kernel_inv st \<Longrightarrow> kernel_inv st'"
  by (auto simp: process_terminate_def bind_opt_conv split: if_splits intro: process_exit_inv)

lemma cur_proc_procs: "cur_proc st = Inr (p, pr) \<Longrightarrow> procs st p = Some pr"
  by (rule cur_procE)

lemma signal_deliver_inv:
  assumes d: "signal_deliver env st = Some (Inr (r, st'))" and inv: "kernel_inv st"
  shows "kernel_inv st'"
proof -
  have h: "kernel_inv t'" if "signal_handle env sig t = Some (Inr (r, t'))" "kernel_inv t" for sig t and t' :: "('a, 'b, 'c) ks_scheme"
    using that by (auto simp: signal_handle_def bind_opt_conv split: if_splits intro: process_exit_inv)
  obtain p pr where c: "cur_proc st = Inr (p, pr)" using d by (auto simp: signal_deliver_def bind_opt_conv)
  from d c consider "st' = st" | sig s where "signal_handle env sig (set_proc p (pr\<lparr>pending_signals := s\<rparr>) st) = Some (Inr (r, st'))"
    by (auto simp: signal_deliver_def Let_def split: if_splits option.splits)
  then show ?thesis
  proof cases
    case (2 sig s)
    have "kernel_inv (set_proc p (pr\<lparr>pending_signals := s\<rparr>) st)"
      by (rule kernel_inv_same_fds [OF inv cur_proc_procs [OF c]]) simp_all
    then show ?thesis using h 2 by blast
  qed (use inv in simp)
qed

section \<open>System calls\<close>

lemma fd_object_slot:
  assumes "fd_object pr fd = Some io" shows "nat fd < 16" and "iotab pr ! nat fd = Some io"
  using assms by (auto simp: fd_object_def PROCESS_IOMAX_def split: if_splits)

lemma sysclose_inv:
  assumes c: "sysclose env fd st = Some (Inr (r, st'))" and inv: "kernel_inv st"
  shows "kernel_inv st'"
proof -
  obtain p pr where cp: "cur_proc st = Inr (p, pr)" using c by (auto simp: sysclose_def bind_opt_conv)
  note pr = cur_proc_procs [OF cp]
  show ?thesis
  proof (cases "fd_object pr fd")
    case None
    then show ?thesis using c cp inv by (simp add: sysclose_def)
  next
    case (Some io)
    then obtain s where s: "obj_close env io st = Inr s" using c cp by (auto simp: sysclose_def bind_opt_conv)
    note d = close_descriptor [OF inv pr fd_object_slot [OF Some] s]
    then show ?thesis using c cp Some s pr by (auto simp: sysclose_def get_proc_def)
  qed
qed

text \<open>Rules for calls that keep the invariant on every path.\<close>

definition all_opt :: "('a \<Rightarrow> bool) \<Rightarrow> 'a res option \<Rightarrow> bool" where
  "all_opt P r \<longleftrightarrow> (\<forall>a. r = Some (Inr a) \<longrightarrow> P a)"

lemma opt_paths:
  "all_res P m \<Longrightarrow> all_opt P (Some m)" "all_opt (\<lambda>a. all_opt P (f a)) n \<Longrightarrow> all_opt P (bind_opt n f)"
  "all_opt P o1 \<Longrightarrow> all_opt P o2 \<Longrightarrow> all_opt P (if b then o1 else o2)"
  "(\<And>x y. q = (x, y) \<Longrightarrow> all_opt P (g x y)) \<Longrightarrow> all_opt P (case q of (x, y) \<Rightarrow> g x y)"
  "all_opt P o1 \<Longrightarrow> (\<And>z. all_opt P (k z)) \<Longrightarrow> all_opt P (case opt of None \<Rightarrow> o1 | Some z \<Rightarrow> k z)"
  by (auto simp: all_opt_def all_res_def bind_opt_conv split: prod.splits option.splits)

lemma any_paths:
  "(\<And>a. P1 a) \<Longrightarrow> all_opt P1 (memory_validate_vptr_len va n fl st1)" "(\<And>a. P1 a) \<Longrightarrow> all_opt P1 (memory_validate_vstr ld va fl st1)"
  "(\<And>a. P2 a) \<Longrightarrow> all_opt P2 (user_str st2 va)" "(\<And>a. P3 a) \<Longrightarrow> all_res P3 (vload_bytes st3 va m)"
  "(\<And>a. P4 a) \<Longrightarrow> all_res P4 (cur_proc st4)" "(\<And>a. P5 a) \<Longrightarrow> all_res P5 (running_thread st5)"
  "(\<And>a. P6 a) \<Longrightarrow> all_res P6 (thread_name tid st6)"
  by (auto simp: all_opt_def all_res_def split: sum.splits)

lemma inv_paths:
  "kernel_inv st \<Longrightarrow> (\<And>r bs s. kernel_inv s \<Longrightarrow> P1 (r, bs, s)) \<Longrightarrow> all_res P1 (obj_read env io n st)"
  "kernel_inv st \<Longrightarrow> (\<And>r s. kernel_inv s \<Longrightarrow> P2 (r, s)) \<Longrightarrow> all_res P2 (obj_write env io ws st)"
  "kernel_inv st \<Longrightarrow> (\<And>r v s. kernel_inv s \<Longrightarrow> P3 (r, v, s)) \<Longrightarrow> all_res P3 (obj_ctl env io cmd arg st)"
  "kernel_inv st \<Longrightarrow> (\<And>s. kernel_inv s \<Longrightarrow> P4 s) \<Longrightarrow> all_res P4 (vstore_bytes va ws st)"
  "kernel_inv st \<Longrightarrow> (\<And>s. kernel_inv s \<Longrightarrow> P4 s) \<Longrightarrow> all_res P4 (vstore va w st)"
  "kernel_inv st \<Longrightarrow> (\<And>s. kernel_inv s \<Longrightarrow> P4 s) \<Longrightarrow> all_res P4 (user_strncpy va cs n st)"
  by (auto intro!: all_resI dest: obj_read_inv obj_write_inv obj_ctl_inv vm_more [THEN kernel_inv_vm])

definition keeps_inv :: "('d, 'w, 'a) sysres \<Rightarrow> bool" where
  "keeps_inv r \<longleftrightarrow> all_opt (\<lambda>(_, st). kernel_inv st) r"

lemma keeps_invI: "(\<And>r st'. m = Some (Inr (r, st')) \<Longrightarrow> kernel_inv st') \<Longrightarrow> keeps_inv m"
  by (auto simp: keeps_inv_def all_opt_def)

lemma sysread_inv: "kernel_inv st \<Longrightarrow> keeps_inv (sysread env fd buf n st)"
  unfolding sysread_def keeps_inv_def by (intro opt_paths all_paths any_paths inv_paths) auto

lemma syswrite_inv: "kernel_inv st \<Longrightarrow> keeps_inv (syswrite env fd buf n st)"
  unfolding syswrite_def keeps_inv_def by (intro opt_paths all_paths any_paths inv_paths) auto

lemma sysioctl_inv: "kernel_inv st \<Longrightarrow> keeps_inv (sysioctl env fd cmd arg st)"
  unfolding sysioctl_def keeps_inv_def by (intro opt_paths all_paths any_paths inv_paths) auto

lemma sysnumprograms_inv: "kernel_inv st \<Longrightarrow> keeps_inv (sysnumprograms arg st)"
  unfolding sysnumprograms_def keeps_inv_def by (intro opt_paths all_paths any_paths inv_paths) auto

lemma sysexec_inv:
  assumes c: "sysexec env fd st = Some (Inr (r, st'))" and inv: "kernel_inv st"
  shows "kernel_inv st'"
proof -
  obtain p pr where cp: "cur_proc st = Inr (p, pr)" using c by (auto simp: sysexec_def bind_opt_conv)
  show ?thesis
  proof (cases "fd_object pr fd")
    case None
    then show ?thesis using c cp inv by (simp add: sysexec_def)
  next
    case (Some io)
    then have "process_exec env io (set_proc p (pr\<lparr>iotab := (iotab pr)[nat fd := None]\<rparr>) st) = Inr (r, st')"
      using c cp by (simp add: sysexec_def)
    then show ?thesis
      using process_exec_inv kernel_inv_drop_fd [OF inv cur_proc_procs [OF cp] fd_object_slot(1) [OF Some], of None] by blast
  qed
qed


lemma sysexit_inv: "kernel_inv st \<Longrightarrow> keeps_inv (sysexit env st)"
  by (rule keeps_invI) (auto simp: sysexit_def bind_opt_conv intro: process_exit_inv)

lemma console_inv: "console_printf fmt args st = Inr (n, st') \<Longrightarrow> kernel_inv st \<Longrightarrow> kernel_inv st'"
  by (auto simp: console_printf_def console_vprintf_printed printed_def kernel_inv_def sched_typed_def bind_res_Inr_conv)

lemma sysmsgout_inv: "kernel_inv st \<Longrightarrow> keeps_inv (sysmsgout msg st)"
  by (rule keeps_invI) (auto simp: sysmsgout_def bind_opt_conv split: if_splits dest: console_inv)

text \<open>The drivers hand out device objects.\<close>

definition dev_typed :: "('d, 'w) kenv \<Rightarrow> bool" where
  "dev_typed env \<longleftrightarrow> (\<forall>f a w refs r w' refs' io. dev_open env f a (w, refs, None) = Inr (r, w', refs', io) \<longrightarrow>
     (\<forall>k. io \<noteq> Some (FileIo k)))"

lemma device_open_typed:
  assumes "device_open (dev_open env) tab name i (w, refs, None) = Inr (r, w', refs', io)" and "dev_typed env"
  shows "\<forall>k. io \<noteq> Some (FileIo k)"
proof -
  from assms(1) have "io = None \<or> (\<exists>f a. dev_open env f a (w, refs, None) = Inr (r, w', refs', io))"
    by (auto simp: device_open_def bind_res_Inr_conv split: if_splits option.splits)
  then show ?thesis using assms(2) unfolding dev_typed_def by blast
qed

lemma sysdevopen_inv:
  assumes inv: "kernel_inv st" and dev: "dev_typed env"
  shows "keeps_inv (sysdevopen env fd name i st)"
proof (rule keeps_invI)
  fix r st' assume o: "sysdevopen env fd name i st = Some (Inr (r, st'))"
  show "kernel_inv st'"
  proof (cases "fd < 0 \<or> 16 \<le> fd")
    case False
    then have fd: "nat fd < 16" "\<not> (fd < 0 \<or> int PROCESS_IOMAX \<le> fd)" by (auto simp: PROCESS_IOMAX_def)
    obtain v where v: "memory_validate_vstr (vload st) name PTE_U st = Some (Inr v)"
      using o fd(2) by (auto simp: sysdevopen_def bind_opt_conv)
    show ?thesis
    proof (cases "v = 0")
      case True
      then obtain n x w refs io where f: "user_str st name = Some (Inr n)"
          "device_open (dev_open env) (devices st) n i (devs st, dev_refs st, None) = Inr (x, w, refs, io)"
        using o fd(2) v by (auto simp: sysdevopen_def bind_opt_conv)
      let ?s = "st\<lparr>devs := w, dev_refs := refs\<rparr>"
      have i: "kernel_inv ?s" using inv by (simp add: kernel_inv_kfs)
      show ?thesis
      proof (cases "x < 0")
        case x: False
        then obtain p pr where p: "cur_proc ?s = Inr (p, pr)" "st' = set_proc p (pr\<lparr>iotab := (iotab pr)[nat fd := io]\<rparr>) ?s"
          using o fd(2) v True f by (auto simp: sysdevopen_def bind_opt_conv Let_def)
        show ?thesis
          using kernel_inv_drop_fd [OF i cur_proc_procs [OF p(1)] fd(1) device_open_typed [OF f(2) dev]] p(2) by simp
      qed (use o fd(2) v True f i in \<open>simp add: sysdevopen_def\<close>)
    qed (use o fd(2) v inv in \<open>simp add: sysdevopen_def\<close>)
  qed (use o inv in \<open>auto simp: sysdevopen_def PROCESS_IOMAX_def\<close>)
qed

lemma fs_open_result:
  assumes "fs_open blk name fs = Inr ((r, k), fs')"
  shows "r < 0 \<Longrightarrow> file_view fs' = file_view fs"
    "\<not> r < 0 \<Longrightarrow> \<exists>j. k = Some j \<and> j < length (file_view fs) \<and> fst (file_view fs ! j) = 0 \<and> file_view fs' = (file_view fs)[j := (1, 1)]"
  using fs_open_view [OF assms] by auto

lemma sysfsopen_inv:
  assumes inv: "kernel_inv st"
  shows "keeps_inv (sysfsopen env fd name st)"
proof (rule keeps_invI)
  fix r st' assume o: "sysfsopen env fd name st = Some (Inr (r, st'))"
  show "kernel_inv st'"
  proof (cases "fd < 0 \<or> 16 \<le> fd")
    case False
    then have fd: "nat fd < 16" "\<not> (fd < 0 \<or> int PROCESS_IOMAX \<le> fd)" by (auto simp: PROCESS_IOMAX_def)
    obtain v where v: "memory_validate_vstr (vload st) name (PTE_U OR PTE_A) st = Some (Inr v)"
      using o fd(2) by (auto simp: sysfsopen_def bind_opt_conv)
    show ?thesis
    proof (cases "v = 0")
      case True
      then obtain n x k fs where f: "user_str st name = Some (Inr n)" "fs_open (blk_ops env) n (kfs st) = Inr ((x, k), fs)"
        using o fd(2) v by (auto simp: sysfsopen_def bind_opt_conv)
      have pi: "procs_inv (procs st) (proctab st) (file_view (kfs st))" using inv by (simp add: kernel_inv_def)
      show ?thesis
      proof (cases "x < 0")
        case x: True
        then have "st' = st\<lparr>kfs := fs\<rparr>" using o fd(2) v True f by (simp add: sysfsopen_def)
        moreover have "kernel_inv (st\<lparr>kfs := fs\<rparr>)" using fs_open_result(1) [OF f(2) x] kernel_inv_kfs(1) inv by blast
        ultimately show ?thesis by simp
      next
        case x: False
        then obtain p pr where p: "cur_proc (st\<lparr>kfs := fs\<rparr>) = Inr (p, pr)"
            "st' = set_proc p (pr\<lparr>iotab := (iotab pr)[nat fd := map_option FileIo k]\<rparr>) (st\<lparr>kfs := fs\<rparr>)"
          using o fd(2) v True f by (auto simp: sysfsopen_def bind_opt_conv Let_def)
        obtain j where j: "k = Some j" "j < length (file_view (kfs st))" "fst (file_view (kfs st) ! j) = 0"
            "file_view fs = (file_view (kfs st))[j := (1, 1)]" using fs_open_result(2) [OF f(2) x] by blast
        have pr: "procs st p = Some pr" using cur_proc_procs [OF p(1)] by simp
        then have "dom ((procs st)(p \<mapsto> pr\<lparr>iotab := (iotab pr)[nat fd := Some (FileIo j)]\<rparr>)) = dom (procs st)" by auto
        then show ?thesis
          using procs_inv_open [OF pi pr fd(1) j(2,3)] inv j(1,4) p(2) by (simp add: kernel_inv_def set_proc_def)
      qed
    qed (use o fd(2) v inv in \<open>simp add: sysfsopen_def\<close>)
  qed (use o inv in \<open>auto simp: sysfsopen_def PROCESS_IOMAX_def\<close>)
qed

lemma join_more:
  "thread_join_step tid st = Inr (r, st') \<Longrightarrow> ts.more st' = ts.more st" "thread_join_any st = Inr (r, st') \<Longrightarrow> ts.more st' = ts.more st"
  "thread_join_any_resumed st = Inr (r, st') \<Longrightarrow> ts.more st' = ts.more st"
proof -
  show step: "ts.more st' = ts.more st" if "thread_join_step tid st = Inr (r, st')" for tid r and st st' :: "'a ts_scheme"
    using that by (auto simp: thread_join_step_def Let_def bind_res_Inr_conv split: if_splits dest: recycle_more condition_wait_more)
  show "ts.more st' = ts.more st" if "thread_join_any st = Inr (r, st')"
    using that by (auto simp: thread_join_any_def Let_def bind_res_Inr_conv split: if_splits option.splits dest: step condition_wait_more)
  show "ts.more st' = ts.more st" if "thread_join_any_resumed st = Inr (r, st')"
    using that by (auto simp: thread_join_any_resumed_def bind_res_Inr_conv split: option.splits dest: recycle_more)
qed

lemma join_inv:
  "thread_join_step tid st = Inr (r, st') \<Longrightarrow> kernel_inv st \<Longrightarrow> kernel_inv st'" "thread_join_any st = Inr (r, st') \<Longrightarrow> kernel_inv st \<Longrightarrow> kernel_inv st'"
  "thread_join_any_resumed st = Inr (r, st') \<Longrightarrow> kernel_inv st \<Longrightarrow> kernel_inv st'"
  by (blast intro: kernel_inv_ts join_more join_step_typed join_any_typed)+

lemma syswait_inv: "kernel_inv st \<Longrightarrow> keeps_inv (syswait tid st)"
  by (rule keeps_invI) (auto simp: syswait_def bind_opt_conv split: if_splits intro: join_inv)

lemma sysusleep_inv:
  assumes inv: "kernel_inv st"
  shows "keeps_inv (sysusleep env us st)"
proof (rule keeps_invI)
  fix r st' assume o: "sysusleep env us st = Some (Inr (r, st'))"
  from o consider "st' = st" | al c n where "alarm_sleep al n (alarm_init al c st) = Some (Inr st')"
    by (auto simp: sysusleep_def bind_opt_conv Let_def case_prod_beta split: if_splits)
  then show "kernel_inv st'"
  proof cases
    case (2 al c n)
    show ?thesis
      by (rule kernel_inv_cong [OF _ alarm_sleep_keeps(1) [OF 2 alarm_init_keeps(1)] inv])
        (simp_all add: alarm_sleep_keeps(2) [OF 2] alarm_init_keeps(2))
  qed (use inv in simp)
qed

lemma syssignal_inv: "kernel_inv st \<Longrightarrow> keeps_inv (syssignal env pid sig st)"
  by (rule keeps_invI) (auto simp: syssignal_def bind_opt_conv get_proc_def split: if_splits option.splits
      intro: process_terminate_inv kernel_inv_same_fds)

lemma sysprognames_inv: "kernel_inv st \<Longrightarrow> keeps_inv (sysprognames arg st)"
proof (rule keeps_invI)
  fix r st' assume inv: "kernel_inv st" and o: "sysprognames arg st = Some (Inr (r, st'))"
  have p: "kernel_inv (snd s')" if "prog_name i s = Inr s'" "kernel_inv (snd s)" for i s and s' :: "u64 \<times> ('a, 'b, 'c) ks_scheme"
    using that by (auto simp: prog_name_def bind_res_Inr_conv split: if_splits prod.splits dest: user_strncpy_vm_more [THEN kernel_inv_vm])
  from o consider "st' = st" | a xs where "foldM prog_name xs (arg, st) = Inr (a, st')"
    by (auto simp: sysprognames_def bind_opt_conv split: if_splits)
  then show "kernel_inv st'"
  proof cases
    case (2 a xs)
    show ?thesis using foldM_invariant [OF 2, of "\<lambda>_ s. kernel_inv (snd s)"] inv p by fastforce
  qed (use inv in simp)
qed

lemma sysrunningprocs_inv: "kernel_inv st \<Longrightarrow> keeps_inv (sysrunningprocs env pids names st)"
proof (rule keeps_invI)
  fix r st' assume inv: "kernel_inv st" and o: "sysrunningprocs env pids names st = Some (Inr (r, st'))"
  have p: "all_res (\<lambda>(_, _, s'). kernel_inv s') (proc_entry pids i (a, n, s))" if "kernel_inv s" for i a n and s :: "('a, 'b, 'c) ks_scheme"
    unfolding proc_entry_def prod.case using that
    by (intro all_paths inv_paths all_resI [of "get_proc _ _"] all_resI [of "get_thread_name _ _"]) auto
  from o obtain a n where f: "foldM (proc_entry pids) [0..<NPROC] (names, stack_junk env, st) = Inr (a, n, st')"
    by (auto simp: sysrunningprocs_def bind_opt_conv)
  show "kernel_inv st'"
    using foldM_invariant [OF f, of "\<lambda>_ (_, _, s). kernel_inv s"] inv p all_resD by fastforce
qed

section \<open>Forking\<close>

text \<open>A fork of a thread that returns has switched to the child: it never reports an error.\<close>

lemma clone_nonzero: "memory_space_clone mp pm asid st = Inr (mt, st') \<Longrightarrow> mt \<noteq> 0"
  using make_mtag_nonzero
  by (auto simp: memory_space_clone_def memory_alloc_page_def Let_def bind_res_Inr_conv split: if_splits)

lemma find_slot_less: "find_slot st = Some tid \<Longrightarrow> tid < NTHR"
  by (auto simp: find_slot_def find_Some_iff)

lemma kernel_inv_set_thread:
  assumes "set_thread p f st = Inr st'" and "kernel_inv st" and "\<And>P D t. thread_typed P D t \<Longrightarrow> thread_typed P D (f t)"
  shows "kernel_inv st'"
  using kernel_inv_ts [OF set_thread_more [OF assms(1)] set_thread_typed [OF assms(1) _ assms(3)] assms(2)] by blast

text \<open>
  What a fork relies on: the memory the heap hands out has the size of a process structure, and in
  that of a thread structure the pointers are null. No code sets the link of a new thread; the pages of
  the heap are cleared when it gets them.
\<close>

definition junk_typed :: "('d, 'w) kenv \<Rightarrow> bool" where
  "junk_typed env \<longleftrightarrow> length (iotab (kmalloc_junk env)) = PROCESS_IOMAX \<and> length (signal_handler (kmalloc_junk env)) = NSIG \<and>
     t_proc (thread_junk env) = None \<and> list_next (thread_junk env) = None"

lemma thread_fork_inv:
  assumes f: "thread_fork_to_user env cp st = Inr (r, st')" and inv: "kernel_inv st" and junk: "junk_typed env"
  shows "kernel_inv st' \<and> r = EnterChild"
proof -
  from f obtain parent pr mt s0 where c: "cur_proc st = Inr (parent, pr)"
      "memory_space_clone (main_pt2 env) (proc_mtag st parent) (drop_bit 44 (proc_mtag st cp AND SATP_ASID_MASK)) st = Inr (mt, s0)"
    by (auto simp: thread_fork_to_user_def bind_res_Inr_conv)
  note mt = clone_nonzero [OF c(2)]
  define s1 where "s1 = s0\<lparr>proc_mtag := (proc_mtag s0)(cp := mt)\<rparr>"
  have i1: "kernel_inv s1" using kernel_inv_vm [OF clone_vm_more [OF c(2)] inv] by (simp add: s1_def kernel_inv_kfs(4))
  note step1 = f [unfolded thread_fork_to_user_def c(1) bind_res_simps prod.case c(2) if_not_P [OF mt] Let_def, folded s1_def]
  from step1 obtain tid a s2 pg s3 where k: "find_slot s1 = Some tid" "kmalloc sizeof_thread s1 = Inr (a, s2)"
      "memory_alloc_page s2 = Inr (pg, s3)"
    by (auto simp: bind_res_Inr_conv split: option.splits)
  have i3: "kernel_inv s3"
    using kernel_inv_vm [OF alloc_page_vm_more [OF k(3)] kernel_inv_vm [OF kmalloc_vm_more [OF k(2)] i1]] .
  define t where "t = (thread_junk env)\<lparr>t_id := int tid, t_name := ''forked_process'', t_parent := Some (curthr s3),
    stack_base := pg + PAGE_SIZE - sizeof_stack_anchor, stack_size := pg + PAGE_SIZE - sizeof_stack_anchor - pg\<rparr>"
  define s4 where "s4 = s3\<lparr>pmem := (pmem s3)(pg + PAGE_SIZE - sizeof_stack_anchor := a, pg + PAGE_SIZE - sizeof_stack_anchor + 8 := 0),
    thrtab := (thrtab s3)[tid := Some (DynThread a)], thrs := (thrs s3)(DynThread a \<mapsto> t),
    resume_sie := (resume_sie s3)(DynThread a := None)\<rparr>"
  from step1 k obtain s5 s6 s7 cr s8 where q: "set_thread (Some (curthr s3)) (t_state_update (\<lambda>_. THREAD_READY)) s4 = Inr s5"
      "ready_insert (Some (curthr s3)) (snd (intr_disable s5)) = Inr s6"
      "set_thread (Some (DynThread a)) (t_state_update (\<lambda>_. THREAD_RUNNING)) (intr_restore (sie s5) s6) = Inr s7"
      "procs s7 cp = Some cr" "thread_set_process (int tid) (Some cp) (set_proc cp (cr\<lparr>proc_tid := int tid\<rparr>) s7) = Inr s8"
      "st' = (snd (memory_space_switch mt s8))\<lparr>curthr := DynThread a, resume_sie := (resume_sie (snd (memory_space_switch mt s8)))(curthr s3 := None)\<rparr>"
      "r = EnterChild"
    by (auto simp: bind_res_Inr_conv s4_def t_def intr_disable_def get_proc_def split: option.splits)
  have "thread_typed (dom (procs s3)) (insert (DynThread a) (dom (thrs s3))) t"
    using i3 find_slot_less [OF k(1)] junk by (simp add: thread_typed_def t_def junk_typed_def kernel_inv_def sched_typed_def)
  then have "sched_typed (dom (procs s3)) (s3\<lparr>thrtab := (thrtab s3)[tid := Some (DynThread a)], thrs := (thrs s3)(DynThread a \<mapsto> t)\<rparr>)"
    using i3 find_slot_less [OF k(1)] by (intro new_thread_typed) (simp_all add: kernel_inv_def)
  then have "sched_typed (dom (procs s3)) s4" by (rule sched_typed_cong [THEN iffD2, rotated -1]) (simp_all add: s4_def)
  then have i4: "kernel_inv s4" using i3 by (simp add: kernel_inv_def s4_def)
  have i5: "kernel_inv s5" by (rule kernel_inv_set_thread [OF q(1) i4]) simp
  have "kernel_inv (snd (intr_disable s5))" by (rule kernel_inv_ts [OF _ _ i5]) simp_all
  then have i6: "kernel_inv s6" using kernel_inv_ts [OF ready_insert_more [OF q(2)] ready_insert_typed [OF q(2)]] by blast
  have "kernel_inv (intr_restore (sie s5) s6)" by (rule kernel_inv_ts [OF _ _ i6]) simp_all
  then have i7: "kernel_inv s7" by (rule kernel_inv_set_thread [OF q(3)]) simp
  let ?s7 = "set_proc cp (cr\<lparr>proc_tid := int tid\<rparr>) s7"
  have i7': "kernel_inv ?s7" by (rule kernel_inv_same_fds [OF i7 q(4)]) simp_all
  obtain tp where "set_thread tp (t_proc_update (\<lambda>_. Some cp)) ?s7 = Inr s8"
    using q(5) by (auto simp: thread_set_process_def bind_res_Inr_conv)
  then have m8: "ts.more s8 = ts.more ?s7" and d8: "dom (thrs s8) = dom (thrs ?s7)"
    by (rule set_thread_more, rule thread_dom(1))
  have "points (dom (procs ?s7)) (Some cp)" by (simp add: set_proc_def)
  then have i8: "kernel_inv s8"
    using kernel_inv_cong [OF ts_kt_more [OF m8] thread_process_typed [OF q(5)] i7'] by blast
  have "DynThread a \<in> dom (thrs s8)"
    using d8 thread_dom(1) [OF q(3)] thread_dom(2) [OF q(2)] thread_dom(1) [OF q(1)]
    by (simp add: set_proc_def intr_defs Let_def s4_def)
  then show ?thesis using i8 q(6,7) by (simp add: kernel_inv_def sched_typed_def memory_space_switch_def)
qed

lemma flags_set: "map f_flags (file_structs (set_file_refcnt k n fs)) = map f_flags (file_structs fs)"
  by (cases "k < length (file_structs fs)")
    (simp_all add: set_file_refcnt_def map_update list_update_same_conv list_update_beyond)

lemma fork_fds_flags: "foldM (fork_fd parent cp) xs st = Inr st' \<Longrightarrow>
    map f_flags (file_structs (kfs st')) = map f_flags (file_structs (kfs st))"
proof (rule foldM_keeps [where g = "\<lambda>st. map f_flags (file_structs (kfs st))"])
  fix j s s' assume "fork_fd parent cp j s = Inr s'"
  then have "kfs s' = kfs s \<or> (\<exists>io. kfs s' = kfs (obj_ref io s))"
    by (auto simp: fork_fd_def bind_res_Inr_conv set_proc_def Let_def split: option.splits) blast
  then show "map f_flags (file_structs (kfs s')) = map f_flags (file_structs (kfs s))"
  proof (elim disjE exE)
    fix io assume "kfs s' = kfs (obj_ref io s)"
    then show ?thesis by (cases io) (simp_all add: obj_ref_def flags_set)
  qed simp
qed

lemma count_le_length: "count_list xs x \<le> length xs"
  by (induction xs) auto

lemma procs_inv_child:
  assumes inv: "procs_inv ps tab v" and par: "ps parent = Some pr" and cp: "ps cp = None" "i < length tab" "tab ! i = None"
    and cr: "iotab cr = iotab pr" "length (signal_handler cr) = NSIG" and len: "length v' = length v"
    and refs: "\<And>k. k < length v \<Longrightarrow> fst (v' ! k) = fst (v ! k) \<and>
      snd (v' ! k) = snd (v ! k) + of_nat (count_list (iotab pr) (Some (FileIo k)))"
  shows "procs_inv (ps(cp \<mapsto> cr)) (tab[i := Some cp]) v'"
proof -
  have fin: "finite (dom ps)" and t: "proc_typed (length v) pr" using inv par by (auto simp: procs_inv_def)
  have "file_held (used (tab[i := Some cp])) (descs (ps(cp \<mapsto> cr)) (FileIo k)) (v' ! k)" if k: "k < length v" for k
  proof -
    have h: "file_held (used tab) (descs ps (FileIo k)) (v ! k)" using inv k by (simp add: procs_inv_def)
    have "used tab \<le> 16" using used_bound [of tab] inv by (simp add: procs_inv_def NPROC_def)
    then have low: "unat (snd (v ! k)) + 16 < 2 ^ 32" using h by (simp add: file_held_def PROCESS_IOMAX_def)
    define n where "n = count_list (iotab pr) (Some (FileIo k))"
    have n: "n \<le> 16" "0 < n \<longrightarrow> 0 < descs ps (FileIo k)"
      using count_le_length [of "iotab pr"] procs_invD(1) [OF inv par] descs_set [OF fin par, of "pr\<lparr>iotab := []\<rparr>" "FileIo k"]
      by (simp_all add: n_def)
    have "unat (snd (v ! k) + of_nat n) = unat (snd (v ! k)) + n"
      using low n(1) by (simp add: unat_word_ariths unat_of_nat)
    then show ?thesis
      using h refs [OF k] n descs_new [OF fin cp(1), of cr "FileIo k"] used_fill [OF cp(2,3)] unfolding cr(1) n_def [symmetric]
      by (auto simp: file_held_def PROCESS_IOMAX_def)
  qed
  moreover have "proc_typed (length v) cr" using t cr by (simp add: proc_typed_def)
  moreover have "\<forall>p \<in> set (tab[i := Some cp]). points (dom (ps(cp \<mapsto> cr))) p"
    using inv by (auto simp: procs_inv_def points_def dest!: subsetD [OF set_update_subset_insert])
  ultimately show ?thesis using inv len by (auto simp: procs_inv_def)
qed

lemma current_process_in:
  assumes "current_process st = Inr (Some p)" and "sched_typed P st"
  shows "p \<in> P"
proof -
  obtain q t where t: "thrs st q = Some t" "t_proc t = Some p"
    using assms(1) by (auto simp: current_process_def thread_process_def thread_at_def deref_def bind_res_Inr_conv
        split: option.splits if_splits)
  then show ?thesis using thread_typedD [OF assms(2) t(1)] by (simp add: thread_typed_def)
qed

lemma sched_typed_mono: "sched_typed P st \<Longrightarrow> P \<subseteq> Q \<Longrightarrow> sched_typed Q st"
  by (fastforce simp: sched_typed_def store_typed_def thread_typed_def points_def)

lemma sysfork_inv:
  assumes inv: "kernel_inv st" and junk: "junk_typed env"
  shows "keeps_inv (sysfork env st)"
proof (rule keeps_invI)
  fix r st' assume o: "sysfork env st = Some (Inr (r, st'))"
  have pi: "procs_inv (procs st) (proctab st) (file_view (kfs st))" and st: "sched_typed (dom (procs st)) st"
    using inv by (simp_all add: kernel_inv_def)
  from o obtain i a s where a: "List.find (\<lambda>i. proctab st ! i = None) [0..<NPROC] = Some i" "kmalloc sizeof_process st = Inr (a, s)"
    by (auto simp: sysfork_def alloc_proc_def bind_opt_conv bind_res_Inr_conv split: option.splits)
  have m: "vm.more s = vm.more st" by (rule kmalloc_vm_more [OF a(2)])
  note ks = kt_ks_more [OF ts_kt_more [OF vm_ts_more [OF m]]]
  have ss: "sched_typed P s = sched_typed P st" for P by (rule vm_sched_typed [OF m])
  have i: "i < length (proctab st)" "proctab st ! i = None" using a(1) pi by (auto simp: find_Some_iff procs_inv_def)
  show "kernel_inv st'"
  proof (cases "a = 0")
    case True
    then have "st' = s\<lparr>proctab := (proctab s)[i := None]\<rparr>" using o a by (simp add: sysfork_def alloc_proc_def)
    moreover have "(proctab s)[i := None] = proctab st" using i(2) ks(2) by (metis list_update_id)
    ultimately show ?thesis using pi st ks ss by (simp add: kernel_inv_def)
  next
    case False
    define cp where "cp = unat a"
    have cp: "procs st cp = None" "cp \<noteq> 0"
      using o a False ks(1) by (auto simp: sysfork_def alloc_proc_def cp_def unat_eq_zero split: if_splits)
    let ?j = "kmalloc_junk env"
    define s1 where "s1 = s\<lparr>proctab := (proctab s)[i := Some cp], procs := (procs s)(cp \<mapsto> ?j)\<rparr>"
    have al: "alloc_proc env st = Inr (i, cp, s1)" using a False cp(1) ks(1) by (simp add: alloc_proc_def cp_def s1_def)
    from o obtain parent pr where c: "cur_proc s1 = Inr (parent, pr)"
      using cp(2) by (auto simp: sysfork_def al bind_opt_conv)
    have "current_process s1 = Inr (Some parent)" "procs s1 parent = Some pr" using cur_procE [OF c] by auto
    moreover have "sched_typed (dom (procs st)) s1" using st ss by (simp add: s1_def)
    ultimately have "parent \<in> dom (procs st)" by (auto dest: current_process_in)
    then have par: "procs st parent = Some pr" "cp \<noteq> parent"
      using \<open>procs s1 parent = Some pr\<close> cp(1) ks by (auto simp: s1_def split: if_splits)
    define id where "id = (case List.find (\<lambda>i. proctab s1 ! i = Some cp) [0..<NPROC] of None \<Rightarrow> proc_id ?j | Some i \<Rightarrow> int i)"
    define cr where "cr = ?j\<lparr>proc_id := id, proc_tid := - 1\<rparr>"
    define s2 where "s2 = s1\<lparr>procs := (procs st)(cp \<mapsto> cr), proc_mtag := (proc_mtag s1)(cp := 0)\<rparr>"
    have p2: "procs s2 parent = Some pr" "procs s2 cp = Some cr" using par by (simp_all add: s2_def)
    have l: "length (iotab pr) = 16" "length (iotab cr) = 16" "length (signal_handler cr) = NSIG"
      using procs_invD(1) [OF pi par(1)] junk by (simp_all add: cr_def junk_typed_def PROCESS_IOMAX_def)
    have fr: "files_in_range pr s2"
      using procs_invD(3) [OF pi par(1)] ks(3) by (auto simp: files_in_range_def s2_def s1_def file_view_def)
    obtain fs d where fd: "foldM (fork_fd parent cp) [0..<16] s2 =
          Inr (s2\<lparr>procs := (procs s2)(cp \<mapsto> cr\<lparr>iotab := iotab pr\<rparr>), kfs := fs, dev_refs := d\<rparr>)"
        "length (file_structs fs) = length (file_structs (kfs s2))"
        "refs_added (iotab pr) s2 (s2\<lparr>procs := (procs s2)(cp \<mapsto> cr\<lparr>iotab := iotab pr\<rparr>), kfs := fs, dev_refs := d\<rparr>)"
      using fork_fds [OF p2 par(2) l(1,2) fr, of 16] l by auto
    define s3 where "s3 = s2\<lparr>procs := (procs s2)(cp \<mapsto> cr\<lparr>iotab := iotab pr\<rparr>), kfs := fs, dev_refs := d\<rparr>"
    have up: "(set_proc cp cr s1)\<lparr>proc_mtag := (proc_mtag (set_proc cp cr s1))(cp := 0)\<rparr> = s2"
      using ks by (simp add: set_proc_def s2_def s1_def)
    have g1: "get_proc (Some cp) s1 = Inr ?j" by (simp add: get_proc_def s1_def)
    have run: "sysfork env st = (case thread_fork_to_user env cp s3 of Inl e \<Rightarrow> Some (Inl e) | Inr (x, s4) \<Rightarrow> Some (Inr (x, s4)))"
      if "\<And>x s4. thread_fork_to_user env cp s3 = Inr (x, s4) \<Longrightarrow> x = EnterChild"
      unfolding sysfork_def al bind_opt_simps prod.case if_not_P [OF cp(2)] c g1 Let_def id_def [symmetric] cr_def [symmetric] up
        PROCESS_IOMAX_def fd(1)
      unfolding s3_def [symmetric] using that by (auto split: sum.splits)
    have v: "file_view (kfs s2) = file_view (kfs st)" using ks(3) by (simp add: s2_def s1_def)
    have "procs_inv ((procs st)(cp \<mapsto> cr\<lparr>iotab := iotab pr\<rparr>)) ((proctab st)[i := Some cp]) (file_view fs)"
    proof (rule procs_inv_child [OF pi par(1) cp(1) i])
      show len: "length (file_view fs) = length (file_view (kfs st))" using fd(2) v by (metis file_view_def length_map)
      fix k assume k: "k < length (file_view (kfs st))"
      have "map f_flags (file_structs fs) = map f_flags (file_structs (kfs s2))" using fork_fds_flags [OF fd(1)] by simp
      then have "fst (file_view fs ! k) = fst (file_view (kfs st) ! k)"
        using k len v by (metis (no_types, lifting) file_view_def fst_conv length_map nth_map)
      moreover have "snd (file_view fs ! k) = snd (file_view (kfs st) ! k) + of_nat (count_list (iotab pr) (Some (FileIo k)))"
        using fd(3) k len ks(3) by (auto simp: refs_added_def obj_refs_def file_refcnt_def file_view_def s2_def s1_def
            dest!: spec [of _ "FileIo k"])
      ultimately show "fst (file_view fs ! k) = fst (file_view (kfs st) ! k) \<and>
        snd (file_view fs ! k) = snd (file_view (kfs st) ! k) + of_nat (count_list (iotab pr) (Some (FileIo k)))" by blast
    qed (use l in simp_all)
    moreover have "sched_typed (dom ((procs st)(cp \<mapsto> cr\<lparr>iotab := iotab pr\<rparr>))) st" by (rule sched_typed_mono [OF st]) auto
    ultimately have i3: "kernel_inv s3" using ks ss by (simp add: kernel_inv_def s3_def s2_def s1_def)
    note tf = thread_fork_inv [OF _ i3 junk, of cp]
    show ?thesis using o run tf by (auto split: sum.splits)
  qed
qed

section \<open>Traps\<close>

lemma keeps_inv_if: "keeps_inv a \<Longrightarrow> keeps_inv b \<Longrightarrow> keeps_inv (if c then a else b)"
  by simp

lemma syscall_inv:
  assumes inv: "kernel_inv st" and env: "dev_typed env" "junk_typed env"
  shows "keeps_inv (syscall env tfr st)"
proof -
  have "keeps_inv (sysclose env fd st)" "keeps_inv (sysexec env fd st)" for fd
    using sysclose_inv [OF _ inv] sysexec_inv [OF _ inv] by (blast intro: keeps_invI)+
  moreover have "keeps_inv (Some (Inr (Ret v, st)))" for v using inv by (simp add: keeps_inv_def all_opt_def)
  ultimately show ?thesis
    unfolding syscall_def Let_def
    by (intro keeps_inv_if sysexit_inv sysmsgout_inv sysdevopen_inv sysfsopen_inv sysread_inv syswrite_inv sysioctl_inv syswait_inv
        sysusleep_inv sysfork_inv syssignal_inv sysnumprograms_inv sysprognames_inv sysrunningprocs_inv inv env)
qed

lemma trap_inv:
  assumes inv: "kernel_inv st" and env: "dev_typed env" "junk_typed env"
    and trap: "umode_excp_handler env stval cause tfr st = Some (Inr (r, tfr', st'))"
  shows "kernel_inv st'"
proof -
  from trap obtain q f s where b: "(if cause \<in> {INSTR_PAGE_FAULT, LOAD_PAGE_FAULT, STORE_PAGE_FAULT}
        then bind_opt (Some (memory_handle_page_fault stval st)) (\<lambda>st. Some (Inr (Ret 0, tfr, st)))
        else if cause = ECALL_FROM_UMODE then syscall_handler env tfr st
        else Some (Inl (fst (default_excp_handler cause tfr st)))) = Some (Inr (q, f, s))"
      and rest: "(case q of Ret _ \<Rightarrow> bind_opt (signal_deliver env s) (\<lambda>(r, st). Some (Inr (r, f, st))) | _ \<Rightarrow> Some (Inr (q, f, s))) =
        Some (Inr (r, tfr', st'))"
    unfolding umode_excp_handler_def bind_opt_conv by auto
  have "kernel_inv s"
  proof (cases "cause \<in> {INSTR_PAGE_FAULT, LOAD_PAGE_FAULT, STORE_PAGE_FAULT}")
    case True
    then have "memory_handle_page_fault stval st = Inr s" using b by (auto simp: bind_opt_conv)
    then show ?thesis using kernel_inv_vm [OF page_fault_vm_more inv] by blast
  next
    case False
    then have "syscall_handler env tfr st = Some (Inr (q, f, s))" using b by (auto split: if_splits)
    then obtain v where "syscall env (tfr\<lparr>tf_sepc := tf_sepc tfr + 4\<rparr>) st = Some (Inr (v, s))"
      by (auto simp: syscall_handler_def Let_def bind_opt_conv)
    then show ?thesis using syscall_inv [OF inv env] by (auto simp: keeps_inv_def all_opt_def)
  qed
  then show ?thesis
    using rest by (cases q) (auto simp: bind_opt_conv intro: signal_deliver_inv)
qed

end
