(* ===== verification/Attach.thy ===== *)
theory Attach
  imports Fork Uart Vioblk
begin

text \<open>
  Attaching the devices: \<open>uart_attach\<close> (\<open>kern/uart.c\<close>), \<open>virtio_attach\<close> (\<open>kern/virtio.c\<close>), \<open>vioblk_attach\<close>
  (\<open>kern/vioblk.c\<close>) and the two loops of \<open>main\<close> (\<open>kern/main.c\<close>) that call them, on the joint state. A
  serial port and a block device are reached by the address of their structure, which the heap
  gives out: the serial ports are in \<open>devs\<close>, the block devices in a store of their own. What the
  eight slots of the VirtIO bus hold is in \<open>virtio_dev\<close>: the registers that the code reads, the
  registers of the queue after the reset by \<open>virtio_attach\<close>, and the hardware behind them. The
  status register is only written. The words of the array of features that no negotiation writes and the
  bytes of a new block buffer are whatever was there before.
\<close>

section \<open>State\<close>

type_synonym uarts = "nat \<Rightarrow> uart_device option"
type_synonym 'h blks = "nat \<Rightarrow> 'h vioblk option"

record 'h virtio_dev =
  magic_value :: u32
  version :: u32
  device_id :: u32
  device_features :: featset
  features_ok :: bool
  blk_size :: u32
  capacity :: u64
  queue_regs :: virtio_regs
  vd_hw :: 'h

record 'h machine =
  slots :: "nat \<Rightarrow> 'h virtio_dev"
  enabled_junk :: featset
  driver_features :: featset
  blkbuf_junk :: "nat \<Rightarrow> u8"
  queue_num_read :: u32

definition UART0_IOBASE :: u64 where "UART0_IOBASE = 0x10000000"
definition UART1_IOBASE :: u64 where "UART1_IOBASE = 0x10000100"
definition UART0_IRQNO :: int where "UART0_IRQNO = 10"
definition VIRT0_IOBASE :: u64 where "VIRT0_IOBASE = 0x10001000"
definition VIRT1_IOBASE :: u64 where "VIRT1_IOBASE = 0x10002000"
definition VIRT0_IRQNO :: int where "VIRT0_IRQNO = 1"
definition UART_IRQ_PRIO :: int where "UART_IRQ_PRIO = 3"
definition VIOBLK_IRQ_PRIO :: int where "VIOBLK_IRQ_PRIO = 1"
definition VIRTIO_MAGIC :: u32 where "VIRTIO_MAGIC = 0x74726976"
definition VIRTIO_ID_NONE :: u32 where "VIRTIO_ID_NONE = 0"
definition VIRTIO_ID_BLOCK :: u32 where "VIRTIO_ID_BLOCK = 2"
definition VIRTIO_ID_CONSOLE :: u32 where "VIRTIO_ID_CONSOLE = 3"

text \<open>The functions whose addresses are stored in the tables of devices and of interrupt routines.\<close>

definition fn_uart_open_ebusy :: nat where "fn_uart_open_ebusy = 0"
definition fn_uart_open :: nat where "fn_uart_open = 1"
definition fn_vioblk_open :: nat where "fn_vioblk_open = 2"
definition fn_uart_isr :: nat where "fn_uart_isr = 0"
definition fn_vioblk_isr :: nat where "fn_vioblk_isr = 1"

text \<open>The sizes of the structures, and where their parts are.\<close>

definition sizeof_uart_device :: u64 where "sizeof_uart_device = 216"
definition sizeof_vioblk_device :: u64 where "sizeof_vioblk_device = 248"

definition zero_uart :: "nat \<Rightarrow> uart_device" where
  "zero_uart a = \<lparr>u_irqno = 0, rxovrcnt = 0, u_refcnt = 0, rxbnotempty = DevCond (a + 32), txbnotfull = DevCond (a + 56),
     rxbuf = \<lparr>hpos = 0, tpos = 0, rdata = replicate SERIAL_RBUFSZ 0\<rparr>,
     txbuf = \<lparr>hpos = 0, tpos = 0, rdata = replicate SERIAL_RBUFSZ 0\<rparr>,
     ier = 0, lcr = 0, dll = 0, dlm = 0, thr_out = []\<rparr>"

section \<open>Operations\<close>

definition register_device ::
    "string \<Rightarrow> nat \<Rightarrow> nat \<Rightarrow> ('d, 'w, 'a) ks_scheme \<Rightarrow> ('d, 'w, 'a) ks_scheme res" where
  "register_device name openfn aux st =
     bind_res (device_register (Some name) (Some openfn) aux (devices st)) (\<lambda>(_, tab). Inr (st\<lparr>devices := tab\<rparr>))"

definition uart_attach :: "u64 \<Rightarrow> int \<Rightarrow> ('d, uarts, 'a) ks_scheme \<Rightarrow> ('d, uarts, 'a) ks_scheme res" where
  "uart_attach mmio_base irqno st =
     (if mmio_base = UART0_IOBASE then register_device ''ser'' fn_uart_open_ebusy 0 st
      else
        bind_res (kcalloc 1 sizeof_uart_device st) (\<lambda>(dev, st).
          let (d, st) = uart_attach_dev irqno (zero_uart (unat dev)) st;
              st = st\<lparr>devs := (devs st)(unat dev \<mapsto> d)\<rparr>
          in bind_res (intr_register_isr irqno UART_IRQ_PRIO (Some fn_uart_isr) (unat dev) st)
               (register_device ''ser'' fn_uart_open (unat dev))))"

definition vioblk_attach ::
    "'h machine \<Rightarrow> 'h virtio_dev \<Rightarrow> u64 \<Rightarrow> int \<Rightarrow> 'h blks \<Rightarrow> ('d, 'w, 'a) ks_scheme \<Rightarrow> ('h blks \<times> ('d, 'w, 'a) ks_scheme) res" where
  "vioblk_attach hw regs mmio_base irqno blks st =
     bind_res (check (device_id regs = VIRTIO_ID_BLOCK) AssertFailed) (\<lambda>_.
     bind_res (vioblk_negotiate (device_features regs) (features_ok regs) (driver_features hw) (enabled_junk hw) (blk_size regs)) (\<lambda>r.
       case r of
         None \<Rightarrow>
           bind_res (console_printf (''%p: virtio feature negotiation failed'' @ [cLF, NUL]) [VWord mmio_base] st) (\<lambda>(_, st). Inr (blks, st))
       | Some (blksz, _) \<Rightarrow>
           bind_res (kmalloc (sizeof_vioblk_device + ucast blksz) st) (\<lambda>(dev, st).
           let st = snd (lock_init (DevCond (unat dev + 216)) st);
               st = condition_init (DevCond (unat dev + 64)) st
           in bind_res (kmalloc (ucast blksz) st) (\<lambda>(blkbuf, st).
              bind_res (check (blkbuf \<noteq> 0) AssertFailed) (\<lambda>_.
              let d = vioblk_attach_dev blksz (capacity regs) (map (blkbuf_junk hw) [0..<unat blksz])
                        (dev + 112, dev + 96, dev + 88) (queue_regs regs) (vd_hw regs)
              in bind_res (intr_register_isr irqno VIOBLK_IRQ_PRIO (Some fn_vioblk_isr) (unat dev) st) (\<lambda>st.
                 bind_res (register_device ''blk'' fn_vioblk_open (unat dev) st) (\<lambda>st.
                   Inr (blks(unat dev \<mapsto> d), st))))))))"

definition virtio_attach ::
    "'h machine \<Rightarrow> 'h virtio_dev \<Rightarrow> u64 \<Rightarrow> int \<Rightarrow> 'h blks \<Rightarrow> ('d, 'w, 'a) ks_scheme \<Rightarrow> ('h blks \<times> ('d, 'w, 'a) ks_scheme) res" where
  "virtio_attach hw regs mmio_base irqno blks st =
     (if magic_value regs \<noteq> VIRTIO_MAGIC then
        bind_res (console_printf (''%p: No virtio magic number found'' @ [cLF, NUL]) [VWord mmio_base] st) (\<lambda>(_, st). Inr (blks, st))
      else if version regs \<noteq> 2 then
        bind_res (console_printf (''%p: Unexpected virtio version (found %u, expected %u)'' @ [cLF, NUL])
            [VWord mmio_base, VWord (ucast (version regs)), VWord 2] st) (\<lambda>(_, st). Inr (blks, st))
      else if device_id regs = VIRTIO_ID_NONE then Inr (blks, st)
      else if device_id regs = VIRTIO_ID_CONSOLE then Inl (Panic ''viocons not included!'')
      else if device_id regs = VIRTIO_ID_BLOCK then vioblk_attach hw regs mmio_base irqno blks st
      else
        bind_res (console_printf (''%p: Unknown virtio device type %u ignored'' @ [cLF, NUL])
            [VWord mmio_base, VWord (ucast (device_id regs))] st) (\<lambda>(_, st). Inr (blks, st)))"

definition main_attach ::
    "'h machine \<Rightarrow> ('d, uarts, 'a) ks_scheme \<Rightarrow> ('h blks \<times> ('d, uarts, 'a) ks_scheme) res" where
  "main_attach hw st =
     bind_res (foldM (\<lambda>i. uart_attach (UART0_IOBASE + (UART1_IOBASE - UART0_IOBASE) * of_nat i) (UART0_IRQNO + int i)) [0..<4] st) (\<lambda>st.
       foldM (\<lambda>i (blks, st). virtio_attach hw (slots hw i) (VIRT0_IOBASE + (VIRT1_IOBASE - VIRT0_IOBASE) * of_nat i)
           (VIRT0_IRQNO + int i) blks st) [0..<8] (Map.empty, st))"

text \<open>
  Opening a device by the function that its entry in the table names. The third part of the state is
  the address of a block device that was opened; opening a serial port gives a port in \<open>devs\<close>.
\<close>

definition open_device ::
    "'h machine \<Rightarrow> nat \<Rightarrow> nat \<Rightarrow> uarts \<times> 'h blks \<times> nat option \<Rightarrow> (int \<times> uarts \<times> 'h blks \<times> nat option) res" where
  "open_device hw f aux = (\<lambda>(us, blks, io).
     if f = fn_uart_open_ebusy then Inr (uart_open_ebusy, us, blks, io)
     else if f = fn_uart_open then
       (case us aux of None \<Rightarrow> Inl UndefinedAccess
        | Some d \<Rightarrow> let (r, d) = uart_open d in Inr (r, us(aux \<mapsto> d), blks, io))
     else
       (case blks aux of None \<Rightarrow> Inl UndefinedAccess
        | Some d \<Rightarrow> bind_res (vioblk_open (queue_num_read hw) d) (\<lambda>(r, d).
            Inr (r, us, blks(aux \<mapsto> d), if r = 0 then Some aux else io))))"

section \<open>Memory\<close>

text \<open>The heap, with its current block and its pages at or above the address \<open>L\<close>.\<close>

definition heap_above :: "nat \<Rightarrow> 'a heapst_scheme \<Rightarrow> u64 list \<Rightarrow> bool" where
  "heap_above L st ps \<longleftrightarrow> (\<exists>bs. heap_inv st bs ps) \<and> L \<le> unat (heap_start st) \<and> (\<forall>p \<in> set ps. L \<le> unat p)"

definition same_below :: "nat \<Rightarrow> (u64 \<Rightarrow> u64) \<Rightarrow> (u64 \<Rightarrow> u64) \<Rightarrow> bool" where
  "same_below L m m' \<longleftrightarrow> (\<forall>a. unat a + 8 \<le> L \<longrightarrow> m' a = m a)"

lemma same_below_trans: "same_below L m m' \<Longrightarrow> same_below L m' m'' \<Longrightarrow> same_below L m m''" "same_below L m m"
  by (simp_all add: same_below_def)

lemma kmalloc_above:
  assumes h: "heap_above L st ps" and le: "round16 sz \<le> PAGE_SIZE" and ne: "ps \<noteq> []"
  obtains a st' k bs where "kmalloc sz st = Inr (a, st')" and "k \<le> 1" and "heap_above L st' (drop k ps)"
    and "same_below L (pmem st) (pmem st')" and "L \<le> unat a" and "unat a + unat (round16 sz) \<le> 2 ^ 64"
    and "heap_inv st' ((a, unat (round16 sz)) # bs) (drop k ps)"
proof -
  obtain bs where inv: "heap_inv st bs ps" using h by (auto simp: heap_above_def)
  obtain a st' ps' where k: "kmalloc sz st = Inr (a, st')" "ps' \<in> {ps, tl ps}" "heap_inv st' ((a, unat (round16 sz)) # bs) ps'"
    using kmalloc_ok [OF inv le] ne by blast
  then obtain j where j: "j \<le> 1" "ps' = drop j ps" by (metis drop0 drop_Suc insert_iff le_numeral_extra(4) One_nat_def singletonD zero_le_one)
  obtain n ns where ps: "ps = n # ns" using ne by (cases ps) auto
  have fp: "free_prefix st (n # ns)" using inv by (simp add: heap_inv_def ps)
  obtain st1 where al: "memory_alloc_page st = Inr (n, st1)" "pmem st1 = zero_page (pmem st) n" "mm.more st1 = mm.more st"
    using memory_alloc_page_Cons [OF fp] by blast
  have n: "page_aligned n" "L \<le> unat n" using mm_prefix.pool_page [OF fp, of n] h by (auto simp: heap_above_def ps)
  have top: "unat n + 4096 \<le> 2 ^ 64" using unat_page_top [OF n(1)] by simp
  have sz: "unat (round16 sz) \<le> 4096" using le by (simp add: word_le_nat_alt)
  have hs: "heap_start st1 = heap_start st" "heap_end st1 = heap_end st" using al(3) by (cases st; cases st1; simp)+
  have z: "same_below L (pmem st) (zero_page (pmem st) n)"
    unfolding same_below_def zero_page_def using n(2) top by (auto simp: word_less_nat_alt word_le_nat_alt unat_minus_if)
  have st: "L \<le> unat (heap_start st)" "heap_start st \<le> heap_end st" using h inv by (simp_all add: heap_above_def heap_inv_def)
  have p: "unat (n + PAGE_SIZE - round16 sz) = unat n + (4096 - unat (round16 sz))" if "round16 sz \<noteq> 0"
  proof -
    define x where "x = PAGE_SIZE - round16 sz"
    have "unat x = 4096 - unat (round16 sz)" using sz by (simp add: x_def unat_minus_if word_le_nat_alt)
    moreover have "unat n + (4096 - unat (round16 sz)) < 2 ^ 64" using top sz that by (simp add: unat_gt_0 [symmetric])
    ultimately have "unat (n + x) = unat n + (4096 - unat (round16 sz))" by (simp add: unat_word_ariths)
    moreover have "n + PAGE_SIZE - round16 sz = n + x" by (simp add: x_def)
    ultimately show ?thesis by (simp only:)
  qed
  from k(1) consider "a = heap_end st - round16 sz" "round16 sz \<le> heap_end st - heap_start st" "st' = st\<lparr>heap_end := a\<rparr>"
    | "a = n + PAGE_SIZE - round16 sz" "\<not> round16 sz \<le> heap_end st - heap_start st" "st' = st1\<lparr>heap_start := n, heap_end := a\<rparr>" | "a = n" "st' = st1"
    using al by (auto simp: kmalloc_def Let_def bind_res_Inr_conv not_less split: if_splits)
  then have "L \<le> unat (heap_start st') \<and> same_below L (pmem st) (pmem st') \<and> L \<le> unat a \<and> unat a + unat (round16 sz) \<le> 2 ^ 64"
  proof cases
    case 1
    have "unat (round16 sz) \<le> unat (heap_end st) - unat (heap_start st)" using 1(2) st(2) by (simp add: word_le_nat_alt unat_minus_if)
    moreover have "unat (heap_start st) \<le> unat (heap_end st)" using st(2) by (simp add: word_le_nat_alt)
    moreover have "unat (heap_end st - round16 sz) = unat (heap_end st) - unat (round16 sz)" using calculation by (simp add: unat_minus_if word_le_nat_alt)
    moreover have hb: "unat (heap_end st) < 18446744073709551616" by simp
    ultimately show ?thesis using 1(1,3) st(1) same_below_trans(2) less_imp_le [OF hb] by auto
  next
    case 2
    then have "round16 sz \<noteq> 0" by auto
    then have "unat a = unat n + (4096 - unat (round16 sz))" using p [OF \<open>round16 sz \<noteq> 0\<close>] 2(1) by (simp only:)
    then show ?thesis using 2(3) n(2) z top sz al(2) by simp
  next
    case 3
    then show ?thesis using n(2) z top sz al(2) hs st(1) by simp
  qed
  then show ?thesis
    using that [OF k(1) j(1)] k(3) h set_drop_subset [of j ps] unfolding heap_above_def j(2) by blast
qed

lemma clear_bytes_outside:
  assumes "unat a + 8 \<le> unat p \<or> unat p + unat n \<le> unat a" and "unat p + unat n \<le> 2 ^ 64" and "unat a + 8 \<le> 2 ^ 64"
  shows "clear_bytes p n m a = m a"
proof -
  have "\<not> a + of_nat i - p < n" if "i < 8" for i
  proof -
    have "unat (a + of_nat i) = unat a + i" using assms(3) that by (simp add: unat_word_ariths unat_of_nat)
    then show ?thesis using assms that by (auto simp: word_less_nat_alt word_le_nat_alt unat_minus_if)
  qed
  then have "keep_byte p n a i = push_bit (8 * i) 255" if "i < 8" for i using that by (simp add: keep_byte_def)
  then have "fold (\<lambda>i w. w OR keep_byte p n a i) [0..<8] 0 = (- 1 :: u64)" by (simp add: upt_rec)
  then show ?thesis by (simp add: clear_bytes_def)
qed

lemma kcalloc_above:
  assumes h: "heap_above L st ps" and sz: "sz \<noteq> 0" "(- 1) div sz \<noteq> 0" "unat sz \<le> unat (round16 sz)" "round16 sz \<le> PAGE_SIZE"
    and ne: "ps \<noteq> []"
  obtains a st' k where "kcalloc 1 sz st = Inr (a, st')" and "k \<le> 1" and "heap_above L st' (drop k ps)"
    and "same_below L (pmem st) (pmem st')"
proof -
  obtain a st' k bs where m: "kmalloc sz st = Inr (a, st')" "k \<le> 1" "heap_above L st' (drop k ps)" "same_below L (pmem st) (pmem st')"
      "L \<le> unat a" "unat a + unat (round16 sz) \<le> 2 ^ 64" "heap_inv st' ((a, unat (round16 sz)) # bs) (drop k ps)"
    using kmalloc_above [OF h sz(4) ne] by blast
  let ?s = "st'\<lparr>pmem := clear_bytes a sz (pmem st')\<rparr>"
  have out: "clear_bytes a sz (pmem st') x = pmem st' x" if "x \<in> set (drop k ps) \<or> unat x + 8 \<le> L" for x
  proof -
    have far: "unat a + unat sz \<le> 2 ^ 64" using m(6) sz(3) by simp
    from that show ?thesis
    proof
      assume x: "x \<in> set (drop k ps)"
      have "page_aligned x" using m(7) x mm_prefix.pool_page [of st' "drop k ps" x] by (auto simp: heap_inv_def)
      then have top: "unat x + 4096 \<le> 2 ^ 64" using unat_page_top [of x] by simp
      have "disjnt (region a (unat (round16 sz))) (page_region x)" using m(7) x by (auto simp: heap_inv_def)
      then have "\<not> (unat a \<le> y \<and> y < unat a + unat (round16 sz) \<and> unat x \<le> y \<and> y < unat x + 4096)" for y
        unfolding disjnt_iff page_region_def region_def by auto
      from this [of "max (unat a) (unat x)"] have "unat x + 4096 \<le> unat a \<or> unat a + unat sz \<le> unat x \<or> sz = 0"
        using sz(3) unat_gt_0 [of sz] by (auto simp: max_def split: if_splits)
      then show ?thesis using far top sz(1) by (intro clear_bytes_outside) auto
    next
      assume "unat x + 8 \<le> L"
      then show ?thesis using far m(5) by (intro clear_bytes_outside) auto
    qed
  qed
  have "free_seg (clear_bytes a sz (pmem st')) p (drop k ps) e = free_seg (pmem st') p (drop k ps) e" for p e
    using out by (intro free_seg_cong) blast
  then have "free_prefix ?s (drop k ps) = free_prefix st' (drop k ps)" by (simp add: free_prefix_def)
  then have "heap_inv ?s ((a, unat (round16 sz)) # bs) (drop k ps)" using m(7) by (simp add: heap_inv_def window_def)
  then have "heap_above L ?s (drop k ps)" using m(3) by (auto simp: heap_above_def)
  moreover have "same_below L (pmem st) (pmem ?s)" using m(4) out by (simp add: same_below_def)
  ultimately show ?thesis using that [of a ?s k] m(1,2) sz(1,2) by (simp add: kcalloc_def not_less)
qed

section \<open>The devices that are attached\<close>

text \<open>
  What an attachment leaves alone (the address space, the threads, the processes and the file system), and the
  registered devices \<open>ds\<close>.
\<close>

definition attached :: "nat \<Rightarrow> u64 list \<Rightarrow> nat \<Rightarrow> device list \<Rightarrow> ('d, 'w, 'a) ks_scheme \<Rightarrow> ('d, 'w, 'a) ks_scheme \<Rightarrow> bool" where
  "attached L ps n ds st st' \<longleftrightarrow> (\<exists>k \<le> n. heap_above L st' (drop k ps)) \<and> same_below L (pmem st) (pmem st') \<and>
     satp st' = satp st \<and> sstatus_sum st' = sstatus_sum st \<and> thrs st' = thrs st \<and> thrtab st' = thrtab st \<and> curthr st' = curthr st \<and>
     procs st' = procs st \<and> proctab st' = proctab st \<and> kfs st' = kfs st \<and> tab_ok (devices st') ds"

lemma attached_vm:
  assumes att: "attached L ps n ds st s" and eq: "s' = s\<lparr>pmem := m, free_list := f, heap_start := h, heap_end := e\<rparr>"
    and above: "\<And>k. k \<le> n \<Longrightarrow> heap_above L s (drop k ps) \<Longrightarrow> \<exists>j \<le> n'. heap_above L s' (drop j ps)" and same: "same_below L (pmem s) m"
  shows "attached L ps n' ds st s'"
  using assms same_below_trans(1) [OF _ same] by (auto simp: attached_def)

lemma kmalloc_attached:
  assumes att: "attached L ps n ds st s" and sz: "round16 sz \<le> PAGE_SIZE" and n: "n < length ps"
  obtains a s' where "kmalloc sz s = Inr (a, s')" and "attached L ps (Suc n) ds st s'" and "L \<le> unat a"
proof -
  obtain k where k: "k \<le> n" "heap_above L s (drop k ps)" using att by (auto simp: attached_def)
  then have "drop k ps \<noteq> []" using n by simp
  from kmalloc_above [OF k(2) sz this] obtain a s' j where m: "kmalloc sz s = Inr (a, s')" "j \<le> 1" "heap_above L s' (drop (j + k) ps)"
      "same_below L (pmem s) (pmem s')" "L \<le> unat a" unfolding drop_drop by blast
  have "j + k \<le> Suc n" using m(2) k(1) by simp
  then have "attached L ps (Suc n) ds st s'" using attached_vm [OF att kmalloc_frame [OF m(1)] _ m(4)] m(3) by blast
  then show ?thesis using that m(1,5) by blast
qed

lemma kcalloc_attached:
  assumes att: "attached L ps n ds st s" and n: "n < length ps"
    and sz: "sz \<noteq> 0" "(- 1) div sz \<noteq> 0" "unat sz \<le> unat (round16 sz)" "round16 sz \<le> PAGE_SIZE"
  obtains a s' where "kcalloc 1 sz s = Inr (a, s')" and "attached L ps (Suc n) ds st s'"
proof -
  obtain k where k: "k \<le> n" "heap_above L s (drop k ps)" using att by (auto simp: attached_def)
  then have "drop k ps \<noteq> []" using n by simp
  from kcalloc_above [OF k(2) sz this] obtain a s' j where m: "kcalloc 1 sz s = Inr (a, s')" "j \<le> 1" "heap_above L s' (drop (j + k) ps)"
      "same_below L (pmem s) (pmem s')" by auto
  have fr: "s' = s\<lparr>pmem := pmem s', free_list := free_list s', heap_start := heap_start s', heap_end := heap_end s'\<rparr>"
  proof -
    obtain b where b: "kmalloc (1 * sz) s = Inr (a, b)" "s' = b\<lparr>pmem := clear_bytes a (1 * sz) (pmem b)\<rparr>"
      using m(1) by (auto simp: kcalloc_def bind_res_Inr_conv split: if_splits)
    show ?thesis unfolding b(2) by (subst kmalloc_frame [OF b(1)]) simp
  qed
  have "j + k \<le> Suc n" using m(2) k(1) by simp
  then have "attached L ps (Suc n) ds st s'" using attached_vm [OF att fr _ m(4)] m(3) by blast
  then show ?thesis using that m(1) by blast
qed

lemma register_attached:
  assumes att: "attached L ps n ds st s" and n: "length ds < NDEV" "no_nul name"
  obtains s' where "register_device name f aux s = Inr s'" and "attached L ps n (ds @ [\<lparr>dev_name = Some name, dev_openfn = Some f, dev_aux = aux\<rparr>]) st s'"
    and "devs s' = devs s"
proof -
  have "tab_ok (devices s) ds" using att by (simp add: attached_def)
  from device_register_ok [OF this n] obtain tab where tab: "device_register (Some name) (Some f) aux (devices s) = Inr (int (length (instances name ds)), tab)"
      "tab_ok tab (ds @ [\<lparr>dev_name = Some name, dev_openfn = Some f, dev_aux = aux\<rparr>])" by blast
  then have "register_device name f aux s = Inr (s\<lparr>devices := tab\<rparr>)" by (simp add: register_device_def)
  moreover have "attached L ps n (ds @ [\<lparr>dev_name = Some name, dev_openfn = Some f, dev_aux = aux\<rparr>]) st (s\<lparr>devices := tab\<rparr>)"
    using att tab(2) by (simp add: attached_def heap_above_def heap_inv_def window_def free_prefix_def)
  ultimately show ?thesis using that by simp
qed

lemma attached_upd:
  assumes "attached L ps n ds st s"
  shows "attached L ps n ds st (condition_init c s)" and "attached L ps n ds st (s\<lparr>devs := w\<rparr>)"
    and "0 \<le> irq \<Longrightarrow> irq < int NIRQ \<Longrightarrow> \<exists>s'. intr_register_isr irq prio f aux s = Inr s' \<and> attached L ps n ds st s' \<and> devs s' = devs s"
  using assms by (simp_all add: attached_def heap_above_def heap_inv_def window_def free_prefix_def condition_init_def intr_register_isr_def Let_def)

text \<open>The serial ports.\<close>

lemma uart_size: "sizeof_uart_device \<noteq> 0" "(- 1) div sizeof_uart_device \<noteq> 0" "unat sizeof_uart_device \<le> unat (round16 sizeof_uart_device)"
  "round16 sizeof_uart_device \<le> PAGE_SIZE"
  by (simp_all add: sizeof_uart_device_def round16_def)

lemma uart_attach_ok:
  assumes att: "attached L ps n ds st s" and room: "length ds < NDEV" "n < length ps" and irq: "0 \<le> irq" "irq < int NIRQ"
  obtains s' d where "uart_attach base irq s = Inr s'" and "attached L ps (Suc n) (ds @ [d]) st s'" and "dev_name d = Some ''ser''"
proof (cases "base = UART0_IOBASE")
  case True
  have "no_nul ''ser''" by (simp add: no_nul_def)
  let ?d = "\<lparr>dev_name = Some ''ser'', dev_openfn = Some fn_uart_open_ebusy, dev_aux = 0\<rparr>"
  obtain s' where s': "register_device ''ser'' fn_uart_open_ebusy 0 s = Inr s'" "attached L ps n (ds @ [?d]) st s'"
    using register_attached [OF att room(1) \<open>no_nul ''ser''\<close>, of fn_uart_open_ebusy 0] by blast
  from s'(2) have "attached L ps (Suc n) (ds @ [?d]) st s'" unfolding attached_def by (meson le_SucI)
  then show ?thesis using that [of s' ?d] s'(1) True by (simp add: uart_attach_def)
next
  case False
  obtain a s1 where s1: "kcalloc 1 sizeof_uart_device s = Inr (a, s1)" "attached L ps (Suc n) ds st s1"
    using kcalloc_attached [OF att room(2) uart_size] by blast
  let ?s2 = "snd (uart_attach_dev irq (zero_uart (unat a)) s1)" and ?d = "fst (uart_attach_dev irq (zero_uart (unat a)) s1)"
  let ?s3 = "?s2\<lparr>devs := (devs ?s2)(unat a \<mapsto> ?d)\<rparr>"
  have "attached L ps (Suc n) ds st ?s2" using attached_upd(1) [OF attached_upd(1) [OF s1(2)]] by (simp add: uart_attach_dev_def Let_def)
  then have "attached L ps (Suc n) ds st ?s3" by (rule attached_upd(2))
  then obtain s4 where s4: "intr_register_isr irq UART_IRQ_PRIO (Some fn_uart_isr) (unat a) ?s3 = Inr s4" "attached L ps (Suc n) ds st s4"
    using attached_upd(3) [OF _ irq] by blast
  have "no_nul ''ser''" by (simp add: no_nul_def)
  from register_attached [OF s4(2) room(1) this, of fn_uart_open "unat a"] obtain s' where
    "register_device ''ser'' fn_uart_open (unat a) s4 = Inr s'"
    "attached L ps (Suc n) (ds @ [\<lparr>dev_name = Some ''ser'', dev_openfn = Some fn_uart_open, dev_aux = unat a\<rparr>]) st s'" by blast
  then show ?thesis using that False s1(1) s4(1) by (auto simp: uart_attach_def split_beta Let_def)
qed

lemma uarts_attach_ok:
  assumes "attached L ps n ds st s" and "n + length js \<le> length ps" and "length ds + length js \<le> NDEV" and "\<forall>i \<in> set js. g i \<in> {0..<int NIRQ}"
  shows "\<exists>s' es. foldM (\<lambda>i. uart_attach (f i) (g i)) js s = Inr s' \<and> attached L ps (n + length js) (ds @ es) st s' \<and>
    length es = length js \<and> (\<forall>d \<in> set es. dev_name d = Some ''ser'')"
  using assms
proof (induction js arbitrary: n ds s)
  case (Cons i js)
  have "length ds < NDEV" "n < length ps" "0 \<le> g i" "g i < int NIRQ" using Cons.prems by auto
  from uart_attach_ok [OF Cons.prems(1) this, of "f i"] obtain s1 d where s1: "uart_attach (f i) (g i) s = Inr s1"
    "attached L ps (Suc n) (ds @ [d]) st s1" "dev_name d = Some ''ser''" by blast
  obtain s' es where "foldM (\<lambda>i. uart_attach (f i) (g i)) js s1 = Inr s'" "attached L ps (Suc n + length js) ((ds @ [d]) @ es) st s'"
    "length es = length js" "\<forall>d \<in> set es. dev_name d = Some ''ser''"
    using Cons.IH [OF s1(2)] Cons.prems(2-4) by auto
  then show ?case using s1 by (intro exI [of _ s'] exI [of _ "d # es"]) simp
qed simp

text \<open>A block device in a slot of the bus, and the other slots empty.\<close>

definition blk_slot :: "('h \<Rightarrow> u8 list) \<Rightarrow> 'h virtio_dev \<Rightarrow> bool" where
  "blk_slot contents d \<longleftrightarrow> magic_value d = VIRTIO_MAGIC \<and> version d = 2 \<and> device_id d = VIRTIO_ID_BLOCK \<and> features_ok d \<and>
     device_features d ! 0 AND 0x10000000 = 0x10000000 \<and> device_features d ! 1 AND 0x100 = 0x100 \<and>
     (bit (device_features d ! 0) 6 \<longrightarrow> blk_size d = 512) \<and>
     512 dvd length (contents (vd_hw d)) \<and> length (contents (vd_hw d)) < 2 ^ 41 \<and> capacity d * 512 = of_nat (length (contents (vd_hw d)))"

definition empty_slot :: "'h virtio_dev \<Rightarrow> bool" where
  "empty_slot d \<longleftrightarrow> magic_value d = VIRTIO_MAGIC \<and> version d = 2 \<and> device_id d = VIRTIO_ID_NONE"

lemma blk_negotiate:
  assumes "blk_slot contents d"
  shows "\<exists>dr. vioblk_negotiate (device_features d) (features_ok d) driver enabled (blk_size d) = Inr (Some (512, dr))"
proof -
  have n: "virtio_featset_add (virtio_featset_add virtio_featset_init VIRTIO_F_RING_RESET) VIRTIO_F_INDIRECT_DESC = [0x10000000, 0x100, 0, 0]"
    "virtio_featset_add (virtio_featset_add virtio_featset_init VIRTIO_BLK_F_BLK_SIZE) VIRTIO_BLK_F_TOPOLOGY = [0x440, 0, 0, 0]"
    by code_simp+
  have four: "set [0..<VIRTIO_FEATLEN] = {0, 1, 2, 3}" "[0..<VIRTIO_FEATLEN] = [0, 1, 2, 3]" by (auto simp: VIRTIO_FEATLEN_def upt_rec)
  show ?thesis using assms unfolding vioblk_negotiate_def Let_def n virtio_negotiate_features_def four blk_slot_def
    by (simp add: virtio_featset_test_def VIRTIO_BLK_F_BLK_SIZE_def bit_and_iff)
qed

lemma vioblk_attach_ok:
  assumes att: "attached L ps n ds st s" and room: "length ds < NDEV" "Suc n < length ps" and irq: "0 \<le> irq" "irq < int NIRQ"
    and d: "blk_slot contents d" and L: "0 < L"
  obtains a dev s' where "vioblk_attach hw d base irq blks s = Inr (blks(a \<mapsto> dev), s')"
    and "attached L ps (Suc (Suc n)) (ds @ [\<lparr>dev_name = Some ''blk'', dev_openfn = Some fn_vioblk_open, dev_aux = a\<rparr>]) st s'"
    and "vb_wf contents dev" and "\<not> vb_lock dev" and "\<not> vb_opened dev" and "vb_data contents dev = contents (vd_hw d)"
proof -
  obtain dr where neg: "vioblk_negotiate (device_features d) (features_ok d) (driver_features hw) (enabled_junk hw) (blk_size d) = Inr (Some (512, dr))"
    using blk_negotiate [OF d] by blast
  have sz: "round16 (sizeof_vioblk_device + ucast (512 :: u32)) \<le> PAGE_SIZE" "round16 (ucast (512 :: u32)) \<le> PAGE_SIZE"
    by (simp_all add: sizeof_vioblk_device_def round16_def)
  obtain a s1 where s1: "kmalloc (sizeof_vioblk_device + ucast (512 :: u32)) s = Inr (a, s1)" "attached L ps (Suc n) ds st s1"
    using kmalloc_attached [OF att sz(1) Suc_lessD [OF room(2)]] by blast
  let ?s2 = "condition_init (DevCond (unat a + 64)) (condition_init (DevCond (unat a + 216)) s1)"
  have "attached L ps (Suc n) ds st ?s2" using attached_upd(1) s1(2) by blast
  then obtain b s3 where s3: "kmalloc (ucast (512 :: u32)) ?s2 = Inr (b, s3)" "attached L ps (Suc (Suc n)) ds st s3" "L \<le> unat b"
    using kmalloc_attached [OF _ sz(2) room(2)] by blast
  obtain s4 where s4: "intr_register_isr irq VIOBLK_IRQ_PRIO (Some fn_vioblk_isr) (unat a) s3 = Inr s4" "attached L ps (Suc (Suc n)) ds st s4"
    using attached_upd(3) [OF s3(2) irq] by blast
  have nn: "no_nul ''blk''" by (simp add: no_nul_def)
  obtain s' where s': "register_device ''blk'' fn_vioblk_open (unat a) s4 = Inr s'"
      "attached L ps (Suc (Suc n)) (ds @ [\<lparr>dev_name = Some ''blk'', dev_openfn = Some fn_vioblk_open, dev_aux = unat a\<rparr>]) st s'"
    using register_attached [OF s4(2) room(1) nn] by blast
  let ?dev = "vioblk_attach_dev 512 (capacity d) (map (blkbuf_junk hw) [0..<512]) (a + 112, a + 96, a + 88) (queue_regs d) (vd_hw d)"
  have "b \<noteq> 0" using s3(3) L by auto
  then have "vioblk_attach hw d base irq blks s = Inr (blks(unat a \<mapsto> ?dev), s')"
    using neg d s1(1) s3(1) s4(1) s'(1) by (simp add: vioblk_attach_def blk_slot_def lock_init_def Let_def)
  moreover have "vb_wf contents ?dev" "\<not> vb_lock ?dev" "\<not> vb_opened ?dev" "vb_data contents ?dev = contents (vd_hw d)"
    using d by (simp_all add: blk_slot_def vb_wf_def vb_data_def vioblk_attach_dev_def)
  ultimately show ?thesis using that s'(2) by blast
qed

lemma empty_slots: "\<forall>i \<in> set js. empty_slot (slots hw i) \<Longrightarrow>
  foldM (\<lambda>i (blks, st). virtio_attach hw (slots hw i) (f i) (g i) blks st) js (blks, s) = Inr (blks, s)"
  by (induction js) (simp_all add: virtio_attach_def empty_slot_def)

text \<open>The serial ports, then the block device of slot \<open>b\<close>.\<close>

lemma main_attach_ok:
  assumes heap: "heap_above L st ps" and tab: "devices st = devtab_empty" and b: "b < 8" "blk_slot contents (slots hw b)"
    "\<forall>i < 8. i \<noteq> b \<longrightarrow> empty_slot (slots hw i)" and L: "0 < L" and room: "6 \<le> length ps"
  obtains a dev st' us where "main_attach hw st = Inr ([a \<mapsto> dev], st')" and "attached L ps 6 (us @ [\<lparr>dev_name = Some ''blk'', dev_openfn = Some fn_vioblk_open, dev_aux = a\<rparr>]) st st'"
    and "\<forall>d \<in> set us. dev_name d = Some ''ser''"
    and "vb_wf contents dev" and "\<not> vb_lock dev" and "\<not> vb_opened dev" and "vb_data contents dev = contents (vd_hw (slots hw b))"
proof -
  let ?u = "\<lambda>i. UART0_IOBASE + (UART1_IOBASE - UART0_IOBASE) * of_nat i" and ?v = "\<lambda>i. VIRT0_IOBASE + (VIRT1_IOBASE - VIRT0_IOBASE) * of_nat i"
  have "attached L ps 0 [] st st"
    using heap tab by (simp add: attached_def same_below_trans(2) tab_ok_def devtab_empty_def)
  moreover have "\<forall>i \<in> set [0..<4]. UART0_IRQNO + int i \<in> {0..<int NIRQ}" by (auto simp: UART0_IRQNO_def NIRQ_def)
  ultimately obtain s us where s: "foldM (\<lambda>i. uart_attach (?u i) (UART0_IRQNO + int i)) [0..<4] st = Inr s" "attached L ps 4 us st s"
      "length us = 4" "\<forall>d \<in> set us. dev_name d = Some ''ser''"
    using uarts_attach_ok [of L ps 0 "[]" st st "[0..<4]" "\<lambda>i. UART0_IRQNO + int i" ?u] room by (auto simp: NDEV_def)
  have irq: "0 \<le> VIRT0_IRQNO + int b" "VIRT0_IRQNO + int b < int NIRQ" using b(1) by (simp_all add: VIRT0_IRQNO_def NIRQ_def)
  obtain a dev s' where s': "vioblk_attach hw (slots hw b) (?v b) (VIRT0_IRQNO + int b) Map.empty s = Inr ([a \<mapsto> dev], s')"
      "attached L ps 6 (us @ [\<lparr>dev_name = Some ''blk'', dev_openfn = Some fn_vioblk_open, dev_aux = a\<rparr>]) st s'"
      "vb_wf contents dev" "\<not> vb_lock dev" "\<not> vb_opened dev" "vb_data contents dev = contents (vd_hw (slots hw b))"
    using vioblk_attach_ok [OF s(2) _ _ irq b(2) L, of hw "?v b" Map.empty] s(3) room by (auto simp: NDEV_def numeral_eq_Suc)
  have split: "[0..<8] = [0..<b] @ b # [Suc b..<8]" using b(1) by (metis upt_conv_Cons upt_add_eq_append zero_le add_0 le_add_diff_inverse less_imp_le)
  have "main_attach hw st = Inr ([a \<mapsto> dev], s')"
    unfolding main_attach_def s(1) bind_res_simps split foldM_append
    using b(3) s'(1) b(1,2) by (simp add: empty_slots virtio_attach_def blk_slot_def VIRTIO_ID_BLOCK_def VIRTIO_ID_NONE_def VIRTIO_ID_CONSOLE_def)
  then show ?thesis using that s'(2-6) s(4) by blast
qed

text \<open>Opening the block device by its name.\<close>

lemma open_blk_ok:
  assumes tab: "tab_ok tab (us @ [\<lparr>dev_name = Some ''blk'', dev_openfn = Some fn_vioblk_open, dev_aux = a\<rparr>])"
    and us: "\<forall>d \<in> set us. dev_name d = Some ''ser''" and dev: "vb_wf contents dev" "\<not> vb_lock dev" "\<not> vb_opened dev" "blks a = Some dev"
  obtains dev' where "device_open (open_device hw) tab ''blk'' 0 (w, blks, None) = Inr (0, w, blks(a \<mapsto> dev'), Some a)"
    and "vb_wf contents dev'" and "\<not> vb_lock dev'" and "vb_data contents dev' = vb_data contents dev"
proof -
  obtain dev' where o: "vioblk_open (queue_num_read hw) dev = Inr (0, dev')" "vb_wf contents dev'" "\<not> vb_lock dev'" "vb_data contents dev' = vb_data contents dev"
    using dev by (simp add: vioblk_open_def vb_acquire_def vb_release_def Let_def vb_wf_def vb_data_def)
  have "no_nul ''blk''" by (simp add: no_nul_def)
  moreover have "instances ''blk'' (us @ [\<lparr>dev_name = Some ''blk'', dev_openfn = Some fn_vioblk_open, dev_aux = a\<rparr>]) =
      [\<lparr>dev_name = Some ''blk'', dev_openfn = Some fn_vioblk_open, dev_aux = a\<rparr>]"
    using us by (auto simp: instances_def filter_empty_conv)
  ultimately have "device_open (open_device hw) tab ''blk'' (int 0) (w, blks, None) = open_device hw fn_vioblk_open a (w, blks, None)"
    using device_open_ok [OF tab, of "''blk''" "open_device hw" 0] by simp
  then show ?thesis using that o dev(4) by (simp add: open_device_def fn_vioblk_open_def fn_uart_open_def fn_uart_open_ebusy_def)
qed

end
