(* ===== verification/Boot.thy ===== *)
theory Boot
  imports Attach
begin

text \<open>
  The main function of the kernel, \<open>kern/main.c\<close>, on the joint state. The stack bounds of the static
  threads are symbols of \<open>thrasm.s\<close>, and the loops that attach the devices are in \<open>Attach\<close>. The
  console port needs no initialisation in the model, and the flag of \<open>devmgr_init\<close> is never read.
\<close>

section \<open>Operations\<close>

record stacks =
  main_anchor :: u64
  main_lowest :: u64
  idle_anchor :: u64
  idle_lowest :: u64

definition INIT_PROC :: string where "INIT_PROC = ''init_shell''"

definition main_init :: "kimage \<Rightarrow> stacks \<Rightarrow> ('d, 'w, 'a) ks_scheme \<Rightarrow> ('d, 'w, 'a) ks_scheme res" where
  "main_init img sk st =
     bind_res (memory_init img st) (\<lambda>st.
     let st = intr_init st in
     bind_res (thread_init (main_anchor sk) (main_lowest sk) (idle_anchor sk) (idle_lowest sk) st) (\<lambda>st.
     bind_res (procmgr_init st) (\<lambda>st.
       Inr (timer_init st))))"

definition main_mount ::
    "('h vioblk, uarts) kenv \<Rightarrow> 'h machine \<Rightarrow> 'h blks \<Rightarrow> ('h vioblk, uarts, 'a) ks_scheme \<Rightarrow> ('h vioblk, uarts, 'a) ks_scheme res" where
  "main_mount env hw blks st =
     (let st = snd (intr_enable st) in
      bind_res (device_open (open_device hw) (devices st) ''blk'' 0 (devs st, blks, None)) (\<lambda>(result, us, blks, blkio).
        let st = st\<lparr>devs := us\<rparr> in
        if result \<noteq> 0 then Inl (Panic ''device_open failed'')
        else
          case Option.bind blkio blks of
            None \<Rightarrow> Inl UndefinedAccess
          | Some dev \<Rightarrow>
              bind_res (fs_mount (blk_ops env) dev (kfs st)) (\<lambda>(result, fs).
                if result \<noteq> 0 then Inl (Panic ''fs_mount failed'') else Inr (st\<lparr>kfs := fs\<rparr>))))"

definition main_exec :: "('d, 'w) kenv \<Rightarrow> ('d, 'w, 'a) ks_scheme \<Rightarrow> (sysret \<times> ('d, 'w, 'a) ks_scheme) res" where
  "main_exec env st =
     bind_res (fs_open (blk_ops env) INIT_PROC (kfs st)) (\<lambda>((result, initio), fs).
       let st = st\<lparr>kfs := fs\<rparr> in
       if result < 0 then Inl (Panic (INIT_PROC @ '': process image not found''))
       else
         case initio of
           None \<Rightarrow> Inl UndefinedAccess
         | Some k \<Rightarrow>
             bind_res (process_exec env (FileIo k) st) (\<lambda>(r, st).
               case r of
                 Ret _ \<Rightarrow> Inl (Panic (INIT_PROC @ '': process_exec failed''))
               | _ \<Rightarrow> Inr (r, st)))"

definition kmain ::
    "('h vioblk, uarts) kenv \<Rightarrow> 'h machine \<Rightarrow> kimage \<Rightarrow> stacks \<Rightarrow> ('h vioblk, uarts, 'a) ks_scheme \<Rightarrow>
      (sysret \<times> ('h vioblk, uarts, 'a) ks_scheme) res" where
  "kmain env hw img sk st =
     bind_res (main_init img sk st) (\<lambda>st.
     bind_res (main_attach hw st) (\<lambda>(blks, st).
     bind_res (main_mount env hw blks st) (main_exec env)))"

section \<open>Initialisation\<close>

text \<open>The static data of the kernel before \<open>main\<close>, and the threads and the process after \<open>main_init\<close>.\<close>

definition static_kernel :: "('d, 'w, 'a) ks_scheme \<Rightarrow> bool" where
  "static_kernel st \<longleftrightarrow> thrs st = static_threads \<and> thrtab st = static_thrtab \<and> ready_list st = tlclear \<and>
     conds st = (\<lambda>_. tlclear) \<and> procs st = static_procs \<and> proctab st = static_proctab"

lemma static_kernel_cong: "vm.more st' = vm.more st \<Longrightarrow> static_kernel st' = static_kernel st"
  by (cases st; cases st') (simp add: static_kernel_def)

lemma map_leaves_vm_more: "vm.more (map_leaves pt l fl ps st) = vm.more st"
  by (induction ps arbitrary: st) (simp_all add: map_leaves_def set_pte_def)

lemma init_main_tables_vm_more: "vm.more (init_main_tables img st) = vm.more st"
  by (simp add: init_main_tables_def Let_def map_leaves_vm_more set_pte_def)

lemma push_page_vm_more: "vm.more (fold push_page ps st) = vm.more st"
  by (induction ps arbitrary: st) (simp_all add: push_page_def)

lemma memory_init_vm_more: "memory_init img st = Inr st' \<Longrightarrow> vm.more st' = vm.more st"
  by (auto simp: memory_init_def Let_def bind_res_Inr_conv heap_init_def push_page_vm_more init_main_tables_vm_more split: if_splits)

definition boot_threads :: "stacks \<Rightarrow> nat option \<Rightarrow> thrstore" where
  "boot_threads sk pr = [
     MainThread \<mapsto> zero_thread\<lparr>t_name := ''main'', t_id := int MAIN_TID, t_state := THREAD_RUNNING,
       stack_base := main_anchor sk, stack_size := main_anchor sk - main_lowest sk, t_proc := pr\<rparr>,
     IdleThread \<mapsto> zero_thread\<lparr>t_name := ''idle'', t_id := int IDLE_TID, t_state := THREAD_READY, t_parent := Some MainThread,
       stack_base := idle_anchor sk, stack_size := idle_anchor sk - idle_lowest sk\<rparr>]"

definition boot_proc :: process where
  "boot_proc = zero_process\<lparr>proc_id := int MAIN_PID, proc_tid := int MAIN_TID\<rparr>"

lemma thread_init_static:
  assumes "thrs st = static_threads" and "ready_list st = tlclear"
  shows "thread_init (main_anchor sk) (main_lowest sk) (idle_anchor sk) (idle_lowest sk) st =
    Inr (st\<lparr>thrs := boot_threads sk None, ready_list := \<lparr>tl_head = Some IdleThread, tl_tail = Some IdleThread\<rparr>,
      curthr := MainThread, thrmgr_initialized := True\<rparr>)"
proof -
  have "tlinsert tlclear (Some IdleThread) (boot_threads sk None) =
      Inr (\<lparr>tl_head = Some IdleThread, tl_tail = Some IdleThread\<rparr>, boot_threads sk None)"
    by (simp add: tlinsert_def tlclear_def boot_threads_def zero_thread_def)
  moreover have "set_thread (Some MainThread) (\<lambda>t. t\<lparr>stack_base := main_anchor sk, stack_size := main_anchor sk - main_lowest sk\<rparr>) st =
      Inr (st\<lparr>thrs := (boot_threads sk None)(IdleThread := static_threads IdleThread)\<rparr>)"
    using assms by (simp add: set_thread_def static_threads_def boot_threads_def zero_thread_def fun_upd_twist)
  moreover have "set_thread (Some IdleThread) (\<lambda>t. t\<lparr>stack_base := idle_anchor sk, stack_size := idle_anchor sk - idle_lowest sk\<rparr>)
      (st\<lparr>thrs := (boot_threads sk None)(IdleThread := static_threads IdleThread)\<rparr>) = Inr (st\<lparr>thrs := boot_threads sk None\<rparr>)"
    by (simp add: set_thread_def static_threads_def boot_threads_def zero_thread_def)
  ultimately show ?thesis
    using assms by (simp add: thread_init_def init_main_thread_def init_idle_thread_def ready_insert_def)
qed

lemma procmgr_init_static:
  assumes "thrs st = boot_threads sk None" and "curthr st = MainThread" and "thrtab st = static_thrtab" and "procs st = static_procs"
  shows "procmgr_init st = Inr (st\<lparr>thrs := boot_threads sk (Some main_proc), procs := [main_proc \<mapsto> boot_proc],
    proc_mtag := (proc_mtag st)(main_proc := satp st), procmgr_initialized := True\<rparr>)"
proof -
  have m: "static_thrtab ! 0 = Some MainThread" by (simp add: static_thrtab_def NTHR_def MAIN_TID_def IDLE_TID_def)
  have r: "running_thread st = Inr 0" using assms by (simp add: running_thread_def boot_threads_def MAIN_TID_def)
  show ?thesis
    using assms m by (simp add: procmgr_init_def r get_proc_def set_proc_def static_procs_def thread_set_process_def thread_at_def
        set_thread_def NTHR_def boot_threads_def boot_proc_def zero_process_def active_space_mtag_def MAIN_TID_def fun_upd_twist)
qed

lemma main_init_static:
  assumes st: "static_kernel st" and mem: "memory_init img st = Inr s"
  shows "\<exists>st'. main_init img sk st = Inr st' \<and> thrs st' = boot_threads sk (Some main_proc) \<and> curthr st' = MainThread \<and>
    procs st' = [main_proc \<mapsto> boot_proc] \<and> proctab st' = static_proctab \<and> thrtab st' = static_thrtab \<and>
    ready_list st' = \<lparr>tl_head = Some IdleThread, tl_tail = Some IdleThread\<rparr> \<and> conds st' = (\<lambda>_. tlclear) \<and>
    pmem st' = pmem s \<and> free_list st' = free_list s \<and> heap_start st' = heap_start s \<and> heap_end st' = heap_end s \<and>
    satp st' = satp s \<and> sstatus_sum st' = sstatus_sum s \<and>
    kfs st' = kfs st \<and> devices st' = devices st \<and> devs st' = devs st \<and> dev_refs st' = dev_refs st"
proof -
  let ?i = "intr_init s"
  have k: "static_kernel s" using st static_kernel_cong [OF memory_init_vm_more [OF mem]] by simp
  have m: "kfs s = kfs st" "devices s = devices st" "devs s = devs st" "dev_refs s = dev_refs st"
    using memory_init_vm_more [OF mem] by (cases st; cases s; simp)+
  have i: "thrs ?i = static_threads" "thrtab ?i = static_thrtab" "ready_list ?i = tlclear" "conds ?i = (\<lambda>_. tlclear)" "procs ?i = static_procs"
    "proctab ?i = static_proctab" "pmem ?i = pmem s" "free_list ?i = free_list s" "heap_start ?i = heap_start s"
    "heap_end ?i = heap_end s" "satp ?i = satp s" "sstatus_sum ?i = sstatus_sum s"
    "kfs ?i = kfs st" "devices ?i = devices st" "devs ?i = devs st" "dev_refs ?i = dev_refs st"
    using k m by (simp_all add: static_kernel_def intr_init_def Let_def intr_defs)
  show ?thesis
    by (simp add: main_init_def mem thread_init_static [OF i(1,3)])
      (subst procmgr_init_static [of _ sk], simp_all add: i timer_init_def enable_mmode_timer_intr_def)
qed

end
