(* ===== verification/Reach.thy ===== *)
theory Reach
  imports KernelInv Boot
begin

text \<open>
  The states the kernel can be in. The step relation \<open>kstep\<close> has a step for each way into the
  kernel: an exception or a system call, an interrupt, the start of the first program, and the
  return of a thread from a wait. The reachable states are those after \<open>main\<close> has initialised
  the kernel and mounted the file system, and those after steps from there; all of them satisfy
  the invariant of \<open>KernelInv\<close>. A step ends where the kernel faults, so the invariant is one of
  runs in which the kernel has written only through pointers it may follow.
\<close>

section \<open>Interrupts and steps\<close>

text \<open>
  Calling the registered routine \<open>f\<close> for the device at \<open>aux\<close>, with what the registers of the device
  show: the line status and the received byte of a serial port, the interrupt status of a block device.
\<close>

definition run_isr :: "u8 \<Rightarrow> u8 \<Rightarrow> u32 \<Rightarrow> ('d, uarts, 'a) ks_scheme isr_call" where
  "run_isr line_status rbr status f irq aux st =
     (if f = fn_uart_isr then
        (case devs st aux of
           None \<Rightarrow> Some (Inl UndefinedAccess)
         | Some d \<Rightarrow> bind_opt (uart_isr line_status rbr d st) (\<lambda>(d, st). Some (Inr (st\<lparr>devs := (devs st)(aux \<mapsto> d)\<rparr>))))
      else bind_opt (vioblk_isr (DevCond (aux + 64)) status st) (\<lambda>(_, st). Some (Inr st)))"

lemma broadcast_inv: "condition_broadcast c st = Some (Inr st') \<Longrightarrow> kernel_inv st \<Longrightarrow> kernel_inv st'"
  by (rule kernel_inv_ts [OF condition_broadcast_more]) (auto intro: condition_broadcast_typed)

lemma yield_inv: "thread_yield st = Inr st' \<Longrightarrow> kernel_inv st \<Longrightarrow> kernel_inv st'"
  by (rule kernel_inv_ts [OF thread_yield_more]) (auto intro: thread_yield_typed)

lemma idle_inv:
  assumes "idle_thread_func st = Inr st'" and "kernel_inv st"
  shows "kernel_inv st'"
proof (cases "tlempty (ready_list st)")
  case True
  then have "st' = st\<lparr>sie := True\<rparr>" using assms(1) by (simp add: idle_thread_func_def intr_defs)
  then show ?thesis using assms(2) by (simp add: kernel_inv_def sched_typed_def)
next
  case False
  then show ?thesis using assms yield_inv by (simp add: idle_thread_func_def)
qed

lemma uart_isr_inv:
  assumes run: "uart_isr ls rbr d st = Some (Inr (d', st'))" and inv: "kernel_inv st"
  shows "kernel_inv st'"
proof -
  obtain d0 s where rx: "uart_isr_rx ls rbr (if ls AND LSR_OE \<noteq> 0 then d\<lparr>rxovrcnt := rxovrcnt d + 1\<rparr> else d) st = Some (Inr (d0, s))"
      and tx: "uart_isr_tx ls d0 s = Some (Inr (d', st'))"
    using run by (auto simp: uart_isr_def Let_def split: option.splits sum.splits if_splits)
  have "kernel_inv s"
    using rx inv broadcast_inv by (auto simp: uart_isr_rx_def bind_res_Inr_conv split: if_splits)
  then show ?thesis
    using tx broadcast_inv
    by (cases "rbuf_get (txbuf d0)") (auto simp: uart_isr_tx_def bind_res_Inr_conv Let_def split: if_splits)
qed

lemma run_isr_inv:
  assumes "run_isr ls rbr is f irq aux st = Some (Inr st')" and "kernel_inv st"
  shows "kernel_inv st'"
proof (cases "f = fn_uart_isr")
  case True
  then show ?thesis
    using assms uart_isr_inv by (auto simp: run_isr_def bind_opt_conv kernel_inv_kfs split: option.splits)
next
  case False
  then show ?thesis
    using assms broadcast_inv
    by (auto simp: run_isr_def bind_opt_conv vioblk_isr_def bind_res_Inr_conv split: if_splits option.splits)
qed

definition isr_keeps :: "('d, 'w, 'a) ks_scheme isr_call \<Rightarrow> bool" where
  "isr_keeps run \<longleftrightarrow> (\<forall>f irq aux st st'. run f irq aux st = Some (Inr st') \<longrightarrow> kernel_inv st \<longrightarrow> kernel_inv st')"

lemma run_isr_keeps: "isr_keeps (run_isr ls rbr status)"
  using run_isr_inv unfolding isr_keeps_def by blast

lemma extern_intr_inv:
  assumes "extern_intr_handler run claimed st = Some (Inr st')" and "kernel_inv st"
    and isr: "isr_keeps run"
  shows "kernel_inv st'"
proof -
  from assms(1) consider "st' = st" | f irq aux s w where "run f irq aux st = Some (Inr s)" "st' = s\<lparr>plic_regs := w\<rparr>"
    by (auto simp: extern_intr_handler_def Let_def bind_res_Inr_conv split: if_splits sum.splits option.splits)
  then show ?thesis
  proof cases
    case (2 f irq aux s w)
    then have "kernel_inv s" using assms(2) isr unfolding isr_keeps_def by blast
    then show ?thesis by (simp add: 2(2) kernel_inv_def sched_typed_def)
  qed (use assms in simp)
qed

lemma intr_inv:
  assumes run: "intr_handler run claimed irqcode from_user st = Some (Inr st')" and inv: "kernel_inv st"
    and isr: "isr_keeps run"
  shows "kernel_inv st'"
proof -
  have after: "kernel_inv s'" if ext: "map_option (\<lambda>r. bind_res r (\<lambda>st. if from_user then thread_yield st else Inr st))
      (extern_intr_handler run claimed s) = Some (Inr s')" and invs: "kernel_inv s" for s s'
  proof -
    obtain t where "extern_intr_handler run claimed s = Some (Inr t)" "s' = t \<or> thread_yield t = Inr s'"
      using ext by (cases from_user) (auto simp: bind_res_Inr_conv)
    then show ?thesis
      using extern_intr_inv [OF _ invs isr] yield_inv by blast
  qed
  from run consider "map_option (\<lambda>r. bind_res r (\<lambda>st. if from_user then thread_yield st else Inr st))
      (extern_intr_handler run claimed st) = Some (Inr st')"
    | s where "timer_intr_handler st = Some (Inr s)" "map_option (\<lambda>r. bind_res r (\<lambda>st. if from_user then thread_yield st else Inr st))
      (extern_intr_handler run claimed s) = Some (Inr st')"
    by (auto simp: intr_handler_def Let_def split: if_splits option.splits sum.splits)
  then show ?thesis
  proof cases
    case (2 s)
    have "kernel_inv s" using kernel_inv_cong [of s st] timer_intr_keeps [OF 2(1)] inv by (auto simp: kernel_inv_def)
    then show ?thesis using after [OF 2(2)] by blast
  qed (use after inv in blast)
qed

text \<open>
  The steps of the kernel: a trap from user mode, an interrupt, the start of the first program, and
  what threads do when they run again, which is to complete a wait for a child, to take a signal,
  or to yield in the idle thread. A trap in which the kernel faults, among them one that stores
  through a pointer of the process that leads outside the user part, is not a step.
\<close>

inductive kstep :: "('d, uarts) kenv \<Rightarrow> ('d, uarts, 'a) ks_scheme \<Rightarrow> ('d, uarts, 'a) ks_scheme \<Rightarrow> bool"
  for env where
  trap: "umode_excp_handler env stval cause tfr st = Some (Inr (r, tfr', st')) \<Longrightarrow> kstep env st st'"
| interrupt: "intr_handler (run_isr line_status rbr status) claimed irqcode from_user st = Some (Inr st') \<Longrightarrow> kstep env st st'"
| first_program: "main_exec env st = Inr (r, st') \<Longrightarrow> kstep env st st'"
| join_resumed: "thread_join_step tid st = Inr (j, st') \<Longrightarrow> kstep env st st'"
| join_any_resumed: "thread_join_any_resumed st = Inr (j, st') \<Longrightarrow> kstep env st st'"
| signals: "signal_deliver env st = Some (Inr (r, st')) \<Longrightarrow> kstep env st st'"
| idle: "idle_thread_func st = Inr st' \<Longrightarrow> kstep env st st'"

lemma main_exec_inv:
  assumes "main_exec env st = Inr (r, st')" and inv: "kernel_inv st"
  shows "kernel_inv st'"
proof -
  from assms(1) obtain x io fs where o: "fs_open (blk_ops env) INIT_PROC (kfs st) = Inr ((x, io), fs)"
    unfolding main_exec_def bind_res_Inr_conv by auto
  note main = assms(1) [unfolded main_exec_def o bind_res_simps Let_def prod.case]
  have x: "\<not> x < 0" using main by (auto split: if_splits)
  then obtain k where "io = Some k" using main by (cases io) auto
  with main x obtain s s' where e: "process_exec env (FileIo k) (st\<lparr>kfs := fs\<rparr>) = Inr (s, s')"
      and c: "(case s of Ret _ \<Rightarrow> Inl (Panic (INIT_PROC @ '': process_exec failed'')) | _ \<Rightarrow> Inr (s, s')) = Inr (r, st')"
    by (auto simp: bind_res_Inr_conv)
  have "process_exec env (FileIo k) (st\<lparr>kfs := fs\<rparr>) = Inr (s, st')" using e c by (cases s) auto
  note f = o [unfolded \<open>io = Some k\<close>] x this
  have "procs_inv (procs st) (proctab st) (file_view fs)"
    using inv fs_open_result(2) [OF f(1,2)] by (auto simp: kernel_inv_def procs_inv_def file_held_def nth_list_update)
  then have "kernel_inv (st\<lparr>kfs := fs\<rparr>)" using inv by (simp add: kernel_inv_def)
  then show ?thesis using process_exec_inv [OF f(3)] by blast
qed

lemma kstep_inv:
  assumes "kstep env st st'" and "kernel_inv st" and "dev_typed env" "junk_typed env"
  shows "kernel_inv st'"
  using assms(1,2)
proof (cases rule: kstep.cases)
  case (trap stval cause tfr r tfr')
  then show ?thesis using trap_inv [OF assms(2-4)] by blast
next
  case (interrupt ls rbr status claimed irqcode from_user)
  then show ?thesis using intr_inv [OF _ assms(2) run_isr_keeps] by blast
next
  case idle
  then show ?thesis using idle_inv assms(2) by blast
qed (blast intro: main_exec_inv join_inv signal_deliver_inv assms)+

section \<open>Reachable states\<close>

inductive kreach :: "('h vioblk, uarts) kenv \<Rightarrow> 'h machine \<Rightarrow> ('h vioblk, uarts, 'a) ks_scheme \<Rightarrow> bool"
  for env hw where
  boot: "static_kernel st \<Longrightarrow> main_init img sk st = Inr s1 \<Longrightarrow> main_attach hw s1 = Inr (blks, s2) \<Longrightarrow> main_mount env hw blks s2 = Inr s3 \<Longrightarrow>
    kreach env hw s3"
| step: "kreach env hw st \<Longrightarrow> kstep env st st' \<Longrightarrow> kreach env hw st'"

text \<open>Attaching the devices keeps the threads typed, and leaves the processes and their table alone.\<close>

definition attach_keeps :: "('d, 'w, 'a) ks_scheme \<Rightarrow> ('d, 'w, 'a) ks_scheme \<Rightarrow> bool" where
  "attach_keeps st st' \<longleftrightarrow> procs st' = procs st \<and> proctab st' = proctab st \<and> (\<forall>P. sched_typed P st \<longrightarrow> sched_typed P st')"

lemma attach_keeps_trans: "attach_keeps st s \<Longrightarrow> attach_keeps s st' \<Longrightarrow> attach_keeps st st'" "attach_keeps st st"
  by (simp_all add: attach_keeps_def)

lemma attach_keeps_vm: "vm.more st' = vm.more st \<Longrightarrow> attach_keeps st st'"
  using kt_ks_more [OF ts_kt_more [OF vm_ts_more]] vm_sched_typed [THEN iffD2] unfolding attach_keeps_def by metis

lemma attach_keeps_ops:
  "attach_keeps st (condition_init c st)" "attach_keeps s (s\<lparr>devs := w\<rparr>)"
  "intr_register_isr irq prio f aux t = Inr t' \<Longrightarrow> attach_keeps t t'" "register_device name fn a u = Inr u' \<Longrightarrow> attach_keeps u u'"
  "console_printf fmt args v = Inr (n, v') \<Longrightarrow> attach_keeps v v'" "kmalloc sz x = Inr (p, x') \<Longrightarrow> attach_keeps x x'"
  "kcalloc k csz y = Inr (q, y') \<Longrightarrow> attach_keeps y y'"
proof -
  show "attach_keeps st (condition_init c st)" by (simp add: attach_keeps_def) (simp add: condition_init_def)
  show "attach_keeps s (s\<lparr>devs := w\<rparr>)" by (simp add: attach_keeps_def)
  show "attach_keeps t t'" if "intr_register_isr irq prio f aux t = Inr t'"
    using that by (auto simp: intr_register_isr_def Let_def attach_keeps_def sched_typed_def split: if_splits)
  show "attach_keeps u u'" if "register_device name fn a u = Inr u'"
    using that by (auto simp: register_device_def bind_res_Inr_conv attach_keeps_def sched_typed_def)
  show "attach_keeps v v'" if "console_printf fmt args v = Inr (n, v')"
    using that by (auto simp: console_printf_def console_vprintf_printed printed_def attach_keeps_def sched_typed_def bind_res_Inr_conv)
  show "attach_keeps x x'" if "kmalloc sz x = Inr (p, x')" by (rule attach_keeps_vm [OF kmalloc_vm_more [OF that]])
  show "attach_keeps y y'" if "kcalloc k csz y = Inr (q, y')"
    using that by (intro attach_keeps_vm) (auto simp: kcalloc_def bind_res_Inr_conv split: if_splits dest!: kmalloc_vm_more)
qed

lemma uart_attach_keeps:
  assumes "uart_attach base irq st = Inr st'"
  shows "attach_keeps st st'"
proof (cases "base = UART0_IOBASE")
  case True
  then show ?thesis using assms by (auto simp: uart_attach_def intro: attach_keeps_ops)
next
  case False
  then obtain a s1 where k: "kcalloc 1 sizeof_uart_device st = Inr (a, s1)" using assms by (auto simp: uart_attach_def bind_res_Inr_conv)
  obtain d s2 where d: "uart_attach_dev irq (zero_uart (unat a)) s1 = (d, s2)" by (cases "uart_attach_dev irq (zero_uart (unat a)) s1")
  obtain s3 where r: "intr_register_isr irq UART_IRQ_PRIO (Some fn_uart_isr) (unat a) (s2\<lparr>devs := (devs s2)(unat a \<mapsto> d)\<rparr>) = Inr s3"
      "register_device ''ser'' fn_uart_open (unat a) s3 = Inr st'"
    using assms False by (auto simp: uart_attach_def k d bind_res_Inr_conv)
  note s = k d r
  have "attach_keeps s1 s2" using s(2) by (auto simp: uart_attach_dev_def Let_def intro: attach_keeps_trans(1) attach_keeps_ops)
  then show ?thesis by (meson s attach_keeps_ops attach_keeps_trans(1))
qed

lemma vioblk_attach_keeps:
  assumes "vioblk_attach hw d base irq blks st = Inr (blks', st')"
  shows "attach_keeps st st'"
proof -
  obtain r where r: "vioblk_negotiate (device_features d) (features_ok d) (driver_features hw) (enabled_junk hw) (blk_size d) = Inr r"
    using assms by (auto simp: vioblk_attach_def bind_res_Inr_conv)
  show ?thesis
  proof (cases r)
    case None
    then show ?thesis using assms r by (auto simp: vioblk_attach_def bind_res_Inr_conv intro: attach_keeps_ops)
  next
    case (Some q)
    obtain blksz dr where q: "q = (blksz, dr)" by (cases q)
    obtain a s1 b s3 s4 where s: "kmalloc (sizeof_vioblk_device + ucast blksz) st = Inr (a, s1)"
        "kmalloc (ucast blksz) (condition_init (DevCond (unat a + 64)) (condition_init (DevCond (unat a + 216)) s1)) = Inr (b, s3)"
        "intr_register_isr irq VIOBLK_IRQ_PRIO (Some fn_vioblk_isr) (unat a) s3 = Inr s4" "register_device ''blk'' fn_vioblk_open (unat a) s4 = Inr st'"
      using assms r by (auto simp: vioblk_attach_def bind_res_Inr_conv Some q Let_def lock_init_def)
    show ?thesis by (meson s attach_keeps_ops attach_keeps_trans(1))
  qed
qed

lemma virtio_attach_keeps: "virtio_attach hw d base irq blks st = Inr (blks', st') \<Longrightarrow> attach_keeps st st'"
  by (auto simp: virtio_attach_def bind_res_Inr_conv split: if_splits intro: attach_keeps_ops attach_keeps_trans(2) vioblk_attach_keeps)

lemma main_attach_keeps:
  assumes "main_attach hw st = Inr (blks, st')"
  shows "attach_keeps st st'"
proof -
  let ?u = "\<lambda>i. uart_attach (UART0_IOBASE + (UART1_IOBASE - UART0_IOBASE) * of_nat i) (UART0_IRQNO + int i)"
  obtain s where s: "foldM ?u [0..<4] st = Inr s" and v: "foldM (\<lambda>i (blks, st). virtio_attach hw (slots hw i)
        (VIRT0_IOBASE + (VIRT1_IOBASE - VIRT0_IOBASE) * of_nat i) (VIRT0_IRQNO + int i) blks st) [0..<8] (Map.empty, s) = Inr (blks, st')"
    using assms by (auto simp: main_attach_def bind_res_Inr_conv)
  have "attach_keeps st s"
    by (rule foldM_invariant [where P = "\<lambda>_. attach_keeps st", OF s attach_keeps_trans(2)]) (blast intro: uart_attach_keeps attach_keeps_trans(1))
  moreover have "attach_keeps s (snd (blks, st'))"
    by (rule foldM_invariant [where P = "\<lambda>_ t. attach_keeps s (snd t)", OF v])
      (auto simp: attach_keeps_trans(2), blast intro: attach_keeps_trans(1) virtio_attach_keeps)
  ultimately show ?thesis using attach_keeps_trans(1) by simp
qed

lemma main_mount_inv:
  assumes run: "main_mount env hw blks st = Inr st'" and st: "sched_typed (dom (procs st)) st" "proctab st = static_proctab"
    and pr: "procs st = [main_proc \<mapsto> pr]" "iotab pr = replicate PROCESS_IOMAX None" "signal_handler pr = replicate NSIG 0"
  shows "kernel_inv st'"
proof -
  obtain us dev fs0 fs where m: "fs_mount (blk_ops env) dev fs0 = Inr (0, fs)"
      and st': "st' = (snd (intr_enable st))\<lparr>devs := us, kfs := fs\<rparr>"
    using run unfolding main_mount_def Let_def by (auto simp: bind_res_Inr_conv split: if_splits option.splits)
  have "file_structs fs = replicate FS_MAXOPEN zero_file"
    using m by (auto simp: fs_mount_def Let_def bind_res_Inr_conv split: if_splits)
  then have v: "file_view fs = replicate FS_MAXOPEN (0, 0)" by (simp add: file_view_def zero_file_def)
  have "descs [main_proc \<mapsto> pr] x = 0" for x by (simp add: descs_def pr)
  moreover have "Some (FileIo k) \<notin> set (iotab pr)" for k by (simp add: pr)
  ultimately have "procs_inv [main_proc \<mapsto> pr] static_proctab (replicate FS_MAXOPEN (0, 0))"
    by (auto simp: procs_inv_def static_proctab_def points_def proc_typed_def pr file_held_def
        dest!: subsetD [OF set_update_subset_insert] split: if_splits)
  moreover have "procs st' = procs st" "proctab st' = proctab st" "kfs st' = fs" by (simp_all add: st' intr_defs)
  moreover have "sched_typed (dom (procs st)) st'" using st(1) by (simp add: st')
  ultimately show ?thesis by (simp add: kernel_inv_def v st pr)
qed

lemma boot_threads_typed:
  assumes "thrs st = boot_threads sk (Some p)" "thrtab st = static_thrtab" "curthr st = MainThread"
    "ready_list st = \<lparr>tl_head = Some IdleThread, tl_tail = Some IdleThread\<rparr>" "conds st = (\<lambda>_. tlclear)"
  shows "sched_typed {p} st"
  using assms
  by (auto simp: sched_typed_def store_typed_def thread_typed_def list_typed_def boot_threads_def static_thrtab_def
      zero_thread_def tlclear_def NTHR_def MAIN_TID_def IDLE_TID_def points_def split: if_splits
      dest!: subsetD [OF set_update_subset_insert])

lemma boot_inv:
  assumes "static_kernel st" "main_init img sk st = Inr s1" "main_attach hw s1 = Inr (blks, s2)" "main_mount env hw blks s2 = Inr s3"
  shows "kernel_inv s3"
proof -
  obtain s where "memory_init img st = Inr s" using assms(2) by (auto simp: main_init_def bind_res_Inr_conv)
  from main_init_static [OF assms(1) this, of sk] assms(2)
  have s1: "procs s1 = [main_proc \<mapsto> boot_proc]" "proctab s1 = static_proctab" "sched_typed {main_proc} s1"
    by (auto intro: boot_threads_typed)
  then have "procs s2 = procs s1" "proctab s2 = proctab s1" "sched_typed {main_proc} s2"
    using main_attach_keeps [OF assms(3)] unfolding attach_keeps_def by blast+
  with s1 main_mount_inv [OF assms(4), of boot_proc] show ?thesis by (simp add: boot_proc_def zero_process_def)
qed

lemma kreach_inv:
  assumes "kreach env hw st" and "dev_typed env" "junk_typed env"
  shows "kernel_inv st"
  using assms(1)
proof induction
  case (boot st img sk s1 blks s2 s3)
  then show ?case using boot_inv [OF boot] by simp
next
  case (step st st')
  then show ?case using kstep_inv assms(2,3) by blast
qed

section \<open>Correctness properties\<close>


definition demo_stacks :: stacks where
  "demo_stacks = \<lparr>main_anchor = 0x80016FF0, main_lowest = 0x80016000, idle_anchor = 0x80017FF0, idle_lowest = 0x80017000\<rparr>"

text \<open>A process with an open file, which it closes.\<close>

definition demo_user :: "(u8 list vioblk, unit) ks" where
  "demo_user = demo_ks\<lparr>thrs := boot_threads demo_stacks (Some 0), procs := [0 \<mapsto> demo_reader]\<rparr>"

definition close_frame :: trap_frame where
  "close_frame = \<lparr>tf_x = (replicate 32 0)[17 := SYSCALL_CLOSE], tf_sstatus = 0, tf_sepc = 0xC0000100\<rparr>"

lemma demo_user_fields:
  "heap_start demo_user = 0x80010000" "heap_end demo_user = 0x80010000" "free_list demo_user = free_list demo_vm" "pmem demo_user = pmem demo_vm"
  "proctab demo_user = static_proctab" "procs demo_user = [0 \<mapsto> demo_reader]"
  "thrtab demo_user = static_thrtab" "curthr demo_user = MainThread" "ready_list demo_user = tlclear"
  "conds demo_user = (\<lambda>_. tlclear)" "kfs demo_user = prog_open"
  "thrs demo_user = boot_threads demo_stacks (Some 0)"
  by (simp_all add: demo_user_def demo_ks_def ct.defs ks.defs demo_ct_def it.defs demo_it_def kt.defs demo_kt_def
      ts.defs Thread.demo_boot_def demo_vm_def)

lemma demo_user_ok: "kernel_inv demo_user" "dev_typed demo_env" "junk_typed demo_env"
proof -
  have t: "sched_typed {0} demo_user"
    by (auto simp: sched_typed_def store_typed_def thread_typed_def list_typed_def demo_user_fields boot_threads_def static_thrtab_def
        zero_thread_def tlclear_def NTHR_def MAIN_TID_def IDLE_TID_def points_def split: if_splits
        dest!: subsetD [OF set_update_subset_insert])
  have v: "file_view prog_open = (replicate 32 (0, 0))[0 := (1, 1)]"
    by (simp add: file_view_def prog_open_def demo_fs_def map_update zero_file_def)
  have "(replicate 16 None)[0 := Some (FileIo 0)] = Some (FileIo 0) # replicate 15 None" by (simp add: numeral_eq_Suc)
  then have "iotab demo_reader = Some (FileIo 0) # replicate 15 None" by (simp add: demo_reader_def PROCESS_IOMAX_def)
  moreover have "count_list (replicate n None) (Some x) = 0" for n and x :: ioptr by (induction n) auto
  ultimately have d: "descs [0 \<mapsto> demo_reader] (FileIo k) = (if k = 0 then 1 else 0)" for k by (simp add: descs_def)
  have u: "used static_proctab = 1"
    unfolding static_proctab_def used_def by (simp add: NPROC_def MAIN_PID_def main_proc_def numeral_eq_Suc)
  have "procs_inv [0 \<mapsto> demo_reader] static_proctab ((replicate 32 (0, 0))[0 := (1, 1)])"
    unfolding procs_inv_def d u
    by (auto simp: proc_typed_def static_proctab_def demo_reader_def zero_process_def NPROC_def PROCESS_IOMAX_def
        FS_MAXOPEN_def d main_proc_def file_held_def points_def nth_list_update dest!: subsetD [OF set_update_subset_insert])
  then show "kernel_inv demo_user" using t by (simp add: kernel_inv_def demo_user_fields v)
qed (simp_all add: dev_typed_def junk_typed_def demo_env_def zero_process_def zero_thread_def)


end
