(* ===== verification/MainTables.thy ===== *)
theory MainTables
  imports Clone
begin

unbundle bit_operations_syntax

text \<open>
  The page tables of the main memory space, as \<open>memory_init\<close> (\<open>kern/memory.c\<close>) builds them: the
  identity map of the devices and of RAM, with no user page.
\<close>

section \<open>The tables in the kernel image\<close>

text \<open>
  The three static tables lie in the kernel image, which ends in the first two mebibytes of RAM, and the two
  upper tables are zero before \<open>memory_init\<close>.
\<close>

definition img_tables :: "kimage \<Rightarrow> u64 list" where
  "img_tables img = [img_main_pt2 img, img_main_pt1 img, img_main_pt0 img]"

definition image_ready :: "kimage \<Rightarrow> 'a vm_scheme \<Rightarrow> bool" where
  "image_ready img st \<longleftrightarrow> kimg_start img = RAM_START_PMA \<and> kimg_end img - kimg_start img \<le> MEGA_SIZE \<and>
     init_heap_end (kimg_end img) < RAM_END_PMA img \<and> unat (RAM_END_PMA img) \<le> unat RAM_START_PMA + unat GIGA_SIZE \<and>
     distinct (img_tables img) \<and> (\<forall>t \<in> set (img_tables img). page_aligned t \<and> t \<noteq> 0 \<and> unat t + 4096 \<le> unat (kimg_end img)) \<and>
     (\<forall>i < 512. pmem st (img_main_pt2 img + 8 * i) = 0 \<and> pmem st (img_main_pt1 img + 8 * i) = 0)"

lemma map_leaves_pmem:
  "a \<notin> (\<lambda>pp. t + 8 * VPN l pp) ` set pps \<Longrightarrow> pmem (map_leaves t l fl pps st) a = pmem st a"
  "a \<in> (\<lambda>pp. t + 8 * VPN l pp) ` set pps \<Longrightarrow>
     \<exists>pp \<in> set pps. a = t + 8 * VPN l pp \<and> pmem (map_leaves t l fl pps st) a = u64_of_pte (leaf_pte pp fl)"
proof -
  show same: "pmem (map_leaves t l fl pps st) a = pmem st a" if "a \<notin> (\<lambda>pp. t + 8 * VPN l pp) ` set pps" for pps st
    using that by (induction pps arbitrary: st) (auto simp: map_leaves_def)
  show "\<exists>pp \<in> set pps. a = t + 8 * VPN l pp \<and> pmem (map_leaves t l fl pps st) a = u64_of_pte (leaf_pte pp fl)"
    if "a \<in> (\<lambda>pp. t + 8 * VPN l pp) ` set pps"
    using that
  proof (induction pps arbitrary: st)
    case (Cons p pps)
    show ?case
    proof (cases "a \<in> (\<lambda>pp. t + 8 * VPN l pp) ` set pps")
      case True
      then show ?thesis using Cons.IH [of "set_pte (t + 8 * VPN l p) (leaf_pte p fl) st"] by (auto simp: map_leaves_def)
    next
      case False
      then have "a = t + 8 * VPN l p" using Cons.prems by auto
      moreover have "pmem (map_leaves t l fl (p # pps) st) a = u64_of_pte (leaf_pte p fl)"
        using same [OF False, of "set_pte (t + 8 * VPN l p) (leaf_pte p fl) st"] calculation
        by (simp add: map_leaves_def)
      ultimately show ?thesis by auto
    qed
  qed simp
qed

text \<open>The entries of a table that \<open>map_leaves\<close> writes, and those of other tables.\<close>

lemma map_leaves_entry:
  assumes "page_aligned t" and "page_aligned t'" and "i < 512"
  shows "t' \<noteq> t \<Longrightarrow> entry (pmem (map_leaves t l fl pps st)) t' i = entry (pmem st) t' i"
    and "i \<notin> VPN l ` set pps \<Longrightarrow> entry (pmem (map_leaves t l fl pps st)) t i = entry (pmem st) t i"
    and "i \<in> VPN l ` set pps \<Longrightarrow> \<exists>pp. entry (pmem (map_leaves t l fl pps st)) t i = leaf_pte pp fl"
proof -
  have e: "t' + 8 * i = t + 8 * VPN l pp \<longleftrightarrow> t' = t \<and> i = VPN l pp" if "page_aligned t'" for pp t'
    using that assms(1,3) by (intro entry_eq_iff) simp_all
  show "entry (pmem (map_leaves t l fl pps st)) t' i = entry (pmem st) t' i" if "t' \<noteq> t"
    unfolding entry_def using e [OF assms(2)] that by (subst map_leaves_pmem(1)) auto
  show "entry (pmem (map_leaves t l fl pps st)) t i = entry (pmem st) t i" if "i \<notin> VPN l ` set pps"
    unfolding entry_def using e [OF assms(1)] that by (subst map_leaves_pmem(1)) auto
  show "\<exists>pp. entry (pmem (map_leaves t l fl pps st)) t i = leaf_pte pp fl" if "i \<in> VPN l ` set pps"
    unfolding entry_def using map_leaves_pmem(2) [of "t + 8 * i" t l pps fl st] that by fastforce
qed

lemma set_pte_entry:
  assumes "page_aligned t" and "page_aligned t'" and "i < 512" and "j < 512"
  shows "entry (m(t + 8 * i := u64_of_pte p)) t' j = (if t' = t \<and> j = i then p else entry m t' j)"
  using entry_eq_iff [OF assms(2,1,4,3)] by (auto simp: entry_def)

lemma unat_VPN: "unat (VPN l va) = unat va div 2 ^ (9 * l + 12) mod 512"
proof -
  have "VPN l va = take_bit 9 (drop_bit (9 * l + 12) va)"
    by (rule bit_word_eqI) (auto simp: bit_VPN bit_simps)
  then have "unat (VPN l va) = take_bit 9 (drop_bit (9 * l + 12) (unat va))"
    by (simp only: unsigned_take_bit_eq unat_drop_bit_eq)
  then show ?thesis by (simp add: drop_bit_eq_div take_bit_eq_mod)
qed

lemma VPN1_ram:
  assumes "pp \<in> set (addr_range (RAM_START_PMA + MEGA_SIZE) hi MEGA_SIZE)" and "unat hi \<le> unat RAM_START_PMA + unat GIGA_SIZE"
  shows "VPN 1 pp \<noteq> 0"
proof -
  have c: "unat MEGA_SIZE = 2097152" "unat RAM_START_PMA = 2147483648" "unat (RAM_START_PMA + MEGA_SIZE) = 2149580800"
    "unat GIGA_SIZE = 1073741824" by (simp_all add: MEGA_SIZE_def GIGA_SIZE_def RAM_START_PMA_def)
  obtain k where k: "pp = RAM_START_PMA + MEGA_SIZE + of_nat k * MEGA_SIZE"
      "k < (unat hi - 2149580800 + 2097152 - 1) div 2097152"
    using assms(1) by (auto simp: addr_range_def c)
  then have "k < 511" using assms(2) by (simp add: c less_mult_imp_div_less div_less_iff_less_mult)
  then have "unat (of_nat k * MEGA_SIZE :: u64) = k * 2097152" by (simp add: unat_word_ariths c unat_of_nat)
  then have "unat pp = 2149580800 + k * 2097152" using \<open>k < 511\<close> by (simp add: k(1) unat_word_ariths c)
  then have "unat (VPN 1 pp) = (1025 + k) mod 512" using unat_VPN [of 1 pp] by simp
  moreover have "(1025 + k) mod 512 = k + 1" using \<open>k < 511\<close> mod_mult_self1 [of "k + 1" 2 512] by simp
  ultimately show ?thesis by auto
qed

lemma leaf_kinds:
  "\<not> is_table (leaf_pte pp (PTE_R OR PTE_W OR PTE_G))" "is_table (ptab_pte t PTE_G)" "\<not> is_table (pte_of 0)" "\<not> is_leaf (pte_of 0)"
  by (simp_all add: is_table_def is_leaf_def leaf_pte_def ptab_pte_def pte_flag_defs)

lemma pte_page_ptab: "page_aligned t \<Longrightarrow> t < 2 ^ 56 \<Longrightarrow> pte_page (ptab_pte t fl) = t"
  using pte_page_of_ptr by (simp add: pte_page_def ptab_pte_def pageptr_to_pagenum_def)

lemma init_main_tables_entries:
  assumes img: "image_ready img st" and i: "i < 512"
  defines "m \<equiv> pmem (init_main_tables img st)"
  shows "3 \<le> i \<Longrightarrow> entry m (img_main_pt2 img) i = pte_of 0"
    and "i \<noteq> 2 \<Longrightarrow> \<not> is_table (entry m (img_main_pt2 img) i)"
    and "entry m (img_main_pt2 img) 2 = ptab_pte (img_main_pt1 img) PTE_G"
    and "entry m (img_main_pt1 img) 0 = ptab_pte (img_main_pt0 img) PTE_G"
    and "i \<noteq> 0 \<Longrightarrow> \<not> is_table (entry m (img_main_pt1 img) i)"
proof -
  let ?pt2 = "img_main_pt2 img" and ?pt1 = "img_main_pt1 img" and ?pt0 = "img_main_pt0 img"
  have al: "page_aligned ?pt2" "page_aligned ?pt1" "page_aligned ?pt0" and ne: "?pt2 \<noteq> ?pt1" "?pt2 \<noteq> ?pt0" "?pt1 \<noteq> ?pt0"
    and z: "\<And>j. j < 512 \<Longrightarrow> entry (pmem st) ?pt2 j = pte_of 0 \<and> entry (pmem st) ?pt1 j = pte_of 0"
    using img by (simp_all add: image_ready_def img_tables_def entry_def)
  have v: "VPN 2 RAM_START_PMA = 2" "VPN 1 RAM_START_PMA = 0" "VPN 2 0 = 0" "VPN 2 0x40000000 = 1"
    by (simp_all add: word_unat_eq_iff [of "VPN _ _"] unat_VPN RAM_START_PMA_def)
  have "addr_range 0 RAM_START_PMA GIGA_SIZE = [0, 0x40000000]"
    by (simp add: addr_range_def RAM_START_PMA_def GIGA_SIZE_def MEGA_SIZE_def upt_rec)
  then have v2: "VPN 2 ` set (addr_range 0 RAM_START_PMA GIGA_SIZE) = {0, 1}" using v by simp
  have v1: "0 \<notin> VPN 1 ` set (addr_range (RAM_START_PMA + MEGA_SIZE) (RAM_END_PMA img) MEGA_SIZE)"
    using img VPN1_ram by (force simp: image_ready_def)
  note upd = map_leaves_entry(1) [OF al(2) al(1)] map_leaves_entry(1) [OF al(3) al(1)] map_leaves_entry(1) [OF al(3) al(2)]
    map_leaves_entry(1) [OF al(1) al(2)] set_pte_entry [OF al(1) al(1)] set_pte_entry [OF al(2) al(1)] set_pte_entry [OF al(1) al(2)]
    set_pte_entry [OF al(2) al(2)]
  show "entry m ?pt2 i = pte_of 0" if "3 \<le> i"
  proof -
    have "i \<noteq> VPN 2 RAM_START_PMA" "i \<notin> VPN 2 ` set (addr_range 0 RAM_START_PMA GIGA_SIZE)" using that v(1) v2 by (auto simp: word_le_nat_alt)
    then show ?thesis
      using i ne z [OF i] unfolding m_def init_main_tables_def Let_def by (simp add: upd map_leaves_entry(2) [OF al(1) al(1)] del:)
  qed
  show "entry m ?pt2 2 = ptab_pte ?pt1 PTE_G"
    using ne unfolding m_def init_main_tables_def Let_def v(1) [symmetric] by (simp add: upd)
  show "entry m ?pt1 0 = ptab_pte ?pt0 PTE_G"
    using ne v1 unfolding m_def init_main_tables_def Let_def v(2) [symmetric] by (simp add: upd map_leaves_entry(2) [OF al(2) al(2)])
  have leaf: "\<not> is_table (entry (pmem (map_leaves t l (PTE_R OR PTE_W OR PTE_G) pps s)) t i)"
    if "page_aligned t" "\<not> is_table (entry (pmem s) t i)" for t l pps and s :: "'a vm_scheme"
    using map_leaves_entry(2,3) [OF that(1,1) i, of l pps "PTE_R OR PTE_W OR PTE_G" s] that(2) leaf_kinds(1)
    by (cases "i \<in> VPN l ` set pps") auto
  show "\<not> is_table (entry m ?pt2 i)" if "i \<noteq> 2"
    using i ne that [folded v(1)] z [OF i] leaf [OF al(1)] leaf_kinds(3) unfolding m_def init_main_tables_def Let_def by (simp add: upd)
  show "\<not> is_table (entry m ?pt1 i)" if "i \<noteq> 0"
    unfolding m_def init_main_tables_def Let_def
    by (rule leaf [OF al(2)]) (use i ne that [folded v(2)] z [OF i] leaf_kinds(3) in \<open>simp add: upd\<close>)
qed

section \<open>The main memory space\<close>

lemma fold_push_page_pmem: "a \<notin> set ps \<Longrightarrow> pmem (fold push_page ps st) a = pmem st a"
  by (induction ps arbitrary: st) (auto simp: push_page_def Let_def)

lemma kimg_end_bound: "image_ready img st \<Longrightarrow> unat (kimg_end img) \<le> 0x80200000"
proof -
  assume img: "image_ready img st"
  let ?d = "kimg_end img - RAM_START_PMA"
  have "?d \<le> MEGA_SIZE" using img unfolding image_ready_def by metis
  then have "unat ?d \<le> 2097152" by (simp add: MEGA_SIZE_def word_le_nat_alt)
  moreover have "unat (0x80000000 + ?d) \<le> unat (0x80000000 :: u64) + unat ?d" by (simp add: unat_word_ariths del: unat_add_lem)
  ultimately show ?thesis by (simp add: RAM_START_PMA_def)
qed

text \<open>Putting the pages of RAM on the free list leaves the image alone.\<close>

lemma memory_init_image:
  assumes img: "image_ready img st" and run: "memory_init img st = Inr st'" and a: "unat a < unat (kimg_end img)"
  shows "pmem st' a = pmem (init_main_tables img st) a"
proof -
  let ?e = "init_heap_end (kimg_end img)"
  from init_heap_end_bounds [OF kimg_end_bound [OF img]] have e: "page_aligned ?e" "unat (kimg_end img) + 256 \<le> unat ?e" by auto
  have "?e \<noteq> 0" using e(2) by (auto simp flip: unat_eq_zero)
  then obtain pps where "addr_range ?e (RAM_END_PMA img) PAGE_SIZE = ?e # pps" "\<forall>p \<in> set (?e # pps). unat ?e \<le> unat p"
    using addr_range_pages [OF e(1), of "RAM_END_PMA img"] img unfolding image_ready_def by metis
  then have "a \<notin> set (addr_range ?e (RAM_END_PMA img) PAGE_SIZE)" using a e(2) by (metis add_leD1 leD order_trans)
  then show ?thesis
    using run by (auto simp: memory_init_def Let_def bind_res_Inr_conv heap_init_def fold_push_page_pmem split: if_splits simp del: page_const)
qed

lemma table_entry_in_image:
  assumes "image_ready img st" and "t \<in> set (img_tables img)" and "i < 512"
  shows "unat (t + 8 * i) + 8 \<le> unat (kimg_end img)"
proof -
  have t: "unat t + 4096 \<le> unat (kimg_end img)" using assms(1,2) unfolding image_ready_def by blast
  have "unat i < 512" using assms(3) by (simp add: word_less_nat_alt)
  then have o: "unat (8 * i) + 8 \<le> 4096" using unat_entry_offset(1) [OF assms(3)] by simp
  have "unat t + unat (8 * i) < 2 ^ 64" using t o kimg_end_bound [OF assms(1)] by simp
  then show ?thesis using t o by (simp add: unat_word_ariths)
qed

lemma main_space:
  assumes img: "image_ready img st" and run: "memory_init img st = Inr st'"
    and m: "\<And>a. unat a + 8 \<le> unat (kimg_end img) \<Longrightarrow> m a = pmem st' a" and F: "\<And>p. p \<in> F \<Longrightarrow> unat (kimg_end img) \<le> unat p"
  shows "wf_space m (img_main_pt2 img) F" and "VPN 2 va = 3 \<Longrightarrow> \<not> superpage m (img_main_pt2 img) va \<and> mapped m (img_main_pt2 img) va = None"
proof -
  let ?pt2 = "img_main_pt2 img" and ?pt1 = "img_main_pt1 img" and ?pt0 = "img_main_pt0 img"
  let ?m = "pmem (init_main_tables img st)"
  have en: "entry m t i = entry ?m t i" if "t \<in> set (img_tables img)" "i < 512" for t i
    using m [of "t + 8 * i"] memory_init_image [OF img run, of "t + 8 * i"] table_entry_in_image [OF img that] by (simp add: entry_def)
  note E = init_main_tables_entries [OF img]
  have t: "?pt2 \<in> set (img_tables img)" "?pt1 \<in> set (img_tables img)" "?pt0 \<in> set (img_tables img)" by (simp_all add: img_tables_def)
  have al: "page_aligned t \<and> t \<noteq> 0 \<and> t \<notin> F \<and> t < 2 ^ 56" if "t \<in> set (img_tables img)" for t
  proof -
    have "page_aligned t" "t \<noteq> 0" and u: "unat t + 4096 \<le> unat (kimg_end img)" using img that unfolding image_ready_def by blast+
    moreover have "t \<notin> F" using F [of t] u by auto
    moreover have "t < 2 ^ 56" using u kimg_end_bound [OF img] by (simp add: word_less_nat_alt)
    ultimately show ?thesis by blast
  qed
  have c2: "child m ?pt2 i = (if i = 2 then Some ?pt1 else None)" if "i < 512" for i
    using E(2,3) [OF that] en [OF t(1) that] leaf_kinds(2) al [OF t(2)] by (auto simp: child_def pte_page_ptab)
  have c1: "child m ?pt1 i = (if i = 0 then Some ?pt0 else None)" if "i < 512" for i
    using E(4,5) [OF that] en [OF t(2) that] leaf_kinds(2) al [OF t(3)] by (auto simp: child_def pte_page_ptab)
  have tab: "table_at m ?pt2 p = Some t \<longleftrightarrow> p = [] \<and> t = ?pt2 \<or> p = [2] \<and> t = ?pt1 \<or> p = [2, 0] \<and> t = ?pt0" if "vpath p" for p t
  proof -
    from that consider "p = []" | i where "p = [i]" "i < 512" | i j where "p = [i, j]" "i < 512" "j < 512"
      by (cases p rule: remdups_adj.cases) (auto simp: vpath_def)
    then show ?thesis by cases (auto simp: c1 c2)
  qed
  have ne: "?pt2 \<noteq> ?pt1" "?pt2 \<noteq> ?pt0" "?pt1 \<noteq> ?pt0" using img by (auto simp: image_ready_def img_tables_def)
  show "wf_space m ?pt2 F" unfolding wf_space_def using al t ne by (auto simp: tab)
  show "\<not> superpage m ?pt2 va \<and> mapped m ?pt2 va = None" if "VPN 2 va = 3"
  proof -
    have "entry m ?pt2 3 = pte_of 0" using E(1) [of 3] en [OF t(1), of 3] by simp
    then show ?thesis using that c2 [of 3] leaf_kinds(4) by (simp add: superpage_def mapped_def slot_def)
  qed
qed

section \<open>Kernel memory in the main space\<close>

text \<open>The pages of the data of the kernel are mapped readable and writable, and not for the user.\<close>

lemma addr_range_page:
  assumes "unat lo \<le> unat a" and "unat a < unat hi"
  shows "lo + of_nat ((unat a - unat lo) div 4096) * 4096 \<in> set (addr_range lo hi PAGE_SIZE)"
proof -
  have "(unat a - unat lo) div 4096 < (unat hi - unat lo + 4095) div 4096" using assms by (simp add: div_less_iff_less_mult)
  then show ?thesis by (simp add: addr_range_def)
qed

lemma data_page_vpn:
  assumes "page_aligned lo" and "unat lo \<le> unat a"
  shows "VPN 0 (lo + of_nat ((unat a - unat lo) div 4096) * 4096) = VPN 0 a"
proof -
  let ?k = "(unat a - unat lo) div 4096"
  obtain j where j: "unat lo = 4096 * j" using assms(1) by (auto simp: aligned_def)
  have k: "?k = unat a div 4096 - j" using j by simp
  then have le: "4096 * j + ?k * 4096 \<le> unat a" using assms(2) j by (simp add: distrib_left)
  have b: "unat a < 18446744073709551616" by simp
  then have k64: "?k * 4096 < 18446744073709551616" "4096 * j + ?k * 4096 < 18446744073709551616" using le by linarith+
  then have "unat (of_nat ?k * 4096 :: u64) = ?k * 4096" by (simp add: unat_word_ariths unat_of_nat)
  then have "unat (lo + of_nat ?k * 4096) = 4096 * j + ?k * 4096" using k64(2) j by (simp add: unat_word_ariths)
  then have "unat (lo + of_nat ?k * 4096) div 4096 = unat a div 4096" using k assms(2) j by simp
  then show ?thesis by (simp add: word_unat_eq_iff [of "VPN _ _"] unat_VPN)
qed

definition kernel_data :: "kimage \<Rightarrow> u64 \<Rightarrow> bool" where
  "kernel_data img a \<longleftrightarrow> page_aligned (kimg_data_start img) \<and> unat RAM_START_PMA \<le> unat (kimg_data_start img) \<and>
     unat (kimg_data_start img) \<le> unat a \<and> unat a < unat (RAM_START_PMA + MEGA_SIZE)"

lemma kernel_data_mapped:
  assumes img: "image_ready img st" and run: "memory_init img st = Inr st'" and a: "kernel_data img a"
  shows "\<exists>pp. mapped (pmem st') (img_main_pt2 img) a = Some (leaf_pte pp (PTE_R OR PTE_W OR PTE_G))"
proof -
  let ?pt2 = "img_main_pt2 img" and ?pt1 = "img_main_pt1 img" and ?pt0 = "img_main_pt0 img"
  let ?m = "pmem (init_main_tables img st)" and ?fl = "PTE_R OR PTE_W OR PTE_G"
  have t: "?pt2 \<in> set (img_tables img)" "?pt1 \<in> set (img_tables img)" "?pt0 \<in> set (img_tables img)" by (simp_all add: img_tables_def)
  have al: "page_aligned ?pt1" "page_aligned ?pt0" "?pt1 \<noteq> ?pt0" using img by (simp_all add: image_ready_def img_tables_def)
  have lim: "t < 2 ^ 56" if "t \<in> set (img_tables img)" for t
  proof -
    have "unat t + 4096 \<le> unat (kimg_end img)" using img that unfolding image_ready_def by blast
    then show "t < 2 ^ 56" using kimg_end_bound [OF img] by (simp add: word_less_nat_alt)
  qed
  have en: "entry (pmem st') t i = entry ?m t i" if "t \<in> set (img_tables img)" "i < 512" for t i
    using memory_init_image [OF img run, of "t + 8 * i"] table_entry_in_image [OF img that] by (simp add: entry_def)
  have r: "2147483648 \<le> unat a" "unat a < 2149580800" using a by (simp_all add: kernel_data_def RAM_START_PMA_def MEGA_SIZE_def)
  have d: "unat a div 1073741824 = 2" "unat a div 2097152 = 1024" using r by (auto intro!: div_nat_eqI)
  have v: "VPN 2 a = 2" "VPN 1 a = 0" using d by (simp_all add: word_unat_eq_iff [of "VPN _ _"] unat_VPN)
  let ?pps = "addr_range (kimg_data_start img) (RAM_START_PMA + MEGA_SIZE) PAGE_SIZE"
  have "VPN 0 a \<in> VPN 0 ` set ?pps"
    using addr_range_page [of "kimg_data_start img" a "RAM_START_PMA + MEGA_SIZE"] data_page_vpn [of "kimg_data_start img" a] a
    unfolding kernel_data_def by (metis image_eqI)
  moreover have "entry ?m ?pt0 (VPN 0 a) = entry (pmem (map_leaves ?pt0 0 ?fl ?pps s)) ?pt0 (VPN 0 a)"
    if "init_main_tables img st = map_leaves ?pt1 1 ?fl qs (map_leaves ?pt0 0 ?fl ?pps s)" for s qs
    unfolding that by (rule map_leaves_entry(1)) (use al in auto)
  ultimately obtain pp where pp: "entry ?m ?pt0 (VPN 0 a) = leaf_pte pp ?fl"
    using map_leaves_entry(3) [OF al(2,2) VPN_less, of 0 a 0 ?pps ?fl] unfolding init_main_tables_def Let_def by metis
  have "child (pmem st') ?pt2 2 = Some ?pt1" "child (pmem st') ?pt1 0 = Some ?pt0"
    using init_main_tables_entries(3,4) [OF img, of 0] en [OF t(1), of 2] en [OF t(2), of 0] leaf_kinds(2) lim [OF t(2)] lim [OF t(3)] al
    by (simp_all add: child_def pte_page_ptab)
  then have "slot (pmem st') ?pt2 a = Some (?pt0 + 8 * VPN 0 a)" unfolding slot_def v by simp
  moreover have "entry (pmem st') ?pt0 (VPN 0 a) = leaf_pte pp ?fl" using pp en [OF t(3), of "VPN 0 a"] by simp
  ultimately have "mapped (pmem st') ?pt2 a = Some (leaf_pte pp ?fl)"
    by (simp add: mapped_def entry_def leaf_pte_def pte_flag_defs)
  then show ?thesis by blast
qed

end
