(* ===== verification/Startup.thy ===== *)
theory Startup
  imports Reach MainTables Mkfs
begin

text \<open>
  The start of the machine, from the files that \<open>mkfs\<close> puts on the disk to the first instruction of
  the first program: \<open>kmain\<close> initialises the kernel, mounts the disk and executes \<open>init_shell\<close>.
\<close>

section \<open>Pages after initialisation\<close>

lemma addr_range_bounds:
  assumes "p \<in> set (addr_range lo hi PAGE_SIZE)"
  shows "unat lo \<le> unat p" and "unat p < unat hi"
proof -
  obtain k where k: "p = lo + of_nat k * 4096" "k < (unat hi - unat lo + 4095) div 4096"
    using assms by (auto simp: addr_range_def)
  then have lt: "k * 4096 < unat hi - unat lo" by (simp add: less_mult_imp_div_less dual_order.strict_trans2)
  have hi: "unat hi < 18446744073709551616" by simp
  then have "k * 4096 < 18446744073709551616" using lt by linarith
  then have "unat (of_nat k * 4096 :: u64) = k * 4096" by (simp add: unat_word_ariths unat_of_nat)
  moreover have "unat lo + k * 4096 < 18446744073709551616" using lt hi by linarith
  ultimately have "unat p = unat lo + k * 4096" by (simp add: k(1) unat_word_ariths)
  then show "unat lo \<le> unat p" "unat p < unat hi" using lt by simp_all
qed

definition boot_pages :: "kimage \<Rightarrow> u64 list" where
  "boot_pages img = rev (addr_range (init_heap_end (kimg_end img)) (RAM_END_PMA img) PAGE_SIZE)"

text \<open>After the devices are attached: the main space with its root, the free pages and the running thread.\<close>

definition started :: "kimage \<Rightarrow> u64 list \<Rightarrow> stacks \<Rightarrow> 'd fs \<Rightarrow> ('d, 'w, 'a) ks_scheme \<Rightarrow> bool" where
  "started img ps sk fs st \<longleftrightarrow> wf_space (pmem st) (img_main_pt2 img) (set ps) \<and> active_space_root st = img_main_pt2 img \<and>
     free_prefix st ps \<and> (\<forall>p \<in> set ps. p < 2 ^ 56) \<and> sstatus_sum st \<and>
     (\<forall>n < 2 ^ 28. \<not> superpage (pmem st) (img_main_pt2 img) (ua n)) \<and> frames sel_user (pmem st) (img_main_pt2 img) user_pages = [] \<and>
     curthr st = MainThread \<and> (\<exists>t. thrs st MainThread = Some t \<and> stack_base t = main_anchor sk) \<and>
     cur_proc st = Inr (main_proc, boot_proc) \<and> kfs st = fs"

text \<open>A machine with the disk \<open>disk\<close> in slot \<open>b\<close> of the bus, and nothing in the other slots.\<close>

definition has_disk :: "('h \<Rightarrow> u8 list) \<Rightarrow> nat \<Rightarrow> u8 list \<Rightarrow> 'h machine \<Rightarrow> bool" where
  "has_disk contents b disk hw \<longleftrightarrow> b < 8 \<and> blk_slot contents (slots hw b) \<and> contents (vd_hw (slots hw b)) = disk \<and>
     (\<forall>i < 8. i \<noteq> b \<longrightarrow> empty_slot (slots hw i))"

lemma booted_cur:
  assumes "thrs st = boot_threads sk (Some main_proc)" and "curthr st = MainThread" and "thrtab st = static_thrtab"
    and "procs st = [main_proc \<mapsto> boot_proc]"
  shows "cur_proc st = Inr (main_proc, boot_proc)"
proof (rule cur_procI)
  show "current_process st = Inr (Some main_proc)"
    using assms by (simp add: current_process_def running_thread_def thread_process_def thread_at_def deref_def boot_threads_def
        zero_thread_def static_thrtab_def NTHR_def MAIN_TID_def IDLE_TID_def)
qed (use assms in simp)

lemma boot_started:
  assumes st: "static_kernel st" "devices st = devtab_empty" and img: "image_ready img st"
    and hw: "has_disk contents b disk hw" and n: "6 \<le> length (boot_pages img)"
  obtains s1 s2 blks k us bs a dev where "main_init img sk st = Inr s1" and "main_attach hw s1 = Inr (blks, s2)" and "k \<le> 6"
    and "started img (drop k (boot_pages img)) sk (kfs st) s2"
    and "device_open (open_device hw) (devices s2) ''blk'' 0 (devs s2, blks, None) = Inr (0, us, bs, Some a)" and "bs a = Some dev"
    and "vb_wf contents dev" and "\<not> vb_lock dev" and "vb_data contents dev = disk"
proof -
  let ?pt2 = "img_main_pt2 img" and ?ps = "boot_pages img" and ?L = "unat (kimg_end img)"
  have i: "kimg_start img = RAM_START_PMA" "kimg_end img - kimg_start img \<le> MEGA_SIZE" "init_heap_end (kimg_end img) < RAM_END_PMA img"
    using img unfolding image_ready_def by blast+
  obtain s where s: "memory_init img st = Inr s" "heap_inv s [] ?ps" "heap_start s = kimg_end img"
      "satp s = push_bit 60 RISCV_SATP_MODE_Sv39 OR pageptr_to_pagenum ?pt2"
    using memory_init_ok [OF i, of st] unfolding boot_pages_def by blast
  have sum: "sstatus_sum s" using s(1) by (auto simp: memory_init_def Let_def bind_res_Inr_conv split: if_splits)
  obtain s1 where s1: "main_init img sk st = Inr s1" "thrs s1 = boot_threads sk (Some main_proc)" "curthr s1 = MainThread"
      "pmem s1 = pmem s" "free_list s1 = free_list s" "heap_start s1 = heap_start s" "heap_end s1 = heap_end s"
      "satp s1 = satp s" "sstatus_sum s1 = sstatus_sum s" "kfs s1 = kfs st" "devices s1 = devices st"
      "thrtab s1 = static_thrtab" "procs s1 = [main_proc \<mapsto> boot_proc]"
    using main_init_static [OF st(1) s(1), of sk] by blast
  have pg: "?L \<le> unat p \<and> p < 2 ^ 56" if "p \<in> set ?ps" for p
  proof -
    have "p \<in> set (addr_range (init_heap_end (kimg_end img)) (RAM_END_PMA img) PAGE_SIZE)" using that by (simp add: boot_pages_def)
    from addr_range_bounds [OF this] show ?thesis
      using init_heap_end_bounds [OF kimg_end_bound [OF img]] img
      by (auto simp: image_ready_def word_less_nat_alt RAM_START_PMA_def GIGA_SIZE_def MEGA_SIZE_def)
  qed
  have "heap_inv s1 [] ?ps" using s(2) s1(4-7) heap_inv_cong [of s1 s] by simp
  then have h: "heap_above ?L s1 ?ps" using s(3) s1(6) pg by (auto simp: heap_above_def)
  have L: "0 < ?L" using img by (auto simp: image_ready_def img_tables_def)
  have b: "b < 8" "blk_slot contents (slots hw b)" "\<forall>i < 8. i \<noteq> b \<longrightarrow> empty_slot (slots hw i)" "contents (vd_hw (slots hw b)) = disk"
    and tab: "devices s1 = devtab_empty"
    using hw st(2) s1(11) by (simp_all add: has_disk_def)
  obtain a dev s2 us where s2: "main_attach hw s1 = Inr ([a \<mapsto> dev], s2)"
      "attached ?L ?ps 6 (us @ [\<lparr>dev_name = Some ''blk'', dev_openfn = Some fn_vioblk_open, dev_aux = a\<rparr>]) s1 s2"
      "\<forall>d \<in> set us. dev_name d = Some ''ser''" "vb_wf contents dev" "\<not> vb_lock dev" "\<not> vb_opened dev"
      "vb_data contents dev = contents (vd_hw (slots hw b))"
    using main_attach_ok [OF h tab b(1-3) L n] by blast
  obtain k where k: "k \<le> 6" "heap_above ?L s2 (drop k ?ps)" and m: "same_below ?L (pmem s1) (pmem s2)"
    and fr: "satp s2 = satp s1" "sstatus_sum s2 = sstatus_sum s1" "thrs s2 = thrs s1" "curthr s2 = curthr s1" "kfs s2 = kfs s1"
      "tab_ok (devices s2) (us @ [\<lparr>dev_name = Some ''blk'', dev_openfn = Some fn_vioblk_open, dev_aux = a\<rparr>])"
      "thrtab s2 = thrtab s1" "procs s2 = procs s1"
    using s2(2) unfolding attached_def by blast
  obtain dev' where o: "device_open (open_device hw) (devices s2) ''blk'' 0 (devs s2, [a \<mapsto> dev], None) = Inr (0, devs s2, [a \<mapsto> dev, a \<mapsto> dev'], Some a)"
      "vb_wf contents dev'" "\<not> vb_lock dev'" "vb_data contents dev' = vb_data contents dev"
    using open_blk_ok [OF fr(6) s2(3-6), of "[a \<mapsto> dev]" hw "devs s2"] by auto
  have sp: "wf_space (pmem s2) ?pt2 (set (drop k ?ps))"
      "VPN 2 va = 3 \<Longrightarrow> \<not> superpage (pmem s2) ?pt2 va \<and> mapped (pmem s2) ?pt2 va = None" for va
    using main_space [OF img s(1), of "pmem s2" "set (drop k ?ps)"] m s1(4) pg in_set_dropD [of _ k ?ps] by (auto simp: same_below_def)
  have "VPN 2 (ua m) = 3" if "m < 2 ^ 28" for m
  proof -
    have "(0xC0000000 + m) div 1073741824 = 3" by (rule div_nat_eqI) (use that in auto)
    then show ?thesis using that by (simp add: word_unat_eq_iff [of "VPN _ _"] unat_VPN unat_ua)
  qed
  then have "\<forall>m < 2 ^ 28. \<not> superpage (pmem s2) ?pt2 (ua m)" using sp(2) by blast
  moreover have "frames sel_user (pmem s2) ?pt2 user_pages = []"
    unfolding frames_def using sp(2) user_pages_vpn by (auto simp: user_vpn_def)
  moreover have "active_space_root s2 = ?pt2"
  proof -
    have "satp s2 = make_mtag 0 ?pt2" using fr(1) s1(8) s(4) by (simp add: make_mtag_def)
    moreover have "page_aligned ?pt2" "?pt2 < 2 ^ 56"
      using img kimg_end_bound [OF img] by (auto simp: image_ready_def img_tables_def word_less_nat_alt)
    ultimately show ?thesis using mtag_to_root_make by (simp add: active_space_root_def active_space_mtag_def)
  qed
  moreover have "\<exists>t. thrs s2 MainThread = Some t \<and> stack_base t = main_anchor sk" using fr(3) s1(2) by (simp add: boot_threads_def)
  moreover have "cur_proc s2 = Inr (main_proc, boot_proc)"
    using booted_cur [of s2 sk] fr(3,4,7,8) s1(2,3,12,13) by simp
  ultimately have "started img (drop k ?ps) sk (kfs st) s2"
    using sp(1) pg in_set_dropD [of _ k ?ps] k(2) fr s1 sum by (auto simp: started_def heap_above_def heap_inv_def)
  then show ?thesis using that [OF s1(1) s2(1) k(1) _ o(1)] o(2-4) s2(7) b(4) by simp
qed

text \<open>Executing a program in the main space, when it has no user page.\<close>

lemma started_exec:
  assumes st: "started img ps sk f st" and dev: "virtio_ok serve contents" "blk_ops env = vioblk_io_ops serve"
    and exe: "fs_wf (\<lambda>dev. vb_wf contents dev \<and> \<not> vb_lock dev) (vb_data contents) k f" "fs_at k f = 0" "fs_contents (vb_data contents) k f = D" "elf_ok D"
    and entry: "USER_START_VMA \<le> e_entry (ehdr_of (take 64 D))" "e_entry (ehdr_of (take 64 D)) < USER_END_VMA"
    and room: "3 * sum_list (map (\<lambda>j. seg_count (phdr_at D (ehdr_of (take 64 D)) j)) (load_indices D (ehdr_of (take 64 D)))) \<le> length ps"
  shows "\<exists>st'. process_exec env (FileIo k) st = Inr (EnterUser (main_anchor sk) USER_STACK_VMA (e_entry (ehdr_of (take 64 D))), st') \<and>
    curthr st' = MainThread \<and> (\<forall>j \<in> set (load_indices D (ehdr_of (take 64 D))). loaded D (phdr_at D (ehdr_of (take 64 D)) j) st')"
proof -
  let ?pt2 = "img_main_pt2 img"
  have sp: "wf_space (pmem st) ?pt2 (set ps)" "active_space_root st = ?pt2" "free_prefix st ps"
      "\<forall>p \<in> set ps. p < 2 ^ 56" "sstatus_sum st" "\<forall>n < 2 ^ 28. \<not> superpage (pmem st) ?pt2 (ua n)"
    and nf: "frames sel_user (pmem st) ?pt2 user_pages = []" and kfs: "kfs st = f" and cur: "cur_proc st = Inr (main_proc, boot_proc)"
    using st unfolding started_def by blast+
  obtain t where t: "thrs st (curthr st) = Some t" "stack_base t = main_anchor sk" "curthr st = MainThread" using st by (auto simp: started_def)
  have fr: "set (frames sel_user (pmem st) ?pt2 user_pages) \<subseteq> set ps - {0}" "distinct (frames sel_user (pmem st) ?pt2 user_pages @ ps)"
    unfolding nf using mm_prefix.pool_distinct [OF sp(3)] by simp_all
  have rm: "3 * sum_list (map (\<lambda>j. seg_count (phdr_at D (ehdr_of (take 64 D)) j)) (load_indices D (ehdr_of (take 64 D)))) \<le>
      length (frames sel_user (pmem st) ?pt2 user_pages) + length ps"
    unfolding nf using room by simp
  show ?thesis
    using process_exec_ok [OF dev exe(1-3) [folded kfs] exe(4) sp(1-3) subset_refl sp(4-6) fr t(1) cur entry rm] t(2,3) by auto
qed

section \<open>Correctness properties\<close>

text \<open>
  C3. The machine starts: when \<open>mkfs\<close> has built the disk from files of the host that include an
  executable named \<open>init_shell\<close>, and the devices attach, the main function of the kernel initialises memory,
  threads and processes, mounts the disk, finds the program by its name, loads every segment of
  it into the user part of the main address space and enters user mode at its entry point, on the
  stack of the main thread.
\<close>

theorem kernel_boots:
  assumes st: "static_kernel st" "devices st = devtab_empty" "fs_fresh (kfs st)" and img: "image_ready img st"
    and dev: "virtio_ok serve contents" "blk_ops env = vioblk_io_ops serve"
    and mk: "fits host args" "junk_ok junk" "\<forall>a \<in> set (butlast args). \<not> 4096 dvd length (the (host a))"
      "distinct (map (\<lambda>a. take 32 (shortname a)) args)" "mkfs_main host True junk (c # out # args) = Inr (0, blocks)"
    and disk: "has_disk contents b (concat blocks) hw"
    and prog: "i < length args" "shortname (args ! i) = INIT_PROC" "the (host (args ! i)) = D" "elf_ok D"
      "USER_START_VMA \<le> e_entry (ehdr_of (take 64 D))" "e_entry (ehdr_of (take 64 D)) < USER_END_VMA"
    and room: "3 * sum_list (map (\<lambda>j. seg_count (phdr_at D (ehdr_of (take 64 D)) j)) (load_indices D (ehdr_of (take 64 D)))) + 6 \<le>
      length (boot_pages img)"
  shows "\<exists>st'. kmain env hw img sk st = Inr (EnterUser (main_anchor sk) USER_STACK_VMA (e_entry (ehdr_of (take 64 D))), st') \<and>
    curthr st' = MainThread \<and>
    (\<forall>j \<in> set (load_indices D (ehdr_of (take 64 D))). loaded D (phdr_at D (ehdr_of (take 64 D)) j) st')"
proof -
  have "6 \<le> length (boot_pages img)" using room by simp
  from boot_started [OF st(1,2) img disk this, of sk]
  obtain s1 s2 blks k us bs a dev where s: "main_init img sk st = Inr s1" "main_attach hw s1 = Inr (blks, s2)" "k \<le> 6"
      "started img (drop k (boot_pages img)) sk (kfs st) s2"
      "device_open (open_device hw) (devices s2) ''blk'' 0 (devs s2, blks, None) = Inr (0, us, bs, Some a)" "bs a = Some dev"
      and vb: "vb_wf contents dev" "\<not> vb_lock dev" and data: "vb_data contents dev = concat blocks" .
  then have ok: "vb_wf contents dev \<and> \<not> vb_lock dev" by blast
  have "image_ok (concat blocks) (files_of host args)" using mkfs_image [OF mk(1-3), of c out] mk(5) by auto
  then have f: "image_ok (vb_data contents dev) (files_of host args)" by (simp add: data)
  have fi: "distinct (map fst (files_of host args))" "i < length (files_of host args)"
      "snd (files_of host args ! i) = D" "NUL \<notin> set INIT_PROC" and nm: "take 32 INIT_PROC = fst (files_of host args ! i)"
    using mk(4) prog(1-3) by (simp_all add: files_of_def comp_def INIT_PROC_def)
  obtain f1 f2 where fs: "fs_mount (blk_ops env) dev (kfs st) = Inr (0, f1)" "fs_open (blk_ops env) INIT_PROC f1 = Inr ((0, Some 0), f2)"
      "fs_wf (\<lambda>dev. vb_wf contents dev \<and> \<not> vb_lock dev) (vb_data contents) 0 f2" "fs_contents (vb_data contents) 0 f2 = D" "fs_at 0 f2 = 0"
    using block_device.image_open [OF vioblk_block_device [OF dev(1)] f fi(1,2,4) nm ok st(3)] unfolding dev(2) fi(3) by blast
  define s4 where "s4 = (snd (intr_enable s2))\<lparr>devs := us, kfs := f2\<rparr>"
  have mount: "main_mount env hw blks s2 = Inr ((snd (intr_enable s2))\<lparr>devs := us, kfs := f1\<rparr>)"
    using s(4-6) fs(1) by (simp add: main_mount_def Let_def started_def intr_defs)
  let ?ps = "drop k (boot_pages img)"
  have "cur_proc s2 = Inr (main_proc, boot_proc)" using s(4) by (simp add: started_def)
  then have c4: "cur_proc s4 = Inr (main_proc, boot_proc)"
    using cur_procE(2) by (rule_tac cur_proc_cong) (auto simp: s4_def intr_defs)
  have s4: "started img ?ps sk f2 s4"
    using s(4) c4 unfolding s4_def by (simp add: started_def intr_defs free_prefix_def active_space_root_def active_space_mtag_def)
  have rm: "3 * sum_list (map (\<lambda>j. seg_count (phdr_at D (ehdr_of (take 64 D)) j)) (load_indices D (ehdr_of (take 64 D)))) \<le> length ?ps"
    using room s(3) by simp
  obtain st' where ex: "process_exec env (FileIo 0) s4 = Inr (EnterUser (main_anchor sk) USER_STACK_VMA (e_entry (ehdr_of (take 64 D))), st')"
      "curthr st' = MainThread" "\<forall>j \<in> set (load_indices D (ehdr_of (take 64 D))). loaded D (phdr_at D (ehdr_of (take 64 D)) j) st'"
    using started_exec [OF s4 dev fs(3,5,4) prog(4-6) rm] by blast
  have "kmain env hw img sk st = Inr (EnterUser (main_anchor sk) USER_STACK_VMA (e_entry (ehdr_of (take 64 D))), st')"
    using ex(1) by (simp add: kmain_def s(1,2) mount main_exec_def fs(2) Let_def s4_def)
  with ex(2,3) show ?thesis by auto
qed



text \<open>
  A disk with the executable of the earlier examples in the third slot of the bus, and eight
  mebibytes of RAM.
\<close>

definition init_host :: "string \<rightharpoonup> u8 list" where
  "init_host = [''user/bin/init_shell'' \<mapsto> demo_prog]"

definition demo_slot :: "u8 list virtio_dev" where
  "demo_slot = \<lparr>magic_value = VIRTIO_MAGIC, version = 2, device_id = VIRTIO_ID_NONE, device_features = [0x10000040, 0x100, 0, 0],
     features_ok = True, blk_size = 512, capacity = 0, queue_regs = zero_regs, vd_hw = []\<rparr>"

definition demo_hw :: "u8 list \<Rightarrow> u8 list machine" where
  "demo_hw disk = \<lparr>slots = (\<lambda>_. demo_slot)(2 := demo_slot\<lparr>device_id := VIRTIO_ID_BLOCK, capacity := of_nat (length disk div 512), vd_hw := disk\<rparr>),
     enabled_junk = [7, 7, 7, 7], driver_features = [0, 0, 0, 0], blkbuf_junk = (\<lambda>_. 255), queue_num_read = 0\<rparr>"

definition demo_kenv :: "(u8 list vioblk, uarts) kenv" where
  "demo_kenv = \<lparr>blk_ops = vioblk_io_ops serve_disk, dev_ops = (\<lambda>_. \<lparr>op_close = None, op_read = None, op_write = None, op_ctl = None\<rparr>),
     dev_open = (\<lambda>_ _ s. Inr (- ENODEV, s)), main_pt2 = 0x80010000, sleep_alarm = (\<lambda>_. (0, DevCond 0)),
     kmalloc_junk = zero_process, thread_junk = zero_thread, stack_junk = 0\<rparr>"

definition demo_static :: "(u8 list vioblk, uarts) ks" where
  "demo_static = ct.extend demo_ct (ks.fields static_procs static_proctab False raw_fs devtab_empty Map.empty (\<lambda>_. 0))"

lemma demo_kenv_ok: "dev_typed demo_kenv" "junk_typed demo_kenv" "blk_ops demo_kenv = vioblk_io_ops serve_disk"
  by (simp_all add: demo_kenv_def dev_typed_def junk_typed_def zero_process_def zero_thread_def)

lemma demo_static_ok: "static_kernel demo_static" "devices demo_static = devtab_empty" "kfs demo_static = raw_fs" "fs_fresh raw_fs"
  "pmem demo_static = pmem demo_vm"
  by (simp_all add: static_kernel_def demo_static_def ct.defs ks.defs demo_ct_def it.defs demo_it_def kt.defs demo_kt_def
      ts.defs Thread.demo_boot_def fs_fresh_def raw_fs_def demo_fs_def)

lemma demo_has_disk:
  assumes "512 dvd length disk" and "length disk < 2 ^ 41"
  shows "has_disk (\<lambda>hw. hw) 2 disk (demo_hw disk)"
proof -
  have "of_nat (length disk div 512) * 512 = (of_nat (length disk) :: u64)"
    using assms(1) by (metis dvd_div_mult_self of_nat_mult of_nat_numeral)
  then show ?thesis using assms
    by (auto simp: has_disk_def blk_slot_def empty_slot_def demo_hw_def demo_slot_def)
qed

lemma demo_image_ready: "image_ready demo_image demo_static"
proof -
  have "pmem demo_vm (t + 8 * i) = 0" if "t \<in> {0x80010000, 0x80011000}" "i < 512" for t i
    by (rule demo_zero [of t]) (use that entry_offset_less [OF that(2), of t] in \<open>auto simp: aligned_def demo_pages_def\<close>)
  then show ?thesis
    using demo_image_fits unfolding image_ready_def
    by (simp add: demo_static_ok img_tables_def) (simp add: demo_image_def RAM_END_PMA_def RAM_START_PMA_def GIGA_SIZE_def MEGA_SIZE_def aligned_def)
qed

lemma demo_boot_pages: "length (boot_pages demo_image) = 2016"
proof -
  have "init_heap_end (kimg_end demo_image) = 0x80020000" by code_simp
  then show ?thesis
    by (simp add: boot_pages_def addr_range_def RAM_END_PMA_def RAM_START_PMA_def) (simp add: demo_image_def)
qed

theorem kernel_boots_witness:
  "\<exists>blocks st'. mkfs_main init_host True demo_junk [''mkfs'', ''kfs.raw'', ''user/bin/init_shell''] = Inr (0, blocks) \<and>
     kmain demo_kenv (demo_hw (concat blocks)) demo_image demo_stacks demo_static = Inr (EnterUser 0x80016FF0 USER_STACK_VMA 0xC0000000, st') \<and>
     loaded demo_prog prog_phdr st'"
proof -
  let ?args = "[''user/bin/init_shell'']"
  have h: "the (init_host (?args ! 0)) = demo_prog" "shortname (?args ! 0) = INIT_PROC"
    by (simp_all add: init_host_def shortname_def INIT_PROC_def)
  have fit: "fits init_host ?args" using h demo_prog_length by (simp add: fits_def init_host_def INIT_PROC_def)
  have whole: "\<forall>a \<in> set (butlast ?args). \<not> 4096 dvd length (the (init_host a))" by simp
  obtain blocks where m: "mkfs_main init_host True demo_junk (''mkfs'' # ''kfs.raw'' # ?args) = Inr (0, blocks)"
    "image_ok (concat blocks) (files_of init_host ?args)" using mkfs_image [OF fit demo_junk_ok whole] by blast
  have "4096 dvd length (concat blocks)" "length (concat blocks) < 2 ^ 32" using m(2) unfolding image_ok_def by blast+
  then have d: "512 dvd length (concat blocks)" "length (concat blocks) < 2 ^ 41" by (auto elim: dvd_trans [rotated])
  have e: "e_entry prog_ehdr = 0xC0000000" by (simp add: prog_ehdr_def)
  have en: "USER_START_VMA \<le> e_entry (ehdr_of (take 64 demo_prog))" "e_entry (ehdr_of (take 64 demo_prog)) < USER_END_VMA"
    unfolding demo_prog_headers(1) e by (simp_all add: USER_START_VMA_def USER_END_VMA_def)
  have room: "3 * sum_list (map (\<lambda>j. seg_count (phdr_at demo_prog prog_ehdr j)) (load_indices demo_prog prog_ehdr)) + 6 \<le>
      length (boot_pages demo_image)"
    unfolding demo_prog_segment(3) demo_boot_pages by (simp add: demo_prog_headers(2) demo_prog_segment(2))
  from kernel_boots [OF demo_static_ok(1,2) _ demo_image_ready serve_disk_ok demo_kenv_ok(3) fit demo_junk_ok whole
      _ m(1) demo_has_disk [OF d] _ h(2,1) demo_prog_ok en room [folded demo_prog_headers(1)], of demo_stacks] m(1)
  show ?thesis unfolding demo_prog_headers(1) demo_prog_segment(3) e demo_static_ok(3)
    by (auto simp: demo_prog_headers(2) demo_stacks_def demo_static_ok(4))
qed

lemma demo_reached: "\<exists>st :: (u8 list vioblk, uarts) ks. kreach demo_kenv (demo_hw demo_disk) st \<and> curthr st = MainThread"
proof -
  have d: "512 dvd length demo_disk" "length demo_disk < 2 ^ 41" by (simp_all add: demo_blocks)
  have "6 \<le> length (boot_pages demo_image)" by (simp add: demo_boot_pages)
  from boot_started [OF demo_static_ok(1,2) demo_image_ready demo_has_disk [OF d] this, of demo_stacks]
  obtain s1 s2 blks k us bs a dev where s: "main_init demo_image demo_stacks demo_static = Inr s1" "main_attach (demo_hw demo_disk) s1 = Inr (blks, s2)"
      "k \<le> 6" "started demo_image (drop k (boot_pages demo_image)) demo_stacks (kfs demo_static) s2"
      "device_open (open_device (demo_hw demo_disk)) (devices s2) ''blk'' 0 (devs s2, blks, None) = Inr (0, us, bs, Some a)" "bs a = Some dev"
      and vb: "vb_wf (\<lambda>hw. hw) dev" "\<not> vb_lock dev" and data: "vb_data (\<lambda>hw. hw) dev = demo_disk" .
  have "4096 \<le> length (vb_data (\<lambda>hw. hw) dev)" "unat (num_dentry (disk_block (vb_data (\<lambda>hw. hw) dev) 0)) \<le> 63"
    by (simp_all add: data demo_blocks demo_boot_members)
  then obtain fs where fs: "fs_mount (vioblk_io_ops serve_disk) dev raw_fs = Inr (0, fs)"
    using block_device.fs_mount_ok [OF vioblk_block_device [OF serve_disk_ok] demo_static_ok(4)] vb by blast
  have "main_mount demo_kenv (demo_hw demo_disk) blks s2 = Inr ((snd (intr_enable s2))\<lparr>devs := us, kfs := fs\<rparr>)"
    using s(4-6) fs by (simp add: main_mount_def Let_def started_def intr_defs demo_kenv_ok(3) demo_static_ok(3))
  from kreach.boot [OF demo_static_ok(1) s(1,2) this]
  have "kreach demo_kenv (demo_hw demo_disk) ((snd (intr_enable s2))\<lparr>devs := us, kfs := fs\<rparr>)" .
  moreover have "curthr ((snd (intr_enable s2))\<lparr>devs := us, kfs := fs\<rparr>) = MainThread" using s(4) by (simp add: intr_defs started_def)
  ultimately show ?thesis by blast
qed



end
